(* ===== verification/EtDefs.thy ===== *)
theory EtDefs imports Main "HOL-Library.Word" "HOL-Library.Monad_Syntax" begin

text \<open>
  Prelude of the development: the numeric constants of the ET library
  (\<^verbatim>\<open>et_12.0/src/libsrc/et.h\<close> and \<^verbatim>\<open>et_private.h\<close>) under the source's names, the types
  the components share, the collections of hints (\<open>et_defs\<close>, \<open>et_frame\<close>) and the generic lemmas
  on lists and updated functions that the components' proofs use.

  C's \<^verbatim>\<open>int\<close> fields are \<^typ>\<open>int\<close> (the library only counts events, stations and attachments
  in them; the properties bound them), the \<^verbatim>\<open>uint64_t\<close> statistics are \<open>64 word\<close> and wrap, and
  the control and selection words, on which the code works bitwise, are \<open>32 word\<close>.
\<close>

named_theorems et_defs "definitions of small accessors, unfolded by the component proofs"
named_theorems et_frame "what an operation leaves unchanged"

unbundle bit_operations_syntax

type_synonym u64 = "64 word"
type_synonym i32 = "32 word"

section \<open>Return codes and flags of et.h and et_private.h\<close>

abbreviation (input) ET_OK :: int where "ET_OK \<equiv> 0"
abbreviation (input) ET_ERROR :: int where "ET_ERROR \<equiv> - 1"
abbreviation (input) ET_ERROR_TOOMANY :: int where "ET_ERROR_TOOMANY \<equiv> - 2"
abbreviation (input) ET_ERROR_EXISTS :: int where "ET_ERROR_EXISTS \<equiv> - 3"
abbreviation (input) ET_ERROR_WAKEUP :: int where "ET_ERROR_WAKEUP \<equiv> - 4"
abbreviation (input) ET_ERROR_TIMEOUT :: int where "ET_ERROR_TIMEOUT \<equiv> - 5"
abbreviation (input) ET_ERROR_EMPTY :: int where "ET_ERROR_EMPTY \<equiv> - 6"
abbreviation (input) ET_ERROR_BUSY :: int where "ET_ERROR_BUSY \<equiv> - 7"
abbreviation (input) ET_ERROR_DEAD :: int where "ET_ERROR_DEAD \<equiv> - 8"

abbreviation (input) ET_SYS :: int where "ET_SYS \<equiv> - 1"
abbreviation (input) ET_END :: int where "ET_END \<equiv> - 1"
abbreviation (input) ET_NEWHEAD :: int where "ET_NEWHEAD \<equiv> - 2"
abbreviation (input) ET_GRANDCENTRAL :: int where "ET_GRANDCENTRAL \<equiv> 0"

abbreviation (input) ET_STATION_CUE :: int where "ET_STATION_CUE \<equiv> 10"
abbreviation (input) ET_STATION_PRESCALE :: int where "ET_STATION_PRESCALE \<equiv> 1"
abbreviation (input) ET_STATION_SELECT_INTS :: nat where "ET_STATION_SELECT_INTS \<equiv> 6"
abbreviation (input) ET_FILENAME_LENGTH :: nat where "ET_FILENAME_LENGTH \<equiv> 100"
abbreviation (input) ET_FUNCNAME_LENGTH :: nat where "ET_FUNCNAME_LENGTH \<equiv> 48"
abbreviation (input) ET_STATNAME_LENGTH :: nat where "ET_STATNAME_LENGTH \<equiv> 48"
abbreviation (input) ET_ATTACHMENTS_MAX :: int where "ET_ATTACHMENTS_MAX \<equiv> 110"
abbreviation (input) ET_PROCESSES_MAX :: int where "ET_PROCESSES_MAX \<equiv> ET_ATTACHMENTS_MAX"
abbreviation (input) ET_IPADDRSTRLEN :: nat where "ET_IPADDRSTRLEN \<equiv> 16"
abbreviation (input) ET_MAXHOSTNAMELEN :: nat where "ET_MAXHOSTNAMELEN \<equiv> 256"
abbreviation (input) ET_VERSION :: int where "ET_VERSION \<equiv> 12"
abbreviation (input) ET_MUTEX_SHARE :: int where "ET_MUTEX_SHARE \<equiv> 0"
abbreviation (input) ET_MUTEX_NOSHARE :: int where "ET_MUTEX_NOSHARE \<equiv> 1"
abbreviation (input) ET_MUTEX_UNLOCKED :: int where "ET_MUTEX_UNLOCKED \<equiv> 0"
abbreviation (input) ET_MUTEX_LOCKED :: int where "ET_MUTEX_LOCKED \<equiv> 1"
abbreviation (input) ET_EVENT_GROUPS_MAX :: nat where "ET_EVENT_GROUPS_MAX \<equiv> 500"

abbreviation (input) ET_STATION_UNUSED :: int where "ET_STATION_UNUSED \<equiv> 0"
abbreviation (input) ET_STATION_CREATING :: int where "ET_STATION_CREATING \<equiv> 1"
abbreviation (input) ET_STATION_IDLE :: int where "ET_STATION_IDLE \<equiv> 2"
abbreviation (input) ET_STATION_ACTIVE :: int where "ET_STATION_ACTIVE \<equiv> 3"

abbreviation (input) ET_STATION_USER_MULTI :: int where "ET_STATION_USER_MULTI \<equiv> 0"
abbreviation (input) ET_STATION_USER_SINGLE :: int where "ET_STATION_USER_SINGLE \<equiv> 1"
abbreviation (input) ET_STATION_NONBLOCKING :: int where "ET_STATION_NONBLOCKING \<equiv> 0"
abbreviation (input) ET_STATION_BLOCKING :: int where "ET_STATION_BLOCKING \<equiv> 1"
abbreviation (input) ET_STATION_SELECT_ALL :: int where "ET_STATION_SELECT_ALL \<equiv> 1"
abbreviation (input) ET_STATION_SELECT_MATCH :: int where "ET_STATION_SELECT_MATCH \<equiv> 2"
abbreviation (input) ET_STATION_SELECT_USER :: int where "ET_STATION_SELECT_USER \<equiv> 3"
abbreviation (input) ET_STATION_SELECT_RROBIN :: int where "ET_STATION_SELECT_RROBIN \<equiv> 4"
abbreviation (input) ET_STATION_SELECT_EQUALCUE :: int where "ET_STATION_SELECT_EQUALCUE \<equiv> 5"
abbreviation (input) ET_STATION_RESTORE_OUT :: int where "ET_STATION_RESTORE_OUT \<equiv> 0"
abbreviation (input) ET_STATION_RESTORE_IN :: int where "ET_STATION_RESTORE_IN \<equiv> 1"
abbreviation (input) ET_STATION_RESTORE_GC :: int where "ET_STATION_RESTORE_GC \<equiv> 2"
abbreviation (input) ET_STATION_RESTORE_REDIST :: int where "ET_STATION_RESTORE_REDIST \<equiv> 3"
abbreviation (input) ET_STATION_SERIAL :: int where "ET_STATION_SERIAL \<equiv> 0"
abbreviation (input) ET_STATION_PARALLEL :: int where "ET_STATION_PARALLEL \<equiv> 1"

abbreviation (input) ET_LOW :: int where "ET_LOW \<equiv> 0"
abbreviation (input) ET_HIGH :: int where "ET_HIGH \<equiv> 1"
abbreviation (input) ET_EVENT_TEMP :: int where "ET_EVENT_TEMP \<equiv> 1"
abbreviation (input) ET_EVENT_NORMAL :: int where "ET_EVENT_NORMAL \<equiv> 0"
abbreviation (input) ET_EVENT_NEW :: int where "ET_EVENT_NEW \<equiv> 1"
abbreviation (input) ET_EVENT_USED :: int where "ET_EVENT_USED \<equiv> 0"
abbreviation (input) ET_SLEEP :: int where "ET_SLEEP \<equiv> 0"
abbreviation (input) ET_TIMED :: int where "ET_TIMED \<equiv> 1"
abbreviation (input) ET_ASYNC :: int where "ET_ASYNC \<equiv> 2"
abbreviation (input) ET_REMOTE :: int where "ET_REMOTE \<equiv> 0"
abbreviation (input) ET_LOCAL :: int where "ET_LOCAL \<equiv> 1"
abbreviation (input) ET_LOCAL_NOSHARE :: int where "ET_LOCAL_NOSHARE \<equiv> 2"
abbreviation (input) ET_LANG_JAVA :: int where "ET_LANG_JAVA \<equiv> 2"
abbreviation (input) ET_DATA_OK :: int where "ET_DATA_OK \<equiv> 0"
abbreviation (input) ET_DATA_CORRUPT :: int where "ET_DATA_CORRUPT \<equiv> 1"
abbreviation (input) ET_DATA_POSSIBLY_CORRUPT :: int where "ET_DATA_POSSIBLY_CORRUPT \<equiv> 2"
abbreviation (input) ET_ENDIAN_BIG :: int where "ET_ENDIAN_BIG \<equiv> 0"
abbreviation (input) ET_ENDIAN_LITTLE :: int where "ET_ENDIAN_LITTLE \<equiv> 1"
abbreviation (input) ET_ENDIAN_LOCAL :: int where "ET_ENDIAN_LOCAL \<equiv> 2"
abbreviation (input) ET_ENDIAN_NOTLOCAL :: int where "ET_ENDIAN_NOTLOCAL \<equiv> 3"
abbreviation (input) ET_ENDIAN_SWITCH :: int where "ET_ENDIAN_SWITCH \<equiv> 4"
abbreviation (input) ET_NOSWAP :: int where "ET_NOSWAP \<equiv> 0"
abbreviation (input) ET_SWAP :: int where "ET_SWAP \<equiv> 1"

abbreviation (input) ET_ATT_UNUSED :: int where "ET_ATT_UNUSED \<equiv> 0"
abbreviation (input) ET_ATT_ACTIVE :: int where "ET_ATT_ACTIVE \<equiv> 1"
abbreviation (input) ET_ATT_CONTINUE :: int where "ET_ATT_CONTINUE \<equiv> 0"
abbreviation (input) ET_ATT_QUIT :: int where "ET_ATT_QUIT \<equiv> 1"
abbreviation (input) ET_ATT_UNBLOCKED :: int where "ET_ATT_UNBLOCKED \<equiv> 0"
abbreviation (input) ET_ATT_BLOCKED :: int where "ET_ATT_BLOCKED \<equiv> 1"
abbreviation (input) ET_ATT_NOSLEEP :: int where "ET_ATT_NOSLEEP \<equiv> 0"
abbreviation (input) ET_ATT_SLEEP :: int where "ET_ATT_SLEEP \<equiv> 1"
abbreviation (input) ET_PROC_CLOSED :: int where "ET_PROC_CLOSED \<equiv> 0"
abbreviation (input) ET_PROC_OPEN :: int where "ET_PROC_OPEN \<equiv> 1"
abbreviation (input) ET_PROC_ETDEAD :: int where "ET_PROC_ETDEAD \<equiv> 0"
abbreviation (input) ET_STRUCT_NEW :: int where "ET_STRUCT_NEW \<equiv> 0"
abbreviation (input) ET_STRUCT_OK :: int where "ET_STRUCT_OK \<equiv> 1"
abbreviation (input) ET_THREAD_KEEP :: int where "ET_THREAD_KEEP \<equiv> 0"
abbreviation (input) ET_THREAD_KILL :: int where "ET_THREAD_KILL \<equiv> 1"
abbreviation (input) ET_FIX_READ :: int where "ET_FIX_READ \<equiv> 0"
abbreviation (input) ET_FIX_DUMP :: int where "ET_FIX_DUMP \<equiv> 1"

section \<open>Event pointers\<close>

text \<open>
  A pointer to an event is \<open>None\<close> (NULL) or the place of the event in the array of events that the
  system keeps in shared memory. The translations \<^verbatim>\<open>ET_PEVENT2USR\<close> and \<^verbatim>\<open>ET_PEVENT2ET\<close>
  between the address spaces of two processes keep the place, so they are the identity here.
\<close>

type_synonym eptr = "nat option"

section \<open>Generic lemmas\<close>

lemma takeWhile_append_all: "\<forall>x\<in>set xs. P x \<Longrightarrow> takeWhile P (xs @ ys) = xs @ takeWhile P ys"
  by (induction xs) auto

lemma dropWhile_append_all: "\<forall>x\<in>set xs. P x \<Longrightarrow> dropWhile P (xs @ ys) = dropWhile P ys"
  by (induction xs) auto

lemma takeWhile_none: "\<forall>x\<in>set xs. \<not> P x \<Longrightarrow> takeWhile P xs = []"
  by (cases xs) auto

lemma dropWhile_none: "\<forall>x\<in>set xs. \<not> P x \<Longrightarrow> dropWhile P xs = xs"
  by (cases xs) auto

lemma length_takeWhile_all_iff: "length (takeWhile P xs) = length xs \<longleftrightarrow> (\<forall>x\<in>set xs. P x)"
  by (induction xs) auto

lemma nth_last_takeWhile:
  "takeWhile P xs \<noteq> [] \<Longrightarrow> xs ! (length (takeWhile P xs) - 1) = last (takeWhile P xs)"
  by (metis diff_less last_conv_nth length_greater_0_conv takeWhile_nth zero_less_one)

end
