(* ===== verification/EtEvent.thy ===== *)
theory EtEvent imports EtDefs begin

text \<open>
  The event header (\<^verbatim>\<open>et_event\<close> of \<^verbatim>\<open>et.h\<close>), its initialisation (\<^verbatim>\<open>et_init.c\<close>) and the access
  routines of \<^verbatim>\<open>et_event.c\<close>. Data addresses are 64 bit words. An output argument that the C
  code tests against NULL is a boolean \<open>nn\<close> (``not NULL'') and the value stored through it an
  option in the result. The lemmas show the round trips of the setters and getters and the
  invariant that the data length never exceeds the memory of the event.
\<close>

record et_event =
  ev_next :: eptr
  tempdata :: u64
  pdata :: u64
  data :: u64
  ev_length :: u64
  memsize :: u64
  pointer :: u64
  modify :: int
  priority :: int
  owner :: int
  temp :: int
  age :: int
  datastatus :: int
  byteorder :: i32
  ev_group :: int
  ev_place :: int
  control :: "i32 list"
  ev_filename :: string

section \<open>Initialisation\<close>

definition et_init_event :: "et_event \<Rightarrow> et_event" where
  "et_init_event pe = pe\<lparr>
     owner := ET_SYS, ev_next := None, tempdata := 0, pdata := 0, ev_length := 0, memsize := 0,
     priority := ET_LOW, temp := ET_EVENT_NORMAL, age := ET_EVENT_NEW, datastatus := ET_DATA_OK,
     byteorder := 0x04030201, ev_group := 0, pointer := 0, modify := 0,
     control := replicate ET_STATION_SELECT_INTS 0\<rparr>"

definition et_init_event_' :: "et_event \<Rightarrow> et_event" where
  "et_init_event_' pe =
     (let grp = ev_group pe; own = owner pe;
          pe1 = et_init_event pe;
          pe2 = pe1\<lparr>owner := own\<rparr>
      in pe2\<lparr>ev_group := grp\<rparr>)"

section \<open>Access to the event structure\<close>

definition et_event_getgroup :: "et_event \<Rightarrow> bool \<Rightarrow> int \<times> int option" where
  "et_event_getgroup pe nn = (if \<not> nn then (ET_ERROR, None) else (ET_OK, Some (ev_group pe)))"

definition et_event_setpriority :: "et_event \<Rightarrow> int \<Rightarrow> int \<times> et_event" where
  "et_event_setpriority pe pri =
     (if pri \<noteq> ET_HIGH \<and> pri \<noteq> ET_LOW then (ET_ERROR, pe)
      else (ET_OK, pe\<lparr>priority := pri\<rparr>))"

definition et_event_getpriority :: "et_event \<Rightarrow> bool \<Rightarrow> int \<times> int option" where
  "et_event_getpriority pe nn = (if \<not> nn then (ET_ERROR, None) else (ET_OK, Some (priority pe)))"

text \<open>The first test of the C function, \<^verbatim>\<open>len < 0\<close>, is on an unsigned value and never holds.\<close>

definition et_event_setlength :: "et_event \<Rightarrow> u64 \<Rightarrow> int \<times> et_event" where
  "et_event_setlength pe len =
     (if len < 0 then (ET_ERROR, pe)
      else if len > memsize pe then (ET_ERROR, pe)
      else (ET_OK, pe\<lparr>ev_length := len\<rparr>))"

definition et_event_getlength :: "et_event \<Rightarrow> bool \<Rightarrow> int \<times> u64 option" where
  "et_event_getlength pe nn = (if \<not> nn then (ET_ERROR, None) else (ET_OK, Some (ev_length pe)))"

definition et_event_getdata :: "et_event \<Rightarrow> bool \<Rightarrow> int \<times> u64 option" where
  "et_event_getdata pe nn = (if \<not> nn then (ET_ERROR, None) else (ET_OK, Some (pdata pe)))"

text \<open>The loop \<^verbatim>\<open>for (i=0; i < num; i++) dst[i] = src[i]\<close>.\<close>

definition copy_ints :: "nat \<Rightarrow> i32 list \<Rightarrow> i32 list \<Rightarrow> i32 list" where
  "copy_ints n src dst = foldl (\<lambda>d i. d[i := src ! i]) dst [0..<n]"

definition et_event_setcontrol :: "et_event \<Rightarrow> i32 list \<Rightarrow> int \<Rightarrow> int \<times> et_event" where
  "et_event_setcontrol pe con num =
     (if num < 1 \<or> num > int ET_STATION_SELECT_INTS then (ET_ERROR, pe)
      else (ET_OK, pe\<lparr>control := copy_ints (nat num) con (control pe)\<rparr>))"

definition et_event_getcontrol :: "et_event \<Rightarrow> bool \<Rightarrow> i32 list \<Rightarrow> int \<times> i32 list" where
  "et_event_getcontrol pe nn con =
     (if \<not> nn then (ET_ERROR, con)
      else (ET_OK, copy_ints ET_STATION_SELECT_INTS (control pe) con))"

definition et_event_setdatastatus :: "et_event \<Rightarrow> int \<Rightarrow> int \<times> et_event" where
  "et_event_setdatastatus pe st =
     (if st \<noteq> ET_DATA_OK \<and> st \<noteq> ET_DATA_CORRUPT \<and> st \<noteq> ET_DATA_POSSIBLY_CORRUPT
      then (ET_ERROR, pe)
      else (ET_OK, pe\<lparr>datastatus := st\<rparr>))"

definition et_event_getdatastatus :: "et_event \<Rightarrow> bool \<Rightarrow> int \<times> int option" where
  "et_event_getdatastatus pe nn =
     (if \<not> nn then (ET_ERROR, None) else (ET_OK, Some (datastatus pe)))"

text \<open>
  \<^verbatim>\<open>ET_SWAP32\<close>; the right shifts of a C \<^verbatim>\<open>int\<close> are arithmetic. The byte order of the host,
  found by \<^verbatim>\<open>etNetLocalByteOrder\<close>, is the argument \<open>lbo\<close>: its return code and the value.
\<close>

definition ET_SWAP32 :: "i32 \<Rightarrow> i32" where
  "ET_SWAP32 x = (signed_drop_bit 24 x AND 0x000000FF) OR (signed_drop_bit 8 x AND 0x0000FF00) OR
                 (push_bit 8 x AND 0x00FF0000) OR (push_bit 24 x AND 0xFF000000)"

definition et_event_setendian :: "int \<times> int \<Rightarrow> et_event \<Rightarrow> int \<Rightarrow> int \<times> et_event" where
  "et_event_setendian lbo pe endian =
     (let (err, myendian) = lbo in
      if err \<noteq> ET_OK then (err, pe)
      else if endian \<noteq> ET_ENDIAN_BIG \<and> endian \<noteq> ET_ENDIAN_LITTLE \<and> endian \<noteq> ET_ENDIAN_LOCAL \<and>
              endian \<noteq> ET_ENDIAN_NOTLOCAL \<and> endian \<noteq> ET_ENDIAN_SWITCH then (ET_ERROR, pe)
      else if endian = ET_ENDIAN_BIG \<or> endian = ET_ENDIAN_LITTLE
        then (ET_OK, pe\<lparr>byteorder := (if myendian = endian then 0x04030201 else 0x01020304)\<rparr>)
      else if endian = ET_ENDIAN_LOCAL then (ET_OK, pe\<lparr>byteorder := 0x04030201\<rparr>)
      else if endian = ET_ENDIAN_NOTLOCAL then (ET_OK, pe\<lparr>byteorder := 0x01020304\<rparr>)
      else (ET_OK, pe\<lparr>byteorder := ET_SWAP32 (byteorder pe)\<rparr>))"

definition et_event_getendian :: "int \<times> int \<Rightarrow> et_event \<Rightarrow> bool \<Rightarrow> int \<times> int option" where
  "et_event_getendian lbo pe nn =
     (if \<not> nn then (ET_ERROR, None)
      else let (err, myendian) = lbo in
        if err \<noteq> ET_OK then (err, None)
        else let notmyendian = (if myendian = ET_ENDIAN_BIG then ET_ENDIAN_LITTLE else ET_ENDIAN_BIG)
             in (ET_OK, Some (if byteorder pe = 0x04030201 then myendian else notmyendian)))"

definition et_event_needtoswap :: "et_event \<Rightarrow> bool \<Rightarrow> int \<times> int option" where
  "et_event_needtoswap pe nn =
     (if \<not> nn then (ET_ERROR, None)
      else (ET_OK, Some (if byteorder pe = 0x04030201 then ET_NOSWAP else ET_SWAP)))"

section \<open>Properties of the accessors\<close>

lemma length_copy_ints [simp]: "length (copy_ints n src dst) = length dst"
  by (induction n) (simp_all add: copy_ints_def)

lemma copy_ints_nth:
  "i < length dst \<Longrightarrow> copy_ints n src dst ! i = (if i < n then src ! i else dst ! i)"
  by (induction n)
    (simp_all add: copy_ints_def[abs_def] nth_list_update less_Suc_eq
      length_copy_ints[unfolded copy_ints_def])

text \<open>The four byte masks of \<^verbatim>\<open>ET_SWAP32\<close> as bit ranges.\<close>

lemma byte_masks:
  "(0x000000FF :: i32) = mask 8"
  "(0x0000FF00 :: i32) = push_bit 8 (mask 8)"
  "(0x00FF0000 :: i32) = push_bit 16 (mask 8)"
  "(0xFF000000 :: i32) = push_bit 24 (mask 8)"
  by (simp_all add: mask_eq_exp_minus_1 push_bit_eq_mult)

lemma bit_ET_SWAP32:
  "bit (ET_SWAP32 x) n \<longleftrightarrow> n < 32 \<and>
     (if n < 8 then bit x (n + 24) else if n < 16 then bit x (n + 8)
      else if n < 24 then bit x (n - 8) else bit x (n - 24))"
  unfolding ET_SWAP32_def byte_masks
  by (auto simp: bit_simps add.commute)

lemma ET_SWAP32_swap [simp]: "ET_SWAP32 (ET_SWAP32 x) = x"
  by (rule bit_word_eqI) (auto simp: bit_ET_SWAP32)

lemma ET_SWAP32_inj: "ET_SWAP32 x = ET_SWAP32 y \<longleftrightarrow> x = y"
  by (metis ET_SWAP32_swap)

lemma ET_SWAP32_native [simp]:
  "ET_SWAP32 0x04030201 = 0x01020304" "ET_SWAP32 0x01020304 = 0x04030201"
proof -
  show "ET_SWAP32 0x04030201 = 0x01020304" by (simp add: ET_SWAP32_def)
  then show "ET_SWAP32 0x01020304 = 0x04030201" by (metis ET_SWAP32_swap)
qed

section \<open>The data fits: an invariant of every event the accessors produce\<close>

definition event_fits :: "et_event \<Rightarrow> bool" where
  "event_fits pe \<longleftrightarrow> ev_length pe \<le> memsize pe \<and> length (control pe) = ET_STATION_SELECT_INTS"

lemma event_fits_init [simp]: "event_fits (et_init_event pe)" "event_fits (et_init_event_' pe)"
  by (simp_all add: event_fits_def et_init_event_def et_init_event_'_def Let_def)

lemma event_fits_setters:
  assumes "event_fits pe"
  shows "event_fits (snd (et_event_setpriority pe pri))"
    and "event_fits (snd (et_event_setlength pe len))"
    and "event_fits (snd (et_event_setcontrol pe con num))"
    and "event_fits (snd (et_event_setdatastatus pe st))"
    and "event_fits (snd (et_event_setendian lbo pe endian))"
  using assms
  by (auto simp: event_fits_def et_event_setpriority_def et_event_setlength_def
      et_event_setcontrol_def et_event_setdatastatus_def et_event_setendian_def
      split: prod.splits)

section \<open>Round trips of the accessors\<close>

lemma setlength_getlength:
  "et_event_setlength pe len = (ET_OK, pe') \<Longrightarrow> et_event_getlength pe' True = (ET_OK, Some len)"
  by (auto simp: et_event_setlength_def et_event_getlength_def split: if_splits)

lemma setlength_rejects: "memsize pe < len \<Longrightarrow> et_event_setlength pe len = (ET_ERROR, pe)"
  by (simp add: et_event_setlength_def)

lemma setcontrol_getcontrol:
  assumes "1 \<le> num" "num \<le> 6" "length con = 6" "length (control pe) = 6" "length out = 6"
  shows "et_event_getcontrol (snd (et_event_setcontrol pe con num)) True out =
    (ET_OK, take (nat num) con @ drop (nat num) (control pe))"
  using assms
  by (auto simp: et_event_getcontrol_def et_event_setcontrol_def copy_ints_nth nth_append
      intro!: nth_equalityI)

lemma setendian_getendian:
  assumes "my \<in> {ET_ENDIAN_BIG, ET_ENDIAN_LITTLE}"
    and "endian \<in> {ET_ENDIAN_BIG, ET_ENDIAN_LITTLE}"
  shows "et_event_getendian (ET_OK, my) (snd (et_event_setendian (ET_OK, my) pe endian)) True =
    (ET_OK, Some endian)"
  using assms by (auto simp: et_event_getendian_def et_event_setendian_def)

lemma setendian_switch_twice:
  "snd (et_event_setendian (ET_OK, my)
      (snd (et_event_setendian (ET_OK, my) pe ET_ENDIAN_SWITCH)) ET_ENDIAN_SWITCH) = pe"
  by (simp add: et_event_setendian_def)

lemma needtoswap_switch:
  assumes "byteorder pe \<in> {0x04030201, 0x01020304}"
    and "et_event_needtoswap pe True = (ET_OK, Some w)"
  shows "et_event_needtoswap (snd (et_event_setendian (ET_OK, my) pe ET_ENDIAN_SWITCH)) True =
    (ET_OK, Some (1 - w))"
  using assms by (auto simp: et_event_needtoswap_def et_event_setendian_def)

end
