(* ===== verification/EtStatConfig.thy ===== *)
theory EtStatConfig imports EtEvent begin

text \<open>
  Station configurations (\<^verbatim>\<open>et_stat_config\<close>): \<^verbatim>\<open>et_statconfig.c\<close>, the defaults, the checked
  setters, the consistency check of a configuration and the compatibility check of two parallel
  stations. An allocation that may fail is the boolean argument \<open>mem\<close> of the initialisation; a
  string argument that may be NULL is an option. The lemmas show that a setter that succeeds
  stores its value and nothing else, that the defaults pass the check, and what a configuration
  that passes the check satisfies.
\<close>

record et_stat_config =
  sc_init :: int
  flow_mode :: int
  user_mode :: int
  restore_mode :: int
  block_mode :: int
  prescale :: int
  cue :: int
  select_mode :: int
  sc_select :: "i32 list"
  fname :: string
  sc_lib :: string
  classs :: string

definition default_config :: et_stat_config where
  "default_config = \<lparr>
     sc_init = ET_STRUCT_OK, flow_mode = ET_STATION_SERIAL, user_mode = ET_STATION_USER_MULTI,
     restore_mode = ET_STATION_RESTORE_OUT, block_mode = ET_STATION_BLOCKING,
     prescale = ET_STATION_PRESCALE, cue = ET_STATION_CUE, select_mode = ET_STATION_SELECT_ALL,
     sc_select = replicate ET_STATION_SELECT_INTS (- 1),
     fname = [], sc_lib = [], classs = []\<rparr>"

definition et_station_config_init :: "bool \<Rightarrow> int \<times> et_stat_config option" where
  "et_station_config_init mem =
     (if \<not> mem then (ET_ERROR, None) else (ET_OK, Some default_config))"

section \<open>Setters and getters\<close>

definition et_station_config_setblock :: "et_stat_config \<Rightarrow> int \<Rightarrow> int \<times> et_stat_config" where
  "et_station_config_setblock sc val =
     (if sc_init sc \<noteq> ET_STRUCT_OK then (ET_ERROR, sc)
      else if val \<noteq> ET_STATION_NONBLOCKING \<and> val \<noteq> ET_STATION_BLOCKING then (ET_ERROR, sc)
      else (ET_OK, sc\<lparr>block_mode := val\<rparr>))"

definition et_station_config_getblock :: "et_stat_config \<Rightarrow> int \<times> int" where
  "et_station_config_getblock sc = (ET_OK, block_mode sc)"

definition et_station_config_setflow :: "et_stat_config \<Rightarrow> int \<Rightarrow> int \<times> et_stat_config" where
  "et_station_config_setflow sc val =
     (if sc_init sc \<noteq> ET_STRUCT_OK then (ET_ERROR, sc)
      else if val \<noteq> ET_STATION_SERIAL \<and> val \<noteq> ET_STATION_PARALLEL then (ET_ERROR, sc)
      else (ET_OK, sc\<lparr>flow_mode := val\<rparr>))"

definition et_station_config_getflow :: "et_stat_config \<Rightarrow> int \<times> int" where
  "et_station_config_getflow sc = (ET_OK, flow_mode sc)"

definition et_station_config_setselect :: "et_stat_config \<Rightarrow> int \<Rightarrow> int \<times> et_stat_config" where
  "et_station_config_setselect sc val =
     (if sc_init sc \<noteq> ET_STRUCT_OK then (ET_ERROR, sc)
      else if val \<noteq> ET_STATION_SELECT_ALL \<and> val \<noteq> ET_STATION_SELECT_MATCH \<and>
              val \<noteq> ET_STATION_SELECT_USER \<and> val \<noteq> ET_STATION_SELECT_RROBIN \<and>
              val \<noteq> ET_STATION_SELECT_EQUALCUE then (ET_ERROR, sc)
      else (ET_OK, sc\<lparr>select_mode := val\<rparr>))"

definition et_station_config_getselect :: "et_stat_config \<Rightarrow> int \<times> int" where
  "et_station_config_getselect sc = (ET_OK, select_mode sc)"

definition et_station_config_setuser :: "et_stat_config \<Rightarrow> int \<Rightarrow> int \<times> et_stat_config" where
  "et_station_config_setuser sc val =
     (if sc_init sc \<noteq> ET_STRUCT_OK then (ET_ERROR, sc)
      else if val < 0 then (ET_ERROR, sc)
      else (ET_OK, sc\<lparr>user_mode := val\<rparr>))"

definition et_station_config_getuser :: "et_stat_config \<Rightarrow> int \<times> int" where
  "et_station_config_getuser sc = (ET_OK, user_mode sc)"

definition et_station_config_setrestore :: "et_stat_config \<Rightarrow> int \<Rightarrow> int \<times> et_stat_config" where
  "et_station_config_setrestore sc val =
     (if sc_init sc \<noteq> ET_STRUCT_OK then (ET_ERROR, sc)
      else if val \<noteq> ET_STATION_RESTORE_OUT \<and> val \<noteq> ET_STATION_RESTORE_IN \<and>
              val \<noteq> ET_STATION_RESTORE_GC \<and> val \<noteq> ET_STATION_RESTORE_REDIST then (ET_ERROR, sc)
      else (ET_OK, sc\<lparr>restore_mode := val\<rparr>))"

definition et_station_config_getrestore :: "et_stat_config \<Rightarrow> int \<times> int" where
  "et_station_config_getrestore sc = (ET_OK, restore_mode sc)"

definition et_station_config_setcue :: "et_stat_config \<Rightarrow> int \<Rightarrow> int \<times> et_stat_config" where
  "et_station_config_setcue sc val =
     (if sc_init sc \<noteq> ET_STRUCT_OK then (ET_ERROR, sc)
      else if val < 1 then (ET_ERROR, sc)
      else (ET_OK, sc\<lparr>cue := val\<rparr>))"

definition et_station_config_getcue :: "et_stat_config \<Rightarrow> int \<times> int" where
  "et_station_config_getcue sc = (ET_OK, cue sc)"

definition et_station_config_setprescale :: "et_stat_config \<Rightarrow> int \<Rightarrow> int \<times> et_stat_config" where
  "et_station_config_setprescale sc val =
     (if sc_init sc \<noteq> ET_STRUCT_OK then (ET_ERROR, sc)
      else if val < 1 then (ET_ERROR, sc)
      else (ET_OK, sc\<lparr>prescale := val\<rparr>))"

definition et_station_config_getprescale :: "et_stat_config \<Rightarrow> int \<times> int" where
  "et_station_config_getprescale sc = (ET_OK, prescale sc)"

definition et_station_config_setselectwords ::
  "et_stat_config \<Rightarrow> i32 list \<Rightarrow> int \<times> et_stat_config" where
  "et_station_config_setselectwords sc val =
     (if sc_init sc \<noteq> ET_STRUCT_OK then (ET_ERROR, sc)
      else (ET_OK, sc\<lparr>sc_select := copy_ints ET_STATION_SELECT_INTS val (sc_select sc)\<rparr>))"

definition et_station_config_getselectwords ::
  "et_stat_config \<Rightarrow> i32 list \<Rightarrow> int \<times> i32 list" where
  "et_station_config_getselectwords sc val =
     (ET_OK, copy_ints ET_STATION_SELECT_INTS (sc_select sc) val)"

definition et_station_config_setfunction ::
  "et_stat_config \<Rightarrow> string option \<Rightarrow> int \<times> et_stat_config" where
  "et_station_config_setfunction sc val =
     (if sc_init sc \<noteq> ET_STRUCT_OK then (ET_ERROR, sc)
      else case val of None \<Rightarrow> (ET_ERROR, sc)
        | Some v \<Rightarrow> if length v > ET_FUNCNAME_LENGTH - 1 then (ET_ERROR, sc)
                    else (ET_OK, sc\<lparr>fname := v\<rparr>))"

definition et_station_config_getfunction :: "et_stat_config \<Rightarrow> int \<times> string" where
  "et_station_config_getfunction sc = (ET_OK, fname sc)"

definition et_station_config_setlib ::
  "et_stat_config \<Rightarrow> string option \<Rightarrow> int \<times> et_stat_config" where
  "et_station_config_setlib sc val =
     (if sc_init sc \<noteq> ET_STRUCT_OK then (ET_ERROR, sc)
      else case val of None \<Rightarrow> (ET_ERROR, sc)
        | Some v \<Rightarrow> if length v > ET_FILENAME_LENGTH - 1 then (ET_ERROR, sc)
                    else (ET_OK, sc\<lparr>sc_lib := v\<rparr>))"

definition et_station_config_getlib :: "et_stat_config \<Rightarrow> int \<times> string" where
  "et_station_config_getlib sc = (ET_OK, sc_lib sc)"

definition et_station_config_setclass ::
  "et_stat_config \<Rightarrow> string option \<Rightarrow> int \<times> et_stat_config" where
  "et_station_config_setclass sc val =
     (if sc_init sc \<noteq> ET_STRUCT_OK then (ET_ERROR, sc)
      else case val of None \<Rightarrow> (ET_ERROR, sc)
        | Some v \<Rightarrow> if length v > ET_FILENAME_LENGTH - 1 then (ET_ERROR, sc)
                    else (ET_OK, sc\<lparr>classs := v\<rparr>))"

definition et_station_config_getclass :: "et_stat_config \<Rightarrow> int \<times> string" where
  "et_station_config_getclass sc = (ET_OK, classs sc)"

section \<open>The checks\<close>

text \<open>
  The check reads two limits of the system's configuration, passed here as \<open>nattachments_max\<close>
  (\<^verbatim>\<open>id->sys->config.nattachments\<close>) and \<open>nevents_max\<close> (\<^verbatim>\<open>id->sys->config.nevents\<close>).
\<close>

definition et_station_config_check :: "int \<Rightarrow> int \<Rightarrow> et_stat_config \<Rightarrow> int" where
  "et_station_config_check nattachments_max nevents_max sc =
    (if flow_mode sc \<noteq> ET_STATION_SERIAL \<and> flow_mode sc \<noteq> ET_STATION_PARALLEL then ET_ERROR
     else if restore_mode sc \<noteq> ET_STATION_RESTORE_OUT \<and> restore_mode sc \<noteq> ET_STATION_RESTORE_IN \<and>
             restore_mode sc \<noteq> ET_STATION_RESTORE_GC \<and>
             restore_mode sc \<noteq> ET_STATION_RESTORE_REDIST then ET_ERROR
     else if user_mode sc < 0 \<or> user_mode sc > nattachments_max then ET_ERROR
     else if select_mode sc \<noteq> ET_STATION_SELECT_ALL \<and> select_mode sc \<noteq> ET_STATION_SELECT_MATCH \<and>
             select_mode sc \<noteq> ET_STATION_SELECT_USER \<and> select_mode sc \<noteq> ET_STATION_SELECT_RROBIN \<and>
             select_mode sc \<noteq> ET_STATION_SELECT_EQUALCUE then ET_ERROR
     else if select_mode sc = ET_STATION_SELECT_USER \<and> (length (sc_lib sc) < 4 \<or> length (fname sc) < 1)
       then ET_ERROR
     else if (select_mode sc = ET_STATION_SELECT_RROBIN \<or> select_mode sc = ET_STATION_SELECT_EQUALCUE) \<and>
             (flow_mode sc = ET_STATION_SERIAL \<or> block_mode sc = ET_STATION_NONBLOCKING \<or>
              restore_mode sc = ET_STATION_RESTORE_IN \<or> prescale sc \<noteq> 1) then ET_ERROR
     else if restore_mode sc = ET_STATION_RESTORE_REDIST \<and> flow_mode sc \<noteq> ET_STATION_PARALLEL
       then ET_ERROR
     else if block_mode sc \<noteq> ET_STATION_BLOCKING \<and> block_mode sc \<noteq> ET_STATION_NONBLOCKING then ET_ERROR
     else if block_mode sc = ET_STATION_BLOCKING then
       (if prescale sc < 1 then ET_ERROR else ET_OK)
     else (if cue sc < 1 then ET_ERROR else if cue sc > nevents_max then ET_ERROR else ET_OK))"

definition et_station_compare_parallel :: "et_stat_config \<Rightarrow> et_stat_config \<Rightarrow> int" where
  "et_station_compare_parallel grp config =
    (if flow_mode grp \<noteq> flow_mode config then 0
     else if (select_mode grp = ET_STATION_SELECT_RROBIN \<and> select_mode config \<noteq> ET_STATION_SELECT_RROBIN) \<or>
             (select_mode grp = ET_STATION_SELECT_EQUALCUE \<and>
              select_mode config \<noteq> ET_STATION_SELECT_EQUALCUE) then 0
     else if (select_mode grp = ET_STATION_SELECT_RROBIN \<or> select_mode grp = ET_STATION_SELECT_EQUALCUE) \<and>
             (block_mode grp \<noteq> block_mode config \<or> prescale grp \<noteq> prescale config) then 0
     else if (select_mode grp \<noteq> ET_STATION_SELECT_RROBIN \<and> select_mode grp \<noteq> ET_STATION_SELECT_EQUALCUE) \<and>
             (select_mode config = ET_STATION_SELECT_RROBIN \<or>
              select_mode config = ET_STATION_SELECT_EQUALCUE) then 0
     else 1)"

section \<open>What the check guarantees\<close>

lemma err_if: "((if P then ET_ERROR else X) = ET_OK) \<longleftrightarrow> \<not> P \<and> X = ET_OK"
  by simp

lemma check_cases:
  "et_station_config_check na ne c = ET_OK \<longleftrightarrow>
    flow_mode c \<in> {ET_STATION_SERIAL, ET_STATION_PARALLEL} \<and>
    restore_mode c \<in> {ET_STATION_RESTORE_OUT, ET_STATION_RESTORE_IN, ET_STATION_RESTORE_GC, ET_STATION_RESTORE_REDIST} \<and>
    0 \<le> user_mode c \<and> user_mode c \<le> na \<and>
    select_mode c \<in> {ET_STATION_SELECT_ALL, ET_STATION_SELECT_MATCH, ET_STATION_SELECT_USER,
      ET_STATION_SELECT_RROBIN, ET_STATION_SELECT_EQUALCUE} \<and>
    (select_mode c = ET_STATION_SELECT_USER \<longrightarrow> 4 \<le> length (sc_lib c) \<and> 1 \<le> length (fname c)) \<and>
    (select_mode c \<in> {ET_STATION_SELECT_RROBIN, ET_STATION_SELECT_EQUALCUE} \<longrightarrow>
      flow_mode c \<noteq> ET_STATION_SERIAL \<and> block_mode c \<noteq> ET_STATION_NONBLOCKING \<and>
      restore_mode c \<noteq> ET_STATION_RESTORE_IN \<and> prescale c = 1) \<and>
    (restore_mode c = ET_STATION_RESTORE_REDIST \<longrightarrow> flow_mode c = ET_STATION_PARALLEL) \<and>
    block_mode c \<in> {ET_STATION_BLOCKING, ET_STATION_NONBLOCKING} \<and>
    (if block_mode c = ET_STATION_BLOCKING then 1 \<le> prescale c else 1 \<le> cue c \<and> cue c \<le> ne)"
  unfolding et_station_config_check_def err_if
  by (simp only: de_Morgan_disj de_Morgan_conj not_not insert_iff empty_iff simp_thms not_less imp_conv_disj
      not_le Suc_le_eq if_bool_eq_conj err_if conj_assoc disj_assoc) (simp add: err_if not_less; argo)

text \<open>The defaults are consistent in every system with enough events for the default cue.\<close>

lemma default_config_ok: "0 \<le> na \<Longrightarrow> et_station_config_check na ne default_config = ET_OK"
  by (simp add: check_cases default_config_def)

text \<open>
  A configuration made by the initialisation and the setters: initialised, every field in its range.
\<close>

definition config_fields :: "et_stat_config \<Rightarrow> bool" where
  "config_fields c \<longleftrightarrow> sc_init c = ET_STRUCT_OK \<and>
     block_mode c \<in> {ET_STATION_NONBLOCKING, ET_STATION_BLOCKING} \<and>
     flow_mode c \<in> {ET_STATION_SERIAL, ET_STATION_PARALLEL} \<and>
     select_mode c \<in> {ET_STATION_SELECT_ALL, ET_STATION_SELECT_MATCH, ET_STATION_SELECT_USER,
       ET_STATION_SELECT_RROBIN, ET_STATION_SELECT_EQUALCUE} \<and>
     restore_mode c \<in> {ET_STATION_RESTORE_OUT, ET_STATION_RESTORE_IN, ET_STATION_RESTORE_GC, ET_STATION_RESTORE_REDIST} \<and>
     0 \<le> user_mode c \<and> 1 \<le> cue c \<and> 1 \<le> prescale c \<and>
     length (sc_select c) = ET_STATION_SELECT_INTS \<and> length (fname c) < ET_FUNCNAME_LENGTH \<and>
     length (sc_lib c) < ET_FILENAME_LENGTH \<and> length (classs c) < ET_FILENAME_LENGTH"

lemma config_fields_default [simp]: "config_fields default_config"
  by (simp add: config_fields_def default_config_def)

lemma config_fields_setters:
  assumes "config_fields c"
  shows "config_fields (snd (et_station_config_setblock c v))"
    "config_fields (snd (et_station_config_setflow c v))"
    "config_fields (snd (et_station_config_setselect c v))"
    "config_fields (snd (et_station_config_setuser c v))"
    "config_fields (snd (et_station_config_setrestore c v))"
    "config_fields (snd (et_station_config_setcue c v))"
    "config_fields (snd (et_station_config_setprescale c v))"
    "config_fields (snd (et_station_config_setselectwords c ws))"
    "config_fields (snd (et_station_config_setfunction c str))"
    "config_fields (snd (et_station_config_setlib c str))"
    "config_fields (snd (et_station_config_setclass c str))"
  using assms
  by (simp_all add: config_fields_def et_station_config_setblock_def et_station_config_setflow_def
      et_station_config_setselect_def et_station_config_setuser_def et_station_config_setrestore_def
      et_station_config_setcue_def et_station_config_setprescale_def
      et_station_config_setselectwords_def et_station_config_setfunction_def
      et_station_config_setlib_def et_station_config_setclass_def split: option.splits)

text \<open>Two stations that may be in one parallel group are compatible in a symmetric way.\<close>

lemma compare_parallel_sym: "et_station_compare_parallel c d = et_station_compare_parallel d c"
  by (auto simp: et_station_compare_parallel_def)

lemma compare_parallel_refl: "et_station_compare_parallel c c = 1"
  by (auto simp: et_station_compare_parallel_def)

lemma compare_parallel_trans:
  "et_station_compare_parallel c d = 1 \<Longrightarrow> et_station_compare_parallel d f = 1 \<Longrightarrow>
    et_station_compare_parallel c f = 1"
  by (auto simp: et_station_compare_parallel_def split: if_splits)

end
