(* ===== verification/EtInit.thy ===== *)
theory EtInit imports EtStatConfig begin

text \<open>
  The data structures of the ET system's shared memory (\<^verbatim>\<open>et_private.h\<close>: \<^verbatim>\<open>et_list\<close>, \<^verbatim>\<open>et_fix\<close>,
  \<^verbatim>\<open>et_station\<close>, \<^verbatim>\<open>et_proc\<close>, \<^verbatim>\<open>et_attach\<close>, \<^verbatim>\<open>et_sys_config\<close>, \<^verbatim>\<open>et_system\<close>, \<^verbatim>\<open>et_id\<close>) and
  their initialisation (\<^verbatim>\<open>et_init.c\<close>).

  The arrays of shared memory are functions of the index. A mutex is a boolean, true while it is
  held; a condition variable is the number of signals and broadcasts sent to it. \<open>et_shm\<close> is the
  shared memory: the system structure, the stations, the event headers and the histogram. \<open>et_id\<close>
  is the private handle of one process; the last group of its fields holds what the operating system
  answers to that process (pid, host name, success of mapping and removing temporary event files,
  success of the call's n-th \<^verbatim>\<open>calloc\<close>).
\<close>

type_synonym heap = "nat \<Rightarrow> et_event"

record et_list =
  cnt :: int
  lasthigh :: int
  events_try :: u64
  events_in :: u64
  events_out :: u64
  firstevent :: eptr
  lastevent :: eptr
  mutex :: bool
  cread :: nat

record et_fixin =
  fin_first :: eptr
  fin_eventsin :: u64
  fin_start :: int
  fin_cnt :: int
  fin_num :: int
  fin_call :: int

record et_fixout =
  fout_start :: int
  fout_cnt :: int
  fout_num :: int

datatype selfunc = NoFunc | MatchFunc | UserFunc

record et_stat_data =
  status :: int
  pid_create :: int
  st_nattachments :: int
  st_att :: "nat \<Rightarrow> int"
  lib_handle :: bool
  func :: selfunc

record et_station =
  num :: int
  conductor :: int
  st_next :: int
  st_prev :: int
  nextparallel :: int
  prevparallel :: int
  waslast :: int
  name :: string
  st_mutex :: bool
  fixin :: et_fixin
  fixout :: et_fixout
  st_data :: et_stat_data
  config :: et_stat_config
  list_in :: et_list
  list_out :: et_list

record et_proc =
  pr_num :: int
  pr_att :: "nat \<Rightarrow> int"
  pr_nattachments :: int
  pr_status :: int
  et_status :: int
  pr_heartbeat :: i32
  pr_pid :: int

record et_attach =
  at_num :: int
  at_proc :: int
  at_stat :: int
  at_status :: int
  blocked :: int
  quit :: int
  sleep :: int
  events_put :: u64
  events_get :: u64
  events_dump :: u64
  events_make :: u64
  at_pid :: int
  host :: string
  interface :: string

record et_sys_config =
  event_size :: u64
  cfg_init :: int
  c_nevents :: int
  c_ntemps :: int
  c_nstations :: int
  c_nprocesses :: int
  c_nattachments :: int
  groupCount :: int
  groups :: "int list"
  c_filename :: string
  c_port :: int
  c_serverport :: int
  tcpSendBufSize :: int
  tcpRecvBufSize :: int
  tcpNoDelay :: int
  mcastaddrs :: "string list"
  netinfo :: "string list"

record et_system =
  asthread :: int
  heartbeat :: i32
  sys_port :: int
  mainpid :: int
  statadd_mutex :: bool
  sys_host :: string
  nstations :: int
  ntemps :: int
  nprocesses :: int
  nattachments :: int
  stat_head :: int
  stat_tail :: int
  sys_mutex :: bool
  stat_mutex :: bool
  statadd :: nat
  proc :: "nat \<Rightarrow> et_proc"
  attach :: "nat \<Rightarrow> et_attach"
  sys_config :: et_sys_config
  sys_version :: int
  sys_nselects :: int
  sys_bit64 :: int

record et_shm =
  sys :: et_system
  stats :: "nat \<Rightarrow> et_station"
  events :: heap
  histogram :: "nat \<Rightarrow> int"

record et_id =
  lang :: int
  alive :: int
  id_proc :: int
  cleanup :: int
  locality :: int
  id_nevents :: int
  id_group :: int
  id_offset :: u64
  id_data :: u64
  debug :: int
  esize :: u64
  id_port :: int
  ethost :: string
  id_bit64 :: int
  id_version :: int
  id_nselects :: int
  id_share :: int
  id_endian :: int
  id_systemendian :: int
  env_pid :: int
  env_host :: "string option"
  env_calloc :: "nat \<Rightarrow> bool"
  env_munmap :: "nat \<Rightarrow> bool"
  env_temp_remove :: "nat \<Rightarrow> bool"
  env_temp_create :: "nat \<Rightarrow> u64 \<Rightarrow> u64 option"
  env_temp_attach :: "nat \<Rightarrow> u64 option"

section \<open>Pointer arithmetic on the arrays of shared memory\<close>

text \<open>
  \<open>nevents_max\<close> is the local \<^verbatim>\<open>id->sys->config.nevents\<close> of many C functions. \<open>upd_station\<close>
  is a write through the pointer \<^verbatim>\<open>id->stats + n\<close>, \<open>upd_attach\<close> one to \<^verbatim>\<open>sys->attach[n]\<close>.
\<close>

abbreviation nevents_max :: "et_shm \<Rightarrow> int" where
  "nevents_max s \<equiv> c_nevents (sys_config (sys s))"

definition upd_station :: "nat \<Rightarrow> (et_station \<Rightarrow> et_station) \<Rightarrow> et_shm \<Rightarrow> et_shm" where
  "upd_station n f s = s\<lparr>stats := (stats s)(n := f (stats s n))\<rparr>"

definition upd_sys :: "(et_system \<Rightarrow> et_system) \<Rightarrow> et_shm \<Rightarrow> et_shm" where
  "upd_sys f s = s\<lparr>sys := f (sys s)\<rparr>"

definition upd_attach :: "nat \<Rightarrow> (et_attach \<Rightarrow> et_attach) \<Rightarrow> et_shm \<Rightarrow> et_shm" where
  "upd_attach n f = upd_sys (\<lambda>y. y\<lparr>attach := (attach y)(n := f (attach y n))\<rparr>)"

lemma upd_station_simps [simp]:
  "stats (upd_station n f s) = (stats s)(n := f (stats s n))"
  "sys (upd_station n f s) = sys s"
  "events (upd_station n f s) = events s"
  "histogram (upd_station n f s) = histogram s"
  by (simp_all add: upd_station_def)

lemma upd_sys_simps [simp]:
  "stats (upd_sys g s) = stats s"
  "sys (upd_sys g s) = g (sys s)"
  "events (upd_sys g s) = events s"
  "histogram (upd_sys g s) = histogram s"
  by (simp_all add: upd_sys_def)

lemma upd_attach_simps [simp]:
  "stats (upd_attach n g s) = stats s"
  "attach (sys (upd_attach n g s)) = (attach (sys s))(n := g (attach (sys s) n))"
  "sys_config (sys (upd_attach n g s)) = sys_config (sys s)"
  "events (upd_attach n g s) = events s"
  "histogram (upd_attach n g s) = histogram s"
  by (simp_all add: upd_attach_def)

section \<open>Initialisation (et\_init.c)\<close>

definition et_init_process :: "nat \<Rightarrow> et_shm \<Rightarrow> et_shm" where
  "et_init_process i = upd_sys (\<lambda>y. y\<lparr>proc := (proc y)(i := (proc y i)\<lparr>
      pr_num := - 1, pr_nattachments := 0, et_status := ET_PROC_ETDEAD, pr_heartbeat := 0,
      pr_pid := - 1, pr_att := (\<lambda>j. if int j < ET_ATTACHMENTS_MAX then - 1 else pr_att (proc y i) j),
      pr_status := ET_PROC_CLOSED\<rparr>)\<rparr>)"

definition et_init_attachment :: "nat \<Rightarrow> et_shm \<Rightarrow> et_shm" where
  "et_init_attachment i = upd_attach i (\<lambda>a. a\<lparr>
      at_num := - 1, at_proc := - 1, at_stat := - 1, blocked := ET_ATT_UNBLOCKED,
      quit := ET_ATT_CONTINUE, sleep := ET_ATT_NOSLEEP, events_put := 0, events_get := 0,
      events_dump := 0, events_make := 0, at_pid := - 1, host := ''CANNOT_FIND_HOST'',
      interface := [], at_status := ET_ATT_UNUSED\<rparr>)"

text \<open>The mutex and the condition variable of a list are left alone.\<close>

definition et_init_llist :: "et_list \<Rightarrow> et_list" where
  "et_init_llist pl = pl\<lparr>cnt := 0, lasthigh := 0, events_try := 0, events_in := 0,
      events_out := 0, firstevent := None, lastevent := None\<rparr>"

definition et_init_station :: "et_station \<Rightarrow> et_station" where
  "et_init_station ps = ps\<lparr>
      num := - 1, st_next := - 1, st_prev := - 1, nextparallel := - 1, prevparallel := - 1,
      waslast := 0, name := [], conductor := ET_THREAD_KEEP,
      config := \<lparr>sc_init = ET_STRUCT_OK, flow_mode = ET_STATION_SERIAL,
        user_mode = ET_STATION_USER_MULTI, restore_mode = ET_STATION_RESTORE_OUT,
        block_mode = ET_STATION_BLOCKING, prescale = ET_STATION_PRESCALE, cue = ET_STATION_CUE,
        select_mode = ET_STATION_SELECT_ALL, sc_select = replicate ET_STATION_SELECT_INTS (- 1),
        fname = [], sc_lib = [], classs = []\<rparr>,
      fixin := \<lparr>fin_first = None, fin_eventsin = 0, fin_start = 0, fin_cnt = 0, fin_num = 0,
        fin_call = ET_FIX_READ\<rparr>,
      fixout := \<lparr>fout_start = 0, fout_cnt = 0, fout_num = 0\<rparr>,
      list_in := et_init_llist (list_in ps),
      list_out := et_init_llist (list_out ps),
      st_data := (st_data ps)\<lparr>st_nattachments := 0, pid_create := - 1, lib_handle := False,
        st_att := (\<lambda>j. if int j < ET_ATTACHMENTS_MAX then - 1 else st_att (st_data ps) j),
        status := ET_STATION_UNUSED\<rparr>\<rparr>"

definition et_init_histogram :: "et_id \<Rightarrow> et_shm \<Rightarrow> et_shm" where
  "et_init_histogram e s =
     s\<lparr>histogram := (\<lambda>i. if int i < id_nevents e + 1 then 0 else histogram s i)\<rparr>"

definition et_init_stats_att :: "nat \<Rightarrow> et_shm \<Rightarrow> et_shm" where
  "et_init_stats_att i = upd_attach i (\<lambda>a. a\<lparr>events_put := 0, events_get := 0,
      events_dump := 0, events_make := 0\<rparr>)"

definition et_init_stats_allatts :: "et_shm \<Rightarrow> et_shm" where
  "et_init_stats_allatts s = fold et_init_stats_att [0..<nat ET_ATTACHMENTS_MAX] s"

definition et_init_stats_station :: "et_station \<Rightarrow> et_station" where
  "et_init_stats_station ps = ps\<lparr>
      list_in := (list_in ps)\<lparr>events_try := 0, events_out := 0, events_in := 0\<rparr>,
      list_out := (list_out ps)\<lparr>events_try := 0, events_out := 0, events_in := 0\<rparr>\<rparr>"

definition et_init_stats_allstations :: "et_shm \<Rightarrow> et_shm" where
  "et_init_stats_allstations s =
     fold (\<lambda>i. upd_station i et_init_stats_station) [0..<nat (c_nstations (sys_config (sys s)))] s"

definition et_init_stats_all :: "et_id \<Rightarrow> et_shm \<Rightarrow> et_shm" where
  "et_init_stats_all e s = et_init_histogram e (et_init_stats_allstations (et_init_stats_allatts s))"

lemma et_init_station_config [simp]: "config (et_init_station ps) = default_config"
  by (simp add: et_init_station_def default_config_def)

end
