(* ===== verification/EtList.thy ===== *)
theory EtList imports EtInit begin

text \<open>
  Event lists as chains of event headers in shared memory, and their abstraction. \<open>list_repr h pl xs\<close>
  says that the list structure \<open>pl\<close> and the \<open>next\<close> pointers in the heap \<open>h\<close> hold the events at the
  places \<open>xs\<close>, in this order. The C code never clears the \<open>next\<close> pointer of the last event nor
  \<open>firstevent\<close> of an emptied list, so the abstraction does not look at them.

  An operation returns an option: \<open>None\<close> is a memory fault (NULL dereferenced, array index out of
  bounds), so each theorem that an operation returns \<open>Some\<close> also shows that it does not fault.

  The abstract specification is \<open>ins_event\<close>: a low priority event goes to the end, a high priority
  event behind the high priority events already there.
\<close>

section \<open>Writes to event headers and list locks\<close>

definition set_next :: "nat \<Rightarrow> eptr \<Rightarrow> heap \<Rightarrow> heap" where
  "set_next p q h = h(p := (h p)\<lparr>ev_next := q\<rparr>)"

definition set_owner :: "nat \<Rightarrow> int \<Rightarrow> heap \<Rightarrow> heap" where
  "set_owner p a h = h(p := (h p)\<lparr>owner := a\<rparr>)"

definition et_llist_lock :: "et_list \<Rightarrow> et_list" where
  "et_llist_lock pl = pl\<lparr>mutex := True\<rparr>"

definition et_llist_unlock :: "et_list \<Rightarrow> et_list" where
  "et_llist_unlock pl = pl\<lparr>mutex := False\<rparr>"

text \<open>\<^verbatim>\<open>pthread_cond_signal\<close> and \<^verbatim>\<open>pthread_cond_broadcast\<close> on the list's condition variable.\<close>

definition cond_signal :: "et_list \<Rightarrow> et_list" where
  "cond_signal pl = pl\<lparr>cread := Suc (cread pl)\<rparr>"

text \<open>Following \<open>k\<close> \<open>next\<close> pointers.\<close>

fun nth_next :: "heap \<Rightarrow> nat \<Rightarrow> nat \<Rightarrow> nat option" where
  "nth_next h 0 p = Some p"
| "nth_next h (Suc k) p = do { q \<leftarrow> ev_next (h p); nth_next h k q }"

text \<open>The loop \<^verbatim>\<open>for (i=1; i < num; i++) pe[i-1]->next = pe[i]\<close>.\<close>

fun link_up :: "nat list \<Rightarrow> heap \<Rightarrow> heap" where
  "link_up (p # q # ps) h = link_up (q # ps) (set_next p (Some q) h)"
| "link_up _ h = h"

section \<open>The abstraction\<close>

fun linked :: "heap \<Rightarrow> nat list \<Rightarrow> bool" where
  "linked h (p # q # ps) \<longleftrightarrow> ev_next (h p) = Some q \<and> linked h (q # ps)"
| "linked h _ \<longleftrightarrow> True"

definition list_repr :: "heap \<Rightarrow> et_list \<Rightarrow> nat list \<Rightarrow> bool" where
  "list_repr h pl xs \<longleftrightarrow> cnt pl = int (length xs) \<and> distinct xs \<and> linked h xs \<and>
     (xs \<noteq> [] \<longrightarrow> firstevent pl = Some (hd xs) \<and> lastevent pl = Some (last xs))"

definition high :: "heap \<Rightarrow> nat \<Rightarrow> bool" where
  "high h p \<longleftrightarrow> priority (h p) = ET_HIGH"

definition prio_ok :: "heap \<Rightarrow> nat set \<Rightarrow> bool" where
  "prio_ok h A \<longleftrightarrow> (\<forall>p\<in>A. priority (h p) = ET_HIGH \<or> priority (h p) = ET_LOW)"

text \<open>High priority events come first.\<close>

definition high_first :: "heap \<Rightarrow> nat list \<Rightarrow> bool" where
  "high_first h xs \<longleftrightarrow> (\<forall>p\<in>set (dropWhile (high h) xs). \<not> high h p)"

definition ins_event :: "heap \<Rightarrow> nat \<Rightarrow> nat list \<Rightarrow> nat list" where
  "ins_event h x xs =
     (if high h x then takeWhile (high h) xs @ x # dropWhile (high h) xs else xs @ [x])"

definition ins_events :: "heap \<Rightarrow> nat list \<Rightarrow> nat list \<Rightarrow> nat list" where
  "ins_events h ys xs = foldl (\<lambda>acc y. ins_event h y acc) xs ys"

text \<open>An output list also counts its high priority events.\<close>

definition out_repr :: "heap \<Rightarrow> et_list \<Rightarrow> nat list \<Rightarrow> bool" where
  "out_repr h pl xs \<longleftrightarrow> list_repr h pl xs \<and> high_first h xs \<and>
     lasthigh pl = int (length (takeWhile (high h) xs))"

text \<open>
  \<open>same_events h h' A\<close>: outside \<open>A\<close> nothing changes, and inside only \<open>next\<close> and \<open>owner\<close> may.
\<close>

definition core :: "et_event \<Rightarrow> et_event" where
  "core pe = pe\<lparr>ev_next := None, owner := 0\<rparr>"

definition same_events :: "heap \<Rightarrow> heap \<Rightarrow> nat set \<Rightarrow> bool" where
  "same_events h h' A \<longleftrightarrow> (\<forall>p. p \<notin> A \<longrightarrow> h' p = h p) \<and>
     (\<forall>p. core (h' p) = core (h p))"

section \<open>Lemmas about the heap\<close>

lemma set_next_simps [simp]:
  "ev_next (set_next p q h r) = (if r = p then q else ev_next (h r))"
  "priority (set_next p q h r) = priority (h r)"
  "owner (set_next p q h r) = owner (h r)"
  "r \<noteq> p \<Longrightarrow> set_next p q h r = h r"
  by (simp_all add: set_next_def)

lemma set_owner_simps [simp]:
  "ev_next (set_owner p a h r) = ev_next (h r)"
  "priority (set_owner p a h r) = priority (h r)"
  "owner (set_owner p a h r) = (if r = p then a else owner (h r))"
  "r \<noteq> p \<Longrightarrow> set_owner p a h r = h r"
  by (simp_all add: set_owner_def)

lemma high_upd [simp]:
  "high (set_next p q h) = high h" "high (set_owner p a h) = high h"
  by (auto simp: high_def fun_eq_iff)

lemma high_first_upd [simp]:
  "high_first (set_next p q h) = high_first h" "high_first (set_owner p a h) = high_first h"
  by (simp_all add: high_first_def fun_eq_iff)

lemma high_first_high: "high h' = high h \<Longrightarrow> high_first h' = high_first h"
  by (simp add: high_first_def[abs_def])

lemma lock_simps [simp]:
  "cnt (et_llist_lock pl) = cnt pl" "lasthigh (et_llist_lock pl) = lasthigh pl"
  "firstevent (et_llist_lock pl) = firstevent pl" "lastevent (et_llist_lock pl) = lastevent pl"
  "events_in (et_llist_lock pl) = events_in pl" "events_out (et_llist_lock pl) = events_out pl"
  "events_try (et_llist_lock pl) = events_try pl"
  "mutex (et_llist_lock pl)" "cread (et_llist_lock pl) = cread pl"
  "cnt (et_llist_unlock pl) = cnt pl" "lasthigh (et_llist_unlock pl) = lasthigh pl"
  "firstevent (et_llist_unlock pl) = firstevent pl" "lastevent (et_llist_unlock pl) = lastevent pl"
  "events_in (et_llist_unlock pl) = events_in pl" "events_out (et_llist_unlock pl) = events_out pl"
  "events_try (et_llist_unlock pl) = events_try pl"
  "\<not> mutex (et_llist_unlock pl)" "cread (et_llist_unlock pl) = cread pl"
  "cnt (cond_signal pl) = cnt pl" "lasthigh (cond_signal pl) = lasthigh pl"
  "firstevent (cond_signal pl) = firstevent pl" "lastevent (cond_signal pl) = lastevent pl"
  "events_in (cond_signal pl) = events_in pl" "events_out (cond_signal pl) = events_out pl"
  "events_try (cond_signal pl) = events_try pl"
  "mutex (cond_signal pl) = mutex pl" "cread (cond_signal pl) = Suc (cread pl)"
  by (simp_all add: et_llist_lock_def et_llist_unlock_def cond_signal_def)

lemma linked_cong:
  assumes "linked h xs" "\<And>p. p \<in> set xs \<Longrightarrow> ev_next (h' p) = ev_next (h p)"
  shows "linked h' xs"
  using assms by (induction h xs rule: linked.induct) auto

lemma linked_append:
  "linked h (xs @ ys) \<longleftrightarrow> linked h xs \<and> linked h ys \<and>
     (xs \<noteq> [] \<and> ys \<noteq> [] \<longrightarrow> ev_next (h (last xs)) = Some (hd ys))"
proof (induction xs)
  case (Cons p xs)
  then show ?case by (cases xs; cases ys) auto
qed simp

lemma linked_upd_other: "p \<notin> set xs \<Longrightarrow> linked (set_next p q h) xs = linked h xs"
  by (induction h xs rule: linked.induct) auto

lemma linked_upd_last: "distinct (xs @ [p]) \<Longrightarrow> linked (set_next p q h) (xs @ [p]) = linked h (xs @ [p])"
  by (auto simp: linked_append linked_upd_other)

lemma linked_set_owner [simp]: "linked (set_owner p a h) xs = linked h xs"
  by (induction h xs rule: linked.induct) auto

lemma list_repr_set_owner [simp]: "list_repr (set_owner p a h) pl xs = list_repr h pl xs"
  by (simp add: list_repr_def)

lemma list_repr_lock [simp]:
  "list_repr h (et_llist_lock pl) xs = list_repr h pl xs"
  "list_repr h (et_llist_unlock pl) xs = list_repr h pl xs"
  "list_repr h (cond_signal pl) xs = list_repr h pl xs"
  by (simp_all add: list_repr_def)

lemma list_repr_same:
  assumes "list_repr h pl xs" "same_events h h' A" "set xs \<inter> A = {}"
  shows "list_repr h' pl xs"
proof -
  have "\<And>p. p \<in> set xs \<Longrightarrow> h' p = h p" using assms(2,3) by (auto simp: same_events_def)
  then show ?thesis using assms(1) by (auto simp: list_repr_def intro: linked_cong)
qed

lemma core_upd [simp]:
  "core (set_next p q h r) = core (h r)" "core (set_owner p a h r) = core (h r)"
  by (simp_all add: core_def set_next_def set_owner_def)

lemma core_fields:
  assumes "core x = core y"
  shows "priority x = priority y" "age x = age y" "temp x = temp y" "ev_group x = ev_group y"
    "control x = control y" "pdata x = pdata y" "data x = data y" "ev_length x = ev_length y"
    "memsize x = memsize y" "datastatus x = datastatus y"
  using arg_cong[OF assms, of priority] arg_cong[OF assms, of age] arg_cong[OF assms, of temp]
    arg_cong[OF assms, of ev_group] arg_cong[OF assms, of control] arg_cong[OF assms, of pdata]
    arg_cong[OF assms, of data] arg_cong[OF assms, of ev_length] arg_cong[OF assms, of memsize]
    arg_cong[OF assms, of datastatus]
  by (simp_all add: core_def)

lemma same_events_refl [intro!, simp]: "same_events h h A"
  by (simp add: same_events_def)

lemma same_events_trans:
  "same_events h h1 A \<Longrightarrow> same_events h1 h2 B \<Longrightarrow> same_events h h2 (A \<union> B)"
  by (simp add: same_events_def)

lemma same_events_mono: "same_events h h' A \<Longrightarrow> A \<subseteq> B \<Longrightarrow> same_events h h' B"
  by (auto simp: same_events_def)

lemma same_events_set_next: "p \<in> A \<Longrightarrow> same_events h (set_next p q h) A"
  unfolding same_events_def by (simp, simp add: set_next_def)

lemma same_events_set_owner: "p \<in> A \<Longrightarrow> same_events h (set_owner p a h) A"
  unfolding same_events_def by (simp, simp add: set_owner_def)

lemma same_events_step:
  "same_events h h1 A \<Longrightarrow> same_events h1 h2 A \<Longrightarrow> same_events h h2 A"
  using same_events_trans[of h h1 A h2 A] by simp

lemma same_events_fields:
  assumes "same_events h h' A"
  shows "priority (h' p) = priority (h p)" "age (h' p) = age (h p)" "temp (h' p) = temp (h p)"
    "ev_group (h' p) = ev_group (h p)" "control (h' p) = control (h p)"
    "pdata (h' p) = pdata (h p)" "data (h' p) = data (h p)" "ev_length (h' p) = ev_length (h p)"
    "memsize (h' p) = memsize (h p)" "datastatus (h' p) = datastatus (h p)"
  using assms core_fields[of "h' p" "h p"] by (simp_all add: same_events_def)

lemma same_events_high: "same_events h h' A \<Longrightarrow> high h' = high h"
  by (simp add: high_def fun_eq_iff same_events_fields)

lemma same_events_out: "same_events h h' A \<Longrightarrow> p \<notin> A \<Longrightarrow> h' p = h p"
  by (simp add: same_events_def)

lemma prio_ok_cong: "same_events h h' A \<Longrightarrow> prio_ok h' B = prio_ok h B"
  by (simp add: prio_ok_def same_events_fields)

lemma high_first_cong: "same_events h h' A \<Longrightarrow> high_first h' xs = high_first h xs"
  by (simp add: high_first_def same_events_high)

lemma ins_event_cong: "same_events h h' A \<Longrightarrow> ins_event h' = ins_event h"
  by (simp add: ins_event_def fun_eq_iff same_events_high)

lemma set_ins_event [simp]: "set (ins_event h p xs) = insert p (set xs)"
proof -
  have "set xs = set (takeWhile (high h) xs) \<union> set (dropWhile (high h) xs)"
    by (metis set_append takeWhile_dropWhile_id)
  then show ?thesis by (auto simp: ins_event_def)
qed

lemma length_ins_event [simp]: "length (ins_event h p xs) = Suc (length xs)"
proof -
  have "length xs = length (takeWhile (high h) xs) + length (dropWhile (high h) xs)"
    by (metis length_append takeWhile_dropWhile_id)
  then show ?thesis by (simp add: ins_event_def)
qed

lemma ins_event_not_Nil [simp]: "ins_event h p xs \<noteq> []"
  by (simp add: ins_event_def)

lemma distinct_ins_event: "distinct xs \<Longrightarrow> p \<notin> set xs \<Longrightarrow> distinct (ins_event h p xs)"
  using distinct_append[of "takeWhile (high h) xs" "dropWhile (high h) xs"]
  by (auto simp: ins_event_def dest: set_takeWhileD set_dropWhileD)

lemma high_first_split:
  assumes "high_first h xs"
  obtains A B where "xs = A @ B" "\<forall>p\<in>set A. high h p" "\<forall>p\<in>set B. \<not> high h p"
    "takeWhile (high h) xs = A" "dropWhile (high h) xs = B"
  using assms that[of "takeWhile (high h) xs" "dropWhile (high h) xs"]
  by (auto simp: high_first_def dest: set_takeWhileD)

lemma high_first_append:
  "\<forall>p\<in>set A. high h p \<Longrightarrow> \<forall>p\<in>set B. \<not> high h p \<Longrightarrow>
    high_first h (A @ B) \<and> takeWhile (high h) (A @ B) = A \<and> dropWhile (high h) (A @ B) = B"
  by (simp add: high_first_def takeWhile_append_all dropWhile_append_all takeWhile_none
      dropWhile_none)

lemma high_first_ins_event:
  assumes "high_first h xs"
  shows "high_first h (ins_event h p xs)"
proof -
  obtain A B where AB: "xs = A @ B" "\<forall>p\<in>set A. high h p" "\<forall>p\<in>set B. \<not> high h p"
    "takeWhile (high h) xs = A" "dropWhile (high h) xs = B"
    using high_first_split[OF assms] .
  show ?thesis
  proof (cases "high h p")
    case True
    then show ?thesis
      using AB high_first_append[of "A @ [p]" h B] by (auto simp: ins_event_def)
  next
    case False
    then show ?thesis
      using AB high_first_append[of A h "B @ [p]"] by (auto simp: ins_event_def)
  qed
qed

lemma takeWhile_ins_event:
  assumes "high_first h xs"
  shows "takeWhile (high h) (ins_event h p xs) =
    (if high h p then takeWhile (high h) xs @ [p] else takeWhile (high h) xs)"
proof -
  obtain A B where AB: "xs = A @ B" "\<forall>p\<in>set A. high h p" "\<forall>p\<in>set B. \<not> high h p"
    "takeWhile (high h) xs = A" "dropWhile (high h) xs = B"
    using high_first_split[OF assms] .
  show ?thesis
  proof (cases "high h p")
    case True
    then show ?thesis
      using AB high_first_append[of "A @ [p]" h B] by (auto simp: ins_event_def)
  next
    case False
    then show ?thesis
      using AB high_first_append[of A h "B @ [p]"] by (auto simp: ins_event_def)
  qed
qed

lemma nth_next_linked:
  "linked h xs \<Longrightarrow> k < length xs \<Longrightarrow> nth_next h k (hd xs) = Some (xs ! k)"
proof (induction h xs arbitrary: k rule: linked.induct)
  case (1 h p q ps)
  then show ?case by (cases k) auto
qed auto

section \<open>Splicing an event into a chain\<close>

lemma linked_snoc:
  "linked h xs \<Longrightarrow> distinct xs \<Longrightarrow> p \<notin> set xs \<Longrightarrow> xs \<noteq> [] \<Longrightarrow>
    linked (set_next (last xs) (Some p) h) (xs @ [p])"
proof (induction h xs rule: linked.induct)
  case (1 h a b cs)
  then have "last (b # cs) \<noteq> a" using last_in_set[of "b # cs"] by (metis distinct.simps(2) list.distinct(1))
  with 1 show ?case by (simp del: last.simps add: last_ConsR)
qed auto

lemma linked_front:
  "linked h xs \<Longrightarrow> p \<notin> set xs \<Longrightarrow> xs \<noteq> [] \<Longrightarrow> linked (set_next p (Some (hd xs)) h) (p # xs)"
  by (cases xs) (auto simp: linked_upd_other)

lemma linked_mid:
  assumes "linked h A" "linked h B" "distinct A" "set A \<inter> set B = {}" "p \<notin> set A" "p \<notin> set B"
    "A \<noteq> []" "B \<noteq> []"
  shows "linked (set_next (last A) (Some p) (set_next p (Some (hd B)) h)) (A @ p # B)"
proof -
  define h2 where "h2 = set_next p (Some (hd B)) h"
  have "linked h2 A" using assms by (simp add: h2_def linked_upd_other)
  then have "linked (set_next (last A) (Some p) h2) (A @ [p])" using assms by (simp add: linked_snoc)
  moreover have "linked h2 (p # B)" using assms by (simp add: h2_def linked_front)
  moreover have "last A \<notin> set (p # B)"
    using assms(4,5,7) by (metis disjoint_iff last_in_set set_ConsD)
  then have "linked (set_next (last A) (Some p) h2) (p # B)"
    using \<open>linked h2 (p # B)\<close> by (metis linked_upd_other)
  ultimately show ?thesis using assms by (simp add: h2_def linked_append)
qed

end
