(* ===== verification/EtReadWrite.thy ===== *)
theory EtReadWrite imports EtList begin

text \<open>
  Reading and writing the event lists of a station (\<^verbatim>\<open>et_readwrite.c\<close>). The operations on one
  station work on the pair of the station and the heap; \<open>on_station\<close> lifts them to shared memory.
  Each critical section (from the lock of a list's mutex to its unlock) is one step. The theorems
  refine each operation to the abstract list of event places: \<open>ins_event\<close> for the writes,
  \<open>take\<close>/\<open>drop\<close> for the reads, append for the dumps.
\<close>

definition on_station ::
  "nat \<Rightarrow> (et_station \<times> heap \<Rightarrow> ('r \<times> et_station \<times> heap) option) \<Rightarrow> et_shm \<Rightarrow> ('r \<times> et_shm) option" where
  "on_station n f s = do {
     (r, ps, h) \<leftarrow> f (stats s n, events s);
     Some (r, s\<lparr>stats := (stats s)(n := ps), events := h\<rparr>) }"

section \<open>Writing one event into a list that is not empty\<close>

text \<open>
  The placement of a high priority event: behind the last high priority event \<open>lh\<close>, if there is one.
  \<open>lst\<close> is the last event of the list (\<^verbatim>\<open>pe_last_USR\<close>).
\<close>

definition insert_high ::
  "nat \<Rightarrow> nat option \<Rightarrow> nat \<Rightarrow> heap \<times> et_list \<Rightarrow> heap \<times> et_list \<times> nat" where
  "insert_high p lh lst = (\<lambda>(h, pl).
     case lh of
       None \<Rightarrow> (set_next p (firstevent pl) h, pl\<lparr>firstevent := Some p\<rparr>, lst)
     | Some q \<Rightarrow>
         (if q = lst then (set_next lst (Some p) h, pl\<lparr>lastevent := Some p\<rparr>, p)
          else (set_next q (Some p) (set_next p (ev_next (h q)) h), pl, lst)))"

text \<open>The body of the loop of \<^verbatim>\<open>et_station_nwrite\<close>.\<close>

definition put_one ::
  "nat \<Rightarrow> heap \<times> et_list \<times> nat \<times> nat option \<Rightarrow> heap \<times> et_list \<times> nat \<times> nat option" where
  "put_one p = (\<lambda>(h, pl, lst, lh).
     let (h1, pl1, lst1, lh1) =
       (if priority (h p) = ET_LOW
        then (set_next lst (Some p) h, pl\<lparr>lastevent := Some p\<rparr>, p, lh)
        else let (h2, pl2, lst2) = insert_high p lh lst (h, pl)
             in (h2, pl2\<lparr>lasthigh := lasthigh pl2 + 1\<rparr>, lst2, Some p))
     in (set_owner p ET_SYS h1, pl1\<lparr>cnt := cnt pl1 + 1\<rparr>, lst1, lh1))"

definition wcur :: "heap \<Rightarrow> et_list \<Rightarrow> nat \<Rightarrow> nat option \<Rightarrow> nat list \<Rightarrow> bool" where
  "wcur h pl lst lh xs \<longleftrightarrow> xs \<noteq> [] \<and> out_repr h pl xs \<and> lst = last xs \<and>
     lh = (if takeWhile (high h) xs = [] then None else Some (last (takeWhile (high h) xs)))"

lemma wcur_facts:
  assumes "wcur h pl lst lh xs"
  shows "list_repr h pl xs" "high_first h xs" "xs \<noteq> []" "lst = last xs" "distinct xs"
    "linked h xs" "cnt pl = int (length xs)" "firstevent pl = Some (hd xs)"
    "lastevent pl = Some (last xs)" "lasthigh pl = int (length (takeWhile (high h) xs))"
    "lh = (if takeWhile (high h) xs = [] then None else Some (last (takeWhile (high h) xs)))"
  using assms by (auto simp: wcur_def out_repr_def list_repr_def)

lemma put_one_frame:
  assumes eq: "put_one p (h, pl, lst, lh) = (h', pl', lst', lh')"
    and "lst \<in> A" "p \<in> A" "case lh of None \<Rightarrow> True | Some q \<Rightarrow> q \<in> A"
  shows "same_events h h' A" "owner (h' p) = ET_SYS" "\<And>r. r \<noteq> p \<Longrightarrow> owner (h' r) = owner (h r)"
    "events_in pl' = events_in pl" "events_out pl' = events_out pl" "events_try pl' = events_try pl"
    "mutex pl' = mutex pl" "cread pl' = cread pl"
  using assms
  by (auto simp: put_one_def insert_high_def Let_def split: if_splits option.splits
      intro!: same_events_set_owner same_events_set_next
        same_events_step[OF same_events_set_next same_events_set_owner]
        same_events_step[OF same_events_set_next same_events_step[OF same_events_set_next same_events_set_owner]])

lemma put_one_low:
  assumes w: "wcur h pl lst lh xs" and p: "p \<notin> set xs" and low: "priority (h p) = ET_LOW"
    and eq: "put_one p (h, pl, lst, lh) = (h', pl', lst', lh')"
  shows "wcur h' pl' lst' lh' (ins_event h p xs)"
proof -
  note f = wcur_facts[OF w]
  have nh: "\<not> high h p" using low by (simp add: high_def)
  obtain zs z where xs: "xs = zs @ [z]" using f(3) by (metis rev_exhaust)
  have tw: "takeWhile (high h) (xs @ [p]) = takeWhile (high h) xs"
    using takeWhile_ins_event[OF f(2), of p] nh by (simp add: ins_event_def)
  have hf: "high_first h (xs @ [p])"
    using high_first_ins_event[OF f(2), of p] nh by (simp add: ins_event_def)
  have l: "linked (set_next z (Some p) h) (xs @ [p])"
    using linked_snoc[OF f(6,5) p] by (simp add: xs)
  have "h' = set_owner p ET_SYS (set_next z (Some p) h)"
    "pl' = pl\<lparr>lastevent := Some p, cnt := cnt pl + 1\<rparr>" "lst' = p" "lh' = lh"
    using eq low f(4) by (auto simp: put_one_def xs)
  with l f(3,5,7-11) p nh tw hf show ?thesis
    by (simp add: wcur_def out_repr_def list_repr_def ins_event_def)
qed

lemma put_one_high:
  assumes w: "wcur h pl lst lh xs" and p: "p \<notin> set xs" and hi: "priority (h p) = ET_HIGH"
    and eq: "put_one p (h, pl, lst, lh) = (h', pl', lst', lh')"
  shows "wcur h' pl' lst' lh' (ins_event h p xs)"
proof -
  note f = wcur_facts[OF w]
  have hp: "high h p" using hi by (simp add: high_def)
  define A where "A = takeWhile (high h) xs"
  define B where "B = dropWhile (high h) xs"
  have xs: "xs = A @ B" by (simp add: A_def B_def)
  have ins: "ins_event h p xs = A @ p # B" using hp by (simp add: ins_event_def A_def B_def)
  have tw: "takeWhile (high h) (A @ p # B) = A @ [p]"
    using takeWhile_ins_event[OF f(2), of p] hp ins by (simp add: A_def)
  have hf: "high_first h (A @ p # B)" using high_first_ins_event[OF f(2), of p] ins by simp
  have lA: "linked h A" "linked h B" "distinct A" "distinct B" "set A \<inter> set B = {}"
    "p \<notin> set A" "p \<notin> set B" "A \<noteq> [] \<Longrightarrow> B \<noteq> [] \<Longrightarrow> ev_next (h (last A)) = Some (hd B)"
    using f(5,6) p unfolding xs by (auto simp: linked_append)
  have lh: "lh = (if A = [] then None else Some (last A))" using f(11) by (simp add: A_def)
  have ends: "lst = last (A @ B)" "firstevent pl = Some (hd (A @ B))"
    "lastevent pl = Some (last (A @ B))" "cnt pl = int (length A) + int (length B)" "A @ B \<noteq> []"
    using f(3,4,7-9) by (simp_all add: xs)
  consider (none) "A = []" | (all) "A \<noteq> []" "B = []" | (mid) "A \<noteq> []" "B \<noteq> []" by blast
  then have main: "list_repr h' pl' (A @ p # B) \<and> lst' = last (A @ p # B) \<and> high h' = high h \<and>
      lasthigh pl' = lasthigh pl + 1 \<and> lh' = Some p"
  proof cases
    case none
    then have l: "linked (set_next p (Some (hd B)) h) (p # B)"
      using lA ends by (simp add: linked_front)
    have "h' = set_owner p ET_SYS (set_next p (Some (hd B)) h)"
      "pl' = pl\<lparr>firstevent := Some p, lasthigh := lasthigh pl + 1, cnt := cnt pl + 1\<rparr>"
      "lst' = last B" "lh' = Some p"
      using eq none lh ends hi by (auto simp: put_one_def insert_high_def)
    with none l lA ends show ?thesis by (simp add: list_repr_def)
  next
    case all
    obtain zs z where z: "A = zs @ [z]" using all by (metis rev_exhaust)
    have l: "linked (set_next z (Some p) h) (A @ [p])"
      using linked_snoc[OF lA(1,3,6)] by (simp add: z)
    have "h' = set_owner p ET_SYS (set_next z (Some p) h)"
      "pl' = pl\<lparr>lastevent := Some p, lasthigh := lasthigh pl + 1, cnt := cnt pl + 1\<rparr>"
      "lst' = p" "lh' = Some p"
      using eq all lh ends hi by (auto simp: put_one_def insert_high_def z)
    with all l lA ends show ?thesis by (simp add: list_repr_def)
  next
    case mid
    have ne: "last A \<noteq> last B" using lA(5) mid by (metis disjoint_iff last_in_set)
    obtain zs z where z: "A = zs @ [z]" using mid by (metis rev_exhaust)
    have l: "linked (set_next z (Some p) (set_next p (Some (hd B)) h)) (A @ p # B)"
      using linked_mid[of h A B p] lA mid by (simp add: z)
    have "h' = set_owner p ET_SYS (set_next z (Some p) (set_next p (Some (hd B)) h))"
      "pl' = pl\<lparr>lasthigh := lasthigh pl + 1, cnt := cnt pl + 1\<rparr>" "lst' = last B" "lh' = Some p"
      using eq mid lh ends hi ne lA(8) by (auto simp: put_one_def insert_high_def z)
    with mid l lA ends show ?thesis by (simp add: list_repr_def)
  qed
  then have "high_first h' = high_first h" by (blast intro: high_first_high)
  with main show ?thesis
    using f(10) tw hf by (simp add: wcur_def out_repr_def ins A_def)
qed

lemma put_one_wcur:
  assumes "wcur h pl lst lh xs" "p \<notin> set xs" "prio_ok h {p}"
    and "put_one p (h, pl, lst, lh) = (h', pl', lst', lh')"
  shows "wcur h' pl' lst' lh' (ins_event h p xs)"
  using assms put_one_low put_one_high by (fastforce simp: prio_ok_def)

lemma ins_events_Nil [simp]: "ins_events h [] xs = xs"
  by (simp add: ins_events_def)

lemma ins_events_Cons [simp]: "ins_events h (p # ps) xs = ins_events h ps (ins_event h p xs)"
  by (simp add: ins_events_def)

lemma ins_events_cong: "same_events h h' A \<Longrightarrow> ins_events h' = ins_events h"
  by (simp add: ins_events_def[abs_def] ins_event_cong)

lemma set_ins_events [simp]: "set (ins_events h ps xs) = set ps \<union> set xs"
  by (induction ps arbitrary: xs) auto

lemma length_ins_events [simp]: "length (ins_events h ps xs) = length ps + length xs"
  by (induction ps arbitrary: xs) auto

lemma wcur_frame_sets:
  assumes "wcur h pl lst lh xs" "set xs \<subseteq> A"
  shows "lst \<in> A" "case lh of None \<Rightarrow> True | Some q \<Rightarrow> q \<in> A"
proof -
  show "lst \<in> A" using assms by (auto simp: wcur_def)
  have "takeWhile (high h) xs \<noteq> [] \<Longrightarrow> last (takeWhile (high h) xs) \<in> set xs"
    by (meson last_in_set set_takeWhileD)
  then show "case lh of None \<Rightarrow> True | Some q \<Rightarrow> q \<in> A"
    using assms by (auto simp: wcur_def)
qed

text \<open>What the loop of \<^verbatim>\<open>et_station_nwrite\<close> does to the list and what it leaves alone.\<close>

lemma put_loop:
  assumes "wcur h pl lst lh xs" "distinct pes" "set pes \<inter> set xs = {}" "prio_ok h (set pes)"
    "set xs \<subseteq> A" "set pes \<subseteq> A"
    and "foldl (\<lambda>st p. put_one p st) (h, pl, lst, lh) pes = (h', pl', lst', lh')"
  shows "wcur h' pl' lst' lh' (ins_events h pes xs) \<and> same_events h h' A \<and>
    (\<forall>p\<in>set pes. owner (h' p) = ET_SYS) \<and> (\<forall>r. r \<notin> set pes \<longrightarrow> owner (h' r) = owner (h r)) \<and>
    events_in pl' = events_in pl \<and> events_out pl' = events_out pl \<and>
    events_try pl' = events_try pl \<and> mutex pl' = mutex pl \<and> cread pl' = cread pl"
  using assms
proof (induction pes arbitrary: h pl lst lh xs)
  case Nil
  then show ?case by simp
next
  case (Cons p pes)
  obtain h1 pl1 lst1 lh1 where one: "put_one p (h, pl, lst, lh) = (h1, pl1, lst1, lh1)"
    by (metis prod_cases4)
  have fr: "lst \<in> A" "p \<in> A" "case lh of None \<Rightarrow> True | Some q \<Rightarrow> q \<in> A"
    using wcur_frame_sets[OF Cons.prems(1,5)] Cons.prems(6) by auto
  note o = put_one_frame[OF one fr]
  have w1: "wcur h1 pl1 lst1 lh1 (ins_event h p xs)"
    using put_one_wcur[OF Cons.prems(1) _ _ one] Cons.prems(3,4) by (simp add: prio_ok_def)
  have "prio_ok h1 (set pes)" using Cons.prems(4) o(1) by (simp add: prio_ok_def same_events_fields)
  moreover have "distinct pes" "set pes \<inter> set (ins_event h p xs) = {}"
    "set (ins_event h p xs) \<subseteq> A" "set pes \<subseteq> A"
    using Cons.prems by auto
  ultimately have ih: "wcur h' pl' lst' lh' (ins_events h1 pes (ins_event h p xs)) \<and>
    same_events h1 h' A \<and> (\<forall>p\<in>set pes. owner (h' p) = ET_SYS) \<and>
    (\<forall>r. r \<notin> set pes \<longrightarrow> owner (h' r) = owner (h1 r)) \<and>
    events_in pl' = events_in pl1 \<and> events_out pl' = events_out pl1 \<and>
    events_try pl' = events_try pl1 \<and> mutex pl' = mutex pl1 \<and> cread pl' = cread pl1"
    using Cons.IH[OF w1] Cons.prems(7) one by simp
  then show ?case
    using o Cons.prems(2) same_events_step[OF o(1)] by (simp add: ins_events_cong[OF o(1)])
qed

section \<open>Writing into a station's output list\<close>

definition et_station_write ::
  "int \<Rightarrow> nat \<Rightarrow> et_station \<times> heap \<Rightarrow> (int \<times> et_station \<times> heap) option" where
  "et_station_write nmax pe = (\<lambda>(ps, h).
     let pl = et_llist_lock (list_out ps) in
     if cnt pl \<ge> nmax then Some (ET_ERROR, ps\<lparr>list_out := et_llist_unlock pl\<rparr>, h)
     else do {
       let pl = (if cnt pl = 0 then pl\<lparr>firstevent := None\<rparr> else pl);
       let fx = (fixout ps)\<lparr>fout_cnt := cnt pl, fout_num := 1,
                  fout_start := fout_start (fixout ps) + 1\<rparr>;
       (h, pl) \<leftarrow>
         (if cnt pl = 0 then
            (let pl = pl\<lparr>firstevent := Some pe, lastevent := Some pe\<rparr>
             in Some (h, if priority (h pe) = ET_HIGH then pl\<lparr>lasthigh := 1\<rparr> else pl))
          else if priority (h pe) = ET_LOW then do {
            l \<leftarrow> lastevent pl;
            Some (set_next l (Some pe) h, pl\<lparr>lastevent := Some pe\<rparr>) }
          else do {
            (lh, l) \<leftarrow>
              (if lasthigh pl \<noteq> 0 then do {
                 f \<leftarrow> firstevent pl;
                 q \<leftarrow> nth_next h (nat (lasthigh pl - 1)) f;
                 l \<leftarrow> lastevent pl;
                 Some (Some q, l) }
               else Some (None, pe));
            let (h, pl, _) = insert_high pe lh l (h, pl);
            Some (h, pl\<lparr>lasthigh := lasthigh pl + 1\<rparr>) });
       let h = set_owner pe ET_SYS h;
       let pl = pl\<lparr>cnt := cnt pl + 1\<rparr>;
       let fx = fx\<lparr>fout_start := fout_start fx - 1\<rparr>;
       let pl = cond_signal (et_llist_unlock pl);
       Some (ET_OK, ps\<lparr>list_out := pl, fixout := fx\<rparr>, h) })"

definition et_station_nwrite ::
  "int \<Rightarrow> nat list \<Rightarrow> et_station \<times> heap \<Rightarrow> (int \<times> et_station \<times> heap) option" where
  "et_station_nwrite nmax pes = (\<lambda>(ps, h).
     if pes = [] then Some (ET_OK, ps, h)
     else let pl = et_llist_lock (list_out ps) in
     if int (length pes) > nmax - cnt pl then Some (ET_ERROR, ps\<lparr>list_out := et_llist_unlock pl\<rparr>, h)
     else do {
       let pl = (if cnt pl = 0 then pl\<lparr>firstevent := None\<rparr> else pl);
       let fx = (fixout ps)\<lparr>fout_cnt := cnt pl, fout_num := int (length pes),
                  fout_start := fout_start (fixout ps) + 1\<rparr>;
       (h, pl, lh, rest) \<leftarrow>
         (if cnt pl = 0 then
            (let p0 = hd pes;
                 pl = pl\<lparr>firstevent := Some p0, lastevent := Some p0\<rparr>;
                 h = set_owner p0 ET_SYS h;
                 (pl, lh) = (if priority (h p0) = ET_HIGH then (pl\<lparr>lasthigh := 1\<rparr>, Some p0)
                             else (pl, None))
             in Some (h, pl\<lparr>cnt := cnt pl + 1\<rparr>, lh, tl pes))
          else if lasthigh pl \<noteq> 0 then do {
            f \<leftarrow> firstevent pl;
            q \<leftarrow> nth_next h (nat (lasthigh pl - 1)) f;
            Some (h, pl, Some q, pes) }
          else Some (h, pl, None, pes));
       l \<leftarrow> lastevent pl;
       let (h, pl, _, _) = foldl (\<lambda>st p. put_one p st) (h, pl, l, lh) rest;
       let fx = fx\<lparr>fout_start := fout_start fx - 1\<rparr>;
       let pl = cond_signal (et_llist_unlock pl);
       Some (ET_OK, ps\<lparr>list_out := pl, fixout := fx\<rparr>, h) })"

text \<open>
  \<open>out_written\<close>: what a write of the events \<open>pes\<close> into an output list that holds \<open>xs\<close> promises.
\<close>

definition out_written ::
  "nat list \<Rightarrow> nat list \<Rightarrow> et_station \<times> heap \<Rightarrow> et_station \<times> heap \<Rightarrow> bool" where
  "out_written pes xs = (\<lambda>(ps, h) (ps', h').
     out_repr h' (list_out ps') (ins_events h pes xs) \<and> same_events h h' (set xs \<union> set pes) \<and>
     (\<forall>p\<in>set pes. owner (h' p) = ET_SYS) \<and> (\<forall>r. r \<notin> set pes \<longrightarrow> owner (h' r) = owner (h r)) \<and>
     \<not> mutex (list_out ps') \<and> fout_start (fixout ps') = fout_start (fixout ps) \<and>
     cread (list_out ps') = Suc (cread (list_out ps)) \<and>
     events_in (list_out ps') = events_in (list_out ps) \<and>
     ps' = ps\<lparr>list_out := list_out ps', fixout := fixout ps'\<rparr>)"

lemma lasthigh_cursor:
  assumes "out_repr h pl xs" "xs \<noteq> []" "lasthigh pl \<noteq> 0"
  shows "nth_next h (nat (lasthigh pl - 1)) (hd xs) = Some (last (takeWhile (high h) xs))"
    "takeWhile (high h) xs \<noteq> []"
proof -
  show ne: "takeWhile (high h) xs \<noteq> []" using assms by (auto simp: out_repr_def)
  have l: "nat (lasthigh pl - 1) = length (takeWhile (high h) xs) - 1"
    using assms by (simp add: out_repr_def nat_diff_distrib)
  have len: "length (takeWhile (high h) xs) - 1 < length xs"
    using assms(2) length_takeWhile_le[of "high h" xs] ne by (cases "takeWhile (high h) xs") auto
  have "linked h xs" using assms(1) by (simp add: out_repr_def list_repr_def)
  then show "nth_next h (nat (lasthigh pl - 1)) (hd xs) = Some (last (takeWhile (high h) xs))"
    unfolding l using nth_next_linked[OF _ len] nth_last_takeWhile[OF ne] by simp
qed

lemma out_repr_lock [simp]:
  "out_repr h (et_llist_lock pl) xs = out_repr h pl xs"
  "out_repr h (et_llist_unlock pl) xs = out_repr h pl xs"
  "out_repr h (cond_signal pl) xs = out_repr h pl xs"
  by (simp_all add: out_repr_def)

lemma out_repr_start:
  assumes "out_repr h pl xs" "xs \<noteq> []"
  shows "wcur h pl (last xs) (if lasthigh pl = 0 then None else nth_next h (nat (lasthigh pl - 1)) (hd xs)) xs"
  using assms lasthigh_cursor[OF assms] by (auto simp: wcur_def out_repr_def)

text \<open>A list whose only event has just been put there.\<close>

lemma out_repr_first:
  assumes "priority (h p) = ET_HIGH \<or> priority (h p) = ET_LOW" "cnt pl = 1"
    "firstevent pl = Some p" "lastevent pl = Some p" "lasthigh pl = (if high h p then 1 else 0)"
  shows "out_repr h pl [p]"
  using assms by (simp add: out_repr_def list_repr_def high_first_def)

lemma wcur_first:
  assumes "out_repr h pl [p]"
  shows "wcur h pl p (if high h p then Some p else None) [p]"
  using assms by (simp add: wcur_def)

lemma out_reprD:
  assumes "out_repr h pl xs"
  shows "cnt pl = int (length xs)" "linked h xs" "distinct xs"
    "xs \<noteq> [] \<Longrightarrow> firstevent pl = Some (hd xs)" "xs \<noteq> [] \<Longrightarrow> lastevent pl = Some (last xs)"
    "lasthigh pl = int (length (takeWhile (high h) xs))" "high_first h xs"
  using assms by (auto simp: out_repr_def list_repr_def)

text \<open>On a list that is not empty \<open>et_station_write\<close> does what the loop of \<open>et_station_nwrite\<close> does.\<close>

lemma et_station_write_nonempty:
  assumes r: "out_repr h (list_out ps) xs" and xs: "xs \<noteq> []" and n: "int (length xs) < nmax"
    and pr: "prio_ok h {p}"
    and one: "put_one p (h, et_llist_lock (list_out ps), last xs,
      if takeWhile (high h) xs = [] then None else Some (last (takeWhile (high h) xs))) = (h', pl', lst', lh')"
  shows "\<exists>fx. et_station_write nmax p (ps, h) =
      Some (ET_OK, ps\<lparr>list_out := cond_signal (et_llist_unlock pl'), fixout := fx\<rparr>, h') \<and>
      fout_start fx = fout_start (fixout ps)"
proof (cases "priority (h p) = ET_LOW")
  case True
  with out_reprD[OF r] xs n one show ?thesis
    by (auto simp: et_station_write_def put_one_def Let_def)
next
  case False
  then have hi: "priority (h p) = ET_HIGH" using pr by (simp add: prio_ok_def)
  show ?thesis
  proof (cases "takeWhile (high h) xs = []")
    case True
    with out_reprD[OF r] xs n one hi show ?thesis
      by (auto simp: et_station_write_def put_one_def insert_high_def Let_def)
  next
    case ne: False
    then have "lasthigh (list_out ps) \<noteq> 0" using out_reprD[OF r] by simp
    with lasthigh_cursor[OF r xs] out_reprD[OF r] xs n one hi ne show ?thesis
      by (auto simp: et_station_write_def put_one_def insert_high_def Let_def split: if_splits)
  qed
qed

lemma et_station_write_ok:
  assumes r: "out_repr h (list_out ps) xs" and p: "p \<notin> set xs" and n: "int (length xs) < nmax"
    and pr: "prio_ok h {p}"
  shows "\<exists>ps' h'. et_station_write nmax p (ps, h) = Some (ET_OK, ps', h') \<and>
    out_written [p] xs (ps, h) (ps', h')"
proof (cases "xs = []")
  case True
  have "priority (h p) = ET_HIGH \<or> priority (h p) = ET_LOW" using pr by (simp add: prio_ok_def)
  with True out_reprD[OF r] n show ?thesis
    by (auto simp: et_station_write_def out_written_def high_def ins_event_def
        intro!: out_repr_first same_events_set_owner)
next
  case False
  let ?pl = "et_llist_lock (list_out ps)"
  let ?lh = "if takeWhile (high h) xs = [] then None else Some (last (takeWhile (high h) xs))"
  obtain h' pl' lst' lh' where one: "put_one p (h, ?pl, last xs, ?lh) = (h', pl', lst', lh')"
    by (metis prod_cases4)
  have w: "wcur h ?pl (last xs) ?lh xs" using r False by (simp add: wcur_def)
  have "out_repr h' pl' (ins_event h p xs)"
    using put_one_wcur[OF w p pr one] by (simp add: wcur_def)
  moreover have "last xs \<in> set xs \<union> {p}" "p \<in> set xs \<union> {p}"
    "case ?lh of None \<Rightarrow> True | Some q \<Rightarrow> q \<in> set xs \<union> {p}"
    using wcur_frame_sets[OF w Un_upper1[of "set xs" "{p}"]] by simp_all
  note put_one_frame[OF one this]
  ultimately show ?thesis
    using et_station_write_nonempty[OF r False n pr one] by (auto simp: out_written_def)
qed

lemma et_station_write_full:
  assumes "cnt (list_out ps) \<ge> nmax"
  shows "et_station_write nmax p (ps, h) =
    Some (ET_ERROR, ps\<lparr>list_out := et_llist_unlock (list_out ps)\<rparr>, h)"
  using assms by (simp add: et_station_write_def et_llist_lock_def et_llist_unlock_def)

lemma et_station_nwrite_ok:
  assumes r: "out_repr h (list_out ps) xs" and d: "distinct pes" "set pes \<inter> set xs = {}"
    and n: "int (length xs) + int (length pes) \<le> nmax"
    and pr: "prio_ok h (set pes)" and ne: "pes \<noteq> []"
  shows "\<exists>ps' h'. et_station_nwrite nmax pes (ps, h) = Some (ET_OK, ps', h') \<and>
    out_written pes xs (ps, h) (ps', h')"
proof (cases "xs = []")
  case True
  obtain p qs where pes: "pes = p # qs" using ne by (cases pes) auto
  define pl1 where "pl1 = (let pl = (et_llist_lock (list_out ps))\<lparr>firstevent := Some p, lastevent := Some p\<rparr>
      in (if priority (h p) = ET_HIGH then pl\<lparr>lasthigh := 1\<rparr> else pl)\<lparr>cnt := 1\<rparr>)"
  define h1 where "h1 = set_owner p ET_SYS h"
  define lh1 where "lh1 = (if high h p then Some p else None)"
  obtain h' pl' lst' lh' where fo: "foldl (\<lambda>st p. put_one p st) (h1, pl1, p, lh1) qs = (h', pl', lst', lh')"
    by (metis prod_cases4)
  have "priority (h p) = ET_HIGH \<or> priority (h p) = ET_LOW" using pr pes by (simp add: prio_ok_def)
  then have o: "out_repr h1 pl1 [p]"
    using out_reprD[OF r] True by (intro out_repr_first) (auto simp: pl1_def h1_def high_def)
  have w: "wcur h1 pl1 p lh1 [p]" using wcur_first[OF o] by (simp add: lh1_def h1_def)
  have se: "same_events h h1 (set pes)" by (auto simp: h1_def pes intro!: same_events_set_owner)
  have "prio_ok h1 (set qs)" using pr pes by (simp add: prio_ok_def h1_def)
  note L = put_loop[OF w _ _ this _ _ fo, of "set pes"]
  have pl1f: "cread pl1 = cread (list_out ps)" "events_in pl1 = events_in (list_out ps)"
    by (simp_all add: pl1_def Let_def)
  have L': "wcur h' pl' lst' lh' (ins_events h1 qs [p]) \<and> same_events h1 h' (set pes) \<and>
    (\<forall>p\<in>set qs. owner (h' p) = ET_SYS) \<and> (\<forall>r. r \<notin> set qs \<longrightarrow> owner (h' r) = owner (h1 r)) \<and>
    cread pl' = cread (list_out ps) \<and> events_in pl' = events_in (list_out ps)"
    using L d pes by (auto simp: pl1f)
  have "et_station_nwrite nmax pes (ps, h) = Some (ET_OK, ps\<lparr>list_out := cond_signal (et_llist_unlock pl'),
      fixout := (fixout ps)\<lparr>fout_cnt := 0, fout_num := int (length pes)\<rparr>\<rparr>, h')"
    using fo out_reprD[OF r] True n
    by (simp add: et_station_nwrite_def pes Let_def pl1_def h1_def lh1_def high_def split: if_splits)
  moreover have "ins_events h1 qs [p] = ins_events h pes []"
    using ins_events_cong[OF se] by (simp add: pes ins_event_def)
  ultimately show ?thesis
    using L' True same_events_step[OF se, of h'] pes
    by (auto simp: out_written_def wcur_def h1_def)
next
  case False
  let ?pl = "et_llist_lock (list_out ps)"
  let ?lh = "if takeWhile (high h) xs = [] then None else Some (last (takeWhile (high h) xs))"
  obtain h' pl' lst' lh' where fo: "foldl (\<lambda>st p. put_one p st) (h, ?pl, last xs, ?lh) pes = (h', pl', lst', lh')"
    by (metis prod_cases4)
  have w: "wcur h ?pl (last xs) ?lh xs" using r False by (simp add: wcur_def)
  note L = put_loop[OF w d pr _ _ fo, of "set xs \<union> set pes"]
  have "\<exists>fx. et_station_nwrite nmax pes (ps, h) =
      Some (ET_OK, ps\<lparr>list_out := cond_signal (et_llist_unlock pl'), fixout := fx\<rparr>, h') \<and>
      fout_start fx = fout_start (fixout ps)"
  proof (cases "takeWhile (high h) xs = []")
    case True
    with out_reprD[OF r] False n fo ne show ?thesis
      by (auto simp: et_station_nwrite_def Let_def)
  next
    case nh: False
    then have nz: "lasthigh (list_out ps) \<noteq> 0" using out_reprD[OF r] by simp
    have c: "\<not> int (length pes) > nmax - cnt (list_out ps)" "cnt (list_out ps) \<noteq> 0"
      using out_reprD(1)[OF r] n False by simp_all
    define fx where "fx = (fixout ps)\<lparr>fout_cnt := cnt (list_out ps), fout_num := int (length pes)\<rparr>"
    have "et_station_nwrite nmax pes (ps, h) =
      Some (ET_OK, ps\<lparr>list_out := cond_signal (et_llist_unlock pl'), fixout := fx\<rparr>, h')"
      using lasthigh_cursor(1)[OF r False nz] out_reprD(4,5)[OF r False] c nz fo ne nh
      by (simp add: et_station_nwrite_def Let_def fx_def)
    then show ?thesis by (auto simp: fx_def)
  qed
  with L d show ?thesis by (auto simp: out_written_def wcur_def)
qed

lemma et_station_nwrite_full:
  assumes "pes \<noteq> []" "int (length pes) > nmax - cnt (list_out ps)"
  shows "et_station_nwrite nmax pes (ps, h) =
    Some (ET_ERROR, ps\<lparr>list_out := et_llist_unlock (list_out ps)\<rparr>, h)"
  using assms by (simp add: et_station_nwrite_def et_llist_lock_def et_llist_unlock_def Let_def)

text \<open>A batch of two events against two writes.\<close>

lemma two_writes:
  assumes r: "out_repr h (list_out ps) xs" and pq: "p \<noteq> q" "p \<notin> set xs" "q \<notin> set xs"
    and n: "int (length xs) + 2 \<le> nmax" and pr: "prio_ok h {p, q}"
  shows "\<exists>ps1 h1 ps2 h2 ps3 h3 zs. et_station_nwrite nmax [p, q] (ps, h) = Some (ET_OK, ps1, h1) \<and>
    et_station_write nmax p (ps, h) = Some (ET_OK, ps2, h2) \<and>
    et_station_write nmax q (ps2, h2) = Some (ET_OK, ps3, h3) \<and>
    out_repr h1 (list_out ps1) zs \<and> out_repr h3 (list_out ps3) zs"
proof -
  obtain ps1 h1 where 1: "et_station_nwrite nmax [p, q] (ps, h) = Some (ET_OK, ps1, h1)"
    "out_written [p, q] xs (ps, h) (ps1, h1)"
    using et_station_nwrite_ok[OF r, of "[p, q]" nmax] pq n pr by auto
  obtain ps2 h2 where 2: "et_station_write nmax p (ps, h) = Some (ET_OK, ps2, h2)"
    "out_written [p] xs (ps, h) (ps2, h2)"
    using et_station_write_ok[OF r pq(2), of nmax] n pr by (auto simp: prio_ok_def)
  then have r2: "out_repr h2 (list_out ps2) (ins_event h p xs)" "same_events h h2 (set xs \<union> {p})"
    by (auto simp: out_written_def)
  have "prio_ok h2 {q}" using pr prio_ok_cong[OF r2(2)] by (simp add: prio_ok_def)
  then obtain ps3 h3 where 3: "et_station_write nmax q (ps2, h2) = Some (ET_OK, ps3, h3)"
    "out_written [q] (ins_event h p xs) (ps2, h2) (ps3, h3)"
    using et_station_write_ok[OF r2(1), of q nmax] pq n by auto
  have "out_repr h1 (list_out ps1) (ins_events h [p, q] xs)" "out_repr h3 (list_out ps3) (ins_events h [p, q] xs)"
    using 1(2) 3(2) ins_event_cong[OF r2(2)] by (auto simp: out_written_def)
  then show ?thesis using 1(1) 2(1) 3(1) by blast
qed

end
