(* ===== verification/EtRead.thy ===== *)
theory EtRead imports EtReadWrite "HOL-Library.Multiset" begin

text \<open>
  Reading events from a station's input list (\<^verbatim>\<open>et_station_read\<close>, \<^verbatim>\<open>et_station_nread\<close>,
  \<^verbatim>\<open>et_station_nread_group\<close> of \<^verbatim>\<open>et_readwrite.c\<close>).

  A read may wait on the list's condition variable, so it is a small state machine: the entry step
  runs up to the first \<^verbatim>\<open>pthread_cond_wait\<close>, which releases the mutex and gives \<open>Wait\<close>; a wake
  step runs from the return of the wait, with the mutex held again, to the next wait or to the end.
  \<open>Done\<close> carries the return code and the places of the events read, \<open>Retry\<close> is the point where
  \<^verbatim>\<open>et_station_nread_group\<close> has released the mutex and is about to lock it again. The outcome of
  the wait is \<open>Signalled\<close>, \<open>TimedOut\<close> or \<open>WaitError\<close>; where the C code aborts the process the step
  is \<open>None\<close>. Attachment numbers are \<^typ>\<open>nat\<close>: the callers in \<^verbatim>\<open>et_event.c\<close> have rejected the
  negative ones.
\<close>

datatype 'r run = Done 'r | Wait | Retry

datatype wake = Signalled | TimedOut | WaitError

type_synonym read_step = "et_shm \<Rightarrow> ((int \<times> nat list) run \<times> et_shm) option"

definition in_lock :: "nat \<Rightarrow> et_shm \<Rightarrow> et_shm" where
  "in_lock n = upd_station n (\<lambda>ps. ps\<lparr>list_in := et_llist_lock (list_in ps)\<rparr>)"

definition in_unlock :: "nat \<Rightarrow> et_shm \<Rightarrow> et_shm" where
  "in_unlock n = upd_station n (\<lambda>ps. ps\<lparr>list_in := et_llist_unlock (list_in ps)\<rparr>)"

definition set_blocked :: "nat \<Rightarrow> int \<Rightarrow> et_shm \<Rightarrow> et_shm" where
  "set_blocked att b = upd_attach att (\<lambda>a. a\<lparr>blocked := b\<rparr>)"

definition set_quit :: "nat \<Rightarrow> int \<Rightarrow> et_shm \<Rightarrow> et_shm" where
  "set_quit att q = upd_attach att (\<lambda>a. a\<lparr>quit := q\<rparr>)"

text \<open>\<^verbatim>\<open>*(id->histogram + pl->cnt) += 1\<close> for GrandCentral; the histogram has \<open>nevents + 1\<close> places.\<close>

definition histogram_incr :: "nat \<Rightarrow> et_shm \<Rightarrow> et_shm option" where
  "histogram_incr n s =
     (if int n = ET_GRANDCENTRAL then
        (let c = cnt (list_in (stats s n)) in
         if 0 \<le> c \<and> c \<le> nevents_max s
         then Some (s\<lparr>histogram := (histogram s)(nat c := histogram s (nat c) + 1)\<rparr>) else None)
      else Some s)"

definition read_loop :: "nat \<Rightarrow> nat \<Rightarrow> read_step \<Rightarrow> read_step" where
  "read_loop n att fin s =
     (if cnt (list_in (stats s n)) < 1
      then Some (Wait, in_unlock n (set_blocked att ET_ATT_BLOCKED s)) else fin s)"

definition read_quit :: "nat \<Rightarrow> nat \<Rightarrow> read_step" where
  "read_quit n att s =
     Some (Done (ET_ERROR_WAKEUP, []), set_quit att ET_ATT_CONTINUE (in_unlock n s))"

definition read_enter :: "nat \<Rightarrow> int \<Rightarrow> nat \<Rightarrow> read_step \<Rightarrow> read_step" where
  "read_enter n mode att fin s =
     (if mode = ET_SLEEP \<or> mode = ET_TIMED then do {
        s \<leftarrow> histogram_incr n (in_lock n s);
        read_loop n att fin s }
      else if mode = ET_ASYNC then
        (if mutex (list_in (stats s n)) then Some (Done (ET_ERROR_BUSY, []), s)
         else if quit (attach (sys s) att) = ET_ATT_QUIT then read_quit n att (in_lock n s)
         else do {
           s \<leftarrow> histogram_incr n (in_lock n s);
           if cnt (list_in (stats s n)) < 1 then Some (Done (ET_ERROR_EMPTY, []), in_unlock n s)
           else fin s })
      else Some (Done (ET_ERROR, []), s))"

definition read_wake :: "nat \<Rightarrow> int \<Rightarrow> nat \<Rightarrow> wake \<Rightarrow> read_step \<Rightarrow> read_step" where
  "read_wake n mode att w fin s =
     (let s = set_blocked att ET_ATT_UNBLOCKED (in_lock n s) in
      if w \<noteq> Signalled \<and> mode \<noteq> ET_TIMED then None
      else if w = TimedOut then Some (Done (ET_ERROR_TIMEOUT, []), in_unlock n s)
      else if w = WaitError then Some (Done (ET_ERROR, []), s)
      else if quit (attach (sys s) att) = ET_ATT_QUIT then read_quit n att s
      else read_loop n att fin s)"

section \<open>What is done once the list is locked and not empty\<close>

definition read_one :: "nat \<Rightarrow> et_station \<times> heap \<Rightarrow> ((int \<times> nat list) run \<times> et_station \<times> heap) option" where
  "read_one att = (\<lambda>(ps, h).
     let pl = list_in ps;
         fx = (fixin ps)\<lparr>fin_cnt := cnt pl, fin_num := 1, fin_call := ET_FIX_READ,
                fin_first := firstevent pl\<rparr>
     in do {
       p \<leftarrow> firstevent pl;
       let pl = pl\<lparr>firstevent := ev_next (h p), cnt := cnt pl - 1\<rparr>;
       Some (Done (ET_OK, [p]), ps\<lparr>list_in := et_llist_unlock pl,
              fixin := fx\<lparr>fin_first := None\<rparr>\<rparr>, set_owner p (int att) h) })"

definition et_station_read :: "nat \<Rightarrow> int \<Rightarrow> nat \<Rightarrow> read_step" where
  "et_station_read n mode att = read_enter n mode att (on_station n (read_one att))"

definition et_station_read_wake :: "nat \<Rightarrow> int \<Rightarrow> nat \<Rightarrow> wake \<Rightarrow> read_step" where
  "et_station_read_wake n mode att w = read_wake n mode att w (on_station n (read_one att))"

text \<open>The loop that fills \<^verbatim>\<open>pe[]\<close>: \<open>k\<close> events after the one at \<open>p\<close>.\<close>

fun grab_events :: "int \<Rightarrow> nat \<Rightarrow> nat \<Rightarrow> heap \<Rightarrow> (nat list \<times> heap) option" where
  "grab_events a 0 p h = Some ([p], set_owner p a h)"
| "grab_events a (Suc k) p h = do {
     q \<leftarrow> ev_next (h p);
     (ps, h) \<leftarrow> grab_events a k q (set_owner p a h);
     Some (p # ps, h) }"

definition read_many ::
  "nat \<Rightarrow> int \<Rightarrow> et_station \<times> heap \<Rightarrow> ((int \<times> nat list) run \<times> et_station \<times> heap) option" where
  "read_many att n = (\<lambda>(ps, h).
     let pl = list_in ps;
         n = (if n > cnt pl then cnt pl else n);
         fx = (fixin ps)\<lparr>fin_cnt := cnt pl, fin_num := n, fin_call := ET_FIX_READ,
                fin_first := firstevent pl\<rparr>
     in do {
       p \<leftarrow> firstevent pl;
       (pes, h) \<leftarrow> grab_events (int att) (nat (n - 1)) p h;
       let pl = pl\<lparr>firstevent := ev_next (h (last pes)), cnt := cnt pl - n\<rparr>;
       Some (Done (ET_OK, pes), ps\<lparr>list_in := et_llist_unlock pl,
              fixin := fx\<lparr>fin_first := None\<rparr>\<rparr>, h) })"

definition et_station_nread :: "nat \<Rightarrow> int \<Rightarrow> nat \<Rightarrow> int \<Rightarrow> read_step" where
  "et_station_nread n mode att m s =
     (if m < 1 then Some (Done (ET_OK, []), s)
      else read_enter n mode att (on_station n (read_many att m)) s)"

definition et_station_nread_wake :: "nat \<Rightarrow> int \<Rightarrow> nat \<Rightarrow> int \<Rightarrow> wake \<Rightarrow> read_step" where
  "et_station_nread_wake n mode att m w = read_wake n mode att w (on_station n (read_many att m))"

section \<open>Reading the events of one group\<close>

text \<open>
  The \<^verbatim>\<open>for\<close> loop of \<^verbatim>\<open>et_station_nread_group\<close>: \<open>k\<close> iterations are left, \<open>pev\<close> is the event looked
  at, \<open>prev\<close> the last event that stays in the list and \<open>i\<close> the number of events taken.
\<close>

fun scan_group :: "int \<Rightarrow> int \<Rightarrow> int \<Rightarrow> nat \<Rightarrow> eptr \<Rightarrow> eptr \<Rightarrow> int \<Rightarrow> heap \<times> et_list \<Rightarrow>
    (nat list \<times> heap \<times> et_list) option" where
  "scan_group a g m 0 pev prev i (h, pl) = Some ([], h, pl)"
| "scan_group a g m (Suc k) pev prev i (h, pl) = do {
     p \<leftarrow> pev;
     if ev_group (h p) \<noteq> g then scan_group a g m k (ev_next (h p)) (Some p) i (h, pl)
     else let h = set_owner p a h;
              (h, pl) = (case prev of None \<Rightarrow> (h, pl\<lparr>firstevent := ev_next (h p)\<rparr>)
                         | Some q \<Rightarrow> (set_next q (ev_next (h p)) h, pl));
              pl = (if lastevent pl = Some p then pl\<lparr>lastevent := prev\<rparr> else pl)
          in if i + 1 \<ge> m then Some ([p], h, pl)
             else do {
               (ps, h, pl) \<leftarrow> scan_group a g m k (ev_next (h p)) prev (i + 1) (h, pl);
               Some (p # ps, h, pl) } }"

definition read_group :: "nat \<Rightarrow> int \<Rightarrow> int \<Rightarrow> int \<Rightarrow> et_station \<times> heap \<Rightarrow>
    ((int \<times> nat list) run \<times> et_station \<times> heap) option" where
  "read_group att mode m g = (\<lambda>(ps, h).
     let pl = list_in ps;
         m = (if m > cnt pl then cnt pl else m);
         fx = (fixin ps)\<lparr>fin_num := m, fin_cnt := cnt pl, fin_call := ET_FIX_READ,
                fin_first := firstevent pl\<rparr>
     in do {
       (pes, h, pl) \<leftarrow> scan_group (int att) g m (nat (cnt pl)) (firstevent pl) None 0 (h, pl);
       let pl = pl\<lparr>cnt := cnt pl - int (length pes)\<rparr>;
       let ps = ps\<lparr>list_in := et_llist_unlock pl, fixin := fx\<lparr>fin_first := None\<rparr>\<rparr>;
       Some (if pes = [] \<and> mode \<noteq> ET_ASYNC then Retry else Done (ET_OK, pes), ps, h) })"

definition et_station_nread_group :: "nat \<Rightarrow> int \<Rightarrow> nat \<Rightarrow> int \<Rightarrow> int \<Rightarrow> read_step" where
  "et_station_nread_group n mode att m g s =
     (if m < 1 then Some (Done (ET_OK, []), s)
      else read_enter n mode att (on_station n (read_group att mode m g)) s)"

text \<open>
  After \<open>Retry\<close> the loop locks the list again and waits whatever the list holds, because
  \<^verbatim>\<open>scanList\<close> is 0. The number of events wanted in the scans that follow is the clipped one of the
  last scan; the caller passes it as \<open>m\<close>.
\<close>

definition et_station_nread_group_again :: "nat \<Rightarrow> nat \<Rightarrow> read_step" where
  "et_station_nread_group_again n att s =
     Some (Wait, in_unlock n (set_blocked att ET_ATT_BLOCKED (in_lock n s)))"

definition et_station_nread_group_wake :: "nat \<Rightarrow> int \<Rightarrow> nat \<Rightarrow> int \<Rightarrow> int \<Rightarrow> wake \<Rightarrow> read_step" where
  "et_station_nread_group_wake n mode att m g w =
     read_wake n mode att w (on_station n (read_group att mode m g))"

section \<open>Lemmas on handing events to an attachment\<close>

definition set_owners :: "nat list \<Rightarrow> int \<Rightarrow> heap \<Rightarrow> heap" where
  "set_owners ys a h = fold (\<lambda>p. set_owner p a) ys h"

lemma set_owners_Nil [simp]: "set_owners [] a h = h"
  by (simp add: set_owners_def)

lemma set_owners_Cons [simp]: "set_owners (p # ys) a h = set_owners ys a (set_owner p a h)"
  by (simp add: set_owners_def)

lemma set_owners_simps [simp]:
  "ev_next (set_owners ys a h r) = ev_next (h r)"
  "owner (set_owners ys a h r) = (if r \<in> set ys then a else owner (h r))"
  "r \<notin> set ys \<Longrightarrow> set_owners ys a h r = h r"
  "core (set_owners ys a h r) = core (h r)"
  by (induction ys arbitrary: h) auto

lemma same_events_set_owners [simp]: "set ys \<subseteq> A \<Longrightarrow> same_events h (set_owners ys a h) A"
  unfolding same_events_def by (meson set_owners_simps(3,4) subsetD)

lemma linked_set_owners [simp]: "linked (set_owners ys a h) xs = linked h xs"
  using linked_cong[of "set_owners ys a h" xs h] linked_cong[of h xs "set_owners ys a h"] by auto

lemma list_repr_set_owners [simp]: "list_repr (set_owners ys a h) pl xs = list_repr h pl xs"
  by (simp add: list_repr_def)

lemma list_reprD:
  assumes "list_repr h pl xs"
  shows "cnt pl = int (length xs)" "linked h xs" "distinct xs"
    "xs \<noteq> [] \<Longrightarrow> firstevent pl = Some (hd xs)" "xs \<noteq> [] \<Longrightarrow> lastevent pl = Some (last xs)"
  using assms by (auto simp: list_repr_def)

lemma linked_drop: "linked h xs \<Longrightarrow> linked h (drop k xs)"
  by (metis append_take_drop_id linked_append)

lemma linked_take: "linked h xs \<Longrightarrow> linked h (take k xs)"
  by (metis append_take_drop_id linked_append)

lemma linked_next_drop:
  assumes "linked h xs" "0 < k" "k < length xs"
  shows "ev_next (h (last (take k xs))) = Some (hd (drop k xs))"
proof -
  have "linked h (take k xs @ drop k xs)" using assms(1) by simp
  moreover have "take k xs \<noteq> []" "drop k xs \<noteq> []" using assms by auto
  ultimately show ?thesis unfolding linked_append by blast
qed

lemma grab_events_ok:
  "linked h xs \<Longrightarrow> k < length xs \<Longrightarrow>
    grab_events a k (hd xs) h = Some (take (Suc k) xs, set_owners (take (Suc k) xs) a h)"
proof (induction k arbitrary: xs h)
  case 0
  then show ?case by (cases xs) auto
next
  case (Suc k)
  then obtain p q ys where xs: "xs = p # q # ys" by (cases xs; cases "tl xs") auto
  have "linked (set_owner p a h) (q # ys)" using Suc.prems xs by simp
  then show ?case using Suc.IH[of "set_owner p a h" "q # ys"] Suc.prems xs by simp
qed

section \<open>Reading refines take and drop\<close>

text \<open>
  \<open>taken ys zs\<close>: attachment \<open>att\<close> has got the events \<open>ys\<close> and \<open>zs\<close> are left in the input list,
  which is unlocked.
\<close>

definition taken ::
  "nat \<Rightarrow> nat list \<Rightarrow> nat list \<Rightarrow> et_station \<times> heap \<Rightarrow> et_station \<times> heap \<Rightarrow> bool" where
  "taken att ys zs = (\<lambda>(ps, h) (ps', h').
     list_repr h' (list_in ps') zs \<and> same_events h h' (set ys \<union> set zs) \<and>
     (\<forall>p. owner (h' p) = (if p \<in> set ys then int att else owner (h p))) \<and>
     \<not> mutex (list_in ps') \<and> events_in (list_in ps') = events_in (list_in ps) \<and>
     ps' = ps\<lparr>list_in := list_in ps', fixin := fixin ps'\<rparr>)"

lemma read_one_ok:
  assumes r: "list_repr h (list_in ps) xs" and xs: "xs \<noteq> []"
  shows "\<exists>ps' h'. read_one att (ps, h) = Some (Done (ET_OK, [hd xs]), ps', h') \<and>
    taken att [hd xs] (tl xs) (ps, h) (ps', h')"
proof -
  note f = list_reprD[OF r]
  obtain x ys where x: "xs = x # ys" using xs by (cases xs) auto
  show ?thesis
    using f x by (cases ys) (auto simp: read_one_def taken_def Let_def list_repr_def
        intro!: same_events_set_owner)
qed

lemma read_many_ok:
  assumes r: "list_repr h (list_in ps) xs" and xs: "xs \<noteq> []" and n: "1 \<le> n"
  shows "\<exists>ps' h'. read_many att n (ps, h) = Some (Done (ET_OK, take (nat n) xs), ps', h') \<and>
    taken att (take (nat n) xs) (drop (nat n) xs) (ps, h) (ps', h')"
proof -
  note f = list_reprD[OF r]
  define m where "m = (if n > cnt (list_in ps) then cnt (list_in ps) else n)"
  define k where "k = nat (m - 1)"
  have k: "k < length xs" "Suc k = min (nat n) (length xs)" "m = int (Suc k)"
    using f(1) xs n by (auto simp: k_def m_def nat_diff_distrib Suc_diff_le min_def Suc_leI)
  have tk: "take (Suc k) xs = take (nat n) xs" using k(2) by (simp add: min_def)
  have g: "grab_events (int att) k (hd xs) h =
      Some (take (nat n) xs, set_owners (take (nat n) xs) (int att) h)"
    using grab_events_ok[OF f(2) k(1)] tk by simp
  have d: "distinct (drop (nat n) xs)" "linked h (drop (nat n) xs)"
    using f(2,3) by (simp_all add: linked_drop)
  have nx: "drop (nat n) xs \<noteq> [] \<Longrightarrow>
      ev_next (h (last (take (nat n) xs))) = Some (hd (drop (nat n) xs))"
    using linked_next_drop[OF f(2), of "nat n"] n by simp
  define pl where "pl = (list_in ps)\<lparr>firstevent := ev_next (h (last (take (nat n) xs))),
      cnt := cnt (list_in ps) - m\<rparr>"
  define fx where "fx = (fixin ps)\<lparr>fin_cnt := cnt (list_in ps), fin_num := m,
      fin_call := ET_FIX_READ, fin_first := None\<rparr>"
  have e: "read_many att n (ps, h) = Some (Done (ET_OK, take (nat n) xs),
      ps\<lparr>list_in := et_llist_unlock pl, fixin := fx\<rparr>, set_owners (take (nat n) xs) (int att) h)"
    using f(4)[OF xs] g
    by (simp add: read_many_def Let_def m_def[symmetric] k_def[symmetric] pl_def fx_def)
  have "list_repr h pl (drop (nat n) xs)"
    using f(1,5) xs d nx k(2,3) by (auto simp: pl_def list_repr_def min_def)
  then show ?thesis unfolding e by (auto simp: taken_def pl_def)
qed

text \<open>The events of a list that are left when the first \<open>n\<close> events that satisfy \<open>P\<close> are taken.\<close>

fun keep_rest :: "('a \<Rightarrow> bool) \<Rightarrow> nat \<Rightarrow> 'a list \<Rightarrow> 'a list" where
  "keep_rest P 0 xs = xs"
| "keep_rest P (Suc n) [] = []"
| "keep_rest P (Suc n) (x # xs) = (if P x then keep_rest P n xs else x # keep_rest P (Suc n) xs)"

lemma keep_rest_mset: "mset (take n (filter P xs)) + mset (keep_rest P n xs) = mset xs"
  by (induction P n xs rule: keep_rest.induct) auto

lemma set_keep_rest: "set (take n (filter P xs)) \<union> set (keep_rest P n xs) = set xs"
  using arg_cong[OF keep_rest_mset[of n P xs], of set_mset] by simp

lemma distinct_keep_rest:
  assumes "distinct xs"
  shows "distinct (keep_rest P n xs)" "set (take n (filter P xs)) \<inter> set (keep_rest P n xs) = {}"
proof -
  have "distinct (take n (filter P xs) @ keep_rest P n xs)"
    using keep_rest_mset[of n P xs] assms by (metis mset_append mset_eq_imp_distinct_iff)
  then show "distinct (keep_rest P n xs)" "set (take n (filter P xs)) \<inter> set (keep_rest P n xs) = {}"
    by auto
qed

lemma keep_rest_filter: "distinct xs \<Longrightarrow> keep_rest P n xs = filter (\<lambda>x. x \<notin> set (take n (filter P xs))) xs"
proof (induction P n xs rule: keep_rest.induct)
  case (3 P n x xs)
  have "filter (\<lambda>y. y \<noteq> x \<and> y \<notin> set (take n (filter P xs))) xs =
      filter (\<lambda>y. y \<notin> set (take n (filter P xs))) xs"
    using 3(3) by (intro filter_cong) auto
  moreover have "x \<notin> set (take (Suc n) (filter P xs))"
    using 3(3) by (auto dest: in_set_takeD)
  ultimately show ?case using 3 by auto
qed auto

lemma linked_remove:
  assumes "linked h (pre @ p # suf)" "distinct (pre @ p # suf)" "pre \<noteq> []"
  shows "linked (set_next (last pre) (ev_next (h p)) h) (pre @ suf)"
proof -
  obtain zs z where z: "pre = zs @ [z]" using assms(3) by (metis rev_exhaust)
  have l: "linked h (zs @ [z])" "linked h (p # suf)"
    using assms(1) unfolding z linked_append by blast+
  have "linked (set_next z (ev_next (h p)) h) (zs @ [z])"
    using l(1) assms(2) z by (simp add: linked_upd_last)
  moreover have "linked h suf" using l(2) by (cases suf) auto
  then have "linked (set_next z (ev_next (h p)) h) suf"
    using assms(2) z by (simp add: linked_upd_other)
  moreover have "suf \<noteq> [] \<Longrightarrow> ev_next (h p) = Some (hd suf)"
    using l(2) by (cases suf) auto
  ultimately show ?thesis unfolding z linked_append by simp
qed

text \<open>The list while it is scanned, without its count.\<close>

definition chain :: "heap \<Rightarrow> et_list \<Rightarrow> nat list \<Rightarrow> bool" where
  "chain h pl xs \<longleftrightarrow> distinct xs \<and> linked h xs \<and>
     (xs \<noteq> [] \<longrightarrow> firstevent pl = Some (hd xs) \<and> lastevent pl = Some (last xs))"

lemma list_repr_chain: "list_repr h pl xs \<longleftrightarrow> chain h pl xs \<and> cnt pl = int (length xs)"
  by (auto simp: list_repr_def chain_def)

text \<open>One event is taken out behind \<open>pre\<close>.\<close>

definition take_out :: "int \<Rightarrow> nat \<Rightarrow> eptr \<Rightarrow> heap \<times> et_list \<Rightarrow> heap \<times> et_list" where
  "take_out a p prev = (\<lambda>(h, pl).
     let h = set_owner p a h;
         (h, pl) = (case prev of None \<Rightarrow> (h, pl\<lparr>firstevent := ev_next (h p)\<rparr>)
                    | Some q \<Rightarrow> (set_next q (ev_next (h p)) h, pl))
     in (h, if lastevent pl = Some p then pl\<lparr>lastevent := prev\<rparr> else pl))"

lemma take_out_ok:
  assumes c: "chain h pl (pre @ p # suf)" and prev: "prev = (if pre = [] then None else Some (last pre))"
    and eq: "take_out a p prev (h, pl) = (h', pl')"
  shows "chain h' pl' (pre @ suf) \<and> same_events h h' (set (pre @ p # suf)) \<and>
    (\<forall>r. owner (h' r) = (if r = p then a else owner (h r))) \<and>
    (suf \<noteq> [] \<longrightarrow> ev_next (h' p) = Some (hd suf)) \<and>
    cnt pl' = cnt pl \<and> mutex pl' = mutex pl \<and> events_in pl' = events_in pl"
proof -
  have d: "distinct (pre @ p # suf)" "linked h (pre @ p # suf)"
    "firstevent pl = Some (hd (pre @ p # suf))" "lastevent pl = Some (last (pre @ p # suf))"
    using c by (auto simp: chain_def)
  have nx: "suf \<noteq> [] \<Longrightarrow> ev_next (h p) = Some (hd suf)"
    using d(2) by (cases suf) (auto simp: linked_append)
  have lp: "last (pre @ p # suf) = p \<longleftrightarrow> suf = []"
    using d(1) by (cases suf rule: rev_cases) auto
  show ?thesis
  proof (cases "pre = []")
    case True
    have "linked h suf" using d(2) True by (cases suf) auto
    with True d lp nx eq prev show ?thesis
      by (auto simp: take_out_def Let_def chain_def intro!: same_events_set_owner)
  next
    case False
    have "last pre \<noteq> p" using d(1) False by (metis disjoint_iff distinct_append last_in_set list.set_intros(1))
    moreover have "same_events h (set_next (last pre) q (set_owner p a h)) (set (pre @ p # suf))" for q
      using False by (intro same_events_step[OF same_events_set_owner same_events_set_next]) auto
    moreover have "linked (set_next (last pre) (ev_next (set_owner p a h p)) (set_owner p a h)) (pre @ suf)"
      using linked_remove[of "set_owner p a h" pre p suf] d False by simp
    ultimately show ?thesis
      using False d lp nx eq prev by (auto simp: take_out_def Let_def chain_def)
  qed
qed

lemma scan_group_step:
  "scan_group a g m (Suc k) (Some p) prev i (h, pl) =
    (if ev_group (h p) \<noteq> g then scan_group a g m k (ev_next (h p)) (Some p) i (h, pl)
     else let (h', pl') = take_out a p prev (h, pl) in
       if i + 1 \<ge> m then Some ([p], h', pl')
       else do { (ps, h, pl) \<leftarrow> scan_group a g m k (ev_next (h' p)) prev (i + 1) (h', pl');
                 Some (p # ps, h, pl) })"
  by (auto simp: take_out_def Let_def split: option.splits)

lemma scan_group_ok:
  assumes "chain h pl (pre @ suf)" "prev = (if pre = [] then None else Some (last pre))"
    and "suf \<noteq> [] \<Longrightarrow> pev = Some (hd suf)" "i < m" "\<forall>p. P p \<longleftrightarrow> ev_group (h p) = g"
  shows "\<exists>h' pl'. scan_group a g m (length suf) pev prev i (h, pl) =
      Some (take (nat (m - i)) (filter P suf), h', pl') \<and>
    chain h' pl' (pre @ keep_rest P (nat (m - i)) suf) \<and> same_events h h' (set (pre @ suf)) \<and>
    (\<forall>r. owner (h' r) = (if r \<in> set (take (nat (m - i)) (filter P suf)) then a else owner (h r))) \<and>
    cnt pl' = cnt pl \<and> mutex pl' = mutex pl \<and> events_in pl' = events_in pl"
  using assms
proof (induction suf arbitrary: h pl pre prev pev i)
  case Nil
  then have "nat (m - i) = Suc (nat (m - i - 1))" by simp
  with Nil show ?case by simp
next
  case (Cons p suf)
  have n: "nat (m - i) = Suc (nat (m - i - 1))" using Cons.prems(4) by simp
  have pev: "pev = Some p" using Cons.prems(3) by simp
  have c: "chain h pl (pre @ p # suf)" by (rule Cons.prems(1))
  show ?case
  proof (cases "P p")
    case False
    have nx: "suf \<noteq> [] \<Longrightarrow> ev_next (h p) = Some (hd suf)"
      using c by (cases suf) (auto simp: chain_def linked_append)
    have c2: "chain h pl ((pre @ [p]) @ suf)" using c by simp
    have pr: "Some p = (if pre @ [p] = [] then None else Some (last (pre @ [p])))" by simp
    obtain h' pl' where
      "scan_group a g m (length suf) (ev_next (h p)) (Some p) i (h, pl) =
         Some (take (nat (m - i)) (filter P suf), h', pl')"
      "chain h' pl' ((pre @ [p]) @ keep_rest P (nat (m - i)) suf)"
      "same_events h h' (set ((pre @ [p]) @ suf))"
      "\<forall>r. owner (h' r) = (if r \<in> set (take (nat (m - i)) (filter P suf)) then a else owner (h r))"
      "cnt pl' = cnt pl \<and> mutex pl' = mutex pl \<and> events_in pl' = events_in pl"
      using Cons.IH[OF c2 pr nx Cons.prems(4,5)] by blast
    moreover have "ev_group (h p) \<noteq> g" using Cons.prems(5) False by blast
    ultimately show ?thesis
      using False unfolding pev length_Cons scan_group_step by (simp add: n)
  next
    case True
    obtain h1 pl1 where t: "take_out a p prev (h, pl) = (h1, pl1)" by fastforce
    note o = take_out_ok[OF c Cons.prems(2) t]
    have gp: "ev_group (h p) = g" using Cons.prems(5) True by blast
    have se: "same_events h h1 (set (pre @ p # suf))" using o by blast
    show ?thesis
    proof (cases "i + 1 \<ge> m")
      case stop: True
      then have "nat (m - i - 1) = 0" by simp
      with True stop o t gp show ?thesis
        unfolding pev length_Cons scan_group_step n by auto
    next
      case False
      have P1: "\<forall>q. P q \<longleftrightarrow> ev_group (h1 q) = g" using Cons.prems(5) by (simp add: same_events_fields[OF se])
      have nx1: "suf \<noteq> [] \<Longrightarrow> ev_next (h1 p) = Some (hd suf)" using o by blast
      have c1: "chain h1 pl1 (pre @ suf)" using o by blast
      have i1: "i + 1 < m" using False by simp
      obtain h' pl' where ih:
        "scan_group a g m (length suf) (ev_next (h1 p)) prev (i + 1) (h1, pl1) =
           Some (take (nat (m - (i + 1))) (filter P suf), h', pl')"
        "chain h' pl' (pre @ keep_rest P (nat (m - (i + 1))) suf)"
        "same_events h1 h' (set (pre @ suf))"
        "\<forall>r. owner (h' r) = (if r \<in> set (take (nat (m - (i + 1))) (filter P suf)) then a else owner (h1 r))"
        "cnt pl' = cnt pl1 \<and> mutex pl' = mutex pl1 \<and> events_in pl' = events_in pl1"
        using Cons.IH[OF c1 Cons.prems(2) nx1 i1 P1] by blast
      have "same_events h h' (set (pre @ p # suf))"
        by (rule same_events_step[OF se same_events_mono[OF ih(3)]]) auto
      with True False t ih o gp show ?thesis
        unfolding pev length_Cons scan_group_step n by (auto simp: diff_diff_eq)
    qed
  qed
qed

lemma read_group_ok:
  assumes r: "list_repr h (list_in ps) xs" and xs: "xs \<noteq> []" and m: "1 \<le> m"
    and P: "P = (\<lambda>p. ev_group (h p) = g)"
  shows "\<exists>ps' h'. read_group att mode m g (ps, h) =
      Some (if filter P xs = [] \<and> mode \<noteq> ET_ASYNC then Retry
            else Done (ET_OK, take (nat m) (filter P xs)), ps', h') \<and>
    taken att (take (nat m) (filter P xs)) (keep_rest P (nat m) xs) (ps, h) (ps', h')"
proof -
  note f = list_reprD[OF r]
  define k where "k = (if m > cnt (list_in ps) then cnt (list_in ps) else m)"
  have k: "0 < k" "nat k = min (nat m) (length xs)" using f(1) xs m by (auto simp: k_def min_def)
  have len: "length (filter P xs) \<le> nat m" if "length xs \<le> nat m"
    using that length_filter_le[of P xs] by linarith
  have tk: "take (nat k) (filter P xs) = take (nat m) (filter P xs)"
    using len k(2) by (cases "nat m \<le> length xs") (simp_all add: min_def)
  have kr: "keep_rest P (nat k) xs = keep_rest P (nat m) xs"
    using keep_rest_filter[OF f(3)] tk by metis
  have Pg: "\<forall>p. P p \<longleftrightarrow> ev_group (h p) = g" using P by simp
  have c: "chain h (list_in ps) ([] @ xs)" using r by (simp add: list_repr_chain)
  obtain h' pl' where s: "scan_group (int att) g k (length xs) (firstevent (list_in ps)) None 0 (h, list_in ps) =
      Some (take (nat m) (filter P xs), h', pl')"
    "chain h' pl' ([] @ keep_rest P (nat m) xs)" "same_events h h' (set xs)"
    "\<forall>r. owner (h' r) = (if r \<in> set (take (nat m) (filter P xs)) then int att else owner (h r))"
    "cnt pl' = cnt (list_in ps)" "mutex pl' = mutex (list_in ps)" "events_in pl' = events_in (list_in ps)"
    using scan_group_ok[OF c _ f(4) k(1) Pg, of None "int att"]
    unfolding diff_0_right tk kr append_Nil by (simp only: if_True refl) blast
  have "length (take (nat m) (filter P xs)) + length (keep_rest P (nat m) xs) = length xs"
    using keep_rest_mset[of "nat m" P xs] by (metis size_mset size_union)
  then have lr: "list_repr h' (pl'\<lparr>cnt := cnt pl' - int (length (take (nat m) (filter P xs)))\<rparr>)
      (keep_rest P (nat m) xs)"
    using s(2,5) f(1) by (simp add: list_repr_def chain_def)
  have nm: "nat (cnt (list_in ps)) = length xs" using f(1) by simp
  have ne: "take (nat m) (filter P xs) = [] \<longleftrightarrow> filter P xs = []" using m by auto
  have se: "same_events h h' (set (take (nat m) (filter P xs)) \<union> set (keep_rest P (nat m) xs))"
    using s(3) set_keep_rest[of "nat m" P xs] by simp
  show ?thesis
    using s lr nm ne se
    by (simp add: read_group_def Let_def k_def[symmetric] taken_def)
qed

end
