(* ===== verification/EtTransfer.thy ===== *)
theory EtTransfer imports EtRead begin

text \<open>
  The transfers of whole batches of events (\<^verbatim>\<open>et_readwrite.c\<close>): \<^verbatim>\<open>et_station_nwriteNoPri\<close>, the
  dumps into GrandCentral's input list, and \<^verbatim>\<open>et_llist_read\<close>, \<^verbatim>\<open>et_llist_write_gc\<close>,
  \<^verbatim>\<open>et_llist_write\<close>, with which the conductors empty an output list and fill the input lists of
  the stations downstream. The array \<^verbatim>\<open>pe\<close> with its length \<^verbatim>\<open>num\<close> is a list.
\<close>

section \<open>Appending without priorities\<close>

definition append_one :: "nat \<Rightarrow> heap \<times> et_list \<times> nat \<Rightarrow> heap \<times> et_list \<times> nat" where
  "append_one p = (\<lambda>(h, pl, lst).
     (set_owner p ET_SYS (set_next lst (Some p) h), pl\<lparr>lastevent := Some p, cnt := cnt pl + 1\<rparr>, p))"

text \<open>The part between lock and unlock that \<^verbatim>\<open>et_station_nwriteNoPri\<close> and \<^verbatim>\<open>et_station_ndump\<close> share.\<close>

definition append_all :: "nat list \<Rightarrow> heap \<times> et_list \<Rightarrow> (heap \<times> et_list) option" where
  "append_all pes = (\<lambda>(h, pl).
     let (h, pl, rest) =
       (if cnt pl = 0 then (set_owner (hd pes) ET_SYS h,
          pl\<lparr>firstevent := Some (hd pes), lastevent := Some (hd pes), cnt := cnt pl + 1\<rparr>, tl pes)
        else (h, pl, pes))
     in do {
       l \<leftarrow> lastevent pl;
       let (h, pl, _) = foldl (\<lambda>st p. append_one p st) (h, pl, l) rest;
       Some (h, pl) })"

definition et_station_nwriteNoPri ::
  "int \<Rightarrow> nat list \<Rightarrow> et_station \<times> heap \<Rightarrow> (int \<times> et_station \<times> heap) option" where
  "et_station_nwriteNoPri nmax pes = (\<lambda>(ps, h).
     if pes = [] then Some (ET_OK, ps, h)
     else let pl = et_llist_lock (list_out ps) in
     if int (length pes) > nmax - cnt pl then Some (ET_ERROR, ps\<lparr>list_out := et_llist_unlock pl\<rparr>, h)
     else do {
       let pl = (if cnt pl = 0 then pl\<lparr>firstevent := None\<rparr> else pl);
       let fx = (fixout ps)\<lparr>fout_cnt := cnt pl, fout_num := int (length pes),
                  fout_start := fout_start (fixout ps) + 1\<rparr>;
       (h, pl) \<leftarrow> append_all pes (h, pl);
       let fx = fx\<lparr>fout_start := fout_start fx - 1\<rparr>;
       let pl = cond_signal (et_llist_unlock pl);
       Some (ET_OK, ps\<lparr>list_out := pl, fixout := fx\<rparr>, h) })"

section \<open>Dumps into GrandCentral's input list\<close>

definition et_station_dump ::
  "int \<Rightarrow> nat \<Rightarrow> et_station \<times> heap \<Rightarrow> (int \<times> et_station \<times> heap) option" where
  "et_station_dump nmax p = (\<lambda>(ps, h).
     let pl = et_llist_lock (list_in ps) in
     if cnt pl \<ge> nmax then Some (ET_ERROR, ps\<lparr>list_in := et_llist_unlock pl\<rparr>, h)
     else do {
       let pl = (if cnt pl = 0 then pl\<lparr>firstevent := None\<rparr> else pl);
       let fx = (fixin ps)\<lparr>fin_eventsin := events_in pl, fin_cnt := cnt pl, fin_num := 1,
                  fin_call := ET_FIX_DUMP, fin_start := fin_start (fixin ps) + 1\<rparr>;
       (h, pl) \<leftarrow>
         (if cnt pl = 0 then Some (h, pl\<lparr>firstevent := Some p\<rparr>)
          else do { l \<leftarrow> lastevent pl; Some (set_next l (Some p) h, pl) });
       let pl = pl\<lparr>lastevent := Some p, cnt := cnt pl + 1, events_in := events_in pl + 1\<rparr>;
       let fx = fx\<lparr>fin_start := fin_start fx - 1\<rparr>;
       let pl = cond_signal (et_llist_unlock pl);
       Some (ET_OK, ps\<lparr>list_in := pl, fixin := fx\<rparr>, set_owner p ET_SYS h) })"

definition et_station_ndump ::
  "int \<Rightarrow> nat list \<Rightarrow> et_station \<times> heap \<Rightarrow> (int \<times> et_station \<times> heap) option" where
  "et_station_ndump nmax pes = (\<lambda>(ps, h).
     if pes = [] then Some (ET_OK, ps, h)
     else let pl = et_llist_lock (list_in ps) in
     if int (length pes) > nmax - cnt pl then Some (ET_ERROR, ps\<lparr>list_in := et_llist_unlock pl\<rparr>, h)
     else do {
       let pl = (if cnt pl = 0 then pl\<lparr>firstevent := None\<rparr> else pl);
       let fx = (fixin ps)\<lparr>fin_eventsin := events_in pl, fin_cnt := cnt pl,
                  fin_num := int (length pes), fin_call := ET_FIX_DUMP,
                  fin_start := fin_start (fixin ps) + 1\<rparr>;
       (h, pl) \<leftarrow> append_all pes (h, pl);
       let fx = fx\<lparr>fin_start := fin_start fx - 1\<rparr>;
       let pl = cond_signal (et_llist_unlock pl);
       Some (ET_OK, ps\<lparr>list_in := pl, fixin := fx\<rparr>, h) })"

section \<open>The conductors' reads and writes\<close>

text \<open>The places of \<open>k\<close> more events after the one at \<open>p\<close>; a NULL among them is a fault.\<close>

fun follow :: "heap \<Rightarrow> nat \<Rightarrow> nat \<Rightarrow> nat list option" where
  "follow h 0 p = Some [p]"
| "follow h (Suc k) p = do { q \<leftarrow> ev_next (h p); ps \<leftarrow> follow h k q; Some (p # ps) }"

definition et_llist_read :: "heap \<Rightarrow> et_list \<Rightarrow> (int \<times> nat list \<times> et_list) option" where
  "et_llist_read h pl =
     (if cnt pl = 0 then Some (ET_ERROR, [], pl)
      else do {
        p \<leftarrow> firstevent pl;
        pes \<leftarrow> follow h (nat (cnt pl - 1)) p;
        Some (cnt pl, pes, pl\<lparr>firstevent := None, cnt := 0, lasthigh := 0,
                events_out := events_out pl + of_int (cnt pl)\<rparr>) })"

definition et_llist_write_gc ::
  "int \<Rightarrow> nat list \<Rightarrow> heap \<times> et_list \<Rightarrow> (int \<times> heap \<times> et_list) option" where
  "et_llist_write_gc nmax pes = (\<lambda>(h, pl).
     if int (length pes) > nmax - cnt pl then Some (ET_ERROR, h, pl)
     else if pes = [] then None
     else do {
       (h, pl) \<leftarrow>
         (if cnt pl = 0 then Some (h, pl\<lparr>firstevent := Some (hd pes)\<rparr>)
          else do { l \<leftarrow> lastevent pl; Some (set_next l (Some (hd pes)) h, pl) });
       Some (ET_OK, link_up pes h, pl\<lparr>lastevent := Some (last pes),
         events_in := events_in pl + of_nat (length pes), cnt := cnt pl + int (length pes)\<rparr>) })"

text \<open>
  The scan for the last high priority event: the first event that is not of high priority (or
  whatever follows the last event), the last high priority event and their number.
\<close>

fun scan_high :: "heap \<Rightarrow> nat \<Rightarrow> eptr \<Rightarrow> eptr \<Rightarrow> int \<Rightarrow> (eptr \<times> eptr \<times> int) option" where
  "scan_high h 0 pev lh n = Some (pev, lh, n)"
| "scan_high h (Suc k) pev lh n = do {
     p \<leftarrow> pev;
     if priority (h p) = ET_HIGH then scan_high h k (ev_next (h p)) (Some p) (n + 1)
     else Some (pev, lh, n) }"

text \<open>
  The loop ``add rest of high pri items'' behind the event \<open>q\<close>: the events left, the last high
  priority event and the heap.
\<close>

fun link_high :: "eptr \<Rightarrow> nat \<Rightarrow> nat list \<Rightarrow> heap \<Rightarrow> nat list \<times> nat \<times> heap" where
  "link_high pev q [] h = ([], q, h)"
| "link_high pev q (p # ps) h =
     (if priority (h p) \<noteq> ET_HIGH then (p # ps, q, h)
      else link_high pev p ps (set_next p pev (set_next q (Some p) h)))"

text \<open>The branch of \<^verbatim>\<open>et_llist_write\<close> for a first event \<open>p0\<close> of high priority and the others \<open>rest\<close>.\<close>

definition write_high :: "nat \<Rightarrow> nat list \<Rightarrow> heap \<times> et_list \<Rightarrow> (heap \<times> et_list) option" where
  "write_high p0 rest = (\<lambda>(h, pl). do {
     (pevent, lh, high_cnt) \<leftarrow> scan_high h (nat (cnt pl)) (firstevent pl) None 0;
     let (h, pl) = (case lh of
          Some q \<Rightarrow> (set_next q (Some p0) (set_next p0 (ev_next (h q)) h), pl)
        | None \<Rightarrow> (set_next p0 (firstevent pl) h, pl\<lparr>firstevent := Some p0\<rparr>));
     let (lows, lasth, h) = link_high pevent p0 rest h;
     let pl = (if high_cnt = cnt pl then pl\<lparr>lastevent := Some lasth\<rparr> else pl);
     if lows \<noteq> [] then do {
       let h = link_up lows h;
       l \<leftarrow> lastevent pl;
       Some (set_next l (Some (hd lows)) h, pl\<lparr>lastevent := Some (last lows)\<rparr>) }
     else Some (h, pl) })"

text \<open>
  If \<^verbatim>\<open>num\<close> is clipped to 0 or less, \<^verbatim>\<open>pe[num-1]\<close> is read outside of the array.
\<close>

definition et_llist_write ::
  "int \<Rightarrow> nat list \<Rightarrow> heap \<times> et_list \<Rightarrow> (int \<times> heap \<times> et_list) option" where
  "et_llist_write nmax pe = (\<lambda>(h, pl).
     if pe = [] then None
     else let n = (if int (length pe) > nmax - cnt pl then nmax - cnt pl else int (length pe));
              pes = take (nat n) pe
     in do {
       (h, pl) \<leftarrow>
         (if priority (h (hd pe)) = ET_LOW \<or> cnt pl = 0 then
            (if n < 1 then None
             else do {
               (h, pl) \<leftarrow>
                 (if cnt pl = 0 then Some (h, pl\<lparr>firstevent := Some (hd pe)\<rparr>)
                  else do { l \<leftarrow> lastevent pl; Some (set_next l (Some (hd pe)) h, pl) });
               Some (link_up pes h, pl\<lparr>lastevent := Some (last pes)\<rparr>) })
          else write_high (hd pe) (tl pes) (h, pl));
       Some (n, h, pl\<lparr>events_in := events_in pl + of_int n, cnt := cnt pl + n\<rparr>) })"

section \<open>Chains made of segments\<close>

lemma linked_cong_butlast:
  "linked h xs \<Longrightarrow> (\<And>p. p \<in> set (butlast xs) \<Longrightarrow> ev_next (h' p) = ev_next (h p)) \<Longrightarrow> linked h' xs"
  by (induction h xs rule: linked.induct) auto

lemma link_up_other: "r \<notin> set (butlast ps) \<Longrightarrow> ev_next (link_up ps h r) = ev_next (h r)"
  by (induction ps h rule: link_up.induct) auto

lemma link_up_same:
  "owner (link_up ps h r) = owner (h r)" "core (link_up ps h r) = core (h r)"
  "r \<notin> set ps \<Longrightarrow> link_up ps h r = h r"
  by (induction ps h rule: link_up.induct) auto

lemma linked_link_up: "distinct ps \<Longrightarrow> linked (link_up ps h) ps"
  by (induction ps h rule: link_up.induct) (auto simp: link_up_same)

lemma link_up_last: "distinct ps \<Longrightarrow> ps \<noteq> [] \<Longrightarrow> ev_next (link_up ps h (last ps)) = ev_next (h (last ps))"
  by (rule link_up_other) (metis append_butlast_last_id distinct_append disjoint_iff last_in_set
      list.set_intros(1))

lemma last_notin_butlast: "distinct xs \<Longrightarrow> last xs \<notin> set (butlast xs)"
  by (cases xs rule: rev_cases) auto

lemma same_events_link_up: "set ps \<subseteq> A \<Longrightarrow> same_events h (link_up ps h) A"
  unfolding same_events_def using link_up_same by blast

lemma link_high_ok:
  assumes "link_high pev q ps h = (lows, l, h')" "q \<notin> set ps" "distinct ps"
  shows "lows = dropWhile (high h) ps \<and> l = last (q # takeWhile (high h) ps) \<and>
    linked h' (q # takeWhile (high h) ps) \<and>
    ev_next (h' l) = (if takeWhile (high h) ps = [] then ev_next (h q) else pev) \<and>
    (\<forall>r. r \<notin> set (q # takeWhile (high h) ps) \<longrightarrow> h' r = h r) \<and>
    (\<forall>r. owner (h' r) = owner (h r) \<and> core (h' r) = core (h r))"
  using assms
proof (induction pev q ps h rule: link_high.induct)
  case (2 pev q p ps h)
  show ?case
  proof (cases "high h p")
    case False
    with 2(2) show ?thesis by (auto simp: high_def)
  next
    case True
    define h1 where "h1 = set_next p pev (set_next q (Some p) h)"
    have pr: "\<not> priority (h p) \<noteq> ET_HIGH" using True by (simp add: high_def)
    have ih: "lows = dropWhile (high h) ps \<and> l = last (p # takeWhile (high h) ps) \<and>
      linked h' (p # takeWhile (high h) ps) \<and>
      ev_next (h' l) = (if takeWhile (high h) ps = [] then ev_next (h1 p) else pev) \<and>
      (\<forall>r. r \<notin> set (p # takeWhile (high h) ps) \<longrightarrow> h' r = h1 r) \<and>
      (\<forall>r. owner (h' r) = owner (h1 r) \<and> core (h' r) = core (h1 r))"
      using 2(1)[OF pr] 2(2-4) pr by (auto simp: h1_def)
    moreover have "q \<notin> set (p # takeWhile (high h) ps)" using 2(3) by (auto dest: set_takeWhileD)
    ultimately show ?thesis using True by (auto simp: h1_def)
  qed
qed auto

lemma scan_high_ok:
  assumes "linked h xs" "xs \<noteq> []"
  shows "\<exists>pev. scan_high h (length xs) (Some (hd xs)) lh n =
      Some (pev, if takeWhile (high h) xs = [] then lh else Some (last (takeWhile (high h) xs)),
        n + int (length (takeWhile (high h) xs))) \<and>
    (dropWhile (high h) xs \<noteq> [] \<longrightarrow> pev = Some (hd (dropWhile (high h) xs))) \<and>
    (takeWhile (high h) xs \<noteq> [] \<longrightarrow> pev = ev_next (h (last (takeWhile (high h) xs)))) \<and>
    (takeWhile (high h) xs = [] \<longrightarrow> pev = Some (hd xs))"
  using assms
proof (induction xs arbitrary: lh n)
  case (Cons x xs)
  show ?case
  proof (cases "high h x")
    case False
    then show ?thesis by (simp add: high_def)
  next
    case True
    then have pr: "priority (h x) = ET_HIGH" by (simp add: high_def)
    show ?thesis
    proof (cases xs)
      case Nil
      then show ?thesis using True pr by simp
    next
      case (Cons y ys)
      have "linked h xs" "ev_next (h x) = Some (hd xs)" "xs \<noteq> []"
        using Cons.prems(1) Cons by simp_all
      with Cons.IH[of "Some x" "n + 1"] True pr show ?thesis by auto
    qed
  qed
qed simp

section \<open>Refinements\<close>

lemma append_loop:
  assumes "list_repr h pl xs" "xs \<noteq> []" "distinct (xs @ pes)" "lst = last xs"
    and "foldl (\<lambda>st p. append_one p st) (h, pl, lst) pes = (h', pl', lst')"
  shows "list_repr h' pl' (xs @ pes) \<and> same_events h h' (set xs \<union> set pes) \<and>
    (\<forall>r. owner (h' r) = (if r \<in> set pes then ET_SYS else owner (h r))) \<and>
    pl' = pl\<lparr>lastevent := lastevent pl', cnt := cnt pl'\<rparr>"
  using assms
proof (induction pes arbitrary: h pl lst xs)
  case Nil
  then show ?case by simp
next
  case (Cons p pes)
  define h1 where "h1 = set_owner p ET_SYS (set_next lst (Some p) h)"
  define pl1 where "pl1 = pl\<lparr>lastevent := Some p, cnt := cnt pl + 1\<rparr>"
  note f = list_reprD[OF Cons.prems(1)]
  have "linked h1 (xs @ [p])"
    using linked_snoc[OF f(2,3)] Cons.prems(2-4) by (simp add: h1_def)
  then have r1: "list_repr h1 pl1 (xs @ [p])"
    using f Cons.prems(2,3) by (auto simp: pl1_def list_repr_def)
  have se: "same_events h h1 (set xs \<union> set (p # pes))"
    unfolding h1_def using Cons.prems(2,4)
    by (intro same_events_step[OF same_events_set_next same_events_set_owner]) auto
  have "list_repr h' pl' ((xs @ [p]) @ pes) \<and> same_events h1 h' (set (xs @ [p]) \<union> set pes) \<and>
    (\<forall>r. owner (h' r) = (if r \<in> set pes then ET_SYS else owner (h1 r))) \<and>
    pl' = pl1\<lparr>lastevent := lastevent pl', cnt := cnt pl'\<rparr>"
    using Cons.prems(3,5) by (intro Cons.IH[OF r1]) (simp_all add: append_one_def h1_def pl1_def)
  then show ?case using same_events_step[OF se, of h']
    by (auto simp: h1_def pl1_def)
qed

text \<open>A batch appended to a list, whatever the priorities.\<close>

lemma append_all_ok:
  assumes r: "list_repr h pl xs" and d: "distinct (xs @ pes)" and ne: "pes \<noteq> []"
  shows "\<exists>h' pl'. append_all pes (h, pl) = Some (h', pl') \<and> list_repr h' pl' (xs @ pes) \<and>
    same_events h h' (set xs \<union> set pes) \<and>
    (\<forall>r. owner (h' r) = (if r \<in> set pes then ET_SYS else owner (h r))) \<and>
    pl' = pl\<lparr>firstevent := firstevent pl', lastevent := lastevent pl', cnt := cnt pl'\<rparr>"
proof (cases "xs = []")
  case True
  obtain p qs where pes: "pes = p # qs" using ne by (cases pes) auto
  define h1 where "h1 = set_owner p ET_SYS h"
  define pl1 where "pl1 = pl\<lparr>firstevent := Some p, lastevent := Some p, cnt := 1\<rparr>"
  obtain h' pl' l' where fo: "foldl (\<lambda>st p. append_one p st) (h1, pl1, p) qs = (h', pl', l')"
    by (metis prod_cases3)
  have "list_repr h1 pl1 [p]" by (simp add: pl1_def list_repr_def)
  then have L: "list_repr h' pl' (p # qs)" "same_events h1 h' (set pes)"
    "\<forall>r. owner (h' r) = (if r \<in> set qs then ET_SYS else owner (h1 r))"
    "pl' = pl1\<lparr>lastevent := lastevent pl', cnt := cnt pl'\<rparr>"
    using append_loop[OF _ _ _ _ fo, of "[p]"] d pes by auto
  have "same_events h h1 (set pes)" by (auto simp: h1_def pes intro: same_events_set_owner)
  note se = same_events_step[OF this L(2)]
  have fe: "firstevent pl' = firstevent pl1" by (subst L(4)) simp
  have "append_all pes (h, pl) = Some (h', pl')"
    using fo True list_reprD(1)[OF r] by (simp add: append_all_def pes h1_def pl1_def)
  moreover have "pl' = pl\<lparr>firstevent := firstevent pl', lastevent := lastevent pl', cnt := cnt pl'\<rparr>"
    using fe by (subst L(4)) (simp add: pl1_def)
  ultimately show ?thesis using L True se pes by (auto simp: h1_def)
next
  case False
  obtain h' pl' l' where fo: "foldl (\<lambda>st p. append_one p st) (h, pl, last xs) pes = (h', pl', l')"
    by (metis prod_cases3)
  note f = list_reprD[OF r]
  have L: "list_repr h' pl' (xs @ pes) \<and> same_events h h' (set xs \<union> set pes) \<and>
    (\<forall>r. owner (h' r) = (if r \<in> set pes then ET_SYS else owner (h r))) \<and>
    pl' = pl\<lparr>lastevent := lastevent pl', cnt := cnt pl'\<rparr>"
    by (rule append_loop[OF r False d refl fo])
  then have fe: "firstevent pl' = firstevent pl" by (metis et_list.select_convs(6) et_list.surjective et_list.update_convs(1,7))
  have "append_all pes (h, pl) = Some (h', pl')"
    using fo False f(1) f(5)[OF False] by (simp add: append_all_def)
  moreover have "pl' = pl\<lparr>firstevent := firstevent pl', lastevent := lastevent pl', cnt := cnt pl'\<rparr>"
    using L fe by (metis (no_types) et_list.surjective et_list.update_convs(1,6,7))
  ultimately show ?thesis using L by blast
qed

lemma ins_events_lows: "\<forall>p\<in>set L. \<not> high h p \<Longrightarrow> ins_events h L xs = xs @ L"
  by (induction L arbitrary: xs) (auto simp: ins_event_def)

lemma ins_events_highs:
  "\<forall>p\<in>set (A @ H). high h p \<Longrightarrow> \<forall>p\<in>set B. \<not> high h p \<Longrightarrow> ins_events h H (A @ B) = A @ H @ B"
proof (induction H arbitrary: A)
  case (Cons p H)
  then have "ins_event h p (A @ B) = (A @ [p]) @ B"
    using high_first_append[of A h B] by (auto simp: ins_event_def)
  then show ?case using Cons.IH[of "A @ [p]"] Cons.prems by simp
qed simp

lemma ins_events_append: "ins_events h (xs @ ys) zs = ins_events h ys (ins_events h xs zs)"
  by (simp add: ins_events_def)

text \<open>Writing a batch that has its high priority events first, as the conductors do.\<close>

lemma ins_events_high_first:
  assumes "high_first h xs" "high_first h pes"
  shows "ins_events h pes xs = takeWhile (high h) xs @ takeWhile (high h) pes @
    dropWhile (high h) xs @ dropWhile (high h) pes"
proof -
  obtain A B where A: "xs = A @ B" "\<forall>p\<in>set A. high h p" "\<forall>p\<in>set B. \<not> high h p"
    "takeWhile (high h) xs = A" "dropWhile (high h) xs = B" using high_first_split[OF assms(1)] .
  obtain H L where H: "pes = H @ L" "\<forall>p\<in>set H. high h p" "\<forall>p\<in>set L. \<not> high h p"
    "takeWhile (high h) pes = H" "dropWhile (high h) pes = L" using high_first_split[OF assms(2)] .
  have "ins_events h H (A @ B) = A @ H @ B" using A H by (intro ins_events_highs) auto
  then show ?thesis using A H by (simp add: ins_events_append ins_events_lows)
qed

lemma high_first_ins_events: "high_first h xs \<Longrightarrow> high_first h (ins_events h pes xs)"
  by (induction pes arbitrary: xs) (auto simp: high_first_ins_event)

lemma high_first_take: "high_first h xs \<Longrightarrow> high_first h (take n xs)"
  using high_first_append[of "take n (takeWhile (high h) xs)" h
      "take (n - length (takeWhile (high h) xs)) (dropWhile (high h) xs)"]
  by (metis high_first_def in_set_takeD set_takeWhileD takeWhile_dropWhile_id take_append)

lemma et_station_nwriteNoPri_ok:
  assumes r: "list_repr h (list_out ps) xs" and d: "distinct (xs @ pes)" and ne: "pes \<noteq> []"
    and n: "int (length xs) + int (length pes) \<le> nmax"
  shows "\<exists>ps' h'. et_station_nwriteNoPri nmax pes (ps, h) = Some (ET_OK, ps', h') \<and>
    list_repr h' (list_out ps') (xs @ pes) \<and> same_events h h' (set xs \<union> set pes) \<and>
    (\<forall>r. owner (h' r) = (if r \<in> set pes then ET_SYS else owner (h r))) \<and>
    lasthigh (list_out ps') = lasthigh (list_out ps) \<and> \<not> mutex (list_out ps')"
proof -
  let ?pl = "if cnt (list_out ps) = 0 then (et_llist_lock (list_out ps))\<lparr>firstevent := None\<rparr>
    else et_llist_lock (list_out ps)"
  have "list_repr h ?pl xs" using r by (auto simp: list_repr_def)
  then obtain h' pl' where a: "append_all pes (h, ?pl) = Some (h', pl')" "list_repr h' pl' (xs @ pes)"
    "same_events h h' (set xs \<union> set pes)"
    "\<forall>r. owner (h' r) = (if r \<in> set pes then ET_SYS else owner (h r))"
    "pl' = ?pl\<lparr>firstevent := firstevent pl', lastevent := lastevent pl', cnt := cnt pl'\<rparr>"
    using append_all_ok[OF _ d ne] by blast
  have "lasthigh pl' = lasthigh (list_out ps)" by (subst a(5)) simp
  moreover have "\<not> int (length pes) > nmax - cnt (list_out ps)" using n list_reprD(1)[OF r] by simp
  ultimately show ?thesis using a(1-4) ne by (auto simp: et_station_nwriteNoPri_def Let_def)
qed

text \<open>\<open>dumped pes xs\<close>: the events \<open>pes\<close> are behind \<open>xs\<close> in GrandCentral's input list.\<close>

definition dumped ::
  "nat list \<Rightarrow> nat list \<Rightarrow> et_station \<times> heap \<Rightarrow> et_station \<times> heap \<Rightarrow> bool" where
  "dumped pes xs = (\<lambda>(ps, h) (ps', h').
     list_repr h' (list_in ps') (xs @ pes) \<and> same_events h h' (set xs \<union> set pes) \<and>
     (\<forall>r. owner (h' r) = (if r \<in> set pes then ET_SYS else owner (h r))) \<and>
     \<not> mutex (list_in ps') \<and> cread (list_in ps') = Suc (cread (list_in ps)) \<and>
     ps' = ps\<lparr>list_in := list_in ps', fixin := fixin ps'\<rparr>)"

lemma et_station_dump_ok:
  assumes r: "list_repr h (list_in ps) xs" and d: "distinct (xs @ [p])" and n: "int (length xs) < nmax"
  shows "\<exists>ps' h'. et_station_dump nmax p (ps, h) = Some (ET_OK, ps', h') \<and>
    dumped [p] xs (ps, h) (ps', h') \<and> events_in (list_in ps') = events_in (list_in ps) + 1"
proof (cases "xs = []")
  case True
  then show ?thesis using list_reprD[OF r] n
    by (auto simp: et_station_dump_def dumped_def Let_def list_repr_def intro!: same_events_set_owner)
next
  case False
  note f = list_reprD[OF r]
  have "linked (set_next (last xs) (Some p) h) (xs @ [p])"
    using linked_snoc[OF f(2,3) _ False] d by simp
  moreover have "same_events h (set_owner p (-1) (set_next (last xs) (Some p) h)) (insert p (set xs))"
    using False by (intro same_events_step[OF same_events_set_next same_events_set_owner]) auto
  ultimately show ?thesis using f False n d
    by (auto simp: et_station_dump_def dumped_def Let_def list_repr_def)
qed

lemma et_station_ndump_ok:
  assumes r: "list_repr h (list_in ps) xs" and d: "distinct (xs @ pes)" and ne: "pes \<noteq> []"
    and n: "int (length xs) + int (length pes) \<le> nmax"
  shows "\<exists>ps' h'. et_station_ndump nmax pes (ps, h) = Some (ET_OK, ps', h') \<and>
    dumped pes xs (ps, h) (ps', h') \<and> events_in (list_in ps') = events_in (list_in ps)"
proof -
  let ?pl = "if cnt (list_in ps) = 0 then (et_llist_lock (list_in ps))\<lparr>firstevent := None\<rparr>
    else et_llist_lock (list_in ps)"
  have "list_repr h ?pl xs" using r by (auto simp: list_repr_def)
  then obtain h' pl' where a: "append_all pes (h, ?pl) = Some (h', pl')" "list_repr h' pl' (xs @ pes)"
    "same_events h h' (set xs \<union> set pes)"
    "\<forall>r. owner (h' r) = (if r \<in> set pes then ET_SYS else owner (h r))"
    "pl' = ?pl\<lparr>firstevent := firstevent pl', lastevent := lastevent pl', cnt := cnt pl'\<rparr>"
    using append_all_ok[OF _ d ne] by blast
  have "events_in pl' = events_in (list_in ps)" "cread pl' = cread (list_in ps)"
    by (subst a(5), simp)+
  moreover have "\<not> int (length pes) > nmax - cnt (list_in ps)" using n list_reprD(1)[OF r] by simp
  ultimately show ?thesis using a(1-4) ne by (auto simp: et_station_ndump_def dumped_def Let_def)
qed

lemma follow_ok: "linked h xs \<Longrightarrow> k < length xs \<Longrightarrow> follow h k (hd xs) = Some (take (Suc k) xs)"
proof (induction k arbitrary: xs)
  case 0
  then show ?case by (cases xs) auto
next
  case (Suc k)
  then obtain p q ys where xs: "xs = p # q # ys" by (cases xs; cases "tl xs") auto
  then show ?case using Suc.IH[of "q # ys"] Suc.prems by simp
qed

lemma et_llist_read_ok:
  assumes r: "list_repr h pl xs" and xs: "xs \<noteq> []"
  shows "\<exists>pl'. et_llist_read h pl = Some (int (length xs), xs, pl') \<and> out_repr h pl' [] \<and>
    events_out pl' = events_out pl + of_nat (length xs) \<and> mutex pl' = mutex pl \<and>
    events_in pl' = events_in pl \<and> cread pl' = cread pl"
proof -
  note f = list_reprD[OF r]
  have "follow h (length xs - 1) (hd xs) = Some xs" using follow_ok[OF f(2), of "length xs - 1"] xs by simp
  moreover have "nat (int (length xs) - 1) = length xs - 1" using xs by (simp add: nat_diff_distrib)
  ultimately show ?thesis using f xs
    by (simp add: et_llist_read_def out_repr_def list_repr_def high_first_def)
qed

lemma et_llist_read_empty: "list_repr h pl [] \<Longrightarrow> et_llist_read h pl = Some (ET_ERROR, [], pl)"
  by (simp add: et_llist_read_def list_repr_def)

text \<open>The shared way of \<^verbatim>\<open>et_llist_write_gc\<close> and \<^verbatim>\<open>et_llist_write\<close> to append a batch.\<close>

lemma append_link:
  assumes r: "list_repr h pl xs" and d: "distinct (xs @ pes)" and ne: "pes \<noteq> []"
    and h1: "h1 = (if xs = [] then h else set_next (last xs) (Some (hd pes)) h)"
  shows "linked (link_up pes h1) (xs @ pes)" "same_events h (link_up pes h1) (set xs \<union> set pes)"
    "owner (link_up pes h1 r) = owner (h r)"
proof -
  note f = list_reprD[OF r]
  have nl: "last xs \<notin> set pes" if "xs \<noteq> []" using d that by (metis disjoint_iff distinct_append last_in_set)
  have "linked (link_up pes h1) xs"
  proof (rule linked_cong_butlast[OF f(2)])
    fix p assume p: "p \<in> set (butlast xs)"
    then have "p \<notin> set pes" using d by (auto dest: in_set_butlastD)
    moreover have "p \<noteq> last xs" using p last_notin_butlast[OF f(3)] by auto
    ultimately show "ev_next (link_up pes h1 p) = ev_next (h p)" by (simp add: link_up_same h1)
  qed
  moreover have "linked (link_up pes h1) pes" using d by (simp add: linked_link_up)
  moreover have "xs \<noteq> [] \<Longrightarrow> ev_next (link_up pes h1 (last xs)) = Some (hd pes)"
    using nl by (simp add: link_up_same h1)
  ultimately show "linked (link_up pes h1) (xs @ pes)" by (simp add: linked_append)
  have "same_events h h1 (set xs \<union> set pes)" by (auto simp: h1 intro!: same_events_set_next)
  then show "same_events h (link_up pes h1) (set xs \<union> set pes)"
    by (rule same_events_step[OF _ same_events_link_up]) simp
  show "owner (link_up pes h1 r) = owner (h r)" by (simp add: link_up_same h1)
qed

lemma et_llist_write_gc_ok:
  assumes r: "list_repr h pl xs" and d: "distinct (xs @ pes)" and ne: "pes \<noteq> []"
    and n: "int (length xs) + int (length pes) \<le> nmax"
  shows "\<exists>h' pl'. et_llist_write_gc nmax pes (h, pl) = Some (ET_OK, h', pl') \<and>
    list_repr h' pl' (xs @ pes) \<and> same_events h h' (set xs \<union> set pes) \<and>
    (\<forall>r. owner (h' r) = owner (h r)) \<and> events_in pl' = events_in pl + of_nat (length pes) \<and>
    mutex pl' = mutex pl \<and> events_out pl' = events_out pl \<and> cread pl' = cread pl"
proof -
  note f = list_reprD[OF r]
  define h1 where "h1 = (if xs = [] then h else set_next (last xs) (Some (hd pes)) h)"
  note al = append_link[OF r d ne h1_def]
  have "\<not> int (length pes) > nmax - cnt pl" using n f(1) by simp
  with al f d ne show ?thesis
    by (auto simp: et_llist_write_gc_def h1_def list_repr_def split: if_splits)
qed

text \<open>The high priority branch of \<^verbatim>\<open>et_llist_write\<close> makes the chain \<open>A H B L\<close>.\<close>

lemma write_high_ok:
  assumes r: "list_repr h pl (A @ B)" and ne: "A @ B \<noteq> []"
    and A: "\<forall>p\<in>set A. high h p" and B: "\<forall>p\<in>set B. \<not> high h p"
    and H: "\<forall>p\<in>set (p0 # H). high h p" and L: "\<forall>p\<in>set L. \<not> high h p"
    and d: "distinct (A @ B @ p0 # H @ L)"
  shows "\<exists>h' pl'. write_high p0 (H @ L) (h, pl) = Some (h', pl') \<and>
    chain h' pl' (A @ (p0 # H) @ B @ L) \<and> same_events h h' (set (A @ B @ p0 # H @ L)) \<and>
    (\<forall>r. owner (h' r) = owner (h r)) \<and>
    pl' = pl\<lparr>firstevent := firstevent pl', lastevent := lastevent pl'\<rparr>"
proof -
  note f = list_reprD[OF r]
  have tw: "takeWhile (high h) (A @ B) = A" "dropWhile (high h) (A @ B) = B"
    using high_first_append[OF A B] by auto
  obtain pev where sc: "scan_high h (length (A @ B)) (Some (hd (A @ B))) None 0 =
      Some (pev, if A = [] then None else Some (last A), int (length A))"
    and pev: "B \<noteq> [] \<longrightarrow> pev = Some (hd B)" "A \<noteq> [] \<longrightarrow> pev = ev_next (h (last A))"
      "A = [] \<longrightarrow> pev = Some (hd (A @ B))"
    using scan_high_ok[OF f(2) ne, of None 0] unfolding tw by auto
  define h1 where "h1 = (if A = [] then set_next p0 pev h
    else set_next (last A) (Some p0) (set_next p0 pev h))"
  have high1: "high h1 = high h" by (simp add: h1_def)
  have twH: "takeWhile (high h1) (H @ L) = H" "dropWhile (high h1) (H @ L) = L"
    using high_first_append[of H h L] H L high1 by auto
  obtain h2 where lk: "link_high pev p0 (H @ L) h1 = (L, last (p0 # H), h2)"
    and l2: "linked h2 (p0 # H)" "ev_next (h2 (last (p0 # H))) = (if H = [] then ev_next (h1 p0) else pev)"
      "\<forall>r. r \<notin> set (p0 # H) \<longrightarrow> h2 r = h1 r"
      "\<forall>r. owner (h2 r) = owner (h1 r) \<and> core (h2 r) = core (h1 r)"
    using link_high_ok[of pev p0 "H @ L" h1] d twH by (metis (no_types, lifting) distinct.simps(2) distinct_append prod_cases3)
  have p0A: "A \<noteq> [] \<Longrightarrow> last A \<noteq> p0" using d last_in_set[of A] by auto
  have nl: "ev_next (h2 (last (p0 # H))) = pev" using l2(2) p0A by (cases "A = []") (auto simp: h1_def)
  define lst where "lst = (if B = [] then last (p0 # H) else last B)"
  define h3 where "h3 = (if L = [] then h2 else set_next lst (Some (hd L)) (link_up L h2))"
  have lastB: "B \<noteq> [] \<Longrightarrow> last B \<notin> set (A @ (p0 # H) @ L)"
    using d last_in_set[of B] by (auto simp: disjoint_iff)
  have lastH: "last (p0 # H) \<notin> set (A @ B @ L)"
    using d last_in_set[of "p0 # H"] by (auto simp: disjoint_iff)
  have lastA: "A \<noteq> [] \<Longrightarrow> last A \<notin> set (B @ (p0 # H) @ L)"
    using d last_in_set[of A] by (auto simp: disjoint_iff)
  have "lst \<in> set (B @ p0 # H)"
    using last_in_set[of "p0 # H"] last_in_set[of B] by (auto simp: lst_def)
  then have lstL: "lst \<notin> set L" using d by auto
  have nx3: "ev_next (h3 r) = (if L \<noteq> [] \<and> r = lst then Some (hd L) else ev_next (h2 r))" if "r \<notin> set L" for r
    using that by (simp add: h3_def link_up_same)
  have nx2: "ev_next (h2 r) = (if A \<noteq> [] \<and> r = last A then Some p0 else ev_next (h r))"
    if "r \<notin> set (p0 # H)" for r
    using that l2(3) by (simp add: h1_def)
  have AB: "linked h A" "linked h B" using f(2) unfolding linked_append by blast+
  have "linked h3 A"
  proof (rule linked_cong_butlast[OF AB(1)])
    fix p assume p: "p \<in> set (butlast A)"
    then have "p \<in> set A" "A \<noteq> []" by (auto dest: in_set_butlastD)
    moreover have "p \<noteq> last A" using p last_notin_butlast[of A] d by auto
    moreover have "p \<noteq> lst" "p \<notin> set L" "p \<notin> set (p0 # H)"
      using \<open>p \<in> set A\<close> d lastB lastH by (auto simp: lst_def split: if_splits)
    ultimately show "ev_next (h3 p) = ev_next (h p)" using nx2 nx3 by simp
  qed
  moreover have "linked h3 (p0 # H)"
  proof (rule linked_cong_butlast[OF l2(1)])
    fix p assume p: "p \<in> set (butlast (p0 # H))"
    then have "p \<in> set (p0 # H)" by (rule in_set_butlastD)
    moreover have "p \<noteq> last (p0 # H)" using p last_notin_butlast[of "p0 # H"] d by auto
    ultimately have "p \<noteq> lst" "p \<notin> set L" using d lastB by (auto simp: lst_def split: if_splits)
    then show "ev_next (h3 p) = ev_next (h2 p)" using nx3 by simp
  qed
  moreover have "linked h3 B"
  proof (rule linked_cong_butlast[OF AB(2)])
    fix p assume p: "p \<in> set (butlast B)"
    then have "p \<in> set B" "B \<noteq> []" by (auto dest: in_set_butlastD)
    moreover have "p \<noteq> last B" using p last_notin_butlast[of B] d by auto
    moreover have "p \<notin> set L" "p \<notin> set (p0 # H)" "p \<notin> set A" using \<open>p \<in> set B\<close> d by auto
    moreover have "A \<noteq> [] \<Longrightarrow> p \<noteq> last A" using \<open>p \<notin> set A\<close> by (meson last_in_set)
    ultimately show "ev_next (h3 p) = ev_next (h p)" using nx2 nx3 by (auto simp: lst_def)
  qed
  moreover have "linked h3 L"
    using linked_link_up[of L h2] d lstL by (simp add: h3_def linked_upd_other)
  moreover have "A \<noteq> [] \<Longrightarrow> ev_next (h3 (last A)) = Some p0"
  proof -
    assume ne: "A \<noteq> []"
    then have "last A \<in> set A" by simp
    then have "last A \<notin> set L" "last A \<notin> set (p0 # H)" "last A \<noteq> lst"
      using lastA[OF ne] lastB lastH by (auto simp: lst_def split: if_splits)
    then show "ev_next (h3 (last A)) = Some p0" using ne nx2 nx3 by simp
  qed
  moreover have "B \<noteq> [] \<Longrightarrow> ev_next (h3 (last (p0 # H))) = Some (hd B)"
  proof -
    assume ne: "B \<noteq> []"
    have "last (p0 # H) \<in> set (p0 # H)" by (rule last_in_set) simp
    then have "last (p0 # H) \<notin> set L" "last (p0 # H) \<noteq> lst"
      using lastH lastB[OF ne] ne by (auto simp: lst_def simp del: last.simps)
    then show "ev_next (h3 (last (p0 # H))) = Some (hd B)" using nx3 nl pev(1) ne by simp
  qed
  moreover have "L \<noteq> [] \<Longrightarrow> ev_next (h3 lst) = Some (hd L)" by (simp add: h3_def)
  ultimately have lin: "linked h3 (A @ (p0 # H) @ B @ L)"
    unfolding linked_append lst_def by (cases "B = []") auto
  have "same_events h h1 (set (A @ B @ p0 # H @ L))"
    unfolding h1_def
    by (auto intro!: same_events_set_next same_events_step[OF same_events_set_next same_events_set_next])
  moreover have "same_events h1 h2 (set (A @ B @ p0 # H @ L))"
    using l2(3,4) by (auto simp: same_events_def)
  moreover have "same_events h2 h3 (set (A @ B @ p0 # H @ L))"
    unfolding h3_def using last_in_set[of B] last_in_set[of "p0 # H"]
    by (auto simp: lst_def intro!: same_events_step[OF same_events_link_up same_events_set_next])
  ultimately have se: "same_events h h3 (set (A @ B @ p0 # H @ L))"
    using same_events_step by blast
  have ow: "owner (h3 r) = owner (h r)" for r
    using l2(4) by (simp add: h3_def h1_def link_up_same)
  define pl' where "pl' = pl\<lparr>firstevent := Some (hd (A @ [p0])), lastevent := Some (last ((p0 # H) @ B @ L))\<rparr>"
  have "write_high p0 (H @ L) (h, pl) = Some (h3, pl')"
  proof -
    have c: "nat (cnt pl) = length (A @ B)" "firstevent pl = Some (hd (A @ B))"
      "lastevent pl = Some (last (A @ B))" "int (length A) = cnt pl \<longleftrightarrow> B = []"
      using f ne by auto
    have A1: "A \<noteq> [] \<Longrightarrow> h1 = set_next (last A) (Some p0) (set_next p0 (ev_next (h (last A))) h)"
      "A = [] \<Longrightarrow> h1 = set_next p0 (Some (hd (A @ B))) h"
      using pev by (simp_all add: h1_def)
    show ?thesis
    proof (cases "A = []")
      case True
      then show ?thesis
        using c sc lk A1 ne
        by (simp add: write_high_def Let_def h3_def pl'_def split del: if_split) (auto simp: lst_def)
    next
      case False
      then show ?thesis
        using c sc lk A1 ne
        by (simp add: write_high_def Let_def h3_def pl'_def split del: if_split) (auto simp: lst_def)
    qed
  qed
  moreover have "chain h3 pl' (A @ (p0 # H) @ B @ L)"
    using lin d by (cases A) (auto simp: chain_def pl'_def)
  ultimately show ?thesis using se ow by (auto simp: pl'_def)
qed

text \<open>\<^verbatim>\<open>et_llist_write\<close> puts the events that fit behind those of their priority.\<close>

lemma et_llist_write_ok:
  assumes r: "list_repr h pl xs" and hf: "high_first h xs" "high_first h pe"
    and pr: "prio_ok h (set pe)" and d: "distinct (xs @ pe)" and ne: "pe \<noteq> []"
    and n: "int (length xs) < nmax"
  defines "k \<equiv> min (length pe) (nat nmax - length xs)"
  shows "\<exists>h' pl'. et_llist_write nmax pe (h, pl) = Some (int k, h', pl') \<and>
    list_repr h' pl' (ins_events h (take k pe) xs) \<and>
    same_events h h' (set xs \<union> set pe) \<and> (\<forall>r. owner (h' r) = owner (h r)) \<and>
    pl' = pl\<lparr>firstevent := firstevent pl', lastevent := lastevent pl', cnt := cnt pl',
            events_in := events_in pl + of_nat k\<rparr>"
proof -
  note f = list_reprD[OF r]
  define pes where "pes = take k pe"
  have m: "(if int (length pe) > nmax - cnt pl then nmax - cnt pl else int (length pe)) = int k"
    and k: "0 < k" using f(1) n ne by (auto simp: k_def min_def)
  have hfp: "high_first h pes" using hf(2) by (simp add: pes_def high_first_take)
  have p: "pes \<noteq> []" "hd pes = hd pe" "distinct (xs @ pes)" "set pes \<subseteq> set pe" "length pes = k"
    using k ne d set_take_subset[of k pe] by (auto simp: pes_def k_def hd_take dest: in_set_takeD)
  have hd: "priority (h (hd pe)) \<noteq> ET_LOW \<Longrightarrow> high h (hd pe)"
    using pr ne by (auto simp: prio_ok_def high_def)
  have ek: "take (nat (int k)) pe = pes" by (simp add: pes_def)
  show ?thesis
  proof (cases "priority (h (hd pe)) = ET_LOW \<or> xs = []")
    case True
    define h1 where "h1 = (if xs = [] then h else set_next (last xs) (Some (hd pes)) h)"
    note al = append_link[OF r p(3,1) h1_def]
    have "ins_events h pes xs = xs @ pes"
    proof (cases "xs = []")
      case True
      then show ?thesis using ins_events_high_first[OF hf(1) hfp] by simp
    next
      case False
      with True have "\<not> high h (hd pes)" using p(2) by (simp add: high_def)
      then have "takeWhile (high h) pes = []" by (cases pes) auto
      then have "\<forall>q\<in>set pes. \<not> high h q" using hfp by (metis high_first_def takeWhile_dropWhile_id append_Nil)
      then show ?thesis by (rule ins_events_lows)
    qed
    moreover have "et_llist_write nmax pe (h, pl) = Some (int k, link_up pes h1,
      pl\<lparr>firstevent := (if xs = [] then Some (hd pe) else firstevent pl), lastevent := Some (last pes),
         events_in := events_in pl + of_nat k, cnt := cnt pl + int k\<rparr>)"
      unfolding et_llist_write_def Let_def prod.case m ek
      using True ne f k p(2) by (auto simp: h1_def)
    moreover have "same_events h (link_up pes h1) (set xs \<union> set pe)"
      using same_events_mono[OF al(2)] p(4) by blast
    moreover have "list_repr (link_up pes h1) (pl\<lparr>firstevent := (if xs = [] then Some (hd pe) else firstevent pl),
        lastevent := Some (last pes), events_in := events_in pl + of_nat k, cnt := cnt pl + int k\<rparr>) (xs @ pes)"
      using al(1) f p by (auto simp: list_repr_def)
    ultimately show ?thesis using al(3) by (simp add: pes_def)
  next
    case False
    obtain A B where A: "xs = A @ B" "\<forall>p\<in>set A. high h p" "\<forall>p\<in>set B. \<not> high h p"
      "takeWhile (high h) xs = A" "dropWhile (high h) xs = B" using high_first_split[OF hf(1)] .
    obtain H L where H: "pes = H @ L" "\<forall>p\<in>set H. high h p" "\<forall>p\<in>set L. \<not> high h p"
      "takeWhile (high h) pes = H" "dropWhile (high h) pes = L" using high_first_split[OF hfp] .
    obtain H' where H': "H = hd pe # H'"
      using H(1,3) p(1,2) hd False hd_in_set[of L] by (cases H) auto
    have tl: "tl pes = H' @ L" using H(1) H' by simp
    obtain h' pl' where w: "write_high (hd pe) (tl pes) (h, pl) = Some (h', pl')"
      "chain h' pl' (A @ H @ B @ L)" "same_events h h' (set (A @ B @ H @ L))"
      "\<forall>r. owner (h' r) = owner (h r)"
      "pl' = pl\<lparr>firstevent := firstevent pl', lastevent := lastevent pl'\<rparr>"
      using write_high_ok[of h pl A B "hd pe" H' L] r A H(2,3) H' tl False p(3) H(1) by auto
    have eq: "et_llist_write nmax pe (h, pl) =
        Some (int k, h', pl'\<lparr>events_in := events_in pl' + of_nat k, cnt := cnt pl' + int k\<rparr>)"
      unfolding et_llist_write_def Let_def prod.case m ek
      using False ne f(1) k w(1) by simp
    have c: "cnt pl' = cnt pl" "events_in pl' = events_in pl" by (subst w(5), simp)+
    have i: "ins_events h pes xs = A @ H @ B @ L" using ins_events_high_first[OF hf(1) hfp] A H by simp
    have "list_repr h' (pl'\<lparr>events_in := events_in pl' + of_nat k, cnt := cnt pl' + int k\<rparr>) (A @ H @ B @ L)"
      using w(2) c f(1) p(5) A(1) H(1) by (auto simp: chain_def list_repr_def)
    moreover have "same_events h h' (set xs \<union> set pe)"
      by (rule same_events_mono[OF w(3)]) (use p(4) A(1) H(1) in auto)
    moreover have "pl'\<lparr>events_in := events_in pl' + of_nat k, cnt := cnt pl' + int k\<rparr> =
      pl\<lparr>firstevent := firstevent pl', lastevent := lastevent pl', cnt := cnt pl' + int k,
         events_in := events_in pl + of_nat k\<rparr>"
      by (subst w(5)) (simp add: c)
    ultimately show ?thesis using eq w(4) i by (auto simp: pes_def)
  qed
qed

end
