(* ===== verification/EtRestore.thy ===== *)
theory EtRestore imports EtTransfer begin

text \<open>
  The recovery of the events an attachment still owns when it detaches or dies
  (\<^verbatim>\<open>et_restore_in\<close>, \<^verbatim>\<open>et_restore\<close>, \<^verbatim>\<open>et_flush_events\<close>, \<^verbatim>\<open>et_restore_events\<close> of
  \<^verbatim>\<open>et_readwrite.c\<close>). The specification of the splice is \<open>restored\<close>: high priority events go
  before all events of the list, the others before the low priority events of the list.
\<close>

section \<open>Splicing recovered events into a list\<close>

text \<open>``find last high \& first low priority events already in list''\<close>

definition find_high_low :: "heap \<Rightarrow> et_list \<Rightarrow> (eptr \<times> eptr) option" where
  "find_high_low h pl =
     (if cnt pl \<noteq> 0 then do {
        (pfirstlow, plasthigh, high_cnt) \<leftarrow> scan_high h (nat (cnt pl)) (firstevent pl) None 0;
        Some (plasthigh, if high_cnt = cnt pl then None else pfirstlow) }
      else Some (None, None))"

text \<open>Low priority events \<open>ls\<close>, linked already, are put before the low ones of the list;
  \<open>prec\<close> is the event before them if the list has no high priority event.\<close>

definition restore_lows ::
  "nat list \<Rightarrow> eptr \<Rightarrow> eptr \<Rightarrow> eptr \<Rightarrow> heap \<times> et_list \<Rightarrow> (heap \<times> et_list) option" where
  "restore_lows ls plasthigh pfirstlow prec = (\<lambda>(h, pl).
     case pfirstlow of
       None \<Rightarrow> do {
         plast \<leftarrow> lastevent pl;
         Some (set_next plast (Some (hd ls)) h, pl\<lparr>lastevent := Some (last ls)\<rparr>) }
     | Some f \<Rightarrow>
         (let (h, pl) = (case plasthigh of
              Some q \<Rightarrow> (set_next q (Some (hd ls)) h, pl)
            | None \<Rightarrow> (case prec of
                 Some q \<Rightarrow> (set_next q (Some (hd ls)) h, pl)
               | None \<Rightarrow> (h, pl\<lparr>firstevent := Some (hd ls)\<rparr>)))
          in Some (set_next (last ls) (Some f) h, pl)))"

definition restore_splice :: "nat list \<Rightarrow> heap \<times> et_list \<Rightarrow> (heap \<times> et_list) option" where
  "restore_splice pes = (\<lambda>(h, pl). do {
     (plasthigh, pfirstlow) \<leftarrow> find_high_low h pl;
     if pes = [] then None
     else if cnt pl = 0 then
       Some (link_up pes h, pl\<lparr>firstevent := Some (hd pes), lastevent := Some (last pes)\<rparr>)
     else if priority (h (hd pes)) = ET_LOW then
       restore_lows pes plasthigh pfirstlow None (link_up pes h, pl)
     else do {
       let pfirst = firstevent pl;
       let h = set_next (hd pes) pfirst h;
       let pl = pl\<lparr>firstevent := Some (hd pes)\<rparr>;
       let (lows, lasth, h) = link_high pfirst (hd pes) (tl pes) h;
       if lows \<noteq> [] then restore_lows lows plasthigh pfirstlow (Some lasth) (link_up lows h, pl)
       else Some (h, pl) } })"

text \<open>The return code, the number of events written (where \<^verbatim>\<open>*numwritten\<close> is set) and the list.\<close>

definition et_restore_in ::
  "int \<Rightarrow> nat list \<Rightarrow> heap \<times> et_list \<Rightarrow> (int \<times> int option \<times> heap \<times> et_list) option" where
  "et_restore_in nmax pe = (\<lambda>(h, pl).
     let pl = et_llist_lock pl in
     if cnt pl \<ge> nmax then Some (ET_ERROR, None, h, et_llist_unlock pl)
     else let n = (if int (length pe) > nmax - cnt pl then nmax - cnt pl else int (length pe)) in do {
       (h, pl) \<leftarrow> restore_splice (take (nat n) pe) (h, pl);
       Some (ET_OK, Some n, h, cond_signal (et_llist_unlock (pl\<lparr>cnt := cnt pl + n\<rparr>))) })"

definition et_restore ::
  "int \<Rightarrow> nat list \<Rightarrow> heap \<times> et_list \<Rightarrow> (int \<times> int option \<times> heap \<times> et_list) option" where
  "et_restore nmax pe = (\<lambda>(h, pl).
     let pl = et_llist_lock pl in
     if cnt pl \<ge> nmax then Some (ET_ERROR, None, h, et_llist_unlock pl)
     else let n = (if int (length pe) > nmax - cnt pl then nmax - cnt pl else int (length pe)) in do {
       (h, pl) \<leftarrow> restore_splice (take (nat n) pe) (set_owners (take (nat n) pe) ET_SYS h, pl);
       Some (ET_OK, Some n, h, cond_signal (et_llist_unlock (pl\<lparr>cnt := cnt pl + n\<rparr>))) })"

section \<open>The station before a group of parallel stations\<close>

text \<open>
  The loop over \<^verbatim>\<open>prevparallel\<close>; a fuel of the number of stations is enough for a group without a
  cycle, and \<open>None\<close> means that the loop does not end.
\<close>

fun first_parallel :: "nat \<Rightarrow> (nat \<Rightarrow> et_station) \<Rightarrow> nat \<Rightarrow> nat option" where
  "first_parallel 0 st n = None"
| "first_parallel (Suc k) st n =
     (if prevparallel (st n) > - 1 then first_parallel k st (nat (prevparallel (st n))) else Some n)"

definition prev_station :: "et_shm \<Rightarrow> nat \<Rightarrow> nat option" where
  "prev_station s n = do {
     f \<leftarrow> first_parallel (nat (c_nstations (sys_config (sys s)))) (stats s) n;
     if st_prev (stats s f) < 0 then None else Some (nat (st_prev (stats s f))) }"

definition restore_out :: "nat list \<Rightarrow> nat \<Rightarrow> et_shm \<Rightarrow> (int \<times> int option \<times> et_shm) option" where
  "restore_out pes n s = do {
     (st, nw, h, pl) \<leftarrow> et_restore (nevents_max s) pes (events s, list_out (stats s n));
     Some (st, nw, upd_station n (\<lambda>ps. ps\<lparr>list_out := pl\<rparr>) (s\<lparr>events := h\<rparr>)) }"

definition restore_in :: "nat list \<Rightarrow> nat \<Rightarrow> et_shm \<Rightarrow> (int \<times> int option \<times> et_shm) option" where
  "restore_in pes n s = do {
     (st, nw, h, pl) \<leftarrow> et_restore (nevents_max s) pes (events s, list_in (stats s n));
     Some (st, nw, upd_station n (\<lambda>ps. ps\<lparr>list_in := pl\<rparr>) (s\<lparr>events := h\<rparr>)) }"

definition et_flush_events :: "et_id \<Rightarrow> nat \<Rightarrow> nat \<Rightarrow> et_shm \<Rightarrow> et_shm option" where
  "et_flush_events e att n s =
     (if int n = ET_GRANDCENTRAL then Some s
      else if \<not> env_calloc e 0 then Some s
      else do {
        (r, s) \<leftarrow> et_station_nread n ET_ASYNC att (nevents_max s) s;
        case r of
          Done (st, pes) \<Rightarrow>
            (if st < 0 then Some s
             else if restore_mode (config (stats s n)) = ET_STATION_RESTORE_REDIST then do {
               m \<leftarrow> prev_station s n;
               (_, _, s) \<leftarrow> restore_out pes m s;
               Some s }
             else do {
               (_, s) \<leftarrow> on_station n (et_station_nwrite (nevents_max s) pes) s;
               Some s })
        | _ \<Rightarrow> None })"

section \<open>Restoring the events of an attachment\<close>

definition mark_corrupt :: "nat list \<Rightarrow> heap \<Rightarrow> heap" where
  "mark_corrupt pes h =
     fold (\<lambda>p h. h(p := (h p)\<lparr>datastatus := ET_DATA_POSSIBLY_CORRUPT\<rparr>)) pes h"

text \<open>
  The effect of removing the temporary events among \<open>pes\<close>; \<^verbatim>\<open>unlink\<close>, \<^verbatim>\<open>et_temp_remove\<close> and
  \<^verbatim>\<open>munmap\<close> act outside of shared memory and their results are not looked at.
\<close>

definition drop_temps :: "nat list \<Rightarrow> et_shm \<Rightarrow> et_shm" where
  "drop_temps pes s = upd_sys (\<lambda>y. y\<lparr>ntemps := ntemps y -
     int (length (filter (\<lambda>p. temp (events s p) = ET_EVENT_TEMP) pes))\<rparr>) s"

definition owned_by :: "int \<Rightarrow> et_shm \<Rightarrow> nat list" where
  "owned_by att s = filter (\<lambda>p. owner (events s p) = att) [0..<nat (nevents_max s)]"

text \<open>What happens to the normal events, high priority ones first, in each restore mode.\<close>

definition put_back :: "nat list \<Rightarrow> nat \<Rightarrow> et_shm \<Rightarrow> (int \<times> et_shm) option" where
  "put_back ordered n s =
    (let nmax = nevents_max s;
         mode = restore_mode (config (stats s n));
         corrupt = s\<lparr>events := mark_corrupt ordered (events s)\<rparr>
     in
     if mode = ET_STATION_RESTORE_GC \<or> int n = ET_GRANDCENTRAL then
       on_station 0 (et_station_ndump nmax ordered) (drop_temps ordered s)
     else if mode = ET_STATION_RESTORE_OUT \<or>
             (mode = ET_STATION_RESTORE_IN \<and> st_nattachments (st_data (stats s n)) = 0) then
       on_station n (et_station_nwrite nmax ordered) corrupt
     else if mode = ET_STATION_RESTORE_IN then do {
       (st, nw, s) \<leftarrow> restore_in ordered n corrupt;
       nw \<leftarrow> nw;
       if nw < int (length ordered)
       then on_station n (et_station_nwrite nmax (drop (nat nw) ordered)) s
       else Some (st, s) }
     else if mode = ET_STATION_RESTORE_REDIST then do {
       m \<leftarrow> prev_station s n;
       (st, _, s) \<leftarrow> restore_out ordered m corrupt;
       Some (st, s) }
     else Some (ET_ERROR, s))"

definition dump_new :: "nat list \<Rightarrow> et_shm \<Rightarrow> (int \<times> et_shm) option" where
  "dump_new news s =
     (if news \<noteq> [] then on_station 0 (et_station_ndump (nevents_max s) news) (drop_temps news s)
      else Some (ET_OK, s))"

definition et_restore_events :: "et_id \<Rightarrow> int \<Rightarrow> nat \<Rightarrow> et_shm \<Rightarrow> (int \<times> et_shm) option" where
  "et_restore_events e att n s =
    (if \<not> env_calloc e 0 \<or> \<not> env_calloc e 1 then Some (ET_ERROR, s)
     else
     let news = filter (\<lambda>p. age (events s p) = ET_EVENT_NEW) (owned_by att s);
         pevent = filter (\<lambda>p. age (events s p) \<noteq> ET_EVENT_NEW) (owned_by att s);
         s = s\<lparr>events := set_owners pevent ET_SYS (events s)\<rparr>
     in
     if pevent = [] \<and> news = [] then Some (ET_OK, s)
     else if \<not> env_calloc e 2 then Some (ET_ERROR, s)
     else let ordered = filter (high (events s)) pevent @ filter (\<lambda>p. \<not> high (events s) p) pevent in do {
       (st, s) \<leftarrow> dump_new news s;
       if ordered = [] then Some (st, s) else put_back ordered n s })"

section \<open>Refinements\<close>

text \<open>\<open>restored\<close>: the places after the recovered events \<open>pes\<close> are spliced into a list of \<open>xs\<close>.\<close>

definition restored :: "heap \<Rightarrow> nat list \<Rightarrow> nat list \<Rightarrow> nat list" where
  "restored h pes xs = takeWhile (high h) pes @ takeWhile (high h) xs @
     dropWhile (high h) pes @ dropWhile (high h) xs"

lemma set_restored [simp]: "set (restored h pes xs) = set pes \<union> set xs"
proof -
  have "set zs = set (takeWhile (high h) zs) \<union> set (dropWhile (high h) zs)" for zs
    by (metis set_append takeWhile_dropWhile_id)
  from this[of pes] this[of xs] show ?thesis unfolding restored_def set_append by blast
qed

lemma mset_restored: "mset (restored h pes xs) = mset pes + mset xs"
proof -
  have "mset zs = mset (takeWhile (high h) zs) + mset (dropWhile (high h) zs)" for zs
    by (metis mset_append takeWhile_dropWhile_id)
  from this[of pes] this[of xs] show ?thesis
    unfolding restored_def mset_append by (simp add: ac_simps)
qed

lemma high_first_restored:
  assumes "high_first h pes" "high_first h xs"
  shows "high_first h (restored h pes xs)"
proof -
  have a: "\<forall>p\<in>set (takeWhile (high h) pes @ takeWhile (high h) xs). high h p"
    by (auto dest: set_takeWhileD)
  have b: "\<forall>p\<in>set (dropWhile (high h) pes @ dropWhile (high h) xs). \<not> high h p"
    using assms unfolding high_first_def set_append by blast
  show ?thesis using conjunct1[OF high_first_append[OF a b]] by (simp add: restored_def)
qed

lemma splice_mid:
  assumes l: "linked h (Q @ B)" "linked h L" and d: "distinct (Q @ B @ L)" and ne: "L \<noteq> []"
    and h1: "h1 = (if Q = [] then h else set_next (last Q) (Some (hd L)) h)"
    and h2: "h2 = (if B = [] then h1 else set_next (last L) (Some (hd B)) h1)"
  shows "linked h2 (Q @ L @ B)" "same_events h h2 (set Q \<union> set L)" "owner (h2 r) = owner (h r)"
proof -
  have Q: "Q \<noteq> [] \<Longrightarrow> last Q \<notin> set (B @ L)" using d last_in_set[of Q] by (auto simp: disjoint_iff)
  have L: "last L \<notin> set (Q @ B)" using d last_in_set[OF ne] by (auto simp: disjoint_iff)
  have QL: "Q \<noteq> [] \<Longrightarrow> last Q \<noteq> last L" "Q \<noteq> [] \<Longrightarrow> last L \<noteq> last Q" using L last_in_set[of Q] by (metis Un_iff set_append)+
  have nx: "ev_next (h2 r) = (if B \<noteq> [] \<and> r = last L then Some (hd B)
      else if Q \<noteq> [] \<and> r = last Q then Some (hd L) else ev_next (h r))" for r
    using QL ne by (simp add: h1 h2)
  have "linked h Q" "linked h B" using l(1) unfolding linked_append by blast+
  have "linked h2 Q"
    by (rule linked_cong_butlast[OF \<open>linked h Q\<close>])
      (use L d last_notin_butlast[of Q] in \<open>auto simp: nx dest: in_set_butlastD\<close>)
  moreover have "linked h2 B"
    by (rule linked_cong_butlast[OF \<open>linked h B\<close>])
      (use L Q d in \<open>auto simp: nx dest: in_set_butlastD\<close>)
  moreover have "linked h2 L"
    by (rule linked_cong_butlast[OF l(2)])
      (use Q d last_notin_butlast[of L] in \<open>auto simp: nx dest: in_set_butlastD\<close>)
  moreover have "Q \<noteq> [] \<Longrightarrow> ev_next (h2 (last Q)) = Some (hd L)"
    using QL by (auto simp: nx)
  moreover have "B \<noteq> [] \<Longrightarrow> ev_next (h2 (last L)) = Some (hd B)" by (simp add: nx)
  ultimately show "linked h2 (Q @ L @ B)" using ne by (simp add: linked_append)
  show "same_events h h2 (set Q \<union> set L)"
    unfolding h1 h2 using ne
    by (auto intro!: same_events_set_next same_events_step[OF same_events_set_next same_events_set_next])
  show "owner (h2 r) = owner (h r)" by (simp add: h1 h2)
qed

lemma restore_lows_ok:
  assumes l: "linked h (P @ A @ B)" "linked h L" and d: "distinct (P @ A @ B @ L)"
    and ne: "L \<noteq> []" "A @ B \<noteq> []" and last: "lastevent pl = Some (last (A @ B))"
    and plh: "plh = (if A = [] then None else Some (last A))"
    and pfl: "pfl = (if B = [] then None else Some (hd B))"
    and prec: "prec = (if P = [] then None else Some (last P))"
  shows "\<exists>h' pl'. restore_lows L plh pfl prec (h, pl) = Some (h', pl') \<and>
    linked h' (P @ A @ L @ B) \<and> same_events h h' (set (P @ A @ B @ L)) \<and>
    (\<forall>r. owner (h' r) = owner (h r)) \<and>
    pl' = pl\<lparr>firstevent := (if P @ A = [] then Some (hd L) else firstevent pl),
      lastevent := Some (last (L @ B))\<rparr>"
proof -
  define h1 where "h1 = (if P @ A = [] then h else set_next (last (P @ A)) (Some (hd L)) h)"
  define h2 where "h2 = (if B = [] then h1 else set_next (last L) (Some (hd B)) h1)"
  have s: "linked h2 ((P @ A) @ L @ B)" "same_events h h2 (set (P @ A) \<union> set L)"
    "\<And>r. owner (h2 r) = owner (h r)"
    using splice_mid[of h "P @ A" B L, OF _ l(2) _ ne(1) h1_def h2_def] l(1) d by auto
  have se: "same_events h h2 (set (P @ A @ B @ L))"
    by (rule same_events_mono[OF s(2)]) auto
  define pl' where "pl' = pl\<lparr>firstevent := (if P @ A = [] then Some (hd L) else firstevent pl),
      lastevent := Some (last (L @ B))\<rparr>"
  have "restore_lows L plh pfl prec (h, pl) = Some (h2, pl')"
  proof (cases "B = []")
    case True
    then show ?thesis using ne last unfolding plh pfl prec
      by (simp add: restore_lows_def h1_def h2_def pl'_def)
  next
    case False
    then have "lastevent pl = Some (last (L @ B))" using last by simp
    then show ?thesis using False unfolding plh pfl prec
      by (simp add: restore_lows_def h1_def h2_def pl'_def)
  qed
  then show ?thesis using s(1,3) se by (auto simp: pl'_def)
qed

lemma find_high_low_ok:
  assumes r: "list_repr h pl (A @ B)" and A: "\<forall>p\<in>set A. high h p" and B: "\<forall>p\<in>set B. \<not> high h p"
  shows "find_high_low h pl = Some (if A = [] then None else Some (last A),
    if B = [] then None else Some (hd B))"
proof (cases "A @ B = []")
  case True
  then show ?thesis using list_reprD(1)[OF r] by (simp add: find_high_low_def)
next
  case False
  note f = list_reprD[OF r]
  have tw: "takeWhile (high h) (A @ B) = A" "dropWhile (high h) (A @ B) = B"
    using high_first_append[OF A B] by auto
  have "nat (cnt pl) = length (A @ B)" using f(1) by simp
  then show ?thesis
    using scan_high_ok[OF f(2) False, of None 0] f(1) f(4)[OF False] False
    unfolding tw by (auto simp: find_high_low_def)
qed

lemma restore_splice_ok:
  assumes r: "list_repr h pl (A @ B)" and A: "\<forall>p\<in>set A. high h p" and B: "\<forall>p\<in>set B. \<not> high h p"
    and H: "\<forall>p\<in>set H. high h p" and L: "\<forall>p\<in>set L. \<not> high h p"
    and ne: "H @ L \<noteq> []" and d: "distinct (A @ B @ H @ L)" and pr: "prio_ok h (set (H @ L))"
  shows "\<exists>h' pl'. restore_splice (H @ L) (h, pl) = Some (h', pl') \<and>
    chain h' pl' (H @ A @ L @ B) \<and> same_events h h' (set (A @ B @ H @ L)) \<and>
    (\<forall>r. owner (h' r) = owner (h r)) \<and>
    pl' = pl\<lparr>firstevent := firstevent pl', lastevent := lastevent pl'\<rparr>"
proof -
  note f = list_reprD[OF r] and fhl = find_high_low_ok[OF r A B]
  let ?plh = "if A = [] then None else Some (last A)" and ?pfl = "if B = [] then None else Some (hd B)"
  have cn: "A @ B \<noteq> [] \<Longrightarrow> cnt pl \<noteq> 0" by (simp only: f(1) of_nat_eq_0_iff length_0_conv not_False_eq_True)
  have dHL: "distinct (H @ L)" "distinct H" "distinct L" using d by auto
  consider (empty) "A @ B = []" | (low) "A @ B \<noteq> []" "H = []" | (high) "A @ B \<noteq> []" "H \<noteq> []" by blast
  then show ?thesis
  proof cases
    case empty
    then have "restore_splice (H @ L) (h, pl) = Some (link_up (H @ L) h,
        pl\<lparr>firstevent := Some (hd (H @ L)), lastevent := Some (last (H @ L))\<rparr>)"
      using fhl f(1) ne by (simp add: restore_splice_def)
    then show ?thesis
      using empty d ne linked_link_up[OF dHL(1)] same_events_link_up[of "H @ L"]
      by (auto simp: chain_def link_up_same simp del: hd_append2)
  next
    case low
    define hL where "hL = link_up L h"
    have Lne: "L \<noteq> []" using low ne by simp
    have pL: "priority (h (hd L)) = ET_LOW" using pr L hd_in_set[OF Lne] by (auto simp: prio_ok_def high_def)
    have "\<And>p. p \<in> set (A @ B) \<Longrightarrow> ev_next (hL p) = ev_next (h p)" using d by (auto simp: hL_def link_up_same)
    then have lk: "linked hL ([] @ A @ B)" using linked_cong[OF f(2)] by simp
    have lL: "linked hL L" using linked_link_up[OF dHL(3)] by (simp add: hL_def)
    have ls: "lastevent pl = Some (last (A @ B))" using f(5)[OF low(1)] .
    have dd: "distinct ([] @ A @ B @ L)" using d low by auto
    obtain h' pl' where rl: "restore_lows L ?plh ?pfl None (hL, pl) = Some (h', pl')"
      "linked h' ([] @ A @ L @ B)" "same_events hL h' (set ([] @ A @ B @ L))"
      "\<forall>r. owner (h' r) = owner (hL r)"
      "pl' = pl\<lparr>firstevent := (if [] @ A = [] then Some (hd L) else firstevent pl),
        lastevent := Some (last (L @ B))\<rparr>"
      using restore_lows_ok[OF lk lL dd Lne low(1) ls refl refl, of None] by auto
    have "restore_splice (H @ L) (h, pl) = Some (h', pl')"
      using fhl low cn[OF low(1)] Lne pL rl(1) by (auto simp: restore_splice_def hL_def)
    moreover have "same_events h h' (set (A @ B @ H @ L))"
      by (rule same_events_step[OF _ same_events_mono[OF rl(3)]])
        (auto simp: hL_def low intro!: same_events_link_up)
    moreover have "chain h' pl' (H @ A @ L @ B)"
      using rl(2) d low f(4)[OF low(1)] Lne unfolding rl(5) by (cases A) (auto simp: chain_def)
    moreover have "pl' = pl\<lparr>firstevent := firstevent pl', lastevent := lastevent pl'\<rparr>"
      unfolding rl(5) by simp
    ultimately show ?thesis using rl(4) by (auto simp: hL_def link_up_same)
  next
    case high
    then obtain p0 Hs where p0: "H = p0 # Hs" by (cases H) auto
    define h1 where "h1 = set_next p0 (Some (hd (A @ B))) h"
    have high1: "high h1 = high h" by (simp add: h1_def)
    have twH: "takeWhile (high h1) (Hs @ L) = Hs" "dropWhile (high h1) (Hs @ L) = L"
      using high_first_append[of Hs h L] H L p0 high1 by auto
    have p0n: "p0 \<notin> set (Hs @ L)" "distinct (Hs @ L)" using dHL(1) p0 by auto
    obtain lw la h2 where lk: "link_high (Some (hd (A @ B))) p0 (Hs @ L) h1 = (lw, la, h2)"
      by (metis prod_cases3)
    have l2: "lw = L" "la = last H" "linked h2 H" "ev_next (h2 (last H)) = Some (hd (A @ B))"
      "\<forall>r. r \<notin> set H \<longrightarrow> h2 r = h1 r" "\<forall>r. owner (h2 r) = owner (h1 r) \<and> core (h2 r) = core (h1 r)"
      using link_high_ok[OF lk p0n] unfolding twH p0 by (auto simp: h1_def split: if_splits)
    have n2: "ev_next (h2 p) = ev_next (h p)" if "p \<in> set (A @ B @ L)" for p
    proof -
      have "p \<notin> set H" using that d by auto
      then show ?thesis using l2(5) p0 by (auto simp: h1_def)
    qed
    have "linked h2 (A @ B)" by (rule linked_cong[OF f(2)]) (use n2 in auto)
    then have lHAB: "linked h2 (H @ A @ B)"
      using l2(3,4) high by (simp only: linked_append[of h2 H "A @ B"]) simp
    have "same_events h h1 (set (A @ B @ H @ L))" by (auto simp: h1_def p0 intro!: same_events_set_next)
    moreover have "same_events h1 h2 (set (A @ B @ H @ L))" using l2(5,6) by (auto simp: same_events_def)
    ultimately have se2: "same_events h h2 (set (A @ B @ H @ L))" by (rule same_events_step)
    have ow2: "owner (h2 r) = owner (h r)" for r using l2(6) by (simp add: h1_def)
    have pp: "priority (h p0) \<noteq> ET_LOW" using H p0 by (simp add: high_def)
    define pl1 where "pl1 = pl\<lparr>firstevent := Some p0\<rparr>"
    show ?thesis
    proof (cases "L = []")
      case True
      have "restore_splice (H @ L) (h, pl) = Some (h2, pl1)"
        using fhl cn[OF high(1)] f(4)[OF high(1)] pp lk l2(1) p0 True
        by (auto simp: restore_splice_def h1_def[symmetric] pl1_def Let_def)
      moreover have "chain h2 pl1 (H @ A @ L @ B)"
        using lHAB d True p0 f(5)[OF high(1)] high(1) by (auto simp: chain_def pl1_def)
      ultimately show ?thesis using se2 ow2 by (auto simp: pl1_def)
    next
      case Lne: False
      define h3 where "h3 = link_up L h2"
      have "\<And>p. p \<in> set (H @ A @ B) \<Longrightarrow> ev_next (h3 p) = ev_next (h2 p)"
        using d unfolding h3_def by (subst link_up_same(3)) auto
      then have l3: "linked h3 (H @ A @ B)" using linked_cong[OF lHAB] by blast
      have lL: "linked h3 L" using linked_link_up[OF dHL(3)] by (simp add: h3_def)
      have dd: "distinct (H @ A @ B @ L)" using d by auto
      have ls: "lastevent pl1 = Some (last (A @ B))" using f(5)[OF high(1)] by (simp add: pl1_def)
      obtain h' pl' where rl: "restore_lows L ?plh ?pfl (Some (last H)) (h3, pl1) = Some (h', pl')"
        "linked h' (H @ A @ L @ B)" "same_events h3 h' (set (H @ A @ B @ L))"
        "\<forall>r. owner (h' r) = owner (h3 r)"
        "pl' = pl1\<lparr>firstevent := (if H @ A = [] then Some (hd L) else firstevent pl1),
          lastevent := Some (last (L @ B))\<rparr>"
        using restore_lows_ok[OF l3 lL dd Lne high(1) ls refl refl, of "Some (last H)"] high by auto
      have "restore_splice (H @ L) (h, pl) = Some (h', pl')"
        using fhl cn[OF high(1)] f(4)[OF high(1)] pp lk l2(1,2) p0 Lne rl(1)
        by (auto simp: restore_splice_def h1_def[symmetric] pl1_def[symmetric] h3_def[symmetric] Let_def)
      moreover have "chain h' pl' (H @ A @ L @ B)"
        using rl(2) dd p0 Lne unfolding rl(5) by (auto simp: chain_def pl1_def)
      moreover have "same_events h h' (set (A @ B @ H @ L))"
        by (rule same_events_step[OF same_events_step[OF se2, of h3] same_events_mono[OF rl(3)]])
          (auto simp: h3_def intro!: same_events_link_up)
      moreover have "pl' = pl\<lparr>firstevent := firstevent pl', lastevent := lastevent pl'\<rparr>"
        unfolding rl(5) by (simp add: pl1_def)
      ultimately show ?thesis using rl(4) ow2 by (auto simp: h3_def link_up_same)
    qed
  qed
qed

lemma et_restore_ok:
  assumes r: "list_repr h pl xs" and hf: "high_first h xs" "high_first h pe"
    and ne: "pe \<noteq> []" and d: "distinct (xs @ pe)" and pr: "prio_ok h (set pe)"
    and n: "int (length xs) < nmax"
  defines "k \<equiv> min (length pe) (nat nmax - length xs)"
  shows "\<exists>h' pl'. et_restore nmax pe (h, pl) = Some (ET_OK, Some (int k), h', pl') \<and>
    list_repr h' pl' (restored h (take k pe) xs) \<and> same_events h h' (set xs \<union> set pe) \<and>
    (\<forall>r. owner (h' r) = (if r \<in> set (take k pe) then ET_SYS else owner (h r))) \<and>
    lasthigh pl' = lasthigh pl \<and> events_in pl' = events_in pl \<and> \<not> mutex pl' \<and>
    cread pl' = Suc (cread pl)"
proof -
  note f = list_reprD[OF r]
  define pes where "pes = take k pe"
  define h1 where "h1 = set_owners pes ET_SYS h"
  have m: "(if int (length pe) > nmax - cnt pl then nmax - cnt pl else int (length pe)) = int k"
    and k: "0 < k" using f(1) n ne by (auto simp: k_def min_def)
  have high1: "high h1 = high h" 
    unfolding h1_def by (rule same_events_high[OF same_events_set_owners[OF subset_refl]])
  have hfp: "high_first h pes" using hf(2) by (simp add: pes_def high_first_take)
  have p: "pes \<noteq> []" "distinct (xs @ pes)" "set pes \<subseteq> set pe" "length pes = k"
    using k ne d set_take_subset[of k pe] by (auto simp: pes_def k_def dest: in_set_takeD)
  obtain A B where A: "xs = A @ B" "\<forall>p\<in>set A. high h p" "\<forall>p\<in>set B. \<not> high h p"
    "takeWhile (high h) xs = A" "dropWhile (high h) xs = B" using high_first_split[OF hf(1)] .
  obtain H L where H: "pes = H @ L" "\<forall>p\<in>set H. high h p" "\<forall>p\<in>set L. \<not> high h p"
    "takeWhile (high h) pes = H" "dropWhile (high h) pes = L" using high_first_split[OF hfp] .
  have se1: "same_events h h1 (set xs \<union> set pe)" 
    unfolding h1_def by (rule same_events_set_owners) (use p(3) in auto)
  have r1: "list_repr h1 (et_llist_lock pl) (A @ B)" using r A(1) by (simp add: h1_def)
  have pr1: "prio_ok h1 (set (H @ L))" using pr p(3) H(1) prio_ok_cong[OF se1] by (auto simp: prio_ok_def)
  obtain h' pl' where sp: "restore_splice pes (h1, et_llist_lock pl) = Some (h', pl')"
    "chain h' pl' (H @ A @ L @ B)" "same_events h1 h' (set (A @ B @ H @ L))"
    "\<forall>r. owner (h' r) = owner (h1 r)"
    "pl' = (et_llist_lock pl)\<lparr>firstevent := firstevent pl', lastevent := lastevent pl'\<rparr>"
    using restore_splice_ok[OF r1 _ _ _ _ _ _ pr1] A(2,3) H(1-3) p(1,2) A(1) high1 by auto
  have c: "cnt pl' = cnt pl" "lasthigh pl' = lasthigh pl" "events_in pl' = events_in pl" "cread pl' = cread pl"
    by (subst sp(5), simp)+
  have e: "et_restore nmax pe (h, pl) = Some (ET_OK, Some (int k), h',
      cond_signal (et_llist_unlock (pl'\<lparr>cnt := cnt pl' + int k\<rparr>)))"
    unfolding et_restore_def Let_def prod.case lock_simps m
    using sp(1) n f(1) by (simp add: h1_def pes_def)
  have "list_repr h' (pl'\<lparr>cnt := cnt pl' + int k\<rparr>) (restored h pes xs)"
    using sp(2) c f(1) p(4) A(1,4,5) H(1,4,5) by (simp add: restored_def chain_def list_repr_def)
  moreover have "same_events h h' (set xs \<union> set pe)"
    by (rule same_events_step[OF se1 same_events_mono[OF sp(3)]]) (use p(3) A(1) H(1) in auto)
  ultimately show ?thesis unfolding e using sp(4) c by (auto simp: pes_def h1_def)
qed

lemma et_restore_full:
  "cnt pl \<ge> nmax \<Longrightarrow> et_restore nmax pe (h, pl) = Some (ET_ERROR, None, h, et_llist_unlock pl)"
  by (simp add: et_restore_def et_llist_lock_def et_llist_unlock_def Let_def)


text \<open>
  \<^verbatim>\<open>et_restore\<close> does not keep \<^verbatim>\<open>lasthigh\<close>: an output list it puts high priority events into is none any more.
\<close>

lemma et_restore_lasthigh:
  assumes r: "out_repr h pl xs" and hf: "high_first h pe" and d: "distinct (xs @ pe)" and pr: "prio_ok h (set pe)"
    and n: "int (length xs) + int (length pe) \<le> nmax" and p: "p \<in> set pe" "high h p"
  shows "\<exists>h' pl'. et_restore nmax pe (h, pl) = Some (ET_OK, Some (int (length pe)), h', pl') \<and>
    list_repr h' pl' (restored h pe xs) \<and> \<not> out_repr h' pl' (restored h pe xs)"
proof -
  have l: "list_repr h pl xs" "high_first h xs" "lasthigh pl = int (length (takeWhile (high h) xs))"
    using r by (simp_all add: out_repr_def)
  have pe: "pe \<noteq> []" "int (length xs) < nmax" using p(1) n by (cases pe; simp)+
  have k: "min (length pe) (nat nmax - length xs) = length pe" using n by linarith
  obtain h' pl' where w: "et_restore nmax pe (h, pl) = Some (ET_OK, Some (int (length pe)), h', pl')"
    "list_repr h' pl' (restored h pe xs)" "same_events h h' (set xs \<union> set pe)" "lasthigh pl' = lasthigh pl"
    using et_restore_ok[OF l(1,2) hf pe(1) d pr pe(2)] unfolding k by auto
  obtain A B where A: "pe = A @ B" "\<forall>q\<in>set A. high h q" "\<forall>q\<in>set B. \<not> high h q" "takeWhile (high h) pe = A" "dropWhile (high h) pe = B"
    using high_first_split[OF hf] .
  obtain C E where C: "xs = C @ E" "\<forall>q\<in>set C. high h q" "\<forall>q\<in>set E. \<not> high h q" "takeWhile (high h) xs = C" "dropWhile (high h) xs = E"
    using high_first_split[OF l(2)] .
  have "takeWhile (high h) (restored h pe xs) = A @ C"
    unfolding restored_def A(4,5) C(4,5) using A(2,3) C(2,3) by (cases B; cases E) (simp_all add: takeWhile_append2)
  moreover have "A \<noteq> []" using p A(1,3) by auto
  ultimately have "length (takeWhile (high h) (restored h pe xs)) \<noteq> length (takeWhile (high h) xs)" using C(4) by simp
  then have "\<not> out_repr h' pl' (restored h pe xs)"
    using w(4) l(3) same_events_high[OF w(3)] by (simp add: out_repr_def)
  then show ?thesis using w(1,2) by blast
qed

end
