(* ===== verification/EtStation.thy ===== *)
theory EtStation imports EtRestore begin

text \<open>
  The locks of the system (\<^verbatim>\<open>et_readwrite.c\<close>) and the linked lists of stations
  (\<^verbatim>\<open>station_remove\<close>, \<^verbatim>\<open>station_insert\<close>, \<^verbatim>\<open>station_find\<close> of \<^verbatim>\<open>et_station.c\<close>).

  The stations in use form a doubly linked main list that starts at GrandCentral; a group of
  parallel stations hangs, in a doubly linked list of its own, on the station that is its head in
  the main list. The abstraction is \<open>main_repr s ns\<close>, the list \<open>ns\<close> of station numbers. A walk along
  the list has the number of stations as its fuel: a list without a cycle is shorter, and \<open>None\<close>
  is a walk that does not end or leaves the array of stations.
\<close>

section \<open>Locks\<close>

definition et_station_lock :: "et_system \<Rightarrow> et_system" where
  "et_station_lock y = y\<lparr>stat_mutex := True\<rparr>"

definition et_station_unlock :: "et_system \<Rightarrow> et_system" where
  "et_station_unlock y = y\<lparr>stat_mutex := False\<rparr>"

definition et_system_lock :: "et_system \<Rightarrow> et_system" where
  "et_system_lock y = y\<lparr>sys_mutex := True\<rparr>"

definition et_system_unlock :: "et_system \<Rightarrow> et_system" where
  "et_system_unlock y = y\<lparr>sys_mutex := False\<rparr>"

definition et_transfer_lock :: "et_station \<Rightarrow> et_station" where
  "et_transfer_lock ps = ps\<lparr>st_mutex := True\<rparr>"

definition et_transfer_unlock :: "et_station \<Rightarrow> et_station" where
  "et_transfer_unlock ps = ps\<lparr>st_mutex := False\<rparr>"

definition et_transfer_lock_all :: "et_shm \<Rightarrow> et_shm" where
  "et_transfer_lock_all s =
     fold (\<lambda>i. upd_station i et_transfer_lock) [0..<nat (c_nstations (sys_config (sys s)))] s"

definition et_transfer_unlock_all :: "et_shm \<Rightarrow> et_shm" where
  "et_transfer_unlock_all s =
     fold (\<lambda>i. upd_station i et_transfer_unlock) [0..<nat (c_nstations (sys_config (sys s)))] s"

text \<open>The forty attempts of \<^verbatim>\<open>et_mutex_locked\<close>; \<open>busy i\<close> says that the \<open>i\<close>-th one finds the mutex taken.\<close>

definition et_mutex_locked :: "(nat \<Rightarrow> bool) \<Rightarrow> bool" where
  "et_mutex_locked busy = list_all busy [0..<40]"

section \<open>The station lists\<close>

definition st_ix :: "et_shm \<Rightarrow> int \<Rightarrow> nat option" where
  "st_ix s i = (if 0 \<le> i \<and> i < c_nstations (sys_config (sys s)) then Some (nat i) else None)"

text \<open>Taking a station that is alone at its place out of the main list.\<close>

definition unlink_main :: "nat \<Rightarrow> et_shm \<Rightarrow> et_shm option" where
  "unlink_main n s = do {
     let ps = stats s n;
     p \<leftarrow> st_ix s (st_prev ps);
     s \<leftarrow> (if stat_tail (sys s) = int n
          then Some (upd_sys (\<lambda>y. y\<lparr>stat_tail := num (stats s p)\<rparr>) s)
          else do { x \<leftarrow> st_ix s (st_next ps);
                    Some (upd_station x (\<lambda>q. q\<lparr>st_prev := num (stats s p)\<rparr>) s) });
     Some (upd_station p (\<lambda>q. q\<lparr>st_next := st_next ps\<rparr>) s) }"

definition station_remove :: "nat \<Rightarrow> et_shm \<Rightarrow> et_shm option" where
  "station_remove n s = (let ps = stats s n in
     if flow_mode (config ps) = ET_STATION_PARALLEL then
       (if st_prev ps > - 1 then
          (if nextparallel ps < 0 then unlink_main n s
           else do {
             p \<leftarrow> st_ix s (st_prev ps);
             q \<leftarrow> st_ix s (nextparallel ps);
             let s = upd_station q (\<lambda>r. r\<lparr>st_prev := st_prev ps, st_next := st_next ps,
                       prevparallel := - 1\<rparr>) s;
             s \<leftarrow> (if stat_tail (sys s) = int n
                  then Some (upd_sys (\<lambda>y. y\<lparr>stat_tail := num (stats s q)\<rparr>) s)
                  else do { x \<leftarrow> st_ix s (st_next ps);
                            Some (upd_station x (\<lambda>r. r\<lparr>st_prev := nextparallel ps\<rparr>) s) });
             Some (upd_station p (\<lambda>r. r\<lparr>st_next := nextparallel ps\<rparr>) s) })
        else do {
          p \<leftarrow> st_ix s (prevparallel ps);
          s \<leftarrow> (if nextparallel ps > - 1
               then do { q \<leftarrow> st_ix s (nextparallel ps);
                         Some (upd_station q (\<lambda>r. r\<lparr>prevparallel := num (stats s p)\<rparr>) s) }
               else Some s);
          let s = upd_station p (\<lambda>r. r\<lparr>nextparallel := nextparallel ps\<rparr>) s;
          Some (if waslast ps = 1 then upd_station p (\<lambda>r. r\<lparr>waslast := 1\<rparr>) s else s) })
     else unlink_main n s)"

datatype spot = AtEnd nat | At nat nat

text \<open>
  The walk of \<^verbatim>\<open>station_insert\<close> along the main list from the station \<open>p\<close>, whose successor is
  number \<open>c\<close>: the last station, or the station before the position and the one in it.
\<close>

fun walk_main :: "nat \<Rightarrow> et_shm \<Rightarrow> int \<Rightarrow> int \<Rightarrow> nat \<Rightarrow> spot option" where
  "walk_main 0 s c pos p = None"
| "walk_main (Suc k) s c pos p =
     (if st_next (stats s p) < 0 then Some (AtEnd p)
      else do {
        x \<leftarrow> st_ix s (st_next (stats s p));
        if c = pos then Some (At p x) else walk_main k s (c + 1) pos x })"

text \<open>Its walk along a group of parallel stations: the station to insert behind.\<close>

fun walk_parallel :: "nat \<Rightarrow> et_shm \<Rightarrow> int \<Rightarrow> int \<Rightarrow> nat \<Rightarrow> nat option" where
  "walk_parallel 0 s c ppos p = None"
| "walk_parallel (Suc k) s c ppos p =
     (if c = ppos \<or> nextparallel (stats s p) < 0 then Some p
      else do { x \<leftarrow> st_ix s (nextparallel (stats s p)); walk_parallel k s (c + 1) ppos x })"

definition insert_end :: "nat \<Rightarrow> nat \<Rightarrow> et_shm \<Rightarrow> et_shm" where
  "insert_end p n s =
     upd_station p (\<lambda>q. q\<lparr>st_next := num (stats s n)\<rparr>)
       (upd_sys (\<lambda>y. y\<lparr>stat_tail := num (stats s n)\<rparr>)
         (upd_station n (\<lambda>ps. ps\<lparr>st_prev := num (stats s p)\<rparr>) s))"

definition station_insert :: "nat \<Rightarrow> int \<Rightarrow> int \<Rightarrow> et_shm \<Rightarrow> (int \<times> et_shm) option" where
  "station_insert n pos ppos s =
    (if nstations (sys s) < 3 then Some (ET_OK, insert_end 0 n s)
     else let fuel = nat (c_nstations (sys_config (sys s))) in do {
       w \<leftarrow> walk_main fuel s 1 pos 0;
       case w of
         AtEnd p \<Rightarrow> Some (ET_OK, insert_end p n s)
       | At p x \<Rightarrow>
           (if flow_mode (config (stats s n)) = ET_STATION_PARALLEL \<and>
               flow_mode (config (stats s x)) = ET_STATION_PARALLEL \<and> ppos \<noteq> ET_NEWHEAD then
              (if et_station_compare_parallel (config (stats s x)) (config (stats s n)) = 0
               then Some (ET_ERROR, s)
               else if ppos = 0 then Some (ET_ERROR, s)
               else do {
                 q \<leftarrow> walk_parallel fuel s 1 ppos x;
                 let np = nextparallel (stats s q);
                 let me = num (stats s n);
                 let s = upd_station n (\<lambda>ps. ps\<lparr>nextparallel := np, prevparallel := num (stats s q)\<rparr>) s;
                 s \<leftarrow> (if np > - 1 then do { r \<leftarrow> st_ix s np;
                          Some (upd_station r (\<lambda>ps. ps\<lparr>prevparallel := me\<rparr>) s) }
                      else Some s);
                 Some (ET_OK, upd_station q (\<lambda>ps. ps\<lparr>nextparallel := me\<rparr>) s) })
            else
              (let me = num (stats s n);
                   s = upd_station n (\<lambda>ps. ps\<lparr>st_next := st_next (stats s p), st_prev := num (stats s p)\<rparr>) s;
                   s = upd_station x (\<lambda>ps. ps\<lparr>st_prev := me\<rparr>) s
               in Some (ET_OK, upd_station p (\<lambda>ps. ps\<lparr>st_next := me\<rparr>) s))) })"

text \<open>The search of \<^verbatim>\<open>station_find\<close> in one group of parallel stations, behind its member \<open>p\<close>.\<close>

fun find_parallel :: "nat \<Rightarrow> et_shm \<Rightarrow> nat \<Rightarrow> int \<Rightarrow> nat \<Rightarrow> int option option" where
  "find_parallel 0 s n c p = None"
| "find_parallel (Suc k) s n c p =
     (if nextparallel (stats s p) < 0 then Some None
      else do {
        x \<leftarrow> st_ix s (nextparallel (stats s p));
        if x = n then Some (Some c) else find_parallel k s n (c + 1) x })"

fun find_main :: "nat \<Rightarrow> et_shm \<Rightarrow> nat \<Rightarrow> int \<Rightarrow> nat \<Rightarrow> (int \<times> int) option option" where
  "find_main 0 s n c p = None"
| "find_main (Suc k) s n c p =
     (if st_next (stats s p) < 0 then Some None
      else do {
        x \<leftarrow> st_ix s (st_next (stats s p));
        if x = n then Some (Some (c, 0))
        else do {
          r \<leftarrow> (if flow_mode (config (stats s x)) = ET_STATION_PARALLEL
               then find_parallel (nat (c_nstations (sys_config (sys s)))) s n 1 x else Some None);
          case r of Some pp \<Rightarrow> Some (Some (c, pp)) | None \<Rightarrow> find_main k s n (c + 1) x } })"

text \<open>The return code and, with \<^verbatim>\<open>ET_OK\<close>, the position and the parallel position.\<close>

definition station_find :: "nat \<Rightarrow> et_shm \<Rightarrow> (int \<times> (int \<times> int) option) option" where
  "station_find n s =
     (if int n = ET_GRANDCENTRAL then Some (ET_OK, Some (0, 0))
      else if nstations (sys s) < 2 then Some (ET_ERROR, None)
      else do {
        r \<leftarrow> find_main (nat (c_nstations (sys_config (sys s)))) s n 1 0;
        case r of None \<Rightarrow> Some (ET_ERROR, None) | Some w \<Rightarrow> Some (ET_OK, Some w) })"

section \<open>The abstraction\<close>

text \<open>Neighbours in the list point to each other.\<close>

fun dseg :: "(nat \<Rightarrow> int) \<Rightarrow> (nat \<Rightarrow> int) \<Rightarrow> nat list \<Rightarrow> bool" where
  "dseg nx pv (p # q # ns) \<longleftrightarrow> nx p = int q \<and> pv q = int p \<and> dseg nx pv (q # ns)"
| "dseg nx pv _ \<longleftrightarrow> True"

definition dlist :: "(nat \<Rightarrow> int) \<Rightarrow> (nat \<Rightarrow> int) \<Rightarrow> nat list \<Rightarrow> bool" where
  "dlist nx pv ns \<longleftrightarrow> ns \<noteq> [] \<and> distinct ns \<and> dseg nx pv ns \<and> nx (last ns) < 0"

definition station_ok :: "et_shm \<Rightarrow> nat \<Rightarrow> bool" where
  "station_ok s n \<longleftrightarrow> int n < c_nstations (sys_config (sys s)) \<and> num (stats s n) = int n"

definition main_repr :: "et_shm \<Rightarrow> nat list \<Rightarrow> bool" where
  "main_repr s ns \<longleftrightarrow> (\<forall>n\<in>set ns. station_ok s n) \<and> hd ns = 0 \<and>
     dlist (\<lambda>n. st_next (stats s n)) (\<lambda>n. st_prev (stats s n)) ns \<and>
     (length ns > 1 \<longrightarrow> stat_tail (sys s) = int (last ns))"

text \<open>The group of parallel stations whose head in the main list is \<open>hd gs\<close>.\<close>

definition group_repr :: "et_shm \<Rightarrow> nat list \<Rightarrow> bool" where
  "group_repr s gs \<longleftrightarrow> (\<forall>n\<in>set gs. station_ok s n) \<and>
     dlist (\<lambda>n. nextparallel (stats s n)) (\<lambda>n. prevparallel (stats s n)) gs \<and>
     prevparallel (stats s (hd gs)) < 0"

definition insert_pos :: "int \<Rightarrow> 'a \<Rightarrow> 'a list \<Rightarrow> 'a list" where
  "insert_pos pos x xs =
     (if 1 \<le> pos \<and> pos < int (length xs) then take (nat pos) xs @ x # drop (nat pos) xs else xs @ [x])"

section \<open>Doubly linked segments\<close>

lemma dseg_append: "dseg nx pv (xs @ ys) \<longleftrightarrow> dseg nx pv xs \<and> dseg nx pv ys \<and>
    (xs \<noteq> [] \<and> ys \<noteq> [] \<longrightarrow> nx (last xs) = int (hd ys) \<and> pv (hd ys) = int (last xs))"
proof (induction xs)
  case (Cons p xs)
  then show ?case by (cases xs; cases ys) auto
qed simp

lemma dseg_cong:
  assumes "dseg nx pv xs" "\<And>n. n \<in> set (butlast xs) \<Longrightarrow> nx' n = nx n" "\<And>n. n \<in> set (tl xs) \<Longrightarrow> pv' n = pv n"
  shows "dseg nx' pv' xs"
  using assms
proof (induction nx pv xs rule: dseg.induct)
  case (1 nx pv p q ns)
  have "dseg nx' pv' (q # ns)"
    using 1(2-4) by (intro 1(1)) (auto simp: split: if_splits)
  moreover have "nx' p = nx p" "pv' q = pv q" using 1(3,4) by auto
  ultimately show ?case using 1(2) by simp
qed auto

lemma in_tlD: "x \<in> set (tl xs) \<Longrightarrow> x \<in> set xs"
  by (cases xs) auto

text \<open>Writes to \<open>nx\<close> outside of all but the last element and to \<open>pv\<close> outside of the tail.\<close>

lemma dseg_keep:
  assumes "dseg nx pv xs" "\<forall>n\<in>set (butlast xs). nx' n = nx n" "\<forall>n\<in>set (tl xs). pv' n = pv n"
  shows "dseg nx' pv' xs"
  using dseg_cong[OF assms(1)] assms(2,3) by blast

lemma dseg_upd_other:
  "n \<notin> set xs \<Longrightarrow> dseg (nx(n := a)) pv xs = dseg nx pv xs"
  "n \<notin> set xs \<Longrightarrow> dseg nx (pv(n := a)) xs = dseg nx pv xs"
  by (induction nx pv xs rule: dseg.induct) auto

lemma dlistD:
  assumes "dlist nx pv ns"
  shows "ns \<noteq> []" "distinct ns" "dseg nx pv ns" "nx (last ns) < 0"
  using assms by (auto simp: dlist_def)

lemma dlist_next:
  assumes "dlist nx pv ns" "Suc i < length ns"
  shows "nx (ns ! i) = int (ns ! Suc i)" "pv (ns ! Suc i) = int (ns ! i)"
proof -
  have "ns = take (Suc i) ns @ drop (Suc i) ns" by simp
  then have "dseg nx pv (take (Suc i) ns @ drop (Suc i) ns)" using dlistD(3)[OF assms(1)] by simp
  moreover have "take (Suc i) ns \<noteq> []" "drop (Suc i) ns \<noteq> []" using assms by auto
  moreover have "last (take (Suc i) ns) = ns ! i" "hd (drop (Suc i) ns) = ns ! Suc i"
    using assms by (simp_all add: take_Suc_conv_app_nth hd_drop_conv_nth)
  ultimately show "nx (ns ! i) = int (ns ! Suc i)" "pv (ns ! Suc i) = int (ns ! i)"
    unfolding dseg_append by auto
qed

text \<open>A new element between \<open>p\<close> and \<open>x\<close>, at the end, and the removal of an inner element and of the last.\<close>

lemma dlist_insert:
  assumes d: "dlist nx pv (A @ p # x # B)" and n: "n \<notin> set (A @ p # x # B)"
  shows "dlist (nx(n := int x, p := int n)) (pv(n := int p, x := int n)) (A @ p # n # x # B)"
proof -
  let ?nx = "nx(n := int x, p := int n)" and ?pv = "pv(n := int p, x := int n)"
  note f = dlistD[OF d]
  have "dseg nx pv (A @ [p])" "dseg nx pv (x # B)"
    using f(3) dseg_append[of nx pv "A @ [p]" "x # B"] by auto
  moreover have "\<forall>m\<in>set (butlast (A @ [p])). ?nx m = nx m" "\<forall>m\<in>set (tl (A @ [p])). ?pv m = pv m"
    using f(2) n by (auto simp: butlast_append dest!: in_tlD)
  moreover have "\<forall>m\<in>set (butlast (x # B)). ?nx m = nx m" "\<forall>m\<in>set (tl (x # B)). ?pv m = pv m"
    using f(2) n by (auto dest: in_set_butlastD)
  ultimately have "dseg ?nx ?pv (A @ [p])" "dseg ?nx ?pv (x # B)"
    by (blast intro: dseg_keep)+
  then have "dseg ?nx ?pv ((A @ [p]) @ n # x # B)"
    using n f(2) unfolding dseg_append[of _ _ "A @ [p]"] by (cases B) auto
  then show ?thesis using f n by (auto simp: dlist_def)
qed

lemma dlist_snoc:
  assumes d: "dlist nx pv ns" and n: "n \<notin> set ns" "nx n < 0"
  shows "dlist (nx(last ns := int n)) (pv(n := int (last ns))) (ns @ [n])"
proof -
  note f = dlistD[OF d]
  have "\<forall>m\<in>set (butlast ns). (nx(last ns := int n)) m = nx m"
    using last_notin_butlast[OF f(2)] by auto
  moreover have "\<forall>m\<in>set (tl ns). (pv(n := int (last ns))) m = pv m"
    using n(1) by (auto dest: in_tlD)
  ultimately have "dseg (nx(last ns := int n)) (pv(n := int (last ns))) ns"
    using f(3) by (blast intro: dseg_keep)
  moreover have "last ns \<noteq> n" using f(1) n(1) by auto
  ultimately show ?thesis using f n by (simp add: dlist_def dseg_append)
qed

lemma dlist_remove_mid:
  assumes d: "dlist nx pv (A @ p # n # x # B)"
  shows "dlist (nx(p := nx n)) (pv(x := int p)) (A @ p # x # B)"
proof -
  let ?nx = "nx(p := nx n)" and ?pv = "pv(x := int p)"
  note f = dlistD[OF d]
  have "dseg nx pv (A @ [p])" "dseg nx pv (x # B)" "nx n = int x"
    using f(3) dseg_append[of nx pv "A @ [p]" "n # x # B"] by auto
  moreover have "\<forall>m\<in>set (butlast (A @ [p])). ?nx m = nx m" "\<forall>m\<in>set (tl (A @ [p])). ?pv m = pv m"
    using f(2) by (auto simp: butlast_append dest!: in_tlD)
  moreover have "\<forall>m\<in>set (butlast (x # B)). ?nx m = nx m" "\<forall>m\<in>set (tl (x # B)). ?pv m = pv m"
    using f(2) by (auto dest: in_set_butlastD)
  ultimately have "dseg ?nx ?pv (A @ [p])" "dseg ?nx ?pv (x # B)" "nx n = int x"
    by (blast intro: dseg_keep)+
  then have "dseg ?nx ?pv ((A @ [p]) @ x # B)"
    unfolding dseg_append[of _ _ "A @ [p]"] by simp
  moreover have "?nx (last (A @ p # x # B)) < 0" using f(2,4) by (auto split: if_splits)
  ultimately show ?thesis using f(2) by (simp add: dlist_def)
qed

lemma dlist_remove_last:
  assumes d: "dlist nx pv (A @ [p, n])"
  shows "dlist (nx(p := nx n)) pv (A @ [p])"
proof -
  note f = dlistD[OF d]
  have "dseg nx pv (A @ [p])" using f(3) dseg_append[of nx pv "A @ [p]" "[n]"] by auto
  moreover have "\<forall>m\<in>set (butlast (A @ [p])). (nx(p := nx n)) m = nx m"
    using f(2) by (auto simp: butlast_append)
  ultimately have "dseg (nx(p := nx n)) pv (A @ [p])" by (blast intro: dseg_keep)
  then show ?thesis using f by (simp add: dlist_def)
qed

lemma main_reprD:
  assumes "main_repr s ns"
  shows "ns \<noteq> []" "distinct ns" "hd ns = 0" "\<And>n. n \<in> set ns \<Longrightarrow> station_ok s n"
    "\<And>i. Suc i < length ns \<Longrightarrow> st_next (stats s (ns ! i)) = int (ns ! Suc i)"
    "\<And>i. Suc i < length ns \<Longrightarrow> st_prev (stats s (ns ! Suc i)) = int (ns ! i)"
    "st_next (stats s (last ns)) < 0" "length ns > 1 \<Longrightarrow> stat_tail (sys s) = int (last ns)"
    "dlist (\<lambda>n. st_next (stats s n)) (\<lambda>n. st_prev (stats s n)) ns"
    "length ns \<le> nat (c_nstations (sys_config (sys s)))"
proof -
  show "distinct ns" using assms by (simp add: main_repr_def dlist_def)
  have "set ns \<subseteq> {..<nat (c_nstations (sys_config (sys s)))}"
    using assms by (auto simp: main_repr_def station_ok_def)
  from card_mono[OF _ this] show "length ns \<le> nat (c_nstations (sys_config (sys s)))"
    using \<open>distinct ns\<close> by (simp add: distinct_card)
qed (use assms dlist_next in \<open>auto simp: main_repr_def dlist_def\<close>)

lemma st_ix_ok [simp]: "station_ok s n \<Longrightarrow> st_ix s (int n) = Some n"
  by (simp add: st_ix_def station_ok_def)

lemma st_ix_upd [simp]:
  "st_ix (upd_station n f s) = st_ix s" "sys_config (g (sys s)) = sys_config (sys s) \<Longrightarrow> st_ix (upd_sys g s) = st_ix s"
  by (simp_all add: st_ix_def fun_eq_iff)

lemma walk_main_ok:
  assumes r: "main_repr s ns" and i: "i < length ns" and k: "length ns - i \<le> k"
  shows "walk_main k s (int i + 1) pos (ns ! i) = Some
    (if int i < pos \<and> pos < int (length ns) then At (ns ! (nat pos - 1)) (ns ! nat pos)
     else AtEnd (last ns))"
  using i k
proof (induction k arbitrary: i)
  case (Suc k)
  note f = main_reprD[OF r]
  show ?case
  proof (cases "Suc i < length ns")
    case True
    then have nx: "st_next (stats s (ns ! i)) = int (ns ! Suc i)" "st_ix s (int (ns ! Suc i)) = Some (ns ! Suc i)"
      using f(4,5) by simp_all
    show ?thesis
    proof (cases "int i + 1 = pos")
      case pos: True
      then have "nat pos = Suc i" by simp
      then show ?thesis using nx True pos by auto
    next
      case False
      have "walk_main k s (int (Suc i) + 1) pos (ns ! Suc i) = Some
        (if int (Suc i) < pos \<and> pos < int (length ns) then At (ns ! (nat pos - 1)) (ns ! nat pos)
         else AtEnd (last ns))"
        using Suc True by (intro Suc.IH) simp_all
      then show ?thesis using nx False by (auto simp: add.commute)
    qed
  next
    case False
    then have "i = length ns - 1" using Suc.prems(1) by simp
    then have "ns ! i = last ns" using f(1) by (simp add: last_conv_nth)
    then show ?thesis using f(7) False by auto
  qed
qed simp

section \<open>Insertion refines the insertion into a list\<close>

lemma insert_end_ok:
  assumes r: "main_repr s ns" and n: "n \<notin> set ns" "station_ok s n" "st_next (stats s n) < 0"
  shows "main_repr (insert_end (last ns) n s) (ns @ [n])"
proof -
  note f = main_reprD[OF r]
  have l: "last ns \<noteq> n" "last ns \<in> set ns" using n(1) f(1) by auto
  have nx: "(\<lambda>m. st_next (stats (insert_end (last ns) n s) m)) =
      (\<lambda>m. st_next (stats s m))(last ns := int n)"
    "(\<lambda>m. st_prev (stats (insert_end (last ns) n s) m)) = (\<lambda>m. st_prev (stats s m))(n := int (last ns))"
    using n(2) f(4)[OF l(2)] l by (auto simp: insert_end_def fun_eq_iff station_ok_def)
  have "station_ok (insert_end (last ns) n s) m = station_ok s m" for m
    using l by (auto simp: insert_end_def station_ok_def)
  moreover have "stat_tail (sys (insert_end (last ns) n s)) = int n"
    using n(2) by (simp add: insert_end_def station_ok_def)
  ultimately show ?thesis
    unfolding main_repr_def nx using dlist_snoc[OF f(9) n(1)] n f by (auto simp: hd_append)
qed

text \<open>What an operation on the main list leaves alone.\<close>

definition same_but_links :: "et_shm \<Rightarrow> et_shm \<Rightarrow> bool" where
  "same_but_links s s' \<longleftrightarrow> events s' = events s \<and> histogram s' = histogram s \<and>
     sys_config (sys s') = sys_config (sys s) \<and> nstations (sys s') = nstations (sys s) \<and>
     (\<forall>m. num (stats s' m) = num (stats s m) \<and> config (stats s' m) = config (stats s m) \<and>
        list_in (stats s' m) = list_in (stats s m) \<and> list_out (stats s' m) = list_out (stats s m) \<and>
        st_data (stats s' m) = st_data (stats s m) \<and> name (stats s' m) = name (stats s m))"

lemma same_but_links_insert_end [simp]: "same_but_links s (insert_end p n s)"
  by (auto simp: same_but_links_def insert_end_def)

lemma split_at_pos:
  assumes "1 \<le> pos" "pos < int (length ns)"
  shows "ns = take (nat pos - 1) ns @ ns ! (nat pos - 1) # ns ! nat pos # drop (Suc (nat pos)) ns"
    "take (nat pos) ns = take (nat pos - 1) ns @ [ns ! (nat pos - 1)]"
    "drop (nat pos) ns = ns ! nat pos # drop (Suc (nat pos)) ns"
proof -
  have i: "nat pos = Suc (nat pos - 1)" "nat pos < length ns" using assms by auto
  show t: "take (nat pos) ns = take (nat pos - 1) ns @ [ns ! (nat pos - 1)]"
    using i by (metis Suc_lessD take_Suc_conv_app_nth)
  show d: "drop (nat pos) ns = ns ! nat pos # drop (Suc (nat pos)) ns"
    using i(2) by (simp add: Cons_nth_drop_Suc)
  have "ns = take (nat pos) ns @ drop (nat pos) ns" by simp
  then show "ns = take (nat pos - 1) ns @ ns ! (nat pos - 1) # ns ! nat pos # drop (Suc (nat pos)) ns"
    unfolding t d by simp
qed

lemma station_insert_main:
  assumes r: "main_repr s ns" and n: "n \<notin> set ns" "station_ok s n" "st_next (stats s n) < 0"
    and few: "nstations (sys s) < 3 \<Longrightarrow> ns = [0]"
    and ser: "1 \<le> pos \<Longrightarrow> pos < int (length ns) \<Longrightarrow>
      flow_mode (config (stats s n)) = ET_STATION_PARALLEL \<Longrightarrow>
      flow_mode (config (stats s (ns ! nat pos))) = ET_STATION_PARALLEL \<Longrightarrow> ppos = ET_NEWHEAD"
  shows "\<exists>s'. station_insert n pos ppos s = Some (ET_OK, s') \<and>
    main_repr s' (insert_pos pos n ns) \<and> same_but_links s s'"
proof -
  note f = main_reprD[OF r]
  let ?fuel = "nat (c_nstations (sys_config (sys s)))"
  have ns0: "ns ! 0 = 0" "0 < length ns" using f(1,3) by (simp_all add: hd_conv_nth)
  have w: "walk_main ?fuel s 1 pos 0 = Some
    (if 0 < pos \<and> pos < int (length ns) then At (ns ! (nat pos - 1)) (ns ! nat pos) else AtEnd (last ns))"
    using walk_main_ok[OF r ns0(2), of ?fuel pos] ns0(1) f(10) by simp
  show ?thesis
  proof (cases "nstations (sys s) < 3")
    case True
    then show ?thesis using few insert_end_ok[OF r n] by (auto simp: station_insert_def insert_pos_def)
  next
    case many: False
    show ?thesis
    proof (cases "1 \<le> pos \<and> pos < int (length ns)")
      case False
      then show ?thesis using many w insert_end_ok[OF r n]
        by (auto simp: station_insert_def insert_pos_def Let_def split: if_splits)
    next
      case True
      define A B p x where "A = take (nat pos - 1) ns" and "B = drop (Suc (nat pos)) ns"
        and "p = ns ! (nat pos - 1)" and "x = ns ! nat pos"
      have ns: "ns = A @ p # x # B" and ins: "insert_pos pos n ns = A @ p # n # x # B"
        using split_at_pos[of pos ns] True by (simp_all add: A_def B_def p_def x_def insert_pos_def)
      have ok: "station_ok s p" "station_ok s x" "num (stats s p) = int p"
        "st_next (stats s p) = int x" "num (stats s n) = int n"
        using f(4) n(2) ns f(5)[of "length A"] by (auto simp: station_ok_def nth_append)
      define s1 where "s1 = upd_station p (\<lambda>ps. ps\<lparr>st_next := int n\<rparr>) (upd_station x (\<lambda>ps. ps\<lparr>st_prev := int n\<rparr>)
          (upd_station n (\<lambda>ps. ps\<lparr>st_next := int x, st_prev := int p\<rparr>) s))"
      have ne: "n \<noteq> p" "n \<noteq> x" "p \<noteq> x" using n(1) f(2) ns by auto
      have w1: "walk_main ?fuel s 1 pos 0 = Some (At p x)" using w True by (simp add: p_def x_def)
      have ser1: "flow_mode (config (stats s n)) = ET_STATION_PARALLEL \<Longrightarrow>
        flow_mode (config (stats s x)) = ET_STATION_PARALLEL \<Longrightarrow> ppos = ET_NEWHEAD"
        using ser True by (simp add: x_def)
      have "station_insert n pos ppos s = Some (ET_OK, s1)"
        using many w1 ser1 ok ne by (auto simp: station_insert_def Let_def s1_def)
      moreover have "(\<lambda>m. st_next (stats s1 m)) = (\<lambda>m. st_next (stats s m))(n := int x, p := int n)"
        "(\<lambda>m. st_prev (stats s1 m)) = (\<lambda>m. st_prev (stats s m))(n := int p, x := int n)"
        using ne by (auto simp: s1_def fun_eq_iff)
      then have "dlist (\<lambda>m. st_next (stats s1 m)) (\<lambda>m. st_prev (stats s1 m)) (A @ p # n # x # B)"
        using dlist_insert[of _ _ A p x B n] f(9) n(1) unfolding ns by simp
      moreover have "same_but_links s s1" using ne by (auto simp: same_but_links_def s1_def)
      moreover have "station_ok s1 m = station_ok s m" for m
        using ne by (auto simp: s1_def station_ok_def)
      moreover have "stat_tail (sys s1) = stat_tail (sys s)" by (simp add: s1_def)
      ultimately show ?thesis
        using f(3,4,8) n(2) unfolding main_repr_def ins by (auto simp: ns hd_append split: if_splits)
    qed
  qed
qed

section \<open>Removal\<close>

lemma unlink_main_ok:
  assumes r: "main_repr s ns" and n: "n \<in> set ns" "n \<noteq> 0"
  shows "\<exists>s'. unlink_main n s = Some s' \<and> main_repr s' (remove1 n ns) \<and> same_but_links s s'"
proof -
  note f = main_reprD[OF r]
  obtain A0 B0 where sp: "ns = A0 @ n # B0" "n \<notin> set A0" using split_list_first[OF n(1)] by blast
  have "A0 \<noteq> []" using sp f(3) n(2) by auto
  then obtain A p where A: "A0 = A @ [p]" by (metis rev_exhaust)
  have rm: "remove1 n ns = A0 @ B0" using sp by (simp add: remove1_append)
  have np: "n \<noteq> p" using sp A by auto
  have ok: "station_ok s p" "num (stats s p) = int p" "st_prev (stats s n) = int p"
    using f(4) f(6)[of "length A"] sp A by (auto simp: station_ok_def nth_append)
  show ?thesis
  proof (cases B0)
    case Nil
    then have tl: "stat_tail (sys s) = int n" using f(8) sp A by simp
    define s1 where "s1 = upd_station p (\<lambda>q. q\<lparr>st_next := st_next (stats s n)\<rparr>) (upd_sys (\<lambda>y. y\<lparr>stat_tail := int p\<rparr>) s)"
    have e: "unlink_main n s = Some s1" using ok tl by (simp add: unlink_main_def s1_def)
    have "(\<lambda>m. st_next (stats s1 m)) = (\<lambda>m. st_next (stats s m))(p := st_next (stats s n))"
      "(\<lambda>m. st_prev (stats s1 m)) = (\<lambda>m. st_prev (stats s m))" by (auto simp: s1_def fun_eq_iff)
    then have "dlist (\<lambda>m. st_next (stats s1 m)) (\<lambda>m. st_prev (stats s1 m)) (A @ [p])"
      using dlist_remove_last[of _ _ A p n] f(9) sp A Nil by simp
    moreover have "station_ok s1 m = station_ok s m" for m by (auto simp: s1_def station_ok_def)
    ultimately have "main_repr s1 (A @ [p])"
      using f(3,4) sp A Nil by (auto simp: main_repr_def hd_append s1_def split: if_splits)
    moreover have "same_but_links s s1" by (auto simp: same_but_links_def s1_def)
    ultimately show ?thesis using e rm A Nil by auto
  next
    case (Cons x B)
    have x: "station_ok s x" "st_next (stats s n) = int x"
      using f(4) f(5)[of "Suc (length A)"] sp A Cons by (auto simp: nth_append)
    have tl: "stat_tail (sys s) = int (last (x # B))" using f(8) sp A Cons by simp
    have nx: "n \<noteq> last (x # B)" "n \<noteq> x" "p \<noteq> x" using f(2) sp A Cons last_in_set[of "x # B"] by auto
    define s1 where "s1 = upd_station p (\<lambda>q. q\<lparr>st_next := int x\<rparr>) (upd_station x (\<lambda>q. q\<lparr>st_prev := int p\<rparr>) s)"
    have e: "unlink_main n s = Some s1" using ok x tl nx by (simp add: unlink_main_def s1_def)
    have "(\<lambda>m. st_next (stats s1 m)) = (\<lambda>m. st_next (stats s m))(p := st_next (stats s n))"
      "(\<lambda>m. st_prev (stats s1 m)) = (\<lambda>m. st_prev (stats s m))(x := int p)"
      using nx x by (auto simp: s1_def fun_eq_iff)
    then have "dlist (\<lambda>m. st_next (stats s1 m)) (\<lambda>m. st_prev (stats s1 m)) (A @ p # x # B)"
      using dlist_remove_mid[of _ _ A p n x B] f(9) sp A Cons by simp
    moreover have "station_ok s1 m = station_ok s m" for m using nx by (auto simp: s1_def station_ok_def)
    ultimately have "main_repr s1 (A @ p # x # B)"
      using f(3,4) sp A Cons tl by (auto simp: main_repr_def hd_append s1_def split: if_splits)
    moreover have "same_but_links s s1" using nx by (auto simp: same_but_links_def s1_def)
    ultimately show ?thesis using e rm A Cons by auto
  qed
qed

lemma station_remove_serial:
  assumes r: "main_repr s ns" and n: "n \<in> set ns" "n \<noteq> 0"
    and ser: "flow_mode (config (stats s n)) = ET_STATION_PARALLEL \<Longrightarrow> nextparallel (stats s n) < 0"
  shows "\<exists>s'. station_remove n s = Some s' \<and> main_repr s' (remove1 n ns) \<and> same_but_links s s'"
proof -
  note f = main_reprD[OF r]
  obtain i where i: "i < length ns" "ns ! i = n" using n(1) by (metis in_set_conv_nth)
  have "i \<noteq> 0" using i n(2) f(1,3) by (metis hd_conv_nth)
  then have "st_prev (stats s n) = int (ns ! (i - 1))" using f(6)[of "i - 1"] i by simp
  then have "station_remove n s = unlink_main n s" using ser by (simp add: station_remove_def Let_def)
  then show ?thesis using unlink_main_ok[OF r n] by simp
qed

section \<open>Search\<close>

text \<open>
  A layout of all stations in the lists: \<open>gs x\<close> is the group whose head is the parallel station \<open>x\<close>
  of the main list; a station is in one place only.
\<close>

definition layout_repr :: "et_shm \<Rightarrow> nat list \<Rightarrow> (nat \<Rightarrow> nat list) \<Rightarrow> bool" where
  "layout_repr s ns gs \<longleftrightarrow> main_repr s ns \<and>
     (\<forall>x\<in>set ns. hd (gs x) = x \<and>
        (if flow_mode (config (stats s x)) = ET_STATION_PARALLEL then group_repr s (gs x) else gs x = [x])) \<and>
     distinct (concat (map gs ns))"

lemma group_reprD:
  assumes "group_repr s g"
  shows "g \<noteq> []" "distinct g" "\<And>n. n \<in> set g \<Longrightarrow> station_ok s n"
    "\<And>i. Suc i < length g \<Longrightarrow> nextparallel (stats s (g ! i)) = int (g ! Suc i)"
    "nextparallel (stats s (last g)) < 0" "length g \<le> nat (c_nstations (sys_config (sys s)))"
proof -
  show "distinct g" using assms by (simp add: group_repr_def dlist_def)
  have "set g \<subseteq> {..<nat (c_nstations (sys_config (sys s)))}"
    using assms by (auto simp: group_repr_def station_ok_def)
  from card_mono[OF _ this] show "length g \<le> nat (c_nstations (sys_config (sys s)))"
    using \<open>distinct g\<close> by (simp add: distinct_card)
qed (use assms dlist_next in \<open>auto simp: group_repr_def dlist_def\<close>)

lemma find_parallel_ok:
  assumes g: "group_repr s g" and i: "i < length g" and k: "length g - i \<le> k"
    and out: "n \<notin> set (take (Suc i) g)"
  shows "find_parallel k s n (int i + 1) (g ! i) =
    Some (if n \<in> set g then Some (int (THE j. j < length g \<and> g ! j = n)) else None)"
  using i k out
proof (induction k arbitrary: i)
  case (Suc k)
  note f = group_reprD[OF g]
  have the: "(THE j. j < length g \<and> g ! j = n) = j" if "j < length g" "g ! j = n" for j
    using that f(2) by (intro the_equality) (auto simp: nth_eq_iff_index_eq)
  show ?case
  proof (cases "Suc i < length g")
    case True
    then have nx: "nextparallel (stats s (g ! i)) = int (g ! Suc i)"
      "st_ix s (int (g ! Suc i)) = Some (g ! Suc i)" using f(3,4) by simp_all
    show ?thesis
    proof (cases "g ! Suc i = n")
      case hit: True
      then show ?thesis using nx True the[OF True hit] by (auto simp: add.commute)
    next
      case False
      then have "n \<notin> set (take (Suc (Suc i)) g)"
        using Suc.prems(3) True by (simp add: take_Suc_conv_app_nth)
      then have "find_parallel k s n (int (Suc i) + 1) (g ! Suc i) =
        Some (if n \<in> set g then Some (int (THE j. j < length g \<and> g ! j = n)) else None)"
        using Suc True by (intro Suc.IH) auto
      then show ?thesis using nx False by (auto simp: add.commute)
    qed
  next
    case False
    then have "i = length g - 1" using Suc.prems(1) by simp
    then have "g ! i = last g" "take (Suc i) g = g" using f(1) by (simp_all add: last_conv_nth)
    then show ?thesis using f(5) Suc.prems(3) by simp
  qed
qed simp

lemma layout_other_group:
  assumes "layout_repr s ns gs" "i < length ns" "j < length ns" "i \<noteq> j" "n \<in> set (gs (ns ! i))"
  shows "n \<notin> set (gs (ns ! j))"
proof -
  have d: "distinct (concat (map gs ns))" using assms(1) by (simp add: layout_repr_def)
  have "n \<in> set (map gs ns ! i)" using assms by simp
  have "ns = take i ns @ ns ! i # drop (Suc i) ns" using assms(2) by (rule id_take_nth_drop)
  then have dd: "distinct (concat (map gs (take i ns @ ns ! i # drop (Suc i) ns)))" using d by simp
  have "ns ! j \<in> set (take i ns) \<or> ns ! j \<in> set (drop (Suc i) ns)"
  proof (cases "j < i")
    case True
    then have "take i ns ! j = ns ! j" "j < length (take i ns)" using assms(2) by simp_all
    then show ?thesis by (metis nth_mem)
  next
    case False
    then have "drop (Suc i) ns ! (j - Suc i) = ns ! j" "j - Suc i < length (drop (Suc i) ns)"
      using assms(3,4) by simp_all
    then show ?thesis by (metis nth_mem)
  qed
  then show ?thesis using dd assms(5) by auto
qed

lemma find_main_ok:
  assumes l: "layout_repr s ns gs" and j: "j < length ns" "n \<in> set (gs (ns ! j))"
    and i: "i < j" and k: "length ns - i \<le> k"
  shows "find_main k s n (int i + 1) (ns ! i) =
    Some (Some (int j, int (THE m. m < length (gs (ns ! j)) \<and> gs (ns ! j) ! m = n)))"
  using i k
proof (induction k arbitrary: i)
  case 0
  then show ?case using j by simp
next
  case (Suc k)
  have r: "main_repr s ns" using l by (simp add: layout_repr_def)
  note f = main_reprD[OF r]
  have si: "Suc i < length ns" using Suc.prems j(1) by simp
  have nx: "st_next (stats s (ns ! i)) = int (ns ! Suc i)" "st_ix s (int (ns ! Suc i)) = Some (ns ! Suc i)"
    using f(4,5) si by simp_all
  let ?x = "ns ! Suc i"
  have x: "hd (gs ?x) = ?x" "flow_mode (config (stats s ?x)) = ET_STATION_PARALLEL \<Longrightarrow> group_repr s (gs ?x)"
    "flow_mode (config (stats s ?x)) \<noteq> ET_STATION_PARALLEL \<Longrightarrow> gs ?x = [?x]"
    using l si nth_mem[OF si] by (auto simp: layout_repr_def split: if_splits)
  have gne: "gs ?x \<noteq> []" using x group_reprD(1) by (cases "flow_mode (config (stats s ?x)) = ET_STATION_PARALLEL") auto
  have g0: "gs ?x ! 0 = ?x" using x(1) gne by (simp add: hd_conv_nth)
  have fp: "find_parallel (nat (c_nstations (sys_config (sys s)))) s n 1 ?x =
      Some (if n \<in> set (gs ?x) then Some (int (THE m. m < length (gs ?x) \<and> gs ?x ! m = n)) else None)"
    if "flow_mode (config (stats s ?x)) = ET_STATION_PARALLEL" "n \<noteq> ?x"
    using find_parallel_ok[OF x(2)[OF that(1)], of 0 "nat (c_nstations (sys_config (sys s)))" n]
      group_reprD(6)[OF x(2)[OF that(1)]] gne g0 that(2)
    by (cases "gs ?x") auto
  show ?case
  proof (cases "Suc i = j")
    case True
    show ?thesis
    proof (cases "n = ?x")
      case hit: True
      have d: "distinct (gs ?x)" using group_reprD(2)[OF x(2)] x(3)
        by (cases "flow_mode (config (stats s ?x)) = ET_STATION_PARALLEL") auto
      have "(THE m. m < length (gs ?x) \<and> gs ?x ! m = n) = 0"
        using hit g0 gne by (intro the_equality)
          (simp, metis d length_greater_0_conv nth_eq_iff_index_eq)
      then show ?thesis using nx hit True by (auto simp: add.commute)
    next
      case False
      then have "flow_mode (config (stats s ?x)) = ET_STATION_PARALLEL" using x(3) j(2) True by fastforce
      then show ?thesis using nx fp False True j(2) by (auto simp: add.commute)
    qed
  next
    case False
    have nin: "n \<notin> set (gs ?x)" using layout_other_group[OF l j(1) si _ j(2)] False by auto
    then have nx2: "n \<noteq> ?x" using x(1) gne by (metis hd_in_set)
    have "find_main k s n (int (Suc i) + 1) ?x =
      Some (Some (int j, int (THE m. m < length (gs (ns ! j)) \<and> gs (ns ! j) ! m = n)))"
      using Suc False by (intro Suc.IH) auto
    then show ?thesis using nx nx2 nin fp by (auto simp: add.commute)
  qed
qed

text \<open>\<^verbatim>\<open>station_find\<close> returns the place of a station in the layout.\<close>

lemma station_find_ok:
  assumes l: "layout_repr s ns gs" and i: "i < length ns" and j: "j < length (gs (ns ! i))"
    and many: "nstations (sys s) \<ge> 2" and i0: "0 < i"
  shows "station_find (gs (ns ! i) ! j) s = Some (ET_OK, Some (int i, int j))"
proof -
  have r: "main_repr s ns" using l by (simp add: layout_repr_def)
  note f = main_reprD[OF r]
  let ?n = "gs (ns ! i) ! j"
  have n: "?n \<in> set (gs (ns ! i))" using j by simp
  have ns0: "ns ! 0 = 0" using f(1,3) by (simp add: hd_conv_nth)
  have l0: "0 < length ns" using f(1) by simp
  have g0: "0 \<in> set (gs (ns ! 0))"
    using l nth_mem[OF l0] ns0 hd_in_set[of "gs 0"] group_reprD(1)[of s "gs 0"]
    by (auto simp: layout_repr_def split: if_splits)
  have n0: "?n \<noteq> 0" using layout_other_group[OF l l0 i _ g0] i0 n by (metis not_gr_zero)
  have d: "distinct (gs (ns ! i))"
    using l i by (auto simp: layout_repr_def distinct_concat_iff)
  have "(THE m. m < length (gs (ns ! i)) \<and> gs (ns ! i) ! m = ?n) = j"
    using j d by (intro the_equality) (auto simp: nth_eq_iff_index_eq)
  then have "find_main (nat (c_nstations (sys_config (sys s)))) s ?n (int 0 + 1) (ns ! 0) =
      Some (Some (int i, int j))"
    using find_main_ok[OF l i n i0, of "nat (c_nstations (sys_config (sys s)))"] f(10) by simp
  then show ?thesis using n0 many ns0 by (simp add: station_find_def)
qed

end
