(* ===== verification/EtStationOps.thy ===== *)
theory EtStationOps imports EtStation begin

text \<open>
  Creation, removal, attachment, detachment and moves of stations (\<^verbatim>\<open>et_station.c\<close>).

  A call on a handle that is not local is passed on to the remote client; its result is the
  argument \<open>etr\<close>. Where a routine releases a lock and waits for other threads (the thread that
  starts conductors, the conductor that empties a station's output list), what those threads do to
  shared memory meanwhile is the argument \<open>others\<close>. Output arguments are options in the result.
\<close>

type_synonym 'r op = "et_shm \<Rightarrow> ('r \<times> et_shm) option"

definition et_alive :: "et_id \<Rightarrow> int" where
  "et_alive e = alive e"

definition upd_proc :: "int \<Rightarrow> (et_proc \<Rightarrow> et_proc) \<Rightarrow> et_shm \<Rightarrow> et_shm option" where
  "upd_proc i f s = (if i < 0 then None
     else Some (upd_sys (\<lambda>y. y\<lparr>proc := (proc y)(nat i := f (proc y (nat i)))\<rparr>) s))"

definition station_lock :: "et_shm \<Rightarrow> et_shm" where "station_lock = upd_sys et_station_lock"
definition station_unlock :: "et_shm \<Rightarrow> et_shm" where "station_unlock = upd_sys et_station_unlock"
definition system_lock :: "et_shm \<Rightarrow> et_shm" where "system_lock = upd_sys et_system_lock"
definition system_unlock :: "et_shm \<Rightarrow> et_shm" where "system_unlock = upd_sys et_system_unlock"

section \<open>Looking up a station\<close>

definition et_station_exists ::
  "et_id \<Rightarrow> int \<times> int option \<Rightarrow> string option \<Rightarrow> et_shm \<Rightarrow> int \<times> int option" where
  "et_station_exists e etr stat_name s =
     (case stat_name of None \<Rightarrow> (ET_ERROR, None)
      | Some nm \<Rightarrow>
        if locality e = ET_REMOTE then etr
        else if et_alive e = 0 then (ET_ERROR_DEAD, None)
        else case find (\<lambda>i. status (st_data (stats s i)) \<noteq> ET_STATION_UNUSED \<and> name (stats s i) = nm)
                    [0..<nat (c_nstations (sys_config (sys s)))] of
               Some i \<Rightarrow> (1, Some (int i)) | None \<Rightarrow> (0, None))"

definition et_station_name_to_id ::
  "et_id \<Rightarrow> int \<times> int option \<Rightarrow> string option \<Rightarrow> et_shm \<Rightarrow> int \<times> int option" where
  "et_station_name_to_id e etr stat_name s =
     (let (status, i) = et_station_exists e etr stat_name s in
      if status < 0 then (status, i) else if status = 1 then (ET_OK, i) else (ET_ERROR, i))"

section \<open>Creation\<close>

text \<open>The comparison of an existing station's configuration with the one asked for.\<close>

definition same_config :: "et_stat_config \<Rightarrow> et_stat_config \<Rightarrow> bool" where
  "same_config c sc \<longleftrightarrow> flow_mode c = flow_mode sc \<and> user_mode c = user_mode sc \<and>
     block_mode c = block_mode sc \<and> select_mode c = select_mode sc \<and>
     restore_mode c = restore_mode sc \<and> prescale c = prescale sc \<and> cue c = cue sc \<and>
     take ET_STATION_SELECT_INTS (sc_select c) = take ET_STATION_SELECT_INTS (sc_select sc) \<and>
     select_mode c \<noteq> ET_STATION_SELECT_USER"

text \<open>The part of \<^verbatim>\<open>et_station_create_at\<close> once the station's place \<open>i\<close> in the array is known.\<close>

definition create_in ::
  "et_id \<Rightarrow> (et_shm \<Rightarrow> et_shm) \<Rightarrow> string \<Rightarrow> et_stat_config \<Rightarrow> int \<Rightarrow> int \<Rightarrow> nat \<Rightarrow> (int \<times> int option) op" where
  "create_in e others nm sc pos ppos i s = (
     let s = upd_station i (\<lambda>ps. let ps = et_init_station ps in
               ps\<lparr>num := int i, name := nm, config := sc,
                  st_data := (st_data ps)\<lparr>pid_create := env_pid e, status := ET_STATION_CREATING\<rparr>\<rparr>) s
     in if nm = ''GRAND_CENTRAL'' then Some ((ET_OK, None), station_unlock s)
     else let s = others (upd_sys (\<lambda>y. y\<lparr>statadd := Suc (statadd y)\<rparr>) s) in
     if status (st_data (stats s i)) \<noteq> ET_STATION_IDLE then
       Some ((ET_ERROR, None), station_unlock (upd_station i et_init_station
               (upd_sys (\<lambda>y. y\<lparr>nstations := nstations y - 1\<rparr>) s)))
     else do {
       (st, s) \<leftarrow> station_insert i pos ppos (et_transfer_lock_all s);
       let s = et_transfer_unlock_all s;
       if st \<noteq> ET_OK then
         Some ((ET_ERROR, None), station_unlock (upd_sys (\<lambda>y. y\<lparr>nstations := nstations y - 1\<rparr>)
           (upd_station i (\<lambda>ps. ps\<lparr>conductor := ET_THREAD_KILL, list_out := cond_signal (list_out ps),
              st_data := (st_data ps)\<lparr>status := ET_STATION_UNUSED\<rparr>\<rparr>) s)))
       else Some ((ET_OK, Some (int i)), station_unlock s) })"

definition et_station_create_at ::
  "et_id \<Rightarrow> (int \<times> int option) op \<Rightarrow> (et_shm \<Rightarrow> et_shm) \<Rightarrow> string option \<Rightarrow> et_stat_config option \<Rightarrow>
   int \<Rightarrow> int \<Rightarrow> (int \<times> int option) op" where
  "et_station_create_at e etr others stat_name sconfig pos ppos s =
    (case stat_name of None \<Rightarrow> Some ((ET_ERROR, None), s)
     | Some nm \<Rightarrow>
       if length nm > ET_STATNAME_LENGTH - 1 then Some ((ET_ERROR, None), s)
       else if pos \<noteq> ET_END \<and> pos < 0 then Some ((ET_ERROR, None), s)
       else if ppos \<noteq> ET_END \<and> ppos \<noteq> ET_NEWHEAD \<and> ppos < 0 then Some ((ET_ERROR, None), s)
       else case (case sconfig of Some sc \<Rightarrow> Some sc
                  | None \<Rightarrow> snd (et_station_config_init (env_calloc e 0))) of
         None \<Rightarrow> Some ((ET_ERROR, None), s)
       | Some sc \<Rightarrow>
         if sc_init sc \<noteq> ET_STRUCT_OK then Some ((ET_ERROR, None), s)
         else if nm \<noteq> ''GRAND_CENTRAL'' \<and> pos = 0 then Some ((ET_ERROR, None), s)
         else if locality e \<noteq> ET_LOCAL then etr s
         else if et_station_config_check (c_nattachments (sys_config (sys s))) (nevents_max s) sc = ET_ERROR
           then Some ((ET_ERROR, None), s)
         else if et_alive e = 0 \<and> nm \<noteq> ''GRAND_CENTRAL'' then Some ((ET_ERROR_DEAD, None), s)
         else let s = station_lock s in
         case et_station_exists e (0, None) (Some nm) s of (ex, i) \<Rightarrow>
         if ex = 1 then do {
           i \<leftarrow> i;
           let ps = stats s (nat i);
           if status (st_data ps) \<noteq> ET_STATION_CREATING \<and> same_config (config ps) sc
           then Some ((ET_OK, Some i), station_unlock s)
           else Some ((ET_ERROR_EXISTS, Some i), station_unlock s) }
         else if nstations (sys s) \<ge> c_nstations (sys_config (sys s))
           then Some ((ET_ERROR_TOOMANY, None), station_unlock s)
         else let s1 = upd_sys (\<lambda>y. y\<lparr>nstations := nstations y + 1\<rparr>) s in
           case find (\<lambda>i. status (st_data (stats s1 i)) = ET_STATION_UNUSED)
                  [0..<nat (c_nstations (sys_config (sys s1)))] of
             None \<Rightarrow> Some ((ET_ERROR, None),
                       station_unlock (upd_sys (\<lambda>y. y\<lparr>nstations := nstations y - 1\<rparr>) s1))
           | Some i \<Rightarrow> create_in e others nm sc pos ppos i s1)"

definition et_station_create ::
  "et_id \<Rightarrow> (int \<times> int option) op \<Rightarrow> (et_shm \<Rightarrow> et_shm) \<Rightarrow> string option \<Rightarrow> et_stat_config option \<Rightarrow>
   (int \<times> int option) op" where
  "et_station_create e etr others stat_name sconfig =
     et_station_create_at e etr others stat_name sconfig ET_END ET_END"

section \<open>Removal\<close>

definition et_station_remove :: "et_id \<Rightarrow> int op \<Rightarrow> (et_shm \<Rightarrow> et_shm) \<Rightarrow> int \<Rightarrow> int op" where
  "et_station_remove e etr others stat_id s =
    (if stat_id < 0 then Some (ET_ERROR, s)
     else if stat_id = ET_GRANDCENTRAL then Some (ET_ERROR, s)
     else if locality e \<noteq> ET_LOCAL then etr s
     else if stat_id \<ge> c_nstations (sys_config (sys s)) then Some (ET_ERROR, s)
     else if et_alive e = 0 then Some (ET_ERROR_DEAD, s)
     else let n = nat stat_id; s = station_lock s in
     if st_nattachments (st_data (stats s n)) > 0 then Some (ET_ERROR, station_unlock s)
     else do {
       s \<leftarrow> station_remove n (et_transfer_lock_all s);
       let s = others (upd_station n et_transfer_unlock s);
       let s = upd_station n et_transfer_lock s;
       let s = upd_station n (\<lambda>ps. ps\<lparr>conductor := ET_THREAD_KILL,
                 list_out := cond_signal (list_out ps),
                 st_data := (st_data ps)\<lparr>status := ET_STATION_UNUSED\<rparr>\<rparr>) s;
       let s = et_transfer_unlock_all s;
       Some (ET_OK, station_unlock (upd_sys (\<lambda>y. y\<lparr>nstations := nstations y - 1\<rparr>) s)) })"

section \<open>Attaching\<close>

definition fill_attachment :: "et_id \<Rightarrow> nat \<Rightarrow> int \<Rightarrow> et_shm \<Rightarrow> et_shm" where
  "fill_attachment e i stat_id s =
     upd_attach i (\<lambda>a. a\<lparr>at_num := int i, at_proc := id_proc e, at_stat := stat_id,
         at_status := ET_ATT_ACTIVE, at_pid := env_pid e,
         host := (case env_host e of Some h \<Rightarrow> h | None \<Rightarrow> host a)\<rparr>)
       (et_init_attachment i s)"

text \<open>Event transfer is stopped while a parallel station is activated.\<close>

definition activate :: "nat \<Rightarrow> et_shm \<Rightarrow> et_shm" where
  "activate n s =
     (let unlockit = flow_mode (config (stats s n)) = ET_STATION_PARALLEL \<and>
                     status (st_data (stats s n)) \<noteq> ET_STATION_ACTIVE;
          s = (if unlockit then et_transfer_lock_all s else s);
          s = upd_station n (\<lambda>ps. ps\<lparr>st_data := (st_data ps)\<lparr>status := ET_STATION_ACTIVE\<rparr>\<rparr>) s
      in if unlockit then et_transfer_unlock_all s else s)"

definition et_station_attach :: "et_id \<Rightarrow> (int \<times> int option) op \<Rightarrow> int \<Rightarrow> (int \<times> int option) op" where
  "et_station_attach e etr stat_id s =
    (if stat_id < 0 then Some ((ET_ERROR, None), s)
     else if locality e \<noteq> ET_LOCAL then etr s
     else if stat_id \<ge> c_nstations (sys_config (sys s)) then Some ((ET_ERROR, None), s)
     else if et_alive e = 0 then Some ((ET_ERROR_DEAD, None), s)
     else let n = nat stat_id; s = station_lock s; ps = stats s n in
     if status (st_data ps) \<noteq> ET_STATION_ACTIVE \<and> status (st_data ps) \<noteq> ET_STATION_IDLE
       then Some ((ET_ERROR, None), station_unlock s)
     else if user_mode (config ps) > 0 \<and> user_mode (config ps) \<le> st_nattachments (st_data ps)
       then Some ((ET_ERROR_TOOMANY, None), station_unlock s)
     else let s = system_lock s in
     if nattachments (sys s) \<ge> c_nattachments (sys_config (sys s))
       then Some ((ET_ERROR_TOOMANY, None), station_unlock (system_unlock s))
     else case find (\<lambda>i. at_num (attach (sys s) i) = - 1) [0..<nat (c_nattachments (sys_config (sys s)))] of
       None \<Rightarrow> Some ((ET_ERROR, None), station_unlock (system_unlock s))
     | Some i \<Rightarrow> do {
         let s = upd_sys (\<lambda>y. y\<lparr>nattachments := nattachments y + 1\<rparr>) s;
         let s = fill_attachment e i stat_id s;
         s \<leftarrow> (if id_proc e \<noteq> ET_SYS
              then upd_proc (id_proc e) (\<lambda>p. p\<lparr>pr_nattachments := pr_nattachments p + 1,
                     pr_att := (pr_att p)(i := int i)\<rparr>) s
              else Some s);
         let s = system_unlock s;
         let s = upd_station n (\<lambda>ps. ps\<lparr>st_data := (st_data ps)\<lparr>
                   st_nattachments := st_nattachments (st_data ps) + 1,
                   st_att := (st_att (st_data ps))(i := int i)\<rparr>\<rparr>) s;
         Some ((ET_OK, Some (int i)), station_unlock (activate n s)) })"

section \<open>Detaching\<close>

text \<open>``if this is station's (not gc's) last attachment, mark station inactive''\<close>

definition make_idle :: "et_id \<Rightarrow> nat \<Rightarrow> nat \<Rightarrow> et_shm \<Rightarrow> et_shm option" where
  "make_idle e a n s =
     (if st_nattachments (st_data (stats s n)) = 1 \<and> int n \<noteq> ET_GRANDCENTRAL then
        (let s = (if cleanup e \<noteq> 1 then et_transfer_lock_all s else s);
             s = upd_station n (\<lambda>ps. ps\<lparr>st_data := (st_data ps)\<lparr>status := ET_STATION_IDLE\<rparr>\<rparr>) s;
             s = (if cleanup e \<noteq> 1 then et_transfer_unlock_all s else s)
         in et_flush_events e a n s)
      else Some s)"

definition leave_station :: "nat \<Rightarrow> nat \<Rightarrow> et_shm \<Rightarrow> et_shm" where
  "leave_station a n = upd_station n (\<lambda>ps. ps\<lparr>st_data := (st_data ps)\<lparr>
      st_nattachments := st_nattachments (st_data ps) - 1,
      st_att := (st_att (st_data ps))(a := - 1)\<rparr>\<rparr>)"

definition et_station_detach :: "et_id \<Rightarrow> int op \<Rightarrow> int \<Rightarrow> int op" where
  "et_station_detach e etr att s =
    (if att < 0 \<or> att \<ge> ET_ATTACHMENTS_MAX then Some (ET_ERROR, s)
     else if locality e \<noteq> ET_LOCAL then etr s
     else if att \<ge> c_nattachments (sys_config (sys s)) then Some (ET_ERROR, s)
     else if et_alive e = 0 then Some (ET_ERROR_DEAD, s)
     else let a = nat att; s = (if cleanup e \<noteq> 1 then station_lock s else s) in
     if at_stat (attach (sys s) a) < 0 then Some (ET_ERROR, station_unlock s)
     else do {
       let n = nat (at_stat (attach (sys s) a));
       let s = (if cleanup e \<noteq> 1 then system_lock s else s);
       let s = upd_attach a (\<lambda>t. t\<lparr>at_num := - 1, at_status := ET_ATT_UNUSED\<rparr>) s;
       let s = upd_sys (\<lambda>y. y\<lparr>nattachments := nattachments y - 1\<rparr>) s;
       s \<leftarrow> make_idle e a n s;
       (_, s) \<leftarrow> et_restore_events e att n s;
       let s = leave_station a n s;
       if cleanup e \<noteq> 1 then do {
         let s = station_unlock s;
         s \<leftarrow> (if id_proc e \<noteq> ET_SYS
              then upd_proc (id_proc e) (\<lambda>p. p\<lparr>pr_nattachments := pr_nattachments p - 1,
                     pr_att := (pr_att p)(a := - 1)\<rparr>) s
              else Some s);
         Some (ET_OK, system_unlock s) }
       else Some (ET_OK, s) })"

section \<open>Moving a station\<close>

text \<open>\<^verbatim>\<open>station_find\<close> may fail and leave the old position undefined; it is used only to put the station back.\<close>

definition et_station_setposition :: "et_id \<Rightarrow> int op \<Rightarrow> int \<Rightarrow> int \<Rightarrow> int \<Rightarrow> int op" where
  "et_station_setposition e etr stat_id pos ppos s =
    (if stat_id < 0 then Some (ET_ERROR, s)
     else if stat_id = ET_GRANDCENTRAL then (if pos = 0 then Some (ET_OK, s) else Some (ET_ERROR, s))
     else if pos \<noteq> ET_END \<and> pos < 0 then Some (ET_ERROR, s)
     else if pos = 0 then Some (ET_ERROR, s)
     else if ppos \<noteq> ET_END \<and> ppos \<noteq> ET_NEWHEAD \<and> ppos < 0 then Some (ET_ERROR, s)
     else if locality e \<noteq> ET_LOCAL then etr s
     else if stat_id \<ge> c_nstations (sys_config (sys s)) then Some (ET_ERROR, s)
     else if et_alive e = 0 then Some (ET_ERROR_DEAD, s)
     else let n = nat stat_id; s = station_lock s in
     if status (st_data (stats s n)) \<noteq> ET_STATION_IDLE \<and> status (st_data (stats s n)) \<noteq> ET_STATION_ACTIVE
       then Some (ET_ERROR, station_unlock s)
     else do {
       let s = et_transfer_lock_all s;
       (_, old) \<leftarrow> station_find n s;
       s \<leftarrow> station_remove n s;
       (err, s) \<leftarrow> station_insert n pos ppos s;
       s \<leftarrow> (if err \<noteq> ET_OK then do {
               (p, pp) \<leftarrow> old;
               (_, s) \<leftarrow> station_insert n p pp s;
               Some s }
            else Some s);
       Some (err, station_unlock (et_transfer_unlock_all s)) })"

definition et_station_getposition ::
  "et_id \<Rightarrow> (int \<times> int option \<times> int option) op \<Rightarrow> int \<Rightarrow> (int \<times> int option \<times> int option) op" where
  "et_station_getposition e etr stat_id s =
    (if stat_id < 0 then Some ((ET_ERROR, None, None), s)
     else if stat_id = ET_GRANDCENTRAL then Some ((ET_OK, Some 0, None), s)
     else if locality e \<noteq> ET_LOCAL then etr s
     else if stat_id \<ge> c_nstations (sys_config (sys s)) then Some ((ET_ERROR, None, None), s)
     else if et_alive e = 0 then Some ((ET_ERROR_DEAD, None, None), s)
     else let n = nat stat_id; s = station_lock s in
     if status (st_data (stats s n)) \<noteq> ET_STATION_IDLE \<and> status (st_data (stats s n)) \<noteq> ET_STATION_ACTIVE
       then Some ((ET_ERROR, None, None), station_unlock s)
     else do {
       let s = et_transfer_lock_all s;
       (err, w) \<leftarrow> station_find n s;
       Some ((err, map_option fst w, map_option snd w), station_unlock (et_transfer_unlock_all s)) })"

definition et_station_isattached :: "et_id \<Rightarrow> int \<Rightarrow> int \<Rightarrow> int \<Rightarrow> et_shm \<Rightarrow> int" where
  "et_station_isattached e etr stat_id att s =
    (if locality e = ET_REMOTE then etr
     else if stat_id < 0 \<or> stat_id \<ge> c_nstations (sys_config (sys s)) then ET_ERROR
     else if att < 0 \<or> att \<ge> c_nattachments (sys_config (sys s)) then ET_ERROR
     else if et_alive e = 0 then ET_ERROR_DEAD
     else if st_att (st_data (stats s (nat stat_id))) (nat att) = att then 1 else 0)"

end
