(* ===== verification/EtStationConf.thy ===== *)
theory EtStationConf imports EtStationOps begin

text \<open>
  Reading and changing the configuration of a station in use (the second half of
  \<^verbatim>\<open>et_station.c\<close>). \<open>nn\<close> says that the output argument is not NULL, \<open>etr\<close> is the result of the
  remote client. The lemmas show which setters keep a configuration that passes
  \<^verbatim>\<open>et_station_config_check\<close> valid and which do not.
\<close>

section \<open>Getters\<close>

text \<open>The getters that want a station in use, and those that do not look at its status.\<close>

definition station_get_any ::
  "et_id \<Rightarrow> int \<times> 'a option \<Rightarrow> int \<Rightarrow> bool \<Rightarrow> (et_station \<Rightarrow> 'a) \<Rightarrow> et_shm \<Rightarrow> int \<times> 'a option" where
  "station_get_any e etr stat_id nn f s =
    (if locality e = ET_REMOTE then etr
     else if stat_id < 0 \<or> stat_id \<ge> c_nstations (sys_config (sys s)) then (ET_ERROR, None)
     else if et_alive e = 0 then (ET_ERROR_DEAD, None)
     else (ET_OK, if nn then Some (f (stats s (nat stat_id))) else None))"

definition station_get ::
  "et_id \<Rightarrow> int \<times> 'a option \<Rightarrow> int \<Rightarrow> bool \<Rightarrow> (et_station \<Rightarrow> 'a) \<Rightarrow> et_shm \<Rightarrow> int \<times> 'a option" where
  "station_get e etr stat_id nn f s =
    (if locality e = ET_REMOTE then etr
     else if stat_id < 0 \<or> stat_id \<ge> c_nstations (sys_config (sys s)) then (ET_ERROR, None)
     else if et_alive e = 0 then (ET_ERROR_DEAD, None)
     else if status (st_data (stats s (nat stat_id))) = ET_STATION_UNUSED then (ET_ERROR, None)
     else (ET_OK, if nn then Some (f (stats s (nat stat_id))) else None))"

definition et_station_getattachments where
  "et_station_getattachments e etr i nn s = station_get e etr i nn (\<lambda>ps. st_nattachments (st_data ps)) s"

definition et_station_getstatus where
  "et_station_getstatus e etr i nn s = station_get_any e etr i nn (\<lambda>ps. status (st_data ps)) s"

definition et_station_getinputcount where
  "et_station_getinputcount e etr i nn s = station_get_any e etr i nn (\<lambda>ps. cnt (list_in ps)) s"

definition et_station_getoutputcount where
  "et_station_getoutputcount e etr i nn s = station_get_any e etr i nn (\<lambda>ps. cnt (list_out ps)) s"

definition et_station_getblock where
  "et_station_getblock e etr i nn s = station_get e etr i nn (\<lambda>ps. block_mode (config ps)) s"

definition et_station_getuser where
  "et_station_getuser e etr i nn s = station_get e etr i nn (\<lambda>ps. user_mode (config ps)) s"

definition et_station_getrestore where
  "et_station_getrestore e etr i nn s = station_get e etr i nn (\<lambda>ps. restore_mode (config ps)) s"

definition et_station_getprescale where
  "et_station_getprescale e etr i nn s = station_get e etr i nn (\<lambda>ps. prescale (config ps)) s"

definition et_station_getcue where
  "et_station_getcue e etr i nn s = station_get e etr i nn (\<lambda>ps. cue (config ps)) s"

definition et_station_getselectwords where
  "et_station_getselectwords e etr i nn s =
     station_get e etr i nn (\<lambda>ps. take ET_STATION_SELECT_INTS (sc_select (config ps))) s"

definition et_station_getselect where
  "et_station_getselect e etr i nn s = station_get e etr i nn (\<lambda>ps. select_mode (config ps)) s"

definition et_station_getlib where
  "et_station_getlib e etr i nn s = (if lang e = ET_LANG_JAVA then (ET_ERROR, None)
     else station_get e etr i nn (\<lambda>ps. sc_lib (config ps)) s)"

definition et_station_getclass where
  "et_station_getclass e etr i nn s = (if lang e \<noteq> ET_LANG_JAVA then (ET_ERROR, None)
     else station_get e etr i nn (\<lambda>ps. classs (config ps)) s)"

definition et_station_getfunction where
  "et_station_getfunction e etr i nn s = (if lang e = ET_LANG_JAVA then (ET_ERROR, None)
     else station_get e etr i nn (\<lambda>ps. fname (config ps)) s)"

section \<open>Setters\<close>

definition set_config :: "nat \<Rightarrow> (et_stat_config \<Rightarrow> et_stat_config) \<Rightarrow> et_shm \<Rightarrow> et_shm" where
  "set_config n f s = station_unlock (upd_station n (\<lambda>ps. ps\<lparr>config := f (config ps)\<rparr>) (station_lock s))"

text \<open>The setters that also hold the lock of the station's input list.\<close>

definition set_config_locked :: "nat \<Rightarrow> (et_stat_config \<Rightarrow> et_stat_config) \<Rightarrow> et_shm \<Rightarrow> et_shm" where
  "set_config_locked n f s = station_unlock (in_unlock n
     (upd_station n (\<lambda>ps. ps\<lparr>config := f (config ps)\<rparr>) (in_lock n (station_lock s))))"

definition et_station_setblock :: "et_id \<Rightarrow> int op \<Rightarrow> int \<Rightarrow> int \<Rightarrow> int op" where
  "et_station_setblock e etr stat_id block s =
    (if stat_id = ET_GRANDCENTRAL then Some (ET_ERROR, s)
     else if block \<noteq> ET_STATION_BLOCKING \<and> block \<noteq> ET_STATION_NONBLOCKING then Some (ET_ERROR, s)
     else if locality e \<noteq> ET_LOCAL then etr s
     else if stat_id < 0 \<or> stat_id \<ge> c_nstations (sys_config (sys s)) then Some (ET_ERROR, s)
     else let c = config (stats s (nat stat_id)) in
     if (select_mode c = ET_STATION_SELECT_RROBIN \<or> select_mode c = ET_STATION_SELECT_EQUALCUE) \<and>
        block = ET_STATION_NONBLOCKING then Some (ET_ERROR, s)
     else if et_alive e = 0 then Some (ET_ERROR_DEAD, s)
     else Some (ET_OK, set_config (nat stat_id) (\<lambda>c. c\<lparr>block_mode := block\<rparr>) s))"

definition et_station_setuser :: "et_id \<Rightarrow> int op \<Rightarrow> int \<Rightarrow> int \<Rightarrow> int op" where
  "et_station_setuser e etr stat_id user s =
    (if stat_id = ET_GRANDCENTRAL then Some (ET_ERROR, s)
     else if user < 0 then Some (ET_ERROR, s)
     else if locality e \<noteq> ET_LOCAL then etr s
     else if stat_id < 0 \<or> stat_id \<ge> c_nstations (sys_config (sys s)) then Some (ET_ERROR, s)
     else if et_alive e = 0 then Some (ET_ERROR_DEAD, s)
     else Some (ET_OK, set_config (nat stat_id) (\<lambda>c. c\<lparr>user_mode := user\<rparr>) s))"

definition et_station_setrestore :: "et_id \<Rightarrow> int op \<Rightarrow> int \<Rightarrow> int \<Rightarrow> int op" where
  "et_station_setrestore e etr stat_id restore s =
    (if stat_id = ET_GRANDCENTRAL then Some (ET_ERROR, s)
     else if restore \<noteq> ET_STATION_RESTORE_OUT \<and> restore \<noteq> ET_STATION_RESTORE_IN \<and>
             restore \<noteq> ET_STATION_RESTORE_GC then Some (ET_ERROR, s)
     else if locality e \<noteq> ET_LOCAL then etr s
     else if stat_id < 0 \<or> stat_id \<ge> c_nstations (sys_config (sys s)) then Some (ET_ERROR, s)
     else let c = config (stats s (nat stat_id)) in
     if (select_mode c = ET_STATION_SELECT_RROBIN \<or> select_mode c = ET_STATION_SELECT_EQUALCUE) \<and>
        restore = ET_STATION_RESTORE_IN then Some (ET_ERROR, s)
     else if et_alive e = 0 then Some (ET_ERROR_DEAD, s)
     else Some (ET_OK, set_config (nat stat_id) (\<lambda>c. c\<lparr>restore_mode := restore\<rparr>) s))"

definition et_station_setprescale :: "et_id \<Rightarrow> int op \<Rightarrow> int \<Rightarrow> int \<Rightarrow> int op" where
  "et_station_setprescale e etr stat_id pre s =
    (if stat_id = ET_GRANDCENTRAL then Some (ET_ERROR, s)
     else if pre < 1 then Some (ET_ERROR, s)
     else if locality e \<noteq> ET_LOCAL then etr s
     else if stat_id < 0 \<or> stat_id \<ge> c_nstations (sys_config (sys s)) then Some (ET_ERROR, s)
     else let c = config (stats s (nat stat_id)) in
     if (select_mode c = ET_STATION_SELECT_RROBIN \<or> select_mode c = ET_STATION_SELECT_EQUALCUE) \<and>
        pre \<noteq> 1 then Some (ET_ERROR, s)
     else if et_alive e = 0 then Some (ET_ERROR_DEAD, s)
     else Some (ET_OK, set_config_locked (nat stat_id) (\<lambda>c. c\<lparr>prescale := pre\<rparr>) s))"

definition et_station_setcue :: "et_id \<Rightarrow> int op \<Rightarrow> int \<Rightarrow> int \<Rightarrow> int op" where
  "et_station_setcue e etr stat_id cu s =
    (if stat_id = ET_GRANDCENTRAL then Some (ET_ERROR, s)
     else if locality e \<noteq> ET_LOCAL then etr s
     else if stat_id < 0 \<or> stat_id \<ge> c_nstations (sys_config (sys s)) then Some (ET_ERROR, s)
     else if cu < 1 \<or> cu > nevents_max s then Some (ET_ERROR, s)
     else if et_alive e = 0 then Some (ET_ERROR_DEAD, s)
     else Some (ET_OK, set_config_locked (nat stat_id) (\<lambda>c. c\<lparr>cue := cu\<rparr>) s))"

definition et_station_setselectwords :: "et_id \<Rightarrow> int op \<Rightarrow> int \<Rightarrow> i32 list \<Rightarrow> int op" where
  "et_station_setselectwords e etr stat_id sel s =
    (if stat_id = ET_GRANDCENTRAL then Some (ET_ERROR, s)
     else if locality e \<noteq> ET_LOCAL then etr s
     else if stat_id < 0 \<or> stat_id \<ge> c_nstations (sys_config (sys s)) then Some (ET_ERROR, s)
     else if et_alive e = 0 then Some (ET_ERROR_DEAD, s)
     else Some (ET_OK, set_config_locked (nat stat_id)
       (\<lambda>c. c\<lparr>sc_select := copy_ints ET_STATION_SELECT_INTS sel (sc_select c)\<rparr>) s))"

section \<open>Properties\<close>

lemma set_config_simps [simp]:
  "config (stats (set_config n f s) m) = (if m = n then f (config (stats s m)) else config (stats s m))"
  "config (stats (set_config_locked n f s) m) = (if m = n then f (config (stats s m)) else config (stats s m))"
  "sys_config (sys (set_config n f s)) = sys_config (sys s)"
  "sys_config (sys (set_config_locked n f s)) = sys_config (sys s)"
  by (auto simp: set_config_def set_config_locked_def station_lock_def station_unlock_def in_lock_def
      in_unlock_def et_station_lock_def et_station_unlock_def)

text \<open>All stations but GrandCentral have a consistent configuration.\<close>

definition configs_ok :: "et_shm \<Rightarrow> bool" where
  "configs_ok s \<longleftrightarrow> (\<forall>n. 0 < n \<and> int n < c_nstations (sys_config (sys s)) \<longrightarrow>
     et_station_config_check (c_nattachments (sys_config (sys s))) (nevents_max s) (config (stats s n)) = ET_OK)"

lemma configs_ok_upd:
  assumes "configs_ok s"
    and "et_station_config_check (c_nattachments (sys_config (sys s))) (nevents_max s) (config (stats s n)) = ET_OK \<Longrightarrow>
      et_station_config_check (c_nattachments (sys_config (sys s))) (nevents_max s) (f (config (stats s n))) = ET_OK"
  shows "configs_ok (set_config n f s)" "configs_ok (set_config_locked n f s)"
  using assms by (auto simp: configs_ok_def)

lemma check_setters:
  assumes "et_station_config_check na ne c = ET_OK"
  shows "1 \<le> pre \<Longrightarrow> (select_mode c \<in> {ET_STATION_SELECT_RROBIN, ET_STATION_SELECT_EQUALCUE} \<longrightarrow> pre = 1) \<Longrightarrow>
      et_station_config_check na ne (c\<lparr>prescale := pre\<rparr>) = ET_OK"
    and "1 \<le> cu \<Longrightarrow> cu \<le> ne \<Longrightarrow> et_station_config_check na ne (c\<lparr>cue := cu\<rparr>) = ET_OK"
    and "et_station_config_check na ne (c\<lparr>sc_select := sel\<rparr>) = ET_OK"
    and "rs \<in> {ET_STATION_RESTORE_OUT, ET_STATION_RESTORE_IN, ET_STATION_RESTORE_GC} \<Longrightarrow>
      (select_mode c \<in> {ET_STATION_SELECT_RROBIN, ET_STATION_SELECT_EQUALCUE} \<longrightarrow> rs \<noteq> ET_STATION_RESTORE_IN) \<Longrightarrow>
      et_station_config_check na ne (c\<lparr>restore_mode := rs\<rparr>) = ET_OK"
  using assms by (simp_all add: check_cases split: if_splits) (elim disjE; simp)+

lemma configs_ok_setters:
  assumes "configs_ok s" "locality e = ET_LOCAL"
  shows "et_station_setprescale e etr i pre s = Some (st, s') \<Longrightarrow> configs_ok s'"
    and "et_station_setcue e etr i cu s = Some (st, s') \<Longrightarrow> configs_ok s'"
    and "et_station_setselectwords e etr i sel s = Some (st, s') \<Longrightarrow> configs_ok s'"
    and "et_station_setrestore e etr i rs s = Some (st, s') \<Longrightarrow> configs_ok s'"
proof -
  show "et_station_setprescale e etr i pre s = Some (st, s') \<Longrightarrow> configs_ok s'"
    using assms by (auto simp: et_station_setprescale_def Let_def split: if_splits
        intro!: configs_ok_upd(2) check_setters(1))
  show "et_station_setcue e etr i cu s = Some (st, s') \<Longrightarrow> configs_ok s'"
    using assms by (auto simp: et_station_setcue_def Let_def split: if_splits
        intro!: configs_ok_upd(2) check_setters(2))
  show "et_station_setselectwords e etr i sel s = Some (st, s') \<Longrightarrow> configs_ok s'"
    using assms by (auto simp: et_station_setselectwords_def Let_def split: if_splits
        intro!: configs_ok_upd(2) check_setters(3))
  show "et_station_setrestore e etr i rs s = Some (st, s') \<Longrightarrow> configs_ok s'"
    using assms by (auto simp: et_station_setrestore_def Let_def split: if_splits
        intro!: configs_ok_upd(1) check_setters(4))
qed

end
