(* ===== verification/EtSelect.thy ===== *)
theory EtSelect imports EtStationOps "HOL-Library.Sublist" begin

text \<open>
  How a conductor chooses the events for a station (\<^verbatim>\<open>et_conductor\<close> in \<^verbatim>\<open>et_system.c\<close>): the selection
  routine \<^verbatim>\<open>et_condition\<close>, the prescale and the room in a nonblocking station's input list, the
  round-robin and the equal-cue distribution over a group of parallel stations, and \<^verbatim>\<open>shellSort\<close>.

  \<open>all\<close> is the array \<^verbatim>\<open>allevents\<close>, \<open>put\<close> the array \<^verbatim>\<open>event_put\<close> of flags, of the same length.
\<close>

section \<open>The events still to be put\<close>

definition unput :: "nat list \<Rightarrow> bool list \<Rightarrow> nat list" where
  "unput all put = map fst (filter (\<lambda>(p, b). \<not> b) (zip all put))"

lemma unput_simps [simp]:
  "unput [] put = []" "unput all [] = []"
  "unput (p # all) (b # put) = (if b then unput all put else p # unput all put)"
  by (simp_all add: unput_def)

lemma unput_none: "unput all (replicate (length all) False) = all"
  by (induction all) auto

lemma subseq_unput: "subseq (unput all put) all"
  by (induction all put rule: list_induct2') auto

section \<open>Matching an event with a station's selection words\<close>

definition et_condition :: "et_shm \<Rightarrow> nat \<Rightarrow> et_event \<Rightarrow> bool" where
  "et_condition s stat_id pe =
     (let ps = stats s stat_id in
      fold (\<lambda>i result.
        if i mod 2 = 0 then
          result \<or> (sc_select (config ps) ! i \<noteq> - 1 \<and> sc_select (config ps) ! i = control pe ! i)
        else
          result \<or> (sc_select (config ps) ! i \<noteq> - 1 \<and> sc_select (config ps) ! i AND control pe ! i \<noteq> 0))
      [0..<ET_STATION_SELECT_INTS] False)"

lemma et_condition_iff:
  "et_condition s n pe \<longleftrightarrow> (let sel = sc_select (config (stats s n)) in
     (\<exists>i\<in>{0, 2, 4}. sel ! i \<noteq> - 1 \<and> sel ! i = control pe ! i) \<or>
     (\<exists>i\<in>{1, 3, 5}. sel ! i \<noteq> - 1 \<and> sel ! i AND control pe ! i \<noteq> 0))"
proof -
  have "[0..<6] = [0, 1, 2, 3, 4, 5::nat]" by (simp add: upt_rec)
  then show ?thesis by (simp add: et_condition_def Let_def) blast
qed

section \<open>Choosing the events for one station\<close>

text \<open>
  The loop of a blocking station: of the events not put yet and selected, every \<open>pre\<close>-th by the
  count \<open>try\<close> of the list's tries. The result is the events to put, the new flags and the new count.
\<close>

fun take_prescaled ::
  "(nat \<Rightarrow> bool) \<Rightarrow> int \<Rightarrow> nat list \<Rightarrow> bool list \<Rightarrow> u64 \<Rightarrow> nat list \<times> bool list \<times> u64" where
  "take_prescaled sel pre (p # all) (b # put) tries =
     (if b then (let (ps, put, t) = take_prescaled sel pre all put tries in (ps, True # put, t))
      else if sel p then
        (let (ps, put, t) = take_prescaled sel pre all put (tries + 1)
         in if tries mod of_int pre = 0 then (p # ps, True # put, t) else (ps, False # put, t))
      else (let (ps, put, t) = take_prescaled sel pre all put tries in (ps, False # put, t)))"
| "take_prescaled sel pre _ put tries = ([], put, tries)"

text \<open>The loop of a nonblocking station with room for \<open>j\<close> events; it is entered with \<open>j > 0\<close>.\<close>

fun take_room :: "(nat \<Rightarrow> bool) \<Rightarrow> int \<Rightarrow> nat list \<Rightarrow> bool list \<Rightarrow> nat list \<times> bool list" where
  "take_room sel j (p # all) (b # put) =
     (if b then (let (ps, put) = take_room sel j all put in (ps, True # put))
      else if sel p then
        (if j - 1 = 0 then ([p], True # put)
         else let (ps, put) = take_room sel (j - 1) all put in (p # ps, True # put))
      else (let (ps, put) = take_room sel j all put in (ps, False # put)))"
| "take_room sel j _ put = ([], put)"

section \<open>Round-robin\<close>

text \<open>
  \<open>rr_shares\<close> is the array \<^verbatim>\<open>numEvents\<close> for \<open>left\<close> events and \<open>n\<close> active stations, \<open>rr_last\<close> the
  index of the station that gets the last event.
\<close>

definition rr_shares :: "int \<Rightarrow> nat \<Rightarrow> int list" where
  "rr_shares left n = (let num = left div int n; extra = left mod int n in
     map (\<lambda>i. if int i < extra then num + 1 else num) [0..<n])"

definition rr_last :: "int \<Rightarrow> nat \<Rightarrow> int" where
  "rr_last left n = (let extra = left mod int n in if extra = 0 then int n - 1 else extra - 1)"

text \<open>Regrouping the events when all of them go into the group: every \<open>n\<close>-th from the \<open>i\<close>-th on.\<close>

definition rr_first :: "nat list \<Rightarrow> int list \<Rightarrow> nat list" where
  "rr_first all shares = (let n = length shares in
     concat (map (\<lambda>i. map (\<lambda>j. all ! (i + j * n)) [0..<nat (shares ! i)]) [0..<n]))"

text \<open>
  Regrouping when some events may have been put before. The scan for the \<open>i\<close>-th station starts at
  the \<open>i\<close>-th place of \<^verbatim>\<open>allevents\<close>. The decrement of \<^verbatim>\<open>numOfEvents\<close> below 0 for a station that is
  to get no event is as in the code: such a scan runs to the end of the array.
\<close>

fun rr_pick :: "int \<Rightarrow> int \<Rightarrow> int \<Rightarrow> (nat \<times> bool) list \<Rightarrow> nat list" where
  "rr_pick n numOfEvents skip [] = []"
| "rr_pick n numOfEvents skip ((p, b) # es) =
     (if b then rr_pick n numOfEvents skip es
      else if skip > 0 then rr_pick n numOfEvents (skip - 1) es
      else p # (if numOfEvents - 1 = 0 then [] else rr_pick n (numOfEvents - 1) (n - 1) es))"

definition rr_later :: "nat list \<Rightarrow> bool list \<Rightarrow> int list \<Rightarrow> nat list" where
  "rr_later all put shares = (let n = length shares in
     concat (map (\<lambda>i. rr_pick (int n) (shares ! i) 0 (drop i (zip all put))) [0..<n]))"

section \<open>Shell sort\<close>

text \<open>
  The arrays \<^verbatim>\<open>a\<close> and \<^verbatim>\<open>b\<close> are one list of pairs; place \<open>i\<close> of the C routine, which counts from 1, is
  place \<open>i - 1\<close> of the list. \<open>sift\<close> is the inner loop with the exit test \<^verbatim>\<open>j <= inc\<close> at its head:
  the loop is entered with \<^verbatim>\<open>j > inc\<close>.
\<close>

function grow_inc :: "nat \<Rightarrow> nat \<Rightarrow> nat" where
  "grow_inc n inc = (let inc = inc * 3 + 1 in if inc \<le> n then grow_inc n inc else inc)"
  by auto
termination by (relation "measure (\<lambda>(n, inc). Suc n - inc)") auto

declare grow_inc.simps [simp del]

function sift :: "nat \<Rightarrow> int \<times> int \<Rightarrow> nat \<Rightarrow> (int \<times> int) list \<Rightarrow> (int \<times> int) list" where
  "sift inc v j xs =
     (if j \<le> inc \<or> inc = 0 then xs[j - 1 := v]
      else if fst (xs ! (j - inc - 1)) > fst v then sift inc v (j - inc) (xs[j - 1 := xs ! (j - inc - 1)])
      else xs[j - 1 := v])"
  by auto
termination by (relation "measure (\<lambda>(inc, v, j, xs). j)") auto

declare sift.simps [simp del]

definition sort_pass :: "nat \<Rightarrow> (int \<times> int) list \<Rightarrow> (int \<times> int) list" where
  "sort_pass inc xs = fold (\<lambda>i xs. sift inc (xs ! (i - 1)) i xs) [inc + 1..<length xs + 1] xs"

function sort_rounds :: "nat \<Rightarrow> (int \<times> int) list \<Rightarrow> (int \<times> int) list" where
  "sort_rounds inc xs = (let inc = inc div 3; xs = sort_pass inc xs in
     if inc > 1 then sort_rounds inc xs else xs)"
  by auto
termination by (relation "measure fst") auto

declare sort_rounds.simps [simp del]

definition shellSort :: "(int \<times> int) list \<Rightarrow> (int \<times> int) list" where
  "shellSort xs = sort_rounds (grow_inc (length xs) 1) xs"

section \<open>Equal-cue\<close>

text \<open>
  \<open>cues\<close> is the sorted array of pairs of \<^verbatim>\<open>inListCount\<close> and \<^verbatim>\<open>place\<close>, \<open>nums\<close> the array
  \<^verbatim>\<open>numEvents\<close>. \<open>same_cue\<close> counts the stations whose cue is at the minimum and finds the next
  higher cue. A division by zero stations is the fault \<open>None\<close>, as is running out of the fuel of one
  round for each station.
\<close>

fun same_cue :: "int \<Rightarrow> int list \<Rightarrow> int \<Rightarrow> (int \<times> int) list \<Rightarrow> nat \<times> int" where
  "same_cue mn nums higher [] = (0, higher)"
| "same_cue mn nums higher ((c, pl) # cs) =
     (if mn = c + nums ! nat (pl - 1) then let (k, hi) = same_cue mn nums higher cs in (Suc k, hi)
      else (0, c))"

definition add_num :: "int \<Rightarrow> int \<Rightarrow> int list \<Rightarrow> int list" where
  "add_num pl x nums = nums[nat (pl - 1) := nums ! nat (pl - 1) + x]"

definition spread :: "int \<Rightarrow> int \<Rightarrow> (int \<times> int) list \<Rightarrow> int list \<Rightarrow> int list" where
  "spread per extra cs nums =
     fold (\<lambda>(i, (c, pl)) nums. add_num pl (if int i < extra then per + 1 else per) nums)
       (enumerate 0 cs) nums"

fun dole :: "nat \<Rightarrow> int \<Rightarrow> (int \<times> int) list \<Rightarrow> int \<Rightarrow> int \<Rightarrow> int \<Rightarrow> int list \<Rightarrow> int list option" where
  "dole 0 left cues mn higher doled nums = (if doled < left then None else Some nums)"
| "dole (Suc k) left cues mn higher doled nums =
     (if doled < left then
        let (same, higher) = same_cue mn nums higher cues in
        if same = length cues \<or> left - doled < (higher - mn) * int same then
          (if same = 0 then None
           else Some (spread ((left - doled) div int same) ((left - doled) mod int same)
                  (take same cues) nums))
        else
          let per = higher - mn;
              nums = fold (\<lambda>(c, pl). add_num pl per) (take same cues) nums
          in dole k left cues higher higher (doled + per * int same) nums
      else Some nums)"

text \<open>The array \<^verbatim>\<open>numEvents\<close> for stations with \<open>counts\<close> events in their input lists.\<close>

definition eq_shares :: "int \<Rightarrow> int list \<Rightarrow> int list option" where
  "eq_shares left counts =
     (let cues = shellSort (zip counts [1..int (length counts)]) in
      dole (length counts) left cues (fst (hd cues)) 0 0 (replicate (length counts) 0))"

text \<open>The next \<open>n\<close> events not put yet, when they are not the whole array.\<close>

fun take_unput :: "int \<Rightarrow> nat list \<Rightarrow> bool list \<Rightarrow> nat list \<times> bool list" where
  "take_unput n (p # all) (b # put) =
     (if b then let (ps, put) = take_unput n all put in (ps, True # put)
      else if 1 \<ge> n then ([p], True # put)
      else let (ps, put) = take_unput (n - 1) all put in (p # ps, True # put))"
| "take_unput n _ put = ([], put)"

section \<open>What the choices leave\<close>

text \<open>
  Each choice splits the events not put yet into those chosen and those still not put, both in
  their order.
\<close>

definition splits :: "nat list \<Rightarrow> bool list \<Rightarrow> nat list \<Rightarrow> bool list \<Rightarrow> bool" where
  "splits all put ps put' \<longleftrightarrow> length put' = length put \<and> subseq ps (unput all put) \<and>
     subseq (unput all put') (unput all put) \<and>
     mset (unput all put) = mset ps + mset (unput all put')"

lemma splits_refl [simp]: "splits all put [] put"
  by (simp add: splits_def)

lemma splits_Nil [simp]: "splits [] put [] put" "splits all [] [] []"
  by (simp_all add: splits_def)

lemma splits_Cons [simp]:
  "splits (p # all) (True # put) ps (True # put') \<longleftrightarrow> splits all put ps put'"
  "splits all put ps put' \<Longrightarrow> splits (p # all) (False # put) (p # ps) (True # put')"
  "splits all put ps put' \<Longrightarrow> splits (p # all) (False # put) ps (False # put')"
  by (auto simp: splits_def)

lemma take_prescaled_splits:
  "take_prescaled sel pre all put t = (ps, put', t') \<Longrightarrow> splits all put ps put'"
proof (induction sel pre all put t arbitrary: ps put' t' rule: take_prescaled.induct)
  case (1 sel pre p all b put tries)
  then show ?case by (cases b) (auto split: prod.splits if_splits)
qed auto

lemma take_room_splits: "take_room sel j all put = (ps, put') \<Longrightarrow> splits all put ps put'"
proof (induction sel j all put arbitrary: ps put' rule: take_room.induct)
  case (1 sel j p all b put)
  then show ?case by (cases b) (auto split: prod.splits if_splits)
qed auto

lemma take_unput_splits: "take_unput n all put = (ps, put') \<Longrightarrow> splits all put ps put'"
proof (induction n all put arbitrary: ps put' rule: take_unput.induct)
  case (1 n p all b put)
  then show ?case by (cases b) (auto split: prod.splits if_splits)
qed auto

text \<open>Which events the choices take.\<close>

lemma take_room_events:
  "0 < j \<Longrightarrow> fst (take_room sel j all put) = take (nat j) (filter sel (unput all put))"
proof (induction sel j all put rule: take_room.induct)
  case (1 sel j p all b put)
  have "nat j = Suc (nat (j - 1))" using 1(4) by simp
  with 1 show ?case by (cases b) (auto split: prod.splits)
qed auto

lemma take_unput_events:
  "0 < n \<Longrightarrow> fst (take_unput n all put) = take (nat n) (unput all put)"
proof (induction n all put rule: take_unput.induct)
  case (1 n p all b put)
  have "nat n = Suc (nat (n - 1))" using 1(3) by simp
  with 1 show ?case by (cases b) (auto split: prod.splits)
qed auto

text \<open>
  The \<open>i\<close>-th selected event is taken when the count of tries before it is a multiple of the prescale.
\<close>

fun every_nth :: "int \<Rightarrow> u64 \<Rightarrow> nat list \<Rightarrow> nat list" where
  "every_nth pre t [] = []"
| "every_nth pre t (p # ps) =
     (if t mod of_int pre = 0 then p # every_nth pre (t + 1) ps else every_nth pre (t + 1) ps)"

lemma take_prescaled_events:
  "take_prescaled sel pre all put t = (ps, put', t') \<Longrightarrow>
    ps = every_nth pre t (filter sel (unput all put)) \<and>
    t' = t + of_nat (length (filter sel (unput all put)))"
proof (induction sel pre all put t arbitrary: ps put' t' rule: take_prescaled.induct)
  case (1 sel pre p all b put tries)
  then show ?case by (cases b) (auto split: prod.splits if_splits)
qed auto

lemma every_nth_1: "every_nth 1 t ps = ps"
  by (induction ps arbitrary: t) auto

section \<open>The round-robin shares\<close>

lemma rr_shares_length [simp]: "length (rr_shares left n) = n"
  by (simp add: rr_shares_def Let_def)

lemma sum_list_if_less:
  "int m \<le> int n \<Longrightarrow> (\<Sum>i\<leftarrow>[0..<n]. if i < m then x + 1 else x) = int n * x + (int m :: int)"
proof (induction n arbitrary: m)
  case (Suc n)
  show ?case
  proof (cases "m = Suc n")
    case True
    have "(\<Sum>i\<leftarrow>[0..<n]. if i < Suc n then x + 1 else x) = (\<Sum>i\<leftarrow>[0..<n]. x + 1)"
      by (intro arg_cong[where f = sum_list] map_cong) auto
    then show ?thesis using True by (simp add: sum_list_triv algebra_simps)
  next
    case False
    then show ?thesis using Suc by (simp add: algebra_simps)
  qed
qed simp

lemma rr_shares_sum:
  assumes "0 < n" "0 \<le> left"
  shows "sum_list (rr_shares left n) = left"
proof -
  have m: "left mod int n < int n" "0 \<le> left mod int n" using assms by simp_all
  have "rr_shares left n = map (\<lambda>i. if i < nat (left mod int n) then left div int n + 1 else left div int n) [0..<n]"
    using m by (auto simp: rr_shares_def Let_def)
  then show ?thesis using sum_list_if_less[of "nat (left mod int n)" n "left div int n"] m by simp
qed

lemma rr_shares_fair:
  assumes "0 < n" "0 \<le> left" "x \<in> set (rr_shares left n)"
  shows "x = left div int n \<or> x = left div int n + 1" "0 \<le> x"
  using assms by (auto simp: rr_shares_def Let_def pos_imp_zdiv_nonneg_iff split: if_splits)

end
