(* ===== verification/EtShare.thy ===== *)
theory EtShare imports EtSelect "HOL-Library.Multiset" begin

text \<open>
  Correctness of the distribution over a group of parallel stations: \<^verbatim>\<open>shellSort\<close> sorts and
  permutes, round-robin deals every event once, and the equal-cue shares add up to the number of
  events and level the input lists.
\<close>

section \<open>Shell sort\<close>

lemma sift_length [simp]: "length (sift inc v j xs) = length xs"
proof (induction inc v j xs rule: sift.induct)
  case (1 inc v j xs)
  then show ?case by (subst sift.simps) auto
qed

lemma mset_move:
  assumes "i < length xs" "j < length xs"
  shows "mset (xs[j := xs ! i, i := v]) = mset (xs[j := v])"
proof (cases "i = j")
  case False
  let ?ys = "xs[j := v]"
  have "xs[j := xs ! i, i := v] = ?ys[j := ?ys ! i, i := ?ys ! j]"
    using assms False by (simp add: list_update_swap)
  then show ?thesis using mset_swap[of i ?ys j] assms by (metis length_list_update)
qed (use assms in simp)

lemma sift_mset: "0 < j \<Longrightarrow> j \<le> length xs \<Longrightarrow> mset (sift inc v j xs) = mset (xs[j - 1 := v])"
proof (induction inc v j xs rule: sift.induct)
  case (1 inc v j xs)
  show ?case
  proof (cases "\<not> (j \<le> inc \<or> inc = 0) \<and> fst (xs ! (j - inc - 1)) > fst v")
    case True
    let ?xs = "xs[j - 1 := xs ! (j - inc - 1)]"
    have "sift inc v j xs = sift inc v (j - inc) ?xs" using True by (subst sift.simps) simp
    also have "mset \<dots> = mset (?xs[j - inc - 1 := v])" using 1 True by auto
    also have "\<dots> = mset (xs[j - 1 := v])" using 1(2,3) True by (intro mset_move) auto
    finally show ?thesis .
  qed (subst sift.simps, auto)
qed

lemma sort_pass_mset:
  "length (sort_pass inc xs) = length xs" "mset (sort_pass inc xs) = mset xs"
proof -
  have "length (fold (\<lambda>i xs. sift inc (xs ! (i - 1)) i xs) [inc + 1..<n] xs) = length xs \<and>
    mset (fold (\<lambda>i xs. sift inc (xs ! (i - 1)) i xs) [inc + 1..<n] xs) = mset xs"
    if "n \<le> length xs + 1" for n
    using that
  proof (induction n)
    case (Suc n)
    then show ?case by (cases "inc + 1 \<le> n") (simp_all add: sift_mset)
  qed simp
  from this[of "length xs + 1"] show "length (sort_pass inc xs) = length xs"
    "mset (sort_pass inc xs) = mset xs" by (simp_all add: sort_pass_def del: upt_Suc)
qed

lemma sort_rounds_mset: "mset (sort_rounds inc xs) = mset xs"
proof (induction inc xs rule: sort_rounds.induct)
  case (1 inc xs)
  then show ?case by (subst sort_rounds.simps) (simp add: Let_def sort_pass_mset)
qed

lemma shellSort_mset: "mset (shellSort xs) = mset xs"
  by (simp add: shellSort_def sort_rounds_mset)

text \<open>With increment 1 a pass is an insertion sort.\<close>

abbreviation le_fst :: "int \<times> int \<Rightarrow> int \<times> int \<Rightarrow> bool" where
  "le_fst x y \<equiv> fst x \<le> fst y"

lemma sift_1:
  "sorted_wrt le_fst (take m xs) \<Longrightarrow> m < length xs \<Longrightarrow>
    sorted_wrt le_fst (take (Suc m) (sift (Suc 0) v (Suc m) xs)) \<and>
    set (take (Suc m) (sift (Suc 0) v (Suc m) xs)) = insert v (set (take m xs))"
proof (induction m arbitrary: xs)
  case 0
  then show ?case by (subst sift.simps, subst (2) sift.simps) (cases xs; simp)
next
  case (Suc m)
  have tk: "take (Suc m) xs = take m xs @ [xs ! m]" using Suc.prems(2) by (simp add: take_Suc_conv_app_nth)
  then have sw: "sorted_wrt le_fst (take m xs)" "\<forall>x\<in>set (take m xs). le_fst x (xs ! m)"
    using Suc.prems(1) by (simp_all add: sorted_wrt_append)
  show ?case
  proof (cases "fst (xs ! m) > fst v")
    case True
    let ?xs = "xs[Suc m := xs ! m]"
    have e: "sift (Suc 0) v (Suc (Suc m)) xs = sift (Suc 0) v (Suc m) ?xs" using True by (subst sift.simps) simp
    have ih: "sorted_wrt le_fst (take (Suc m) (sift (Suc 0) v (Suc m) ?xs))"
      "set (take (Suc m) (sift (Suc 0) v (Suc m) ?xs)) = insert v (set (take m xs))"
      using Suc.IH[of ?xs] sw(1) Suc.prems(2) by simp_all
    have keep: "sift (Suc 0) v j ys ! k = ys ! k" if "0 < j" "j \<le> k" for j ys k
      using that by (induction "Suc 0" v j ys rule: sift.induct) (subst sift.simps, auto)
    have "take (Suc (Suc m)) (sift (Suc 0) v (Suc m) ?xs) = take (Suc m) (sift (Suc 0) v (Suc m) ?xs) @ [xs ! m]"
      using Suc.prems(2) keep[of "Suc m" "Suc m" ?xs] by (simp add: take_Suc_conv_app_nth)
    then show ?thesis using ih sw(2) True tk by (auto simp: e sorted_wrt_append)
  next
    case False
    have e: "sift (Suc 0) v (Suc (Suc m)) xs = xs[Suc m := v]" using False by (subst sift.simps) simp
    have "take (Suc (Suc m)) (xs[Suc m := v]) = take (Suc m) xs @ [v]"
      using Suc.prems(2) by (simp add: take_Suc_conv_app_nth)
    then show ?thesis using Suc.prems(1) sw(2) False tk by (auto simp: e sorted_wrt_append)
  qed
qed

lemma sort_pass_1: "sorted_wrt le_fst (sort_pass 1 xs)"
proof -
  let ?f = "\<lambda>n. fold (\<lambda>i xs. sift (Suc 0) (xs ! (i - 1)) i xs) [Suc (Suc 0)..<n] xs"
  have "length (?f (Suc n)) = length xs \<and> sorted_wrt le_fst (take n (?f (Suc n)))"
    if "n \<le> length xs" for n
    using that
  proof (induction n)
    case (Suc n)
    show ?case
    proof (cases n)
      case 0
      then show ?thesis using Suc.prems by (cases xs) auto
    next
      case (Suc k)
      have "?f (Suc (Suc n)) = sift (Suc 0) (?f (Suc n) ! n) (Suc n) (?f (Suc n))" using Suc by simp
      then show ?thesis using Suc.IH Suc.prems sift_1[of n "?f (Suc n)"] by simp
    qed
  qed simp
  from this[of "length xs"] have "length (?f (Suc (length xs))) = length xs"
    "sorted_wrt le_fst (take (length xs) (?f (Suc (length xs))))" by blast+
  then have "sorted_wrt le_fst (?f (Suc (length xs)))" by (simp del: upt_Suc)
  then show ?thesis by (simp add: sort_pass_def del: upt_Suc)
qed

text \<open>The increments 1, 4, 13, ...; the last round has increment 1.\<close>

inductive shell_inc :: "nat \<Rightarrow> bool" where
  first_inc: "shell_inc 1"
| next_inc: "shell_inc k \<Longrightarrow> shell_inc (k * 3 + 1)"

lemma grow_inc_shell: "shell_inc inc \<Longrightarrow> \<exists>k. shell_inc k \<and> grow_inc n inc = k * 3 + 1"
proof (induction n inc rule: grow_inc.induct)
  case (1 n inc)
  then show ?case using next_inc[of inc]
    by (subst grow_inc.simps) (auto simp: Let_def simp del: One_nat_def)
qed

lemma sort_rounds_sorted: "shell_inc k \<Longrightarrow> sorted_wrt le_fst (sort_rounds (k * 3 + 1) xs)"
proof (induction k arbitrary: xs rule: shell_inc.induct)
  case first_inc
  show ?case by (subst sort_rounds.simps) (simp add: sort_pass_1[unfolded One_nat_def])
next
  case (next_inc k)
  have "0 < k" using next_inc(1) by (induction rule: shell_inc.induct) auto
  moreover have "((k * 3 + 1) * 3 + 1) div 3 = k * 3 + 1" by presburger
  ultimately show ?case using next_inc by (subst sort_rounds.simps) (simp only: Let_def, simp)
qed

lemma shellSort_sorted: "sorted_wrt le_fst (shellSort xs)"
  using grow_inc_shell[OF first_inc, of "length xs"] sort_rounds_sorted
  by (auto simp: shellSort_def)

section \<open>Round-robin\<close>

text \<open>The events of the \<open>i\<close>-th of \<open>n\<close> stations when \<open>es\<close> is dealt like a pack of cards.\<close>

definition rr_hand :: "nat list \<Rightarrow> nat \<Rightarrow> nat \<Rightarrow> nat list" where
  "rr_hand es n i = map (\<lambda>j. es ! (i + j * n)) [0..<nat (rr_shares (int (length es)) n ! i)]"

lemma rr_share_less:
  assumes "i < n"
  shows "j < nat (rr_shares (int len) n ! i) \<longleftrightarrow> i + j * n < len"
proof -
  have e: "len = len div n * n + len mod n" "len mod n < n" using assms by simp_all
  define q r where "q = len div n" and "r = len mod n"
  have len: "len = q * n + r" "r < n" using e by (simp_all add: q_def r_def)
  have sh: "nat (rr_shares (int len) n ! i) = (if i < r then q + 1 else q)"
    using assms by (simp add: rr_shares_def Let_def q_def r_def zmod_int[symmetric] zdiv_int[symmetric]
        nat_add_distrib)
  show ?thesis
  proof (cases "j < q")
    case True
    then have "(j + 1) * n \<le> q * n" by (intro mult_le_mono1) simp
    then show ?thesis using True assms len sh by auto
  next
    case False
    show ?thesis
    proof (cases "j = q")
      case True
      then show ?thesis using assms len sh by auto
    next
      case j: False
      then have "(q + 1) * n \<le> j * n" using False by (intro mult_le_mono1) simp
      then show ?thesis using False j assms len sh by auto
    qed
  qed
qed

lemma distinct_concat_map:
  assumes "distinct is" "\<And>i. i \<in> set is \<Longrightarrow> distinct (f i)"
    "\<And>i j. i \<in> set is \<Longrightarrow> j \<in> set is \<Longrightarrow> i \<noteq> j \<Longrightarrow> set (f i) \<inter> set (f j) = {}"
  shows "distinct (concat (map f is))"
  using assms
proof (induction "is")
  case (Cons i "is")
  then have "set (f i) \<inter> set (f j) = {}" if "j \<in> set is" for j using that by auto
  with Cons show ?case by auto
qed simp

lemma mset_rr_hands:
  assumes "0 < n"
  shows "mset (concat (map (rr_hand es n) [0..<n])) = mset es"
proof -
  let ?f = "\<lambda>i. map (\<lambda>j. i + j * n) [0..<nat (rr_shares (int (length es)) n ! i)]"
  let ?L = "concat (map ?f [0..<n])"
  have "set ?L = {0..<length es}"
  proof (intro equalityI subsetI)
    fix x assume "x \<in> set ?L"
    then show "x \<in> {0..<length es}" by (auto simp: rr_share_less)
  next
    fix x assume x: "x \<in> {0..<length es}"
    have "x div n < nat (rr_shares (int (length es)) n ! (x mod n))"
      using rr_share_less[of "x mod n" n "x div n" "length es"] x assms by simp
    then have "x \<in> set (?f (x mod n))" by (auto intro!: image_eqI[of _ _ "x div n"])
    then show "x \<in> set ?L" using assms by auto
  qed
  moreover have "distinct ?L"
  proof (rule distinct_concat_map)
    fix i j assume "i \<in> set [0..<n]" "j \<in> set [0..<n]" "i \<noteq> j"
    moreover have "x mod n = i" if "x \<in> set (?f i)" "i < n" for x i using that by auto
    ultimately show "set (?f i) \<inter> set (?f j) = {}" by fastforce
  qed (use assms in \<open>auto simp: distinct_map inj_on_def\<close>)
  ultimately have "mset ?L = mset [0..<length es]"
    by (intro iffD1[OF set_eq_iff_mset_eq_distinct[OF _ distinct_upt]]) (simp_all only: set_upt)
  then have "image_mset ((!) es) (mset ?L) = mset (map ((!) es) [0..<length es])" by simp
  also have "image_mset ((!) es) (mset ?L) = mset (concat (map (rr_hand es n) [0..<n]))"
    by (simp add: rr_hand_def[abs_def] mset_map[symmetric] map_concat comp_def del: mset_map)
  finally show ?thesis by (simp add: map_nth)
qed

lemma rr_first_hands:
  "rr_first es (rr_shares (int (length es)) n) = concat (map (rr_hand es n) [0..<n])"
  by (simp add: rr_first_def rr_hand_def[abs_def] Let_def)

lemma rr_hand_length: "length (rr_hand es n i) = nat (rr_shares (int (length es)) n ! i)"
  by (simp add: rr_hand_def)

lemma subseq_nth_map:
  "sorted_wrt (<) is \<Longrightarrow> (\<forall>i\<in>set is. i < length es) \<Longrightarrow> subseq (map ((!) es) is) es"
proof (induction es arbitrary: "is")
  case Nil
  then show ?case by (cases "is") auto
next
  case (Cons e es)
  have shift: "map ((!) (e # es)) js = map ((!) es) (map (\<lambda>i. i - 1) js) \<and>
      sorted_wrt (<) (map (\<lambda>i. i - 1) js) \<and> (\<forall>i\<in>set (map (\<lambda>i. i - 1) js). i < length es)"
    if "sorted_wrt (<) js" "\<forall>i\<in>set js. 0 < i \<and> i < length (e # es)" for js
    using that
  proof (induction js)
    case (Cons j js)
    then show ?case by auto
  qed simp
  show ?case
  proof (cases "\<exists>js. is = 0 # js")
    case True
    then obtain js where js: "is = 0 # js" by blast
    have "subseq (map ((!) es) (map (\<lambda>i. i - 1) js)) es"
      by (rule Cons.IH) (use shift[of js] Cons.prems js in auto)
    moreover have "map ((!) (e # es)) js = map ((!) es) (map (\<lambda>i. i - 1) js)"
      using shift[of js] Cons.prems js by auto
    ultimately show ?thesis using js by (simp del: map_map)
  next
    case False
    then have "\<forall>i\<in>set is. 0 < i" using Cons.prems(1) by (cases "is") auto
    then have sh: "map ((!) (e # es)) is = map ((!) es) (map (\<lambda>i. i - 1) is)"
      "sorted_wrt (<) (map (\<lambda>i. i - 1) is)" "\<forall>i\<in>set (map (\<lambda>i. i - 1) is). i < length es"
      using shift[of "is"] Cons.prems by blast+
    have "subseq (map ((!) es) (map (\<lambda>i. i - 1) is)) es" by (rule Cons.IH) (rule sh)+
    then show ?thesis unfolding sh(1) by (rule list_emb_Cons)
  qed
qed

lemma subseq_rr_hand: "i < n \<Longrightarrow> subseq (rr_hand es n i) es"
proof -
  assume i: "i < n"
  let ?is = "map (\<lambda>j. i + j * n) [0..<nat (rr_shares (int (length es)) n ! i)]"
  have "sorted_wrt (<) ?is" using i by (simp add: sorted_wrt_map sorted_wrt_iff_nth_less)
  moreover have "\<forall>i\<in>set ?is. i < length es" using i by (auto simp: rr_share_less)
  ultimately have "subseq (map ((!) es) ?is) es" by (rule subseq_nth_map)
  then show ?thesis by (simp add: rr_hand_def comp_def)
qed

text \<open>When nothing has been put before, the second way of regrouping gives the same hands.\<close>

lemma rr_pick_none:
  "0 < m \<Longrightarrow> 0 < n \<Longrightarrow> sk + (m - 1) * n < length es \<Longrightarrow>
    rr_pick (int n) (int m) (int sk) (map (\<lambda>p. (p, False)) es) = map (\<lambda>j. es ! (sk + j * n)) [0..<m]"
proof (induction es arbitrary: m sk)
  case (Cons e es)
  show ?case
  proof (cases sk)
    case (Suc k)
    then show ?thesis using Cons.IH[of m k] Cons.prems by simp
  next
    case 0
    have m: "[0..<m] = 0 # map Suc [0..<m - 1]" using Cons.prems(1)
      by (metis Suc_pred' map_Suc_upt upt_conv_Cons)
    show ?thesis
    proof (cases "m = 1")
      case True
      then show ?thesis using 0 by simp
    next
      case False
      have "n - 1 + (m - 1 - 1) * n < length es"
        using 0 Cons.prems False by (cases m; cases "m - 1"; cases n) (auto simp: algebra_simps)
      then have "rr_pick (int n) (int (m - 1)) (int (n - 1)) (map (\<lambda>p. (p, False)) es) =
          map (\<lambda>j. es ! (n - 1 + j * n)) [0..<m - 1]"
        using Cons.IH[of "m - 1" "n - 1"] Cons.prems False by simp
      moreover have "n - 1 + j * n = n + j * n - 1" for j using Cons.prems(2) by simp
      moreover have "0 < n + j * n" for j using Cons.prems(2) by simp
      ultimately show ?thesis using 0 m Cons.prems False
        by (simp add: of_nat_diff nth_Cons' del: upt_Suc)
    qed
  qed
qed simp

lemma rr_later_none:
  assumes "0 < n"
  shows "rr_later es (replicate (length es) False) (rr_shares (int (length es)) n) =
    rr_first es (rr_shares (int (length es)) n)"
proof -
  have z: "zip es (replicate (length es) False) = map (\<lambda>p. (p, False)) es" by (induction es) auto
  have "rr_pick (int n) (rr_shares (int (length es)) n ! i) 0 (drop i (map (\<lambda>p. (p, False)) es)) =
      map (\<lambda>j. es ! (i + j * n)) [0..<nat (rr_shares (int (length es)) n ! i)]" if i: "i < n" for i
  proof (cases "i < length es")
    case False
    then show ?thesis using rr_share_less[OF i, of 0 "length es"] by simp
  next
    case True
    define m where "m = nat (rr_shares (int (length es)) n ! i)"
    have m: "0 < m" "int m = rr_shares (int (length es)) n ! i"
      using rr_share_less[OF i, of 0 "length es"] True by (simp_all add: m_def)
    have "i + (m - 1) * n < length es" using rr_share_less[OF i, of "m - 1" "length es"] m by (simp add: m_def)
    then have "0 + (m - 1) * n < length (drop i es)" by simp
    from rr_pick_none[OF m(1) assms this] have
      "rr_pick (int n) (int m) 0 (map (\<lambda>p. (p, False)) (drop i es)) = map (\<lambda>j. drop i es ! (0 + j * n)) [0..<m]"
      by simp
    moreover have "drop i es ! (0 + j * n) = es ! (i + j * n)" for j using True by simp
    ultimately show ?thesis using m(2) by (simp add: drop_map flip: m_def)
  qed
  then show ?thesis
    by (auto simp: rr_later_def rr_first_def Let_def z intro!: arg_cong[where f = concat])
qed

text \<open>
  When events have been put before, the scan for a later station starts behind the first events not
  put yet only by chance: here the event 12 is dealt twice and 13 not at all.
\<close>

lemma rr_later_deals_twice:
  "rr_later [10, 11, 12, 13] [True, True, False, False] (rr_shares 2 2) = [12, 12]"
  by (simp add: rr_later_def rr_shares_def Let_def upt_rec)

end
