(* ===== verification/EtCue.thy ===== *)
theory EtCue imports EtShare begin

text \<open>
  Correctness of the equal-cue shares: the loop ends within one round for each station, the shares
  add up to the number of events, and no station that is given events ends up with more than one
  event above any other.
\<close>

section \<open>Adding to the array of shares\<close>

lemma add_num_length [simp]: "length (add_num pl x nums) = length nums"
  by (simp add: add_num_def)

lemma fold_add_num_length [simp]:
  "length (fold (\<lambda>x. add_num (g x) (f x)) xs nums) = length nums"
  by (induction xs arbitrary: nums) auto

abbreviation is_place :: "int list \<Rightarrow> int \<Rightarrow> bool" where
  "is_place nums pl \<equiv> 1 \<le> pl \<and> pl \<le> int (length nums)"

lemma add_num_nth:
  assumes "is_place nums pl" "is_place nums pl'"
  shows "add_num pl x nums ! nat (pl' - 1) = nums ! nat (pl' - 1) + (if pl' = pl then x else 0)"
proof -
  have "nat (pl - 1) = nat (pl' - 1) \<longleftrightarrow> pl = pl'" using assms by (simp add: eq_nat_nat_iff)
  moreover have "nat (pl - 1) < length nums" using assms by linarith
  ultimately show ?thesis by (auto simp: add_num_def nth_list_update)
qed

lemma sum_list_add_nth: "k < length nums \<Longrightarrow> sum_list (nums[k := nums ! k + x]) = sum_list nums + (x :: int)"
  by (induction nums arbitrary: k) (auto simp: nth_Cons' split: nat.splits)

lemma add_num_sum: "is_place nums pl \<Longrightarrow> sum_list (add_num pl x nums) = sum_list nums + x"
  by (simp add: add_num_def sum_list_add_nth nat_less_iff)

lemma fold_add_num:
  assumes "\<forall>x\<in>set xs. is_place nums (g x)" "distinct (map g xs)" "is_place nums pl"
  shows "fold (\<lambda>x. add_num (g x) (f x)) xs nums ! nat (pl - 1) =
    nums ! nat (pl - 1) + (case find (\<lambda>x. g x = pl) xs of Some x \<Rightarrow> f x | None \<Rightarrow> 0)"
  using assms
proof (induction xs arbitrary: nums)
  case (Cons x xs)
  let ?nums = "add_num (g x) (f x) nums"
  have ih: "fold (\<lambda>x. add_num (g x) (f x)) xs ?nums ! nat (pl - 1) =
      ?nums ! nat (pl - 1) + (case find (\<lambda>x. g x = pl) xs of Some x \<Rightarrow> f x | None \<Rightarrow> 0)"
    using Cons.prems by (intro Cons.IH) auto
  have "find (\<lambda>y. g y = pl) xs = None" if "g x = pl"
    using Cons.prems(2) that by (auto simp: find_None_iff image_iff)
  then show ?case using ih add_num_nth[where nums = nums and pl = "g x" and pl' = pl and x = "f x"] Cons.prems
    by auto
qed simp

lemma fold_add_num_sum:
  "\<forall>x\<in>set xs. is_place nums (g x) \<Longrightarrow>
    sum_list (fold (\<lambda>x. add_num (g x) (f x)) xs nums) = sum_list nums + (\<Sum>x\<leftarrow>xs. f x)"
  by (induction xs arbitrary: nums) (simp_all add: add_num_sum)

lemma find_distinct: "distinct (map g xs) \<Longrightarrow> x \<in> set xs \<Longrightarrow> find (\<lambda>y. g y = g x) xs = Some x"
  by (induction xs) auto

section \<open>The loop\<close>

text \<open>
  The array of cues: sorted, and its places are the places of the array of shares. \<open>level mn nums\<close>
  says that every cue below \<open>mn\<close> has been filled up to \<open>mn\<close> and nothing else has been given.
\<close>

definition cues_ok :: "(int \<times> int) list \<Rightarrow> int list \<Rightarrow> bool" where
  "cues_ok cues nums \<longleftrightarrow> sorted_wrt le_fst cues \<and> distinct (map snd cues) \<and>
     (\<forall>x\<in>set cues. is_place nums (snd x)) \<and> length nums = length cues"

definition level :: "int \<Rightarrow> (int \<times> int) list \<Rightarrow> int list \<Rightarrow> bool" where
  "level mn cues nums \<longleftrightarrow> (\<forall>(c, pl)\<in>set cues. nums ! nat (pl - 1) = max 0 (mn - c))"

definition fair :: "(int \<times> int) list \<Rightarrow> int list \<Rightarrow> bool" where
  "fair cues nums \<longleftrightarrow> (\<forall>(c, pl)\<in>set cues. 0 \<le> nums ! nat (pl - 1) \<and> (0 < nums ! nat (pl - 1) \<longrightarrow>
     (\<forall>(c', pl')\<in>set cues. c + nums ! nat (pl - 1) \<le> c' + nums ! nat (pl' - 1) + 1)))"

abbreviation low_cues :: "int \<Rightarrow> (int \<times> int) list \<Rightarrow> (int \<times> int) list" where
  "low_cues mn cues \<equiv> takeWhile (\<lambda>x. fst x \<le> mn) cues"

lemma same_cue_level:
  "level mn cues nums \<Longrightarrow> same_cue mn nums hi cues = (length (low_cues mn cues),
     case dropWhile (\<lambda>x. fst x \<le> mn) cues of [] \<Rightarrow> hi | x # _ \<Rightarrow> fst x)"
  by (induction cues) (auto simp: level_def split: prod.splits)

lemma sorted_split:
  assumes "sorted_wrt le_fst cues" "dropWhile (\<lambda>x. fst x \<le> mn) cues = x # xs"
  shows "mn < fst x" "\<forall>y\<in>set (x # xs). fst x \<le> fst y" "\<forall>y\<in>set (low_cues mn cues). fst y \<le> mn"
    "cues = low_cues mn cues @ x # xs"
proof -
  show e: "cues = low_cues mn cues @ x # xs" using assms(2) by (metis takeWhile_dropWhile_id)
  show "mn < fst x" using assms(2) by (metis dropWhile_eq_Cons_conv not_le)
  show "\<forall>y\<in>set (low_cues mn cues). fst y \<le> mn" by (auto dest: set_takeWhileD)
  show "\<forall>y\<in>set (x # xs). fst x \<le> fst y" using assms(1) by (subst (asm) e) (auto simp: sorted_wrt_append)
qed

text \<open>A round that fills the lowest cues up to the next higher one.\<close>

lemma fill_level:
  assumes ok: "cues_ok cues nums" and lv: "level mn cues nums"
    and dw: "dropWhile (\<lambda>x. fst x \<le> mn) cues = x # xs"
  defines "nums' \<equiv> fold (\<lambda>(c, pl). add_num pl (fst x - mn)) (low_cues mn cues) nums"
  shows "cues_ok cues nums'" "level (fst x) cues nums'"
    "sum_list nums' = sum_list nums + (fst x - mn) * int (length (low_cues mn cues))"
    "length (low_cues mn cues) < length (low_cues (fst x) cues)"
proof -
  have sw: "sorted_wrt le_fst cues" using ok by (simp add: cues_ok_def)
  note sp = sorted_split[OF sw dw]
  have nums': "nums' = fold (\<lambda>y. add_num (snd y) (fst x - mn)) (low_cues mn cues) nums"
    by (simp add: nums'_def split_def)
  have pl: "\<forall>y\<in>set (low_cues mn cues). is_place nums (snd y)"
    using ok by (auto simp: cues_ok_def dest!: set_takeWhileD)
  have di: "distinct (map snd (low_cues mn cues))" "distinct (map snd cues)"
    using ok sp(4) by (auto simp: cues_ok_def) (metis distinct_append map_append)
  have len: "length nums' = length nums" by (simp add: nums')
  show "cues_ok cues nums'" using ok unfolding cues_ok_def len .
  show "sum_list nums' = sum_list nums + (fst x - mn) * int (length (low_cues mn cues))"
    by (simp add: nums' fold_add_num_sum[OF pl] sum_list_triv)
  show "level (fst x) cues nums'"
    unfolding level_def
  proof (intro ballI, clarify)
    fix c p assume in_cues: "(c, p) \<in> set cues"
    have ip: "is_place nums p" using ok in_cues by (force simp: cues_ok_def)
    have old: "nums ! nat (p - 1) = max 0 (mn - c)" using lv in_cues by (force simp: level_def)
    have where_c: "(c, p) \<in> set (low_cues mn cues) \<or> (c, p) \<in> set (x # xs)"
      using in_cues sp(4) by (metis Un_iff set_append)
    note new = fold_add_num[OF pl di(1) ip, of "\<lambda>_. fst x - mn", folded nums']
    show "nums' ! nat (p - 1) = max 0 (fst x - c)"
    proof (cases "c \<le> mn")
      case True
      then have "(c, p) \<in> set (low_cues mn cues)" using where_c sp(1,2) by force
      then have "find (\<lambda>y. snd y = p) (low_cues mn cues) = Some (c, p)"
        using find_distinct[OF di(1), of "(c, p)"] by simp
      then show ?thesis using new old True sp(1) by simp
    next
      case False
      then have cx: "(c, p) \<in> set (x # xs)" using where_c sp(3) by force
      moreover have "distinct (map snd (low_cues mn cues @ x # xs))" using di(2) sp(4) by metis
      then have "find (\<lambda>y. snd y = p) (low_cues mn cues) = None"
        using cx by (force simp: find_None_iff image_iff)
      ultimately show ?thesis using new old False sp(2) by force
    qed
  qed
  have "low_cues (fst x) cues = low_cues mn cues @ takeWhile (\<lambda>y. fst y \<le> fst x) (x # xs)"
    using sp(1,3) by (subst sp(4)) (rule takeWhile_append2, force)
  then show "length (low_cues mn cues) < length (low_cues (fst x) cues)" by simp
qed

text \<open>The last round spreads what is left evenly over the lowest cues.\<close>

lemma spread_fair:
  assumes ok: "cues_ok cues nums" and lv: "level mn cues nums"
    and ne: "0 < length (low_cues mn cues)" and rest: "0 \<le> rest"
    and room: "\<And>x xs. dropWhile (\<lambda>x. fst x \<le> mn) cues = x # xs \<Longrightarrow>
      rest < (fst x - mn) * int (length (low_cues mn cues))"
  defines "m \<equiv> length (low_cues mn cues)"
  defines "nums' \<equiv> spread (rest div int m) (rest mod int m) (low_cues mn cues) nums"
  shows "length nums' = length nums" "sum_list nums' = sum_list nums + rest" "fair cues nums'"
proof -
  let ?g = "\<lambda>y :: nat \<times> int \<times> int. snd (snd y)"
  let ?f = "\<lambda>y. if int (fst y) < rest mod int m then rest div int m + 1 else rest div int m"
  let ?ys = "enumerate 0 (low_cues mn cues)"
  have nums': "nums' = fold (\<lambda>y. add_num (?g y) (?f y)) ?ys nums"
    by (simp add: nums'_def spread_def split_def)
  have sw: "sorted_wrt le_fst cues" using ok by (simp add: cues_ok_def)
  have sub: "set (low_cues mn cues) \<subseteq> set cues" by (auto dest: set_takeWhileD)
  have "map (snd \<circ> snd) ?ys = map snd (low_cues mn cues)"
    by (simp only: map_map[symmetric] map_snd_enumerate)
  then have ys: "map ?g ?ys = map snd (low_cues mn cues)" by (simp only: comp_def)
  have "\<forall>p\<in>set (map snd cues). is_place nums p" using ok by (auto simp: cues_ok_def)
  then have "\<forall>p\<in>set (map ?g ?ys). is_place nums p" using sub unfolding ys by auto
  then have pl: "\<forall>y\<in>set ?ys. is_place nums (?g y)" by simp
  have di0: "distinct (map snd (low_cues mn cues))"
    using ok by (metis cues_ok_def distinct_append map_append takeWhile_dropWhile_id)
  then have di: "distinct (map ?g ?ys)" unfolding ys .
  have m: "0 < m" "rest mod int m < int m" using ne by (simp_all add: m_def)
  show "length nums' = length nums" by (simp add: nums')
  have "map ?f ?ys = map ((\<lambda>i. if i < nat (rest mod int m) then rest div int m + 1 else rest div int m) \<circ> fst) ?ys"
    by (simp only: comp_def zless_nat_eq_int_zless)
  then have "map ?f ?ys = map (\<lambda>i. if i < nat (rest mod int m) then rest div int m + 1 else rest div int m) (map fst ?ys)"
    by (simp only: map_map)
  then have "(\<Sum>y\<leftarrow>?ys. ?f y) = rest"
    using sum_list_if_less[of "nat (rest mod int m)" m "rest div int m"] m
    by (simp only: map_fst_enumerate m_def[symmetric] add_0) simp
  then show "sum_list nums' = sum_list nums + rest" by (simp only: nums' fold_add_num_sum[OF pl])
  have low: "nums' ! nat (p - 1) - (mn - c) \<in> {rest div int m, rest div int m + 1} \<and> c \<le> mn"
    if "(c, p) \<in> set (low_cues mn cues)" for c p
  proof -
    obtain i where "i < length (low_cues mn cues)" "low_cues mn cues ! i = (c, p)"
      using \<open>(c, p) \<in> set (low_cues mn cues)\<close> unfolding in_set_conv_nth by blast
    then have i: "(i, c, p) \<in> set ?ys" by (simp add: in_set_enumerate_eq)
    then have "find (\<lambda>y. ?g y = p) ?ys = Some (i, c, p)" using find_distinct[OF di, of "(i, c, p)"] by simp
    moreover have "is_place nums p" using pl i by force
    ultimately have "nums' ! nat (p - 1) = nums ! nat (p - 1) + ?f (i, c, p)"
      using fold_add_num[OF pl di, of p ?f] by (simp add: nums')
    moreover have "nums ! nat (p - 1) = max 0 (mn - c)" using lv that sub by (force simp: level_def)
    moreover have "c \<le> mn" using that by (force dest: set_takeWhileD)
    ultimately show ?thesis by auto
  qed
  have high: "nums' ! nat (p - 1) = 0 \<and> mn + rest div int m + 1 \<le> c"
    if "(c, p) \<in> set cues" "(c, p) \<notin> set (low_cues mn cues)" for c p
  proof -
    have "dropWhile (\<lambda>x. fst x \<le> mn) cues \<noteq> []"
      using takeWhile_dropWhile_id[of "\<lambda>x. fst x \<le> mn" cues] that by (metis append_Nil2)
    then obtain x xs where dw: "dropWhile (\<lambda>x. fst x \<le> mn) cues = x # xs" by (meson neq_Nil_conv)
    note sp = sorted_split[OF sw dw]
    have cx: "(c, p) \<in> set (x # xs)" using that by (subst (asm) sp(4)) auto
    then have c: "fst x \<le> c" using sp(2) by force
    have "distinct (map snd (low_cues mn cues @ x # xs))"
      by (subst sp(4)[symmetric]) (use ok in \<open>simp add: cues_ok_def\<close>)
    then have "p \<notin> snd ` set (low_cues mn cues)" using cx by (force simp: image_iff)
    then have "p \<notin> set (map ?g ?ys)" unfolding ys by simp
    then have "\<forall>y\<in>set ?ys. ?g y \<noteq> p" by auto
    then have "find (\<lambda>y. ?g y = p) ?ys = None" unfolding find_None_iff by blast
    moreover have "is_place nums p" using ok that(1) by (force simp: cues_ok_def)
    ultimately have "nums' ! nat (p - 1) = nums ! nat (p - 1)"
      using fold_add_num[OF pl di, of p ?f] by (simp add: nums')
    moreover have "nums ! nat (p - 1) = max 0 (mn - c)" using lv that by (force simp: level_def)
    moreover have "rest div int m < fst x - mn"
    proof -
      have "rest div int m * int m \<le> rest"
        using m(1) div_mult_mod_eq[of rest "int m"] pos_mod_sign[of "int m" rest] by linarith
      then have "rest div int m * int m < (fst x - mn) * int m" using room[OF dw] by (simp add: m_def)
      then show ?thesis using m(1) by simp
    qed
    ultimately show ?thesis using c sp(1) by auto
  qed
  have q: "0 \<le> rest div int m" using rest m(1) by (simp add: pos_imp_zdiv_nonneg_iff)
  show "fair cues nums'"
    unfolding fair_def
  proof (intro ballI, clarify, intro conjI impI ballI, goal_cases)
    case (1 c p)
    then show ?case using low[of c p] high[of c p] q by (cases "(c, p) \<in> set (low_cues mn cues)") auto
  next
    case (2 c p y)
    obtain c' p' where y: "y = (c', p')" by force
    have "(c, p) \<in> set (low_cues mn cues)" using high[of c p] 2 by force
    then have "c + nums' ! nat (p - 1) \<le> mn + rest div int m + 1" using low[of c p] by auto
    moreover have "mn + rest div int m \<le> c' + nums' ! nat (p' - 1)"
      using low[of c' p'] high[of c' p'] 2(3) y by (cases "(c', p') \<in> set (low_cues mn cues)") auto
    ultimately show ?case using y by simp
  qed
qed

lemma level_fair:
  assumes "level mn cues nums"
  shows "fair cues nums"
proof -
  have e: "nums ! nat (pl - 1) = max 0 (mn - c)" if "(c, pl) \<in> set cues" for c pl
    using assms that by (auto simp: level_def)
  show ?thesis unfolding fair_def by (intro ballI) (auto simp: e max_def split: if_splits)
qed

lemma dole_ok:
  assumes "cues_ok cues nums" "level mn cues nums" "cues \<noteq> []" "fst (hd cues) \<le> mn"
    and "sum_list nums = doled" "doled \<le> left"
    and "length cues < k + length (low_cues mn cues)"
  shows "\<exists>r. dole k left cues mn hi doled nums = Some r \<and> length r = length cues \<and>
    sum_list r = left \<and> fair cues r"
  using assms
proof (induction k arbitrary: mn hi doled nums)
  case 0
  then show ?case using length_takeWhile_le[of "\<lambda>x. fst x \<le> mn" cues] by simp
next
  case (Suc k)
  let ?m = "length (low_cues mn cues)"
  have m: "0 < ?m" using Suc.prems(3,4) by (cases cues) auto
  have sw: "sorted_wrt le_fst cues" using Suc.prems(1) by (simp add: cues_ok_def)
  have tk: "take ?m cues = low_cues mn cues" by (rule takeWhile_eq_take[symmetric])
  note sc = same_cue_level[OF Suc.prems(2), of hi]
  show ?case
  proof (cases "doled < left")
    case False
    have "fair cues nums" using Suc.prems(2) by (rule level_fair)
    then show ?thesis using False Suc.prems by (auto simp: cues_ok_def)
  next
    case less: True
    show ?thesis
    proof (cases "dropWhile (\<lambda>x. fst x \<le> mn) cues")
      case Nil
      then have low: "low_cues mn cues = cues" by (metis append_Nil2 takeWhile_dropWhile_id)
      note sf = spread_fair[OF Suc.prems(1,2) m, of "left - doled", unfolded low]
      show ?thesis using sf sc[unfolded low] Nil less m[unfolded low] Suc.prems(1,5)
        by (simp add: cues_ok_def)
    next
      case (Cons x xs)
      note fl = fill_level[OF Suc.prems(1,2) Cons]
      note sp = sorted_split[OF sw Cons]
      have neq: "?m \<noteq> length cues" using arg_cong[OF sp(4), of length] by simp
      show ?thesis
      proof (cases "left - doled < (fst x - mn) * int ?m")
        case True
        note sf = spread_fair[OF Suc.prems(1,2) m, of "left - doled"]
        show ?thesis using sf sc Cons less m True Suc.prems(1,5) neq tk
          by (simp add: cues_ok_def)
      next
        case False
        let ?nums = "fold (\<lambda>(c, pl). add_num pl (fst x - mn)) (low_cues mn cues) nums"
        have "\<exists>r. dole k left cues (fst x) (fst x) (doled + (fst x - mn) * int ?m) ?nums = Some r \<and>
            length r = length cues \<and> sum_list r = left \<and> fair cues r"
          using Suc.prems(3-7) fl sp(1) False by (intro Suc.IH) auto
        with tk show ?thesis using sc Cons less False neq by (simp add: Let_def)
      qed
    qed
  qed
qed

text \<open>The shares for a group with \<open>counts\<close> events in its input lists.\<close>

theorem eq_shares_ok:
  assumes "counts \<noteq> []" "0 \<le> left"
  shows "\<exists>r. eq_shares left counts = Some r \<and> length r = length counts \<and> sum_list r = left \<and>
    (\<forall>i<length counts. 0 \<le> r ! i \<and> (0 < r ! i \<longrightarrow>
      (\<forall>j<length counts. counts ! i + r ! i \<le> counts ! j + r ! j + 1)))"
proof -
  let ?n = "length counts"
  let ?zs = "zip counts [1..int ?n]"
  define cues where "cues = shellSort ?zs"
  let ?nums = "replicate ?n (0::int)"
  have ms: "mset cues = mset ?zs" by (simp add: cues_def shellSort_mset)
  have len: "length cues = ?n" using mset_eq_length[OF ms] by simp
  have st: "set cues = set ?zs" by (rule mset_eq_setD[OF ms])
  have pl: "nat (snd x - 1) < ?n \<and> 1 \<le> snd x \<and> snd x \<le> int ?n \<and> fst x = counts ! nat (snd x - 1)"
    if "x \<in> set cues" for x
    using that by (auto simp: st set_zip)
  have pls: "(counts ! i, int i + 1) \<in> set cues" if "i < ?n" for i
    using that by (auto simp: st set_zip add.commute intro!: exI[of _ i])
  have "mset (map snd cues) = mset (map snd ?zs)" by (simp only: mset_map ms)
  then have "distinct (map snd cues) = distinct (map snd ?zs)" by (rule mset_eq_imp_distinct_iff)
  then have "distinct (map snd cues)" by simp
  then have ok: "cues_ok cues ?nums" using pl shellSort_sorted[of ?zs] len by (auto simp: cues_ok_def cues_def)
  have ne: "cues \<noteq> []" using assms(1) len by auto
  then have "\<forall>y\<in>set cues. fst (hd cues) \<le> fst y" using ok by (cases cues) (auto simp: cues_ok_def)
  then have lv: "level (fst (hd cues)) cues ?nums" using pl by (force simp: level_def)
  have "0 < length (low_cues (fst (hd cues)) cues)" using ne by (cases cues) auto
  then obtain r where r: "dole ?n left cues (fst (hd cues)) 0 0 ?nums = Some r" "length r = ?n"
      "sum_list r = left" "fair cues r"
    using dole_ok[OF ok lv ne, of 0 left ?n 0] assms(2) len
    by (auto simp: sum_list_replicate)
  have "0 \<le> r ! i \<and> (0 < r ! i \<longrightarrow> (\<forall>j<?n. counts ! i + r ! i \<le> counts ! j + r ! j + 1))" if "i < ?n" for i
    using r(4) pls[OF that] pls unfolding fair_def by fastforce
  then show ?thesis using r by (simp add: eq_shares_def Let_def flip: cues_def)
qed

end
