(* ===== verification/EtConductor.thy ===== *)
theory EtConductor imports EtCue begin

text \<open>
  The conductor of a station (\<^verbatim>\<open>et_conductor\<close> in \<^verbatim>\<open>et_system.c\<close>): the thread that reads the events
  of its station's output list and puts each of them into the input list of a station downstream.
  \<open>conductor_iter\<close> is one turn of its endless loop.

  \<open>Inl s\<close> is the jump to the label \<^verbatim>\<open>error\<close>, after which the thread ends; \<open>None\<close> is a fault (a NULL
  function called, an array index out of bounds, a division by zero) or an endless walk over a
  cycle of stations. A user-supplied selection routine is the argument \<open>ufun\<close>, a function of the
  station's number and the event.

  \<open>disp\<close> holds the local variables of one turn: \<open>d_put\<close> is \<^verbatim>\<open>event_put\<close>, \<open>d_left\<close> is
  \<^verbatim>\<open>events_left\<close>, \<open>d_first\<close> is \<^verbatim>\<open>firstimethruloop\<close>; \<open>d_temps\<close> says that \<^verbatim>\<open>temps[0]\<close> is not NULL,
  which lasts from one turn to the next. The array \<^verbatim>\<open>allevents\<close> is the argument \<open>all\<close>.
\<close>

record disp =
  d_put :: "bool list"
  d_left :: int
  d_first :: bool
  d_temps :: bool

type_synonym 'a pass = "(et_shm + 'a) option"
type_synonym user_select = "int \<Rightarrow> et_event \<Rightarrow> bool"

definition bind_pass :: "'a pass \<Rightarrow> ('a \<Rightarrow> 'b pass) \<Rightarrow> 'b pass" where
  "bind_pass m f = (case m of None \<Rightarrow> None | Some (Inl s) \<Rightarrow> Some (Inl s) | Some (Inr x) \<Rightarrow> f x)"

lemma bind_pass_simps [simp]:
  "bind_pass None f = None" "bind_pass (Some (Inl s)) f = Some (Inl s)"
  "bind_pass (Some (Inr x)) f = f x"
  by (simp_all add: bind_pass_def)

abbreviation is_active :: "et_shm \<Rightarrow> nat \<Rightarrow> bool" where
  "is_active s k \<equiv> status (st_data (stats s k)) = ET_STATION_ACTIVE"

section \<open>Putting events into one station\<close>

definition set_tries :: "nat \<Rightarrow> u64 \<Rightarrow> et_shm \<Rightarrow> et_shm" where
  "set_tries k t = upd_station k (\<lambda>ps. ps\<lparr>list_in := (list_in ps)\<lparr>events_try := t\<rparr>\<rparr>)"

text \<open>The write into the input list of station \<open>k\<close>, the check of its result and the broadcast.\<close>

definition input_write :: "nat list \<Rightarrow> nat \<Rightarrow> et_shm \<Rightarrow> et_shm pass" where
  "input_write pes k s = do {
     (numwritten, h, pl) \<leftarrow>
       et_llist_write (nevents_max s) pes (events s, et_llist_lock (list_in (stats s k)));
     let s = upd_station k (\<lambda>ps. ps\<lparr>list_in := et_llist_unlock pl\<rparr>) (s\<lparr>events := h\<rparr>);
     if numwritten < int (length pes) then Some (Inl s)
     else Some (Inr (upd_station k (\<lambda>ps. ps\<lparr>list_in := cond_signal (list_in ps)\<rparr>) s)) }"

definition selects :: "user_select \<Rightarrow> et_shm \<Rightarrow> nat \<Rightarrow> (nat \<Rightarrow> bool) option" where
  "selects ufun s k = (let ps = stats s k in
     case func (st_data ps) of
       NoFunc \<Rightarrow> None
     | MatchFunc \<Rightarrow> Some (\<lambda>p. et_condition s (nat (num ps)) (events s p))
     | UserFunc \<Rightarrow> Some (\<lambda>p. ufun (num ps) (events s p)))"

text \<open>
  The events for a station other than GrandCentral: the events, the flag \<^verbatim>\<open>writeall\<close>, the flags
  \<^verbatim>\<open>event_put\<close> and the list's count of tries.
\<close>

definition choose_events ::
  "user_select \<Rightarrow> nat list \<Rightarrow> nat \<Rightarrow> et_shm \<Rightarrow> disp \<Rightarrow> (nat list \<times> bool \<times> bool list \<times> u64) option" where
  "choose_events ufun all k s d = (
     let c = config (stats s k); pl = list_in (stats s k); put = d_put d; t = events_try pl in
     if select_mode c = ET_STATION_SELECT_ALL \<and> block_mode c = ET_STATION_BLOCKING then
       (if d_first d \<and> prescale c = 1 then Some (all, True, put, t + of_nat (length all))
        else (let (pes, put, t) = take_prescaled (\<lambda>_. True) (prescale c) all put t in
          Some (pes, False, put, t)))
     else if select_mode c = ET_STATION_SELECT_ALL \<and> block_mode c = ET_STATION_NONBLOCKING then
       (if cnt pl < cue c then
         (let (pes, put) = take_room (\<lambda>_. True) (cue c - cnt pl) all put in Some (pes, False, put, t))
        else Some ([], False, put, t))
     else if block_mode c = ET_STATION_BLOCKING then do {
       sel \<leftarrow> selects ufun s k;
       let (pes, put, t) = take_prescaled sel (prescale c) all put t;
       Some (pes, False, put, t) }
     else if block_mode c = ET_STATION_NONBLOCKING then
       (if cnt pl < cue c then do {
         sel \<leftarrow> selects ufun s k;
         let (pes, put) = take_room sel (cue c - cnt pl) all put;
         Some (pes, False, put, t) }
        else Some ([], False, put, t))
     else Some ([], False, put, t))"

definition put_plain :: "user_select \<Rightarrow> nat list \<Rightarrow> nat \<Rightarrow> et_shm \<times> disp \<Rightarrow> (et_shm \<times> disp) pass" where
  "put_plain ufun all k = (\<lambda>(s, d). do {
     (pes, writeall, put, t) \<leftarrow> choose_events ufun all k s d;
     let s = set_tries k t s;
     let d = d\<lparr>d_put := put\<rparr>;
     if pes = [] then Some (Inr (s, d))
     else bind_pass (input_write pes k s) (\<lambda>s.
       Some (Inr (s, d\<lparr>d_left := (if writeall then 0 else d_left d - int (length pes))\<rparr>))) })"

text \<open>
  GrandCentral takes every event that is left. The files of temporary events are removed, which
  leaves shared memory alone, and the events are counted out.
\<close>

definition gc_drop_temps :: "bool \<Rightarrow> nat \<Rightarrow> et_shm \<Rightarrow> et_shm" where
  "gc_drop_temps temps0 num_temp s =
     (if temps0 then system_unlock (upd_sys (\<lambda>y. y\<lparr>ntemps := ntemps y - int num_temp\<rparr>) (system_lock s))
      else s)"

definition gc_write :: "nat list \<Rightarrow> et_shm \<Rightarrow> et_shm pass" where
  "gc_write pes s = do {
     (st, h, pl) \<leftarrow> et_llist_write_gc (nevents_max s) pes (events s, et_llist_lock (list_in (stats s 0)));
     let s = upd_station 0 (\<lambda>ps. ps\<lparr>list_in := et_llist_unlock pl\<rparr>) (s\<lparr>events := h\<rparr>);
     if st = ET_ERROR then Some (Inl s)
     else Some (Inr (upd_station 0 (\<lambda>ps. ps\<lparr>list_in := cond_signal (list_in ps)\<rparr>) s)) }"

definition put_gc :: "nat list \<Rightarrow> et_shm \<times> disp \<Rightarrow> (et_shm \<times> disp) pass" where
  "put_gc all = (\<lambda>(s, d).
     let pes = (if d_first d then all else unput all (d_put d));
         tmps = filter (\<lambda>p. temp (events s p) = ET_EVENT_TEMP) pes;
         temps0 = (d_temps d \<or> tmps \<noteq> [])
     in if pes = [] then Some (Inr (s, d))
     else bind_pass (gc_write pes (gc_drop_temps temps0 (length tmps) s))
       (\<lambda>s. Some (Inr (s, d\<lparr>d_left := 0, d_temps := temps0\<rparr>))))"

definition put_station :: "user_select \<Rightarrow> nat list \<Rightarrow> nat \<Rightarrow> et_shm \<times> disp \<Rightarrow> (et_shm \<times> disp) pass" where
  "put_station ufun all k = (if k = 0 then put_gc all else put_plain ufun all k)"

section \<open>A group of parallel stations\<close>

text \<open>The members of the group with head \<open>k\<close>; out of fuel means a cycle of \<^verbatim>\<open>nextparallel\<close>.\<close>

fun par_group :: "nat \<Rightarrow> (nat \<Rightarrow> et_station) \<Rightarrow> nat \<Rightarrow> nat list option" where
  "par_group 0 st k = None"
| "par_group (Suc f) st k =
     (if nextparallel (st k) < 0 then Some [k]
      else do { ks \<leftarrow> par_group f st (nat (nextparallel (st k))); Some (k # ks) })"

text \<open>The loop over the active stations of a group, for the other selection modes.\<close>

fun put_members ::
  "user_select \<Rightarrow> nat list \<Rightarrow> nat list \<Rightarrow> et_shm \<times> disp \<Rightarrow> (et_shm \<times> disp) pass" where
  "put_members ufun all [] x = Some (Inr x)"
| "put_members ufun all (k # ks) x = bind_pass (put_station ufun all k x) (\<lambda>(s, d).
     let d = d\<lparr>d_first := False\<rparr> in
     if d_left d > 0 then put_members ufun all ks (s, d) else Some (Inr (s, d)))"

text \<open>The search for the station that gets the first event, which takes the mark \<^verbatim>\<open>waslast\<close> away.\<close>

fun rr_scan :: "nat list \<Rightarrow> bool \<Rightarrow> nat option \<Rightarrow> et_shm \<Rightarrow> nat option \<times> et_shm" where
  "rr_scan [] looking start s = (start, s)"
| "rr_scan (k # ks) looking start s =
     (let found = (is_active s k \<and> looking);
          start = (if found then Some k else start);
          looking = (looking \<and> \<not> found)
      in if waslast (stats s k) = 1
         then rr_scan ks True start (upd_station k (\<lambda>ps. ps\<lparr>waslast := 0\<rparr>) s)
         else rr_scan ks looking start s)"

text \<open>The loop that writes each active station's share; \<open>lst\<close> marks the last station served.\<close>

fun rr_deal :: "(nat \<times> int \<times> bool) list \<Rightarrow> nat list \<Rightarrow> et_shm \<Rightarrow> et_shm pass" where
  "rr_deal [] es s = Some (Inr s)"
| "rr_deal ((k, n, lst) # ks) es s =
     (let s = (if lst then upd_station k (\<lambda>ps. ps\<lparr>waslast := 1\<rparr>) s else s) in
      if n > 0 then
        if int (length es) < n then None
        else bind_pass (input_write (take (nat n) es) k
               (set_tries k (events_try (list_in (stats s k)) + of_int n) s))
             (rr_deal ks (drop (nat n) es))
      else rr_deal ks es s)"

definition round_robin ::
  "nat list \<Rightarrow> nat list \<Rightarrow> nat list \<Rightarrow> et_shm \<times> disp \<Rightarrow> (et_shm \<times> disp) pass" where
  "round_robin all members actives = (\<lambda>(s, d).
     let (start, s) = rr_scan members False None s;
         start = (case start of Some k \<Rightarrow> k | None \<Rightarrow> hd actives);
         n = length actives;
         shares = rr_shares (d_left d) n;
         es = (if d_first d then rr_first all shares else rr_later all (d_put d) shares);
         order = dropWhile (\<lambda>k. k \<noteq> start) actives @ takeWhile (\<lambda>k. k \<noteq> start) actives
     in if int (length es) > nevents_max s then None
     else bind_pass (rr_deal (zip order (zip shares (map (\<lambda>i. int i = rr_last (d_left d) n) [0..<n]))) es s)
       (\<lambda>s. Some (Inr (s, d\<lparr>d_left := d_left d - sum_list shares\<rparr>))))"

fun eq_deal :: "(nat \<times> int) list \<Rightarrow> nat list \<Rightarrow> nat list \<Rightarrow> et_shm \<times> disp \<Rightarrow> (et_shm \<times> disp) pass" where
  "eq_deal [] all es x = Some (Inr x)"
| "eq_deal ((k, n) # ks) all es (s, d) =
     (if n < 1 then eq_deal ks all es (s, d)
      else let (pes, put) = (if d_first d then (take (nat n) es, d_put d) else take_unput n all (d_put d))
      in if int (length pes) < n then None
      else bind_pass (input_write pes k (set_tries k (events_try (list_in (stats s k)) + of_int n) s))
        (\<lambda>s. eq_deal ks all (drop (nat n) es) (s, d\<lparr>d_put := put, d_left := d_left d - n\<rparr>)))"

definition equal_cue :: "nat list \<Rightarrow> nat list \<Rightarrow> et_shm \<times> disp \<Rightarrow> (et_shm \<times> disp) pass" where
  "equal_cue all actives = (\<lambda>(s, d). do {
     shares \<leftarrow> eq_shares (d_left d) (map (\<lambda>k. cnt (list_in (stats s k))) actives);
     eq_deal (zip actives shares) all all (s, d) })"

section \<open>One turn of the conductor\<close>

definition visit :: "user_select \<Rightarrow> nat list \<Rightarrow> nat \<Rightarrow> et_shm \<times> disp \<Rightarrow> (et_shm \<times> disp) pass" where
  "visit ufun all k = (\<lambda>(s, d).
     if flow_mode (config (stats s k)) = ET_STATION_PARALLEL then do {
       members \<leftarrow> par_group (nat (c_nstations (sys_config (sys s)))) (stats s) k;
       let actives = filter (is_active s) members;
       if actives = [] then Some (Inr (s, d))
       else if select_mode (config (stats s k)) = ET_STATION_SELECT_RROBIN then
         round_robin all members actives (s, d)
       else if select_mode (config (stats s k)) = ET_STATION_SELECT_EQUALCUE then
         equal_cue all actives (s, d)
       else put_members ufun all actives (s, d) }
     else if is_active s k then put_station ufun all k (s, d)
     else Some (Inr (s, d)))"

definition next_main :: "et_shm \<Rightarrow> nat \<Rightarrow> nat" where
  "next_main s k = (if st_next (stats s k) < 0 then 0 else nat (st_next (stats s k)))"

fun pass_loop ::
  "nat \<Rightarrow> user_select \<Rightarrow> nat list \<Rightarrow> nat \<Rightarrow> et_shm \<times> disp \<Rightarrow> (et_shm \<times> disp) pass" where
  "pass_loop 0 ufun all k x = None"
| "pass_loop (Suc f) ufun all k (s, d) =
     (if d_left d > 0 then bind_pass (visit ufun all k (s, d)) (\<lambda>(s, d).
        if k = 0 then Some (Inr (s, d))
        else pass_loop f ufun all (next_main s k) (s, d\<lparr>d_first := False\<rparr>))
      else Some (Inr (s, d)))"

text \<open>
  The rest of a turn, when the output list of the conductor's station \<open>me\<close> holds events. It ends
  with the station's transfer mutex released, also on an error.
\<close>

definition conductor_pass :: "user_select \<Rightarrow> nat \<Rightarrow> bool \<Rightarrow> et_shm \<Rightarrow> (et_shm \<times> bool) pass" where
  "conductor_pass ufun me temps0 s = do {
     (n, all, pl) \<leftarrow> et_llist_read (events s) (et_llist_lock (list_out (stats s me)));
     let s = upd_station me (\<lambda>ps. ps\<lparr>list_out := et_llist_unlock pl\<rparr>) s;
     if n < 0 then Some (Inl (upd_station me et_transfer_unlock s))
     else do {
       let s = upd_station me et_transfer_lock s;
       let nst = nat (c_nstations (sys_config (sys s)));
       first \<leftarrow> (if flow_mode (config (stats s me)) = ET_STATION_PARALLEL
                then first_parallel nst (stats s) me else Some me);
       r \<leftarrow> pass_loop (Suc nst) ufun all (next_main s first)
             (s, \<lparr>d_put = replicate (length all) False, d_left = n, d_first = True, d_temps = temps0\<rparr>);
       case r of
         Inl s \<Rightarrow> Some (Inl (upd_station me et_transfer_unlock s))
       | Inr (s, d) \<Rightarrow> Some (Inr (upd_station me et_transfer_unlock s, d_temps d)) } }"

text \<open>
  A turn, after a signal on the output list's condition variable when the list was empty: a
  conductor that is told to end does so only while its list is empty.
\<close>

definition conductor_iter :: "user_select \<Rightarrow> nat \<Rightarrow> bool \<Rightarrow> et_shm \<Rightarrow> (et_shm \<times> bool) pass" where
  "conductor_iter ufun me temps0 s =
     (if cnt (list_out (stats s me)) < 1 then
        if conductor (stats s me) = ET_THREAD_KILL
        then Some (Inl (upd_station me (\<lambda>ps. ps\<lparr>list_out := et_llist_unlock (list_out ps)\<rparr>) s))
        else Some (Inr (s, temps0))
      else conductor_pass ufun me temps0 s)"

section \<open>Starting a conductor\<close>

text \<open>
  The part before the loop: the station in the act of being created, its selection routine, the
  arrays, and the report by the station's status. \<open>dl\<close> says that \<^verbatim>\<open>dlopen\<close> and \<^verbatim>\<open>dlsym\<close> find the
  user's routine. The result \<open>None\<close> is a thread that has ended.
\<close>

definition conductor_start :: "et_id \<Rightarrow> bool \<times> bool \<Rightarrow> et_shm \<Rightarrow> nat option \<times> et_shm" where
  "conductor_start e dl s =
     (case find (\<lambda>i. status (st_data (stats s i)) = ET_STATION_CREATING)
             [0..<nat (c_nstations (sys_config (sys s)))] of
        None \<Rightarrow> (None, s)
      | Some me \<Rightarrow>
        let mode = select_mode (config (stats s me));
            set_func = (\<lambda>f lib. upd_station me (\<lambda>ps. ps\<lparr>st_data := (st_data ps)\<lparr>func := f, lib_handle := lib\<rparr>\<rparr>));
            lib = lib_handle (st_data (stats s me))
        in if mode = ET_STATION_SELECT_USER \<and> \<not> fst dl
           then (None, upd_station me (\<lambda>ps. ps\<lparr>st_data := (st_data ps)\<lparr>lib_handle := False\<rparr>\<rparr>) s)
        else if mode = ET_STATION_SELECT_USER \<and> \<not> snd dl
           then (None, upd_station me (\<lambda>ps. ps\<lparr>st_data := (st_data ps)\<lparr>lib_handle := True\<rparr>\<rparr>) s)
        else let s = (if mode = ET_STATION_SELECT_MATCH then set_func MatchFunc lib s
                      else if mode = ET_STATION_SELECT_USER then set_func UserFunc True s else s)
        in if \<not> list_all (env_calloc e) [0..<7] then (None, s)
        else (Some me, upd_station me (\<lambda>ps. ps\<lparr>st_data := (st_data ps)\<lparr>status :=
               (if me = 0 then ET_STATION_ACTIVE else ET_STATION_IDLE)\<rparr>\<rparr>) s))"

end
