(* ===== verification/EtConserve.thy ===== *)
theory EtConserve imports EtConductor begin

text \<open>
  The conservation of events by a conductor: each event of the output list ends up in exactly one
  input list, no list loses or doubles an event, and the high priority events of every input list
  but GrandCentral's stay first.

  \<open>X k\<close> is the content of the input list of station \<open>k\<close>. \<open>conserved N M s X rem\<close> says that the
  multiset \<open>M\<close> of events is spread over the input lists of the stations below \<open>N\<close> and the rest \<open>rem\<close>
  that the conductor still holds, each event once.
\<close>

section \<open>The state of a distribution\<close>

definition in_lists :: "nat \<Rightarrow> et_shm \<Rightarrow> (nat \<Rightarrow> nat list) \<Rightarrow> bool" where
  "in_lists N s X \<longleftrightarrow> (\<forall>k<N. list_repr (events s) (list_in (stats s k)) (X k) \<and>
     (0 < k \<longrightarrow> high_first (events s) (X k)))"

definition total_in :: "nat \<Rightarrow> (nat \<Rightarrow> nat list) \<Rightarrow> nat multiset" where
  "total_in N X = (\<Sum>k<N. mset (X k))"

definition conserved :: "nat \<Rightarrow> nat multiset \<Rightarrow> et_shm \<Rightarrow> (nat \<Rightarrow> nat list) \<Rightarrow> nat list \<Rightarrow> bool" where
  "conserved N M s X rem \<longleftrightarrow> in_lists N s X \<and> total_in N X + mset rem = M \<and>
     high_first (events s) rem \<and> (\<forall>p. count M p \<le> 1) \<and> int (size M) \<le> nevents_max s \<and>
     prio_ok (events s) (set_mset M)"

text \<open>What a distribution may change: input lists, the marks \<open>waslast\<close>, temporary events' count.\<close>

definition disp_frame :: "nat multiset \<Rightarrow> et_shm \<Rightarrow> et_shm \<Rightarrow> bool" where
  "disp_frame M s s' \<longleftrightarrow>
     (\<forall>k. stats s' k = (stats s k)\<lparr>list_in := list_in (stats s' k), waslast := waslast (stats s' k)\<rparr>) \<and>
     sys s' = (sys s)\<lparr>ntemps := ntemps (sys s'), sys_mutex := sys_mutex (sys s')\<rparr> \<and>
     histogram s' = histogram s \<and> same_events (events s) (events s') (set_mset M) \<and>
     (\<forall>p. owner (events s' p) = owner (events s p))"

lemma disp_frame_refl [simp]: "disp_frame M s s"
  by (simp add: disp_frame_def)

lemma disp_frame_trans:
  assumes "disp_frame M s s1" "disp_frame M s1 s2"
  shows "disp_frame M s s2"
proof -
  have "stats s2 k = (stats s k)\<lparr>list_in := list_in (stats s2 k), waslast := waslast (stats s2 k)\<rparr>" for k
  proof -
    have a: "stats s1 k = (stats s k)\<lparr>list_in := list_in (stats s1 k), waslast := waslast (stats s1 k)\<rparr>"
      and b: "stats s2 k = (stats s1 k)\<lparr>list_in := list_in (stats s2 k), waslast := waslast (stats s2 k)\<rparr>"
      using assms by (auto simp: disp_frame_def)
    show ?thesis by (subst b, subst a) simp
  qed
  moreover have "sys s2 = (sys s)\<lparr>ntemps := ntemps (sys s2), sys_mutex := sys_mutex (sys s2)\<rparr>"
  proof -
    have a: "sys s1 = (sys s)\<lparr>ntemps := ntemps (sys s1), sys_mutex := sys_mutex (sys s1)\<rparr>"
      and b: "sys s2 = (sys s1)\<lparr>ntemps := ntemps (sys s2), sys_mutex := sys_mutex (sys s2)\<rparr>"
      using assms by (auto simp: disp_frame_def)
    show ?thesis by (subst b, subst a) simp
  qed
  ultimately show ?thesis using assms by (auto simp: disp_frame_def intro: same_events_step)
qed

lemma disp_frame_fields:
  assumes "disp_frame M s s'"
  shows "config (stats s' k) = config (stats s k)" "st_data (stats s' k) = st_data (stats s k)"
    "st_next (stats s' k) = st_next (stats s k)" "nextparallel (stats s' k) = nextparallel (stats s k)"
    "sys_config (sys s') = sys_config (sys s)" "high (events s') = high (events s)"
    "list_out (stats s' k) = list_out (stats s k)" "num (stats s' k) = num (stats s k)"
    "next_main s' k = next_main s k"
proof -
  have a: "stats s' k = (stats s k)\<lparr>list_in := list_in (stats s' k), waslast := waslast (stats s' k)\<rparr>"
    and b: "sys s' = (sys s)\<lparr>ntemps := ntemps (sys s'), sys_mutex := sys_mutex (sys s')\<rparr>"
    using assms by (auto simp: disp_frame_def)
  show "config (stats s' k) = config (stats s k)" "st_data (stats s' k) = st_data (stats s k)"
    "nextparallel (stats s' k) = nextparallel (stats s k)"
    "list_out (stats s' k) = list_out (stats s k)" "num (stats s' k) = num (stats s k)"
    by (subst a, simp)+
  show n: "st_next (stats s' k) = st_next (stats s k)" by (subst a) simp
  show "next_main s' k = next_main s k" by (simp add: next_main_def n)
  show "sys_config (sys s') = sys_config (sys s)" by (subst b) simp
  show "high (events s') = high (events s)" using assms by (auto simp: disp_frame_def same_events_high)
qed

lemma disp_frame_active: "disp_frame M s s' \<Longrightarrow> is_active s' = is_active s"
  by (simp add: fun_eq_iff disp_frame_fields)

lemma disp_frame_par_group:
  assumes "disp_frame M s s'"
  shows "par_group f (stats s') k = par_group f (stats s) k"
  by (induction f arbitrary: k) (simp_all add: disp_frame_fields[OF assms])

section \<open>Consequences of each event being in one place\<close>

lemma mset_ins_event [simp]: "mset (ins_event h p xs) = add_mset p (mset xs)"
proof -
  have "mset xs = mset (takeWhile (high h) xs) + mset (dropWhile (high h) xs)"
    by (metis mset_append takeWhile_dropWhile_id)
  then show ?thesis by (simp add: ins_event_def)
qed

lemma mset_ins_events [simp]: "mset (ins_events h ps xs) = mset xs + mset ps"
  by (induction ps arbitrary: xs) (simp_all add: ins_events_def)

lemma total_upd: "k < N \<Longrightarrow> total_in N (X(k := ys)) + mset (X k) = total_in N X + mset ys"
proof -
  assume k: "k < N"
  have "(\<Sum>l\<in>{..<N} - {k}. mset ((X(k := ys)) l)) = (\<Sum>l\<in>{..<N} - {k}. mset (X l))"
    by (rule sum.cong) auto
  then show ?thesis using k
    by (simp add: total_in_def sum.remove[of "{..<N}" k] ac_simps)
qed

lemma total_mono: "k < N \<Longrightarrow> mset (X k) \<subseteq># total_in N X"
  unfolding total_in_def by (simp add: sum.remove[of "{..<N}" k])

lemma total_mono2: "k < N \<Longrightarrow> l < N \<Longrightarrow> k \<noteq> l \<Longrightarrow> mset (X k) + mset (X l) \<subseteq># total_in N X"
  unfolding total_in_def by (simp add: sum.remove[of "{..<N}" k] sum.remove[of "{..<N} - {k}" l])

lemma distinct_sub:
  assumes "mset xs \<subseteq># M" "\<forall>p. count M p \<le> 1"
  shows "distinct xs"
proof -
  have "count (mset xs) p \<le> 1" for p using assms by (meson mset_subset_eq_count order_trans)
  then show ?thesis by (metis count_mset_0_iff distinct_count_atmost_1 le_SucE le_zero_eq One_nat_def)
qed

lemma conserved_distinct:
  assumes "conserved N M s X rem"
  shows "k < N \<Longrightarrow> distinct (X k @ rem)"
    "k < N \<Longrightarrow> l < N \<Longrightarrow> k \<noteq> l \<Longrightarrow> distinct (X k @ X l @ rem)"
proof -
  have M: "total_in N X + mset rem = M" "\<forall>p. count M p \<le> 1" using assms by (auto simp: conserved_def)
  show "distinct (X k @ rem)" if "k < N"
    by (rule distinct_sub[OF _ M(2)]) (use total_mono[OF that, of X] M(1) in auto)
  show "distinct (X k @ X l @ rem)" if "k < N" "l < N" "k \<noteq> l"
  proof (rule distinct_sub[OF _ M(2)])
    have "mset (X k) + mset (X l) + mset rem \<subseteq># total_in N X + mset rem"
      using total_mono2[OF that, of X] by simp
    then have "mset (X k) + mset (X l) + mset rem \<subseteq># M" unfolding M(1) .
    then show "mset (X k @ X l @ rem) \<subseteq># M" by (simp add: add.assoc)
  qed
qed

lemma conserved_room:
  assumes "conserved N M s X rem" "k < N"
  shows "int (length (X k)) + int (length rem) \<le> nevents_max s"
proof -
  have "mset (X k) + mset rem \<subseteq># M" using assms total_mono[of k N X] by (auto simp: conserved_def)
  then have "length (X k) + length rem \<le> size M" by (metis size_mset size_mset_mono size_union)
  then show ?thesis using assms(1) by (auto simp: conserved_def)
qed

lemma conserved_set:
  assumes "conserved N M s X rem"
  shows "set rem \<subseteq> set_mset M" "k < N \<Longrightarrow> set (X k) \<subseteq> set_mset M"
proof -
  show "set rem \<subseteq> set_mset M" using assms by (auto simp: conserved_def)
  show "set (X k) \<subseteq> set_mset M" if "k < N"
    using assms set_mset_mono[OF total_mono[OF that, of X]] by (auto simp: conserved_def)
qed

section \<open>Writing into one input list\<close>

text \<open>
  A write that takes the events \<open>pes\<close> from the rest and turns the content of list \<open>k\<close> into \<open>ys\<close>.
\<close>

lemma write_conserves:
  assumes c: "conserved N M s X rem" and split: "mset rem = mset pes + mset rem'"
    and hf: "high_first (events s) rem'" and k: "k < N"
    and w: "list_repr h' pl' ys" "mset ys = mset (X k) + mset pes" "0 < k \<longrightarrow> high_first (events s) ys"
      "same_events (events s) h' (set (X k) \<union> set pes)" "\<forall>r. owner (h' r) = owner (events s r)"
  defines "s' \<equiv> upd_station k (\<lambda>ps. ps\<lparr>list_in := pl'\<rparr>) (s\<lparr>events := h'\<rparr>)"
  shows "conserved N M s' (X(k := ys)) rem'" "disp_frame M s s'"
proof -
  have c': "in_lists N s X" "total_in N X + mset rem = M" "\<forall>p. count M p \<le> 1" "int (size M) \<le> nevents_max s"
    "prio_ok (events s) (set_mset M)" using c by (auto simp: conserved_def)
  have set_rem: "set rem = set pes \<union> set rem'" using arg_cong[OF split, of set_mset] by simp
  have hi: "high_first h' xs = high_first (events s) xs" for xs by (rule high_first_cong[OF w(4)])
  have sub: "set (X k) \<union> set pes \<subseteq> set_mset M"
    using conserved_set(1)[OF c] conserved_set(2)[OF c k] set_rem by auto
  have inl: "in_lists N s' (X(k := ys))"
    unfolding in_lists_def
  proof (intro allI impI)
    fix l assume l: "l < N"
    show "list_repr (events s') (list_in (stats s' l)) ((X(k := ys)) l) \<and>
      (0 < l \<longrightarrow> high_first (events s') ((X(k := ys)) l))"
    proof (cases "l = k")
      case True
      then show ?thesis using w(1,3) hi by (simp add: s'_def)
    next
      case False
      have "set (X l) \<inter> (set (X k) \<union> set pes) = {}"
        using conserved_distinct(2)[OF c l k False] set_rem by auto
      moreover have "list_repr (events s) (list_in (stats s l)) (X l)" "0 < l \<longrightarrow> high_first (events s) (X l)"
        using c'(1) l by (auto simp: in_lists_def)
      ultimately show ?thesis using list_repr_same[OF _ w(4)] False hi by (simp add: s'_def)
    qed
  qed
  have "total_in N (X(k := ys)) + mset (X k) = total_in N X + (mset (X k) + mset pes)"
    using total_upd[OF k, of X ys] w(2) by simp
  then have "total_in N (X(k := ys)) = total_in N X + mset pes" by simp
  then have "total_in N (X(k := ys)) + mset rem' = M" using c'(2) split by (simp add: ac_simps)
  with inl show "conserved N M s' (X(k := ys)) rem'"
    using hf c' hi prio_ok_cong[OF w(4)] by (simp add: conserved_def s'_def)
  show "disp_frame M s s'" using same_events_mono[OF w(4) sub] w(5) by (simp add: disp_frame_def s'_def)
qed

lemma conserved_take:
  assumes c: "conserved N M s X rem" and split: "mset rem = mset pes + mset rem'" and k: "k < N"
  shows "distinct (X k @ pes)" "int (length (X k)) + int (length pes) \<le> nevents_max s"
    "prio_ok (events s) (set pes)"
proof -
  have "mset (X k) + mset rem \<subseteq># M" using total_mono[OF k, of X] c by (auto simp: conserved_def)
  moreover have "mset (X k @ pes) \<subseteq># mset (X k) + mset rem" unfolding split by simp
  ultimately have "mset (X k @ pes) \<subseteq># M" by (rule subset_mset.order_trans[rotated])
  then show "distinct (X k @ pes)" using c by (intro distinct_sub) (auto simp: conserved_def)
  have "length rem = length pes + length rem'" using arg_cong[OF split, of size] by simp
  then show "int (length (X k)) + int (length pes) \<le> nevents_max s" using conserved_room[OF c k] by simp
  have "set rem = set pes \<union> set rem'" using arg_cong[OF split, of set_mset] by simp
  then show "prio_ok (events s) (set pes)"
    using c conserved_set(1)[OF c] by (auto simp: conserved_def prio_ok_def)
qed

lemma input_write_ok:
  assumes c: "conserved N M s X rem" and split: "mset rem = mset pes + mset rem'"
    and hf: "high_first (events s) pes" "high_first (events s) rem'" and k: "0 < k" "k < N"
    and ne: "pes \<noteq> []"
  shows "\<exists>s'. input_write pes k s = Some (Inr s') \<and>
    conserved N M s' (X(k := ins_events (events s) pes (X k))) rem' \<and> disp_frame M s s'"
proof -
  let ?h = "events s" and ?pl = "list_in (stats s k)"
  note t = conserved_take[OF c split k(2)]
  have lt: "int (length (X k)) < nevents_max s" using t(2) ne by (cases pes) auto
  have r: "list_repr ?h (et_llist_lock ?pl) (X k)" "high_first ?h (X k)"
    using c k by (auto simp: conserved_def in_lists_def)
  have kk: "min (length pes) (nat (nevents_max s) - length (X k)) = length pes" using t(2) by linarith
  obtain h' pl' where w: "et_llist_write (nevents_max s) pes (?h, et_llist_lock ?pl) = Some (int (length pes), h', pl')"
    "list_repr h' pl' (ins_events ?h pes (X k))" "same_events ?h h' (set (X k) \<union> set pes)"
    "\<forall>r. owner (h' r) = owner (?h r)"
    using et_llist_write_ok[OF r(1) r(2) hf(1) t(3) t(1) ne lt] by (simp only: kk take_all order_refl) blast
  define s' where "s' = upd_station k (\<lambda>ps. ps\<lparr>list_in := cond_signal (et_llist_unlock pl')\<rparr>) (s\<lparr>events := h'\<rparr>)"
  have "input_write pes k s = Some (Inr s')"
    using w(1) by (simp add: input_write_def s'_def upd_station_def)
  moreover have "conserved N M s' (X(k := ins_events ?h pes (X k))) rem' \<and> disp_frame M s s'"
  proof -
    have repr: "list_repr h' (cond_signal (et_llist_unlock pl')) (ins_events ?h pes (X k))" using w(2) by simp
    have ms: "mset (ins_events ?h pes (X k)) = mset (X k) + mset pes" by simp
    have hy: "0 < k \<longrightarrow> high_first ?h (ins_events ?h pes (X k))" using high_first_ins_events[OF r(2)] by simp
    show ?thesis unfolding s'_def
      using write_conserves[OF c split hf(2) k(2) repr ms hy w(3,4)] by blast
  qed
  ultimately show ?thesis by blast
qed

text \<open>Counting tries and moving the mark \<^verbatim>\<open>waslast\<close> touch no event.\<close>

lemma quiet_upd:
  assumes "conserved N M s X rem"
    and "\<And>ps h xs. list_repr h (list_in (f ps)) xs = list_repr h (list_in ps) xs"
    and "\<And>ps. f ps = ps\<lparr>list_in := list_in (f ps), waslast := waslast (f ps)\<rparr>"
  shows "conserved N M (upd_station k f s) X rem" "disp_frame M s (upd_station k f s)"
proof -
  show "conserved N M (upd_station k f s) X rem"
    using assms(1,2) by (simp add: conserved_def in_lists_def)
  show "disp_frame M s (upd_station k f s)" using assms(3) by (simp add: disp_frame_def)
qed

lemma set_tries_ok:
  assumes "conserved N M s X rem"
  shows "conserved N M (set_tries k t s) X rem" "disp_frame M s (set_tries k t s)"
  unfolding set_tries_def by (rule quiet_upd[OF assms]; simp add: list_repr_def)+

lemma set_waslast_ok:
  assumes "conserved N M s X rem"
  shows "conserved N M (upd_station k (\<lambda>ps. ps\<lparr>waslast := w\<rparr>) s) X rem"
    "disp_frame M s (upd_station k (\<lambda>ps. ps\<lparr>waslast := w\<rparr>) s)"
  by (rule quiet_upd[OF assms]; simp)+

section \<open>The state between two stations\<close>

definition remaining :: "nat list \<Rightarrow> disp \<Rightarrow> nat list" where
  "remaining all d = (if d_left d = 0 then [] else unput all (d_put d))"

definition disp_ok :: "nat \<Rightarrow> nat multiset \<Rightarrow> et_shm \<Rightarrow> (nat \<Rightarrow> nat list) \<Rightarrow> nat list \<Rightarrow> disp \<Rightarrow> bool" where
  "disp_ok N M s X all d \<longleftrightarrow> conserved N M s X (remaining all d) \<and> length (d_put d) = length all \<and>
     d_left d = int (length (remaining all d))"

definition first_ok :: "nat list \<Rightarrow> disp \<Rightarrow> bool" where
  "first_ok all d \<longleftrightarrow> (d_first d \<longrightarrow> d_put d = replicate (length all) False)"

definition pass_ok :: "nat \<Rightarrow> nat multiset \<Rightarrow> nat list \<Rightarrow> et_shm \<Rightarrow> (et_shm \<times> disp) pass \<Rightarrow> bool" where
  "pass_ok N M all s r \<longleftrightarrow> (\<exists>s' d' X'. r = Some (Inr (s', d')) \<and> disp_ok N M s' X' all d' \<and>
     disp_frame M s s')"

lemma pass_okI:
  "r = Some (Inr (s', d')) \<Longrightarrow> disp_ok N M s' X' all d' \<Longrightarrow> disp_frame M s s' \<Longrightarrow> pass_ok N M all s r"
  by (auto simp: pass_ok_def)

lemma pass_okE:
  assumes "pass_ok N M all s r"
  obtains s' d' X' where "r = Some (Inr (s', d'))" "disp_ok N M s' X' all d'" "disp_frame M s s'"
  using assms by (auto simp: pass_ok_def)

lemma pass_ok_trans: "disp_frame M s s1 \<Longrightarrow> pass_ok N M all s1 r \<Longrightarrow> pass_ok N M all s r"
  by (auto simp: pass_ok_def intro: disp_frame_trans)

text \<open>While events are left, they are those without a flag.\<close>

lemma disp_okD:
  assumes "disp_ok N M s X all d" "d_left d > 0"
  shows "remaining all d = unput all (d_put d)" "d_left d = int (length (unput all (d_put d)))"
    "unput all (d_put d) \<noteq> []" "conserved N M s X (unput all (d_put d))"
    "length (d_put d) = length all" "high_first (events s) (unput all (d_put d))"
  using assms by (auto simp: disp_ok_def remaining_def conserved_def)

lemma disp_ok_flag: "disp_ok N M s X all (d\<lparr>d_first := b\<rparr>) = disp_ok N M s X all d"
  by (simp add: disp_ok_def remaining_def)

lemma first_ok_unput: "first_ok all d \<Longrightarrow> d_first d \<Longrightarrow> unput all (d_put d) = all"
  by (simp add: first_ok_def unput_none)

lemma high_first_iff: "high_first h xs \<longleftrightarrow> sorted_wrt (\<lambda>p q. high h q \<longrightarrow> high h p) xs"
proof (induction xs)
  case (Cons p xs)
  then show ?case
    by (cases "high h p") (auto simp: high_first_def dest: set_dropWhileD)
qed (simp add: high_first_def)

lemma subseq_set: "subseq ys xs \<Longrightarrow> set ys \<subseteq> set xs"
  by (induction rule: list_emb.induct) auto

lemma sorted_wrt_subseq: "subseq ys xs \<Longrightarrow> sorted_wrt P xs \<Longrightarrow> sorted_wrt P ys"
  by (induction rule: list_emb.induct) (use subseq_set in fastforce)+

lemma high_first_subseq: "subseq ys xs \<Longrightarrow> high_first h xs \<Longrightarrow> high_first h ys"
  unfolding high_first_iff by (rule sorted_wrt_subseq)

section \<open>GrandCentral\<close>

lemma conserved_sys:
  "nevents_max (upd_sys f s) = nevents_max s \<Longrightarrow> conserved N M s X rem \<Longrightarrow> conserved N M (upd_sys f s) X rem"
  by (simp add: conserved_def in_lists_def)

lemma gc_drop_temps_frame:
  "stats (gc_drop_temps b n s) = stats s" "events (gc_drop_temps b n s) = events s"
  "nevents_max (gc_drop_temps b n s) = nevents_max s" "disp_frame M s (gc_drop_temps b n s)"
  by (auto simp: gc_drop_temps_def disp_frame_def system_lock_def system_unlock_def
      et_system_lock_def et_system_unlock_def)

lemma gc_write_ok:
  assumes c: "conserved N M s X rem" and ne: "rem \<noteq> []" and N: "0 < N"
  shows "\<exists>s'. gc_write rem s = Some (Inr s') \<and> conserved N M s' (X(0 := X 0 @ rem)) [] \<and> disp_frame M s s'"
proof -
  have sp: "mset rem = mset rem + mset []" by simp
  note t = conserved_take[OF c sp N]
  have r: "list_repr (events s) (et_llist_lock (list_in (stats s 0))) (X 0)"
    using c N by (simp add: conserved_def in_lists_def)
  obtain h' pl' where w: "et_llist_write_gc (nevents_max s) rem (events s, et_llist_lock (list_in (stats s 0))) =
      Some (ET_OK, h', pl')" "list_repr h' pl' (X 0 @ rem)" "same_events (events s) h' (set (X 0) \<union> set rem)"
    "\<forall>r. owner (h' r) = owner (events s r)"
    using et_llist_write_gc_ok[OF r t(1) ne t(2)] by blast
  define s' where "s' = upd_station 0 (\<lambda>ps. ps\<lparr>list_in := cond_signal (et_llist_unlock pl')\<rparr>) (s\<lparr>events := h'\<rparr>)"
  have "gc_write rem s = Some (Inr s')"
    using w(1) by (simp add: gc_write_def s'_def upd_station_def)
  moreover have "conserved N M s' (X(0 := X 0 @ rem)) [] \<and> disp_frame M s s'"
  proof -
    have repr: "list_repr h' (cond_signal (et_llist_unlock pl')) (X 0 @ rem)" using w(2) by simp
    have ms: "mset (X 0 @ rem) = mset (X 0) + mset rem" by simp
    have hf: "high_first (events s) []" by (simp add: high_first_def)
    show ?thesis unfolding s'_def
      using write_conserves[OF c sp hf N repr ms _ w(3,4)] by blast
  qed
  ultimately show ?thesis by blast
qed

lemma put_gc_ok:
  assumes ok: "disp_ok N M s X all d" and left: "d_left d > 0" and first: "first_ok all d" and N: "0 < N"
  shows "\<exists>s' d'. put_gc all (s, d) = Some (Inr (s', d')) \<and>
    disp_ok N M s' (X(0 := X 0 @ unput all (d_put d))) all d' \<and> disp_frame M s s' \<and> d_left d' = 0"
proof -
  let ?rem = "unput all (d_put d)"
  note D = disp_okD[OF ok left]
  have pes: "(if d_first d then all else ?rem) = ?rem" using first_ok_unput[OF first] by simp
  define n where "n = length (filter (\<lambda>p. temp (events s p) = ET_EVENT_TEMP) ?rem)"
  define b where "b = (d_temps d \<or> filter (\<lambda>p. temp (events s p) = ET_EVENT_TEMP) ?rem \<noteq> [])"
  define s1 where "s1 = gc_drop_temps b n s"
  have s1: "stats s1 = stats s" "events s1 = events s" "nevents_max s1 = nevents_max s" "disp_frame M s s1"
    unfolding s1_def by (rule gc_drop_temps_frame)+
  have "conserved N M s1 X ?rem" using D(4) s1 by (simp add: conserved_def in_lists_def)
  from gc_write_ok[OF this D(3) N] obtain s' where w: "gc_write ?rem s1 = Some (Inr s')"
    "conserved N M s' (X(0 := X 0 @ ?rem)) []" "disp_frame M s1 s'" by blast
  have "put_gc all (s, d) = Some (Inr (s', d\<lparr>d_left := 0, d_temps := b\<rparr>))"
    unfolding put_gc_def Let_def prod.case pes using D(3) w(1) by (simp add: b_def s1_def n_def)
  then show ?thesis using w D(5) disp_frame_trans[OF s1(4) w(3)] by (auto simp: disp_ok_def remaining_def)
qed

end
