(* ===== verification/EtPass.thy ===== *)
theory EtPass imports EtConserve begin

text \<open>
  A whole turn of a conductor returns, without a fault and without the jump to \<^verbatim>\<open>error\<close>, and
  conserves the events, whatever the stations' modes are, as long as a round-robin group takes part
  only as the first station downstream (see \<open>rr_later_deals_twice\<close> for what happens otherwise).
\<close>

section \<open>One serial station\<close>

definition func_ok :: "et_shm \<Rightarrow> nat \<Rightarrow> bool" where
  "func_ok s k \<longleftrightarrow> select_mode (config (stats s k)) \<noteq> ET_STATION_SELECT_ALL \<longrightarrow>
     func (st_data (stats s k)) \<noteq> NoFunc"

lemma func_ok_frame: "disp_frame M s s' \<Longrightarrow> func_ok s' k = func_ok s k"
  by (simp add: func_ok_def disp_frame_fields)

lemma selects_ok: "func (st_data (stats s k)) \<noteq> NoFunc \<Longrightarrow> \<exists>sel. selects ufun s k = Some sel"
  by (cases "func (st_data (stats s k))") (auto simp: selects_def Let_def)

lemma choose_total:
  assumes "func_ok s k"
  obtains pes wa put t where "choose_events ufun all k s d = Some (pes, wa, put, t)"
proof (cases "choose_events ufun all k s d")
  case None
  have "select_mode (config (stats s k)) = ET_STATION_SELECT_ALL \<or> (\<exists>sel. selects ufun s k = Some sel)"
    using selects_ok assms by (auto simp: func_ok_def)
  then show ?thesis using None
    by (auto simp: choose_events_def Let_def split: if_splits prod.splits)
qed (use that in \<open>metis prod_cases4\<close>)

lemma choose_splits:
  assumes "choose_events ufun all k s d = Some (pes, wa, put, t)"
  shows "if wa then d_first d \<and> pes = all \<and> put = d_put d else splits all (d_put d) pes put"
  using assms
  by (auto simp: choose_events_def Let_def split: if_splits prod.splits Option.bind_splits
      dest: take_prescaled_splits take_room_splits)

lemma put_plain_ok:
  assumes ok: "disp_ok N M s X all d" and left: "d_left d > 0" and first: "first_ok all d"
    and k: "0 < k" "k < N" and fn: "func_ok s k"
  shows "pass_ok N M all s (put_plain ufun all k (s, d))"
proof -
  note D = disp_okD[OF ok left]
  obtain pes wa put t where ch: "choose_events ufun all k s d = Some (pes, wa, put, t)"
    using choose_total[OF fn] .
  define s1 where "s1 = set_tries k t s"
  have s1: "conserved N M s1 X (unput all (d_put d))" "disp_frame M s s1"
    using set_tries_ok[OF D(4)] by (simp_all add: s1_def)
  have hi: "high_first (events s1) xs = high_first (events s) xs" for xs
    by (simp add: s1_def set_tries_def)
  define left' where "left' = (if wa then 0 else d_left d - int (length pes))"
  define rem' where "rem' = (if wa then [] else unput all put)"
  let ?d = "d\<lparr>d_put := put, d_left := left'\<rparr>"
  have sp: "mset (unput all (d_put d)) = mset pes + mset rem'" "length put = length all"
    "high_first (events s1) pes" "high_first (events s1) rem'"
  proof -
    have "mset (unput all (d_put d)) = mset pes + mset rem' \<and> length put = length all \<and>
        subseq pes (unput all (d_put d)) \<and> subseq rem' (unput all (d_put d))"
      using choose_splits[OF ch] first_ok_unput[OF first] D(5) by (cases wa) (auto simp: rem'_def splits_def)
    then show "mset (unput all (d_put d)) = mset pes + mset rem'" "length put = length all"
      "high_first (events s1) pes" "high_first (events s1) rem'"
      using high_first_subseq D(6) hi by blast+
  qed
  have left': "left' = int (length rem')" "remaining all ?d = rem'"
  proof -
    have "length (unput all (d_put d)) = length pes + length rem'" using arg_cong[OF sp(1), of size] by simp
    then show l: "left' = int (length rem')" using D(2) by (simp add: left'_def rem'_def)
    show "remaining all ?d = rem'" using l by (auto simp: remaining_def rem'_def left'_def)
  qed
  show ?thesis
  proof (cases "pes = []")
    case True
    have nwa: "\<not> wa" using choose_splits[OF ch] True D(3) first_ok_unput[OF first] by (auto split: if_splits)
    have "put_plain ufun all k (s, d) = Some (Inr (s1, ?d))"
      using ch True nwa by (simp add: put_plain_def left'_def s1_def)
    moreover have "conserved N M s1 X rem'" using s1(1) sp True by (simp add: conserved_def)
    ultimately show ?thesis using s1(2) left' sp(2) by (intro pass_okI) (auto simp: disp_ok_def)
  next
    case False
    from input_write_ok[OF s1(1) sp(1,3,4) k False] obtain s' where
      "input_write pes k s1 = Some (Inr s')" "disp_frame M s1 s'"
      "conserved N M s' (X(k := ins_events (events s1) pes (X k))) rem'" by blast
    moreover from this(1) have "put_plain ufun all k (s, d) = Some (Inr (s', ?d))"
      using ch False by (simp add: put_plain_def left'_def s1_def)
    ultimately show ?thesis
      using left' sp(2) disp_frame_trans[OF s1(2)] by (intro pass_okI) (auto simp: disp_ok_def)
  qed
qed

lemma put_station_ok:
  assumes "disp_ok N M s X all d" "d_left d > 0" "first_ok all d" "k < N" "func_ok s k"
  shows "pass_ok N M all s (put_station ufun all k (s, d))"
proof (cases "k = 0")
  case True
  then show ?thesis using put_gc_ok[OF assms(1-3)] assms(4) by (auto simp: put_station_def pass_ok_def)
next
  case False
  then show ?thesis using put_plain_ok[OF assms(1-3) _ assms(4,5)] by (simp add: put_station_def)
qed

section \<open>A group of parallel stations\<close>

lemma put_members_ok:
  assumes "disp_ok N M s X all d" "d_left d > 0" "first_ok all d" "\<forall>k\<in>set ks. k < N \<and> func_ok s k"
  shows "pass_ok N M all s (put_members ufun all ks (s, d))"
  using assms
proof (induction ks arbitrary: s d X)
  case Nil
  then show ?case by (auto simp: pass_ok_def)
next
  case (Cons k ks)
  from put_station_ok[OF Cons.prems(1-3), of k ufun] Cons.prems(4) obtain s1 d1 X1 where
    1: "put_station ufun all k (s, d) = Some (Inr (s1, d1))" "disp_ok N M s1 X1 all d1" "disp_frame M s s1"
    by (auto elim: pass_okE)
  let ?d = "d1\<lparr>d_first := False\<rparr>"
  have ok: "disp_ok N M s1 X1 all ?d" using 1(2) by (simp add: disp_ok_flag)
  show ?case
  proof (cases "d_left d1 > 0")
    case True
    have "pass_ok N M all s1 (put_members ufun all ks (s1, ?d))"
      using Cons.prems(4) True by (intro Cons.IH[OF ok]) (auto simp: first_ok_def func_ok_frame[OF 1(3)])
    then show ?thesis using 1(1,3) True by (auto simp: Let_def intro: pass_ok_trans)
  next
    case False
    then show ?thesis using 1 ok by (auto simp: Let_def intro: pass_okI)
  qed
qed

text \<open>Round-robin: the writes of the loop take the hands one after the other.\<close>

lemma rr_scan_ok:
  assumes "conserved N M s X rem"
  shows "conserved N M (snd (rr_scan ks b st s)) X rem \<and> disp_frame M s (snd (rr_scan ks b st s))"
  using assms
proof (induction ks arbitrary: b st s)
  case (Cons k ks)
  note w = set_waslast_ok[OF Cons.prems, of k 0]
  show ?case
    using Cons.IH[OF Cons.prems] Cons.IH[OF w(1)] disp_frame_trans[OF w(2)] by (auto simp: Let_def)
qed simp

lemma rr_scan_start:
  "fst (rr_scan ks b st s) = Some k \<Longrightarrow> st = Some k \<or> k \<in> set ks \<and> is_active s k"
proof (induction ks arbitrary: b st s)
  case (Cons a ks)
  have "is_active (upd_station a (\<lambda>ps. ps\<lparr>waslast := 0\<rparr>) s) = is_active s" by (auto simp: fun_eq_iff)
  with Cons show ?case by (fastforce simp: Let_def split: if_splits)
qed simp

lemma rr_deal_ok:
  assumes "conserved N M s X rem" "mset rem = mset (concat hands)" "length ks = length hands"
    and "\<forall>i<length ks. fst (snd (ks ! i)) = int (length (hands ! i))"
    and "\<forall>k\<in>set ks. 0 < fst k \<and> fst k < N" "\<forall>es\<in>set hands. high_first (events s) es"
  shows "\<exists>s' X'. rr_deal ks (concat hands) s = Some (Inr s') \<and> conserved N M s' X' [] \<and> disp_frame M s s'"
  using assms
proof (induction ks arbitrary: hands s X rem)
  case Nil
  then have "rem = []" by simp
  then show ?case using Nil by auto
next
  case (Cons a ks)
  obtain k n lst where a: "a = (k, n, lst)" by (metis prod_cases3)
  obtain es hs where hands: "hands = es # hs" using Cons.prems(3) by (cases hands) auto
  have n: "n = int (length es)" using Cons.prems(4) hands a by force
  have rest: "length ks = length hs" "\<forall>i<length ks. fst (snd (ks ! i)) = int (length (hs ! i))"
    "\<forall>k\<in>set ks. 0 < fst k \<and> fst k < N" "0 < k" "k < N"
    using Cons.prems(3,4,5) hands a by (auto simp: nth_Cons split: nat.splits)
  define s1 where "s1 = (if lst then upd_station k (\<lambda>ps. ps\<lparr>waslast := 1\<rparr>) s else s)"
  have s1: "conserved N M s1 X rem" "disp_frame M s s1" "events s1 = events s"
    using set_waslast_ok[OF Cons.prems(1)] Cons.prems(1) by (auto simp: s1_def)
  show ?case
  proof (cases "es = []")
    case True
    have "\<exists>s' X'. rr_deal ks (concat hs) s1 = Some (Inr s') \<and> conserved N M s' X' [] \<and> disp_frame M s1 s'"
      using Cons.prems(2,6) hands True rest s1 by (intro Cons.IH[OF s1(1)]) auto
    then show ?thesis using a hands True n disp_frame_trans[OF s1(2)] by (auto simp: Let_def simp flip: s1_def)
  next
    case False
    define s2 where "s2 = set_tries k (events_try (list_in (stats s1 k)) + of_nat (length es)) s1"
    have s2: "conserved N M s2 X rem" "disp_frame M s1 s2" "events s2 = events s"
      using set_tries_ok[OF s1(1)] s1(3) by (simp_all add: s2_def set_tries_def)
    have c2: "conserved N M s2 X (concat hands)" if "high_first (events s) (concat hands)"
      using s2 Cons.prems(2) that by (simp add: conserved_def)
    have c3: "\<exists>s3 Y. input_write es k s2 = Some (Inr s3) \<and> conserved N M s3 Y rem3 \<and> disp_frame M s2 s3"
      if "mset rem = mset es + mset rem3" "high_first (events s) rem3" for rem3
      using input_write_ok[OF s2(1) that(1) _ _ rest(4,5) False] that(2) Cons.prems(6) hands s2(3) by auto
    define rem3 where "rem3 = filter (\<lambda>p. p \<notin> set es) rem"
    have hf: "high_first (events s) rem3"
      using Cons.prems(1) high_first_subseq[OF subseq_filter_left] by (auto simp: rem3_def conserved_def)
    have "distinct rem" using conserved_distinct(1)[OF Cons.prems(1) rest(5)] by simp
    then have di: "distinct (es @ concat hs)"
      using Cons.prems(2) hands by (metis concat.simps(2) mset_eq_imp_distinct_iff)
    have ms: "mset rem3 = mset (concat hs)"
    proof -
      have "mset rem3 = filter_mset (\<lambda>p. p \<notin> set es) (mset (es @ concat hs))"
        using Cons.prems(2) hands by (simp add: rem3_def mset_filter del: mset_append)
      also have "\<dots> = mset (filter (\<lambda>p. p \<notin> set es) (es @ concat hs))" by (simp only: mset_filter)
      also have "filter (\<lambda>p. p \<notin> set es) (es @ concat hs) = concat hs"
        using di by (auto simp: filter_id_conv)
      finally show ?thesis .
    qed
    then have "mset rem = mset es + mset rem3" using Cons.prems(2) hands by simp
    from c3[OF this hf] obtain s3 Y where 3: "input_write es k s2 = Some (Inr s3)"
      "conserved N M s3 Y rem3" "disp_frame M s2 s3" by blast
    have hi: "high_first (events s3) xs = high_first (events s) xs" for xs
      using 3(3) s2(3) by (metis disp_frame_def high_first_cong)
    have "\<exists>s' X'. rr_deal ks (concat hs) s3 = Some (Inr s') \<and> conserved N M s' X' [] \<and> disp_frame M s3 s'"
      using Cons.prems(6) hands rest ms hi by (intro Cons.IH[OF 3(2)]) auto
    then show ?thesis using a hands False n 3(1) disp_frame_trans[OF disp_frame_trans[OF s1(2) s2(2)]]
        disp_frame_trans[OF 3(3)] by (auto simp: Let_def simp flip: s1_def s2_def)
  qed
qed

lemma round_robin_ok:
  assumes ok: "disp_ok N M s X all d" and left: "d_left d > 0" and put: "d_put d = replicate (length all) False"
    and act: "actives \<noteq> []" "\<forall>k\<in>set actives. 0 < k \<and> k < N"
  shows "pass_ok N M all s (round_robin all members actives (s, d))"
proof -
  note D = disp_okD[OF ok left]
  have all: "unput all (d_put d) = all" "d_left d = int (length all)" using D(2) put by (simp_all add: unput_none)
  let ?n = "length actives"
  let ?hands = "map (rr_hand all ?n) [0..<?n]"
  let ?shares = "rr_shares (d_left d) ?n"
  have n: "0 < ?n" using act(1) by simp
  obtain st s1 where sc: "rr_scan members False None s = (st, s1)" by force
  have s1: "conserved N M s1 X all" "disp_frame M s s1"
    using rr_scan_ok[OF D(4), of members False None] by (simp_all add: sc all)
  define start where "start = (case st of Some k \<Rightarrow> k | None \<Rightarrow> hd actives)"
  define order where "order = dropWhile (\<lambda>k. k \<noteq> start) actives @ takeWhile (\<lambda>k. k \<noteq> start) actives"
  define flags where "flags = map (\<lambda>i. int i = rr_last (d_left d) ?n) [0..<?n]"
  have tw: "length actives = length (takeWhile (\<lambda>k. k \<noteq> start) actives) + length (dropWhile (\<lambda>k. k \<noteq> start) actives)"
    by (metis length_append takeWhile_dropWhile_id)
  have order: "length order = ?n" "set order \<subseteq> set actives"
    using tw by (auto simp: order_def dest: set_takeWhileD set_dropWhileD)
  have es: "(if d_first d then rr_first all ?shares else rr_later all (d_put d) ?shares) = concat ?hands"
    using rr_first_hands[of all ?n] rr_later_none[OF n, of all] by (simp add: all(2) put)
  have ms: "mset (concat ?hands) = mset all" by (rule mset_rr_hands[OF n])
  have len: "int (length (concat ?hands)) \<le> nevents_max s1"
  proof -
    have "mset all \<subseteq># M" using s1(1) by (auto simp: conserved_def)
    then have "length all \<le> size M" by (metis size_mset size_mset_mono)
    then show ?thesis using s1(1) mset_eq_length[OF ms] by (simp add: conserved_def)
  qed
  let ?ks = "zip order (zip ?shares flags)"
  have hi: "high_first (events s1) xs = high_first (events s) xs" for xs
    using s1(2) by (metis disp_frame_def high_first_cong)
  have "\<exists>s' X'. rr_deal ?ks (concat ?hands) s1 = Some (Inr s') \<and> conserved N M s' X' [] \<and> disp_frame M s1 s'"
  proof (rule rr_deal_ok[OF s1(1) ms[symmetric]])
    show "length ?ks = length ?hands" using order by (simp add: flags_def)
    show "\<forall>i<length ?ks. fst (snd (?ks ! i)) = int (length (?hands ! i))"
      using order rr_shares_fair(2)[OF n, of "d_left d"] left
      by (auto simp: flags_def rr_hand_length all(2)[symmetric] intro!: nth_mem)
    show "\<forall>k\<in>set ?ks. 0 < fst k \<and> fst k < N" using act(2) order(2) by (auto dest!: set_zip_leftD)
    show "\<forall>es\<in>set ?hands. high_first (events s1) es"
      using high_first_subseq[OF subseq_rr_hand] D(6) by (auto simp: hi all)
  qed
  then obtain s' X' where dl: "rr_deal ?ks (concat ?hands) s1 = Some (Inr s')" "conserved N M s' X' []"
    "disp_frame M s1 s'" by blast
  have "round_robin all members actives (s, d) = Some (Inr (s', d\<lparr>d_left := 0\<rparr>))"
    unfolding round_robin_def Let_def prod.case sc start_def[symmetric] order_def[symmetric]
      flags_def[symmetric] es using dl(1) len rr_shares_sum[OF n, of "d_left d"] left by simp
  then show ?thesis using dl disp_frame_trans[OF s1(2) dl(3)] D(5)
    by (intro pass_okI[of _ s' "d\<lparr>d_left := 0\<rparr>" N M X']) (auto simp: disp_ok_def remaining_def)
qed

text \<open>Equal-cue: the rest is the part of the array not dealt yet, or the events without a flag.\<close>

lemma eq_deal_ok:
  assumes "conserved N M s X rem" "rem = (if d_first d then es else unput all (d_put d))"
    and "d_left d = int (length rem)" "(\<Sum>x\<leftarrow>zs. snd x) = int (length rem)"
    and "\<forall>x\<in>set zs. 0 \<le> snd x \<and> 0 < fst x \<and> fst x < N" "length (d_put d) = length all"
  shows "\<exists>s' d' X'. eq_deal zs all es (s, d) = Some (Inr (s', d')) \<and> conserved N M s' X' [] \<and>
    d_left d' = 0 \<and> length (d_put d') = length all \<and> disp_frame M s s'"
  using assms
proof (induction zs arbitrary: es s d X rem)
  case Nil
  then show ?case by auto
next
  case (Cons z zs)
  obtain k n where z: "z = (k, n)" by force
  have k: "0 < k" "k < N" "0 \<le> n" using Cons.prems(5) z by auto
  have nn: "0 \<le> (\<Sum>x\<leftarrow>zs. snd x)" using Cons.prems(5) by (intro sum_list_nonneg) auto
  show ?case
  proof (cases "n < 1")
    case True
    then have "n = 0" using k by simp
    then show ?thesis using Cons.IH[OF Cons.prems(1-3)] Cons.prems(4-6) z by auto
  next
    case False
    obtain pes put where pp: "(if d_first d then (take (nat n) es, d_put d) else take_unput n all (d_put d)) = (pes, put)"
      by force
    define rem' where "rem' = (if d_first d then drop (nat n) es else unput all put)"
    have n_le: "n \<le> int (length rem)" using Cons.prems(4) nn z by simp
    have sp: "mset rem = mset pes + mset rem' \<and> subseq pes rem \<and> subseq rem' rem \<and> length put = length all"
    proof (cases "d_first d")
      case True
      then have "es = pes @ rem'" "rem = es"
        using pp Cons.prems(2) append_take_drop_id[of "nat n" es] by (auto simp: rem'_def)
      then show ?thesis using True pp Cons.prems(6) by auto
    next
      case False
      then show ?thesis using pp Cons.prems(2,6) take_unput_splits[of n all "d_put d" pes put]
        by (simp add: rem'_def splits_def)
    qed
    have len: "int (length pes) = n" "pes \<noteq> []"
    proof -
      have "pes = take (nat n) rem"
        using pp Cons.prems(2) take_unput_events[of n all "d_put d"] False by (auto split: if_splits)
      then show "int (length pes) = n" using n_le k by simp
      then show "pes \<noteq> []" using False by auto
    qed
    have len': "length rem = length pes + length rem'" using arg_cong[OF conjunct1[OF sp], of size] by simp
    define s1 where "s1 = set_tries k (events_try (list_in (stats s k)) + of_int n) s"
    have s1: "conserved N M s1 X rem" "disp_frame M s s1"
      using set_tries_ok[OF Cons.prems(1)] by (simp_all add: s1_def)
    have hf: "high_first (events s1) pes" "high_first (events s1) rem'"
      using sp s1(1) high_first_subseq by (auto simp: conserved_def)
    from input_write_ok[OF s1(1) conjunct1[OF sp] hf k(1,2) len(2)] obtain s2 Y where
      2: "input_write pes k s1 = Some (Inr s2)" "conserved N M s2 Y rem'" "disp_frame M s1 s2" by blast
    let ?d = "d\<lparr>d_put := put, d_left := d_left d - n\<rparr>"
    have "\<exists>s' d' X'. eq_deal zs all (drop (nat n) es) (s2, ?d) = Some (Inr (s', d')) \<and> conserved N M s' X' [] \<and>
        d_left d' = 0 \<and> length (d_put d') = length all \<and> disp_frame M s2 s'"
      using Cons.prems(3,4,5) z len len' sp by (intro Cons.IH[OF 2(2)]) (auto simp: rem'_def)
    moreover have "eq_deal (z # zs) all es (s, d) = eq_deal zs all (drop (nat n) es) (s2, ?d)"
      using z False len(1) 2(1) by (simp only: eq_deal.simps if_False Let_def pp prod.case s1_def[symmetric]) simp
    ultimately show ?thesis using disp_frame_trans[OF disp_frame_trans[OF s1(2) 2(3)]] by metis
  qed
qed

lemma equal_cue_ok:
  assumes ok: "disp_ok N M s X all d" and left: "d_left d > 0" and first: "first_ok all d"
    and act: "actives \<noteq> []" "\<forall>k\<in>set actives. 0 < k \<and> k < N"
  shows "pass_ok N M all s (equal_cue all actives (s, d))"
proof -
  note D = disp_okD[OF ok left]
  let ?counts = "map (\<lambda>k. cnt (list_in (stats s k))) actives"
  obtain r where r: "eq_shares (d_left d) ?counts = Some r" "length r = length actives"
    "sum_list r = d_left d" "\<forall>i<length actives. 0 \<le> r ! i"
    using eq_shares_ok[of ?counts "d_left d"] act(1) left by auto
  have rem: "unput all (d_put d) = (if d_first d then all else unput all (d_put d))"
    using first_ok_unput[OF first] by simp
  have "\<forall>x\<in>set r. 0 \<le> x" using r(2,4) by (metis in_set_conv_nth)
  then have "\<forall>x\<in>set (zip actives r). 0 \<le> snd x \<and> 0 < fst x \<and> fst x < N"
    using act(2) by (auto dest: set_zip_leftD set_zip_rightD)
  moreover have "(\<Sum>x\<leftarrow>zip actives r. snd x) = int (length (unput all (d_put d)))"
    using r(2,3) D(2) by (simp add: map_snd_zip[OF r(2)[symmetric]] del: map_snd_zip)
  ultimately obtain s' d' X' where e: "eq_deal (zip actives r) all all (s, d) = Some (Inr (s', d'))"
    "conserved N M s' X' []" "d_left d' = 0" "length (d_put d') = length all" "disp_frame M s s'"
    using eq_deal_ok[OF D(4) rem D(2)] D(5) by blast
  then show ?thesis using r(1)
    by (intro pass_okI[of _ s' d' N M X']) (auto simp: equal_cue_def disp_ok_def remaining_def)
qed

section \<open>The walk to GrandCentral\<close>

text \<open>
  \<open>ready\<close>: station \<open>k\<close> can take part in a distribution. Its group has no cycle, and each routine
  that the conductor calls is there. \<open>deals\<close>: it is the head of a round-robin group.
\<close>

definition ready :: "nat \<Rightarrow> et_shm \<Rightarrow> nat \<Rightarrow> bool" where
  "ready N s k \<longleftrightarrow> k < N \<and> func_ok s k \<and>
     (flow_mode (config (stats s k)) = ET_STATION_PARALLEL \<longrightarrow>
       (case par_group (nat (c_nstations (sys_config (sys s)))) (stats s) k of
          None \<Rightarrow> False | Some ks \<Rightarrow> \<forall>m\<in>set ks. 0 < m \<and> m < N \<and> func_ok s m))"

definition deals :: "et_shm \<Rightarrow> nat \<Rightarrow> bool" where
  "deals s k \<longleftrightarrow> flow_mode (config (stats s k)) = ET_STATION_PARALLEL \<and>
     select_mode (config (stats s k)) = ET_STATION_SELECT_RROBIN"

lemma ready_frame: "disp_frame M s s' \<Longrightarrow> ready N s' k = ready N s k"
  by (simp add: ready_def disp_frame_fields disp_frame_par_group func_ok_frame cong: option.case_cong)

lemma deals_frame: "disp_frame M s s' \<Longrightarrow> deals s' k = deals s k"
  by (simp add: deals_def disp_frame_fields)

lemma visit_ok:
  assumes ok: "disp_ok N M s X all d" and left: "d_left d > 0" and first: "first_ok all d"
    and rd: "ready N s k" and rr: "deals s k \<longrightarrow> d_put d = replicate (length all) False"
  shows "pass_ok N M all s (visit ufun all k (s, d))"
proof (cases "flow_mode (config (stats s k)) = ET_STATION_PARALLEL")
  case False
  then show ?thesis using put_station_ok[OF ok left first, of k ufun] rd ok
    by (auto simp: visit_def ready_def intro: pass_okI)
next
  case par: True
  then obtain ks where ks: "par_group (nat (c_nstations (sys_config (sys s)))) (stats s) k = Some ks"
    "\<forall>m\<in>set ks. 0 < m \<and> m < N \<and> func_ok s m" using rd by (auto simp: ready_def split: option.splits)
  let ?act = "filter (is_active s) ks"
  show ?thesis
  proof (cases "?act = []")
    case True
    then show ?thesis using par ks(1) ok by (auto simp: visit_def intro: pass_okI)
  next
    case ne: False
    have act: "\<forall>m\<in>set ?act. 0 < m \<and> m < N" "\<forall>m\<in>set ?act. m < N \<and> func_ok s m" using ks(2) by auto
    have "pass_ok N M all s (round_robin all ks ?act (s, d))" if "deals s k"
      using round_robin_ok[OF ok left _ ne act(1)] rr that by blast
    moreover note equal_cue_ok[OF ok left first ne act(1)] put_members_ok[OF ok left first act(2), of ufun]
    ultimately show ?thesis using par ks(1) ne by (simp add: visit_def deals_def Let_def)
  qed
qed

text \<open>The stations that a conductor visits, starting with \<open>k\<close>, up to GrandCentral.\<close>

fun route :: "nat \<Rightarrow> et_shm \<Rightarrow> nat \<Rightarrow> nat list option" where
  "route 0 s k = None"
| "route (Suc f) s k = (if k = 0 then Some [0] else do { ks \<leftarrow> route f s (next_main s k); Some (k # ks) })"

lemma route_frame: "disp_frame M s s' \<Longrightarrow> route f s' k = route f s k"
  by (induction f arbitrary: k) (simp_all add: disp_frame_fields)

definition gc_ok :: "et_shm \<Rightarrow> bool" where
  "gc_ok s \<longleftrightarrow> is_active s 0 \<and> flow_mode (config (stats s 0)) = ET_STATION_SERIAL"

lemma pass_loop_ok:
  assumes "disp_ok N M s X all d" "first_ok all d" "route f s k = Some ks" "\<forall>m\<in>set ks. ready N s m"
    "gc_ok s" "deals s k \<longrightarrow> d_put d = replicate (length all) False" "\<forall>m\<in>set (tl ks). \<not> deals s m"
  shows "\<exists>s' d' X'. pass_loop f ufun all k (s, d) = Some (Inr (s', d')) \<and> disp_ok N M s' X' all d' \<and>
    disp_frame M s s' \<and> d_left d' = 0"
  using assms
proof (induction f arbitrary: s d X k ks)
  case (Suc f)
  show ?case
  proof (cases "d_left d > 0")
    case False
    then have "d_left d = 0" using Suc.prems(1) by (simp add: disp_ok_def)
    then show ?thesis using Suc.prems(1) by auto
  next
    case left: True
    show ?thesis
    proof (cases "k = 0")
      case True
      have N: "0 < N" using Suc.prems(3,4) True by (auto simp: ready_def)
      have "visit ufun all 0 (s, d) = put_gc all (s, d)"
        using Suc.prems(5) by (simp add: visit_def gc_ok_def put_station_def)
      then show ?thesis using put_gc_ok[OF Suc.prems(1) left Suc.prems(2) N] left True by auto
    next
      case k: False
      obtain ks' where ks': "route f s (next_main s k) = Some ks'" "ks = k # ks'"
        using Suc.prems(3) k by (auto split: Option.bind_splits)
      have "pass_ok N M all s (visit ufun all k (s, d))"
        using visit_ok[OF Suc.prems(1) left Suc.prems(2)] Suc.prems(4,6) ks'(2) by simp
      then obtain s1 d1 X1 where 1: "visit ufun all k (s, d) = Some (Inr (s1, d1))"
        "disp_ok N M s1 X1 all d1" "disp_frame M s s1" by (rule pass_okE)
      note fr = 1(3)
      have nxt: "route f s1 (next_main s k) = Some ks'" using ks'(1) route_frame[OF fr] by simp
      have hd: "next_main s k \<in> set ks'" using ks'(1) by (cases f) (auto split: if_splits Option.bind_splits)
      have ok1: "disp_ok N M s1 X1 all (d1\<lparr>d_first := False\<rparr>)" using 1(2) by (simp add: disp_ok_flag)
      have tl: "set (tl ks') \<subseteq> set ks'" by (cases ks') auto
      have "\<exists>s' d' X'. pass_loop f ufun all (next_main s k) (s1, d1\<lparr>d_first := False\<rparr>) = Some (Inr (s', d')) \<and>
          disp_ok N M s' X' all d' \<and> disp_frame M s1 s' \<and> d_left d' = 0"
        using Suc.prems(4,5,7) ks'(2) hd tl disp_frame_fields[OF fr]
        by (intro Suc.IH[OF ok1 _ nxt])
          (auto simp: first_ok_def ready_frame[OF fr] deals_frame[OF fr] gc_ok_def)
      then show ?thesis using left k 1(1) disp_frame_trans[OF fr] disp_frame_fields(9)[OF fr] by auto
    qed
  qed
qed simp

section \<open>A whole turn\<close>

lemma in_lists_cong:
  "(\<And>k. list_in (stats s' k) = list_in (stats s k)) \<Longrightarrow> events s' = events s \<Longrightarrow> in_lists N s' X = in_lists N s X"
  by (simp add: in_lists_def)

definition passed :: "nat \<Rightarrow> nat \<Rightarrow> nat list \<Rightarrow> (nat \<Rightarrow> nat list) \<Rightarrow> et_shm \<Rightarrow> et_shm \<Rightarrow> bool" where
  "passed N me all X s s' \<longleftrightarrow> (\<exists>X'. in_lists N s' X' \<and> total_in N X' = total_in N X + mset all) \<and>
     out_repr (events s') (list_out (stats s' me)) [] \<and>
     events_out (list_out (stats s' me)) = events_out (list_out (stats s me)) + of_nat (length all) \<and>
     \<not> mutex (list_out (stats s' me)) \<and> \<not> st_mutex (stats s' me) \<and>
     (\<forall>k. k \<noteq> me \<longrightarrow> stats s' k = (stats s k)\<lparr>list_in := list_in (stats s' k), waslast := waslast (stats s' k)\<rparr>) \<and>
     same_events (events s) (events s') (set_mset (total_in N X + mset all)) \<and>
     (\<forall>p. owner (events s' p) = owner (events s p)) \<and>
     sys s' = (sys s)\<lparr>ntemps := ntemps (sys s'), sys_mutex := sys_mutex (sys s')\<rparr>"

definition can_pass :: "nat \<Rightarrow> nat \<Rightarrow> et_shm \<Rightarrow> bool" where
  "can_pass N me s \<longleftrightarrow> (let nst = nat (c_nstations (sys_config (sys s))) in
     case (if flow_mode (config (stats s me)) = ET_STATION_PARALLEL
           then first_parallel nst (stats s) me else Some me) of
       None \<Rightarrow> False
     | Some first \<Rightarrow> (case route (Suc nst) s (next_main s first) of
         None \<Rightarrow> False
       | Some ks \<Rightarrow> gc_ok s \<and> (\<forall>k\<in>set ks. ready N s k) \<and> (\<forall>k\<in>set (tl ks). \<not> deals s k)))"

theorem conductor_pass_ok:
  assumes out: "out_repr (events s) (list_out (stats s me)) all" "all \<noteq> []"
    and ins: "in_lists N s X" and M: "\<forall>p. count (total_in N X + mset all) p \<le> 1"
    and size: "int (size (total_in N X + mset all)) \<le> nevents_max s"
    and pr: "prio_ok (events s) (set_mset (total_in N X + mset all))" and cp: "can_pass N me s"
  shows "\<exists>s' t. conductor_pass ufun me temps0 s = Some (Inr (s', t)) \<and> passed N me all X s s'"
proof -
  let ?M = "total_in N X + mset all" and ?nst = "nat (c_nstations (sys_config (sys s)))"
  have r: "list_repr (events s) (et_llist_lock (list_out (stats s me))) all" "high_first (events s) all"
    using out(1) by (simp_all add: out_repr_def)
  obtain pl where rd: "et_llist_read (events s) (et_llist_lock (list_out (stats s me))) = Some (int (length all), all, pl)"
    "out_repr (events s) pl []" "events_out pl = events_out (list_out (stats s me)) + of_nat (length all)"
    using et_llist_read_ok[OF r(1) out(2)] by auto
  define s1 where "s1 = upd_station me et_transfer_lock (upd_station me (\<lambda>ps. ps\<lparr>list_out := et_llist_unlock pl\<rparr>) s)"
  have s1: "events s1 = events s" "sys s1 = sys s" "next_main s1 = next_main s"
    "\<And>k. list_in (stats s1 k) = list_in (stats s k)" "\<And>k. config (stats s1 k) = config (stats s k)"
    "\<And>k. st_data (stats s1 k) = st_data (stats s k)" "\<And>k. nextparallel (stats s1 k) = nextparallel (stats s k)"
    "\<And>k. prevparallel (stats s1 k) = prevparallel (stats s k)"
    by (auto simp: s1_def et_transfer_lock_def next_main_def fun_eq_iff)
  have fp: "first_parallel f (stats s1) k = first_parallel f (stats s) k" for f k
    by (induction f arbitrary: k) (simp_all add: s1)
  have pg: "par_group f (stats s1) k = par_group f (stats s) k" for f k
    by (induction f arbitrary: k) (simp_all add: s1)
  have rt: "route f s1 k = route f s k" for f k by (induction f arbitrary: k) (simp_all add: s1)
  have same: "ready N s1 k = ready N s k" "deals s1 k = deals s k" "gc_ok s1 = gc_ok s" for k
    by (simp_all add: ready_def deals_def gc_ok_def func_ok_def s1 pg cong: option.case_cong)
  obtain first ks where f: "(if flow_mode (config (stats s me)) = ET_STATION_PARALLEL
      then first_parallel ?nst (stats s) me else Some me) = Some first"
    "route (Suc ?nst) s (next_main s first) = Some ks" "gc_ok s" "\<forall>k\<in>set ks. ready N s k"
    "\<forall>k\<in>set (tl ks). \<not> deals s k"
    using cp by (auto simp: can_pass_def Let_def split: option.splits)
  define d where "d = \<lparr>d_put = replicate (length all) False, d_left = int (length all), d_first = True, d_temps = temps0\<rparr>"
  have "in_lists N s1 X" using ins by (simp add: in_lists_def s1)
  then have ok: "disp_ok N ?M s1 X all d" "first_ok all d"
    using out(2) M size pr r(2) s1 by (auto simp: disp_ok_def conserved_def d_def remaining_def unput_none first_ok_def)
  have "\<exists>s' d' X'. pass_loop (Suc ?nst) ufun all (next_main s first) (s1, d) = Some (Inr (s', d')) \<and>
      disp_ok N ?M s' X' all d' \<and> disp_frame ?M s1 s' \<and> d_left d' = 0"
    using f(2-5) by (intro pass_loop_ok[OF ok]) (auto simp: rt same d_def)
  then obtain s2 d2 X2 where 2: "pass_loop (Suc ?nst) ufun all (next_main s first) (s1, d) = Some (Inr (s2, d2))"
    "disp_ok N ?M s2 X2 all d2" "disp_frame ?M s1 s2" "d_left d2 = 0" by blast
  let ?s' = "upd_station me et_transfer_unlock s2"
  have cpass: "conductor_pass ufun me temps0 s = Some (Inr (?s', d_temps d2))"
  proof -
    have f1: "(if flow_mode (config (stats s1 me)) = ET_STATION_PARALLEL
        then first_parallel (nat (c_nstations (sys_config (sys s1)))) (stats s1) me else Some me) = Some first"
      using f(1) by (auto simp: fp s1 split: if_splits)
    have 3: "pass_loop (Suc (nat (c_nstations (sys_config (sys s1))))) ufun all (next_main s1 first) (s1, d) =
        Some (Inr (s2, d2))" using 2(1) by (simp only: s1)
    show ?thesis
      unfolding conductor_pass_def rd(1) Let_def
      by (simp only: bind.bind_lunit prod.case s1_def[symmetric] f1 d_def[symmetric] 3 sum.case) simp
  qed
  have c2: "in_lists N s2 X2" "total_in N X2 = ?M" using 2(2,4) by (auto simp: disp_ok_def conserved_def remaining_def)
  have fr: "\<And>k. stats s2 k = (stats s1 k)\<lparr>list_in := list_in (stats s2 k), waslast := waslast (stats s2 k)\<rparr>"
    "same_events (events s) (events s2) (set_mset ?M)" "\<forall>p. owner (events s2 p) = owner (events s p)"
    using 2(3) s1(1) unfolding disp_frame_def by auto
  have sc: "sys s2 = (sys s)\<lparr>ntemps := ntemps (sys s2), sys_mutex := sys_mutex (sys s2)\<rparr>"
    using 2(3) by (simp add: disp_frame_def s1)
  have lo: "list_out (stats s2 me) = et_llist_unlock pl"
    using disp_frame_fields(7)[OF 2(3), of me] by (simp add: s1_def et_transfer_lock_def)
  have other: "stats s2 k = (stats s k)\<lparr>list_in := list_in (stats s2 k), waslast := waslast (stats s2 k)\<rparr>"
    if "k \<noteq> me" for k using fr(1)[of k] that by (simp add: s1_def)
  have "passed N me all X s ?s'"
    unfolding passed_def
  proof (intro conjI)
    show "\<exists>X'. in_lists N ?s' X' \<and> total_in N X' = ?M"
      using c2 by (auto simp: in_lists_def et_transfer_unlock_def)
    show "out_repr (events ?s') (list_out (stats ?s' me)) []"
      using rd(2) lo by (simp add: et_transfer_unlock_def out_repr_def list_repr_def high_first_def)
  qed (use rd(3) lo other fr sc in \<open>auto simp: et_transfer_unlock_def\<close>)
  with cpass show ?thesis by blast
qed

end
