(* ===== verification/EtEventOps.thy ===== *)
theory EtEventOps imports EtStationOps begin

text \<open>
  The calls of an attachment on events (\<^verbatim>\<open>et_event.c\<close>): new, get, put and dump, of one event or of
  an array of events.

  The result of a read is a \<open>run\<close>: \<open>Done\<close>, or \<open>Wait\<close>/\<open>Retry\<close> while the thread sleeps, in which case
  the \<open>_wake\<close> definition is what it does when it wakes up. The argument \<open>etr\<close> is what the remote
  and no-share versions of a call do. An attachment number beyond the array of attachments is a
  fault: the calls check only that it is not negative.
\<close>

abbreviation (input) ET_WAIT_MASK :: int where "ET_WAIT_MASK \<equiv> 3"

definition upd_event :: "nat \<Rightarrow> (et_event \<Rightarrow> et_event) \<Rightarrow> et_shm \<Rightarrow> et_shm" where
  "upd_event p f s = s\<lparr>events := (events s)(p := f (events s p))\<rparr>"

definition att_ix :: "int \<Rightarrow> nat option" where
  "att_ix att = (if 0 \<le> att \<and> att < ET_ATTACHMENTS_MAX then Some (nat att) else None)"

definition stat_ix :: "et_shm \<Rightarrow> nat \<Rightarrow> nat option" where
  "stat_ix s a = (let i = at_stat (attach (sys s) a) in if i < 0 then None else Some (nat i))"

section \<open>Time\<close>

text \<open>The absolute time of a timed wait: seconds and nanoseconds of the delta and of the clock.\<close>

definition abs_time :: "int \<times> int \<Rightarrow> int \<times> int \<Rightarrow> int \<times> int" where
  "abs_time delta now = (let nsec_total = snd delta + snd now in
     if nsec_total \<ge> 1000000000 then (fst delta + fst now + 1, nsec_total - 1000000000)
     else (fst delta + fst now, nsec_total))"

section \<open>New events\<close>

definition et_event_make :: "et_id \<Rightarrow> nat \<Rightarrow> u64 \<Rightarrow> et_shm \<Rightarrow> int \<times> et_shm" where
  "et_event_make e p sz s = (
     let s = system_lock s in
     if ntemps (sys s) \<ge> c_ntemps (sys_config (sys s)) then (ET_ERROR_TOOMANY, system_unlock s)
     else let s = system_unlock (upd_sys (\<lambda>y. y\<lparr>ntemps := ntemps y + 1\<rparr>) s) in
     case env_temp_create e p sz of
       None \<Rightarrow> (ET_ERROR, s)
     | Some d \<Rightarrow> (ET_OK, upd_event p (\<lambda>pe. (et_init_event_' pe)\<lparr>temp := ET_EVENT_TEMP, pdata := d,
                   ev_length := sz, memsize := sz\<rparr>) s))"

text \<open>
  The loop with the label \<^verbatim>\<open>try_again\<close>. Each element of \<open>waits\<close> is one stay in the loop that sleeps
  until a temporary event is free: what the other threads do meanwhile, and whether the time of 30
  seconds is up. With no element left the thread is still asleep: \<open>None\<close>.
\<close>

type_synonym waits = "(et_shm \<Rightarrow> et_shm \<times> bool) list"

fun make_retry :: "et_id \<Rightarrow> nat \<Rightarrow> u64 \<Rightarrow> waits \<Rightarrow> et_shm \<Rightarrow> (int \<times> waits \<times> et_shm) option" where
  "make_retry e p sz [] s = (case et_event_make e p sz s of (st, s) \<Rightarrow>
     if st = ET_ERROR_TOOMANY then None else Some (st, [], s))"
| "make_retry e p sz (w # ws) s = (case et_event_make e p sz s of (st, s) \<Rightarrow>
     if st = ET_ERROR_TOOMANY then
       (case w s of (s, up) \<Rightarrow> if up then Some (st, ws, s) else make_retry e p sz ws s)
     else Some (st, w # ws, s))"

fun make_temps :: "et_id \<Rightarrow> u64 \<Rightarrow> nat list \<Rightarrow> waits \<Rightarrow> et_shm \<Rightarrow> (int \<times> et_shm) option" where
  "make_temps e sz [] ws s = Some (ET_OK, s)"
| "make_temps e sz (p # ps) ws s = do {
     (st, ws, s) \<leftarrow> make_retry e p sz ws s;
     if st \<noteq> ET_OK then Some (st, s) else make_temps e sz ps ws s }"

definition init_normal :: "et_id \<Rightarrow> u64 \<Rightarrow> nat \<Rightarrow> et_shm \<Rightarrow> et_shm" where
  "init_normal e sz p s =
     upd_event p (\<lambda>pe. (et_init_event_' pe)\<lparr>pdata := data pe + id_offset e, ev_length := sz,
       memsize := event_size (sys_config (sys s))\<rparr>) s"

text \<open>What follows a successful read from GrandCentral's input list.\<close>

definition new_finish :: "et_id \<Rightarrow> nat \<Rightarrow> u64 \<Rightarrow> waits \<Rightarrow> nat list \<Rightarrow> read_step" where
  "new_finish e a sz ws pes s = do {
     (st, s) \<leftarrow> (if sz > event_size (sys_config (sys s)) then make_temps e sz pes ws s
               else Some (ET_OK, fold (init_normal e sz) pes s));
     if st \<noteq> ET_OK then Some (Done (st, []), s)
     else Some (Done (ET_OK, pes),
            upd_attach a (\<lambda>t. t\<lparr>events_make := events_make t + of_nat (length pes)\<rparr>) s) }"

text \<open>
  The common treatment of a read's result: an error ends the call, and a wakeup on a dead system is
  reported as such.
\<close>

definition after_read :: "et_id \<Rightarrow> (nat list \<Rightarrow> read_step) \<Rightarrow> read_step \<Rightarrow> read_step" where
  "after_read e fin rd s = do {
     (r, s) \<leftarrow> rd s;
     case r of
       Done (st, pes) \<Rightarrow>
         (if st \<noteq> ET_OK then
            Some (Done (if st = ET_ERROR_WAKEUP \<and> et_alive e = 0 then ET_ERROR_DEAD else st, []), s)
          else fin pes s)
     | _ \<Rightarrow> Some (r, s) }"

definition bad_mode :: "int \<Rightarrow> bool" where
  "bad_mode mode \<longleftrightarrow> (let wait = mode AND ET_WAIT_MASK in
     wait \<noteq> ET_SLEEP \<and> wait \<noteq> ET_TIMED \<and> wait \<noteq> ET_ASYNC)"

text \<open>\<open>clip\<close>: not more temporary events than the system allows. \<open>delta\<close>: a delta time is given.\<close>

definition clip :: "u64 \<Rightarrow> int \<Rightarrow> et_shm \<Rightarrow> int" where
  "clip sz n s = (let c = sys_config (sys s) in
     if event_size c < sz \<and> c_ntemps c < n then c_ntemps c else n)"

definition et_events_new_group ::
  "et_id \<Rightarrow> read_step \<Rightarrow> int \<Rightarrow> int \<Rightarrow> bool \<Rightarrow> u64 \<Rightarrow> int \<Rightarrow> int \<Rightarrow> waits \<Rightarrow> read_step" where
  "et_events_new_group e etr att mode delta sz n grp ws s = (
     let wait = mode AND ET_WAIT_MASK in
     if n = 0 then Some (Done (ET_OK, []), s)
     else if att < 0 \<or> n < 0 \<or> grp < 1 \<or> bad_mode mode then Some (Done (ET_ERROR, []), s)
     else if locality e \<noteq> ET_LOCAL then etr s
     else if grp > groupCount (sys_config (sys s)) then Some (Done (ET_ERROR, []), s)
     else if et_alive e = 0 then Some (Done (ET_ERROR_DEAD, []), s)
     else do {
       a \<leftarrow> att_ix att;
       if at_status (attach (sys s) a) \<noteq> ET_ATT_ACTIVE then Some (Done (ET_ERROR, []), s)
       else if wait = ET_TIMED \<and> \<not> delta then Some (Done (ET_ERROR, []), s)
       else after_read e (new_finish e a sz ws)
              (et_station_nread_group 0 wait a (clip sz n s) grp) s })"

definition et_event_new_group ::
  "et_id \<Rightarrow> read_step \<Rightarrow> int \<Rightarrow> int \<Rightarrow> bool \<Rightarrow> u64 \<Rightarrow> int \<Rightarrow> waits \<Rightarrow> read_step" where
  "et_event_new_group e etr att mode delta sz grp ws =
     et_events_new_group e etr att mode delta sz 1 grp ws"

definition et_events_new ::
  "et_id \<Rightarrow> read_step \<Rightarrow> int \<Rightarrow> int \<Rightarrow> bool \<Rightarrow> u64 \<Rightarrow> int \<Rightarrow> waits \<Rightarrow> read_step" where
  "et_events_new e etr att mode delta sz n ws s = (
     let wait = mode AND ET_WAIT_MASK in
     if id_group e \<noteq> 0 then et_events_new_group e etr att mode delta sz n (id_group e) ws s
     else if n = 0 then Some (Done (ET_OK, []), s)
     else if att < 0 \<or> n < 0 \<or> bad_mode mode then Some (Done (ET_ERROR, []), s)
     else if locality e \<noteq> ET_LOCAL then etr s
     else if et_alive e = 0 then Some (Done (ET_ERROR_DEAD, []), s)
     else do {
       a \<leftarrow> att_ix att;
       if at_status (attach (sys s) a) \<noteq> ET_ATT_ACTIVE then Some (Done (ET_ERROR, []), s)
       else if wait = ET_TIMED \<and> \<not> delta then Some (Done (ET_ERROR, []), s)
       else after_read e (new_finish e a sz ws) (et_station_nread 0 wait a (clip sz n s)) s })"

definition et_event_new ::
  "et_id \<Rightarrow> read_step \<Rightarrow> int \<Rightarrow> int \<Rightarrow> bool \<Rightarrow> u64 \<Rightarrow> waits \<Rightarrow> read_step" where
  "et_event_new e etr att mode delta sz ws s = (
     let wait = mode AND ET_WAIT_MASK in
     if id_group e \<noteq> 0 then et_event_new_group e etr att mode delta sz (id_group e) ws s
     else if att < 0 \<or> bad_mode mode then Some (Done (ET_ERROR, []), s)
     else if locality e \<noteq> ET_LOCAL then etr s
     else if et_alive e = 0 then Some (Done (ET_ERROR_DEAD, []), s)
     else do {
       a \<leftarrow> att_ix att;
       if at_status (attach (sys s) a) \<noteq> ET_ATT_ACTIVE then Some (Done (ET_ERROR, []), s)
       else if wait = ET_TIMED \<and> \<not> delta then Some (Done (ET_ERROR, []), s)
       else after_read e (new_finish e a sz ws) (et_station_read 0 wait a) s })"

text \<open>The same calls after the thread has slept in the read.\<close>

definition et_event_new_wake :: "et_id \<Rightarrow> nat \<Rightarrow> int \<Rightarrow> u64 \<Rightarrow> waits \<Rightarrow> wake \<Rightarrow> read_step" where
  "et_event_new_wake e a wait sz ws w =
     after_read e (new_finish e a sz ws) (et_station_read_wake 0 wait a w)"

definition et_events_new_wake :: "et_id \<Rightarrow> nat \<Rightarrow> int \<Rightarrow> u64 \<Rightarrow> int \<Rightarrow> waits \<Rightarrow> wake \<Rightarrow> read_step" where
  "et_events_new_wake e a wait sz n ws w s =
     after_read e (new_finish e a sz ws) (et_station_nread_wake 0 wait a (clip sz n s) w) s"

section \<open>Getting events from the input list of the attachment's station\<close>

text \<open>
  The data pointers: translated for a normal event, newly mapped for a temporary one. A temporary
  event that cannot be mapped ends the loop with an error.
\<close>

fun map_data :: "et_id \<Rightarrow> nat list \<Rightarrow> et_shm \<Rightarrow> int \<times> et_shm" where
  "map_data e [] s = (ET_OK, s)"
| "map_data e (p # ps) s =
     (if temp (events s p) \<noteq> ET_EVENT_TEMP
      then map_data e ps (upd_event p (\<lambda>pe. pe\<lparr>pdata := data pe + id_offset e\<rparr>) s)
      else case env_temp_attach e p of
        None \<Rightarrow> (ET_ERROR, s)
      | Some d \<Rightarrow> map_data e ps (upd_event p (\<lambda>pe. pe\<lparr>pdata := d\<rparr>) s))"

definition get_finish :: "et_id \<Rightarrow> nat \<Rightarrow> nat list \<Rightarrow> read_step" where
  "get_finish e a pes s = (case map_data e pes s of (st, s) \<Rightarrow>
     if st \<noteq> ET_OK then Some (Done (ET_ERROR, []), s)
     else Some (Done (ET_OK, pes),
            upd_attach a (\<lambda>t. t\<lparr>events_get := events_get t + of_nat (length pes)\<rparr>) s))"

definition et_event_get :: "et_id \<Rightarrow> read_step \<Rightarrow> int \<Rightarrow> int \<Rightarrow> bool \<Rightarrow> read_step" where
  "et_event_get e etr att mode delta s = (
     let wait = mode AND ET_WAIT_MASK in
     if att < 0 \<or> bad_mode mode then Some (Done (ET_ERROR, []), s)
     else if locality e \<noteq> ET_LOCAL then etr s
     else if et_alive e = 0 then Some (Done (ET_ERROR_DEAD, []), s)
     else do {
       a \<leftarrow> att_ix att;
       if at_status (attach (sys s) a) \<noteq> ET_ATT_ACTIVE then Some (Done (ET_ERROR, []), s)
       else if at_stat (attach (sys s) a) = ET_GRANDCENTRAL then Some (Done (ET_ERROR, []), s)
       else if wait = ET_TIMED \<and> \<not> delta then Some (Done (ET_ERROR, []), s)
       else do {
         n \<leftarrow> stat_ix s a;
         after_read e (get_finish e a) (et_station_read n wait a) s } })"

definition et_events_get :: "et_id \<Rightarrow> read_step \<Rightarrow> int \<Rightarrow> int \<Rightarrow> bool \<Rightarrow> int \<Rightarrow> read_step" where
  "et_events_get e etr att mode delta m s = (
     let wait = mode AND ET_WAIT_MASK in
     if m = 0 then Some (Done (ET_OK, []), s)
     else if att < 0 \<or> m < 0 \<or> bad_mode mode then Some (Done (ET_ERROR, []), s)
     else if locality e \<noteq> ET_LOCAL then etr s
     else if et_alive e = 0 then Some (Done (ET_ERROR_DEAD, []), s)
     else do {
       a \<leftarrow> att_ix att;
       if at_status (attach (sys s) a) \<noteq> ET_ATT_ACTIVE then Some (Done (ET_ERROR, []), s)
       else if at_stat (attach (sys s) a) = ET_GRANDCENTRAL then Some (Done (ET_ERROR, []), s)
       else if wait = ET_TIMED \<and> \<not> delta then Some (Done (ET_ERROR, []), s)
       else do {
         n \<leftarrow> stat_ix s a;
         after_read e (get_finish e a) (et_station_nread n wait a m) s } })"

definition et_event_get_wake :: "et_id \<Rightarrow> nat \<Rightarrow> nat \<Rightarrow> int \<Rightarrow> wake \<Rightarrow> read_step" where
  "et_event_get_wake e a n wait w = after_read e (get_finish e a) (et_station_read_wake n wait a w)"

definition et_events_get_wake :: "et_id \<Rightarrow> nat \<Rightarrow> nat \<Rightarrow> int \<Rightarrow> int \<Rightarrow> wake \<Rightarrow> read_step" where
  "et_events_get_wake e a n wait m w =
     after_read e (get_finish e a) (et_station_nread_wake n wait a m w)"

section \<open>Putting events back\<close>

definition et_event_put :: "et_id \<Rightarrow> int op \<Rightarrow> int \<Rightarrow> eptr \<Rightarrow> int op" where
  "et_event_put e etr att pe s =
    (case pe of None \<Rightarrow> Some (ET_ERROR, s)
     | Some p \<Rightarrow>
       if att < 0 then Some (ET_ERROR, s)
       else if ev_length (events s p) > memsize (events s p) then Some (ET_ERROR, s)
       else if locality e \<noteq> ET_LOCAL then etr s
       else if et_alive e = 0 then Some (ET_ERROR_DEAD, s)
       else if owner (events s p) \<noteq> att then Some (ET_ERROR, s)
       else if temp (events s p) = ET_EVENT_TEMP \<and> \<not> env_munmap e p then Some (ET_ERROR, s)
       else do {
         a \<leftarrow> att_ix att;
         n \<leftarrow> stat_ix s a;
         let ageOrig = age (events s p);
         let s = upd_event p (\<lambda>pe. pe\<lparr>age := ET_EVENT_USED\<rparr>) s;
         (st, s) \<leftarrow> on_station n (et_station_write (nevents_max s) p) s;
         if st \<noteq> ET_OK then Some (st, upd_event p (\<lambda>pe. pe\<lparr>age := ageOrig\<rparr>) s)
         else Some (ET_OK, upd_attach a (\<lambda>t. t\<lparr>events_put := events_put t + 1\<rparr>) s) })"

text \<open>
  The loop that unmaps temporary events and remembers each event's age in its field \<open>modify\<close>; it
  stops at the first event that cannot be unmapped.
\<close>

fun put_ages :: "et_id \<Rightarrow> nat list \<Rightarrow> et_shm \<Rightarrow> int \<times> et_shm" where
  "put_ages e [] s = (ET_OK, s)"
| "put_ages e (p # ps) s =
     (if temp (events s p) = ET_EVENT_TEMP \<and> \<not> env_munmap e p then (ET_ERROR, s)
      else put_ages e ps (upd_event p (\<lambda>pe. pe\<lparr>modify := age pe, age := ET_EVENT_USED\<rparr>) s))"

definition undo_ages :: "nat list \<Rightarrow> et_shm \<Rightarrow> et_shm" where
  "undo_ages = fold (\<lambda>p. upd_event p (\<lambda>pe. pe\<lparr>age := modify pe, modify := 0\<rparr>))"

definition et_events_put :: "et_id \<Rightarrow> int op \<Rightarrow> int \<Rightarrow> nat list \<Rightarrow> int op" where
  "et_events_put e etr att pes s =
    (if pes = [] then Some (ET_OK, s)
     else if att < 0 then Some (ET_ERROR, s)
     else if \<exists>p\<in>set pes. ev_length (events s p) > memsize (events s p) then Some (ET_ERROR, s)
     else if locality e \<noteq> ET_LOCAL then etr s
     else if et_alive e = 0 then Some (ET_ERROR_DEAD, s)
     else if \<exists>p\<in>set pes. owner (events s p) \<noteq> att then Some (ET_ERROR, s)
     else case put_ages e pes s of (st, s) \<Rightarrow>
       if st \<noteq> ET_OK then Some (ET_ERROR, s)
       else do {
         a \<leftarrow> att_ix att;
         n \<leftarrow> stat_ix s a;
         (st, s) \<leftarrow> on_station n (et_station_nwrite (nevents_max s) pes) s;
         if st \<noteq> ET_OK then Some (st, undo_ages pes s)
         else Some (ET_OK, upd_attach a
                (\<lambda>t. t\<lparr>events_put := events_put t + of_nat (length pes)\<rparr>) s) })"

section \<open>Dumping events into GrandCentral\<close>

definition sub_temps :: "nat \<Rightarrow> et_shm \<Rightarrow> et_shm" where
  "sub_temps n s = (if n = 0 then s
     else system_unlock (upd_sys (\<lambda>y. y\<lparr>ntemps := ntemps y - int n\<rparr>) (system_lock s)))"

definition et_event_dump :: "et_id \<Rightarrow> int op \<Rightarrow> int \<Rightarrow> eptr \<Rightarrow> int op" where
  "et_event_dump e etr att pe s =
    (case pe of None \<Rightarrow> Some (ET_ERROR, s)
     | Some p \<Rightarrow>
       if att < 0 then Some (ET_ERROR, s)
       else if locality e \<noteq> ET_LOCAL then etr s
       else if et_alive e = 0 then Some (ET_ERROR_DEAD, s)
       else if owner (events s p) \<noteq> att then Some (ET_ERROR, s)
       else if temp (events s p) = ET_EVENT_TEMP \<and> \<not> env_temp_remove e p then Some (ET_ERROR, s)
       else do {
         a \<leftarrow> att_ix att;
         let n = (if temp (events s p) = ET_EVENT_TEMP then 1 else 0);
         (st, s) \<leftarrow> on_station 0 (et_station_dump (nevents_max s) p) s;
         if st \<noteq> ET_OK then Some (st, upd_event p (\<lambda>pe. pe\<lparr>owner := att\<rparr>) s)
         else Some (ET_OK, upd_attach a (\<lambda>t. t\<lparr>events_dump := events_dump t + 1\<rparr>) (sub_temps n s)) })"

definition et_events_dump :: "et_id \<Rightarrow> int op \<Rightarrow> int \<Rightarrow> nat list \<Rightarrow> int op" where
  "et_events_dump e etr att pes s =
    (if pes = [] then Some (ET_OK, s)
     else if att < 0 then Some (ET_ERROR, s)
     else if locality e \<noteq> ET_LOCAL then etr s
     else if et_alive e = 0 then Some (ET_ERROR_DEAD, s)
     else if \<exists>p\<in>set pes. owner (events s p) \<noteq> att then Some (ET_ERROR, s)
     else let tmps = filter (\<lambda>p. temp (events s p) = ET_EVENT_TEMP) pes in
     if \<exists>p\<in>set tmps. \<not> env_temp_remove e p then Some (ET_ERROR, s)
     else do {
       a \<leftarrow> att_ix att;
       (st, s) \<leftarrow> on_station 0 (et_station_ndump (nevents_max s) pes) s;
       if st \<noteq> ET_OK then Some (st, s)
       else Some (ET_OK, upd_attach a (\<lambda>t. t\<lparr>events_dump := events_dump t + of_nat (length pes)\<rparr>)
              (sub_temps (length tmps) s)) })"

end
