(* ===== verification/EtShmInv.thy ===== *)
theory EtShmInv imports EtEventOps begin

text \<open>
  What the operations of an attachment need of an invariant \<open>ok\<close> of shared memory: it survives the
  locking of lists and changes of an attachment's flags and counters. A read of an input list and
  the call around it then keep \<open>ok\<close> whenever what they do with the locked, non-empty list keeps it.
\<close>

definition belongs :: "nat \<Rightarrow> nat list \<Rightarrow> et_shm \<Rightarrow> bool" where
  "belongs att pes s \<longleftrightarrow> distinct pes \<and>
     (\<forall>p\<in>set pes. p < nat (nevents_max s) \<and> owner (events s p) = int att)"

text \<open>\<open>gives Q r s\<close>: a successful read ends with events and a state that satisfy \<open>Q\<close>.\<close>

definition gives :: "(nat list \<Rightarrow> et_shm \<Rightarrow> bool) \<Rightarrow> (int \<times> nat list) run \<Rightarrow> et_shm \<Rightarrow> bool" where
  "gives Q r s \<longleftrightarrow> (\<forall>pes. r = Done (ET_OK, pes) \<longrightarrow> Q pes s)"

lemma gives_simps [simp]:
  "gives Q Wait s" "gives Q Retry s" "st \<noteq> ET_OK \<Longrightarrow> gives Q (Done (st, pes)) s"
  "gives Q (Done (ET_OK, pes)) s = Q pes s"
  by (auto simp: gives_def)

text \<open>A change of the attachments that leaves their numbers and stations alone.\<close>

definition flags_only :: "(et_attach \<Rightarrow> et_attach) \<Rightarrow> bool" where
  "flags_only f \<longleftrightarrow> (\<forall>t. at_num (f t) = at_num t \<and> at_stat (f t) = at_stat t)"

locale shm_inv =
  fixes ok :: "et_shm \<Rightarrow> bool"
  assumes lock: "ok s \<Longrightarrow> ok (in_lock n s)"
    and unlock: "ok s \<Longrightarrow> ok (in_unlock n s)"
    and flags: "flags_only f \<Longrightarrow> ok s \<Longrightarrow> ok (upd_attach a f s)"
    and histo: "ok s \<Longrightarrow> ok (s\<lparr>histogram := g\<rparr>)"
begin

lemma blocked_ok: "ok s \<Longrightarrow> ok (set_blocked a b s)"
  unfolding set_blocked_def by (rule flags) (simp_all add: flags_only_def)

lemma quit_ok: "ok s \<Longrightarrow> ok (set_quit a b s)"
  unfolding set_quit_def by (rule flags) (simp_all add: flags_only_def)

lemma histogram_ok: "ok s \<Longrightarrow> histogram_incr n s = Some s' \<Longrightarrow> ok s'"
  by (auto simp: histogram_incr_def Let_def split: if_splits intro: histo)

lemma loop_ok:
  assumes "read_loop n att fin s = Some (r, s')" "ok s"
    and "\<And>t. ok t \<Longrightarrow> \<not> cnt (list_in (stats t n)) < 1 \<Longrightarrow> fin t = Some (r, s') \<Longrightarrow> ok s' \<and> gives Q r s'"
  shows "ok s' \<and> gives Q r s'"
  using assms by (auto simp: read_loop_def intro: unlock blocked_ok split: if_splits)

lemma read_quit_ok: "read_quit n att s = Some (r, s') \<Longrightarrow> ok s \<Longrightarrow> ok s' \<and> gives Q r s'"
  by (auto simp: read_quit_def intro: unlock quit_ok)

theorem enter_ok:
  assumes e: "read_enter n mode att fin s = Some (r, s')" and s: "ok s"
    and fin: "\<And>t. ok t \<Longrightarrow> \<not> cnt (list_in (stats t n)) < 1 \<Longrightarrow> fin t = Some (r, s') \<Longrightarrow> ok s' \<and> gives Q r s'"
  shows "ok s' \<and> gives Q r s'"
proof (cases "mode = ET_SLEEP \<or> mode = ET_TIMED")
  case True
  then obtain t where t: "histogram_incr n (in_lock n s) = Some t" "read_loop n att fin t = Some (r, s')"
    using e by (auto simp: read_enter_def split: Option.bind_splits)
  show ?thesis by (rule loop_ok[OF t(2) histogram_ok[OF lock[OF s] t(1)] fin])
next
  case wait: False
  show ?thesis
  proof (cases "mode = ET_ASYNC \<and> \<not> mutex (list_in (stats s n)) \<and> quit (attach (sys s) att) \<noteq> ET_ATT_QUIT")
    case True
    then obtain t where t: "histogram_incr n (in_lock n s) = Some t"
      "(if cnt (list_in (stats t n)) < 1 then Some (Done (ET_ERROR_EMPTY, []), in_unlock n t) else fin t) = Some (r, s')"
      using e by (auto simp: read_enter_def split: Option.bind_splits)
    have "ok t" by (rule histogram_ok[OF lock[OF s] t(1)])
    then show ?thesis using t(2) fin unlock by (auto split: if_splits)
  next
    case False
    then have "read_quit n att (in_lock n s) = Some (r, s') \<or> s' = s \<and> r \<in> {Done (ET_ERROR_BUSY, []), Done (ET_ERROR, [])}"
      using e wait by (simp add: read_enter_def split: if_splits)
    then show ?thesis using read_quit_ok[OF _ lock[OF s]] s by auto
  qed
qed

theorem wake_ok:
  assumes e: "read_wake n mode att w fin s = Some (r, s')" and s: "ok s"
    and fin: "\<And>t. ok t \<Longrightarrow> \<not> cnt (list_in (stats t n)) < 1 \<Longrightarrow> fin t = Some (r, s') \<Longrightarrow> ok s' \<and> gives Q r s'"
  shows "ok s' \<and> gives Q r s'"
proof -
  let ?t = "set_blocked att ET_ATT_UNBLOCKED (in_lock n s)"
  have t: "ok ?t" by (intro blocked_ok lock s)
  consider (abort) "w \<noteq> Signalled \<and> mode \<noteq> ET_TIMED" | (late) "w = TimedOut \<and> mode = ET_TIMED"
    | (fail) "w = WaitError \<and> mode = ET_TIMED" | (awake) "w = Signalled"
    by (cases w) auto
  then show ?thesis
  proof cases
    case abort
    then show ?thesis using e by (simp add: read_wake_def Let_def)
  next
    case late
    then show ?thesis using e unlock[OF t] by (auto simp: read_wake_def Let_def)
  next
    case fail
    then show ?thesis using e t by (auto simp: read_wake_def Let_def)
  next
    case awake
    then have "(if quit (attach (sys ?t) att) = ET_ATT_QUIT then read_quit n att ?t
        else read_loop n att fin ?t) = Some (r, s')"
      using e by (simp add: read_wake_def Let_def)
    then show ?thesis using read_quit_ok[OF _ t] loop_ok[OF _ t fin] by (auto split: if_splits)
  qed
qed

theorem after_ok:
  assumes e: "after_read e fin rd s = Some (r, s')"
    and rd: "\<And>r t. rd s = Some (r, t) \<Longrightarrow> ok t \<and> gives Q r t"
    and fin: "\<And>pes t. ok t \<Longrightarrow> Q pes t \<Longrightarrow> fin pes t = Some (r, s') \<Longrightarrow> ok s' \<and> gives Q r s'"
  shows "ok s' \<and> gives Q r s'"
proof -
  obtain r1 t where t: "rd s = Some (r1, t)" using e by (auto simp: after_read_def split: Option.bind_splits)
  note t1 = rd[OF t]
  show ?thesis
  proof (cases r1)
    case (Done x)
    obtain st pes where x: "x = (st, pes)" by (cases x)
    show ?thesis
    proof (cases "st = ET_OK")
      case True
      then have "fin pes t = Some (r, s')" "Q pes t" using e t t1 Done x by (auto simp: after_read_def)
      then show ?thesis using fin t1 by blast
    next
      case False
      then have "s' = t" "r = Done (if st = ET_ERROR_WAKEUP \<and> et_alive e = 0 then ET_ERROR_DEAD else st, [])"
        using e t Done x by (simp_all add: after_read_def)
      then show ?thesis using t1 False by simp
    qed
  qed (use e t t1 in \<open>auto simp: after_read_def\<close>)
qed

end

text \<open>An invariant that bounds the length of an input list also keeps the histogram in its array.\<close>

locale shm_safe = shm_inv +
  assumes in_range: "ok s \<Longrightarrow> 0 \<le> cnt (list_in (stats s 0)) \<and> cnt (list_in (stats s 0)) \<le> nevents_max s"
begin

lemma histogram_total: "ok s \<Longrightarrow> \<exists>s'. histogram_incr n s = Some s' \<and> ok s'"
  using in_range[of s] histo by (auto simp: histogram_incr_def Let_def)

lemma loop_total:
  assumes "ok s" "\<And>t. ok t \<Longrightarrow> \<not> cnt (list_in (stats t n)) < 1 \<Longrightarrow> fin t \<noteq> None"
  shows "read_loop n att fin s \<noteq> None"
  using assms by (auto simp: read_loop_def)

theorem enter_total:
  assumes "ok s" "\<And>t. ok t \<Longrightarrow> \<not> cnt (list_in (stats t n)) < 1 \<Longrightarrow> fin t \<noteq> None"
  shows "read_enter n mode att fin s \<noteq> None"
proof -
  obtain t where "histogram_incr n (in_lock n s) = Some t" "ok t"
    using histogram_total[OF lock[OF assms(1)]] by blast
  then show ?thesis
    using loop_total[of t n fin att] assms(2) by (auto simp: read_enter_def read_quit_def)
qed

theorem wake_total:
  assumes "ok s" "\<And>t. ok t \<Longrightarrow> \<not> cnt (list_in (stats t n)) < 1 \<Longrightarrow> fin t \<noteq> None"
    and "w = Signalled \<or> mode = ET_TIMED"
  shows "read_wake n mode att w fin s \<noteq> None"
  using assms(3) loop_total[OF blocked_ok[OF lock[OF assms(1)]] assms(2)]
  by (auto simp: read_wake_def read_quit_def Let_def)

end

end
