(* ===== verification/EtPlaced.thy ===== *)
theory EtPlaced imports EtPass EtShmInv begin

text \<open>
  The invariant of the whole system: every event is in exactly one place, an input list, an output
  list or the hands of an attachment. \<open>X k\<close> and \<open>Y k\<close> are the contents of the input and output
  lists of station \<open>k\<close>; \<open>held s\<close> are the events that belong to an attachment.
\<close>

definition held :: "et_shm \<Rightarrow> nat list" where
  "held s = filter (\<lambda>p. owner (events s p) \<noteq> ET_SYS) [0..<nat (nevents_max s)]"

definition lists_ok :: "nat \<Rightarrow> et_shm \<Rightarrow> (nat \<Rightarrow> nat list) \<Rightarrow> (nat \<Rightarrow> nat list) \<Rightarrow> bool" where
  "lists_ok N s X Y \<longleftrightarrow> in_lists N s X \<and> (\<forall>k<N. out_repr (events s) (list_out (stats s k)) (Y k))"

definition placed :: "nat \<Rightarrow> et_shm \<Rightarrow> (nat \<Rightarrow> nat list) \<Rightarrow> (nat \<Rightarrow> nat list) \<Rightarrow> bool" where
  "placed N s X Y \<longleftrightarrow> 0 \<le> nevents_max s \<and> lists_ok N s X Y \<and> prio_ok (events s) UNIV \<and>
     total_in N X + total_in N Y + mset (held s) = mset [0..<nat (nevents_max s)]"

definition all_placed :: "nat \<Rightarrow> et_shm \<Rightarrow> bool" where
  "all_placed N s \<longleftrightarrow> 0 < N \<and> (\<exists>X Y. placed N s X Y)"

section \<open>Each event in one place\<close>

lemma placed_distinct:
  assumes "placed N s X Y"
  shows "k < N \<Longrightarrow> l < N \<Longrightarrow> distinct (X k @ Y l @ held s)"
    "k < N \<Longrightarrow> l < N \<Longrightarrow> k \<noteq> l \<Longrightarrow> distinct (X k @ X l @ held s)"
    "k < N \<Longrightarrow> l < N \<Longrightarrow> k \<noteq> l \<Longrightarrow> distinct (Y k @ Y l @ held s)"
proof -
  let ?M = "mset [0..<nat (nevents_max s)]"
  have M: "total_in N X + total_in N Y + mset (held s) = ?M" using assms by (simp add: placed_def)
  have c: "\<forall>p. count ?M p \<le> 1" by (metis distinct_count_atmost_1 distinct_upt le_numeral_extra(3,4) zero_le_one)
  have *: "mset xs \<subseteq># total_in N X + total_in N Y \<Longrightarrow> distinct (xs @ held s)" for xs
    by (rule distinct_sub[OF _ c]) (use M in \<open>metis mset_append mset_subset_eq_mono_add_right_cancel\<close>)
  show "distinct (X k @ Y l @ held s)" if "k < N" "l < N"
    using *[of "X k @ Y l"] total_mono[OF that(1), of X] total_mono[OF that(2), of Y]
    by (simp add: subset_mset.add_mono)
  show "distinct (X k @ X l @ held s)" if "k < N" "l < N" "k \<noteq> l"
    using *[of "X k @ X l"] total_mono2[OF that, of X] by (simp add: subset_mset.add_increasing2)
  show "distinct (Y k @ Y l @ held s)" if "k < N" "l < N" "k \<noteq> l"
    using *[of "Y k @ Y l"] total_mono2[OF that, of Y] by (simp add: subset_mset.add_increasing)
qed

lemma placed_bounds:
  assumes "placed N s X Y" "k < N"
  shows "length (X k) + length (held s) \<le> nat (nevents_max s)"
    "length (Y k) + length (held s) \<le> nat (nevents_max s)"
    "set (X k) \<subseteq> {0..<nat (nevents_max s)}" "set (Y k) \<subseteq> {0..<nat (nevents_max s)}"
proof -
  let ?M = "mset [0..<nat (nevents_max s)]"
  have M: "total_in N X + total_in N Y + mset (held s) = ?M" using assms by (simp add: placed_def)
  have X: "mset (X k @ held s) \<subseteq># ?M" unfolding M[symmetric]
    using total_mono[OF assms(2), of X] by (simp add: subset_mset.add_increasing2)
  have Y: "mset (Y k @ held s) \<subseteq># ?M" unfolding M[symmetric]
    using total_mono[OF assms(2), of Y] by (simp add: subset_mset.add_increasing)
  show "length (X k) + length (held s) \<le> nat (nevents_max s)" using size_mset_mono[OF X] by simp
  show "length (Y k) + length (held s) \<le> nat (nevents_max s)" using size_mset_mono[OF Y] by simp
  show "set (X k) \<subseteq> {0..<nat (nevents_max s)}" using set_mset_mono[OF X] by auto
  show "set (Y k) \<subseteq> {0..<nat (nevents_max s)}" using set_mset_mono[OF Y] by auto
qed

lemma placed_room:
  assumes "placed N s X Y" "k < N"
  shows "int (length (X k)) + int (length (held s)) \<le> nevents_max s"
    "int (length (Y k)) + int (length (held s)) \<le> nevents_max s"
proof -
  have "0 \<le> nevents_max s" using assms(1) by (simp add: placed_def)
  then show "int (length (X k)) + int (length (held s)) \<le> nevents_max s"
    "int (length (Y k)) + int (length (held s)) \<le> nevents_max s"
    using placed_bounds(1,2)[OF assms] by linarith+
qed

lemma placed_owner:
  assumes "placed N s X Y" "k < N" "p \<in> set (X k) \<union> set (Y k)"
  shows "owner (events s p) = ET_SYS" "p < nat (nevents_max s)"
proof -
  have "p \<notin> set (held s)" using placed_distinct(1)[OF assms(1,2,2)] assms(3) by auto
  moreover show "p < nat (nevents_max s)" using placed_bounds(3,4)[OF assms(1,2)] assms(3) by auto
  ultimately show "owner (events s p) = ET_SYS" by (auto simp: held_def)
qed

lemma mset_filter_change:
  assumes "distinct xs" "distinct ys" "set ys \<subseteq> set xs" "\<And>x. x \<in> set ys \<Longrightarrow> P x \<and> \<not> Q x"
    "\<And>x. x \<notin> set ys \<Longrightarrow> P x = Q x"
  shows "mset (filter P xs) = mset ys + mset (filter Q xs)"
proof -
  have "distinct (ys @ filter Q xs)" using assms by auto
  moreover have "set (ys @ filter Q xs) = set (filter P xs)" using assms(3-5) by auto
  ultimately have "mset (ys @ filter Q xs) = mset (filter P xs)"
    using assms(1) by (simp only: set_eq_iff_mset_eq_distinct distinct_filter)
  then show ?thesis by simp
qed

lemma held_give:
  assumes "\<And>r. owner (events s' r) = (if r \<in> set pes then ET_SYS else owner (events s r))"
    and "nevents_max s' = nevents_max s" "distinct pes" "set pes \<subseteq> set (held s)"
  shows "mset (held s) = mset pes + mset (held s')"
  unfolding held_def assms(2) by (rule mset_filter_change) (use assms in \<open>auto simp: held_def\<close>)

lemma held_take:
  assumes "\<And>r. owner (events s' r) = (if r \<in> set ys then int att else owner (events s r))"
    and "nevents_max s' = nevents_max s" "distinct ys" "set ys \<subseteq> {0..<nat (nevents_max s)}"
    and "\<forall>p\<in>set ys. owner (events s p) = ET_SYS"
  shows "mset (held s') = mset ys + mset (held s)"
  unfolding held_def assms(2) by (rule mset_filter_change) (use assms in auto)

section \<open>Moving events\<close>

text \<open>A list that shares no event with those moved is left alone.\<close>

lemma out_repr_same:
  assumes "out_repr h pl xs" "same_events h h' A" "set xs \<inter> A = {}"
  shows "out_repr h' pl xs"
proof -
  have "list_repr h' pl xs" using assms(1) list_repr_same[OF _ assms(2,3)] by (simp add: out_repr_def)
  then show ?thesis
    using assms(1) same_events_high[OF assms(2)] high_first_cong[OF assms(2)] by (simp add: out_repr_def)
qed

lemma lists_ok_upd:
  assumes "lists_ok N s X Y" "same_events (events s) (events s') A"
    and "\<And>k. k < N \<Longrightarrow> X' k = X k \<and> list_in (stats s' k) = list_in (stats s k) \<and> set (X k) \<inter> A = {} \<or>
      list_repr (events s') (list_in (stats s' k)) (X' k) \<and> (0 < k \<longrightarrow> high_first (events s') (X' k))"
    and "\<And>k. k < N \<Longrightarrow> Y' k = Y k \<and> list_out (stats s' k) = list_out (stats s k) \<and> set (Y k) \<inter> A = {} \<or>
      out_repr (events s') (list_out (stats s' k)) (Y' k)"
  shows "lists_ok N s' X' Y'"
  unfolding lists_ok_def in_lists_def
proof (intro conjI allI impI)
  fix k assume k: "k < N"
  have o: "list_repr (events s) (list_in (stats s k)) (X k)" "0 < k \<longrightarrow> high_first (events s) (X k)"
    "out_repr (events s) (list_out (stats s k)) (Y k)"
    using assms(1) k by (auto simp: lists_ok_def in_lists_def)
  show "list_repr (events s') (list_in (stats s' k)) (X' k)"
    using assms(3)[OF k] o(1) list_repr_same[OF _ assms(2)] by auto
  show "high_first (events s') (X' k)" if "0 < k"
    using assms(3)[OF k] o(2) high_first_cong[OF assms(2)] that by auto
  show "out_repr (events s') (list_out (stats s' k)) (Y' k)"
    using assms(4)[OF k] o(3) out_repr_same[OF _ assms(2)] by auto
qed

lemma placed_write:
  assumes pl: "placed N s X Y" and k: "k < N" and pes: "distinct pes" "set pes \<subseteq> set (held s)"
    and w: "out_written pes (Y k) (stats s k, events s) (ps', h')"
  shows "placed N (s\<lparr>stats := (stats s)(k := ps'), events := h'\<rparr>) X
    (Y(k := ins_events (events s) pes (Y k)))"
proof -
  let ?s' = "s\<lparr>stats := (stats s)(k := ps'), events := h'\<rparr>"
  let ?Y = "Y(k := ins_events (events s) pes (Y k))"
  have w': "out_repr h' (list_out ps') (ins_events (events s) pes (Y k))"
    "same_events (events s) h' (set (Y k) \<union> set pes)"
    "\<And>r. owner (h' r) = (if r \<in> set pes then ET_SYS else owner (events s r))"
    and ps: "ps' = (stats s k)\<lparr>list_out := list_out ps', fixout := fixout ps'\<rparr>"
    using w by (auto simp: out_written_def)
  have "list_in ps' = list_in (stats s k)" by (subst ps) simp
  note w' = w' this
  have "lists_ok N ?s' X ?Y"
  proof (rule lists_ok_upd[where s = s and A = "set (Y k) \<union> set pes" and X = X and Y = Y])
    show "lists_ok N s X Y" using pl by (simp add: placed_def)
    show "same_events (events s) (events ?s') (set (Y k) \<union> set pes)" using w'(2) by simp
  next
    fix l assume l: "l < N"
    then have "set (X l) \<inter> (set (Y k) \<union> set pes) = {}"
      using placed_distinct(1)[OF pl l k] pes(2) by auto
    then show "X l = X l \<and> list_in (stats ?s' l) = list_in (stats s l) \<and> set (X l) \<inter> (set (Y k) \<union> set pes) = {} \<or>
        list_repr (events ?s') (list_in (stats ?s' l)) (X l) \<and> (0 < l \<longrightarrow> high_first (events ?s') (X l))"
      using w'(4) by simp
    have "set (Y l) \<inter> (set (Y k) \<union> set pes) = {}" if "l \<noteq> k"
      using placed_distinct(3)[OF pl l k that] pes(2) by auto
    then show "?Y l = Y l \<and> list_out (stats ?s' l) = list_out (stats s l) \<and> set (Y l) \<inter> (set (Y k) \<union> set pes) = {} \<or>
        out_repr (events ?s') (list_out (stats ?s' l)) (?Y l)" using w'(1) by auto
  qed
  moreover have "mset (held s) = mset pes + mset (held ?s')"
    by (rule held_give) (use w'(3) pes in auto)
  moreover have "total_in N ?Y = total_in N Y + mset pes"
    using total_upd[OF k, of Y "ins_events (events s) pes (Y k)"] by simp
  ultimately show ?thesis
    using pl prio_ok_cong[OF w'(2)] by (simp add: placed_def ac_simps)
qed


lemma placed_read:
  assumes pl: "placed N s X Y" and k: "k < N" and X: "mset (X k) = mset ys + mset zs"
    and hf: "0 < k \<longrightarrow> high_first (events s) zs"
    and w: "taken att ys zs (stats s k, events s) (ps', h')"
  shows "placed N (s\<lparr>stats := (stats s)(k := ps'), events := h'\<rparr>) (X(k := zs)) Y"
proof -
  let ?s' = "s\<lparr>stats := (stats s)(k := ps'), events := h'\<rparr>"
  have set: "set (X k) = set ys \<union> set zs" using X by (metis set_mset_mset set_mset_union)
  have w': "list_repr h' (list_in ps') zs" "same_events (events s) h' (set ys \<union> set zs)"
    "\<And>r. owner (h' r) = (if r \<in> set ys then int att else owner (events s r))"
    and ps: "ps' = (stats s k)\<lparr>list_in := list_in ps', fixin := fixin ps'\<rparr>"
    using w by (auto simp: taken_def)
  have lo: "list_out ps' = list_out (stats s k)" by (subst ps) simp
  have "lists_ok N ?s' (X(k := zs)) Y"
  proof (rule lists_ok_upd[where s = s and A = "set ys \<union> set zs" and X = X and Y = Y])
    show "lists_ok N s X Y" using pl by (simp add: placed_def)
    show "same_events (events s) (events ?s') (set ys \<union> set zs)" using w'(2) by simp
  next
    fix l assume l: "l < N"
    have "set (Y l) \<inter> (set ys \<union> set zs) = {}" using placed_distinct(1)[OF pl k l] set by auto
    then show "Y l = Y l \<and> list_out (stats ?s' l) = list_out (stats s l) \<and> set (Y l) \<inter> (set ys \<union> set zs) = {} \<or>
        out_repr (events ?s') (list_out (stats ?s' l)) (Y l)" using lo by simp
    have "set (X l) \<inter> (set ys \<union> set zs) = {}" if "l \<noteq> k"
      using placed_distinct(2)[OF pl l k that] set by auto
    then show "(X(k := zs)) l = X l \<and> list_in (stats ?s' l) = list_in (stats s l) \<and> set (X l) \<inter> (set ys \<union> set zs) = {} \<or>
        list_repr (events ?s') (list_in (stats ?s' l)) ((X(k := zs)) l) \<and>
        (0 < l \<longrightarrow> high_first (events ?s') ((X(k := zs)) l))"
      using w'(1) hf high_first_cong[OF w'(2)] by auto
  qed
  moreover have "mset (held ?s') = mset ys + mset (held s)"
  proof (rule held_take)
    have "distinct (X k)" using placed_distinct(1)[OF pl k k] by simp
    then show "distinct ys" using X by (metis distinct_append mset_append mset_eq_imp_distinct_iff)
    show "set ys \<subseteq> {0..<nat (nevents_max s)}" using placed_bounds(3)[OF pl k] set by auto
    show "\<forall>p\<in>set ys. owner (events s p) = ET_SYS" using placed_owner(1)[OF pl k] set by auto
  qed (use w'(3) in auto)
  moreover have "total_in N X = total_in N (X(k := zs)) + mset ys"
    using total_upd[OF k, of X zs] X by (simp add: ac_simps)
  ultimately show ?thesis
    using pl prio_ok_cong[OF w'(2)] by (auto simp: placed_def ac_simps)
qed

lemma placed_dump:
  assumes pl: "placed N s X Y" and N: "0 < N" and pes: "distinct pes" "set pes \<subseteq> set (held s)"
    and w: "dumped pes (X 0) (stats s 0, events s) (ps', h')"
  shows "placed N (s\<lparr>stats := (stats s)(0 := ps'), events := h'\<rparr>) (X(0 := X 0 @ pes)) Y"
proof -
  let ?s' = "s\<lparr>stats := (stats s)(0 := ps'), events := h'\<rparr>"
  have w': "list_repr h' (list_in ps') (X 0 @ pes)" "same_events (events s) h' (set (X 0) \<union> set pes)"
    "\<And>r. owner (h' r) = (if r \<in> set pes then ET_SYS else owner (events s r))"
    and ps: "ps' = (stats s 0)\<lparr>list_in := list_in ps', fixin := fixin ps'\<rparr>"
    using w by (auto simp: dumped_def)
  have lo: "list_out ps' = list_out (stats s 0)" by (subst ps) simp
  have "lists_ok N ?s' (X(0 := X 0 @ pes)) Y"
  proof (rule lists_ok_upd[where s = s and A = "set (X 0) \<union> set pes" and X = X and Y = Y])
    show "lists_ok N s X Y" using pl by (simp add: placed_def)
    show "same_events (events s) (events ?s') (set (X 0) \<union> set pes)" using w'(2) by simp
  next
    fix l assume l: "l < N"
    have "set (Y l) \<inter> (set (X 0) \<union> set pes) = {}" using placed_distinct(1)[OF pl N l] pes(2) by auto
    then show "Y l = Y l \<and> list_out (stats ?s' l) = list_out (stats s l) \<and> set (Y l) \<inter> (set (X 0) \<union> set pes) = {} \<or>
        out_repr (events ?s') (list_out (stats ?s' l)) (Y l)" using lo by simp
    have "set (X l) \<inter> (set (X 0) \<union> set pes) = {}" if "l \<noteq> 0"
      using placed_distinct(2)[OF pl l N that] pes(2) by auto
    then show "(X(0 := X 0 @ pes)) l = X l \<and> list_in (stats ?s' l) = list_in (stats s l) \<and>
        set (X l) \<inter> (set (X 0) \<union> set pes) = {} \<or>
        list_repr (events ?s') (list_in (stats ?s' l)) ((X(0 := X 0 @ pes)) l) \<and>
        (0 < l \<longrightarrow> high_first (events ?s') ((X(0 := X 0 @ pes)) l))"
      using w'(1) by auto
  qed
  moreover have "mset (held s) = mset pes + mset (held ?s')"
    by (rule held_give) (use w'(3) pes in auto)
  moreover have "total_in N (X(0 := X 0 @ pes)) = total_in N X + mset pes"
    using total_upd[OF N, of X "X 0 @ pes"] by simp
  ultimately show ?thesis
    using pl prio_ok_cong[OF w'(2)] by (simp add: placed_def ac_simps)
qed

text \<open>A turn of a conductor empties its output list into the input lists.\<close>

lemma set_total_in: "set_mset (total_in N X) = (\<Union>k<N. set (X k))"
  by (induction N) (auto simp: total_in_def lessThan_Suc)

lemma placed_pass:
  assumes pl: "placed N s X Y" and me: "me < N" and w: "passed N me (Y me) X s s'"
  shows "\<exists>X'. placed N s' X' (Y(me := []))"
proof -
  obtain X' where X': "in_lists N s' X'" "total_in N X' = total_in N X + mset (Y me)"
    using w by (auto simp: passed_def)
  let ?A = "set_mset (total_in N X + mset (Y me))"
  have se: "same_events (events s) (events s') ?A" and ow: "\<And>p. owner (events s' p) = owner (events s p)"
    and sy: "sys s' = (sys s)\<lparr>ntemps := ntemps (sys s'), sys_mutex := sys_mutex (sys s')\<rparr>"
    and me': "out_repr (events s') (list_out (stats s' me)) []"
    and other: "\<And>k. k \<noteq> me \<Longrightarrow> stats s' k = (stats s k)\<lparr>list_in := list_in (stats s' k), waslast := waslast (stats s' k)\<rparr>"
    using w by (auto simp: passed_def)
  have sc: "sys_config (sys s') = sys_config (sys s)" by (subst sy) simp
  have lo: "list_out (stats s' k) = list_out (stats s k)" if "k \<noteq> me" for k
    by (subst other[OF that]) simp
  have "out_repr (events s') (list_out (stats s' k)) ((Y(me := [])) k)" if "k < N" for k
  proof (cases "k = me")
    case False
    have "set (Y k) \<inter> set (X l) = {}" if "l < N" for l
      using placed_distinct(1)[OF pl that \<open>k < N\<close>] by auto
    then have "set (Y k) \<inter> set_mset (total_in N X) = {}" by (auto simp: set_total_in)
    then have "set (Y k) \<inter> ?A = {}"
      using placed_distinct(3)[OF pl \<open>k < N\<close> me False] by auto
    moreover have "out_repr (events s) (list_out (stats s k)) (Y k)"
      using pl that by (simp add: placed_def lists_ok_def)
    ultimately show ?thesis using out_repr_same[OF _ se] lo False by simp
  qed (simp add: me')
  then have "lists_ok N s' X' (Y(me := []))" using X'(1) by (simp add: lists_ok_def)
  moreover have "held s' = held s" by (simp add: held_def ow sc)
  moreover have "total_in N (Y(me := [])) + mset (Y me) = total_in N Y"
    using total_upd[OF me, of Y "[]"] by simp
  ultimately have "placed N s' X' (Y(me := []))"
    using pl X'(2) prio_ok_cong[OF se] sc by (simp add: placed_def ac_simps)
  then show ?thesis by blast
qed

section \<open>Steps that move no event\<close>

definition same_list :: "et_list \<Rightarrow> et_list \<Rightarrow> bool" where
  "same_list pl pl' \<longleftrightarrow> cnt pl' = cnt pl \<and> lasthigh pl' = lasthigh pl \<and>
     firstevent pl' = firstevent pl \<and> lastevent pl' = lastevent pl"

definition quiet :: "et_shm \<Rightarrow> et_shm \<Rightarrow> bool" where
  "quiet s s' \<longleftrightarrow> nevents_max s' = nevents_max s \<and>
     (\<forall>k. same_list (list_in (stats s k)) (list_in (stats s' k)) \<and>
          same_list (list_out (stats s k)) (list_out (stats s' k))) \<and>
     (\<forall>p. owner (events s' p) = owner (events s p)) \<and>
     (\<forall>p. owner (events s p) = ET_SYS \<longrightarrow> ev_next (events s' p) = ev_next (events s p) \<and>
          priority (events s' p) = priority (events s p)) \<and>
     (prio_ok (events s) UNIV \<longrightarrow> prio_ok (events s') UNIV)"

lemma list_repr_quiet:
  assumes "list_repr h pl xs" "same_list pl pl'" "\<And>p. p \<in> set xs \<Longrightarrow> ev_next (h' p) = ev_next (h p)"
  shows "list_repr h' pl' xs"
proof -
  have "linked h xs" using assms(1) by (simp add: list_repr_def)
  then have "linked h' xs" using assms(3) by (rule linked_cong)
  then show ?thesis using assms(1,2) by (auto simp: list_repr_def same_list_def)
qed

lemma high_first_quiet:
  assumes "\<And>p. p \<in> set xs \<Longrightarrow> priority (h' p) = priority (h p)"
  shows "high_first h' xs = high_first h xs"
    "length (takeWhile (high h') xs) = length (takeWhile (high h) xs)"
proof -
  have t: "takeWhile (high h') xs = takeWhile (high h) xs" by (rule takeWhile_cong) (simp_all add: high_def assms)
  have "dropWhile (high h') xs = dropWhile (high h) xs" by (rule dropWhile_cong) (simp_all add: high_def assms)
  moreover have "priority (h' p) = priority (h p)" if "p \<in> set (dropWhile (high h) xs)" for p
    using that assms set_dropWhileD by fast
  ultimately show "high_first h' xs = high_first h xs" by (simp add: high_first_def high_def)
  show "length (takeWhile (high h') xs) = length (takeWhile (high h) xs)" by (simp add: t)
qed

lemma placed_quiet:
  assumes pl: "placed N s X Y" and q: "quiet s s'"
  shows "placed N s' X Y"
proof -
  have o: "\<And>k p. k < N \<Longrightarrow> p \<in> set (X k) \<union> set (Y k) \<Longrightarrow> owner (events s p) = ET_SYS"
    by (rule placed_owner(1)[OF pl])
  have "in_lists N s X" "\<forall>k<N. out_repr (events s) (list_out (stats s k)) (Y k)"
    using pl by (simp_all add: placed_def lists_ok_def)
  moreover have "high_first (events s') (X k) = high_first (events s) (X k)" if "k < N" for k
    by (rule high_first_quiet(1)) (use q o[OF that] in \<open>auto simp: quiet_def\<close>)
  moreover have "high_first (events s') (Y k) = high_first (events s) (Y k) \<and>
      length (takeWhile (high (events s')) (Y k)) = length (takeWhile (high (events s)) (Y k))" if "k < N" for k
    using high_first_quiet[of "Y k" "events s'" "events s"] q o[OF that] by (auto simp: quiet_def)
  moreover have "list_repr (events s) (list_in (stats s k)) (X k) \<Longrightarrow>
      list_repr (events s') (list_in (stats s' k)) (X k)" if "k < N" for k
    by (erule list_repr_quiet) (use q o[OF that] in \<open>auto simp: quiet_def\<close>)
  moreover have "list_repr (events s) (list_out (stats s k)) (Y k) \<Longrightarrow>
      list_repr (events s') (list_out (stats s' k)) (Y k)" if "k < N" for k
    by (erule list_repr_quiet) (use q o[OF that] in \<open>auto simp: quiet_def\<close>)
  ultimately have "lists_ok N s' X Y"
    using q by (simp add: lists_ok_def in_lists_def out_repr_def quiet_def same_list_def)
  moreover have "held s' = held s" using q by (simp add: held_def quiet_def)
  ultimately show ?thesis using pl q by (simp add: placed_def quiet_def)
qed

end
