(* ===== verification/EtFlow.thy ===== *)
theory EtFlow imports EtPlaced begin

text \<open>
  The event calls and a conductor's turn keep every event in exactly one place, and the calls that
  give events to an attachment give it events that belong to it.
\<close>

section \<open>Quiet steps\<close>

lemma same_list_refl [simp]: "same_list pl pl"
  by (simp add: same_list_def)

lemma same_list_lock [simp]: "same_list pl (et_llist_lock pl)" "same_list pl (et_llist_unlock pl)"
  by (simp_all add: same_list_def)

lemma quiet_refl [simp]: "quiet s s"
  by (simp add: quiet_def)

lemma quiet_trans: "quiet s s1 \<Longrightarrow> quiet s1 s2 \<Longrightarrow> quiet s s2"
  by (simp add: quiet_def same_list_def)

lemma all_placed_quiet: "all_placed N s \<Longrightarrow> quiet s s' \<Longrightarrow> all_placed N s'"
  unfolding all_placed_def using placed_quiet by blast

lemma quiet_steps [simp]:
  "quiet s (in_lock n s)" "quiet s (in_unlock n s)" "quiet s (upd_attach a f s)"
  "quiet s (s\<lparr>histogram := g\<rparr>)" "quiet s (sub_temps n s)"
  by (simp_all add: quiet_def in_lock_def in_unlock_def sub_temps_def system_lock_def system_unlock_def
      et_system_lock_def et_system_unlock_def)

lemma quiet_event:
  assumes "owner (events s p) \<noteq> ET_SYS" "owner (f (events s p)) = owner (events s p)"
    "priority (f (events s p)) = priority (events s p) \<or> priority (f (events s p)) \<in> {ET_LOW, ET_HIGH}"
  shows "quiet s (upd_event p f s)"
  using assms by (auto simp: quiet_def upd_event_def prio_ok_def)

interpretation pl: shm_safe "all_placed N"
proof unfold_locales
  fix s assume "all_placed N s"
  then obtain X Y where p: "placed N s X Y" "0 < N" by (auto simp: all_placed_def)
  then have "cnt (list_in (stats s 0)) = int (length (X 0))"
    by (simp add: placed_def lists_ok_def in_lists_def list_repr_def)
  then show "0 \<le> cnt (list_in (stats s 0)) \<and> cnt (list_in (stats s 0)) \<le> nevents_max s"
    using placed_room(1)[OF p] by simp
qed (auto intro: all_placed_quiet)

section \<open>Reading from an input list\<close>

lemma taken_placed:
  assumes "placed N s X Y" "0 < N" "k < N" "mset (X k) = mset ys + mset zs"
    and "0 < k \<longrightarrow> high_first (events s) zs"
    and "taken att ys zs (stats s k, events s) (ps', h')"
  shows "all_placed N (s\<lparr>stats := (stats s)(k := ps'), events := h'\<rparr>) \<and>
    belongs att ys (s\<lparr>stats := (stats s)(k := ps'), events := h'\<rparr>)"
proof
  show "all_placed N (s\<lparr>stats := (stats s)(k := ps'), events := h'\<rparr>)"
    unfolding all_placed_def using placed_read[OF assms(1,3-6)] assms(2) by blast
  have "set ys \<subseteq> set (X k)" using assms(4) by (metis set_mset_mset set_mset_union Un_upper1)
  moreover have "distinct ys"
    using placed_distinct(1)[OF assms(1,3,3)] assms(4)
    by (metis distinct_append mset_append mset_eq_imp_distinct_iff)
  ultimately show "belongs att ys (s\<lparr>stats := (stats s)(k := ps'), events := h'\<rparr>)"
    using assms(6) placed_bounds(3)[OF assms(1,3)] by (auto simp: belongs_def taken_def)
qed

lemma list_not_empty:
  assumes "all_placed N s" "n < N" "\<not> cnt (list_in (stats s n)) < 1"
  obtains X Y where "placed N s X Y" "0 < N" "X n \<noteq> []" "list_repr (events s) (list_in (stats s n)) (X n)"
    "0 < n \<longrightarrow> high_first (events s) (X n)"
proof -
  obtain X Y where p: "placed N s X Y" "0 < N" using assms(1) by (auto simp: all_placed_def)
  then have r: "list_repr (events s) (list_in (stats s n)) (X n)" "0 < n \<longrightarrow> high_first (events s) (X n)"
    using assms(2) by (simp_all add: placed_def lists_ok_def in_lists_def)
  moreover have "X n \<noteq> []" using r(1) assms(3) by (auto simp: list_repr_def)
  ultimately show ?thesis using p that by blast
qed

definition reads_ok :: "nat \<Rightarrow> nat \<Rightarrow> nat \<Rightarrow> read_step \<Rightarrow> bool" where
  "reads_ok N n att fin \<longleftrightarrow> (\<forall>s. all_placed N s \<and> n < N \<and> \<not> cnt (list_in (stats s n)) < 1 \<longrightarrow>
     (\<exists>r s'. fin s = Some (r, s') \<and> all_placed N s' \<and> gives (belongs att) r s'))"

lemma high_first_parts:
  assumes "high_first h xs"
  shows "high_first h (drop m xs)" "high_first h (filter P xs)"
proof -
  show "high_first h (filter P xs)" using high_first_subseq[OF _ assms] by simp
  show "high_first h (drop m xs)" using high_first_subseq[OF _ assms] suffix_drop suffix_imp_subseq by blast
qed

lemma reads_ok_one: "reads_ok N n att (on_station n (read_one att))"
  unfolding reads_ok_def
proof (intro allI impI, elim conjE)
  fix s assume s: "all_placed N s" "n < N" "\<not> cnt (list_in (stats s n)) < 1"
  from list_not_empty[OF this] obtain X Y where X: "placed N s X Y" "0 < N" "X n \<noteq> []"
    "list_repr (events s) (list_in (stats s n)) (X n)" "0 < n \<longrightarrow> high_first (events s) (X n)" by blast
  obtain ps' h' where 1: "read_one att (stats s n, events s) = Some (Done (ET_OK, [hd (X n)]), ps', h')"
    "taken att [hd (X n)] (tl (X n)) (stats s n, events s) (ps', h')" using read_one_ok[OF X(4,3)] by blast
  have "mset (X n) = mset [hd (X n)] + mset (tl (X n))" using X(3) by (cases "X n") auto
  then show "\<exists>r s'. on_station n (read_one att) s = Some (r, s') \<and> all_placed N s' \<and> gives (belongs att) r s'"
    using taken_placed[OF X(1,2) s(2) _ _ 1(2)] X(5) high_first_parts(1)[of _ "X n" 1] 1(1)
    by (auto simp: on_station_def drop_Suc)
qed

lemma reads_ok_many:
  assumes "1 \<le> m"
  shows "reads_ok N n att (on_station n (read_many att m))"
  unfolding reads_ok_def
proof (intro allI impI, elim conjE)
  fix s assume s: "all_placed N s" "n < N" "\<not> cnt (list_in (stats s n)) < 1"
  from list_not_empty[OF this] obtain X Y where X: "placed N s X Y" "0 < N" "X n \<noteq> []"
    "list_repr (events s) (list_in (stats s n)) (X n)" "0 < n \<longrightarrow> high_first (events s) (X n)" by blast
  let ?ys = "take (nat m) (X n)"
  obtain ps' h' where 1: "read_many att m (stats s n, events s) = Some (Done (ET_OK, ?ys), ps', h')"
    "taken att ?ys (drop (nat m) (X n)) (stats s n, events s) (ps', h')"
    using read_many_ok[OF X(4,3) assms] by blast
  have "mset (X n) = mset ?ys + mset (drop (nat m) (X n))" by (metis append_take_drop_id mset_append)
  then show "\<exists>r s'. on_station n (read_many att m) s = Some (r, s') \<and> all_placed N s' \<and> gives (belongs att) r s'"
    using taken_placed[OF X(1,2) s(2) _ _ 1(2)] X(5) high_first_parts(1) 1(1) by (auto simp: on_station_def)
qed

lemma reads_ok_group:
  assumes "1 \<le> m"
  shows "reads_ok N n att (on_station n (read_group att mode m g))"
  unfolding reads_ok_def
proof (intro allI impI, elim conjE)
  fix s assume s: "all_placed N s" "n < N" "\<not> cnt (list_in (stats s n)) < 1"
  from list_not_empty[OF this] obtain X Y where X: "placed N s X Y" "0 < N" "X n \<noteq> []"
    "list_repr (events s) (list_in (stats s n)) (X n)" "0 < n \<longrightarrow> high_first (events s) (X n)" by blast
  let ?P = "\<lambda>p. ev_group (events s p) = g"
  let ?ys = "take (nat m) (filter ?P (X n))" and ?zs = "keep_rest ?P (nat m) (X n)"
  let ?r = "if filter ?P (X n) = [] \<and> mode \<noteq> ET_ASYNC then Retry else Done (ET_OK, ?ys)"
  obtain ps' h' where 1: "read_group att mode m g (stats s n, events s) = Some (?r, ps', h')"
    "taken att ?ys ?zs (stats s n, events s) (ps', h')"
    using read_group_ok[OF X(4,3) assms refl] by blast
  have m: "mset (X n) = mset ?ys + mset ?zs" by (rule keep_rest_mset[symmetric])
  have "0 < n \<longrightarrow> high_first (events s) ?zs"
    using X(5) high_first_parts(2) keep_rest_filter[OF list_reprD(3)[OF X(4)]] by metis
  from taken_placed[OF X(1,2) s(2) m this 1(2)]
  show "\<exists>r s'. on_station n (read_group att mode m g) s = Some (r, s') \<and> all_placed N s' \<and> gives (belongs att) r s'"
    using 1(1) by (auto simp: on_station_def)
qed

lemma reads_enter:
  assumes f: "reads_ok N n att fin" and s: "all_placed N s" "n < N"
  shows "\<exists>r s'. read_enter n mode att fin s = Some (r, s') \<and> all_placed N s' \<and> gives (belongs att) r s'"
proof -
  have "read_enter n mode att fin s \<noteq> None"
    by (rule pl.enter_total[OF s(1)]) (use f s(2) in \<open>auto simp: reads_ok_def\<close>)
  then obtain r s' where e: "read_enter n mode att fin s = Some (r, s')" by auto
  have "all_placed N s' \<and> gives (belongs att) r s'"
    by (rule pl.enter_ok[OF e s(1)]) (use f s(2) in \<open>fastforce simp: reads_ok_def\<close>)
  then show ?thesis using e by blast
qed

lemma reads_wake:
  assumes f: "reads_ok N n att fin" and s: "all_placed N s" "n < N" and w: "w = Signalled \<or> mode = ET_TIMED"
  shows "\<exists>r s'. read_wake n mode att w fin s = Some (r, s') \<and> all_placed N s' \<and> gives (belongs att) r s'"
proof -
  have "read_wake n mode att w fin s \<noteq> None"
    by (rule pl.wake_total[OF s(1) _ w]) (use f s(2) in \<open>auto simp: reads_ok_def\<close>)
  then obtain r s' where e: "read_wake n mode att w fin s = Some (r, s')" by auto
  have "all_placed N s' \<and> gives (belongs att) r s'"
    by (rule pl.wake_ok[OF e s(1)]) (use f s(2) in \<open>fastforce simp: reads_ok_def\<close>)
  then show ?thesis using e by blast
qed


section \<open>New and get\<close>

lemma belongs_held: "belongs att pes s \<Longrightarrow> set pes \<subseteq> set (held s)"
  by (auto simp: belongs_def held_def)

lemma belongs_quiet: "belongs att pes s \<Longrightarrow> quiet s s' \<Longrightarrow> belongs att pes s'"
  by (simp add: belongs_def quiet_def)

lemma init_event_fields [simp]:
  "owner (et_init_event_' pe) = owner pe" "priority (et_init_event_' pe) = ET_LOW"
  by (simp_all add: et_init_event_'_def et_init_event_def)

lemma quiet_make: "owner (events s p) \<noteq> ET_SYS \<Longrightarrow> et_event_make e p sz s = (st, s') \<Longrightarrow> quiet s s'"
  by (auto simp: et_event_make_def Let_def quiet_def upd_event_def prio_ok_def system_lock_def
      system_unlock_def et_system_lock_def et_system_unlock_def split: if_splits option.splits)

text \<open>The other threads, while this one waits for a temporary event, keep its events its own.\<close>

definition calm :: "nat \<Rightarrow> nat \<Rightarrow> nat list \<Rightarrow> waits \<Rightarrow> bool" where
  "calm N att pes ws \<longleftrightarrow> (\<forall>w\<in>set ws. \<forall>s. all_placed N s \<and> belongs att pes s \<longrightarrow>
     all_placed N (fst (w s)) \<and> belongs att pes (fst (w s)))"

lemma make_retry_ok:
  assumes "make_retry e p sz ws s = Some (st, ws', s')" "all_placed N s" "belongs att pes s"
    and "calm N att pes ws" "p \<in> set pes"
  shows "all_placed N s' \<and> belongs att pes s' \<and> calm N att pes ws'"
  using assms
proof (induction e p sz ws s rule: make_retry.induct)
  case (1 e p sz s)
  obtain st1 s1 where m: "et_event_make e p sz s = (st1, s1)" by fastforce
  have "quiet s s1" by (rule quiet_make[OF _ m]) (use 1 in \<open>auto simp: belongs_def\<close>)
  then have "all_placed N s1" "belongs att pes s1" using 1(2,3) all_placed_quiet belongs_quiet by blast+
  moreover have "s' = s1" "ws' = []" using 1(1) m by (simp_all split: if_splits)
  ultimately show ?case by (simp add: calm_def)
next
  case (2 e p sz w ws s)
  obtain st1 s1 where m: "et_event_make e p sz s = (st1, s1)" by fastforce
  have "quiet s s1" by (rule quiet_make[OF _ m]) (use 2(4,6) in \<open>auto simp: belongs_def\<close>)
  then have 1: "all_placed N s1" "belongs att pes s1"
    using 2(3,4) all_placed_quiet belongs_quiet by blast+
  show ?case
  proof (cases "st1 = ET_ERROR_TOOMANY")
    case True
    obtain s2 up where w: "w s1 = (s2, up)" by fastforce
    have s2: "all_placed N s2" "belongs att pes s2" "calm N att pes ws"
      using 2(5) 1 w by (auto simp: calm_def)
    show ?thesis
    proof (cases up)
      case True
      then show ?thesis using 2(2) s2 m \<open>st1 = ET_ERROR_TOOMANY\<close> w by auto
    next
      case False
      then have "make_retry e p sz ws s2 = Some (st, ws', s')"
        using 2(2) m \<open>st1 = ET_ERROR_TOOMANY\<close> w by simp
      from 2(1)[OF m[symmetric] True w[symmetric] False this s2 2(6)] show ?thesis .
    qed
  next
    case False
    then show ?thesis using 2(2,5) m 1 by auto
  qed
qed

lemma make_temps_ok:
  assumes "make_temps e sz ps ws s = Some (st, s')" "all_placed N s" "belongs att pes s"
    and "calm N att pes ws" "set ps \<subseteq> set pes"
  shows "all_placed N s' \<and> belongs att pes s'"
  using assms
proof (induction e sz ps ws s rule: make_temps.induct)
  case (2 e sz p ps ws s)
  obtain st1 ws1 s1 where m: "make_retry e p sz ws s = Some (st1, ws1, s1)"
    "(if st1 \<noteq> ET_OK then Some (st1, s1) else make_temps e sz ps ws1 s1) = Some (st, s')"
    using 2(2) by (auto split: Option.bind_splits)
  have "all_placed N s1 \<and> belongs att pes s1 \<and> calm N att pes ws1"
    by (rule make_retry_ok[OF m(1) 2(3-5)]) (use 2(6) in simp)
  then show ?case using 2(1)[OF m(1) refl refl] m(2) 2(6) by (auto split: if_splits)
qed simp

lemma fold_quiet:
  assumes "\<And>p s. p \<in> set ps \<Longrightarrow> owner (events s p) \<noteq> ET_SYS \<Longrightarrow> quiet s (f p s)"
    and "\<forall>p\<in>set ps. owner (events s p) \<noteq> ET_SYS"
  shows "quiet s (fold f ps s)"
  using assms
proof (induction ps arbitrary: s)
  case (Cons p ps)
  have "quiet s (f p s)" using Cons.prems by simp
  moreover from this have "\<forall>q\<in>set ps. owner (events (f p s) q) \<noteq> ET_SYS"
    using Cons.prems(2) by (simp add: quiet_def)
  ultimately show ?case using Cons.IH[of "f p s"] Cons.prems(1) quiet_trans by auto
qed simp

lemma quiet_init_normal: "owner (events s p) \<noteq> ET_SYS \<Longrightarrow> quiet s (init_normal e sz p s)"
  unfolding init_normal_def by (rule quiet_event) auto

lemma belongs_owner: "belongs att pes s \<Longrightarrow> p \<in> set pes \<Longrightarrow> owner (events s p) \<noteq> ET_SYS"
  by (auto simp: belongs_def)

lemma new_finish_ok:
  assumes e: "new_finish e a sz ws pes s = Some (r, s')" and s: "all_placed N s" "belongs a pes s"
    and ws: "calm N a pes ws"
  shows "all_placed N s' \<and> gives (belongs a) r s'"
proof -
  obtain st s1 where 1: "(if sz > event_size (sys_config (sys s)) then make_temps e sz pes ws s
      else Some (ET_OK, fold (init_normal e sz) pes s)) = Some (st, s1)"
    "(if st \<noteq> ET_OK then Some (Done (st, []), s1) else Some (Done (ET_OK, pes),
        upd_attach a (\<lambda>t. t\<lparr>events_make := events_make t + of_nat (length pes)\<rparr>) s1)) = Some (r, s')"
    using e by (auto simp: new_finish_def split: Option.bind_splits if_splits)
  have "quiet s (fold (init_normal e sz) pes s)"
    by (rule fold_quiet[OF quiet_init_normal]) (use belongs_owner[OF s(2)] in auto)
  then have "all_placed N s1 \<and> belongs a pes s1"
    using 1(1) make_temps_ok[OF _ s ws, of e sz pes st s1] all_placed_quiet[OF s(1)] belongs_quiet[OF s(2)]
    by (auto split: if_splits)
  then show ?thesis
    using 1(2) all_placed_quiet[OF _ quiet_steps(3)] belongs_quiet[OF _ quiet_steps(3)]
    by (auto split: if_splits)
qed

lemma map_data_quiet:
  assumes "map_data e pes s = (st, s')" "\<forall>p\<in>set pes. owner (events s p) \<noteq> ET_SYS"
  shows "quiet s s'"
  using assms
proof (induction e pes s rule: map_data.induct)
  case (2 e p ps s)
  have q: "quiet s (upd_event p (\<lambda>pe. pe\<lparr>pdata := d\<rparr>) s)" "quiet s (upd_event p (\<lambda>pe. pe\<lparr>pdata := data pe + x\<rparr>) s)" for d x
    using 2(4) by (intro quiet_event; simp)+
  then have o: "\<forall>q\<in>set ps. owner (events (upd_event p (\<lambda>pe. pe\<lparr>pdata := d\<rparr>) s) q) \<noteq> ET_SYS"
    "\<forall>q\<in>set ps. owner (events (upd_event p (\<lambda>pe. pe\<lparr>pdata := data pe + x\<rparr>) s) q) \<noteq> ET_SYS" for d x
    using 2(4) by (simp_all add: quiet_def)
  show ?case
  proof (cases "temp (events s p) \<noteq> ET_EVENT_TEMP")
    case True
    then show ?thesis using quiet_trans[OF q(2) 2(1)[OF True _ o(2)]] 2(3) by simp
  next
    case False
    then show ?thesis using quiet_trans[OF q(1) 2(2)[OF False _ _ o(1)]] 2(3) by (auto split: option.splits)
  qed
qed simp

lemma get_finish_ok:
  assumes e: "get_finish e a pes s = Some (r, s')" and s: "all_placed N s" "belongs a pes s"
  shows "all_placed N s' \<and> gives (belongs a) r s'"
proof -
  obtain st s1 where m: "map_data e pes s = (st, s1)" by fastforce
  have "quiet s s1" by (rule map_data_quiet[OF m]) (use belongs_owner[OF s(2)] in auto)
  then have "all_placed N s1" "belongs a pes s1" using s all_placed_quiet belongs_quiet by blast+
  then show ?thesis
    using e m all_placed_quiet[OF _ quiet_steps(3)] belongs_quiet[OF _ quiet_steps(3)]
    by (auto simp: get_finish_def split: if_splits)
qed

end
