(* ===== verification/EtCalls.thy ===== *)
theory EtCalls imports EtFlow begin

text \<open>
  The calls of \<^verbatim>\<open>et_event.c\<close> as a whole: a call of a local process keeps every event in exactly
  one place, a call of the owner of its events succeeds, and one of anybody else changes nothing.
\<close>

definition stations_ok :: "nat \<Rightarrow> et_shm \<Rightarrow> bool" where
  "stations_ok N s \<longleftrightarrow> (\<forall>a. at_stat (attach (sys s) a) < int N)"

lemma stat_ix_less: "stations_ok N s \<Longrightarrow> stat_ix s a = Some n \<Longrightarrow> n < N"
  unfolding stations_ok_def stat_ix_def Let_def by (metis nat_less_iff not_less option.distinct(1) option.inject)

lemma att_ix_nat: "att_ix att = Some a \<Longrightarrow> int a = att"
  by (auto simp: att_ix_def split: if_splits)

section \<open>Get and new\<close>

text \<open>What the calls do once the arguments are checked.\<close>

lemma new_read_ok:
  assumes e: "after_read e (new_finish e a sz ws) rd s = Some (r, s')" and s: "all_placed N s"
    and rd: "\<exists>r t. rd s = Some (r, t) \<and> all_placed N t \<and> gives (belongs a) r t"
    and ws: "\<And>pes. calm N a pes ws"
  shows "all_placed N s' \<and> gives (belongs a) r s'"
  by (rule pl.after_ok[OF e]) (use rd new_finish_ok ws in \<open>auto\<close>)

lemma read_total: "\<exists>r t. et_station_read n mode a s = Some (r, t) \<and> all_placed N t \<and> gives (belongs a) r t"
  if "all_placed N s" "n < N"
  unfolding et_station_read_def by (rule reads_enter[OF reads_ok_one that])

lemma nread_total: "\<exists>r t. et_station_nread n mode a m s = Some (r, t) \<and> all_placed N t \<and> gives (belongs a) r t"
  if "all_placed N s" "n < N"
  unfolding et_station_nread_def
  using reads_enter[OF reads_ok_many that] that by (auto simp: belongs_def)

lemma nread_group_total:
  "\<exists>r t. et_station_nread_group n mode a m g s = Some (r, t) \<and> all_placed N t \<and> gives (belongs a) r t"
  if "all_placed N s" "n < N"
  unfolding et_station_nread_group_def
  using reads_enter[OF reads_ok_group that] that by (auto simp: belongs_def)

lemma read_wake_total:
  assumes "all_placed N s" "n < N" "w = Signalled \<or> mode = ET_TIMED"
  shows "\<exists>r t. et_station_read_wake n mode a w s = Some (r, t) \<and> all_placed N t \<and> gives (belongs a) r t"
    "1 \<le> m \<Longrightarrow> \<exists>r t. et_station_nread_wake n mode a m w s = Some (r, t) \<and> all_placed N t \<and> gives (belongs a) r t"
    "1 \<le> m \<Longrightarrow> \<exists>r t. et_station_nread_group_wake n mode a m g w s = Some (r, t) \<and> all_placed N t \<and>
       gives (belongs a) r t"
  unfolding et_station_read_wake_def et_station_nread_wake_def et_station_nread_group_wake_def
  by (auto intro!: reads_wake assms reads_ok_one reads_ok_many reads_ok_group simp del: gives_simps)

lemma get_finish_total: "get_finish e a pes s \<noteq> None"
  by (simp add: get_finish_def split: prod.splits)

lemma get_read_ok:
  assumes s: "all_placed N s" and rd: "\<exists>r t. rd s = Some (r, t) \<and> all_placed N t \<and> gives (belongs a) r t"
  shows "\<exists>r s'. after_read e (get_finish e a) rd s = Some (r, s') \<and> all_placed N s' \<and> gives (belongs a) r s'"
proof -
  from rd have "after_read e (get_finish e a) rd s \<noteq> None"
    using get_finish_total by (auto simp: after_read_def split: run.splits)
  then obtain r s' where e: "after_read e (get_finish e a) rd s = Some (r, s')" by auto
  have "all_placed N s' \<and> gives (belongs a) r s'"
    by (rule pl.after_ok[OF e]) (use rd get_finish_ok in \<open>auto\<close>)
  then show ?thesis using e by blast
qed

theorem et_event_get_ok:
  assumes loc: "locality e = ET_LOCAL" and s: "all_placed N s" "stations_ok N s"
    and a: "att < ET_ATTACHMENTS_MAX" "0 \<le> at_stat (attach (sys s) (nat att))"
  shows "\<exists>r s'. et_event_get e etr att mode delta s = Some (r, s') \<and> all_placed N s' \<and> gives (belongs (nat att)) r s'"
proof (cases "att < 0 \<or> bad_mode mode \<or> et_alive e = 0")
  case True
  then show ?thesis using loc s(1) by (auto simp: et_event_get_def Let_def)
next
  case False
  then have i: "att_ix att = Some (nat att)" using a(1) by (simp add: att_ix_def)
  let ?n = "nat (at_stat (attach (sys s) (nat att)))"
  have n: "stat_ix s (nat att) = Some ?n" using a(2) by (simp add: stat_ix_def Let_def)
  have "\<exists>r s'. after_read e (get_finish e (nat att)) (et_station_read ?n (mode AND ET_WAIT_MASK) (nat att)) s = Some (r, s') \<and>
      all_placed N s' \<and> gives (belongs (nat att)) r s'"
    by (rule get_read_ok[OF s(1)]) (rule read_total[OF s(1) stat_ix_less[OF s(2) n]])
  then show ?thesis using i n False loc s(1) by (simp add: et_event_get_def Let_def)
qed

theorem et_events_get_ok:
  assumes loc: "locality e = ET_LOCAL" and s: "all_placed N s" "stations_ok N s"
    and a: "att < ET_ATTACHMENTS_MAX" "0 \<le> at_stat (attach (sys s) (nat att))"
  shows "\<exists>r s'. et_events_get e etr att mode delta m s = Some (r, s') \<and> all_placed N s' \<and> gives (belongs (nat att)) r s'"
proof (cases "m = 0 \<or> att < 0 \<or> m < 0 \<or> bad_mode mode \<or> et_alive e = 0")
  case True
  then show ?thesis using loc s(1) by (auto simp: et_events_get_def Let_def belongs_def)
next
  case False
  then have i: "att_ix att = Some (nat att)" using a(1) by (simp add: att_ix_def)
  let ?n = "nat (at_stat (attach (sys s) (nat att)))"
  have n: "stat_ix s (nat att) = Some ?n" using a(2) by (simp add: stat_ix_def Let_def)
  have "\<exists>r s'. after_read e (get_finish e (nat att)) (et_station_nread ?n (mode AND ET_WAIT_MASK) (nat att) m) s = Some (r, s') \<and>
      all_placed N s' \<and> gives (belongs (nat att)) r s'"
    by (rule get_read_ok[OF s(1)]) (rule nread_total[OF s(1) stat_ix_less[OF s(2) n]])
  then show ?thesis using i n False loc s(1) by (simp add: et_events_get_def Let_def)
qed

text \<open>New events: partial correctness, since a call may wait for temporary events for ever.\<close>

lemma et_events_new_group_ok:
  assumes e: "et_events_new_group e etr att mode delta sz m grp ws s = Some (r, s')"
    and loc: "locality e = ET_LOCAL" and s: "all_placed N s" and ws: "\<And>pes. calm N (nat att) pes ws"
  shows "all_placed N s' \<and> gives (belongs (nat att)) r s'"
proof (cases "after_read e (new_finish e (nat att) sz ws)
    (et_station_nread_group 0 (mode AND ET_WAIT_MASK) (nat att) (clip sz m s) grp) s = Some (r, s')")
  case True
  have "0 < N" using s by (simp add: all_placed_def)
  then show ?thesis using new_read_ok[OF True s nread_group_total[OF s] ws] by blast
next
  case False
  then have "s' = s \<and> (r = Done (ET_OK, []) \<or> r = Done (ET_ERROR, []) \<or> r = Done (ET_ERROR_DEAD, []))"
    using e loc by (auto simp: et_events_new_group_def Let_def att_ix_def split: if_splits)
  then show ?thesis using s by (auto simp: belongs_def)
qed

lemma et_events_new_ok:
  assumes e: "et_events_new e etr att mode delta sz m ws s = Some (r, s')"
    and loc: "locality e = ET_LOCAL" and s: "all_placed N s" and ws: "\<And>pes. calm N (nat att) pes ws"
  shows "all_placed N s' \<and> gives (belongs (nat att)) r s'"
proof (cases "id_group e \<noteq> 0")
  case True
  then show ?thesis using e et_events_new_group_ok[OF _ loc s ws] by (simp add: et_events_new_def Let_def)
next
  case grp: False
  show ?thesis
  proof (cases "after_read e (new_finish e (nat att) sz ws)
      (et_station_nread 0 (mode AND ET_WAIT_MASK) (nat att) (clip sz m s)) s = Some (r, s')")
    case True
    have "0 < N" using s by (simp add: all_placed_def)
    then show ?thesis using new_read_ok[OF True s nread_total[OF s] ws] by blast
  next
    case False
    then have "s' = s \<and> (r = Done (ET_OK, []) \<or> r = Done (ET_ERROR, []) \<or> r = Done (ET_ERROR_DEAD, []))"
      using e loc grp by (auto simp: et_events_new_def Let_def att_ix_def split: if_splits)
    then show ?thesis using s by (auto simp: belongs_def)
  qed
qed

lemma et_event_new_ok:
  assumes e: "et_event_new e etr att mode delta sz ws s = Some (r, s')"
    and loc: "locality e = ET_LOCAL" and s: "all_placed N s" and ws: "\<And>pes. calm N (nat att) pes ws"
  shows "all_placed N s' \<and> gives (belongs (nat att)) r s'"
proof (cases "id_group e \<noteq> 0")
  case True
  then show ?thesis using e et_events_new_group_ok[OF _ loc s ws]
    by (simp add: et_event_new_def et_event_new_group_def Let_def)
next
  case grp: False
  show ?thesis
  proof (cases "after_read e (new_finish e (nat att) sz ws)
      (et_station_read 0 (mode AND ET_WAIT_MASK) (nat att)) s = Some (r, s')")
    case True
    have "0 < N" using s by (simp add: all_placed_def)
    then show ?thesis using new_read_ok[OF True s read_total[OF s] ws] by blast
  next
    case False
    then have "s' = s \<and> (r = Done (ET_ERROR, []) \<or> r = Done (ET_ERROR_DEAD, []))"
      using e loc grp by (auto simp: et_event_new_def Let_def att_ix_def split: if_splits)
    then show ?thesis using s by auto
  qed
qed


section \<open>Put\<close>

lemma belongs_length: "belongs att pes s \<Longrightarrow> length pes \<le> length (held s)"
  using belongs_held[of att pes s] by (metis belongs_def card_mono distinct_card length_pos_if_in_set
    List.finite_set card_length order_trans)

lemma written_placed:
  assumes s: "all_placed N s" and n: "n < N" and b: "belongs a pes s" and ne: "pes \<noteq> []"
  shows "\<exists>s'. on_station n (et_station_nwrite (nevents_max s) pes) s = Some (ET_OK, s') \<and> all_placed N s' \<and>
      (\<forall>p\<in>set pes. owner (events s' p) = ET_SYS) \<and> (\<forall>p. core (events s' p) = core (events s p)) \<and> sys s' = sys s"
    "pes = [p] \<Longrightarrow> \<exists>s'. on_station n (et_station_write (nevents_max s) p) s = Some (ET_OK, s') \<and> all_placed N s' \<and>
      owner (events s' p) = ET_SYS \<and> (\<forall>p. core (events s' p) = core (events s p)) \<and> sys s' = sys s"
proof -
  obtain X Y where p: "placed N s X Y" "0 < N" using s by (auto simp: all_placed_def)
  have o: "out_repr (events s) (list_out (stats s n)) (Y n)" using p(1) n by (simp add: placed_def lists_ok_def)
  have d: "distinct pes" "set pes \<subseteq> set (held s)" using b belongs_held[OF b] by (auto simp: belongs_def)
  have x: "set pes \<inter> set (Y n) = {}" using placed_distinct(1)[OF p(1) n n] d(2) by auto
  have l: "int (length (Y n)) + int (length pes) \<le> nevents_max s"
    using placed_room(2)[OF p(1) n] belongs_length[OF b] by linarith
  have pr: "prio_ok (events s) (set pes)" using p(1) by (simp add: placed_def prio_ok_def)
  have fin: "all_placed N (s\<lparr>stats := (stats s)(n := ps'), events := h'\<rparr>)"
    if "out_written pes (Y n) (stats s n, events s) (ps', h')" for ps' h'
    unfolding all_placed_def using placed_write[OF p(1) n d that] p(2) by blast
  show "\<exists>s'. on_station n (et_station_nwrite (nevents_max s) pes) s = Some (ET_OK, s') \<and> all_placed N s' \<and>
      (\<forall>p\<in>set pes. owner (events s' p) = ET_SYS) \<and> (\<forall>p. core (events s' p) = core (events s p)) \<and> sys s' = sys s"
  proof -
    obtain ps' h' where w: "et_station_nwrite (nevents_max s) pes (stats s n, events s) = Some (ET_OK, ps', h')"
      "out_written pes (Y n) (stats s n, events s) (ps', h')"
      using et_station_nwrite_ok[OF o d(1) x l pr ne] by blast
    then have "on_station n (et_station_nwrite (nevents_max s) pes) s =
        Some (ET_OK, s\<lparr>stats := (stats s)(n := ps'), events := h'\<rparr>)" by (simp add: on_station_def)
    then show ?thesis using fin[OF w(2)] w(2) by (auto simp: out_written_def same_events_def)
  qed
  assume one: "pes = [p]"
  obtain ps' h' where w: "et_station_write (nevents_max s) p (stats s n, events s) = Some (ET_OK, ps', h')"
    "out_written [p] (Y n) (stats s n, events s) (ps', h')"
    using et_station_write_ok[OF o, of p "nevents_max s"] x l pr one by auto
  then have "on_station n (et_station_write (nevents_max s) p) s =
      Some (ET_OK, s\<lparr>stats := (stats s)(n := ps'), events := h'\<rparr>)" by (simp add: on_station_def)
  then show "\<exists>s'. on_station n (et_station_write (nevents_max s) p) s = Some (ET_OK, s') \<and> all_placed N s' \<and>
      owner (events s' p) = ET_SYS \<and> (\<forall>p. core (events s' p) = core (events s p)) \<and> sys s' = sys s"
    using fin w(2) one by (auto simp: out_written_def same_events_def)
qed

lemma stations_ok_upd [simp]:
  "stations_ok N (upd_event p f s) = stations_ok N s"
  "stat_ix (upd_event p f s) = stat_ix s"
  by (simp_all add: stations_ok_def stat_ix_def upd_event_def fun_eq_iff)

text \<open>The owner of an event can always put it: its station's output list has room for it.\<close>

theorem et_event_put_ok:
  assumes loc: "locality e = ET_LOCAL" "et_alive e \<noteq> 0" and s: "all_placed N s" "stations_ok N s"
    and a: "0 \<le> att" "att < ET_ATTACHMENTS_MAX" "0 \<le> at_stat (attach (sys s) (nat att))"
    and p: "p < nat (nevents_max s)" "owner (events s p) = att" "ev_length (events s p) \<le> memsize (events s p)"
    and t: "temp (events s p) = ET_EVENT_TEMP \<longrightarrow> env_munmap e p"
  shows "\<exists>s'. et_event_put e etr att (Some p) s = Some (ET_OK, s') \<and> all_placed N s' \<and>
    owner (events s' p) = ET_SYS \<and> age (events s' p) = ET_EVENT_USED \<and>
    events_put (attach (sys s') (nat att)) = events_put (attach (sys s) (nat att)) + 1"
proof -
  let ?s1 = "upd_event p (\<lambda>pe. pe\<lparr>age := ET_EVENT_USED\<rparr>) s"
  let ?n = "nat (at_stat (attach (sys s) (nat att)))"
  have i: "att_ix att = Some (nat att)" "stat_ix s (nat att) = Some ?n"
    using a by (simp_all add: att_ix_def stat_ix_def Let_def)
  have q: "quiet s ?s1" using p(2) a(1) by (intro quiet_event) auto
  have s1: "all_placed N ?s1" "belongs (nat att) [p] ?s1" "sys ?s1 = sys s"
    using all_placed_quiet[OF s(1) q] p a(1) by (auto simp: belongs_def upd_event_def)
  have n: "?n < N" by (rule stat_ix_less[OF s(2) i(2)])
  obtain s2 where s2: "on_station ?n (et_station_write (nevents_max s) p) ?s1 = Some (ET_OK, s2)" "all_placed N s2"
    "owner (events s2 p) = ET_SYS" "core (events s2 p) = core (events ?s1 p)" "sys s2 = sys s"
    using written_placed(2)[OF s1(1) n s1(2) _ refl] s1(3) by auto
  have "age (events s2 p) = ET_EVENT_USED" using core_fields(2)[OF s2(4)] by (simp add: upd_event_def)
  moreover have "et_event_put e etr att (Some p) s =
      Some (ET_OK, upd_attach (nat att) (\<lambda>t. t\<lparr>events_put := events_put t + 1\<rparr>) s2)"
    using loc a(1) p t i s2(1) s1(3) by (simp add: et_event_put_def Let_def not_less)
  ultimately show ?thesis using s2 all_placed_quiet[OF s2(2) quiet_steps(3)] by auto
qed

text \<open>A call with an event of another owner, or one too long, changes nothing.\<close>

theorem et_event_put_rejects:
  assumes "locality e = ET_LOCAL" "et_alive e \<noteq> 0"
    and "att < 0 \<or> ev_length (events s p) > memsize (events s p) \<or> owner (events s p) \<noteq> att"
  shows "et_event_put e etr att (Some p) s = Some (ET_ERROR, s)"
  using assms by (auto simp: et_event_put_def)

lemma et_event_put_keeps:
  assumes e: "et_event_put e etr att pe s = Some (st, s')" and loc: "locality e = ET_LOCAL"
    and s: "all_placed N s" "stations_ok N s" and p: "\<forall>p. pe = Some p \<longrightarrow> p < nat (nevents_max s)"
  shows "all_placed N s'"
proof (cases "s' = s")
  case False
  then obtain p where pe: "pe = Some p" "\<not> att < 0" "\<not> ev_length (events s p) > memsize (events s p)"
    "et_alive e \<noteq> 0" "owner (events s p) = att" "temp (events s p) = ET_EVENT_TEMP \<longrightarrow> env_munmap e p"
    "att_ix att \<noteq> None" "\<forall>a. att_ix att = Some a \<longrightarrow> stat_ix s a \<noteq> None"
    using e loc by (auto simp: et_event_put_def split: option.splits if_splits Option.bind_splits)
  then have a: "att < ET_ATTACHMENTS_MAX" "0 \<le> at_stat (attach (sys s) (nat att))"
    by (auto simp: att_ix_def stat_ix_def Let_def split: if_splits)
  show ?thesis
    using et_event_put_ok[OF loc pe(4) s _ a, of p etr] e pe p by (auto simp: not_less)
qed (simp add: s)


lemma put_ages_quiet:
  assumes "put_ages e pes s = (st, s')" "\<forall>p\<in>set pes. owner (events s p) \<noteq> ET_SYS"
  shows "quiet s s' \<and> sys s' = sys s \<and> stats s' = stats s"
  using assms
proof (induction e pes s rule: put_ages.induct)
  case (2 e p ps s)
  let ?s = "upd_event p (\<lambda>pe. pe\<lparr>modify := age pe, age := ET_EVENT_USED\<rparr>) s"
  have q: "quiet s ?s" using 2(3) by (intro quiet_event) auto
  then have o: "\<forall>q\<in>set ps. owner (events ?s q) \<noteq> ET_SYS" using 2(3) by (simp add: quiet_def)
  have f: "sys ?s = sys s" "stats ?s = stats s" by (simp_all add: upd_event_def)
  show ?case using 2(1)[OF _ _ o] 2(2) quiet_trans[OF q] f by (auto split: if_splits)
qed simp

lemma put_ages_ok:
  assumes "\<forall>p\<in>set pes. temp (events s p) = ET_EVENT_TEMP \<longrightarrow> env_munmap e p" "distinct pes"
  shows "\<exists>s'. put_ages e pes s = (ET_OK, s') \<and> (\<forall>p\<in>set pes. age (events s' p) = ET_EVENT_USED) \<and>
    (\<forall>p. p \<notin> set pes \<longrightarrow> events s' p = events s p)"
  using assms
proof (induction pes arbitrary: s)
  case (Cons p ps)
  let ?s = "upd_event p (\<lambda>pe. pe\<lparr>modify := age pe, age := ET_EVENT_USED\<rparr>) s"
  have 1: "\<forall>q\<in>set ps. temp (events ?s q) = ET_EVENT_TEMP \<longrightarrow> env_munmap e q" "distinct ps" "p \<notin> set ps"
    using Cons.prems by (auto simp: upd_event_def)
  from Cons.IH[OF 1(1,2)] obtain s' where s': "put_ages e ps ?s = (ET_OK, s')"
    "\<forall>q\<in>set ps. age (events s' q) = ET_EVENT_USED" "\<forall>q. q \<notin> set ps \<longrightarrow> events s' q = events ?s q" by blast
  have "put_ages e (p # ps) s = (ET_OK, s')" using s'(1) Cons.prems(1) by simp
  moreover have "age (events s' p) = ET_EVENT_USED" using s'(3) 1(3) by (simp add: upd_event_def)
  ultimately show ?case using s'(2,3) by (auto simp: upd_event_def)
qed simp

text \<open>An array of events is put or not put as a whole, provided no event is in it twice.\<close>

theorem et_events_put_ok:
  assumes loc: "locality e = ET_LOCAL" "et_alive e \<noteq> 0" and s: "all_placed N s" "stations_ok N s"
    and a: "0 \<le> att" "att < ET_ATTACHMENTS_MAX" "0 \<le> at_stat (attach (sys s) (nat att))"
    and p: "belongs (nat att) pes s" "\<forall>p\<in>set pes. ev_length (events s p) \<le> memsize (events s p)"
    and t: "\<forall>p\<in>set pes. temp (events s p) = ET_EVENT_TEMP \<longrightarrow> env_munmap e p" and ne: "pes \<noteq> []"
  shows "\<exists>s'. et_events_put e etr att pes s = Some (ET_OK, s') \<and> all_placed N s' \<and>
    (\<forall>p\<in>set pes. owner (events s' p) = ET_SYS \<and> age (events s' p) = ET_EVENT_USED) \<and>
    events_put (attach (sys s') (nat att)) = events_put (attach (sys s) (nat att)) + of_nat (length pes)"
proof -
  let ?n = "nat (at_stat (attach (sys s) (nat att)))"
  have d: "distinct pes" using p(1) by (simp add: belongs_def)
  obtain s1 where pa: "put_ages e pes s = (ET_OK, s1)" "\<forall>p\<in>set pes. age (events s1 p) = ET_EVENT_USED"
    using put_ages_ok[OF t d] by blast
  have q: "quiet s s1" "sys s1 = sys s" using put_ages_quiet[OF pa(1)] belongs_owner[OF p(1)] by auto
  have s1: "all_placed N s1" "belongs (nat att) pes s1"
    using all_placed_quiet[OF s(1) q(1)] belongs_quiet[OF p(1) q(1)] .
  have i: "att_ix att = Some (nat att)" "stat_ix s1 (nat att) = Some ?n"
    using a q(2) by (simp_all add: att_ix_def stat_ix_def Let_def)
  have n: "?n < N" using stat_ix_less[OF s(2), of "nat att" ?n] a(3) by (simp add: stat_ix_def Let_def)
  obtain s2 where s2: "on_station ?n (et_station_nwrite (nevents_max s1) pes) s1 = Some (ET_OK, s2)" "all_placed N s2"
    "\<forall>p\<in>set pes. owner (events s2 p) = ET_SYS" "\<forall>p. core (events s2 p) = core (events s1 p)" "sys s2 = sys s1"
    using written_placed(1)[OF s1(1) n s1(2) ne] by blast
  have ow: "\<not> (\<exists>p\<in>set pes. owner (events s p) \<noteq> att)" using p(1) a(1) by (auto simp: belongs_def)
  have len: "\<not> (\<exists>p\<in>set pes. ev_length (events s p) > memsize (events s p))" using p(2) by (auto simp: not_less)
  have e: "et_events_put e etr att pes s =
      Some (ET_OK, upd_attach (nat att) (\<lambda>t. t\<lparr>events_put := events_put t + of_nat (length pes)\<rparr>) s2)"
    using loc a(1) ne pa(1) i s2(1) unfolding et_events_put_def if_not_P[OF ow] if_not_P[OF len]
    by (simp del: upd_attach_simps)
  have "\<forall>p\<in>set pes. age (events s2 p) = ET_EVENT_USED"
    using core_fields(2)[OF s2(4)[rule_format]] pa(2) by simp
  then show ?thesis using e s2 q(2) all_placed_quiet[OF s2(2) quiet_steps(3)] by auto
qed

theorem et_events_put_rejects:
  assumes "locality e = ET_LOCAL" "et_alive e \<noteq> 0" "pes \<noteq> []"
    and "att < 0 \<or> (\<exists>p\<in>set pes. ev_length (events s p) > memsize (events s p) \<or> owner (events s p) \<noteq> att)"
  shows "et_events_put e etr att pes s = Some (ET_ERROR, s)"
  using assms by (auto simp: et_events_put_def)

lemma et_events_put_keeps:
  assumes e: "et_events_put e etr att pes s = Some (st, s')" and loc: "locality e = ET_LOCAL"
    and s: "all_placed N s" "stations_ok N s" and p: "\<forall>p\<in>set pes. p < nat (nevents_max s)" "distinct pes"
  shows "all_placed N s'"
proof (cases "pes = [] \<or> att < 0 \<or> et_alive e = 0 \<or> (\<exists>p\<in>set pes. ev_length (events s p) > memsize (events s p)) \<or>
    (\<exists>p\<in>set pes. owner (events s p) \<noteq> att)")
  case True
  then have "s' = s" using e loc by (auto simp: et_events_put_def split: if_splits)
  then show ?thesis using s(1) by simp
next
  case False
  then have b: "belongs (nat att) pes s" using p by (auto simp: belongs_def)
  obtain st1 s1 where pa: "put_ages e pes s = (st1, s1)" by fastforce
  have q: "quiet s s1" "sys s1 = sys s" using put_ages_quiet[OF pa] belongs_owner[OF b] by auto
  have s1: "all_placed N s1" "belongs (nat att) pes s1" "stations_ok N s1"
    using all_placed_quiet[OF s(1) q(1)] belongs_quiet[OF b q(1)] s(2) q(2) by (auto simp: stations_ok_def)
  have f: "\<not> (\<exists>p\<in>set pes. ev_length (events s p) > memsize (events s p))" "\<not> (\<exists>p\<in>set pes. owner (events s p) \<noteq> att)"
    "pes \<noteq> []" "\<not> att < 0" "et_alive e \<noteq> 0" using False by blast+
  have e1: "(if st1 \<noteq> ET_OK then Some (ET_ERROR, s1)
       else do {
         a \<leftarrow> att_ix att;
         n \<leftarrow> stat_ix s1 a;
         (st, s) \<leftarrow> on_station n (et_station_nwrite (nevents_max s1) pes) s1;
         if st \<noteq> ET_OK then Some (st, undo_ages pes s)
         else Some (ET_OK, upd_attach a
                (\<lambda>t. t\<lparr>events_put := events_put t + of_nat (length pes)\<rparr>) s) }) = Some (st, s')"
    using e loc f(3-5) pa unfolding et_events_put_def if_not_P[OF f(1)] if_not_P[OF f(2)] by simp
  show ?thesis
  proof (cases "st1 = ET_OK")
    case True
    then obtain a n where a: "att_ix att = Some a" "stat_ix s1 a = Some n"
      using e1 by (auto split: Option.bind_splits)
    obtain s2 where s2: "on_station n (et_station_nwrite (nevents_max s1) pes) s1 = Some (ET_OK, s2)" "all_placed N s2"
      using written_placed(1)[OF s1(1) stat_ix_less[OF s1(3) a(2)] s1(2) f(3)] by blast
    then have "s' = upd_attach a (\<lambda>t. t\<lparr>events_put := events_put t + of_nat (length pes)\<rparr>) s2"
      using e1 True a by (simp del: upd_attach_simps)
    then show ?thesis using all_placed_quiet[OF s2(2) quiet_steps(3)] by simp
  qed (use e1 s1(1) in simp)
qed

section \<open>Dump\<close>

lemma dump_placed:
  assumes s: "all_placed N s" and b: "belongs a pes s" and ne: "pes \<noteq> []"
  shows "\<exists>s'. on_station 0 (et_station_ndump (nevents_max s) pes) s = Some (ET_OK, s') \<and> all_placed N s' \<and>
      (\<forall>p\<in>set pes. owner (events s' p) = ET_SYS) \<and> sys s' = sys s"
    "pes = [p] \<Longrightarrow> \<exists>s'. on_station 0 (et_station_dump (nevents_max s) p) s = Some (ET_OK, s') \<and> all_placed N s' \<and>
      owner (events s' p) = ET_SYS \<and> sys s' = sys s"
proof -
  obtain X Y where p: "placed N s X Y" "0 < N" using s by (auto simp: all_placed_def)
  have o: "list_repr (events s) (list_in (stats s 0)) (X 0)"
    using p by (simp add: placed_def lists_ok_def in_lists_def)
  have d: "distinct pes" "set pes \<subseteq> set (held s)" using b belongs_held[OF b] by (auto simp: belongs_def)
  have x: "distinct (X 0 @ pes)" using placed_distinct(1)[OF p(1,2,2)] d by auto
  have l: "int (length (X 0)) + int (length pes) \<le> nevents_max s"
    using placed_room(1)[OF p] belongs_length[OF b] by linarith
  have fin: "all_placed N (s\<lparr>stats := (stats s)(0 := ps'), events := h'\<rparr>)"
    if "dumped pes (X 0) (stats s 0, events s) (ps', h')" for ps' h'
    unfolding all_placed_def using placed_dump[OF p d that] p(2) by blast
  show "\<exists>s'. on_station 0 (et_station_ndump (nevents_max s) pes) s = Some (ET_OK, s') \<and> all_placed N s' \<and>
      (\<forall>p\<in>set pes. owner (events s' p) = ET_SYS) \<and> sys s' = sys s"
  proof -
    obtain ps' h' where w: "et_station_ndump (nevents_max s) pes (stats s 0, events s) = Some (ET_OK, ps', h')"
      "dumped pes (X 0) (stats s 0, events s) (ps', h')"
      using et_station_ndump_ok[OF o x ne l] by blast
    then have "on_station 0 (et_station_ndump (nevents_max s) pes) s =
        Some (ET_OK, s\<lparr>stats := (stats s)(0 := ps'), events := h'\<rparr>)" by (simp add: on_station_def)
    then show ?thesis using fin[OF w(2)] w(2) by (auto simp: dumped_def)
  qed
  assume one: "pes = [p]"
  obtain ps' h' where w: "et_station_dump (nevents_max s) p (stats s 0, events s) = Some (ET_OK, ps', h')"
    "dumped [p] (X 0) (stats s 0, events s) (ps', h')"
    using et_station_dump_ok[OF o, of p "nevents_max s"] x l one by auto
  then have "on_station 0 (et_station_dump (nevents_max s) p) s =
      Some (ET_OK, s\<lparr>stats := (stats s)(0 := ps'), events := h'\<rparr>)" by (simp add: on_station_def)
  then show "\<exists>s'. on_station 0 (et_station_dump (nevents_max s) p) s = Some (ET_OK, s') \<and> all_placed N s' \<and>
      owner (events s' p) = ET_SYS \<and> sys s' = sys s"
    using fin w(2) one by (auto simp: dumped_def)
qed


lemma sub_temps_simps [simp]:
  "events (sub_temps n s) = events s" "stats (sub_temps n s) = stats s"
  "attach (sys (sub_temps n s)) = attach (sys s)" "ntemps (sys (sub_temps n s)) = ntemps (sys s) - int n"
  by (simp_all add: sub_temps_def system_lock_def system_unlock_def et_system_lock_def et_system_unlock_def)

theorem et_event_dump_ok:
  assumes loc: "locality e = ET_LOCAL" "et_alive e \<noteq> 0" and s: "all_placed N s"
    and a: "0 \<le> att" "att < ET_ATTACHMENTS_MAX" and p: "p < nat (nevents_max s)" "owner (events s p) = att"
    and t: "temp (events s p) = ET_EVENT_TEMP \<longrightarrow> env_temp_remove e p"
  shows "\<exists>s'. et_event_dump e etr att (Some p) s = Some (ET_OK, s') \<and> all_placed N s' \<and>
    owner (events s' p) = ET_SYS \<and>
    ntemps (sys s') = ntemps (sys s) - (if temp (events s p) = ET_EVENT_TEMP then 1 else 0) \<and>
    events_dump (attach (sys s') (nat att)) = events_dump (attach (sys s) (nat att)) + 1"
proof -
  have i: "att_ix att = Some (nat att)" using a by (simp add: att_ix_def)
  have b: "belongs (nat att) [p] s" using p a(1) by (simp add: belongs_def)
  obtain s2 where s2: "on_station 0 (et_station_dump (nevents_max s) p) s = Some (ET_OK, s2)" "all_placed N s2"
    "owner (events s2 p) = ET_SYS" "sys s2 = sys s"
    using dump_placed(2)[OF s b _ refl] by auto
  let ?n = "if temp (events s p) = ET_EVENT_TEMP then 1 else 0"
  let ?s3 = "upd_attach (nat att) (\<lambda>t. t\<lparr>events_dump := events_dump t + 1\<rparr>) (sub_temps ?n s2)"
  have "et_event_dump e etr att (Some p) s = Some (ET_OK, ?s3)"
    using loc a(1) p t i s2(1) unfolding et_event_dump_def
    by (simp add: Let_def not_less del: upd_attach_simps sub_temps_simps)
  moreover have "all_placed N ?s3"
    using all_placed_quiet[OF all_placed_quiet[OF s2(2) quiet_steps(5)] quiet_steps(3)] .
  moreover have "ntemps (sys ?s3) = ntemps (sys s) - int ?n" using s2(4) by (simp add: upd_attach_def)
  ultimately show ?thesis using s2(3,4) by (auto simp: upd_attach_def)
qed

theorem et_events_dump_ok:
  assumes loc: "locality e = ET_LOCAL" "et_alive e \<noteq> 0" and s: "all_placed N s"
    and a: "0 \<le> att" "att < ET_ATTACHMENTS_MAX" and b: "belongs (nat att) pes s" and ne: "pes \<noteq> []"
    and t: "\<forall>p\<in>set pes. temp (events s p) = ET_EVENT_TEMP \<longrightarrow> env_temp_remove e p"
  shows "\<exists>s'. et_events_dump e etr att pes s = Some (ET_OK, s') \<and> all_placed N s' \<and>
    (\<forall>p\<in>set pes. owner (events s' p) = ET_SYS) \<and>
    ntemps (sys s') = ntemps (sys s) - int (length (filter (\<lambda>p. temp (events s p) = ET_EVENT_TEMP) pes)) \<and>
    events_dump (attach (sys s') (nat att)) = events_dump (attach (sys s) (nat att)) + of_nat (length pes)"
proof -
  let ?tmps = "filter (\<lambda>p. temp (events s p) = ET_EVENT_TEMP) pes"
  have i: "att_ix att = Some (nat att)" using a by (simp add: att_ix_def)
  obtain s2 where s2: "on_station 0 (et_station_ndump (nevents_max s) pes) s = Some (ET_OK, s2)" "all_placed N s2"
    "\<forall>p\<in>set pes. owner (events s2 p) = ET_SYS" "sys s2 = sys s"
    using dump_placed(1)[OF s b ne] by auto
  let ?s3 = "upd_attach (nat att) (\<lambda>t. t\<lparr>events_dump := events_dump t + of_nat (length pes)\<rparr>)
    (sub_temps (length ?tmps) s2)"
  have f: "\<not> (\<exists>p\<in>set pes. owner (events s p) \<noteq> att)" "\<not> (\<exists>p\<in>set ?tmps. \<not> env_temp_remove e p)"
    using b a(1) t by (auto simp: belongs_def)
  have "et_events_dump e etr att pes s = Some (ET_OK, ?s3)"
    using loc a(1) ne i s2(1) unfolding et_events_dump_def if_not_P[OF f(1)] Let_def if_not_P[OF f(2)]
    by (simp del: upd_attach_simps sub_temps_simps)
  moreover have "all_placed N ?s3"
    using all_placed_quiet[OF all_placed_quiet[OF s2(2) quiet_steps(5)] quiet_steps(3)] .
  moreover have "ntemps (sys ?s3) = ntemps (sys s) - int (length ?tmps)" using s2(4) by (simp add: upd_attach_def)
  ultimately show ?thesis using s2(3,4) by (auto simp: upd_attach_def)
qed

theorem et_event_dump_rejects:
  assumes "locality e = ET_LOCAL" "et_alive e \<noteq> 0" "owner (events s p) \<noteq> att"
  shows "et_event_dump e etr att (Some p) s = Some (ET_ERROR, s)"
    "p \<in> set pes \<Longrightarrow> et_events_dump e etr att pes s = Some (ET_ERROR, s)"
  using assms by (auto simp: et_event_dump_def et_events_dump_def)

lemma et_event_dump_keeps:
  assumes e: "et_event_dump e etr att pe s = Some (st, s')" and loc: "locality e = ET_LOCAL"
    and s: "all_placed N s" and p: "\<forall>p. pe = Some p \<longrightarrow> p < nat (nevents_max s)"
  shows "all_placed N s'"
proof (cases "s' = s")
  case False
  then obtain p where pe: "pe = Some p" "\<not> att < 0" "et_alive e \<noteq> 0" "owner (events s p) = att"
    "temp (events s p) = ET_EVENT_TEMP \<longrightarrow> env_temp_remove e p" "att_ix att \<noteq> None"
    using e loc by (auto simp: et_event_dump_def split: option.splits if_splits Option.bind_splits)
  then have a: "att < ET_ATTACHMENTS_MAX" by (auto simp: att_ix_def split: if_splits)
  show ?thesis
    using et_event_dump_ok[OF loc pe(3) s _ a _ pe(4,5), of etr] e pe p by (auto simp: not_less)
qed (simp add: s)

lemma et_events_dump_keeps:
  assumes e: "et_events_dump e etr att pes s = Some (st, s')" and loc: "locality e = ET_LOCAL"
    and s: "all_placed N s" and p: "\<forall>p\<in>set pes. p < nat (nevents_max s)" "distinct pes"
  shows "all_placed N s'"
proof (cases "pes = [] \<or> att < 0 \<or> et_alive e = 0 \<or> (\<exists>p\<in>set pes. owner (events s p) \<noteq> att) \<or>
    (\<exists>p\<in>set pes. temp (events s p) = ET_EVENT_TEMP \<and> \<not> env_temp_remove e p)")
  case True
  then have "s' = s" using e loc by (auto simp: et_events_dump_def Let_def split: if_splits)
  then show ?thesis using s by simp
next
  case False
  then have b: "belongs (nat att) pes s" using p by (auto simp: belongs_def)
  have "att_ix att \<noteq> None"
    using e loc False by (auto simp: et_events_dump_def Let_def split: if_splits Option.bind_splits)
  then have a: "att < ET_ATTACHMENTS_MAX" by (auto simp: att_ix_def split: if_splits)
  show ?thesis
    using et_events_dump_ok[OF loc _ s _ a b, of etr] e False by auto
qed

end
