(* ===== verification/EtAttachInv.thy ===== *)
theory EtAttachInv imports EtShmInv begin

text \<open>
  The bookkeeping of attachments: the counts kept in the system and in each station agree with the
  table of attachments, and attaching and detaching keep it so; the limits on attachments hold.
\<close>

section \<open>What the event operations leave alone\<close>

definition att_frame :: "et_shm \<Rightarrow> et_shm \<Rightarrow> bool" where
  "att_frame s s' \<longleftrightarrow>
     (\<forall>i. at_num (attach (sys s') i) = at_num (attach (sys s) i) \<and>
          at_stat (attach (sys s') i) = at_stat (attach (sys s) i)) \<and>
     (\<forall>n. st_data (stats s' n) = st_data (stats s n) \<and> config (stats s' n) = config (stats s n) \<and>
          num (stats s' n) = num (stats s n) \<and> st_next (stats s' n) = st_next (stats s n) \<and>
          nextparallel (stats s' n) = nextparallel (stats s n)) \<and>
     nattachments (sys s') = nattachments (sys s) \<and> sys_config (sys s') = sys_config (sys s) \<and>
     proc (sys s') = proc (sys s) \<and> stat_head (sys s') = stat_head (sys s) \<and>
     nprocesses (sys s') = nprocesses (sys s)"

lemma att_frame_refl [simp]: "att_frame s s"
  by (simp add: att_frame_def)

lemma att_frame_trans: "att_frame s s1 \<Longrightarrow> att_frame s1 s2 \<Longrightarrow> att_frame s s2"
  by (simp add: att_frame_def)

lemma upd_attach_sys [simp]:
  "nattachments (sys (upd_attach n g s)) = nattachments (sys s)"
  "proc (sys (upd_attach n g s)) = proc (sys s)"
  "stat_head (sys (upd_attach n g s)) = stat_head (sys s)"
  "nstations (sys (upd_attach n g s)) = nstations (sys s)" "nprocesses (sys (upd_attach n g s)) = nprocesses (sys s)"
  by (simp_all add: upd_attach_def)

lemma att_frame_events [simp]: "att_frame s (s\<lparr>events := h\<rparr>)" "att_frame s (s\<lparr>histogram := g\<rparr>)"
  by (simp_all add: att_frame_def)

lemma att_frame_station:
  "(\<And>ps. st_data (f ps) = st_data ps \<and> config (f ps) = config ps \<and> num (f ps) = num ps \<and>
      st_next (f ps) = st_next ps \<and> nextparallel (f ps) = nextparallel ps) \<Longrightarrow> att_frame s (upd_station n f s)"
  by (simp add: att_frame_def)

lemma fold_upd_station [simp]:
  "sys (fold (\<lambda>i. upd_station i f) ns s) = sys s"
  "events (fold (\<lambda>i. upd_station i f) ns s) = events s"
  "histogram (fold (\<lambda>i. upd_station i f) ns s) = histogram s"
  by (induction ns arbitrary: s) simp_all

lemma stats_fold_upd_station:
  assumes "\<And>ps. f (f ps) = f ps"
  shows "stats (fold (\<lambda>i. upd_station i f) ns s) n = (if n \<in> set ns then f (stats s n) else stats s n)"
  by (induction ns arbitrary: s) (auto simp: assms)

lemma transfer_lock_all_simps [simp]:
  "sys (et_transfer_lock_all s) = sys s" "sys (et_transfer_unlock_all s) = sys s"
  "events (et_transfer_lock_all s) = events s" "events (et_transfer_unlock_all s) = events s"
  "st_data (stats (et_transfer_lock_all s) n) = st_data (stats s n)"
  "st_data (stats (et_transfer_unlock_all s) n) = st_data (stats s n)"
  "config (stats (et_transfer_lock_all s) n) = config (stats s n)"
  "num (stats (et_transfer_lock_all s) n) = num (stats s n)"
  "num (stats (et_transfer_unlock_all s) n) = num (stats s n)"
  "st_next (stats (et_transfer_lock_all s) n) = st_next (stats s n)"
  "st_next (stats (et_transfer_unlock_all s) n) = st_next (stats s n)"
  "nextparallel (stats (et_transfer_lock_all s) n) = nextparallel (stats s n)"
  "nextparallel (stats (et_transfer_unlock_all s) n) = nextparallel (stats s n)"
  "config (stats (et_transfer_unlock_all s) n) = config (stats s n)"
  "list_in (stats (et_transfer_lock_all s) n) = list_in (stats s n)"
  "list_in (stats (et_transfer_unlock_all s) n) = list_in (stats s n)"
  "list_out (stats (et_transfer_lock_all s) n) = list_out (stats s n)"
  "list_out (stats (et_transfer_unlock_all s) n) = list_out (stats s n)"
  by (simp_all add: et_transfer_lock_all_def et_transfer_unlock_all_def stats_fold_upd_station
      et_transfer_lock_def et_transfer_unlock_def)

lemma sys_lock_simps [simp]:
  "stats (station_lock s) = stats s" "stats (station_unlock s) = stats s"
  "stats (system_lock s) = stats s" "stats (system_unlock s) = stats s"
  "events (station_lock s) = events s" "events (station_unlock s) = events s"
  "events (system_lock s) = events s" "events (system_unlock s) = events s"
  "attach (sys (station_lock s)) = attach (sys s)" "attach (sys (station_unlock s)) = attach (sys s)"
  "attach (sys (system_lock s)) = attach (sys s)" "attach (sys (system_unlock s)) = attach (sys s)"
  "sys_config (sys (station_lock s)) = sys_config (sys s)"
  "sys_config (sys (station_unlock s)) = sys_config (sys s)"
  "sys_config (sys (system_lock s)) = sys_config (sys s)"
  "sys_config (sys (system_unlock s)) = sys_config (sys s)"
  "stat_head (sys (station_lock s)) = stat_head (sys s)" "stat_head (sys (station_unlock s)) = stat_head (sys s)"
  "stat_head (sys (system_lock s)) = stat_head (sys s)" "stat_head (sys (system_unlock s)) = stat_head (sys s)"
  "nattachments (sys (station_lock s)) = nattachments (sys s)"
  "nattachments (sys (station_unlock s)) = nattachments (sys s)"
  "nattachments (sys (system_lock s)) = nattachments (sys s)"
  "nattachments (sys (system_unlock s)) = nattachments (sys s)"
  "stat_mutex (sys (station_lock s))" "\<not> stat_mutex (sys (station_unlock s))"
  "sys_mutex (sys (system_lock s))" "\<not> sys_mutex (sys (system_unlock s))"
  by (simp_all add: station_lock_def station_unlock_def system_lock_def system_unlock_def
      et_station_lock_def et_station_unlock_def et_system_lock_def et_system_unlock_def)

text \<open>A station operation only works on the lists and the repair information.\<close>

definition keeps_data ::
  "(et_station \<times> heap \<Rightarrow> ('r \<times> et_station \<times> heap) option) \<Rightarrow> bool" where
  "keeps_data f \<longleftrightarrow> (\<forall>ps h r ps' h'. f (ps, h) = Some (r, ps', h') \<longrightarrow>
     st_data ps' = st_data ps \<and> config ps' = config ps \<and> num ps' = num ps \<and>
     st_next ps' = st_next ps \<and> nextparallel ps' = nextparallel ps)"

lemma on_station_frame:
  assumes "keeps_data f" "on_station n f s = Some (r, s')"
  shows "att_frame s s'"
proof -
  obtain ps' h' where "f (stats s n, events s) = Some (r, ps', h')"
    "s' = s\<lparr>stats := (stats s)(n := ps'), events := h'\<rparr>"
    using assms(2) by (auto simp: on_station_def split: Option.bind_splits)
  moreover from this(1) have "st_data ps' = st_data (stats s n) \<and> config ps' = config (stats s n) \<and>
      num ps' = num (stats s n) \<and> st_next ps' = st_next (stats s n) \<and> nextparallel ps' = nextparallel (stats s n)"
    using assms(1) unfolding keeps_data_def by blast
  ultimately show ?thesis by (auto simp: att_frame_def)
qed

lemma keeps_data_ops [simp]:
  "keeps_data (et_station_nwrite nmax pes)" "keeps_data (et_station_ndump nmax pes)"
  "keeps_data (et_station_write nmax p)" "keeps_data (et_station_dump nmax p)"
  "keeps_data (read_many att m)" "keeps_data (read_one att)" "keeps_data (read_group att mode m g)"
  by (auto simp: keeps_data_def et_station_nwrite_def et_station_ndump_def et_station_write_def
      et_station_dump_def read_many_def read_one_def read_group_def Let_def
      split: Option.bind_splits if_splits prod.splits)

interpretation att: shm_inv "att_frame s0"
  by unfold_locales (auto simp: att_frame_def in_lock_def in_unlock_def flags_only_def upd_attach_def)

lemma nread_frame:
  assumes "et_station_nread n mode att m s = Some (r, s')"
  shows "att_frame s s'"
proof (cases "m < 1")
  case False
  have e: "read_enter n mode att (on_station n (read_many att m)) s = Some (r, s')"
    using assms False by (simp add: et_station_nread_def)
  have "att_frame s s' \<and> gives (\<lambda>_ _. True) r s'"
  proof (rule att.enter_ok[OF e att_frame_refl])
    fix t assume "att_frame s t" "on_station n (read_many att m) t = Some (r, s')"
    then have "att_frame s s'" using att_frame_trans on_station_frame[OF keeps_data_ops(5)] by blast
    then show "att_frame s s' \<and> gives (\<lambda>_ _. True) r s'" by (simp add: gives_def)
  qed
  then show ?thesis by blast
qed (use assms in \<open>simp add: et_station_nread_def\<close>)


lemma restore_list_frame:
  "restore_out pes n s = Some (st, nw, s') \<Longrightarrow> att_frame s s'"
  "restore_in pes n s = Some (st, nw, s') \<Longrightarrow> att_frame s s'"
  by (auto simp: restore_out_def restore_in_def att_frame_def split: Option.bind_splits)

lemma flush_frame:
  assumes "et_flush_events e att n s = Some s'"
  shows "att_frame s s'"
proof -
  consider (nothing) "s' = s" | (r) st pes s1 where
    "et_station_nread n ET_ASYNC att (nevents_max s) s = Some (Done (st, pes), s1)"
    "s' = s1 \<or> (\<exists>m st' nw. restore_out pes m s1 = Some (st', nw, s')) \<or>
     (\<exists>st'. on_station n (et_station_nwrite (nevents_max s1) pes) s1 = Some (st', s'))"
    using assms by (auto simp: et_flush_events_def split: if_splits Option.bind_splits run.splits; blast)
  then show ?thesis
  proof cases
    case r
    then show ?thesis using att_frame_trans[OF nread_frame[OF r(1)]] restore_list_frame
      on_station_frame[OF keeps_data_ops(1)] by auto
  qed simp
qed

lemma drop_temps_frame [simp]: "att_frame s (drop_temps pes s)"
  by (simp add: drop_temps_def att_frame_def)

lemma put_back_frame:
  assumes "put_back ordered n s = Some (r, s')"
  shows "att_frame s s'"
proof -
  define c where "c = s\<lparr>events := mark_corrupt ordered (events s)\<rparr>"
  have fc: "att_frame s c" by (simp add: c_def)
  consider (dump) "on_station 0 (et_station_ndump (nevents_max s) ordered) (drop_temps ordered s) = Some (r, s')"
    | (outlist) "on_station n (et_station_nwrite (nevents_max s) ordered) c = Some (r, s')"
    | (inlist) st nw s1 where "restore_in ordered n c = Some (st, nw, s1)"
        "s' = s1 \<or> (\<exists>pes. on_station n (et_station_nwrite (nevents_max s) pes) s1 = Some (r, s'))"
    | (redist) m st nw where "restore_out ordered m c = Some (st, nw, s')"
    | (nothing) "s' = s"
    using assms unfolding put_back_def Let_def c_def[symmetric]
    by (auto split: if_splits Option.bind_splits; blast)
  then show ?thesis
  proof cases
    case dump
    then show ?thesis using att_frame_trans[OF drop_temps_frame on_station_frame[OF keeps_data_ops(2)]] by blast
  next
    case outlist
    then show ?thesis using att_frame_trans[OF fc on_station_frame[OF keeps_data_ops(1)]] by blast
  next
    case inlist
    then show ?thesis
      using att_frame_trans[OF fc restore_list_frame(2)[OF inlist(1)]]
        att_frame_trans on_station_frame[OF keeps_data_ops(1)] by blast
  next
    case redist
    then show ?thesis using att_frame_trans[OF fc restore_list_frame(1)] by blast
  qed simp
qed

lemma restore_events_frame:
  assumes "et_restore_events e att n s = Some (r, s')"
  shows "att_frame s s'"
proof -
  have d: "att_frame t t'" if "dump_new news t = Some (z, t')" for news t t' z
    using that att_frame_trans[OF drop_temps_frame on_station_frame[OF keeps_data_ops(2)]]
    by (auto simp: dump_new_def split: if_splits)
  define news where "news = filter (\<lambda>p. age (events s p) = ET_EVENT_NEW) (owned_by att s)"
  define s1 where "s1 = s\<lparr>events := set_owners (filter (\<lambda>p. age (events s p) \<noteq> ET_EVENT_NEW) (owned_by att s))
      ET_SYS (events s)\<rparr>"
  have s1: "att_frame s s1" by (simp add: s1_def)
  have "s' = s \<or> s' = s1 \<or> (\<exists>z s2. dump_new news s1 = Some (z, s2) \<and>
      (s' = s2 \<or> (\<exists>ord. put_back ord n s2 = Some (r, s'))))"
    using assms unfolding et_restore_events_def Let_def s1_def[symmetric] news_def[symmetric]
    by (auto split: if_splits Option.bind_splits)
  then show ?thesis using att_frame_trans[OF s1] s1 d att_frame_trans put_back_frame by (metis att_frame_refl)
qed

section \<open>The invariant\<close>

definition active :: "et_shm \<Rightarrow> nat \<Rightarrow> bool" where
  "active s i \<longleftrightarrow> at_num (attach (sys s) i) = int i"

text \<open>The attachments in use, and those to the station \<open>n\<close>.\<close>

definition atts :: "et_shm \<Rightarrow> nat set" where
  "atts s = {i. int i < c_nattachments (sys_config (sys s)) \<and> active s i}"

definition atts_of :: "et_shm \<Rightarrow> nat \<Rightarrow> nat set" where
  "atts_of s n = {i \<in> atts s. at_stat (attach (sys s) i) = int n}"

definition att_inv :: "et_shm \<Rightarrow> bool" where
  "att_inv s \<longleftrightarrow>
     (\<forall>i. int i < c_nattachments (sys_config (sys s)) \<longrightarrow>
        (at_num (attach (sys s) i) = - 1 \<or> active s i) \<and>
        (active s i \<longrightarrow> 0 \<le> at_stat (attach (sys s) i) \<and>
           at_stat (attach (sys s) i) < c_nstations (sys_config (sys s)))) \<and>
     nattachments (sys s) = int (card (atts s)) \<and>
     (\<forall>n. int n < c_nstations (sys_config (sys s)) \<longrightarrow>
        st_nattachments (st_data (stats s n)) = int (card (atts_of s n)) \<and>
        (\<forall>i. int i < c_nattachments (sys_config (sys s)) \<longrightarrow>
           st_att (st_data (stats s n)) i = (if i \<in> atts_of s n then int i else - 1)))"

text \<open>The limits that \<^verbatim>\<open>et_station_attach\<close> enforces.\<close>

definition att_limits :: "et_shm \<Rightarrow> bool" where
  "att_limits s \<longleftrightarrow> nattachments (sys s) \<le> c_nattachments (sys_config (sys s)) \<and>
     (\<forall>n. user_mode (config (stats s n)) > 0 \<longrightarrow>
        st_nattachments (st_data (stats s n)) \<le> user_mode (config (stats s n)))"

lemma finite_atts [simp]: "finite (atts s)" "finite (atts_of s n)"
proof -
  have "atts s \<subseteq> {..<nat (c_nattachments (sys_config (sys s)))}" by (auto simp: atts_def)
  then show "finite (atts s)" by (rule finite_subset) simp
  then show "finite (atts_of s n)" by (simp add: atts_of_def)
qed

lemma att_frame_active:
  assumes "att_frame s s'"
  shows "active s' = active s" "atts s' = atts s" "atts_of s' n = atts_of s n"
  using assms by (auto simp: att_frame_def active_def atts_def atts_of_def)

lemma att_frame_inv: "att_frame s s' \<Longrightarrow> att_inv s' = att_inv s"
  by (simp add: att_inv_def att_frame_active) (simp add: att_frame_def)

lemma att_frame_limits: "att_frame s s' \<Longrightarrow> att_limits s' = att_limits s"
  by (simp add: att_limits_def att_frame_def)

text \<open>
  The new attachment \<open>i\<close> to station \<open>n\<close>, described by what changes in the tables; \<open>gone\<close> is the
  converse for an attachment that leaves.
\<close>

definition joined :: "nat \<Rightarrow> nat \<Rightarrow> et_shm \<Rightarrow> et_shm \<Rightarrow> bool" where
  "joined i n s s' \<longleftrightarrow>
     at_num (attach (sys s') i) = int i \<and> at_stat (attach (sys s') i) = int n \<and>
     (\<forall>j. j \<noteq> i \<longrightarrow> at_num (attach (sys s') j) = at_num (attach (sys s) j) \<and>
          at_stat (attach (sys s') j) = at_stat (attach (sys s) j)) \<and>
     nattachments (sys s') = nattachments (sys s) + 1 \<and> sys_config (sys s') = sys_config (sys s) \<and>
     (\<forall>m. config (stats s' m) = config (stats s m) \<and>
          st_nattachments (st_data (stats s' m)) =
            st_nattachments (st_data (stats s m)) + (if m = n then 1 else 0) \<and>
          st_att (st_data (stats s' m)) =
            (if m = n then (st_att (st_data (stats s m)))(i := int i) else st_att (st_data (stats s m))))"

definition gone :: "nat \<Rightarrow> nat \<Rightarrow> et_shm \<Rightarrow> et_shm \<Rightarrow> bool" where
  "gone i n s s' \<longleftrightarrow>
     at_num (attach (sys s') i) = - 1 \<and>
     (\<forall>j. j \<noteq> i \<longrightarrow> at_num (attach (sys s') j) = at_num (attach (sys s) j)) \<and>
     (\<forall>j. at_stat (attach (sys s') j) = at_stat (attach (sys s) j)) \<and>
     nattachments (sys s') = nattachments (sys s) - 1 \<and> sys_config (sys s') = sys_config (sys s) \<and>
     (\<forall>m. config (stats s' m) = config (stats s m) \<and>
          st_nattachments (st_data (stats s' m)) =
            st_nattachments (st_data (stats s m)) - (if m = n then 1 else 0) \<and>
          st_att (st_data (stats s' m)) =
            (if m = n then (st_att (st_data (stats s m)))(i := - 1) else st_att (st_data (stats s m))))"

lemma joined_inv:
  assumes inv: "att_inv s" and j: "joined i n s s'"
    and i: "int i < c_nattachments (sys_config (sys s))" "\<not> active s i"
    and n: "int n < c_nstations (sys_config (sys s))"
  shows "att_inv s'"
proof -
  have act: "active s' k \<longleftrightarrow> k = i \<or> active s k" for k
    using j by (cases "k = i") (auto simp: joined_def active_def)
  have cfg: "sys_config (sys s') = sys_config (sys s)" using j by (simp add: joined_def)
  have A: "atts s' = insert i (atts s)" "i \<notin> atts s"
    using act i cfg by (auto simp: atts_def)
  have B: "atts_of s' m = (if m = n then insert i (atts_of s m) else atts_of s m)" for m
    using j A by (auto simp: atts_of_def joined_def split: if_splits)
  have C: "i \<notin> atts_of s m" for m using A(2) by (simp add: atts_of_def)
  have "at_num (attach (sys s') k) = - 1 \<or> active s' k" if "int k < c_nattachments (sys_config (sys s))" for k
    using inv j that act by (cases "k = i") (auto simp: att_inv_def joined_def)
  moreover have "0 \<le> at_stat (attach (sys s') k) \<and> at_stat (attach (sys s') k) < c_nstations (sys_config (sys s))"
    if "int k < c_nattachments (sys_config (sys s))" "active s' k" for k
    using inv j that act n by (cases "k = i") (auto simp: att_inv_def joined_def)
  moreover have "nattachments (sys s') = int (card (atts s'))"
    using inv j A by (simp add: att_inv_def joined_def)
  moreover have "st_nattachments (st_data (stats s' m)) = int (card (atts_of s' m))"
    if "int m < c_nstations (sys_config (sys s))" for m
    using inv j that C by (auto simp: att_inv_def joined_def B)
  moreover have "st_att (st_data (stats s' m)) k = (if k \<in> atts_of s' m then int k else - 1)"
    if "int m < c_nstations (sys_config (sys s))" "int k < c_nattachments (sys_config (sys s))" for m k
    using inv j that C by (auto simp: att_inv_def joined_def B)
  ultimately show ?thesis unfolding att_inv_def cfg by blast
qed

lemma gone_inv:
  assumes inv: "att_inv s" and g: "gone i n s s'"
    and i: "i \<in> atts_of s n" "int n < c_nstations (sys_config (sys s))"
  shows "att_inv s'"
proof -
  have act: "active s' k \<longleftrightarrow> k \<noteq> i \<and> active s k" for k
    using g by (cases "k = i") (auto simp: gone_def active_def)
  have cfg: "sys_config (sys s') = sys_config (sys s)" using g by (simp add: gone_def)
  have A: "atts s' = atts s - {i}" "i \<in> atts s"
    using act i cfg by (auto simp: atts_def atts_of_def)
  have B: "atts_of s' m = (if m = n then atts_of s m - {i} else atts_of s m)" for m
    using g A i by (auto simp: atts_of_def gone_def split: if_splits)
  have P: "0 < card (atts s)" "0 < card (atts_of s n)" using A(2) i by (auto simp: card_gt_0_iff)
  have "at_num (attach (sys s') k) = - 1 \<or> active s' k" if "int k < c_nattachments (sys_config (sys s))" for k
    using inv g that act by (cases "k = i") (auto simp: att_inv_def gone_def)
  moreover have "0 \<le> at_stat (attach (sys s') k) \<and> at_stat (attach (sys s') k) < c_nstations (sys_config (sys s))"
    if "int k < c_nattachments (sys_config (sys s))" "active s' k" for k
    using inv g that act by (auto simp: att_inv_def gone_def)
  moreover have "nattachments (sys s') = int (card (atts s'))"
    using inv g A P(1) by (simp add: att_inv_def gone_def of_nat_diff)
  moreover have "st_nattachments (st_data (stats s' m)) = int (card (atts_of s' m))"
    if "int m < c_nstations (sys_config (sys s))" for m
    using inv g that P(2) i(1) by (auto simp: att_inv_def gone_def B of_nat_diff)
  moreover have "st_att (st_data (stats s' m)) k = (if k \<in> atts_of s' m then int k else - 1)"
    if "int m < c_nstations (sys_config (sys s))" "int k < c_nattachments (sys_config (sys s))" for m k
    using inv g that i(1) by (auto simp: att_inv_def gone_def B)
  ultimately show ?thesis unfolding att_inv_def cfg by blast
qed

section \<open>Attaching and detaching\<close>

lemma upd_procD:
  assumes "upd_proc i f s = Some s'"
  shows "stats s' = stats s" "events s' = events s" "attach (sys s') = attach (sys s)"
    "nattachments (sys s') = nattachments (sys s)" "sys_config (sys s') = sys_config (sys s)"
  using assms by (auto simp: upd_proc_def split: if_splits)

lemma upd_proc_same:
  "upd_proc i f s = Some s' \<Longrightarrow> stats s' = stats s \<and> events s' = events s \<and>
    attach (sys s') = attach (sys s) \<and> nattachments (sys s') = nattachments (sys s) \<and>
    sys_config (sys s') = sys_config (sys s)"
  by (simp add: upd_procD)

lemma fill_attachment_simps [simp]:
  "stats (fill_attachment e i n s) = stats s" "events (fill_attachment e i n s) = events s"
  "nattachments (sys (fill_attachment e i n s)) = nattachments (sys s)"
  "sys_config (sys (fill_attachment e i n s)) = sys_config (sys s)"
  "at_num (attach (sys (fill_attachment e i n s)) j) = (if j = i then int i else at_num (attach (sys s) j))"
  "at_stat (attach (sys (fill_attachment e i n s)) j) = (if j = i then n else at_stat (attach (sys s) j))"
  by (simp_all add: fill_attachment_def et_init_attachment_def)

lemma attach_joined:
  assumes att: "et_station_attach e etr stat_id s = Some ((ET_OK, Some a), s')" and loc: "locality e = ET_LOCAL"
  shows "\<exists>i. a = int i \<and> joined i (nat stat_id) s s' \<and> a < c_nattachments (sys_config (sys s)) \<and>
    at_num (attach (sys s) i) = - 1 \<and> 0 \<le> stat_id \<and> stat_id < c_nstations (sys_config (sys s)) \<and>
    nattachments (sys s) < c_nattachments (sys_config (sys s)) \<and>
    \<not> (0 < user_mode (config (stats s (nat stat_id))) \<and>
       user_mode (config (stats s (nat stat_id))) \<le> st_nattachments (st_data (stats s (nat stat_id)))) \<and>
    status (st_data (stats s' (nat stat_id))) = ET_STATION_ACTIVE \<and>
    events s' = events s \<and> \<not> stat_mutex (sys s') \<and>
    (\<forall>k. list_in (stats s' k) = list_in (stats s k) \<and> list_out (stats s' k) = list_out (stats s k))"
proof -
  define n where "n = nat stat_id"
  have g: "\<not> stat_id < 0" "stat_id < c_nstations (sys_config (sys s))"
    "\<not> (0 < user_mode (config (stats s n)) \<and> user_mode (config (stats s n)) \<le> st_nattachments (st_data (stats s n)))"
    "nattachments (sys s) < c_nattachments (sys_config (sys s))"
    using att loc by (auto simp: et_station_attach_def Let_def n_def split: if_splits)
  obtain i where i: "find (\<lambda>i. at_num (attach (sys s) i) = - 1) [0..<nat (c_nattachments (sys_config (sys s)))] = Some i"
    using att loc by (auto simp: et_station_attach_def Let_def split: if_splits option.splits)
  then have ip: "int i < c_nattachments (sys_config (sys s))" "at_num (attach (sys s) i) = - 1"
    by (auto simp: find_Some_iff)
  define s1 where "s1 = fill_attachment e i stat_id
      (upd_sys (\<lambda>y. y\<lparr>nattachments := nattachments y + 1\<rparr>) (system_lock (station_lock s)))"
  obtain s2 where s2: "(if id_proc e \<noteq> ET_SYS
              then upd_proc (id_proc e) (\<lambda>p. p\<lparr>pr_nattachments := pr_nattachments p + 1,
                     pr_att := (pr_att p)(i := int i)\<rparr>) s1 else Some s1) = Some s2"
    using att loc g i by (auto simp: et_station_attach_def Let_def n_def s1_def split: if_splits Option.bind_splits)
  have s2f: "stats s2 = stats s" "attach (sys s2) = attach (sys s1)" "events s2 = events s"
    "nattachments (sys s2) = nattachments (sys s) + 1" "sys_config (sys s2) = sys_config (sys s)"
    using s2 upd_procD[of "id_proc e" _ s1 s2] by (auto simp: s1_def split: if_splits)
  define s3 where "s3 = upd_station n (\<lambda>ps. ps\<lparr>st_data := (st_data ps)\<lparr>
                   st_nattachments := st_nattachments (st_data ps) + 1,
                   st_att := (st_att (st_data ps))(i := int i)\<rparr>\<rparr>) (system_unlock s2)"
  have e: "a = int i" "s' = station_unlock (activate n s3)"
    using att loc g i s2
    by (auto simp: et_station_attach_def Let_def n_def[symmetric] s1_def[symmetric] s3_def
        split: if_splits)
  have "joined i n s s'" "status (st_data (stats s' n)) = ET_STATION_ACTIVE" "events s' = events s"
    "\<not> stat_mutex (sys s')" "\<forall>k. list_in (stats s' k) = list_in (stats s k) \<and> list_out (stats s' k) = list_out (stats s k)"
    using e(2) s2f g(1) by (auto simp: joined_def s3_def activate_def Let_def s1_def n_def)
  then show ?thesis using e(1) ip g by (auto simp: n_def)
qed

lemma attach_fails:
  assumes "et_station_attach e etr stat_id s = Some ((st, None), s')" "locality e = ET_LOCAL"
  shows "stats s' = stats s \<and> events s' = events s \<and> attach (sys s') = attach (sys s) \<and> sys_config (sys s') = sys_config (sys s)"
  using assms by (auto simp: et_station_attach_def Let_def split: if_splits option.splits Option.bind_splits)

lemma attach_gives:
  "et_station_attach e etr stat_id s = Some ((st, Some a), s') \<Longrightarrow> locality e = ET_LOCAL \<Longrightarrow> st = ET_OK"
  by (auto simp: et_station_attach_def Let_def split: if_splits option.splits Option.bind_splits)

lemma attach_inv:
  assumes "et_station_attach e etr stat_id s = Some ((ET_OK, Some a), s')" "locality e = ET_LOCAL"
    and "att_inv s"
  shows "att_inv s'"
proof -
  obtain i where i: "joined i (nat stat_id) s s'" "int i < c_nattachments (sys_config (sys s))"
    "at_num (attach (sys s) i) = - 1" "0 \<le> stat_id" "stat_id < c_nstations (sys_config (sys s))"
    using attach_joined[OF assms(1,2)] by blast
  then show ?thesis by (intro joined_inv[OF assms(3) i(1,2)]) (auto simp: active_def)
qed

lemma attach_limits:
  assumes "et_station_attach e etr stat_id s = Some ((ET_OK, Some a), s')" "locality e = ET_LOCAL"
    and "att_limits s"
  shows "att_limits s'"
proof -
  obtain i where i: "joined i (nat stat_id) s s'"
    "nattachments (sys s) < c_nattachments (sys_config (sys s))"
    "\<not> (0 < user_mode (config (stats s (nat stat_id))) \<and>
       user_mode (config (stats s (nat stat_id))) \<le> st_nattachments (st_data (stats s (nat stat_id))))"
    using attach_joined[OF assms(1,2)] by blast
  then show ?thesis using assms(3) by (auto simp: att_limits_def joined_def)
qed

lemma make_idle_frame:
  assumes "make_idle e a n s1 = Some s2"
  shows "(\<forall>i. at_num (attach (sys s2) i) = at_num (attach (sys s1) i) \<and>
          at_stat (attach (sys s2) i) = at_stat (attach (sys s1) i)) \<and>
     (\<forall>m. st_nattachments (st_data (stats s2 m)) = st_nattachments (st_data (stats s1 m)) \<and>
          st_att (st_data (stats s2 m)) = st_att (st_data (stats s1 m)) \<and> config (stats s2 m) = config (stats s1 m)) \<and>
     nattachments (sys s2) = nattachments (sys s1) \<and> sys_config (sys s2) = sys_config (sys s1)"
proof (cases "st_nattachments (st_data (stats s1 n)) = 1 \<and> int n \<noteq> ET_GRANDCENTRAL")
  case True
  define t where "t = (let s = (if cleanup e \<noteq> 1 then et_transfer_lock_all s1 else s1);
             s = upd_station n (\<lambda>ps. ps\<lparr>st_data := (st_data ps)\<lparr>status := ET_STATION_IDLE\<rparr>\<rparr>) s
         in if cleanup e \<noteq> 1 then et_transfer_unlock_all s else s)"
  have "et_flush_events e a n t = Some s2"
    using assms True by (simp add: make_idle_def t_def Let_def)
  then have "att_frame t s2" by (rule flush_frame)
  then show ?thesis by (auto simp: att_frame_def t_def Let_def)
next
  case False
  then have "make_idle e a n s1 = Some s1" by (simp only: make_idle_def if_False)
  then show ?thesis using assms by simp
qed

lemma detach_gone:
  assumes det: "et_station_detach e etr att s = Some (ET_OK, s')" and loc: "locality e = ET_LOCAL"
  shows "gone (nat att) (nat (at_stat (attach (sys s) (nat att)))) s s' \<and> 0 \<le> att \<and>
    att < c_nattachments (sys_config (sys s)) \<and> 0 \<le> at_stat (attach (sys s) (nat att))"
proof -
  define a where "a = nat att"
  define n where "n = nat (at_stat (attach (sys s) a))"
  define sl where "sl = (if cleanup e \<noteq> 1 then station_lock s else s)"
  define sy where "sy = (if cleanup e \<noteq> 1 then system_lock sl else sl)"
  define s1 where "s1 = upd_sys (\<lambda>y. y\<lparr>nattachments := nattachments y - 1\<rparr>)
      (upd_attach a (\<lambda>t. t\<lparr>at_num := - 1, at_status := ET_ATT_UNUSED\<rparr>) sy)"
  have sl: "attach (sys sl) = attach (sys s)" "stats sl = stats s" "sys_config (sys sl) = sys_config (sys s)"
    by (simp_all add: sl_def)
  have g: "\<not> (att < 0 \<or> att \<ge> ET_ATTACHMENTS_MAX)" "\<not> att \<ge> c_nattachments (sys_config (sys s))"
    "et_alive e \<noteq> 0" "\<not> at_stat (attach (sys s) a) < 0"
    using det loc sl by (auto simp: et_station_detach_def Let_def a_def sl_def split: if_splits)
  have d: "et_station_detach e etr att s = do {
       s \<leftarrow> make_idle e a n s1;
       (_, s) \<leftarrow> et_restore_events e att n s;
       let s = leave_station a n s;
       if cleanup e \<noteq> 1 then do {
         let s = station_unlock s;
         s \<leftarrow> (if id_proc e \<noteq> ET_SYS
              then upd_proc (id_proc e) (\<lambda>p. p\<lparr>pr_nattachments := pr_nattachments p - 1,
                     pr_att := (pr_att p)(a := - 1)\<rparr>) s
              else Some s);
         Some (ET_OK, system_unlock s) }
       else Some (ET_OK, s) }"
    using g loc sl
    by (simp add: et_station_detach_def Let_def a_def[symmetric] sl_def[symmetric] n_def[symmetric]
        sy_def[symmetric] s1_def[symmetric])
  obtain s2 z s3 where s2: "make_idle e a n s1 = Some s2" and s3: "et_restore_events e att n s2 = Some (z, s3)"
    using det unfolding d by (auto split: Option.bind_splits)
  have fi: "(\<forall>i. at_num (attach (sys s2) i) = at_num (attach (sys s1) i) \<and>
          at_stat (attach (sys s2) i) = at_stat (attach (sys s1) i)) \<and>
     (\<forall>m. st_nattachments (st_data (stats s2 m)) = st_nattachments (st_data (stats s1 m)) \<and>
          st_att (st_data (stats s2 m)) = st_att (st_data (stats s1 m)) \<and> config (stats s2 m) = config (stats s1 m)) \<and>
     nattachments (sys s2) = nattachments (sys s1) \<and> sys_config (sys s2) = sys_config (sys s1)"
    by (rule make_idle_frame[OF s2])
  have fr: "att_frame s2 s3" by (rule restore_events_frame[OF s3])
  have "stats s' = stats (leave_station a n s3) \<and> attach (sys s') = attach (sys (leave_station a n s3)) \<and>
      nattachments (sys s') = nattachments (sys (leave_station a n s3)) \<and>
      sys_config (sys s') = sys_config (sys (leave_station a n s3))"
    using det unfolding d s2 using s3
    by (auto simp: Let_def split: if_splits Option.bind_splits dest!: upd_proc_same)
  then have "gone a n s s'"
    using fi fr by (auto simp: gone_def att_frame_def leave_station_def s1_def sy_def sl_def split: if_splits)
  then show ?thesis using g by (simp add: a_def n_def)
qed

lemma detach_inv:
  assumes "et_station_detach e etr att s = Some (ET_OK, s')" "locality e = ET_LOCAL"
    and "att_inv s" "active s (nat att)"
  shows "att_inv s'"
proof -
  note g = detach_gone[OF assms(1,2)]
  have "at_stat (attach (sys s) (nat att)) < c_nstations (sys_config (sys s))"
    using assms(3,4) g by (auto simp: att_inv_def)
  then show ?thesis
    using g assms(4) by (intro gone_inv[OF assms(3) conjunct1[OF g]]) (auto simp: atts_of_def atts_def)
qed

end
