(* ===== verification/EtDetach.thy ===== *)
theory EtDetach imports EtCalls EtAttachInv begin

text \<open>
  Detaching gives back all events of the attachment: \<^verbatim>\<open>et_restore_events\<close> takes its events from it
  before it puts them into lists. While they are in no list and belong to nobody they are \<open>lent\<close>: with
  their former owner they would be in place. The restore mode REDIST is not covered:
  it may leave the output list it writes to with a wrong \<^verbatim>\<open>lasthigh\<close>.
\<close>

section \<open>Events on their way back\<close>

definition lent :: "nat \<Rightarrow> nat \<Rightarrow> nat list \<Rightarrow> et_shm \<Rightarrow> bool" where
  "lent N a pes s \<longleftrightarrow> (\<exists>t. all_placed N t \<and> belongs a pes t \<and> s = t\<lparr>events := set_owners pes ET_SYS (events t)\<rparr>)"

lemma set_owners_apply: "set_owners pes a h r = (if r \<in> set pes then (h r)\<lparr>owner := a\<rparr> else h r)"
  by (induction pes arbitrary: h) (auto simp: set_owner_def)

lemma set_owners_back: "\<forall>p\<in>set pes. owner (h p) = a \<Longrightarrow> set_owners pes a (set_owners pes b h) = h"
  by (auto simp: set_owners_apply fun_eq_iff)

lemma set_owners_cong: "set pes = set pes' \<Longrightarrow> set_owners pes a h = set_owners pes' a h"
  by (auto simp: set_owners_apply fun_eq_iff)

lemma lent_cong: "lent N a pes s \<Longrightarrow> set pes' = set pes \<Longrightarrow> distinct pes' \<Longrightarrow> lent N a pes' s"
  using set_owners_cong[of pes' pes] by (auto simp: lent_def belongs_def)

lemma lent_start:
  "all_placed N s \<Longrightarrow> belongs a pes s \<Longrightarrow> lent N a pes (s\<lparr>events := set_owners pes ET_SYS (events s)\<rparr>)"
  by (auto simp: lent_def)

text \<open>Changes that move no event: counts of the system, and the mark for events that may be corrupt.\<close>

lemma drop_temps_owners:
  "drop_temps ps (s\<lparr>events := set_owners pes a (events s)\<rparr>) =
    (drop_temps ps s)\<lparr>events := set_owners pes a (events (drop_temps ps s))\<rparr>"
proof -
  have "temp (set_owners pes a (events s) p) = temp (events s p)" for p by (simp add: set_owners_apply)
  then show ?thesis by (simp add: drop_temps_def upd_sys_def)
qed

lemma quiet_drop_temps: "quiet s (drop_temps ps s)"
  by (simp add: quiet_def drop_temps_def same_list_def)

lemma lent_drop_temps: "lent N a pes s \<Longrightarrow> lent N a pes (drop_temps ps s)"
proof -
  assume "lent N a pes s"
  then obtain t where t: "all_placed N t" "belongs a pes t" "s = t\<lparr>events := set_owners pes ET_SYS (events t)\<rparr>"
    by (auto simp: lent_def)
  show ?thesis unfolding lent_def t(3) drop_temps_owners
    using all_placed_quiet[OF t(1) quiet_drop_temps] belongs_quiet[OF t(2) quiet_drop_temps]
    by (intro exI[of _ "drop_temps ps t"]) simp
qed

lemma mark_corrupt_apply:
  "mark_corrupt pes h r = (if r \<in> set pes then (h r)\<lparr>datastatus := ET_DATA_POSSIBLY_CORRUPT\<rparr> else h r)"
proof -
  have "fold (\<lambda>p h. h(p := (h p)\<lparr>datastatus := x\<rparr>)) pes h r = (if r \<in> set pes then (h r)\<lparr>datastatus := x\<rparr> else h r)" for x
    by (induction pes arbitrary: h) auto
  then show ?thesis by (simp add: mark_corrupt_def)
qed

lemma high_mark_corrupt [simp]: "high (mark_corrupt pes h) = high h"
  by (simp add: high_def fun_eq_iff mark_corrupt_apply)

lemma quiet_mark: "quiet s (s\<lparr>events := mark_corrupt pes (events s)\<rparr>)"
  by (auto simp: quiet_def same_list_def mark_corrupt_apply prio_ok_def)

lemma lent_mark:
  assumes "lent N a pes s"
  shows "lent N a pes (s\<lparr>events := mark_corrupt qs (events s)\<rparr>)"
proof -
  obtain t where t: "all_placed N t" "belongs a pes t" "s = t\<lparr>events := set_owners pes ET_SYS (events t)\<rparr>"
    using assms by (auto simp: lent_def)
  have "mark_corrupt qs (set_owners pes ET_SYS (events t)) = set_owners pes ET_SYS (mark_corrupt qs (events t))"
    by (auto simp: mark_corrupt_apply set_owners_apply fun_eq_iff)
  then show ?thesis unfolding lent_def t(3)
    using all_placed_quiet[OF t(1) quiet_mark] belongs_quiet[OF t(2) quiet_mark]
    by (intro exI[of _ "t\<lparr>events := mark_corrupt qs (events t)\<rparr>"]) simp
qed

text \<open>Putting lent events into a list is like putting events of the former owner.\<close>

lemma same_events_lent:
  assumes "same_events (set_owners pes a h) h' A" "set pes \<subseteq> A"
  shows "same_events h h' A"
proof -
  have "same_events h (set_owners pes a h) A" by (rule same_events_set_owners[OF assms(2)])
  then show ?thesis using assms(1) by (rule same_events_step)
qed

lemma list_repr_heap: "list_repr h pl xs = list_repr (set_owners pes a h) pl xs"
  by simp

lemma high_set_owner [simp]: "high (set_owners pes a h) = high h"
  by (simp add: high_def fun_eq_iff set_owners_apply)

lemma out_repr_set_owners [simp]: "out_repr (set_owners pes a h) pl xs = out_repr h pl xs"
  by (simp add: out_repr_def high_first_def)

lemma high_first_set_owners [simp]: "high_first (set_owners pes a h) xs = high_first h xs"
  by (simp add: high_first_def)

lemma prio_ok_set_owners [simp]: "prio_ok (set_owners pes a h) A = prio_ok h A"
  by (simp add: prio_ok_def set_owners_apply)

lemma lentE:
  assumes "lent N a pes s"
  obtains t X Y where "s = t\<lparr>events := set_owners pes ET_SYS (events t)\<rparr>" "placed N t X Y" "0 < N"
    "distinct pes" "set pes \<subseteq> set (held t)" "belongs a pes t"
    "\<And>k. k < N \<Longrightarrow> int (length (X k)) + int (length pes) \<le> nevents_max t"
    "\<And>k. k < N \<Longrightarrow> int (length (Y k)) + int (length pes) \<le> nevents_max t"
    "\<And>k. k < N \<Longrightarrow> set pes \<inter> (set (X k) \<union> set (Y k)) = {}"
proof -
  obtain t where t: "all_placed N t" "belongs a pes t" "s = t\<lparr>events := set_owners pes ET_SYS (events t)\<rparr>"
    using assms by (auto simp: lent_def)
  then obtain X Y where p: "placed N t X Y" "0 < N" by (auto simp: all_placed_def)
  have d: "distinct pes" "set pes \<subseteq> set (held t)" using t(2) belongs_held by (auto simp: belongs_def)
  have "int (length (X k)) + int (length pes) \<le> nevents_max t" "int (length (Y k)) + int (length pes) \<le> nevents_max t"
    if "k < N" for k
    using placed_room[OF p(1) that] belongs_length[OF t(2)] by linarith+
  moreover have "set pes \<inter> (set (X k) \<union> set (Y k)) = {}" if "k < N" for k
    using placed_distinct(1)[OF p(1) that that] d(2) by auto
  ultimately show thesis using that[OF t(3) p d t(2)] by blast
qed

lemma write_lent:
  assumes "lent N a pes s" "n < N" "pes \<noteq> []"
  shows "\<exists>s'. on_station n (et_station_nwrite (nevents_max s) pes) s = Some (ET_OK, s') \<and> all_placed N s' \<and>
    (\<forall>r. owner (events s' r) = owner (events s r)) \<and> sys s' = sys s"
proof -
  obtain t X Y where t: "s = t\<lparr>events := set_owners pes ET_SYS (events t)\<rparr>" "placed N t X Y" "0 < N"
    "distinct pes" "set pes \<subseteq> set (held t)"
    and l: "\<And>k. k < N \<Longrightarrow> int (length (Y k)) + int (length pes) \<le> nevents_max t"
    and x: "\<And>k. k < N \<Longrightarrow> set pes \<inter> (set (X k) \<union> set (Y k)) = {}"
    using lentE[OF assms(1)] by metis
  let ?h = "set_owners pes ET_SYS (events t)"
  have "prio_ok (events t) (set pes)" using t(2) by (simp add: placed_def prio_ok_def)
  then have o: "out_repr ?h (list_out (stats t n)) (Y n)" "prio_ok ?h (set pes)"
    using t(2) assms(2) by (simp_all add: placed_def lists_ok_def)
  obtain ps' h' where w: "et_station_nwrite (nevents_max t) pes (stats t n, ?h) = Some (ET_OK, ps', h')"
    "out_written pes (Y n) (stats t n, ?h) (ps', h')"
    using et_station_nwrite_ok[OF o(1) t(4) _ l[OF assms(2)] o(2) assms(3)] x[OF assms(2)] by blast
  have se: "same_events (events t) h' (set (Y n) \<union> set pes)"
    by (rule same_events_lent[of pes ET_SYS]) (use w(2) in \<open>auto simp: out_written_def\<close>)
  moreover have "ins_events ?h = ins_events (events t)"
    by (rule ins_events_cong[OF same_events_set_owners[OF subset_refl]])
  ultimately have "out_written pes (Y n) (stats t n, events t) (ps', h')"
    using w(2) by (auto simp: out_written_def)
  then have "all_placed N (t\<lparr>stats := (stats t)(n := ps'), events := h'\<rparr>)"
    unfolding all_placed_def using placed_write[OF t(2) assms(2) t(4,5)] t(3) by blast
  moreover have "\<forall>r. owner (h' r) = owner (?h r)" using w(2) by (auto simp: out_written_def)
  moreover have "on_station n (et_station_nwrite (nevents_max s) pes) s =
      Some (ET_OK, t\<lparr>stats := (stats t)(n := ps'), events := h'\<rparr>)"
    using w(1) by (simp add: on_station_def t(1))
  ultimately show ?thesis using t(1) by simp
qed

lemma dump_lent:
  assumes "lent N a pes s" "pes \<noteq> []"
  shows "\<exists>s'. on_station 0 (et_station_ndump (nevents_max s) pes) s = Some (ET_OK, s') \<and> all_placed N s' \<and>
    (\<forall>r. owner (events s' r) = owner (events s r)) \<and> sys s' = sys s"
proof -
  obtain t X Y where t: "s = t\<lparr>events := set_owners pes ET_SYS (events t)\<rparr>" "placed N t X Y" "0 < N"
    "distinct pes" "set pes \<subseteq> set (held t)"
    and l: "\<And>k. k < N \<Longrightarrow> int (length (X k)) + int (length pes) \<le> nevents_max t"
    and x: "\<And>k. k < N \<Longrightarrow> set pes \<inter> (set (X k) \<union> set (Y k)) = {}"
    using lentE[OF assms(1)] by metis
  let ?h = "set_owners pes ET_SYS (events t)"
  have o: "list_repr ?h (list_in (stats t 0)) (X 0)"
    using t(2,3) by (simp add: placed_def lists_ok_def in_lists_def)
  have "distinct (X 0 @ pes)" using o t(4) x[OF t(3)] by (auto simp: list_repr_def)
  then obtain ps' h' where w: "et_station_ndump (nevents_max t) pes (stats t 0, ?h) = Some (ET_OK, ps', h')"
    "dumped pes (X 0) (stats t 0, ?h) (ps', h')"
    using et_station_ndump_ok[OF o _ assms(2) l[OF t(3)]] by blast
  have "same_events (events t) h' (set (X 0) \<union> set pes)"
    by (rule same_events_lent[of pes ET_SYS]) (use w(2) in \<open>auto simp: dumped_def\<close>)
  then have "dumped pes (X 0) (stats t 0, events t) (ps', h')" using w(2) by (auto simp: dumped_def)
  then have "all_placed N (t\<lparr>stats := (stats t)(0 := ps'), events := h'\<rparr>)"
    unfolding all_placed_def using placed_dump[OF t(2,3,4,5)] t(3) by blast
  moreover have "\<forall>r. owner (h' r) = owner (?h r)" using w(2) by (auto simp: dumped_def)
  moreover have "on_station 0 (et_station_ndump (nevents_max s) pes) s =
      Some (ET_OK, t\<lparr>stats := (stats t)(0 := ps'), events := h'\<rparr>)"
    using w(1) by (simp add: on_station_def t(1))
  ultimately show ?thesis using t(1) by simp
qed


lemma dump_beside_lent:
  assumes "lent N a pes s" "belongs a news s" "set news \<inter> set pes = {}" "news \<noteq> []"
  shows "\<exists>s'. on_station 0 (et_station_ndump (nevents_max s) news) s = Some (ET_OK, s') \<and> lent N a pes s' \<and>
    (\<forall>r. owner (events s' r) = (if r \<in> set news then ET_SYS else owner (events s r))) \<and> sys s' = sys s \<and>
    (\<forall>r. priority (events s' r) = priority (events s r)) \<and> (\<forall>n. config (stats s' n) = config (stats s n))"
proof -
  obtain t X Y where t: "s = t\<lparr>events := set_owners pes ET_SYS (events t)\<rparr>" "placed N t X Y" "0 < N" "belongs a pes t"
    using lentE[OF assms(1)] by metis
  let ?h = "set_owners pes ET_SYS (events t)"
  have "p \<notin> set pes" if "p \<in> set news" for p using assms(3) that by blast
  then have bn: "belongs a news t" using assms(2) by (simp add: belongs_def t(1))
  have d: "distinct news" "set news \<subseteq> set (held t)" using bn belongs_held by (auto simp: belongs_def)
  have o: "list_repr ?h (list_in (stats t 0)) (X 0)"
    using t(2,3) by (simp add: placed_def lists_ok_def in_lists_def)
  have "int (length (X 0)) + int (length news) \<le> nevents_max t"
    using placed_room(1)[OF t(2,3)] belongs_length[OF bn] by linarith
  moreover have "distinct (X 0 @ news)" using placed_distinct(1)[OF t(2,3,3)] d by auto
  ultimately obtain ps' h' where w: "et_station_ndump (nevents_max t) news (stats t 0, ?h) = Some (ET_OK, ps', h')"
    "dumped news (X 0) (stats t 0, ?h) (ps', h')"
    using et_station_ndump_ok[OF o _ assms(4)] by blast
  define g where "g = set_owners pes (int a) h'"
  have w': "list_repr h' (list_in ps') (X 0 @ news)" "\<And>p. p \<notin> set (X 0) \<union> set news \<Longrightarrow> h' p = ?h p"
    "\<And>p. core (h' p) = core (?h p)" "\<And>r. owner (h' r) = (if r \<in> set news then ET_SYS else owner (?h r))"
    using w(2) by (auto simp: dumped_def same_events_def)
  have own: "owner (events t p) = int a" if "p \<in> set pes" for p using t(4) that by (simp add: belongs_def)
  have "g p = events t p" if "p \<notin> set (X 0) \<union> set news" for p
    using w'(2)[OF that] own[of p] by (simp add: g_def set_owners_apply)
  moreover have "core (g p) = core (events t p)" for p using w'(3)[of p] by (simp add: g_def)
  moreover have "owner (g r) = (if r \<in> set news then ET_SYS else owner (events t r))" for r
    using w'(4)[of r] own assms(3) by (auto simp: g_def)
  moreover have "list_repr g (list_in ps') (X 0 @ news)" using w'(1) by (simp add: g_def)
  ultimately have dg: "dumped news (X 0) (stats t 0, events t) (ps', g)"
    using w(2) by (simp add: dumped_def same_events_def)
  let ?t = "t\<lparr>stats := (stats t)(0 := ps'), events := g\<rparr>" and ?s = "t\<lparr>stats := (stats t)(0 := ps'), events := h'\<rparr>"
  have "all_placed N ?t" unfolding all_placed_def using placed_dump[OF t(2,3) d dg] t(3) by blast
  moreover have "belongs a pes ?t" using t(4) by (simp add: belongs_def g_def)
  moreover have "set_owners pes ET_SYS g = h'"
    unfolding g_def by (rule set_owners_back) (use w'(4) assms(3) in auto)
  ultimately have "lent N a pes ?s" unfolding lent_def by (intro exI[of _ ?t]) simp
  moreover have "on_station 0 (et_station_ndump (nevents_max s) news) s = Some (ET_OK, ?s)"
    using w(1) by (simp add: on_station_def t(1))
  moreover have "priority (h' r) = priority (?h r)" for r using core_fields(1)[OF w'(3)] .
  moreover have "ps' = (stats t 0)\<lparr>list_in := list_in ps', fixin := fixin ps'\<rparr>" using w(2) by (simp add: dumped_def)
  from arg_cong[OF this, of config] have "config ps' = config (stats t 0)" by simp
  ultimately show ?thesis using t(1) w'(4) by simp
qed

lemma placed_restore:
  assumes pl: "placed N s X Y" and k: "k < N" and pes: "distinct pes" "set pes \<subseteq> set (held s)"
    and hf: "high_first (events s) pes" "high_first (events s) (X k)"
    and r: "list_repr h' pl' (restored (events s) pes (X k))" "same_events (events s) h' (set (X k) \<union> set pes)"
    and ow: "\<And>r. owner (h' r) = (if r \<in> set pes then ET_SYS else owner (events s r))"
  shows "placed N (upd_station k (\<lambda>ps. ps\<lparr>list_in := pl'\<rparr>) (s\<lparr>events := h'\<rparr>)) (X(k := restored (events s) pes (X k))) Y"
    (is "placed N ?s' ?X Y")
proof -
  have "lists_ok N ?s' ?X Y"
  proof (rule lists_ok_upd[where s = s and A = "set (X k) \<union> set pes" and X = X and Y = Y])
    show "lists_ok N s X Y" using pl by (simp add: placed_def)
    show "same_events (events s) (events ?s') (set (X k) \<union> set pes)" using r(2) by simp
  next
    fix l assume l: "l < N"
    have "set (Y l) \<inter> (set (X k) \<union> set pes) = {}" using placed_distinct(1)[OF pl k l] pes(2) 
      placed_distinct(1)[OF pl l l] by auto
    then show "Y l = Y l \<and> list_out (stats ?s' l) = list_out (stats s l) \<and> set (Y l) \<inter> (set (X k) \<union> set pes) = {} \<or>
        out_repr (events ?s') (list_out (stats ?s' l)) (Y l)" by simp
    have "set (X l) \<inter> (set (X k) \<union> set pes) = {}" if "l \<noteq> k"
      using placed_distinct(2)[OF pl l k that] pes(2) by auto
    then show "?X l = X l \<and> list_in (stats ?s' l) = list_in (stats s l) \<and> set (X l) \<inter> (set (X k) \<union> set pes) = {} \<or>
        list_repr (events ?s') (list_in (stats ?s' l)) (?X l) \<and> (0 < l \<longrightarrow> high_first (events ?s') (?X l))"
      using r(1) high_first_restored[OF hf] high_first_cong[OF r(2)] by simp
  qed
  moreover have "mset (held s) = mset pes + mset (held ?s')"
    by (rule held_give) (use ow pes in auto)
  moreover have "total_in N ?X = total_in N X + mset pes"
    using total_upd[OF k, of X "restored (events s) pes (X k)"] by (simp add: mset_restored)
  ultimately show ?thesis
    using pl prio_ok_cong[OF r(2)] by (simp add: placed_def ac_simps)
qed

lemma restore_in_lent:
  assumes "lent N a pes s" "n < N" "0 < n" "pes \<noteq> []" "high_first (events s) pes"
  shows "\<exists>s'. restore_in pes n s = Some (ET_OK, Some (int (length pes)), s') \<and> all_placed N s' \<and>
    (\<forall>r. owner (events s' r) = owner (events s r)) \<and> sys s' = sys s"
proof -
  obtain t X Y where t: "s = t\<lparr>events := set_owners pes ET_SYS (events t)\<rparr>" "placed N t X Y" "0 < N"
    "distinct pes" "set pes \<subseteq> set (held t)"
    and l: "\<And>k. k < N \<Longrightarrow> int (length (X k)) + int (length pes) \<le> nevents_max t"
    and x: "\<And>k. k < N \<Longrightarrow> set pes \<inter> (set (X k) \<union> set (Y k)) = {}"
    using lentE[OF assms(1)] by metis
  let ?h = "set_owners pes ET_SYS (events t)"
  have "in_lists N t X" "prio_ok (events t) UNIV" using t(2) by (simp_all add: placed_def lists_ok_def)
  then have i: "list_repr (events t) (list_in (stats t n)) (X n)" "high_first (events t) (X n)" "prio_ok (events t) (set pes)"
    using assms(2,3) by (simp_all add: in_lists_def prio_ok_def)
  have hf: "high_first (events t) pes" "high_first (events t) (X n)"
    using assms(5) i(2) by (simp_all add: t(1))
  have o: "list_repr ?h (list_in (stats t n)) (X n)" "high_first ?h (X n)" "high_first ?h pes" "prio_ok ?h (set pes)"
    using i hf by simp_all
  have d: "distinct (X n @ pes)" using o(1) t(4) x[OF assms(2)] by (auto simp: list_repr_def)
  have k: "min (length pes) (nat (nevents_max t) - length (X n)) = length pes" "int (length (X n)) < nevents_max t"
  proof -
    have "0 < length pes" using assms(4) by simp
    then show "int (length (X n)) < nevents_max t" using l[OF assms(2)] by linarith
    show "min (length pes) (nat (nevents_max t) - length (X n)) = length pes" using l[OF assms(2)] by linarith
  qed
  obtain h' pl' where w: "et_restore (nevents_max t) pes (?h, list_in (stats t n)) = Some (ET_OK, Some (int (length pes)), h', pl')"
    "list_repr h' pl' (restored ?h pes (X n))" "same_events ?h h' (set (X n) \<union> set pes)"
    "\<And>r. owner (h' r) = (if r \<in> set pes then ET_SYS else owner (?h r))"
    using et_restore_ok[OF o(1-3) assms(4) d o(4) k(2)] unfolding k(1) by auto
  have "restored ?h pes (X n) = restored (events t) pes (X n)" by (simp add: restored_def)
  moreover have "same_events (events t) h' (set (X n) \<union> set pes)" by (rule same_events_lent[OF w(3)]) simp
  moreover have ow: "owner (h' r) = (if r \<in> set pes then ET_SYS else owner (events t r))" for r by (simp add: w(4))
  ultimately have "placed N (upd_station n (\<lambda>ps. ps\<lparr>list_in := pl'\<rparr>) (t\<lparr>events := h'\<rparr>))
      (X(n := restored (events t) pes (X n))) Y"
    using placed_restore[OF t(2) assms(2) t(4,5) hf(1,2) _ _ ow] w(2) by simp
  then have "all_placed N (upd_station n (\<lambda>ps. ps\<lparr>list_in := pl'\<rparr>) (t\<lparr>events := h'\<rparr>))"
    unfolding all_placed_def using t(3) by blast
  moreover have "restore_in pes n s = Some (ET_OK, Some (int (length pes)), upd_station n (\<lambda>ps. ps\<lparr>list_in := pl'\<rparr>) (t\<lparr>events := h'\<rparr>))"
    using w(1) by (simp add: restore_in_def t(1) upd_station_def)
  ultimately show ?thesis using t(1) w(4) by (intro exI[of _ "upd_station n (\<lambda>ps. ps\<lparr>list_in := pl'\<rparr>) (t\<lparr>events := h'\<rparr>)"]) simp
qed


section \<open>Restoring the events of an attachment\<close>

text \<open>Only REDIST is left out.\<close>

definition gives_back :: "et_station \<Rightarrow> bool" where
  "gives_back ps \<longleftrightarrow> restore_mode (config ps) \<in> {ET_STATION_RESTORE_OUT, ET_STATION_RESTORE_IN, ET_STATION_RESTORE_GC}"

lemma put_back_ok:
  assumes l: "lent N a pes s" and n: "n < N" and ne: "pes \<noteq> []" and hf: "high_first (events s) pes"
    and g: "gives_back (stats s n)"
  shows "\<exists>s'. put_back pes n s = Some (ET_OK, s') \<and> all_placed N s' \<and>
    (\<forall>r. owner (events s' r) = owner (events s r)) \<and> attach (sys s') = attach (sys s) \<and> sys_config (sys s') = sys_config (sys s)"
proof -
  let ?mode = "restore_mode (config (stats s n))"
  let ?c = "s\<lparr>events := mark_corrupt pes (events s)\<rparr>"
  have c: "lent N a pes ?c" by (rule lent_mark[OF l])
  have oc: "owner (events ?c r) = owner (events s r)" "high (events ?c) = high (events s)" for r
    by (simp_all add: mark_corrupt_apply)
  have hc: "high_first (events ?c) pes" using hf by (simp only: high_first_def oc(2))
  consider (gc) "?mode = ET_STATION_RESTORE_GC \<or> int n = ET_GRANDCENTRAL"
    | (out) "\<not> (?mode = ET_STATION_RESTORE_GC \<or> int n = ET_GRANDCENTRAL)" "?mode = ET_STATION_RESTORE_OUT \<or>
        (?mode = ET_STATION_RESTORE_IN \<and> st_nattachments (st_data (stats s n)) = 0)"
    | (inp) "?mode = ET_STATION_RESTORE_IN" "n \<noteq> 0" "st_nattachments (st_data (stats s n)) \<noteq> 0"
    using g unfolding gives_back_def by fastforce
  then show ?thesis
  proof cases
    case gc
    obtain s' where "on_station 0 (et_station_ndump (nevents_max (drop_temps pes s)) pes) (drop_temps pes s) = Some (ET_OK, s')"
      "all_placed N s'" "\<forall>r. owner (events s' r) = owner (events (drop_temps pes s) r)" "sys s' = sys (drop_temps pes s)"
      using dump_lent[OF lent_drop_temps[OF l] ne] by metis
    then show ?thesis using gc by (auto simp: put_back_def Let_def drop_temps_def)
  next
    case out
    obtain s' where "on_station n (et_station_nwrite (nevents_max ?c) pes) ?c = Some (ET_OK, s')"
      "all_placed N s'" "\<forall>r. owner (events s' r) = owner (events ?c r)" "sys s' = sys ?c"
      using write_lent[OF c n ne] by metis
    then show ?thesis using out oc(1) by (auto simp: put_back_def Let_def)
  next
    case inp
    obtain s' where "restore_in pes n ?c = Some (ET_OK, Some (int (length pes)), s')"
      "all_placed N s'" "\<forall>r. owner (events s' r) = owner (events ?c r)" "sys s' = sys ?c"
      using restore_in_lent[OF c n _ ne hc] inp(2) by auto
    then show ?thesis using inp oc(1) by (auto simp: put_back_def Let_def)
  qed
qed

lemma high_first_sorted: "high_first h (filter (high h) xs @ filter (\<lambda>p. \<not> high h p) xs)"
  by (rule conjunct1[OF high_first_append]) auto

lemma owned_by_belongs: "belongs a (filter P (owned_by (int a) s)) s"
  by (auto simp: belongs_def owned_by_def)

theorem restore_events_ok:
  assumes s: "all_placed N s" and n: "n < N" and g: "gives_back (stats s n)" and m: "env_calloc e 0" "env_calloc e 1" "env_calloc e 2"
  shows "\<exists>st s'. et_restore_events e (int a) n s = Some (st, s') \<and> st = ET_OK \<and> all_placed N s' \<and>
    (\<forall>r. owner (events s' r) = (if r < nat (nevents_max s) \<and> owner (events s r) = int a then ET_SYS else owner (events s r))) \<and>
    attach (sys s') = attach (sys s) \<and> sys_config (sys s') = sys_config (sys s)"
proof -
  define news where "news = filter (\<lambda>p. age (events s p) = ET_EVENT_NEW) (owned_by (int a) s)"
  define pevent where "pevent = filter (\<lambda>p. age (events s p) \<noteq> ET_EVENT_NEW) (owned_by (int a) s)"
  define s1 where "s1 = s\<lparr>events := set_owners pevent ET_SYS (events s)\<rparr>"
  define ordered where "ordered = filter (high (events s1)) pevent @ filter (\<lambda>p. \<not> high (events s1) p) pevent"
  have b: "belongs a news s" "belongs a pevent s" unfolding news_def pevent_def by (rule owned_by_belongs)+
  have all: "r \<in> set pevent \<union> set news \<longleftrightarrow> r < nat (nevents_max s) \<and> owner (events s r) = int a" for r
    by (auto simp: news_def pevent_def owned_by_def)
  have dj: "set news \<inter> set pevent = {}" by (auto simp: news_def pevent_def)
  have o: "set ordered = set pevent" "distinct ordered" "high_first (events s1) ordered"
    using b(2) high_first_sorted[of "events s1" pevent] by (auto simp: ordered_def belongs_def)
  have l1: "lent N a pevent s1" unfolding s1_def by (rule lent_start[OF s b(2)])
  have bn: "belongs a news s1" using b(1) dj by (auto simp: belongs_def s1_def)
  have "\<exists>s2. dump_new news s1 = Some (ET_OK, s2) \<and> lent N a pevent s2 \<and>
      (\<forall>r. owner (events s2 r) = (if r \<in> set news then ET_SYS else owner (events s1 r))) \<and>
      attach (sys s2) = attach (sys s1) \<and> sys_config (sys s2) = sys_config (sys s1) \<and>
      (\<forall>r. priority (events s2 r) = priority (events s1 r)) \<and> gives_back (stats s2 n)"
  proof (cases "news = []")
    case True
    then show ?thesis using l1 g by (simp add: dump_new_def s1_def)
  next
    case False
    let ?d = "drop_temps news s1"
    have "belongs a news ?d" "lent N a pevent ?d"
      using belongs_quiet[OF bn quiet_drop_temps] lent_drop_temps[OF l1] by blast+
    then obtain s2 where "on_station 0 (et_station_ndump (nevents_max ?d) news) ?d = Some (ET_OK, s2)" "lent N a pevent s2"
      "\<forall>r. owner (events s2 r) = (if r \<in> set news then ET_SYS else owner (events ?d r))" "sys s2 = sys ?d"
      "\<forall>r. priority (events s2 r) = priority (events ?d r)" "\<forall>n. config (stats s2 n) = config (stats ?d n)"
      using dump_beside_lent[of N a pevent ?d news] dj False by metis
    then show ?thesis using False g by (auto simp: dump_new_def drop_temps_def gives_back_def s1_def)
  qed
  then obtain s2 where s2: "dump_new news s1 = Some (ET_OK, s2)" "lent N a pevent s2"
      "\<And>r. owner (events s2 r) = (if r \<in> set news then ET_SYS else owner (events s1 r))"
      "attach (sys s2) = attach (sys s)" "sys_config (sys s2) = sys_config (sys s)"
      "\<And>r. priority (events s2 r) = priority (events s1 r)" "gives_back (stats s2 n)"
    by (auto simp: s1_def)
  have "high (events s2) = high (events s1)" by (simp add: high_def fun_eq_iff s2(6))
  then have h2: "high_first (events s2) ordered" using o(3) by (simp add: high_first_def)
  have ow: "owner (events s2 r) = (if r < nat (nevents_max s) \<and> owner (events s r) = int a then ET_SYS else owner (events s r))" for r
    unfolding s2(3) all[symmetric] by (simp add: s1_def)
  have fin: "pevent = [] \<Longrightarrow> all_placed N s2" using s2(2) by (auto simp: lent_def)
  show ?thesis
  proof (cases "ordered = []")
    case True
    then have p: "pevent = []" using o(1) by auto
    show ?thesis
    proof (cases "news = []")
      case True
      then have "s2 = s" using s2(1) p by (simp add: dump_new_def s1_def)
      then show ?thesis using True p m ow fin[OF p] unfolding et_restore_events_def Let_def news_def[symmetric] pevent_def[symmetric]
        by auto
    next
      case False
      then show ?thesis using True p m ow fin[OF p] s2(1,4,5)
        unfolding et_restore_events_def Let_def news_def[symmetric] pevent_def[symmetric] s1_def[symmetric] ordered_def[symmetric]
        by simp
    qed
  next
    case False
    then have p: "pevent \<noteq> []" using o(1) by auto
    obtain s3 where "put_back ordered n s2 = Some (ET_OK, s3)" "all_placed N s3"
      "\<forall>r. owner (events s3 r) = owner (events s2 r)" "attach (sys s3) = attach (sys s2)" "sys_config (sys s3) = sys_config (sys s2)"
      using put_back_ok[OF lent_cong[OF s2(2) o(1,2)] n False h2 s2(7)] by metis
    then show ?thesis using False p m ow s2(1,4,5)
      unfolding et_restore_events_def Let_def news_def[symmetric] pevent_def[symmetric] s1_def[symmetric] ordered_def[symmetric]
      by simp
  qed
qed


section \<open>Flushing the input list\<close>

lemma histogram_keeps: "histogram_incr n s = Some t \<Longrightarrow> stats t = stats s \<and> events t = events s \<and> sys t = sys s"
  by (auto simp: histogram_incr_def Let_def split: if_splits)

lemma nread_async:
  assumes s: "all_placed N s" "n < N" "1 \<le> m"
  shows "\<exists>st pes t. et_station_nread n ET_ASYNC a m s = Some (Done (st, pes), t) \<and> all_placed N t \<and>
    (\<forall>r. owner (events t r) = (if r \<in> set pes then int a else owner (events s r))) \<and>
    (st < 0 \<and> pes = [] \<or> st = ET_OK \<and> pes \<noteq> [] \<and> belongs a pes t \<and> (\<forall>r\<in>set pes. owner (events s r) = ET_SYS))"
proof -
  have e: "et_station_nread n ET_ASYNC a m s = read_enter n ET_ASYNC a (on_station n (read_many a m)) s"
    using s(3) by (simp add: et_station_nread_def)
  consider (busy) "mutex (list_in (stats s n))"
    | (quit) "\<not> mutex (list_in (stats s n))" "quit (attach (sys s) a) = ET_ATT_QUIT"
    | (go) "\<not> mutex (list_in (stats s n))" "quit (attach (sys s) a) \<noteq> ET_ATT_QUIT" by blast
  then show ?thesis
  proof cases
    case busy
    then show ?thesis using s by (simp add: e read_enter_def)
  next
    case quit
    have "all_placed N (set_quit a ET_ATT_CONTINUE (in_unlock n (in_lock n s)))"
      by (intro pl.quit_ok pl.unlock pl.lock s(1))
    moreover have "et_station_nread n ET_ASYNC a m s =
        Some (Done (ET_ERROR_WAKEUP, []), set_quit a ET_ATT_CONTINUE (in_unlock n (in_lock n s)))"
      using quit by (simp add: e read_enter_def read_quit_def)
    ultimately show ?thesis by (simp add: set_quit_def in_unlock_def in_lock_def)
  next
    case go
    obtain t where t: "histogram_incr n (in_lock n s) = Some t" "all_placed N t"
      using pl.histogram_total[OF pl.lock[OF s(1)]] by blast
    have te: "events t = events s" using histogram_keeps[OF t(1)] by (simp add: in_lock_def)
    have e2: "et_station_nread n ET_ASYNC a m s =
        (if cnt (list_in (stats t n)) < 1 then Some (Done (ET_ERROR_EMPTY, []), in_unlock n t)
         else on_station n (read_many a m) t)"
      using go t(1) by (simp add: e read_enter_def)
    show ?thesis
    proof (cases "cnt (list_in (stats t n)) < 1")
      case True
      then show ?thesis using e2 pl.unlock[OF t(2)] te by (simp add: in_unlock_def)
    next
      case False
      from list_not_empty[OF t(2) s(2) this] obtain X Y where X: "placed N t X Y" "0 < N" "X n \<noteq> []"
        "list_repr (events t) (list_in (stats t n)) (X n)" "0 < n \<longrightarrow> high_first (events t) (X n)" by blast
      let ?ys = "take (nat m) (X n)"
      obtain ps' h' where 1: "read_many a m (stats t n, events t) = Some (Done (ET_OK, ?ys), ps', h')"
        "taken a ?ys (drop (nat m) (X n)) (stats t n, events t) (ps', h')"
        using read_many_ok[OF X(4,3) s(3)] by blast
      have "mset (X n) = mset ?ys + mset (drop (nat m) (X n))" by (metis append_take_drop_id mset_append)
      moreover have "0 < n \<longrightarrow> high_first (events t) (drop (nat m) (X n))" using X(5) high_first_parts(1) by blast
      ultimately have p: "all_placed N (t\<lparr>stats := (stats t)(n := ps'), events := h'\<rparr>) \<and>
          belongs a ?ys (t\<lparr>stats := (stats t)(n := ps'), events := h'\<rparr>)"
        by (intro taken_placed[OF X(1,2) s(2) _ _ 1(2)])
      have "\<forall>r\<in>set ?ys. owner (events s r) = ET_SYS"
        using placed_owner(1)[OF X(1) s(2)] set_take_subset[of "nat m" "X n"] te by auto
      moreover have "\<forall>r. owner (h' r) = (if r \<in> set ?ys then int a else owner (events s r))"
        using 1(2) te by (simp add: taken_def)
      moreover have "?ys \<noteq> []" using X(3) s(3) by simp
      ultimately show ?thesis using e2 False 1(1) p by (simp add: on_station_def)
    qed
  qed
qed

lemma flush_ok:
  assumes s: "all_placed N s" "n < N" "1 \<le> nevents_max s" and g: "gives_back (stats s n)"
  shows "\<exists>s'. et_flush_events e a n s = Some s' \<and> all_placed N s' \<and> (\<forall>r. owner (events s' r) = owner (events s r))"
proof (cases "int n = ET_GRANDCENTRAL \<or> \<not> env_calloc e 0")
  case True
  then show ?thesis using s(1) by (auto simp: et_flush_events_def)
next
  case False
  obtain st pes t where t: "et_station_nread n ET_ASYNC a (nevents_max s) s = Some (Done (st, pes), t)" "all_placed N t"
    "\<And>r. owner (events t r) = (if r \<in> set pes then int a else owner (events s r))"
    "st < 0 \<and> pes = [] \<or> st = ET_OK \<and> pes \<noteq> [] \<and> belongs a pes t \<and> (\<forall>r\<in>set pes. owner (events s r) = ET_SYS)"
    using nread_async[OF s] by metis
  have fr: "att_frame s t" by (rule nread_frame[OF t(1)])
  show ?thesis
  proof (cases "st < 0")
    case True
    then show ?thesis using False t by (auto simp: et_flush_events_def)
  next
    case st: False
    then have b: "belongs a pes t" "pes \<noteq> []" "\<forall>r\<in>set pes. owner (events s r) = ET_SYS" "st = ET_OK" using t(4) by simp_all
    obtain X Y where p: "placed N t X Y" "0 < N" using t(2) by (auto simp: all_placed_def)
    have d: "distinct pes" "set pes \<subseteq> set (held t)" using b(1) belongs_held by (auto simp: belongs_def)
    have o: "out_repr (events t) (list_out (stats t n)) (Y n)" "prio_ok (events t) (set pes)"
      using p(1) s(2) by (simp_all add: placed_def lists_ok_def prio_ok_def)
    have x: "set pes \<inter> set (Y n) = {}" using placed_distinct(1)[OF p(1) s(2,2)] d(2) by auto
    have "int (length (Y n)) + int (length pes) \<le> nevents_max t"
      using placed_room(2)[OF p(1) s(2)] belongs_length[OF b(1)] by linarith
    then obtain ps' h' where w: "et_station_nwrite (nevents_max t) pes (stats t n, events t) = Some (ET_OK, ps', h')"
      "out_written pes (Y n) (stats t n, events t) (ps', h')"
      using et_station_nwrite_ok[OF o(1) d(1) x _ o(2) b(2)] by blast
    let ?t = "t\<lparr>stats := (stats t)(n := ps'), events := h'\<rparr>"
    have "all_placed N ?t" unfolding all_placed_def using placed_write[OF p(1) s(2) d w(2)] p(2) by blast
    moreover have "owner (h' r) = owner (events s r)" for r
      using w(2) t(3)[of r] b(3) by (cases "r \<in> set pes") (auto simp: out_written_def)
    moreover have "restore_mode (config (stats t n)) \<noteq> ET_STATION_RESTORE_REDIST"
      using g fr by (auto simp: gives_back_def att_frame_def)
    then have "et_flush_events e a n s = Some ?t"
      using False t(1) b(4) fr w(1) by (simp add: et_flush_events_def on_station_def)
    ultimately show ?thesis by simp
  qed
qed


section \<open>Detaching\<close>

text \<open>Steps that touch no list and no event.\<close>

lemma quiet_same:
  assumes "events s' = events s" "nevents_max s' = nevents_max s"
    "\<And>k. same_list (list_in (stats s k)) (list_in (stats s' k)) \<and> same_list (list_out (stats s k)) (list_out (stats s' k))"
  shows "quiet s s'"
  using assms by (simp add: quiet_def)

lemma quiet_locks [simp]:
  "quiet s (station_lock s)" "quiet s (station_unlock s)" "quiet s (system_lock s)" "quiet s (system_unlock s)"
  "quiet s (et_transfer_lock_all s)" "quiet s (et_transfer_unlock_all s)" "quiet s (leave_station a n s)"
  by (rule quiet_same; simp add: leave_station_def)+

lemma make_idle_ok:
  assumes s: "all_placed N s" "n < N" "1 \<le> nevents_max s" and g: "gives_back (stats s n)"
  shows "\<exists>s'. make_idle e a n s = Some s' \<and> all_placed N s' \<and> (\<forall>r. owner (events s' r) = owner (events s r)) \<and>
    gives_back (stats s' n) \<and> sys_config (sys s') = sys_config (sys s)"
proof (cases "st_nattachments (st_data (stats s n)) = 1 \<and> int n \<noteq> ET_GRANDCENTRAL")
  case True
  define t where "t = (let s = (if cleanup e \<noteq> 1 then et_transfer_lock_all s else s);
             s = upd_station n (\<lambda>ps. ps\<lparr>st_data := (st_data ps)\<lparr>status := ET_STATION_IDLE\<rparr>\<rparr>) s
         in if cleanup e \<noteq> 1 then et_transfer_unlock_all s else s)"
  have m: "make_idle e a n s = et_flush_events e a n t" using True by (simp add: make_idle_def t_def Let_def)
  have "quiet s t" by (rule quiet_same) (auto simp: t_def Let_def)
  moreover have tt: "events t = events s" "sys t = sys s" "config (stats t n) = config (stats s n)" by (auto simp: t_def Let_def)
  ultimately obtain s' where s': "et_flush_events e a n t = Some s'" "all_placed N s'" "\<forall>r. owner (events s' r) = owner (events t r)"
    using flush_ok[of N t n e a] all_placed_quiet[OF s(1)] s(2,3) g by (auto simp: gives_back_def)
  then show ?thesis using m tt g flush_frame[OF s'(1)] by (auto simp: gives_back_def att_frame_def)
next
  case False
  then show ?thesis using s(1) g by (auto simp: make_idle_def simp del: of_nat_eq_0_iff)
qed

theorem detach_recovers:
  assumes loc: "locality e = ET_LOCAL" "et_alive e \<noteq> 0" and s: "all_placed N s" "stations_ok N s" "1 \<le> nevents_max s"
    and a: "0 \<le> att" "att < ET_ATTACHMENTS_MAX" "att < c_nattachments (sys_config (sys s))" "0 \<le> at_stat (attach (sys s) (nat att))"
    and g: "gives_back (stats s (nat (at_stat (attach (sys s) (nat att)))))"
    and m: "env_calloc e 0" "env_calloc e 1" "env_calloc e 2" and p: "0 \<le> id_proc e \<or> id_proc e = ET_SYS \<or> cleanup e = 1"
  shows "\<exists>s'. et_station_detach e etr att s = Some (ET_OK, s') \<and> all_placed N s' \<and> stations_ok N s' \<and>
    sys_config (sys s') = sys_config (sys s) \<and>
    (\<forall>r<nat (nevents_max s). owner (events s' r) = (if owner (events s r) = att then ET_SYS else owner (events s r)))"
proof -
  define i where "i = nat att"
  define n where "n = nat (at_stat (attach (sys s) i))"
  have att: "att = int i" using a(1) by (simp add: i_def)
  have ix: "stat_ix s i = Some n" using a(4) by (simp add: stat_ix_def i_def n_def)
  have n: "n < N" by (rule stat_ix_less[OF s(2) ix])
  define sl where "sl = (if cleanup e \<noteq> 1 then station_lock s else s)"
  define sy where "sy = (if cleanup e \<noteq> 1 then system_lock sl else sl)"
  define s1 where "s1 = upd_sys (\<lambda>y. y\<lparr>nattachments := nattachments y - 1\<rparr>)
      (upd_attach i (\<lambda>t. t\<lparr>at_num := - 1, at_status := ET_ATT_UNUSED\<rparr>) sy)"
  have sl: "attach (sys sl) = attach (sys s)" "stats sl = stats s" "sys_config (sys sl) = sys_config (sys s)"
    by (simp_all add: sl_def)
  have d: "et_station_detach e etr att s = do {
       s \<leftarrow> make_idle e i n s1;
       (_, s) \<leftarrow> et_restore_events e att n s;
       let s = leave_station i n s;
       if cleanup e \<noteq> 1 then do {
         let s = station_unlock s;
         s \<leftarrow> (if id_proc e \<noteq> ET_SYS
              then upd_proc (id_proc e) (\<lambda>p. p\<lparr>pr_nattachments := pr_nattachments p - 1,
                     pr_att := (pr_att p)(i := - 1)\<rparr>) s
              else Some s);
         Some (ET_OK, system_unlock s) }
       else Some (ET_OK, s) }"
    using a loc sl
    by (simp add: et_station_detach_def Let_def i_def[symmetric] sl_def[symmetric] n_def[symmetric]
        sy_def[symmetric] s1_def[symmetric])
  have q: "quiet s s1" by (rule quiet_same) (auto simp: s1_def sy_def sl_def same_list_def)
  have s1: "events s1 = events s" "sys_config (sys s1) = sys_config (sys s)" "stats s1 = stats s"
    by (auto simp: s1_def sy_def sl_def)
  obtain s2 where s2: "make_idle e i n s1 = Some s2" "all_placed N s2" "\<And>r. owner (events s2 r) = owner (events s r)"
    "gives_back (stats s2 n)" "sys_config (sys s2) = sys_config (sys s)"
    using make_idle_ok[OF all_placed_quiet[OF s(1) q] n, of e i] s1 s(3) g by (auto simp: n_def i_def)
  obtain s3 where s3: "et_restore_events e att n s2 = Some (ET_OK, s3)" "all_placed N s3"
    "\<And>r. owner (events s3 r) = (if r < nat (nevents_max s2) \<and> owner (events s2 r) = int i then ET_SYS else owner (events s2 r))"
    "sys_config (sys s3) = sys_config (sys s2)"
    using restore_events_ok[OF s2(2) n s2(4) m, of i] by (auto simp: att)
  define s4 where "s4 = leave_station i n s3"
  have q4: "quiet s3 s4" by (simp add: s4_def)
  obtain s5 where s5: "et_station_detach e etr att s = Some (ET_OK, s5)" "quiet s4 s5" "events s5 = events s4"
    "sys_config (sys s5) = sys_config (sys s4)"
  proof (cases "cleanup e = 1")
    case True
    then show thesis using that[of s4] s2(1) s3(1) by (simp add: d s4_def)
  next
    case False
    let ?u = "station_unlock s4"
    let ?f = "\<lambda>p. p\<lparr>pr_nattachments := pr_nattachments p - 1, pr_att := (pr_att p)(i := - 1)\<rparr>"
    obtain u where u: "(if id_proc e \<noteq> ET_SYS then upd_proc (id_proc e) ?f ?u else Some ?u) = Some u"
      "stats u = stats ?u" "events u = events ?u" "sys_config (sys u) = sys_config (sys ?u)"
    proof (cases "id_proc e = ET_SYS")
      case True
      then show thesis using that[of ?u] by simp
    next
      case other: False
      then obtain u where "upd_proc (id_proc e) ?f ?u = Some u" using p False by (auto simp: upd_proc_def)
      then show thesis using other that[of u] upd_proc_same[of "id_proc e" ?f ?u u] by simp
    qed
    have "quiet s4 (system_unlock u)" by (rule quiet_same) (auto simp: u same_list_def)
    moreover have "et_station_detach e etr att s = Some (ET_OK, system_unlock u)"
      unfolding d using False s2(1) s3(1) u(1) by (simp add: Let_def s4_def[symmetric] split: if_splits)
    ultimately show thesis using that[of "system_unlock u"] by (simp add: u(3,4))
  qed
  have "all_placed N s5" using all_placed_quiet[OF all_placed_quiet[OF s3(2) q4] s5(2)] .
  moreover have "stations_ok N s5"
    using detach_gone[OF s5(1) loc(1)] s(2) by (simp add: stations_ok_def gone_def)
  moreover have "owner (events s5 r) = (if owner (events s r) = att then ET_SYS else owner (events s r))" if "r < nat (nevents_max s)" for r
    using s3(3)[of r] that s2(3,5) by (simp add: s5(3) s4_def leave_station_def att)
  moreover have "sys_config (sys s5) = sys_config (sys s)"
    using s5(4) s3(4) s2(5) by (simp add: s4_def leave_station_def)
  ultimately show ?thesis using s5(1) by blast
qed


section \<open>Attaching and detaching as steps\<close>

lemma attach_keeps:
  assumes e: "et_station_attach e etr stat_id s = Some (r, s')" and loc: "locality e = ET_LOCAL"
    and s: "all_placed N s" "stations_ok N s" and n: "stat_id < int N"
  shows "all_placed N s' \<and> stations_ok N s' \<and> sys_config (sys s') = sys_config (sys s)"
proof -
  obtain st x where r: "r = (st, x)" by (cases r)
  show ?thesis
  proof (cases x)
    case None
    then have f: "stats s' = stats s" "events s' = events s" "attach (sys s') = attach (sys s)" "sys_config (sys s') = sys_config (sys s)"
      using attach_fails[of e etr stat_id s st s'] e loc r by auto
    then have "quiet s s'" by (intro quiet_same) (simp_all add: same_list_def)
    then show ?thesis using all_placed_quiet[OF s(1)] s(2) f by (simp add: stations_ok_def)
  next
    case (Some a)
    then have e': "et_station_attach e etr stat_id s = Some ((ET_OK, Some a), s')"
      using e r attach_gives[of e etr stat_id s st a s'] loc by simp
    obtain i where j: "joined i (nat stat_id) s s'" "0 \<le> stat_id" "events s' = events s"
      "\<forall>k. list_in (stats s' k) = list_in (stats s k) \<and> list_out (stats s' k) = list_out (stats s k)"
      using attach_joined[OF e' loc] by blast
    then have "quiet s s'" by (intro quiet_same) (simp_all add: joined_def same_list_def)
    moreover have "at_stat (attach (sys s') k) < int N" for k
      using j(1,2) s(2) n by (cases "k = i") (simp_all add: joined_def stations_ok_def)
    ultimately show ?thesis using all_placed_quiet[OF s(1)] j(1) by (simp add: stations_ok_def joined_def)
  qed
qed

text \<open>What the environment and the configuration owe to a detach that loses nothing.\<close>

definition detach_env :: "et_id \<Rightarrow> int \<Rightarrow> et_shm \<Rightarrow> bool" where
  "detach_env e att s \<longleftrightarrow> env_calloc e 0 \<and> env_calloc e 1 \<and> env_calloc e 2 \<and> 1 \<le> nevents_max s \<and>
     (0 \<le> id_proc e \<or> id_proc e = ET_SYS \<or> cleanup e = 1) \<and>
     gives_back (stats s (nat (at_stat (attach (sys s) (nat att)))))"

lemma detach_keeps:
  assumes d: "et_station_detach e etr att s = Some (r, s')" and loc: "locality e = ET_LOCAL"
    and s: "all_placed N s" "stations_ok N s" and env: "detach_env e att s"
  shows "all_placed N s' \<and> stations_ok N s' \<and> sys_config (sys s') = sys_config (sys s)"
proof (cases "0 \<le> att \<and> att < ET_ATTACHMENTS_MAX \<and> att < c_nattachments (sys_config (sys s)) \<and> et_alive e \<noteq> 0 \<and>
    0 \<le> at_stat (attach (sys s) (nat att))")
  case True
  then have g: "0 \<le> att" "att < ET_ATTACHMENTS_MAX" "att < c_nattachments (sys_config (sys s))" "et_alive e \<noteq> 0"
    "0 \<le> at_stat (attach (sys s) (nat att))" by simp_all
  have v: "1 \<le> nevents_max s" "gives_back (stats s (nat (at_stat (attach (sys s) (nat att)))))"
    "env_calloc e 0" "env_calloc e 1" "env_calloc e 2" "0 \<le> id_proc e \<or> id_proc e = ET_SYS \<or> cleanup e = 1"
    using env by (simp_all add: detach_env_def)
  show ?thesis using detach_recovers[OF loc g(4) s v(1) g(1,2,3,5) v(2-6), of etr] d by auto
next
  case False
  then have "s' = s \<or> s' = station_unlock s \<or> s' = station_unlock (station_lock s)"
    using d loc by (auto simp: et_station_detach_def Let_def split: if_splits)
  moreover have "quiet s (station_unlock (station_lock s))" using quiet_trans[OF quiet_locks(1,2)] .
  ultimately show ?thesis using all_placed_quiet[OF s(1)] s by (auto simp: stations_ok_def)
qed

end
