(* ===== verification/EtSystem.thy ===== *)
theory EtSystem imports EtDetach begin

text \<open>
  The system as a whole: the steps of the processes and of the conductors on shared memory, in any
  order, and what holds after any sequence of them. A step is one call of a local process or one
  turn of a conductor; a call that sleeps is a step that ends asleep, and its waking is another.
\<close>

section \<open>Invariants of the system structure\<close>

text \<open>
  An invariant that depends only on the system structure, not on its lock and count of temporary
  events: every event call keeps it.
\<close>

locale sys_inv = shm_inv +
  assumes memory: "sys s' = sys s \<Longrightarrow> ok s \<Longrightarrow> ok s'"
    and system: "(\<And>y. attach (g y) = attach y \<and> sys_config (g y) = sys_config y) \<Longrightarrow> ok s \<Longrightarrow> ok (upd_sys g s)"
begin

lemma on_station_keeps: "on_station n f s = Some (r, s') \<Longrightarrow> ok s \<Longrightarrow> ok s'"
  by (rule memory) (auto simp: on_station_def split: Option.bind_splits)

lemma upd_event_keeps: "ok s \<Longrightarrow> ok (upd_event p f s)"
  by (rule memory[of _ s]) (simp_all add: upd_event_def)

lemma sub_temps_keeps: "ok s \<Longrightarrow> ok (sub_temps n s)"
  unfolding sub_temps_def system_lock_def system_unlock_def
  by (auto simp: et_system_lock_def et_system_unlock_def intro!: system)

lemma enter_station_keeps:
  assumes "read_enter n mode att (on_station n f) s = Some (r, s')" "ok s"
  shows "ok s' \<and> gives (\<lambda>_ _. True) r s'"
  by (rule enter_ok[OF assms]) (auto simp: gives_def intro: on_station_keeps)

lemma wake_station_keeps:
  assumes "read_wake n mode att w (on_station n f) s = Some (r, s')" "ok s"
  shows "ok s' \<and> gives (\<lambda>_ _. True) r s'"
  by (rule wake_ok[OF assms]) (auto simp: gives_def intro: on_station_keeps)

lemma reads_keep:
  assumes "ok s"
  shows "et_station_read n mode att s = Some (r, s') \<Longrightarrow> ok s' \<and> gives (\<lambda>_ _. True) r s'"
    "et_station_nread n mode att m s = Some (r, s') \<Longrightarrow> ok s' \<and> gives (\<lambda>_ _. True) r s'"
    "et_station_nread_group n mode att m grp s = Some (r, s') \<Longrightarrow> ok s' \<and> gives (\<lambda>_ _. True) r s'"
    "et_station_read_wake n mode att w s = Some (r, s') \<Longrightarrow> ok s' \<and> gives (\<lambda>_ _. True) r s'"
    "et_station_nread_wake n mode att m w s = Some (r, s') \<Longrightarrow> ok s' \<and> gives (\<lambda>_ _. True) r s'"
    "et_station_nread_group_wake n mode att m grp w s = Some (r, s') \<Longrightarrow> ok s' \<and> gives (\<lambda>_ _. True) r s'"
  unfolding et_station_read_def et_station_nread_def et_station_nread_group_def et_station_read_wake_def
    et_station_nread_wake_def et_station_nread_group_wake_def
  using enter_station_keeps[OF _ assms] wake_station_keeps[OF _ assms] assms by (auto split: if_splits)

lemma make_keeps: "et_event_make e p sz s = (st, s') \<Longrightarrow> ok s \<Longrightarrow> ok s'"
  unfolding et_event_make_def Let_def system_lock_def system_unlock_def
  by (auto simp: et_system_lock_def et_system_unlock_def split: if_splits option.splits
      intro!: system upd_event_keeps)

lemma make_retry_keeps: "make_retry e p sz [] s = Some (st, ws', s') \<Longrightarrow> ok s \<Longrightarrow> ok s' \<and> ws' = []"
  by (auto split: prod.splits if_splits intro: make_keeps)

lemma make_temps_keeps: "make_temps e sz ps [] s = Some (st, s') \<Longrightarrow> ok s \<Longrightarrow> ok s'"
  by (induction ps arbitrary: s)
    (auto simp del: make_retry.simps split: Option.bind_splits if_splits dest!: make_retry_keeps)

lemma init_normal_keeps: "ok s \<Longrightarrow> ok (fold (init_normal e sz) pes s)"
  by (induction pes arbitrary: s) (simp_all add: init_normal_def upd_event_keeps)

lemma new_finish_keeps:
  assumes "new_finish e a sz [] pes s = Some (r, s')" "ok s"
  shows "ok s'"
proof -
  obtain st s1 where 1: "(if sz > event_size (sys_config (sys s)) then make_temps e sz pes [] s
      else Some (ET_OK, fold (init_normal e sz) pes s)) = Some (st, s1)"
    "(if st \<noteq> ET_OK then Some (Done (st, []), s1) else Some (Done (ET_OK, pes),
        upd_attach a (\<lambda>t. t\<lparr>events_make := events_make t + of_nat (length pes)\<rparr>) s1)) = Some (r, s')"
    using assms(1) by (auto simp: new_finish_def split: Option.bind_splits if_splits)
  have "ok s1"
    using 1(1) make_temps_keeps init_normal_keeps assms(2) by (auto split: if_splits)
  then show ?thesis using 1(2) flags[OF _ \<open>ok s1\<close>] by (auto simp: flags_only_def split: if_splits)
qed

lemma map_data_keeps: "map_data e pes s = (st, s') \<Longrightarrow> ok s \<Longrightarrow> ok s'"
  by (induction e pes s rule: map_data.induct) (auto split: if_splits option.splits intro: upd_event_keeps)

lemma get_finish_keeps: "get_finish e a pes s = Some (r, s') \<Longrightarrow> ok s \<Longrightarrow> ok s'"
  by (auto simp: get_finish_def flags_only_def split: prod.splits if_splits
      intro!: flags intro: map_data_keeps)

lemma after_keeps:
  assumes "after_read e fin rd s = Some (r, s')"
    and "\<And>r t. rd s = Some (r, t) \<Longrightarrow> ok t \<and> gives (\<lambda>_ _. True) r t"
    and "\<And>pes t. fin pes t = Some (r, s') \<Longrightarrow> ok t \<Longrightarrow> ok s'"
  shows "ok s'"
  using after_ok[OF assms(1,2)] assms(3) by (auto simp: gives_def)

lemma put_ages_keeps: "put_ages e pes s = (st, s') \<Longrightarrow> ok s \<Longrightarrow> ok s'"
  by (induction e pes s rule: put_ages.induct) (auto split: if_splits intro: upd_event_keeps)

lemma undo_ages_keeps: "ok s \<Longrightarrow> ok (undo_ages pes s)"
  unfolding undo_ages_def by (induction pes arbitrary: s) (simp_all add: upd_event_keeps)

lemma get_after:
  assumes "ok s"
  shows "after_read e (get_finish e a) (et_station_read n mode att) s = Some (r, s') \<Longrightarrow> ok s'"
    "after_read e (get_finish e a) (et_station_nread n mode att m) s = Some (r, s') \<Longrightarrow> ok s'"
    "after_read e (get_finish e a) (et_station_read_wake n mode att w) s = Some (r, s') \<Longrightarrow> ok s'"
    "after_read e (get_finish e a) (et_station_nread_wake n mode att m w) s = Some (r, s') \<Longrightarrow> ok s'"
  by (erule after_keeps, erule reads_keep[OF assms], erule (1) get_finish_keeps)+

lemma new_after:
  assumes "ok s"
  shows "after_read e (new_finish e a sz []) (et_station_read n mode att) s = Some (r, s') \<Longrightarrow> ok s'"
    "after_read e (new_finish e a sz []) (et_station_nread n mode att m) s = Some (r, s') \<Longrightarrow> ok s'"
    "after_read e (new_finish e a sz []) (et_station_nread_group n mode att m grp) s = Some (r, s') \<Longrightarrow> ok s'"
    "after_read e (new_finish e a sz []) (et_station_read_wake n mode att w) s = Some (r, s') \<Longrightarrow> ok s'"
    "after_read e (new_finish e a sz []) (et_station_nread_wake n mode att m w) s = Some (r, s') \<Longrightarrow> ok s'"
  by (erule after_keeps, erule reads_keep[OF assms], erule (1) new_finish_keeps)+

lemma get_keeps:
  assumes "ok s" "locality e = ET_LOCAL"
  shows "et_event_get e etr att mode delta s = Some (r, s') \<Longrightarrow> ok s'"
    "et_events_get e etr att mode delta m s = Some (r, s') \<Longrightarrow> ok s'"
    "et_event_get_wake e a n wait w s = Some (r, s') \<Longrightarrow> ok s'"
    "et_events_get_wake e a n wait m w s = Some (r, s') \<Longrightarrow> ok s'"
  unfolding et_event_get_def et_events_get_def et_event_get_wake_def et_events_get_wake_def Let_def
  using assms(1) by (auto simp: assms(2) split: if_splits Option.bind_splits dest: get_after)

lemma new_keeps:
  assumes "ok s" "locality e = ET_LOCAL"
  shows "et_events_new_group e etr att mode delta sz m grp [] s = Some (r, s') \<Longrightarrow> ok s'"
    "et_events_new e etr att mode delta sz m [] s = Some (r, s') \<Longrightarrow> ok s'"
    "et_event_new e etr att mode delta sz [] s = Some (r, s') \<Longrightarrow> ok s'"
    "et_event_new_wake e a wait sz [] w s = Some (r, s') \<Longrightarrow> ok s'"
    "et_events_new_wake e a wait sz m [] w s = Some (r, s') \<Longrightarrow> ok s'"
proof -
  show g: "et_events_new_group e etr att mode delta sz m grp [] s = Some (r, s') \<Longrightarrow> ok s'" for m grp
    unfolding et_events_new_group_def Let_def
    using assms(1) by (auto simp: assms(2) split: if_splits Option.bind_splits dest: new_after)
  show "et_events_new e etr att mode delta sz m [] s = Some (r, s') \<Longrightarrow> ok s'"
    unfolding et_events_new_def Let_def
    using assms(1) by (auto simp: assms(2) split: if_splits Option.bind_splits dest: new_after g)
  show "et_event_new e etr att mode delta sz [] s = Some (r, s') \<Longrightarrow> ok s'"
    unfolding et_event_new_def et_event_new_group_def Let_def
    using assms(1) by (auto simp: assms(2) split: if_splits Option.bind_splits dest: new_after g)
qed (auto simp: et_event_new_wake_def et_events_new_wake_def dest: new_after[OF assms(1)])

lemma flags_keep: "ok s \<Longrightarrow> ok (upd_attach a (\<lambda>t. t\<lparr>events_put := x t\<rparr>) s)"
  "ok s \<Longrightarrow> ok (upd_attach a (\<lambda>t. t\<lparr>events_dump := x t\<rparr>) s)"
  by (rule flags; simp add: flags_only_def)+

lemmas call_keeps = flags_keep sub_temps_keeps upd_event_keeps undo_ages_keeps

lemma put_keeps:
  assumes "ok s" "locality e = ET_LOCAL"
  shows "et_event_put e etr att pe s = Some (st, s') \<Longrightarrow> ok s'"
    "et_events_put e etr att pes s = Some (st, s') \<Longrightarrow> ok s'"
    "et_event_dump e etr att pe s = Some (st, s') \<Longrightarrow> ok s'"
    "et_events_dump e etr att pes s = Some (st, s') \<Longrightarrow> ok s'"
proof -
  show "et_event_put e etr att pe s = Some (st, s') \<Longrightarrow> ok s'"
  proof -
    assume e: "et_event_put e etr att pe s = Some (st, s')"
    show "ok s'"
    proof (cases "s' = s")
      case False
      then obtain p n a t where t: "on_station n (et_station_write (nevents_max s) p)
            (upd_event p (\<lambda>pe. pe\<lparr>age := ET_EVENT_USED\<rparr>) s) = Some (st, t)"
          "s' = (if st \<noteq> ET_OK then upd_event p (\<lambda>pe. pe\<lparr>age := age (events s p)\<rparr>) t
             else upd_attach a (\<lambda>t. t\<lparr>events_put := events_put t + 1\<rparr>) t)"
        using e by (auto simp: et_event_put_def Let_def assms(2) upd_event_def
            split: if_splits Option.bind_splits option.splits)
      have "ok t" using on_station_keeps[OF t(1) upd_event_keeps[OF assms(1)]] .
      then show ?thesis by (simp add: t(2) flags_keep upd_event_keeps)
    qed (simp add: assms(1))
  qed
  show "et_event_dump e etr att pe s = Some (st, s') \<Longrightarrow> ok s'"
    using assms(1) by (auto simp: et_event_dump_def Let_def assms(2) call_keeps
        split: if_splits Option.bind_splits option.splits dest!: on_station_keeps[OF _ assms(1)])
  show "et_events_dump e etr att pes s = Some (st, s') \<Longrightarrow> ok s'"
    using assms(1) by (auto simp: et_events_dump_def Let_def assms(2) call_keeps
        split: if_splits Option.bind_splits option.splits dest!: on_station_keeps[OF _ assms(1)])
  show "et_events_put e etr att pes s = Some (st, s') \<Longrightarrow> ok s'"
    using assms(1) by (auto simp: et_events_put_def Let_def assms(2) call_keeps
        split: if_splits Option.bind_splits option.splits prod.splits
        dest!: put_ages_keeps[OF _ assms(1)] on_station_keeps)
qed

end

interpretation sto: sys_inv "stations_ok N"
  by unfold_locales (auto simp: stations_ok_def in_lock_def in_unlock_def flags_only_def upd_attach_def)


interpretation cfg: sys_inv "\<lambda>s. sys_config (sys s) = c"
  by unfold_locales (auto simp: in_lock_def in_unlock_def upd_attach_def)

section \<open>The step relation\<close>

text \<open>The routines that change the header of an event.\<close>

inductive header_call :: "et_event \<Rightarrow> et_event \<Rightarrow> bool" where
  setpriority: "header_call pe (snd (et_event_setpriority pe pri))"
| setlength: "header_call pe (snd (et_event_setlength pe len))"
| setcontrol: "header_call pe (snd (et_event_setcontrol pe con k))"
| setdatastatus: "header_call pe (snd (et_event_setdatastatus pe st))"
| setendian: "header_call pe (snd (et_event_setendian lbo pe endian))"

lemma header_call_keeps:
  "header_call pe pe' \<Longrightarrow> owner pe' = owner pe \<and> (priority pe' = priority pe \<or> priority pe' \<in> {ET_LOW, ET_HIGH})"
  by (induction rule: header_call.induct)
    (auto simp: et_event_setpriority_def et_event_setlength_def et_event_setcontrol_def
      et_event_setdatastatus_def et_event_setendian_def Let_def split: prod.splits)

text \<open>
  One step. The arrays of events handed to put and dump hold places of the event array, none of them
  twice; the calls do not check that.
\<close>

inductive et_step :: "nat \<Rightarrow> et_shm \<Rightarrow> et_shm \<Rightarrow> bool" for N where
  new: "\<lbrakk>locality e = ET_LOCAL; et_event_new e etr att mode delta sz [] s = Some (r, s')\<rbrakk> \<Longrightarrow> et_step N s s'"
| news: "\<lbrakk>locality e = ET_LOCAL; et_events_new e etr att mode delta sz m [] s = Some (r, s')\<rbrakk> \<Longrightarrow> et_step N s s'"
| new_wake: "\<lbrakk>locality e = ET_LOCAL; et_event_new_wake e a wait sz [] w s = Some (r, s')\<rbrakk> \<Longrightarrow> et_step N s s'"
| news_wake: "\<lbrakk>locality e = ET_LOCAL; 1 \<le> clip sz m s; et_events_new_wake e a wait sz m [] w s = Some (r, s')\<rbrakk> \<Longrightarrow>
    et_step N s s'"
| get: "\<lbrakk>locality e = ET_LOCAL; et_event_get e etr att mode delta s = Some (r, s')\<rbrakk> \<Longrightarrow> et_step N s s'"
| gets: "\<lbrakk>locality e = ET_LOCAL; et_events_get e etr att mode delta m s = Some (r, s')\<rbrakk> \<Longrightarrow> et_step N s s'"
| get_wake: "\<lbrakk>locality e = ET_LOCAL; n < N; et_event_get_wake e a n wait w s = Some (r, s')\<rbrakk> \<Longrightarrow> et_step N s s'"
| gets_wake: "\<lbrakk>locality e = ET_LOCAL; n < N; 1 \<le> m; et_events_get_wake e a n wait m w s = Some (r, s')\<rbrakk> \<Longrightarrow>
    et_step N s s'"
| put: "\<lbrakk>locality e = ET_LOCAL; \<forall>p. pe = Some p \<longrightarrow> p < nat (nevents_max s);
    et_event_put e etr att pe s = Some (st, s')\<rbrakk> \<Longrightarrow> et_step N s s'"
| puts: "\<lbrakk>locality e = ET_LOCAL; \<forall>p\<in>set pes. p < nat (nevents_max s); distinct pes;
    et_events_put e etr att pes s = Some (st, s')\<rbrakk> \<Longrightarrow> et_step N s s'"
| dump: "\<lbrakk>locality e = ET_LOCAL; \<forall>p. pe = Some p \<longrightarrow> p < nat (nevents_max s);
    et_event_dump e etr att pe s = Some (st, s')\<rbrakk> \<Longrightarrow> et_step N s s'"
| dumps: "\<lbrakk>locality e = ET_LOCAL; \<forall>p\<in>set pes. p < nat (nevents_max s); distinct pes;
    et_events_dump e etr att pes s = Some (st, s')\<rbrakk> \<Longrightarrow> et_step N s s'"
| header: "\<lbrakk>owner (events s p) \<noteq> ET_SYS; header_call (events s p) pe\<rbrakk> \<Longrightarrow> et_step N s (upd_event p (\<lambda>_. pe) s)"
| turn: "\<lbrakk>me < N; can_pass N me s; 0 < cnt (list_out (stats s me));
    conductor_pass ufun me temps0 s = Some (Inr (s', t))\<rbrakk> \<Longrightarrow> et_step N s s'"
| attach: "\<lbrakk>locality e = ET_LOCAL; stat_id < int N; et_station_attach e etr stat_id s = Some (ra, s')\<rbrakk> \<Longrightarrow> et_step N s s'"
| detach: "\<lbrakk>locality e = ET_LOCAL; detach_env e att s; et_station_detach e etr att s = Some (st, s')\<rbrakk> \<Longrightarrow> et_step N s s'"

definition sane :: "nat \<Rightarrow> et_shm \<Rightarrow> bool" where
  "sane N s \<longleftrightarrow> all_placed N s \<and> stations_ok N s"

section \<open>Each step keeps the system sane\<close>

lemma turn_keeps:
  assumes s: "sane N s" and me: "me < N" and cp: "can_pass N me s" and c: "0 < cnt (list_out (stats s me))"
    and e: "conductor_pass ufun me temps0 s = Some (Inr (s', t))"
  shows "sane N s' \<and> sys_config (sys s') = sys_config (sys s)"
proof -
  obtain X Y where p: "placed N s X Y" "0 < N" using s by (auto simp: sane_def all_placed_def)
  have o: "out_repr (events s) (list_out (stats s me)) (Y me)" "in_lists N s X"
    using p(1) me by (auto simp: placed_def lists_ok_def)
  have ne: "Y me \<noteq> []" using o(1) c by (auto simp: out_repr_def list_repr_def)
  let ?M = "total_in N X + mset (Y me)" and ?U = "mset [0..<nat (nevents_max s)]"
  have "?M \<subseteq># ?U"
    using p(1) total_mono[OF me, of Y] unfolding placed_def
    by (metis mset_subset_eq_add_left subset_mset.add_left_mono subset_mset.dual_order.trans)
  note sub = this
  have "count ?M q \<le> 1" for q
    using mset_subset_eq_count[OF sub, of q] distinct_count_atmost_1[of "[0..<nat (nevents_max s)]"]
    by (metis distinct_upt dual_order.trans count_mset_0_iff le_numeral_extra(3,4) zero_le_one)
  then have M: "\<forall>q. count ?M q \<le> 1" "size ?M \<le> nat (nevents_max s)"
    using size_mset_mono[OF sub] by simp_all
  have "0 \<le> nevents_max s" using p(1) by (simp add: placed_def)
  then have sz: "int (size ?M) \<le> nevents_max s" using M(2) by linarith
  have pr: "prio_ok (events s) (set_mset ?M)" using p(1) by (simp add: placed_def prio_ok_def)
  have w: "passed N me (Y me) X s s'"
    using conductor_pass_ok[OF o(1) ne o(2) M(1) sz pr cp, of ufun temps0] e by auto
  then have sy: "sys s' = (sys s)\<lparr>ntemps := ntemps (sys s'), sys_mutex := sys_mutex (sys s')\<rparr>"
    by (simp add: passed_def)
  have "attach (sys s') = attach (sys s)" "sys_config (sys s') = sys_config (sys s)" by (subst sy, simp)+
  then show ?thesis
    using placed_pass[OF p(1) me w] p(2) s by (auto simp: sane_def all_placed_def stations_ok_def)
qed


text \<open>After a wakeup, with the list locked again.\<close>

lemma get_wakes_keep:
  assumes s: "all_placed N s" and n: "n < N"
  shows "et_event_get_wake e a n wait w s = Some (r, s') \<Longrightarrow> all_placed N s'"
    "1 \<le> m \<Longrightarrow> et_events_get_wake e a n wait m w s = Some (r, s') \<Longrightarrow> all_placed N s'"
proof -
  have f: "all_placed N s'" if r: "reads_ok N n a fin" and
    e: "after_read e (get_finish e a) (read_wake n wait a w fin) s = Some (r, s')" for fin
  proof -
    have "all_placed N t \<and> gives (belongs a) r t" if "read_wake n wait a w fin s = Some (r, t)" for r t
      by (rule pl.wake_ok[OF that s]) (use r n in \<open>fastforce simp: reads_ok_def\<close>)
    note rd = this
    have "all_placed N s' \<and> gives (belongs a) r s'"
    proof (rule pl.after_ok[OF e])
      fix pes t assume "all_placed N t" "belongs a pes t" "get_finish e a pes t = Some (r, s')"
      then show "all_placed N s' \<and> gives (belongs a) r s'" using get_finish_ok by blast
    qed (rule rd)
    then show ?thesis by blast
  qed
  show "et_event_get_wake e a n wait w s = Some (r, s') \<Longrightarrow> all_placed N s'"
    unfolding et_event_get_wake_def et_station_read_wake_def by (rule f[OF reads_ok_one])
  show "1 \<le> m \<Longrightarrow> et_events_get_wake e a n wait m w s = Some (r, s') \<Longrightarrow> all_placed N s'"
    unfolding et_events_get_wake_def et_station_nread_wake_def by (rule f[OF reads_ok_many])
qed

lemma new_wakes_keep:
  assumes s: "all_placed N s"
  shows "et_event_new_wake e a wait sz [] w s = Some (r, s') \<Longrightarrow> all_placed N s'"
    "1 \<le> clip sz m s \<Longrightarrow> et_events_new_wake e a wait sz m [] w s = Some (r, s') \<Longrightarrow> all_placed N s'"
proof -
  have N: "0 < N" using s by (simp add: all_placed_def)
  have c: "calm N a pes []" for pes by (simp add: calm_def)
  have f: "all_placed N s'" if r: "reads_ok N 0 a fin" and
    e: "after_read e (new_finish e a sz []) (read_wake 0 wait a w fin) s = Some (r, s')" for fin
  proof -
    have "all_placed N t \<and> gives (belongs a) r t" if "read_wake 0 wait a w fin s = Some (r, t)" for r t
      by (rule pl.wake_ok[OF that s]) (use r N in \<open>fastforce simp: reads_ok_def\<close>)
    note rd = this
    have "all_placed N s' \<and> gives (belongs a) r s'"
    proof (rule pl.after_ok[OF e])
      fix pes t assume "all_placed N t" "belongs a pes t" "new_finish e a sz [] pes t = Some (r, s')"
      then show "all_placed N s' \<and> gives (belongs a) r s'" using new_finish_ok c by blast
    qed (rule rd)
    then show ?thesis by blast
  qed
  show "et_event_new_wake e a wait sz [] w s = Some (r, s') \<Longrightarrow> all_placed N s'"
    unfolding et_event_new_wake_def et_station_read_wake_def by (rule f[OF reads_ok_one])
  show "1 \<le> clip sz m s \<Longrightarrow> et_events_new_wake e a wait sz m [] w s = Some (r, s') \<Longrightarrow> all_placed N s'"
    unfolding et_events_new_wake_def et_station_nread_wake_def by (rule f[OF reads_ok_many])
qed

lemma get_calls_keep:
  assumes s: "sane N s" and loc: "locality e = ET_LOCAL"
  shows "et_event_get e etr att mode delta s = Some (r, s') \<Longrightarrow> all_placed N s'"
    "et_events_get e etr att mode delta m s = Some (r, s') \<Longrightarrow> all_placed N s'"
proof -
  have o: "all_placed N s" "stations_ok N s" using s by (simp_all add: sane_def)
  let ?in = "att < ET_ATTACHMENTS_MAX \<and> 0 \<le> at_stat (attach (sys s) (nat att))"
  show "all_placed N s'" if "et_event_get e etr att mode delta s = Some (r, s')"
  proof (cases ?in)
    case True
    then show ?thesis using et_event_get_ok[OF loc o, of att etr mode delta] that by auto
  next
    case False
    then have "s' = s" using that loc
      by (auto simp: et_event_get_def Let_def att_ix_def stat_ix_def split: if_splits)
    then show ?thesis using o by simp
  qed
  show "all_placed N s'" if "et_events_get e etr att mode delta m s = Some (r, s')"
  proof (cases ?in)
    case True
    then show ?thesis using et_events_get_ok[OF loc o, of att etr mode delta m] that by auto
  next
    case False
    then have "s' = s" using that loc
      by (auto simp: et_events_get_def Let_def att_ix_def stat_ix_def split: if_splits)
    then show ?thesis using o by simp
  qed
qed

theorem step_keeps: "et_step N s s' \<Longrightarrow> sane N s \<Longrightarrow> sane N s'"
proof (induction rule: et_step.induct)
  have c: "calm N a pes []" for a pes by (simp add: calm_def)
  case (new e etr att mode delta sz s r s')
  then show ?case using et_event_new_ok[OF new(2,1) _ c] sto.new_keeps(3)[OF _ new(1,2)] by (simp add: sane_def)
next
  have c: "calm N a pes []" for a pes by (simp add: calm_def)
  case (news e etr att mode delta sz m s r s')
  then show ?case using et_events_new_ok[OF news(2,1) _ c] sto.new_keeps(2)[OF _ news(1,2)] by (simp add: sane_def)
next
  case (new_wake e a wait sz w s r s')
  then show ?case using new_wakes_keep(1)[OF _ new_wake(2)] sto.new_keeps(4)[OF _ new_wake(1,2)] by (simp add: sane_def)
next
  case (news_wake e sz m s a wait w r s')
  then show ?case using new_wakes_keep(2)[OF _ news_wake(2,3)] sto.new_keeps(5)[OF _ news_wake(1,3)]
    by (simp add: sane_def)
next
  case (get e etr att mode delta s r s')
  then show ?case using get_calls_keep(1)[OF _ get(1,2)] sto.get_keeps(1)[OF _ get(1,2)] by (simp add: sane_def)
next
  case (gets e etr att mode delta m s r s')
  then show ?case using get_calls_keep(2)[OF _ gets(1,2)] sto.get_keeps(2)[OF _ gets(1,2)] by (simp add: sane_def)
next
  case (get_wake e n a wait w s r s')
  then show ?case using get_wakes_keep(1)[OF _ get_wake(2,3)] sto.get_keeps(3)[OF _ get_wake(1,3)] by (simp add: sane_def)
next
  case (gets_wake e n m a wait w s r s')
  then show ?case using get_wakes_keep(2)[OF _ gets_wake(2,3,4)] sto.get_keeps(4)[OF _ gets_wake(1,4)]
    by (simp add: sane_def)
next
  case (put e pe s etr att st s')
  then show ?case using et_event_put_keeps[OF put(3,1) _ _ put(2)] sto.put_keeps(1)[OF _ put(1,3)] by (simp add: sane_def)
next
  case (puts e pes s etr att st s')
  then show ?case using et_events_put_keeps[OF puts(4,1) _ _ puts(2,3)] sto.put_keeps(2)[OF _ puts(1,4)]
    by (simp add: sane_def)
next
  case (dump e pe s etr att st s')
  then show ?case using et_event_dump_keeps[OF dump(3,1) _ dump(2)] sto.put_keeps(3)[OF _ dump(1,3)] by (simp add: sane_def)
next
  case (dumps e pes s etr att st s')
  then show ?case using et_events_dump_keeps[OF dumps(4,1) _ dumps(2,3)] sto.put_keeps(4)[OF _ dumps(1,4)]
    by (simp add: sane_def)
next
  case (header s p pe)
  then have "quiet s (upd_event p (\<lambda>_. pe) s)"
    by (intro quiet_event) (use header_call_keeps[OF header(2)] in auto)
  then show ?case using header(3) all_placed_quiet by (auto simp: sane_def)
next
  case (turn me s ufun temps0 s' t)
  then show ?case using turn_keeps by blast
next
  case (attach e stat_id etr s ra s')
  then show ?case using attach_keeps[OF attach(3,1) _ _ attach(2)] by (simp add: sane_def)
next
  case (detach e att s etr st s')
  then show ?case using detach_keeps[OF detach(3,1) _ _ detach(2)] by (simp add: sane_def)
qed

text \<open>The configuration never changes.\<close>

theorem step_config: "et_step N s s' \<Longrightarrow> sane N s \<Longrightarrow> sys_config (sys s') = sys_config (sys s)"
proof (induction rule: et_step.induct)
  case (turn me s ufun temps0 s' t)
  then show ?case using turn_keeps by blast
next
  case (attach e stat_id etr s ra s')
  then show ?case using attach_keeps[OF attach(3,1) _ _ attach(2)] unfolding sane_def by blast
next
  case (detach e att s etr st s')
  then show ?case using detach_keeps[OF detach(3,1) _ _ detach(2)] unfolding sane_def by blast
qed (auto simp: upd_event_def intro: cfg.new_keeps cfg.get_keeps cfg.put_keeps)

section \<open>Reachable states\<close>

locale step_system =
  fixes step :: "'s \<Rightarrow> 's \<Rightarrow> bool" and inv :: "'s \<Rightarrow> bool"
  assumes keeps: "step s s' \<Longrightarrow> inv s \<Longrightarrow> inv s'"
begin

theorem reachable: "step\<^sup>*\<^sup>* s s' \<Longrightarrow> inv s \<Longrightarrow> inv s'"
  by (induction rule: rtranclp_induct) (auto intro: keeps)

lemma reachable_step: "step\<^sup>*\<^sup>* s s1 \<Longrightarrow> step s1 s2 \<Longrightarrow> inv s \<Longrightarrow> inv s1 \<and> inv s2"
  using reachable keeps by blast

end

interpretation flow: step_system "et_step N" "sane N"
  by unfold_locales (rule step_keeps)

interpretation flow_config: step_system "et_step N" "\<lambda>s. sane N s \<and> sys_config (sys s) = c"
  by unfold_locales (use step_keeps step_config in auto)

text \<open>What \<open>sane\<close> means for one event.\<close>

theorem sane_one_place:
  assumes "sane N s" "p < nat (nevents_max s)"
  shows "\<exists>X Y. (\<forall>k<N. list_repr (events s) (list_in (stats s k)) (X k)) \<and>
    (\<forall>k<N. out_repr (events s) (list_out (stats s k)) (Y k)) \<and>
    card {k. k < N \<and> p \<in> set (X k)} + card {k. k < N \<and> p \<in> set (Y k)} +
      (if owner (events s p) \<noteq> ET_SYS then 1 else 0) = 1"
proof -
  obtain X Y where pl: "placed N s X Y" using assms(1) by (auto simp: sane_def all_placed_def)
  have dX: "distinct (X k)" "distinct (Y k)" if "k < N" for k
    using placed_distinct(1)[OF pl that that] by auto
  have cnt: "count (total_in N Z) p = card {k. k < N \<and> p \<in> set (Z k)}" if "\<And>k. k < N \<Longrightarrow> distinct (Z k)" for Z
  proof -
    have "count (total_in N Z) p = (\<Sum>k<N. if p \<in> set (Z k) then 1 else 0)"
      unfolding total_in_def count_sum
      by (intro sum.cong) (use that in \<open>auto simp: distinct_count_atmost_1 count_mset\<close>)
    also have "\<dots> = card {k. k < N \<and> p \<in> set (Z k)}"
      by (subst sum.If_cases) (auto simp: Int_def)
    finally show ?thesis .
  qed
  have h: "count (mset (held s)) p = (if owner (events s p) \<noteq> ET_SYS then 1 else 0)"
    using assms(2) by (auto simp: held_def)
  have "total_in N X + total_in N Y + mset (held s) = mset [0..<nat (nevents_max s)]" using pl by (simp add: placed_def)
  then have "count (total_in N X) p + count (total_in N Y) p + count (mset (held s)) p = 1"
    using assms(2) by (metis count_union count_mset_set(1) atLeastLessThan_iff finite_atLeastLessThan mset_upt zero_le)
  then have c: "card {k. k < N \<and> p \<in> set (X k)} + card {k. k < N \<and> p \<in> set (Y k)} +
      (if owner (events s p) \<noteq> ET_SYS then 1 else 0) = 1"
    by (simp only: cnt[OF dX(1)] cnt[OF dX(2)] h)
  have "\<forall>k<N. list_repr (events s) (list_in (stats s k)) (X k)" "\<forall>k<N. out_repr (events s) (list_out (stats s k)) (Y k)"
    using pl by (simp_all add: placed_def lists_ok_def in_lists_def)
  with c show ?thesis by blast
qed

end
