(* ===== verification/EtWake.thy ===== *)
theory EtWake imports EtSystem begin

text \<open>
  The calls on attachments of \<^verbatim>\<open>et_attachment.c\<close>: waking up one attachment or all attachments of a
  station, and the statistics of an attachment. The C functions compute the addresses they work on
  before they test their arguments; \<open>None\<close> is the read of \<^verbatim>\<open>etid->sys\<close>, which is NULL in the handle of
  a remote system, or of an entry outside the table of attachments. \<open>etr\<close> is the answer of the
  remote client. The lemmas show that a wakeup makes a blocked reader return, that attachments that
  do not wait are left alone, and that no event moves.
\<close>

section \<open>Waking up\<close>

definition broadcast_in :: "nat \<Rightarrow> et_shm \<Rightarrow> et_shm" where
  "broadcast_in n = upd_station n (\<lambda>ps. ps\<lparr>list_in := cond_signal (list_in ps)\<rparr>)"

definition att_waits :: "et_shm \<Rightarrow> nat \<Rightarrow> bool" where
  "att_waits s a \<longleftrightarrow> blocked (attach (sys s) a) = ET_ATT_BLOCKED \<or> sleep (attach (sys s) a) = ET_ATT_SLEEP"

definition et_wakeup_attachment :: "et_id \<Rightarrow> int op \<Rightarrow> int \<Rightarrow> int op" where
  "et_wakeup_attachment e etr att s =
    (if locality e = ET_REMOTE then None
     else do {
       a \<leftarrow> att_ix att;
       if locality e \<noteq> ET_LOCAL then etr s
       else if att \<ge> c_nattachments (sys_config (sys s)) then Some (ET_ERROR, s)
       else if blocked (attach (sys s) a) = ET_ATT_UNBLOCKED \<and> sleep (attach (sys s) a) = ET_ATT_NOSLEEP
         then Some (ET_OK, s)
       else do {
         n \<leftarrow> stat_ix s a;
         let s = set_quit a ET_ATT_QUIT s;
         Some (ET_OK, broadcast_in 0 (broadcast_in n s)) } })"

text \<open>The loop over the station's attachments; \<^verbatim>\<open>att[i]\<close> is the number of an attachment or -1.\<close>

fun wake_atts :: "(nat \<Rightarrow> int) \<Rightarrow> nat list \<Rightarrow> et_shm \<Rightarrow> et_shm option" where
  "wake_atts f [] s = Some s"
| "wake_atts f (i # is) s =
    (if f i > - 1 then do {
       a \<leftarrow> att_ix (f i);
       wake_atts f is (if att_waits s a then set_quit a ET_ATT_QUIT s else s) }
     else wake_atts f is s)"

definition et_wakeup_all :: "et_id \<Rightarrow> int op \<Rightarrow> int \<Rightarrow> int op" where
  "et_wakeup_all e etr stat_id s =
    (if stat_id < 0 then Some (ET_ERROR, s)
     else if locality e \<noteq> ET_LOCAL then etr s
     else if stat_id \<ge> c_nstations (sys_config (sys s)) then Some (ET_ERROR, s)
     else do {
       s \<leftarrow> wake_atts (st_att (st_data (stats s (nat stat_id)))) [0..<nat (c_nattachments (sys_config (sys s)))] s;
       Some (ET_OK, broadcast_in 0 (broadcast_in (nat stat_id) s)) })"

section \<open>Statistics of an attachment\<close>

definition attach_get ::
  "et_id \<Rightarrow> int \<times> u64 option \<Rightarrow> int \<Rightarrow> bool \<Rightarrow> (et_attach \<Rightarrow> u64) \<Rightarrow> et_shm \<Rightarrow> int \<times> u64 option" where
  "attach_get e etr att_id nn f s =
    (if locality e = ET_REMOTE then etr
     else if att_id < 0 \<or> att_id \<ge> c_nattachments (sys_config (sys s)) then (ET_ERROR, None)
     else if et_alive e = 0 then (ET_ERROR_DEAD, None)
     else (ET_OK, if nn then Some (f (attach (sys s) (nat att_id))) else None))"

definition et_attach_geteventsput where
  "et_attach_geteventsput e etr att nn s = attach_get e etr att nn events_put s"

definition et_attach_geteventsget where
  "et_attach_geteventsget e etr att nn s = attach_get e etr att nn events_get s"

definition et_attach_geteventsdump where
  "et_attach_geteventsdump e etr att nn s = attach_get e etr att nn events_dump s"

definition et_attach_geteventsmake where
  "et_attach_geteventsmake e etr att nn s = attach_get e etr att nn events_make s"

section \<open>What a wakeup does\<close>

lemma broadcast_simps [simp]:
  "sys (broadcast_in n s) = sys s" "events (broadcast_in n s) = events s"
  "histogram (broadcast_in n s) = histogram s"
  "list_out (stats (broadcast_in n s) k) = list_out (stats s k)"
  by (simp_all add: broadcast_in_def)

lemma set_quit_simps [simp]:
  "stats (set_quit a q s) = stats s" "events (set_quit a q s) = events s"
  "attach (sys (set_quit a q s)) = (attach (sys s))(a := (attach (sys s) a)\<lparr>quit := q\<rparr>)"
  "sys_config (sys (set_quit a q s)) = sys_config (sys s)"
  by (simp_all add: set_quit_def)

lemma quiet_broadcast: "quiet s (broadcast_in n s)"
  by (simp add: quiet_def same_list_def broadcast_in_def)

text \<open>The attachments of a set told to quit.\<close>

definition tell_quit :: "nat set \<Rightarrow> et_shm \<Rightarrow> et_shm" where
  "tell_quit A s = s\<lparr>sys := (sys s)\<lparr>attach := (\<lambda>a. (attach (sys s) a)\<lparr>quit :=
     (if a \<in> A then ET_ATT_QUIT else quit (attach (sys s) a))\<rparr>)\<rparr>\<rparr>"

lemma tell_quit_simps [simp]:
  "stats (tell_quit A s) = stats s" "events (tell_quit A s) = events s"
  "attach (sys (tell_quit A s)) a = (attach (sys s) a)\<lparr>quit := (if a \<in> A then ET_ATT_QUIT else quit (attach (sys s) a))\<rparr>"
  "sys_config (sys (tell_quit A s)) = sys_config (sys s)"
  by (simp_all add: tell_quit_def)

lemma tell_quit_none: "tell_quit {} s = s"
  by (simp add: tell_quit_def)

lemma tell_quit_insert: "tell_quit A (set_quit a ET_ATT_QUIT s) = tell_quit (insert a A) s"
  by (simp add: tell_quit_def set_quit_def upd_attach_def upd_sys_def fun_eq_iff)

lemma wake_atts_spec:
  assumes "wake_atts f is s = Some s'"
  shows "s' = tell_quit {a. att_waits s a \<and> int a \<in> f ` set is} s"
  using assms
proof (induction "is" arbitrary: s)
  case (Cons i "is")
  show ?case
  proof (cases "f i > - 1")
    case True
    then obtain a where a: "att_ix (f i) = Some a" "wake_atts f is (if att_waits s a then set_quit a ET_ATT_QUIT s else s) = Some s'"
      using Cons.prems by (auto split: Option.bind_splits)
    have fa: "f i = int a" using a(1) by (auto simp: att_ix_def split: if_splits)
    let ?t = "if att_waits s a then set_quit a ET_ATT_QUIT s else s"
    have w: "att_waits ?t b = att_waits s b" for b by (simp add: att_waits_def)
    have "s' = tell_quit {b. att_waits s b \<and> int b \<in> f ` set is} ?t" using Cons.IH[OF a(2)] unfolding w .
    also have "\<dots> = tell_quit {b. att_waits s b \<and> int b \<in> f ` set (i # is)} s"
      by (auto simp: tell_quit_insert fa intro!: arg_cong[of _ _ "\<lambda>A. tell_quit A s"])
    finally show ?thesis .
  next
    case False
    then have "int a \<noteq> f i" for a by auto
    then show ?thesis using Cons.IH[of s] Cons.prems False by auto
  qed
qed (simp add: tell_quit_none)

lemma wake_atts_total:
  "\<forall>i\<in>set is. f i < ET_ATTACHMENTS_MAX \<Longrightarrow> \<exists>s'. wake_atts f is s = Some s'"
  by (induction "is" arbitrary: s) (auto simp: att_ix_def)

text \<open>The reader that was told to quit returns at once when its wait ends.\<close>

lemma quit_makes_return:
  assumes "quit (attach (sys s) a) = ET_ATT_QUIT"
  shows "\<exists>s'. read_wake n mode a Signalled fin s = Some (Done (ET_ERROR_WAKEUP, []), s') \<and> events s' = events s \<and>
    quit (attach (sys s') a) = ET_ATT_CONTINUE \<and> blocked (attach (sys s') a) = ET_ATT_UNBLOCKED"
  using assms by (simp add: read_wake_def Let_def read_quit_def set_blocked_def in_lock_def in_unlock_def)

lemma wakeup_attachment_ok:
  assumes "locality e = ET_LOCAL" "0 \<le> att" "att < c_nattachments (sys_config (sys s))"
    "att < ET_ATTACHMENTS_MAX" "att_waits s (nat att)" "stat_ix s (nat att) = Some n"
    and two: "blocked (attach (sys s) (nat att)) \<in> {ET_ATT_BLOCKED, ET_ATT_UNBLOCKED}"
      "sleep (attach (sys s) (nat att)) \<in> {ET_ATT_SLEEP, ET_ATT_NOSLEEP}"
  shows "et_wakeup_attachment e etr att s = Some (ET_OK, broadcast_in 0 (broadcast_in n (set_quit (nat att) ET_ATT_QUIT s)))"
  using assms by (auto simp: et_wakeup_attachment_def att_ix_def att_waits_def Let_def)

lemma quiet_tell_quit: "quiet s (tell_quit A s)"
  by (simp add: quiet_def same_list_def)

lemma wakeups_quiet:
  assumes "locality e = ET_LOCAL"
  shows "et_wakeup_attachment e etr att s = Some (r, s') \<Longrightarrow> quiet s s'"
    "et_wakeup_all e etr stat_id s = Some (r, s') \<Longrightarrow> quiet s s'"
proof -
  have set_quit: "quiet s (set_quit a q s)" for a q by (simp add: set_quit_def)
  have two: "quiet s (broadcast_in 0 (broadcast_in n t))" if "quiet s t" for n t
    using that quiet_broadcast quiet_trans by blast
  show "et_wakeup_attachment e etr att s = Some (r, s') \<Longrightarrow> quiet s s'"
    using assms by (auto simp: et_wakeup_attachment_def Let_def intro!: two set_quit split: Option.bind_splits if_splits)
  show "et_wakeup_all e etr stat_id s = Some (r, s') \<Longrightarrow> quiet s s'"
    using assms by (auto simp: et_wakeup_all_def dest!: wake_atts_spec intro!: two quiet_tell_quit
        split: Option.bind_splits if_splits)
qed

lemma wakeup_then_return:
  assumes "locality e = ET_LOCAL" "0 \<le> att" "att < c_nattachments (sys_config (sys s))"
    "att < ET_ATTACHMENTS_MAX" "att_waits s (nat att)" "stat_ix s (nat att) = Some n" "n \<noteq> 0"
    "blocked (attach (sys s) (nat att)) \<in> {ET_ATT_BLOCKED, ET_ATT_UNBLOCKED}"
    "sleep (attach (sys s) (nat att)) \<in> {ET_ATT_SLEEP, ET_ATT_NOSLEEP}"
  shows "\<exists>s1 s2. et_wakeup_attachment e etr att s = Some (ET_OK, s1) \<and>
    cread (list_in (stats s1 n)) = cread (list_in (stats s n)) + 1 \<and>
    et_station_read_wake n mode (nat att) Signalled s1 = Some (Done (ET_ERROR_WAKEUP, []), s2) \<and> events s2 = events s \<and>
    quit (attach (sys s2) (nat att)) = ET_ATT_CONTINUE \<and> blocked (attach (sys s2) (nat att)) = ET_ATT_UNBLOCKED"
proof -
  let ?s1 = "broadcast_in 0 (broadcast_in n (set_quit (nat att) ET_ATT_QUIT s))"
  have "quit (attach (sys ?s1) (nat att)) = ET_ATT_QUIT" by simp
  from quit_makes_return[OF this, of n mode "on_station n (read_one (nat att))"] obtain s2 where "et_station_read_wake n mode (nat att) Signalled ?s1 = Some (Done (ET_ERROR_WAKEUP, []), s2)"
    "events s2 = events ?s1" "quit (attach (sys s2) (nat att)) = ET_ATT_CONTINUE"
    "blocked (attach (sys s2) (nat att)) = ET_ATT_UNBLOCKED"
    unfolding et_station_read_wake_def [symmetric] by (elim exE conjE) (rule that)
  moreover have "cread (list_in (stats ?s1 n)) = cread (list_in (stats s n)) + 1"
    using assms(7) by (simp add: broadcast_in_def cond_signal_def)
  ultimately show ?thesis using wakeup_attachment_ok[OF assms(1-6,8,9)] by auto
qed

lemma wakeup_all_ok:
  assumes "locality e = ET_LOCAL" "0 \<le> stat_id" "stat_id < c_nstations (sys_config (sys s))"
    and "\<forall>i. int i < c_nattachments (sys_config (sys s)) \<longrightarrow> st_att (st_data (stats s (nat stat_id))) i < ET_ATTACHMENTS_MAX"
  shows "\<exists>s'. et_wakeup_all e etr stat_id s = Some (ET_OK, s') \<and> quiet s s' \<and>
    (\<forall>a. quit (attach (sys s') a) =
      (if att_waits s a \<and> (\<exists>i. int i < c_nattachments (sys_config (sys s)) \<and> st_att (st_data (stats s (nat stat_id))) i = int a)
       then ET_ATT_QUIT else quit (attach (sys s) a)))"
proof -
  let ?f = "st_att (st_data (stats s (nat stat_id)))"
  let ?is = "[0..<nat (c_nattachments (sys_config (sys s)))]"
  obtain t where t: "wake_atts ?f ?is s = Some t"
    using wake_atts_total[of ?is ?f s] assms(4) by (auto simp: zless_nat_eq_int_zless)
  let ?s' = "broadcast_in 0 (broadcast_in (nat stat_id) t)"
  have call: "et_wakeup_all e etr stat_id s = Some (ET_OK, ?s')" using assms(1-3) t by (simp add: et_wakeup_all_def)
  have "int a \<in> ?f ` set ?is \<longleftrightarrow> (\<exists>i. int i < c_nattachments (sys_config (sys s)) \<and> ?f i = int a)" for a
    by (auto simp: image_iff Bex_def zless_nat_eq_int_zless)
  then have "quit (attach (sys ?s') a) =
      (if att_waits s a \<and> (\<exists>i. int i < c_nattachments (sys_config (sys s)) \<and> ?f i = int a)
       then ET_ATT_QUIT else quit (attach (sys s) a))" for a
    unfolding wake_atts_spec[OF t] by simp
  then show ?thesis using call wakeups_quiet(2)[OF assms(1) call] by blast
qed

end
