(* ===== verification/EtSysConfig.thy ===== *)
theory EtSysConfig imports EtInit begin

text \<open>
  The configuration of an ET system (\<^verbatim>\<open>et_sysconfig.c\<close>, \<^verbatim>\<open>et_system_config_check\<close> of
  \<^verbatim>\<open>et_system.c\<close>) and the queries of an open system. \<open>et_system_config_init\<close> takes what the
  program cannot know: whether \<^verbatim>\<open>calloc\<close> gives memory, how many broadcast addresses the
  network library finds (0 when it fails) and the addresses of the host's interfaces. The array \<^verbatim>\<open>groups\<close> is a list of
  \<^verbatim>\<open>ET_EVENT_GROUPS_MAX\<close> elements, the multicast addresses are the list of the used entries of
  \<^verbatim>\<open>mcastaddrs\<close>. \<open>None\<close> is a read or write outside an array. \<open>nn\<close> says that an output argument is
  not NULL; \<open>etr\<close> is the answer of the remote client.

  The lemmas show what a chain of successful setters keeps (\<open>cfg_inv\<close>), that such a configuration
  passes the check exactly when the groups add up and the temporary events are not too many, and
  that adding and removing multicast addresses keeps the list bounded and without repetitions.
\<close>

section \<open>Constants\<close>

abbreviation (input) ET_SYSTEM_EVENTS :: int where "ET_SYSTEM_EVENTS \<equiv> 300"
abbreviation (input) ET_SYSTEM_NTEMPS :: int where "ET_SYSTEM_NTEMPS \<equiv> 300"
abbreviation (input) ET_SYSTEM_ESIZE :: u64 where "ET_SYSTEM_ESIZE \<equiv> 1000"
abbreviation (input) ET_SYSTEM_NSTATS :: int where "ET_SYSTEM_NSTATS \<equiv> 20"
abbreviation (input) ET_BROADCAST_PORT :: int where "ET_BROADCAST_PORT \<equiv> 11111"
abbreviation (input) ET_MAXADDRESSES :: nat where "ET_MAXADDRESSES \<equiv> 10"
abbreviation (input) ET_ERROR_NOMEM :: int where "ET_ERROR_NOMEM \<equiv> - 14"
abbreviation (input) ET_DEBUG_NONE :: int where "ET_DEBUG_NONE \<equiv> 0"
abbreviation (input) ET_DEBUG_SEVERE :: int where "ET_DEBUG_SEVERE \<equiv> 1"
abbreviation (input) ET_DEBUG_ERROR :: int where "ET_DEBUG_ERROR \<equiv> 2"
abbreviation (input) ET_DEBUG_WARN :: int where "ET_DEBUG_WARN \<equiv> 3"
abbreviation (input) ET_DEBUG_INFO :: int where "ET_DEBUG_INFO \<equiv> 4"

section \<open>Setters and getters\<close>

definition et_system_config_init :: "bool \<Rightarrow> nat \<Rightarrow> string list option \<Rightarrow> int \<times> et_sys_config option" where
  "et_system_config_init mem nbcast ni =
    (if \<not> mem then (ET_ERROR, None)
     else if nbcast \<ge> ET_MAXADDRESSES then (ET_ERROR_NOMEM, None)
     else (ET_OK, Some \<lparr>event_size = ET_SYSTEM_ESIZE, cfg_init = ET_STRUCT_OK,
       c_nevents = ET_SYSTEM_EVENTS, c_ntemps = ET_SYSTEM_NTEMPS, c_nstations = ET_SYSTEM_NSTATS,
       c_nprocesses = ET_PROCESSES_MAX, c_nattachments = ET_ATTACHMENTS_MAX, groupCount = 1,
       groups = (replicate ET_EVENT_GROUPS_MAX 0)[0 := ET_SYSTEM_EVENTS], c_filename = [],
       c_port = ET_BROADCAST_PORT, c_serverport = 0, tcpSendBufSize = 0, tcpRecvBufSize = 0,
       tcpNoDelay = 1, mcastaddrs = [], netinfo = (case ni of None \<Rightarrow> [] | Some xs \<Rightarrow> xs)\<rparr>))"

definition et_system_config_setevents :: "et_sys_config \<Rightarrow> int \<Rightarrow> int \<times> et_sys_config" where
  "et_system_config_setevents sc val =
    (if cfg_init sc \<noteq> ET_STRUCT_OK then (ET_ERROR, sc)
     else if val < 1 then (ET_ERROR, sc)
     else let sc = sc\<lparr>c_nevents := val\<rparr>;
              sc = (if groupCount sc = 1 then sc\<lparr>groups := (groups sc)[0 := val]\<rparr> else sc);
              sc = (if c_ntemps sc > val then sc\<lparr>c_ntemps := val\<rparr> else sc)
          in (ET_OK, sc))"

definition et_system_config_getevents :: "et_sys_config \<Rightarrow> int \<times> int" where
  "et_system_config_getevents sc = (ET_OK, c_nevents sc)"

definition et_system_config_setsize :: "et_sys_config \<Rightarrow> u64 \<Rightarrow> int \<times> et_sys_config" where
  "et_system_config_setsize sc val =
    (if cfg_init sc \<noteq> ET_STRUCT_OK then (ET_ERROR, sc)
     else if val < 1 then (ET_ERROR, sc)
     else (ET_OK, sc\<lparr>event_size := val\<rparr>))"

definition et_system_config_getsize :: "et_sys_config \<Rightarrow> int \<times> u64" where
  "et_system_config_getsize sc = (ET_OK, event_size sc)"

definition et_system_config_settemps :: "et_sys_config \<Rightarrow> int \<Rightarrow> int \<times> et_sys_config" where
  "et_system_config_settemps sc val =
    (if cfg_init sc \<noteq> ET_STRUCT_OK then (ET_ERROR, sc)
     else if val < 1 then (ET_ERROR, sc)
     else (ET_OK, sc\<lparr>c_ntemps := val\<rparr>))"

definition et_system_config_gettemps :: "et_sys_config \<Rightarrow> int \<times> int" where
  "et_system_config_gettemps sc = (ET_OK, c_ntemps sc)"

definition et_system_config_setstations :: "et_sys_config \<Rightarrow> int \<Rightarrow> int \<times> et_sys_config" where
  "et_system_config_setstations sc val =
    (if cfg_init sc \<noteq> ET_STRUCT_OK then (ET_ERROR, sc)
     else if val < 1 then (ET_ERROR, sc)
     else (ET_OK, sc\<lparr>c_nstations := val\<rparr>))"

definition et_system_config_getstations :: "et_sys_config \<Rightarrow> int \<times> int" where
  "et_system_config_getstations sc = (ET_OK, c_nstations sc)"

definition et_system_config_setprocs :: "et_sys_config \<Rightarrow> int \<Rightarrow> int \<times> et_sys_config" where
  "et_system_config_setprocs sc val =
    (if cfg_init sc \<noteq> ET_STRUCT_OK then (ET_ERROR, sc)
     else if val < 1 then (ET_ERROR, sc)
     else let val = (if val > ET_PROCESSES_MAX then ET_PROCESSES_MAX else val)
          in (ET_OK, sc\<lparr>c_nprocesses := val\<rparr>))"

definition et_system_config_getprocs :: "et_sys_config \<Rightarrow> int \<times> int" where
  "et_system_config_getprocs sc = (ET_OK, c_nprocesses sc)"

definition et_system_config_setattachments :: "et_sys_config \<Rightarrow> int \<Rightarrow> int \<times> et_sys_config" where
  "et_system_config_setattachments sc val =
    (if cfg_init sc \<noteq> ET_STRUCT_OK then (ET_ERROR, sc)
     else if val < 1 then (ET_ERROR, sc)
     else let val = (if val > ET_ATTACHMENTS_MAX then ET_ATTACHMENTS_MAX else val)
          in (ET_OK, sc\<lparr>c_nattachments := val\<rparr>))"

definition et_system_config_getattachments :: "et_sys_config \<Rightarrow> int \<times> int" where
  "et_system_config_getattachments sc = (ET_OK, c_nattachments sc)"

definition et_system_config_setport :: "et_sys_config \<Rightarrow> int \<Rightarrow> int \<times> et_sys_config" where
  "et_system_config_setport sc val =
    (if cfg_init sc \<noteq> ET_STRUCT_OK then (ET_ERROR, sc)
     else if val < 1024 \<or> val > 65535 then (ET_ERROR, sc)
     else (ET_OK, sc\<lparr>c_port := val\<rparr>))"

definition et_system_config_getport :: "et_sys_config \<Rightarrow> int \<times> int" where
  "et_system_config_getport sc = (ET_OK, c_port sc)"

definition et_system_config_setserverport :: "et_sys_config \<Rightarrow> int \<Rightarrow> int \<times> et_sys_config" where
  "et_system_config_setserverport sc val =
    (if cfg_init sc \<noteq> ET_STRUCT_OK then (ET_ERROR, sc)
     else if val < 1024 \<or> val > 65535 then (ET_ERROR, sc)
     else (ET_OK, sc\<lparr>c_serverport := val\<rparr>))"

definition et_system_config_getserverport :: "et_sys_config \<Rightarrow> int \<times> int" where
  "et_system_config_getserverport sc = (ET_OK, c_serverport sc)"

text \<open>
  The loop that copies the caller's array, element \<open>i\<close> and the \<open>n\<close> after it; the boolean says that
  no element was below 1. Elements stored before an invalid one stay.
\<close>

fun copy_groups :: "int list \<Rightarrow> nat \<Rightarrow> nat \<Rightarrow> int list \<Rightarrow> (bool \<times> int list) option" where
  "copy_groups g i 0 gs = Some (True, gs)"
| "copy_groups g i (Suc n) gs =
    (if i \<ge> length g then None
     else if g ! i < 1 then Some (False, gs)
     else copy_groups g (Suc i) n (gs[i := g ! i]))"

definition et_system_config_setgroups ::
  "et_sys_config \<Rightarrow> int list option \<Rightarrow> int \<Rightarrow> (int \<times> et_sys_config) option" where
  "et_system_config_setgroups sc gr sz =
    (if cfg_init sc \<noteq> ET_STRUCT_OK then Some (ET_ERROR, sc)
     else if sz = 1 then
       Some (ET_OK, sc\<lparr>groups := replicate ET_EVENT_GROUPS_MAX 0, groupCount := 1\<rparr>)
     else case gr of
       None \<Rightarrow> Some (ET_ERROR, sc)
     | Some g \<Rightarrow>
         if sz > int ET_EVENT_GROUPS_MAX \<or> sz < 1 then Some (ET_ERROR, sc)
         else do {
           (good, gs) \<leftarrow> copy_groups g 0 (nat sz) (groups sc);
           if \<not> good then Some (ET_ERROR, sc\<lparr>groups := gs\<rparr>)
           else Some (ET_OK, sc\<lparr>
             groups := fold (\<lambda>i xs. xs[i := 0]) [nat sz..<ET_EVENT_GROUPS_MAX] gs,
             groupCount := sz\<rparr>) })"

definition et_system_config_settcp :: "et_sys_config \<Rightarrow> int \<Rightarrow> int \<Rightarrow> int \<Rightarrow> int \<times> et_sys_config" where
  "et_system_config_settcp sc rBufSize sBufSize noDelay =
    (if cfg_init sc \<noteq> ET_STRUCT_OK then (ET_ERROR, sc)
     else if rBufSize < 0 \<or> sBufSize < 0 then (ET_ERROR, sc)
     else let noDelay = (if noDelay < 0 then 1 else noDelay)
          in (ET_OK, sc\<lparr>tcpRecvBufSize := rBufSize, tcpSendBufSize := sBufSize,
                        tcpNoDelay := noDelay\<rparr>))"

definition et_system_config_gettcp ::
  "et_sys_config \<Rightarrow> bool \<Rightarrow> bool \<Rightarrow> bool \<Rightarrow> int \<times> int option \<times> int option \<times> int option" where
  "et_system_config_gettcp sc rn sn dn =
    (ET_OK, if rn then Some (tcpRecvBufSize sc) else None,
     if sn then Some (tcpSendBufSize sc) else None, if dn then Some (tcpNoDelay sc) else None)"

section \<open>Multicast addresses\<close>

text \<open>\<^verbatim>\<open>atoi\<close> of the C library: white space, an optional sign, digits up to the first other character.\<close>

definition is_space :: "char \<Rightarrow> bool" where
  "is_space c = (of_char c = (32::nat) \<or> (9 \<le> (of_char c::nat) \<and> (of_char c::nat) \<le> 13))"

fun digits :: "string \<Rightarrow> int \<Rightarrow> int" where
  "digits [] a = a"
| "digits (c # cs) a =
    (if 48 \<le> (of_char c::nat) \<and> (of_char c::nat) \<le> 57 then digits cs (10 * a + (of_char c - 48)) else a)"

definition atoi :: "string \<Rightarrow> int" where
  "atoi s = (case dropWhile is_space s of [] \<Rightarrow> 0
    | c # cs \<Rightarrow> if c = CHR ''-'' then - digits cs 0 else if c = CHR ''+'' then digits cs 0
                else digits (c # cs) 0)"

text \<open>
  The first number of an address: \<^verbatim>\<open>strcspn\<close>, the copy to \<^verbatim>\<open>char firstint[4]\<close>, which has no room
  for four characters and the terminating zero, and \<^verbatim>\<open>atoi\<close>.
\<close>

definition firstnumber :: "string \<Rightarrow> int option" where
  "firstnumber val =
    (let p = takeWhile (\<lambda>c. c \<noteq> CHR ''.'') val in if length p \<ge> 4 then None else Some (atoi p))"

definition et_system_config_addmulticast ::
  "et_sys_config \<Rightarrow> string option \<Rightarrow> (int \<times> et_sys_config) option" where
  "et_system_config_addmulticast sc vp =
    (if cfg_init sc \<noteq> ET_STRUCT_OK then Some (ET_ERROR, sc)
     else case vp of None \<Rightarrow> Some (ET_ERROR, sc)
     | Some val \<Rightarrow>
        if length val \<ge> ET_IPADDRSTRLEN \<or> length val < 7 then Some (ET_ERROR, sc)
        else do {
          n \<leftarrow> firstnumber val;
          Some (if n < 224 \<or> n > 239 then (ET_ERROR, sc)
            else if val \<in> set (mcastaddrs sc) then (ET_OK, sc)
            else if length (mcastaddrs sc) = ET_MAXADDRESSES then (ET_ERROR, sc)
            else (ET_OK, sc\<lparr>mcastaddrs := mcastaddrs sc @ [val]\<rparr>)) })"

text \<open>The search for the address and, when it is found, the later elements moving up.\<close>

fun drop_addr :: "string \<Rightarrow> string list \<Rightarrow> string list" where
  "drop_addr v [] = []"
| "drop_addr v (a # as) = (if v = a then as else a # drop_addr v as)"

definition et_system_config_removemulticast ::
  "et_sys_config \<Rightarrow> string option \<Rightarrow> (int \<times> et_sys_config) option" where
  "et_system_config_removemulticast sc vp =
    (if cfg_init sc \<noteq> ET_STRUCT_OK then Some (ET_ERROR, sc)
     else case vp of None \<Rightarrow> Some (ET_ERROR, sc)
     | Some val \<Rightarrow>
        if length val \<ge> ET_IPADDRSTRLEN \<or> length val < 7 then Some (ET_ERROR, sc)
        else do {
          n \<leftarrow> firstnumber val;
          Some (if n < 224 \<or> n > 239 then (ET_ERROR, sc)
            else (ET_OK, sc\<lparr>mcastaddrs := drop_addr val (mcastaddrs sc)\<rparr>)) })"

definition et_system_config_setfile :: "et_sys_config \<Rightarrow> string option \<Rightarrow> int \<times> et_sys_config" where
  "et_system_config_setfile sc vp =
    (if cfg_init sc \<noteq> ET_STRUCT_OK then (ET_ERROR, sc)
     else case vp of None \<Rightarrow> (ET_ERROR, sc)
     | Some val \<Rightarrow> if length val > ET_FILENAME_LENGTH - 1 then (ET_ERROR, sc)
                   else (ET_OK, sc\<lparr>c_filename := val\<rparr>))"

definition et_system_config_getfile :: "et_sys_config \<Rightarrow> int \<times> string" where
  "et_system_config_getfile sc = (ET_OK, c_filename sc)"

section \<open>The check at the start of a system\<close>

definition et_system_config_check :: "et_sys_config \<Rightarrow> (int \<times> et_sys_config) option" where
  "et_system_config_check sc =
    (if c_nevents sc < 1 then Some (ET_ERROR, sc)
     else if event_size sc < 1 then Some (ET_ERROR, sc)
     else if groupCount sc > int (length (groups sc)) then None
     else if sum_list (take (nat (groupCount sc)) (groups sc)) \<noteq> c_nevents sc then Some (ET_ERROR, sc)
     else if c_ntemps sc < 1 then Some (ET_ERROR, sc)
     else if c_ntemps sc > c_nevents sc then Some (ET_ERROR, sc)
     else if c_nstations sc < 1 then Some (ET_ERROR, sc)
     else if c_nattachments sc < 1 then Some (ET_ERROR, sc)
     else if c_nattachments sc > ET_ATTACHMENTS_MAX then Some (ET_ERROR, sc)
     else if c_nprocesses sc < 1 then Some (ET_ERROR, sc)
     else if c_nprocesses sc > ET_PROCESSES_MAX then Some (ET_ERROR, sc)
     else Some (ET_OK, sc\<lparr>c_filename := take (ET_FILENAME_LENGTH - 1) (c_filename sc)\<rparr>))"

section \<open>Queries of an open system\<close>

definition et_system_getgroup :: "et_id \<Rightarrow> bool \<Rightarrow> int \<times> int option" where
  "et_system_getgroup e nn = (if nn then (ET_OK, Some (id_group e)) else (ET_ERROR, None))"

definition et_system_setgroup :: "et_id \<Rightarrow> int \<times> int \<Rightarrow> int \<Rightarrow> et_shm \<Rightarrow> int \<times> et_id" where
  "et_system_setgroup e etr grp s =
    (if grp = 0 then (ET_OK, e\<lparr>id_group := 0\<rparr>)
     else if grp < 0 then (ET_ERROR, e)
     else if locality e \<noteq> ET_LOCAL \<and> fst etr \<noteq> ET_OK then (fst etr, e)
     else let count = (if locality e \<noteq> ET_LOCAL then snd etr else groupCount (sys_config (sys s)))
          in if grp > count then (ET_ERROR, e) else (ET_OK, e\<lparr>id_group := grp\<rparr>))"

definition et_system_setdebug :: "et_id \<Rightarrow> int \<Rightarrow> int \<times> et_id" where
  "et_system_setdebug e val =
    (if val \<noteq> ET_DEBUG_NONE \<and> val \<noteq> ET_DEBUG_SEVERE \<and> val \<noteq> ET_DEBUG_ERROR \<and>
        val \<noteq> ET_DEBUG_WARN \<and> val \<noteq> ET_DEBUG_INFO then (ET_ERROR, e)
     else (ET_OK, e\<lparr>debug := val\<rparr>))"

definition et_system_getdebug :: "et_id \<Rightarrow> bool \<Rightarrow> int \<times> int option" where
  "et_system_getdebug e nn = (if nn then (ET_OK, Some (debug e)) else (ET_ERROR, None))"

definition et_system_getlocality :: "et_id \<Rightarrow> bool \<Rightarrow> int \<times> int option" where
  "et_system_getlocality e nn = (if nn then (ET_OK, Some (locality e)) else (ET_ERROR, None))"

definition et_system_getnumevents :: "et_id \<Rightarrow> bool \<Rightarrow> int \<times> int option" where
  "et_system_getnumevents e nn = (if nn then (ET_OK, Some (id_nevents e)) else (ET_ERROR, None))"

definition et_system_geteventsize :: "et_id \<Rightarrow> bool \<Rightarrow> int \<times> u64 option" where
  "et_system_geteventsize e nn = (if nn then (ET_OK, Some (esize e)) else (ET_ERROR, None))"

definition et_system_getserverport :: "et_id \<Rightarrow> bool \<Rightarrow> int \<times> int option" where
  "et_system_getserverport e nn = (if nn then (ET_OK, Some (id_port e)) else (ET_ERROR, None))"

definition et_system_gethost :: "et_id \<Rightarrow> bool \<Rightarrow> int \<times> string option" where
  "et_system_gethost e nn = (if nn then (ET_OK, Some (ethost e)) else (ET_ERROR, None))"

text \<open>The queries that go to the remote client when the system is not local.\<close>

definition system_get ::
  "et_id \<Rightarrow> int \<times> 'a option \<Rightarrow> bool \<Rightarrow> (et_system \<Rightarrow> 'a) \<Rightarrow> et_shm \<Rightarrow> int \<times> 'a option" where
  "system_get e etr nn f s =
    (if locality e \<noteq> ET_LOCAL then etr
     else if nn then (ET_OK, Some (f (sys s))) else (ET_ERROR, None))"

definition et_system_gettempsmax where
  "et_system_gettempsmax e etr nn s = system_get e etr nn (\<lambda>y. c_ntemps (sys_config y)) s"

definition et_system_getstationsmax where
  "et_system_getstationsmax e etr nn s = system_get e etr nn (\<lambda>y. c_nstations (sys_config y)) s"

definition et_system_getprocsmax where
  "et_system_getprocsmax e etr nn s = system_get e etr nn (\<lambda>y. c_nprocesses (sys_config y)) s"

definition et_system_getattsmax where
  "et_system_getattsmax e etr nn s = system_get e etr nn (\<lambda>y. c_nattachments (sys_config y)) s"

definition et_system_getheartbeat where
  "et_system_getheartbeat e etr nn s = system_get e etr nn (\<lambda>y. sint (heartbeat y)) s"

definition et_system_getpid where
  "et_system_getpid e etr nn s = system_get e etr nn mainpid s"

definition et_system_getprocs where
  "et_system_getprocs e etr nn s = system_get e etr nn nprocesses s"

definition et_system_getattachments where
  "et_system_getattachments e etr nn s = system_get e etr nn nattachments s"

definition et_system_getstations where
  "et_system_getstations e etr nn s = system_get e etr nn nstations s"

definition et_system_gettemps where
  "et_system_gettemps e etr nn s = system_get e etr nn ntemps s"

section \<open>What the setters keep\<close>

text \<open>
  A call of one of the setters, and a sequence of such calls whose results the caller ignores
  (\<open>None\<close> when one of them leaves its arrays).
\<close>

datatype setter = SetEvents int | SetSize u64 | SetTemps int | SetStations int | SetProcs int
  | SetAttachments int | SetPort int | SetServerport int | SetGroups "int list option" int
  | SetTcp int int int | AddMulticast "string option" | RemoveMulticast "string option"
  | SetFile "string option"

fun set_param :: "setter \<Rightarrow> et_sys_config \<Rightarrow> (int \<times> et_sys_config) option" where
  "set_param (SetEvents v) sc = Some (et_system_config_setevents sc v)"
| "set_param (SetSize w) sc = Some (et_system_config_setsize sc w)"
| "set_param (SetTemps v) sc = Some (et_system_config_settemps sc v)"
| "set_param (SetStations v) sc = Some (et_system_config_setstations sc v)"
| "set_param (SetProcs v) sc = Some (et_system_config_setprocs sc v)"
| "set_param (SetAttachments v) sc = Some (et_system_config_setattachments sc v)"
| "set_param (SetPort v) sc = Some (et_system_config_setport sc v)"
| "set_param (SetServerport v) sc = Some (et_system_config_setserverport sc v)"
| "set_param (SetGroups g n) sc = et_system_config_setgroups sc g n"
| "set_param (SetTcp r t d) sc = Some (et_system_config_settcp sc r t d)"
| "set_param (AddMulticast a) sc = et_system_config_addmulticast sc a"
| "set_param (RemoveMulticast a) sc = et_system_config_removemulticast sc a"
| "set_param (SetFile f) sc = Some (et_system_config_setfile sc f)"

fun set_params :: "setter list \<Rightarrow> et_sys_config \<Rightarrow> et_sys_config option" where
  "set_params [] sc = Some sc"
| "set_params (c # cs) sc = (case set_param c sc of None \<Rightarrow> None | Some (_, sc) \<Rightarrow> set_params cs sc)"

definition cfg_counts :: "et_sys_config \<Rightarrow> bool" where
  "cfg_counts sc \<longleftrightarrow> cfg_init sc = ET_STRUCT_OK \<and> 1 \<le> c_nevents sc \<and> 1 \<le> event_size sc \<and>
     1 \<le> c_ntemps sc \<and> 1 \<le> c_nstations sc \<and> 1 \<le> c_nprocesses sc \<and>
     c_nprocesses sc \<le> ET_PROCESSES_MAX \<and> 1 \<le> c_nattachments sc \<and>
     c_nattachments sc \<le> ET_ATTACHMENTS_MAX"

definition cfg_groups :: "et_sys_config \<Rightarrow> bool" where
  "cfg_groups sc \<longleftrightarrow> length (groups sc) = ET_EVENT_GROUPS_MAX \<and> 1 \<le> groupCount sc \<and>
     groupCount sc \<le> int ET_EVENT_GROUPS_MAX \<and>
     (1 < groupCount sc \<longrightarrow> (\<forall>g \<in> set (take (nat (groupCount sc)) (groups sc)). 1 \<le> g))"

definition cfg_texts :: "et_sys_config \<Rightarrow> bool" where
  "cfg_texts sc \<longleftrightarrow> length (c_filename sc) < ET_FILENAME_LENGTH \<and> distinct (mcastaddrs sc) \<and>
     length (mcastaddrs sc) \<le> ET_MAXADDRESSES \<and>
     (\<forall>a \<in> set (mcastaddrs sc). length a < ET_IPADDRSTRLEN)"

definition cfg_inv :: "et_sys_config \<Rightarrow> bool" where
  "cfg_inv sc \<longleftrightarrow> cfg_counts sc \<and> cfg_groups sc \<and> cfg_texts sc"

lemma drop_addr_remove1: "drop_addr v xs = remove1 v xs"
  by (induction xs) auto

lemma copy_groups_length: "copy_groups g i n gs = Some (b, gs') \<Longrightarrow> length gs' = length gs"
  by (induction g i n gs rule: copy_groups.induct) (auto split: if_splits)

lemma copy_groups_keeps_pos:
  assumes "copy_groups g i n gs = Some (b, gs')" "\<forall>x\<in>set (take k gs). 1 \<le> x"
  shows "\<forall>x\<in>set (take k gs'). 1 \<le> x"
  using assms
proof (induction g i n gs rule: copy_groups.induct)
  case (2 g i n gs)
  show ?case
  proof (cases "g ! i < 1")
    case False
    have "\<forall>x\<in>set (take k (gs[i := g ! i])). 1 \<le> x"
    proof
      fix x assume "x \<in> set (take k (gs[i := g ! i]))"
      then have "x \<in> set ((take k gs)[i := g ! i])" by (simp add: take_update_swap)
      with set_update_subset_insert have "x \<in> insert (g ! i) (set (take k gs))" by fast
      with 2(3) False show "1 \<le> x" by auto
    qed
    with 2(1,2) False show ?thesis by (simp split: if_splits)
  qed (use 2 in \<open>simp split: if_splits\<close>)
qed simp

lemma copy_groups_pos:
  "\<lbrakk>copy_groups g i n gs = Some (True, gs'); \<forall>x\<in>set (take i gs). 1 \<le> x\<rbrakk>
   \<Longrightarrow> \<forall>x\<in>set (take (i + n) gs'). 1 \<le> x"
proof (induction g i n gs rule: copy_groups.induct)
  case (2 g i n gs)
  have gi: "\<not> g ! i < 1" and c: "i < length g" using 2(2) by (auto split: if_splits)
  have "\<forall>x\<in>set (take (Suc i) (gs[i := g ! i])). 1 \<le> x"
    using 2(3) gi by (cases "i < length gs") (auto simp: take_Suc_conv_app_nth not_less list_update_beyond)
  with 2(1)[of] 2(2) gi c show ?case by simp
qed simp

text \<open>A valid array is stored as it is, in front of what was there.\<close>

lemma copy_groups_valid:
  "\<lbrakk>i + n \<le> length g; length g \<le> length gs; \<forall>x\<in>set g. 1 \<le> x; take i gs = take i g\<rbrakk>
   \<Longrightarrow> copy_groups g i n gs = Some (True, take (i + n) g @ drop (i + n) gs)"
proof (induction g i n gs rule: copy_groups.induct)
  case (1 g i gs)
  then show ?case by (simp, metis append_take_drop_id)
next
  case (2 g i n gs)
  have i: "i < length g" "i < length gs" using 2(2,3) by auto
  then have "\<not> g ! i < 1" using 2(4) by (simp add: not_less)
  moreover have "take (Suc i) (gs[i := g ! i]) = take (Suc i) g"
    using i 2(5) by (simp add: take_Suc_conv_app_nth)
  ultimately show ?case using 2 i by (simp add: drop_update_cancel)
qed

lemma zero_rest:
  "i \<le> length gs \<Longrightarrow> fold (\<lambda>i xs. xs[i := 0]) [i..<length gs] gs = take i gs @ replicate (length gs - i) 0"
proof (induction "length gs - i" arbitrary: i gs)
  case (Suc k)
  then have i: "i < length gs" by simp
  have "fold (\<lambda>i xs. xs[i := 0]) [Suc i..<length gs] (gs[i := 0])
      = take (Suc i) (gs[i := 0]) @ replicate (length gs - Suc i) 0"
    using Suc(1)[of "gs[i := 0]" "Suc i"] Suc(2) i by simp
  then show ?case using i
    by (simp add: upt_conv_Cons take_Suc_conv_app_nth Suc_diff_Suc replicate_Suc [symmetric] del: replicate_Suc)
qed simp

lemma setgroups_stores:
  assumes "cfg_init sc = ET_STRUCT_OK" "length (groups sc) = ET_EVENT_GROUPS_MAX"
    "2 \<le> length g" "length g \<le> ET_EVENT_GROUPS_MAX" "\<forall>x\<in>set g. 1 \<le> x"
  shows "et_system_config_setgroups sc (Some g) (int (length g)) = Some (ET_OK,
    sc\<lparr>groups := g @ replicate (ET_EVENT_GROUPS_MAX - length g) 0, groupCount := int (length g)\<rparr>)"
proof -
  have c: "copy_groups g 0 (length g) (groups sc) = Some (True, g @ drop (length g) (groups sc))"
    using copy_groups_valid[of 0 "length g" g "groups sc"] assms(2,4,5) by simp
  have "fold (\<lambda>i xs. xs[i := 0]) [length g..<ET_EVENT_GROUPS_MAX] (g @ drop (length g) (groups sc))
      = g @ replicate (ET_EVENT_GROUPS_MAX - length g) 0"
    using zero_rest[of "length g" "g @ drop (length g) (groups sc)"] assms(2,4) by simp
  with c show ?thesis using assms(1,3,4) unfolding et_system_config_setgroups_def by auto
qed

lemma u64_ge_1: "(1 \<le> (w::u64)) = (w \<noteq> 0)"
  by (simp add: word_le_nat_alt Suc_le_eq unat_gt_0)

lemma cfg_inv_upd [simp]:
  "cfg_groups (sc\<lparr>event_size := w\<rparr>) = cfg_groups sc" "cfg_texts (sc\<lparr>event_size := w\<rparr>) = cfg_texts sc"
  "cfg_groups (sc\<lparr>c_nevents := v\<rparr>) = cfg_groups sc" "cfg_texts (sc\<lparr>c_nevents := v\<rparr>) = cfg_texts sc"
  "cfg_groups (sc\<lparr>c_ntemps := v\<rparr>) = cfg_groups sc" "cfg_texts (sc\<lparr>c_ntemps := v\<rparr>) = cfg_texts sc"
  "cfg_groups (sc\<lparr>c_nstations := v\<rparr>) = cfg_groups sc" "cfg_texts (sc\<lparr>c_nstations := v\<rparr>) = cfg_texts sc"
  "cfg_groups (sc\<lparr>c_nprocesses := v\<rparr>) = cfg_groups sc" "cfg_texts (sc\<lparr>c_nprocesses := v\<rparr>) = cfg_texts sc"
  "cfg_groups (sc\<lparr>c_nattachments := v\<rparr>) = cfg_groups sc" "cfg_texts (sc\<lparr>c_nattachments := v\<rparr>) = cfg_texts sc"
  "cfg_inv (sc\<lparr>c_port := v\<rparr>) = cfg_inv sc" "cfg_inv (sc\<lparr>c_serverport := v\<rparr>) = cfg_inv sc"
  "cfg_inv (sc\<lparr>tcpRecvBufSize := a, tcpSendBufSize := b, tcpNoDelay := d\<rparr>) = cfg_inv sc"
  "cfg_counts (sc\<lparr>groups := gs\<rparr>) = cfg_counts sc" "cfg_texts (sc\<lparr>groups := gs\<rparr>) = cfg_texts sc"
  "cfg_counts (sc\<lparr>groupCount := v\<rparr>) = cfg_counts sc" "cfg_texts (sc\<lparr>groupCount := v\<rparr>) = cfg_texts sc"
  "cfg_counts (sc\<lparr>mcastaddrs := ms\<rparr>) = cfg_counts sc" "cfg_groups (sc\<lparr>mcastaddrs := ms\<rparr>) = cfg_groups sc"
  "cfg_counts (sc\<lparr>c_filename := t\<rparr>) = cfg_counts sc" "cfg_groups (sc\<lparr>c_filename := t\<rparr>) = cfg_groups sc"
  by (simp_all add: cfg_counts_def cfg_groups_def cfg_texts_def cfg_inv_def)

text \<open>Simple setters.\<close>

lemma cfg_inv_counts:
  assumes "cfg_inv sc"
  shows "cfg_inv (snd (et_system_config_setsize sc w))" "cfg_inv (snd (et_system_config_settemps sc v))"
    "cfg_inv (snd (et_system_config_setstations sc v))" "cfg_inv (snd (et_system_config_setprocs sc v))"
    "cfg_inv (snd (et_system_config_setattachments sc v))" "cfg_inv (snd (et_system_config_setport sc v))"
    "cfg_inv (snd (et_system_config_setserverport sc v))" "cfg_inv (snd (et_system_config_settcp sc a b d))"
  using assms
  by (simp_all add: et_system_config_setsize_def et_system_config_settemps_def
      et_system_config_setstations_def et_system_config_setprocs_def et_system_config_setattachments_def
      et_system_config_setport_def et_system_config_setserverport_def et_system_config_settcp_def
      cfg_inv_def [of "_\<lparr>event_size := _\<rparr>"] cfg_inv_def [of "_\<lparr>c_ntemps := _\<rparr>"]
      cfg_inv_def [of "_\<lparr>c_nstations := _\<rparr>"] cfg_inv_def [of "_\<lparr>c_nprocesses := _\<rparr>"]
      cfg_inv_def [of "_\<lparr>c_nattachments := _\<rparr>"] cfg_counts_def not_less)
     (auto simp: cfg_inv_def cfg_counts_def u64_ge_1)

lemma cfg_inv_setevents: "cfg_inv sc \<Longrightarrow> cfg_inv (snd (et_system_config_setevents sc v))"
proof -
  assume *: "cfg_inv sc"
  have g: "cfg_groups (sc\<lparr>c_nevents := v, groups := (groups sc)[0 := v]\<rparr>)" if "groupCount sc = 1"
    using * that by (simp add: cfg_inv_def cfg_groups_def)
  show ?thesis using * g
    by (simp add: et_system_config_setevents_def Let_def cfg_inv_def [of sc] not_less)
       (simp add: cfg_inv_def cfg_counts_def)
qed

lemma cfg_inv_setgroups:
  assumes "cfg_inv sc" "et_system_config_setgroups sc gr n = Some (r, sc')"
  shows "cfg_inv sc'"
proof -
  have inv: "cfg_counts sc" "cfg_texts sc" "length (groups sc) = ET_EVENT_GROUPS_MAX"
    "1 \<le> groupCount sc" "groupCount sc \<le> int ET_EVENT_GROUPS_MAX"
    "1 < groupCount sc \<Longrightarrow> \<forall>x \<in> set (take (nat (groupCount sc)) (groups sc)). 1 \<le> x"
    using assms(1) by (auto simp: cfg_inv_def cfg_groups_def)
  show ?thesis
  proof (cases "cfg_init sc \<noteq> ET_STRUCT_OK \<or> n = 1 \<or> gr = None \<or> n > int ET_EVENT_GROUPS_MAX \<or> n < 1")
    case True
    have "sc' = sc \<or> sc' = sc\<lparr>groups := replicate ET_EVENT_GROUPS_MAX 0, groupCount := 1\<rparr>"
    proof (cases "cfg_init sc \<noteq> ET_STRUCT_OK \<or> n = 1")
      case True
      with assms(2) show ?thesis by (simp add: et_system_config_setgroups_def split: if_splits)
    next
      case False
      with assms(2) True show ?thesis
        by (cases gr) (simp_all add: et_system_config_setgroups_def)
    qed
    then show ?thesis
    proof
      assume "sc' = sc\<lparr>groups := replicate ET_EVENT_GROUPS_MAX 0, groupCount := 1\<rparr>"
      then show ?thesis using inv(1,2) by (simp add: cfg_inv_def cfg_groups_def)
    qed (use assms(1) in simp)
  next
    case False
    then obtain g b gs where g: "gr = Some g" "copy_groups g 0 (nat n) (groups sc) = Some (b, gs)"
      and sc': "sc' = (if b then sc\<lparr>groups := fold (\<lambda>i xs. xs[i := 0]) [nat n..<ET_EVENT_GROUPS_MAX] gs,
            groupCount := n\<rparr> else sc\<lparr>groups := gs\<rparr>)"
    proof -
      from False obtain g where g: "gr = Some g" by auto
      have c: "do { (good, gs) \<leftarrow> copy_groups g 0 (nat n) (groups sc);
           if \<not> good then Some (ET_ERROR, sc\<lparr>groups := gs\<rparr>)
           else Some (ET_OK, sc\<lparr>
             groups := fold (\<lambda>i xs. xs[i := 0]) [nat n..<ET_EVENT_GROUPS_MAX] gs,
             groupCount := n\<rparr>) } = Some (r, sc')"
        using assms(2) False unfolding et_system_config_setgroups_def g by simp
      show ?thesis
      proof (cases "copy_groups g 0 (nat n) (groups sc)")
        case (Some x)
        then show ?thesis using c that[OF g, of "fst x" "snd x"] by (cases x) (simp split: if_splits)
      qed (use c in simp)
    qed
    have n: "nat n \<le> ET_EVENT_GROUPS_MAX" "1 < n" using False by linarith+
    have len: "length gs = ET_EVENT_GROUPS_MAX" using copy_groups_length[OF g(2)] inv(3) by simp
    show ?thesis
    proof (cases b)
      case True
      have "fold (\<lambda>i xs. xs[i := 0]) [nat n..<ET_EVENT_GROUPS_MAX] gs = take (nat n) gs @ replicate (ET_EVENT_GROUPS_MAX - nat n) 0"
        using zero_rest[of "nat n" gs] len n by simp
      moreover have "\<forall>x\<in>set (take (nat n) gs). 1 \<le> x"
        using copy_groups_pos[of g 0 "nat n" "groups sc"] g(2) True by simp
      ultimately show ?thesis using sc' True inv(1,2) len n by (simp add: cfg_inv_def cfg_groups_def)
    next
      case False
      then show ?thesis using sc' inv(1,2,4,5,6) len copy_groups_keeps_pos[OF g(2), of "nat (groupCount sc)"]
        by (simp add: cfg_inv_def cfg_groups_def)
    qed
  qed
qed

lemma cfg_inv_multicast:
  "\<lbrakk>cfg_inv sc; et_system_config_addmulticast sc a = Some (r, sc')\<rbrakk> \<Longrightarrow> cfg_inv sc'"
  "\<lbrakk>cfg_inv sc; et_system_config_removemulticast sc a = Some (r, sc')\<rbrakk> \<Longrightarrow> cfg_inv sc'"
  by (auto simp: et_system_config_addmulticast_def et_system_config_removemulticast_def cfg_inv_def
      cfg_texts_def drop_addr_remove1 bind_eq_Some_conv length_remove1
      dest: notin_set_remove1 split: option.splits if_splits)

lemma cfg_inv_setfile: "cfg_inv sc \<Longrightarrow> cfg_inv (snd (et_system_config_setfile sc f))"
  by (auto simp: et_system_config_setfile_def cfg_inv_def cfg_texts_def split: option.splits)

lemma cfg_inv_set_param:
  assumes inv: "cfg_inv sc" and call: "set_param c sc = Some (r, sc')"
  shows "cfg_inv sc'"
proof (cases "(\<exists>g n. c = SetGroups g n) \<or> (\<exists>a. c = AddMulticast a) \<or> (\<exists>a. c = RemoveMulticast a)")
  case True
  then show ?thesis using call cfg_inv_setgroups[OF inv] cfg_inv_multicast[OF inv] by fastforce
next
  case False
  have "sc' = snd (the (set_param c sc))" using call by simp
  then show ?thesis using False by (cases c) (simp_all add: inv cfg_inv_counts cfg_inv_setevents cfg_inv_setfile)
qed

lemma cfg_inv_set_params: "\<lbrakk>cfg_inv sc; set_params cs sc = Some sc'\<rbrakk> \<Longrightarrow> cfg_inv sc'"
  by (induction cs sc rule: set_params.induct) (auto dest: cfg_inv_set_param split: option.splits)

lemma cfg_inv_init: "et_system_config_init mem n ni = (ET_OK, Some sc) \<Longrightarrow> cfg_inv sc"
  by (auto simp: et_system_config_init_def cfg_inv_def cfg_counts_def cfg_groups_def cfg_texts_def u64_ge_1
      split: if_splits)

text \<open>Of the tests of the check, only two can fail on a configuration the setters produced.\<close>

lemma check_of_inv:
  assumes "cfg_inv sc"
  shows "et_system_config_check sc =
    Some (if sum_list (take (nat (groupCount sc)) (groups sc)) = c_nevents sc \<and> c_ntemps sc \<le> c_nevents sc
          then ET_OK else ET_ERROR, sc)"
  using assms
  by (auto simp: et_system_config_check_def cfg_inv_def cfg_counts_def cfg_groups_def cfg_texts_def u64_ge_1 not_less)

text \<open>What a configuration that passes satisfies, whatever produced it.\<close>

lemma check_ok:
  assumes "et_system_config_check sc = Some (ET_OK, sc')"
  shows "sc' = sc\<lparr>c_filename := take (ET_FILENAME_LENGTH - 1) (c_filename sc)\<rparr>" "1 \<le> c_nevents sc"
    "groupCount sc \<le> int (length (groups sc))"
    "sum_list (take (nat (groupCount sc)) (groups sc)) = c_nevents sc" "1 \<le> c_ntemps sc"
    "c_ntemps sc \<le> c_nevents sc" "1 \<le> c_nstations sc" "1 \<le> c_nattachments sc"
    "c_nattachments sc \<le> ET_ATTACHMENTS_MAX" "1 \<le> c_nprocesses sc" "c_nprocesses sc \<le> ET_PROCESSES_MAX"
  using assms by (simp_all add: et_system_config_check_def split: if_splits)

end
