(* ===== verification/EtStart.thy ===== *)
theory EtStart imports EtSysConfig EtAttachInv EtSystem begin

text \<open>
  The start of a new ET system (\<^verbatim>\<open>et_system.c\<close>): \<^verbatim>\<open>et_system_start\<close> up to the creation of its
  threads, with \<^verbatim>\<open>et_init_mem_sys\<close>, \<^verbatim>\<open>et_init_mem_station\<close>, \<^verbatim>\<open>et_init_mem_event\<close> and
  \<^verbatim>\<open>et_grandcentral_station_create\<close>, and the beat of \<^verbatim>\<open>et_sys_heartbeat\<close>. The theory starts from
  the memory of a new file, all zero (\<open>new_mem\<close>), and ends in the state that the theory
  \<^verbatim>\<open>EtSystem\<close> keeps: the lemmas show that a configuration that passes the check gives a \<open>sane\<close>
  system in which GRAND\_CENTRAL holds every event and each group has the size asked for.
\<close>

section \<open>A new file's memory\<close>

definition zero_list :: et_list where
  "zero_list = \<lparr>cnt = 0, lasthigh = 0, events_try = 0, events_in = 0, events_out = 0,
     firstevent = None, lastevent = None, mutex = False, cread = 0\<rparr>"

definition zero_station :: et_station where
  "zero_station = \<lparr>num = 0, conductor = 0, st_next = 0, st_prev = 0, nextparallel = 0, prevparallel = 0,
     waslast = 0, name = [], st_mutex = False,
     fixin = \<lparr>fin_first = None, fin_eventsin = 0, fin_start = 0, fin_cnt = 0, fin_num = 0, fin_call = 0\<rparr>,
     fixout = \<lparr>fout_start = 0, fout_cnt = 0, fout_num = 0\<rparr>,
     st_data = \<lparr>status = 0, pid_create = 0, st_nattachments = 0, st_att = (\<lambda>_. 0), lib_handle = False, func = NoFunc\<rparr>,
     config = \<lparr>sc_init = 0, flow_mode = 0, user_mode = 0, restore_mode = 0, block_mode = 0, prescale = 0,
       cue = 0, select_mode = 0, sc_select = replicate ET_STATION_SELECT_INTS 0, fname = [], sc_lib = [], classs = []\<rparr>,
     list_in = zero_list, list_out = zero_list\<rparr>"

definition zero_event :: et_event where
  "zero_event = \<lparr>ev_next = None, tempdata = 0, pdata = 0, data = 0, ev_length = 0, memsize = 0, pointer = 0,
     modify = 0, priority = 0, owner = 0, temp = 0, age = 0, datastatus = 0, byteorder = 0, ev_group = 0,
     ev_place = 0, control = replicate ET_STATION_SELECT_INTS 0, ev_filename = []\<rparr>"

definition zero_config :: et_sys_config where
  "zero_config = \<lparr>event_size = 0, cfg_init = 0, c_nevents = 0, c_ntemps = 0, c_nstations = 0, c_nprocesses = 0,
     c_nattachments = 0, groupCount = 0, groups = replicate ET_EVENT_GROUPS_MAX 0, c_filename = [], c_port = 0,
     c_serverport = 0, tcpSendBufSize = 0, tcpRecvBufSize = 0, tcpNoDelay = 0, mcastaddrs = [], netinfo = []\<rparr>"

definition new_mem :: et_shm where
  "new_mem = \<lparr>sys = \<lparr>asthread = 0, heartbeat = 0, sys_port = 0, mainpid = 0, statadd_mutex = False, sys_host = [],
       nstations = 0, ntemps = 0, nprocesses = 0, nattachments = 0, stat_head = 0, stat_tail = 0,
       sys_mutex = False, stat_mutex = False, statadd = 0,
       proc = (\<lambda>_. \<lparr>pr_num = 0, pr_att = (\<lambda>_. 0), pr_nattachments = 0, pr_status = 0, et_status = 0,
         pr_heartbeat = 0, pr_pid = 0\<rparr>),
       attach = (\<lambda>_. \<lparr>at_num = 0, at_proc = 0, at_stat = 0, at_status = 0, blocked = 0, quit = 0, sleep = 0,
         events_put = 0, events_get = 0, events_dump = 0, events_make = 0, at_pid = 0, host = [], interface = []\<rparr>),
       sys_config = zero_config, sys_version = 0, sys_nselects = 0, sys_bit64 = 0\<rparr>,
     stats = (\<lambda>_. zero_station), events = (\<lambda>_. zero_event), histogram = (\<lambda>_. 0)\<rparr>"

section \<open>Initialising the parts of shared memory\<close>

text \<open>
  \<^verbatim>\<open>pthread_mutex_init\<close> leaves a mutex free and \<^verbatim>\<open>pthread_cond_init\<close> a condition variable without
  signals. The program ends when the name of the host cannot be found.
\<close>

definition et_init_mem_sys :: "et_id \<Rightarrow> et_sys_config \<Rightarrow> et_shm \<Rightarrow> et_shm option" where
  "et_init_mem_sys e sc s = do {
     let s = upd_sys (\<lambda>y. y\<lparr>sys_mutex := False, stat_mutex := False, statadd_mutex := False, statadd := 0,
               sys_version := ET_VERSION, sys_nselects := int ET_STATION_SELECT_INTS,
               asthread := ET_THREAD_KEEP, sys_bit64 := 1, heartbeat := 0, mainpid := env_pid e, nstations := 0, ntemps := 0,
               nprocesses := 0, nattachments := 0, sys_port := 0\<rparr>) s;
     h \<leftarrow> env_host e;
     let s = upd_sys (\<lambda>y. y\<lparr>sys_host := h, stat_head := ET_GRANDCENTRAL, stat_tail := ET_GRANDCENTRAL\<rparr>) s;
     let s = fold et_init_process [0..<nat ET_PROCESSES_MAX] s;
     let s = fold et_init_attachment [0..<nat ET_ATTACHMENTS_MAX] s;
     Some (upd_sys (\<lambda>y. y\<lparr>sys_config := sc\<rparr>) s) }"

definition fresh_station :: "et_station \<Rightarrow> et_station" where
  "fresh_station ps =
     (let ps = ps\<lparr>list_in := (list_in ps)\<lparr>mutex := False, cread := 0\<rparr>,
                  list_out := (list_out ps)\<lparr>mutex := False, cread := 0\<rparr>\<rparr>
      in (et_init_station ps)\<lparr>st_mutex := False\<rparr>)"

definition et_init_mem_station :: "et_shm \<Rightarrow> et_shm" where
  "et_init_mem_station s =
     fold (\<lambda>i. upd_station i fresh_station) [0..<nat (c_nstations (sys_config (sys s)))] s"

text \<open>
  \<^verbatim>\<open>sprintf\<close> of the name of an event's file: the number in decimal; \<^verbatim>\<open>ET_TEMPNAME_LENGTH\<close> characters
  have to hold it with the terminating zero.
\<close>

fun dec :: "nat \<Rightarrow> string" where
  "dec n = (if n < 10 then [char_of (48 + n)] else dec (n div 10) @ [char_of (48 + n mod 10)])"

abbreviation (input) ET_TEMPNAME_LENGTH :: nat where "ET_TEMPNAME_LENGTH \<equiv> 112"

definition init_event_at :: "string \<Rightarrow> u64 \<Rightarrow> u64 \<Rightarrow> nat \<Rightarrow> heap \<Rightarrow> heap option" where
  "init_event_at fn base sz i h =
    (let nm = fn @ ''_temp'' @ dec i in
     if length nm \<ge> ET_TEMPNAME_LENGTH then None
     else Some (h(i := (et_init_event (h i))\<lparr>ev_filename := nm, data := base + of_nat i * sz,
                                             ev_place := int i\<rparr>)))"

fun init_events :: "string \<Rightarrow> u64 \<Rightarrow> u64 \<Rightarrow> nat list \<Rightarrow> heap \<Rightarrow> heap option" where
  "init_events fn base sz [] h = Some h"
| "init_events fn base sz (i # is) h = do {
     h \<leftarrow> init_event_at fn base sz i h;
     init_events fn base sz is h }"

definition et_init_mem_event :: "et_id \<Rightarrow> et_shm \<Rightarrow> et_shm option" where
  "et_init_mem_event e s = do {
     let sc = sys_config (sys s);
     h \<leftarrow> init_events (c_filename sc) (id_data e) (event_size sc) [0..<nat (c_nevents sc)] (events s);
     Some (s\<lparr>events := h\<rparr>) }"

section \<open>Creating GRAND\_CENTRAL\<close>

text \<open>
  The loop that gives each event its group and puts it into GRAND\_CENTRAL's input list; \<open>left\<close> is
  what is left of the group. The boolean says that all events could be written.
\<close>

fun fill_gc :: "int \<Rightarrow> int list \<Rightarrow> nat list \<Rightarrow> nat \<Rightarrow> int \<Rightarrow> heap \<times> et_list \<Rightarrow> (bool \<times> heap \<times> et_list) option" where
  "fill_gc nmax gs [] index left hl = Some (True, hl)"
| "fill_gc nmax gs (p # ps) index left hl = do {
     (index, left) \<leftarrow> (if left = 0 then (if index < length gs then Some (Suc index, gs ! index) else None)
                       else Some (index, left));
     let hl = ((fst hl)(p := (fst hl p)\<lparr>ev_group := int index\<rparr>), snd hl);
     (st, hl) \<leftarrow> et_llist_write_gc nmax [p] hl;
     if st \<noteq> ET_OK then Some (False, hl) else fill_gc nmax gs ps index (left - 1) hl }"

definition gc_config :: "et_stat_config \<Rightarrow> et_stat_config" where
  "gc_config sc =
    (let sc = snd (et_station_config_setuser sc ET_STATION_USER_MULTI);
         sc = snd (et_station_config_setrestore sc ET_STATION_RESTORE_GC);
         sc = snd (et_station_config_setselect sc ET_STATION_SELECT_ALL);
         sc = snd (et_station_config_setblock sc ET_STATION_BLOCKING)
     in snd (et_station_config_setprescale sc 1))"

definition et_grandcentral_station_create ::
  "et_id \<Rightarrow> (int \<times> int option) op \<Rightarrow> (et_shm \<Rightarrow> et_shm) \<Rightarrow> et_shm \<Rightarrow> (int \<times> et_shm) option" where
  "et_grandcentral_station_create e etr others s = do {
     sc \<leftarrow> snd (et_station_config_init (env_calloc e 0));
     ((status, _), s) \<leftarrow> et_station_create e etr others (Some ''GRAND_CENTRAL'') (Some (gc_config sc)) s;
     if status \<noteq> ET_OK then Some (ET_ERROR, s)
     else do {
       (good, h, pl) \<leftarrow> fill_gc (nevents_max s) (groups (sys_config (sys s))) [0..<nat (nevents_max s)] 0 0
                        (events s, list_in (stats s 0));
       let s = upd_station 0 (\<lambda>ps. ps\<lparr>list_in := pl\<rparr>) (s\<lparr>events := h\<rparr>);
       if \<not> good then Some (ET_ERROR, s)
       else Some (ET_OK, upd_station 0 et_init_stats_station s) } }"

section \<open>The start\<close>

definition start_new ::
  "et_id \<Rightarrow> (int \<times> int option) op \<Rightarrow> (et_shm \<Rightarrow> et_shm) \<Rightarrow> et_sys_config \<Rightarrow> (int \<times> et_shm) option" where
  "start_new e etr others sc = do {
     s \<leftarrow> et_init_mem_sys e sc new_mem;
     let s = et_init_histogram e (et_init_mem_station s);
     s \<leftarrow> et_init_mem_event e s;
     (st, s) \<leftarrow> et_grandcentral_station_create e etr others s;
     if st < 0 then Some (ET_ERROR, s) else Some (ET_OK, s) }"

text \<open>\<^verbatim>\<open>et_system_start\<close> when no file of the system exists, up to the start of its threads.\<close>

definition et_system_start ::
  "et_id \<Rightarrow> (int \<times> int option) op \<Rightarrow> (et_shm \<Rightarrow> et_shm) \<Rightarrow> et_sys_config \<Rightarrow>
   (int \<times> et_id \<times> et_shm option) option" where
  "et_system_start e etr others sc = do {
     let e = e\<lparr>id_nevents := c_nevents sc, esize := event_size sc, debug := ET_DEBUG_ERROR\<rparr>;
     (st, sc) \<leftarrow> et_system_config_check sc;
     if st \<noteq> ET_OK then Some (ET_ERROR, e, None)
     else do {
       (st, s) \<leftarrow> start_new e etr others sc;
       Some (st, e, if st = ET_OK then Some s else None) } }"

definition beat :: "i32 \<Rightarrow> i32" where
  "beat h = (h + 1) mod 4294967295"

definition et_sys_heartbeat :: "et_shm \<Rightarrow> et_shm" where
  "et_sys_heartbeat = upd_sys (\<lambda>y. y\<lparr>heartbeat := beat (heartbeat y)\<rparr>)"

section \<open>Filling GRAND\_CENTRAL\<close>

text \<open>The group numbers of the events in order: as many of each as the group has, counted from 1.\<close>

fun group_plan :: "nat \<Rightarrow> int list \<Rightarrow> int list" where
  "group_plan i [] = []"
| "group_plan i (g # gs) = replicate (nat g) (int (Suc i)) @ group_plan (Suc i) gs"

lemma core_of_upd:
  "core a = core b \<Longrightarrow> priority a = priority b" "core a = core b \<Longrightarrow> ev_group a = ev_group b"
  "core a = core b \<Longrightarrow> ev_place a = ev_place b" "core a = core b \<Longrightarrow> temp a = temp b"
  by (cases a; cases b; simp add: core_def)+

lemma drop_cons: "drop i xs = y # ys \<Longrightarrow> i < length xs \<and> xs ! i = y \<and> drop (Suc i) xs = ys"
  by (cases "i < length xs") (auto simp: Cons_nth_drop_Suc [symmetric])

lemma fill_gc_ok:
  assumes "list_repr h pl xs" "distinct (xs @ ps)" "int (length xs) + int (length ps) \<le> nmax" "0 \<le> left"
    "drop index gs = us @ vs" "\<forall>u\<in>set us. 1 \<le> u" "int (length ps) \<le> left + sum_list us"
  shows "\<exists>h' pl'. fill_gc nmax gs ps index left (h, pl) = Some (True, h', pl') \<and>
    list_repr h' pl' (xs @ ps) \<and>
    map (\<lambda>p. ev_group (h' p)) ps = take (length ps) (replicate (nat left) (int index) @ group_plan index us) \<and>
    (\<forall>p. p \<notin> set ps \<longrightarrow> ev_group (h' p) = ev_group (h p)) \<and>
    (\<forall>p. owner (h' p) = owner (h p) \<and> priority (h' p) = priority (h p) \<and> ev_place (h' p) = ev_place (h p)) \<and>
    mutex pl' = mutex pl \<and> lasthigh pl' = lasthigh pl \<and> cread pl' = cread pl"
  using assms
proof (induction ps arbitrary: h pl xs index left us)
  case (Cons p ps)
  obtain i' l' us' where nxt: "(if left = 0 then (if index < length gs then Some (Suc index, gs ! index) else None)
      else Some (index, left)) = Some (i', l')"
    and l': "1 \<le> l'" "drop i' gs = us' @ vs" "\<forall>u\<in>set us'. 1 \<le> u" "int (length (p # ps)) \<le> l' + sum_list us'"
    and plan: "replicate (nat left) (int index) @ group_plan index us
             = replicate (nat l') (int i') @ group_plan i' us'"
  proof (cases "left = 0")
    case True
    then obtain u us' where us: "us = u # us'" using Cons.prems(7) by (cases us) auto
    have ix: "index < length gs" "gs ! index = u" "drop (Suc index) gs = us' @ vs"
      using drop_cons[of index gs u "us' @ vs"] Cons.prems(5) us by auto
    show ?thesis by (rule that[of "Suc index" u us']) (use True us ix Cons.prems(6,7) in auto)
  next
    case False
    then show ?thesis using that[of index left us] Cons.prems(4-7) by auto
  qed
  define h1 where "h1 = h(p := (h p)\<lparr>ev_group := int i'\<rparr>)"
  have r1: "list_repr h1 pl xs" using Cons.prems(1)
    by (auto simp: list_repr_def h1_def intro: linked_cong)
  obtain h2 pl2 where w: "et_llist_write_gc nmax [p] (h1, pl) = Some (ET_OK, h2, pl2)"
    and r2: "list_repr h2 pl2 (xs @ [p])" and se: "same_events h1 h2 (set xs \<union> {p})"
    and ow: "\<forall>r. owner (h2 r) = owner (h1 r)" and fl: "mutex pl2 = mutex pl" "cread pl2 = cread pl"
    using et_llist_write_gc_ok[OF r1, of "[p]" nmax] Cons.prems(2,3) by auto
  have lh: "lasthigh pl2 = lasthigh pl" using w
    by (auto simp: et_llist_write_gc_def split: if_splits Option.bind_splits)
  have fields: "priority (h2 r) = priority (h r)" "ev_place (h2 r) = ev_place (h r)" "owner (h2 r) = owner (h r)"
    "ev_group (h2 r) = (if r = p then int i' else ev_group (h r))" for r
    using se ow core_of_upd[of "h2 r" "h1 r"] by (auto simp: same_events_def h1_def)
  obtain h' pl' where ih: "fill_gc nmax gs ps i' (l' - 1) (h2, pl2) = Some (True, h', pl')"
    "list_repr h' pl' ((xs @ [p]) @ ps)"
    "map (\<lambda>p. ev_group (h' p)) ps = take (length ps) (replicate (nat (l' - 1)) (int i') @ group_plan i' us')"
    "\<forall>q. q \<notin> set ps \<longrightarrow> ev_group (h' q) = ev_group (h2 q)"
    "\<forall>q. owner (h' q) = owner (h2 q) \<and> priority (h' q) = priority (h2 q) \<and> ev_place (h' q) = ev_place (h2 q)"
    "mutex pl' = mutex pl2 \<and> lasthigh pl' = lasthigh pl2 \<and> cread pl' = cread pl2"
    using Cons.IH[OF r2, of "l' - 1" i' us'] Cons.prems(2,3) l' by auto
  have "p \<notin> set ps" using Cons.prems(2) by simp
  then have "map (\<lambda>p. ev_group (h' p)) (p # ps)
    = take (length (p # ps)) (replicate (nat left) (int index) @ group_plan index us)"
    using ih(3,4) l'(1) fields(4)[of p] unfolding plan
    by (cases "nat l'") (auto simp: nat_diff_distrib)
  moreover have "fill_gc nmax gs (p # ps) index left (h, pl) = Some (True, h', pl')"
    using nxt w ih(1) by (simp add: h1_def)
  ultimately show ?case using ih fields fl lh by (intro exI[of _ h'] exI[of _ pl']) auto
qed (auto simp: take_0)

section \<open>The initial state\<close>

lemma fold_init_process:
  "fold et_init_process ns s = upd_sys (\<lambda>y. y\<lparr>proc := proc (sys (fold et_init_process ns s))\<rparr>) s"
proof (induction ns arbitrary: s)
  case (Cons n ns)
  show ?case by (subst fold.simps, simp, subst Cons)
    (simp add: et_init_process_def upd_sys_def)
qed (simp add: upd_sys_def)

lemma fold_init_attachment:
  "fold et_init_attachment ns s = upd_sys (\<lambda>y. y\<lparr>attach := attach (sys (fold et_init_attachment ns s))\<rparr>) s"
  "attach (sys (fold et_init_attachment ns s)) n = (if n \<in> set ns
     then attach (sys (et_init_attachment n s)) n else attach (sys s) n)"
proof (induction ns arbitrary: s)
  case (Cons m ns)
  {
    case 1
    show ?case by (subst fold.simps, simp, subst Cons(1))
      (simp add: et_init_attachment_def upd_attach_def upd_sys_def)
  next
    case 2
    show ?case using Cons(2)[of "et_init_attachment m s"] by (auto simp: et_init_attachment_def)
  }
qed (simp_all add: upd_sys_def)

lemma mem_sys_ok:
  assumes "env_host e = Some hn"
  shows "\<exists>y. et_init_mem_sys e sc new_mem = Some (new_mem\<lparr>sys := y\<rparr>) \<and> sys_config y = sc \<and>
    nstations y = 0 \<and> nattachments y = 0 \<and> \<not> sys_mutex y \<and> \<not> stat_mutex y \<and> heartbeat y = 0 \<and>
    stat_head y = 0 \<and> stat_tail y = 0 \<and> ntemps y = 0 \<and> nprocesses y = 0 \<and>
    (\<forall>a. at_stat (attach y a) \<le> 0) \<and> (\<forall>a. int a < ET_ATTACHMENTS_MAX \<longrightarrow> at_num (attach y a) = - 1)"
proof -
  define s1 where "s1 = upd_sys (\<lambda>y. y\<lparr>sys_host := hn, stat_head := ET_GRANDCENTRAL, stat_tail := ET_GRANDCENTRAL\<rparr>)
    (upd_sys (\<lambda>y. y\<lparr>sys_mutex := False, stat_mutex := False, statadd_mutex := False, statadd := 0,
               sys_version := ET_VERSION, sys_nselects := int ET_STATION_SELECT_INTS,
               asthread := ET_THREAD_KEEP, sys_bit64 := 1, heartbeat := 0, mainpid := env_pid e, nstations := 0, ntemps := 0,
               nprocesses := 0, nattachments := 0, sys_port := 0\<rparr>) new_mem)"
  define pr where "pr = proc (sys (fold et_init_process [0..<nat ET_PROCESSES_MAX] s1))"
  define s2 where "s2 = upd_sys (\<lambda>y. y\<lparr>proc := pr\<rparr>) s1"
  define at where "at = attach (sys (fold et_init_attachment [0..<nat ET_ATTACHMENTS_MAX] s2))"
  have 1: "et_init_mem_sys e sc new_mem = Some (upd_sys (\<lambda>y. y\<lparr>sys_config := sc\<rparr>)
      (upd_sys (\<lambda>y. y\<lparr>attach := at\<rparr>) s2))"
  proof -
    have p: "fold et_init_process [0..<nat ET_PROCESSES_MAX] s1 = s2"
      unfolding s2_def pr_def by (rule fold_init_process)
    have q: "fold et_init_attachment [0..<nat ET_ATTACHMENTS_MAX] s2 = upd_sys (\<lambda>y. y\<lparr>attach := at\<rparr>) s2"
      unfolding at_def by (rule fold_init_attachment(1))
    show ?thesis unfolding et_init_mem_sys_def Let_def assms bind.bind_lunit
      by (simp only: s1_def [symmetric] p q option.simps Option.bind.simps)
  qed
  have "attach (sys s2) = attach (sys new_mem)" by (simp add: s2_def s1_def)
  then have 2: "at_stat (at a) \<le> 0" "int a < ET_ATTACHMENTS_MAX \<Longrightarrow> at_num (at a) = - 1" for a
    unfolding at_def fold_init_attachment(2) by (auto simp: et_init_attachment_def new_mem_def)
  show ?thesis unfolding 1 using 2 by (auto simp: upd_sys_def s2_def s1_def new_mem_def intro!: exI)
qed

declare dec.simps [simp del]

lemma dec_length: "n < 10 ^ k \<Longrightarrow> 0 < k \<Longrightarrow> length (dec n) \<le> k"
proof (induction k arbitrary: n)
  case (Suc k)
  show ?case
  proof (cases "n < 10")
    case False
    then have "0 < k" using Suc.prems(1) by (cases k) auto
    moreover have "n div 10 < 10 ^ k" using Suc.prems(1) by (simp add: div_less_iff_less_mult mult.commute)
    ultimately have "0 < k" "n div 10 < 10 ^ k" .
    then show ?thesis using Suc.IH[of "n div 10"] False by (subst dec.simps) simp
  qed (subst dec.simps, simp)
qed simp

text \<open>The header of an event of a new system.\<close>

definition fresh_event :: "string \<Rightarrow> u64 \<Rightarrow> u64 \<Rightarrow> nat \<Rightarrow> et_event \<Rightarrow> et_event" where
  "fresh_event fn base sz i pe = (et_init_event pe)\<lparr>ev_filename := fn @ ''_temp'' @ dec i,
     data := base + of_nat i * sz, ev_place := int i\<rparr>"

lemma init_events_ok:
  "\<lbrakk>distinct is; \<forall>i\<in>set is. length fn + length (dec i) + 5 < ET_TEMPNAME_LENGTH\<rbrakk> \<Longrightarrow>
   init_events fn base sz is h = Some (\<lambda>p. if p \<in> set is then fresh_event fn base sz p (h p) else h p)"
proof (induction "is" arbitrary: h)
  case (Cons i "is")
  have "init_event_at fn base sz i h = Some (h(i := fresh_event fn base sz i (h i)))"
    using Cons.prems(2) by (simp add: init_event_at_def fresh_event_def Let_def)
  moreover have "init_events fn base sz is (h(i := fresh_event fn base sz i (h i)))
    = Some (\<lambda>p. if p \<in> set is then fresh_event fn base sz p ((h(i := fresh_event fn base sz i (h i))) p)
              else (h(i := fresh_event fn base sz i (h i))) p)"
    using Cons.prems by (intro Cons.IH) auto
  ultimately show ?case using Cons.prems(1) by (auto simp: fun_eq_iff)
qed (simp add: fun_eq_iff)

lemma fresh_station_idem [simp]: "fresh_station (fresh_station ps) = fresh_station ps"
  by (simp add: fresh_station_def Let_def et_init_station_def et_init_llist_def fun_eq_iff)

lemma mem_station_ok:
  "stats (et_init_mem_station s) i = (if int i < c_nstations (sys_config (sys s)) then fresh_station (stats s i) else stats s i)"
  "sys (et_init_mem_station s) = sys s" "events (et_init_mem_station s) = events s"
  by (auto simp: et_init_mem_station_def stats_fold_upd_station)

lemma gc_config_ok:
  assumes "1 \<le> nmax"
  shows "et_station_config_check natts nmax (gc_config default_config) = (if natts < 0 then ET_ERROR else ET_OK)"
    "sc_init (gc_config default_config) = ET_STRUCT_OK"
  by (simp_all add: gc_config_def Let_def default_config_def et_station_config_setuser_def
      et_station_config_setrestore_def et_station_config_setselect_def et_station_config_setblock_def
      et_station_config_setprescale_def et_station_config_check_def)

text \<open>The first station of a new system becomes GRAND\_CENTRAL.\<close>

lemma gc_create_ok:
  assumes loc: "locality e = ET_LOCAL" and n: "1 \<le> c_nstations (sys_config (sys s))" "1 \<le> nevents_max s"
    "0 \<le> c_nattachments (sys_config (sys s))" and z: "nstations (sys s) = 0"
    and un: "\<forall>i. int i < c_nstations (sys_config (sys s)) \<longrightarrow> status (st_data (stats s i)) = ET_STATION_UNUSED"
  shows "\<exists>y ps. et_station_create e etr others (Some ''GRAND_CENTRAL'') (Some (gc_config default_config)) s =
      Some ((ET_OK, None), s\<lparr>sys := y, stats := (stats s)(0 := ps)\<rparr>) \<and>
    y = (sys s)\<lparr>nstations := 1, stat_mutex := False\<rparr> \<and>
    ps = (let p = et_init_station (stats s 0) in p\<lparr>num := 0, name := ''GRAND_CENTRAL'', config := gc_config default_config,
      st_data := (st_data p)\<lparr>pid_create := env_pid e, status := ET_STATION_CREATING\<rparr>\<rparr>)"
proof -
  let ?s = "station_lock s"
  let ?N = "nat (c_nstations (sys_config (sys s)))"
  have no: "et_station_exists e (0, None) (Some ''GRAND_CENTRAL'') ?s = (if et_alive e = 0 then (ET_ERROR_DEAD, None) else (0, None))"
  proof -
    have "find (\<lambda>i. status (st_data (stats s i)) \<noteq> ET_STATION_UNUSED \<and> name (stats s i) = ''GRAND_CENTRAL'') [0..<?N] = None"
      using un by (auto simp: find_None_iff)
    then show ?thesis using loc by (simp add: et_station_exists_def)
  qed
  have first: "find (\<lambda>i. status (st_data (stats s i)) = ET_STATION_UNUSED) [0..<?N] = Some 0"
    using un n(1) by (auto simp: find_Some_iff intro!: exI[of _ "0::nat"])
  show ?thesis
    using gc_config_ok[OF n(2)] loc n z first no un
    by (auto simp: et_station_create_def et_station_create_at_def create_in_def Let_def station_lock_def station_unlock_def
        et_station_lock_def et_station_unlock_def upd_sys_def upd_station_def)
qed

section \<open>A new system is sane\<close>

definition all_groups :: "et_sys_config \<Rightarrow> int list" where
  "all_groups sc = take (nat (groupCount sc)) (groups sc)"

text \<open>
  What the start promises: \<open>N\<close> stations, \<open>n\<close> events, all of them in GRAND\_CENTRAL in the order of their
  places, the first group's events first.
\<close>

definition started :: "et_sys_config \<Rightarrow> et_shm \<Rightarrow> bool" where
  "started sc s \<longleftrightarrow>
     sane (nat (c_nstations sc)) s \<and> att_inv s \<and> sys_config (sys s) = sc \<and> nstations (sys s) = 1 \<and>
     list_repr (events s) (list_in (stats s 0)) [0..<nat (c_nevents sc)] \<and>
     map (\<lambda>p. ev_group (events s p)) [0..<nat (c_nevents sc)] = group_plan 0 (all_groups sc) \<and>
     (\<forall>p < nat (c_nevents sc). ev_place (events s p) = int p \<and> owner (events s p) = ET_SYS) \<and>
     events_in (list_in (stats s 0)) = 0 \<and> \<not> stat_mutex (sys s) \<and> \<not> sys_mutex (sys s)"

lemma group_plan_length: "\<forall>u\<in>set us. 1 \<le> u \<Longrightarrow> int (length (group_plan i us)) = sum_list us"
  by (induction i us rule: group_plan.induct) auto

lemma start_new_ok:
  assumes e: "env_host e = Some hn" "env_calloc e 0" "locality e = ET_LOCAL"
    and sc: "1 \<le> c_nevents sc" "1 \<le> c_nstations sc" "0 \<le> c_nattachments sc" "c_nattachments sc \<le> ET_ATTACHMENTS_MAX"
    and small: "c_nevents sc \<le> 10 ^ 7" "length (c_filename sc) < ET_FILENAME_LENGTH"
    and g: "\<forall>g\<in>set (all_groups sc). 1 \<le> g" "sum_list (all_groups sc) = c_nevents sc"
  shows "\<exists>s. start_new e etr others sc = Some (ET_OK, s) \<and> started sc s"
proof -
  define n where "n = nat (c_nevents sc)"
  define N where "N = nat (c_nstations sc)"
  obtain y where y: "et_init_mem_sys e sc new_mem = Some (new_mem\<lparr>sys := y\<rparr>)" "sys_config y = sc"
    "nstations y = 0" "nattachments y = 0" "\<not> sys_mutex y" "\<not> stat_mutex y"
    "\<forall>a. at_stat (attach y a) \<le> 0" "\<forall>a. int a < ET_ATTACHMENTS_MAX \<longrightarrow> at_num (attach y a) = - 1"
    using mem_sys_ok[OF e(1)] by metis
  define s1 where "s1 = et_init_histogram e (et_init_mem_station (new_mem\<lparr>sys := y\<rparr>))"
  have s1: "sys s1 = y" "events s1 = (\<lambda>_. zero_event)"
    "\<And>i. stats s1 i = (if int i < c_nstations sc then fresh_station zero_station else zero_station)"
    by (simp_all add: s1_def et_init_histogram_def mem_station_ok y(2)) (simp_all add: new_mem_def)
  define h2 where "h2 = (\<lambda>p. if p < n then fresh_event (c_filename sc) (id_data e) (event_size sc) p zero_event else zero_event)"
  have names: "length (c_filename sc) + length (dec i) + 5 < ET_TEMPNAME_LENGTH" if "i < n" for i
  proof -
    have "i < 10 ^ 7" using that small(1) by (simp add: n_def)
    then have "length (dec i) \<le> 7" by (rule dec_length) simp
    then show ?thesis using small(2) by simp
  qed
  have ev: "et_init_mem_event e s1 = Some (s1\<lparr>events := h2\<rparr>)"
    using names init_events_ok[of "[0..<n]"] s1(1,2) y(2)
    by (simp add: et_init_mem_event_def Let_def h2_def n_def [symmetric])
  have fresh: "cnt (list_in (fresh_station zero_station)) = 0" "cnt (list_out (fresh_station zero_station)) = 0"
    "lasthigh (list_out (fresh_station zero_station)) = 0" "status (st_data (fresh_station zero_station)) = ET_STATION_UNUSED"
    "st_nattachments (st_data (fresh_station zero_station)) = 0"
    "\<And>j. int j < ET_ATTACHMENTS_MAX \<Longrightarrow> st_att (st_data (fresh_station zero_station)) j = - 1"
    by (simp_all add: fresh_station_def et_init_station_def et_init_llist_def)
  obtain y2 ps where gc: "et_station_create e etr others (Some ''GRAND_CENTRAL'') (Some (gc_config default_config))
      (s1\<lparr>events := h2\<rparr>) = Some ((ET_OK, None), s1\<lparr>events := h2, sys := y2, stats := (stats s1)(0 := ps)\<rparr>)"
    and y2: "y2 = y\<lparr>nstations := 1, stat_mutex := False\<rparr>"
    and ps: "ps = (let p = et_init_station (stats s1 0) in p\<lparr>num := 0, name := ''GRAND_CENTRAL'', config := gc_config default_config,
      st_data := (st_data p)\<lparr>pid_create := env_pid e, status := ET_STATION_CREATING\<rparr>\<rparr>)"
    using gc_create_ok[OF e(3), of "s1\<lparr>events := h2\<rparr>" etr others] sc s1 y(2,3) fresh(4) by auto
  have psf: "cnt (list_in ps) = 0" "cnt (list_out ps) = 0" "lasthigh (list_out ps) = 0" "events_in (list_in ps) = 0"
    "st_nattachments (st_data ps) = 0" "\<And>j. int j < ET_ATTACHMENTS_MAX \<Longrightarrow> st_att (st_data ps) j = - 1"
    unfolding ps by (simp_all add: Let_def et_init_station_def et_init_llist_def)
  have r0: "list_repr h2 (list_in ps) []" by (simp add: list_repr_def psf)
  have dg: "drop 0 (groups sc) = all_groups sc @ drop (nat (groupCount sc)) (groups sc)" by (simp add: all_groups_def)
  obtain h3 pl where f: "fill_gc (c_nevents sc) (groups sc) [0..<n] 0 0 (h2, list_in ps) = Some (True, h3, pl)"
    "list_repr h3 pl [0..<n]" "map (\<lambda>p. ev_group (h3 p)) [0..<n] = take n (group_plan 0 (all_groups sc))"
    "\<forall>p. owner (h3 p) = owner (h2 p) \<and> priority (h3 p) = priority (h2 p) \<and> ev_place (h3 p) = ev_place (h2 p)"
    using fill_gc_ok[OF r0, of "[0..<n]" "c_nevents sc" 0 0 "groups sc", OF _ _ _ dg g(1)] g(2) sc(1) by (auto simp: n_def)
  have plan: "take n (group_plan 0 (all_groups sc)) = group_plan 0 (all_groups sc)"
    using group_plan_length[OF g(1), of 0] g(2) by (simp add: n_def)
  define s where "s = upd_station 0 et_init_stats_station (upd_station 0 (\<lambda>ps. ps\<lparr>list_in := pl\<rparr>)
    (s1\<lparr>events := h3, sys := y2, stats := (stats s1)(0 := ps)\<rparr>))"
  have run: "start_new e etr others sc = Some (ET_OK, s)"
    using e(2) y(1,2) ev gc f(1)
    by (simp add: start_new_def s1_def [symmetric] Let_def et_grandcentral_station_create_def et_station_config_init_def
        y2 n_def [symmetric] s_def)
  have sf: "sys s = y2" "events s = h3" "list_in (stats s 0) = pl\<lparr>events_try := 0, events_out := 0, events_in := 0\<rparr>"
    "\<And>i. 0 < i \<Longrightarrow> stats s i = stats s1 i" "list_out (stats s 0) = (list_out ps)\<lparr>events_try := 0, events_out := 0, events_in := 0\<rparr>"
    "st_data (stats s 0) = st_data ps"
    by (simp_all add: s_def et_init_stats_station_def)
  have own: "owner (h2 p) = ET_SYS" "ev_place (h2 p) = int p" if "p < n" for p
    using that by (simp_all add: h2_def fresh_event_def et_init_event_def)
  have pr: "priority (h2 p) = ET_LOW" for p
    by (simp add: h2_def fresh_event_def et_init_event_def zero_event_def)
  have repr: "list_repr (events s) (list_in (stats s 0)) [0..<n]" using f(2) sf(2,3) by (simp add: list_repr_def)
  have N: "0 < N" using sc(2) by (simp add: N_def)
  have lists: "cnt (list_in (stats s k)) = 0" "cnt (list_out (stats s k)) = 0" "lasthigh (list_out (stats s k)) = 0"
    if "0 < k" "k < N" for k using that fresh s1(3) sf(4) by (simp_all add: N_def zless_nat_eq_int_zless)
  have out0: "cnt (list_out (stats s 0)) = 0" "lasthigh (list_out (stats s 0)) = 0" using sf(5) psf by simp_all
  define X where "X = (\<lambda>k::nat. if k = 0 then [0..<n] else [])"
  have "in_lists N s X"
    using repr lists by (auto simp: in_lists_def X_def list_repr_def high_first_def)
  moreover have "out_repr (events s) (list_out (stats s k)) []" if "k < N" for k
    using that lists[of k] out0 by (cases "k = 0") (simp_all add: out_repr_def list_repr_def high_first_def)
  moreover have "total_in N X = mset [0..<n]" "total_in N (\<lambda>_. []) = {#}"
  proof -
    have "(\<Sum>k<N. mset (X k)) = (\<Sum>k\<in>{0}. mset (X k))"
      by (rule sum.mono_neutral_right) (use N in \<open>auto simp: X_def\<close>)
    then show "total_in N X = mset [0..<n]" by (simp add: total_in_def X_def)
  qed (simp add: total_in_def)
  moreover have "held s = []" "nevents_max s = c_nevents sc" "prio_ok (events s) UNIV"
    using own f(4) pr y(2) by (auto simp: held_def sf(1,2) y2 n_def filter_empty_conv prio_ok_def)
  ultimately have "placed N s X (\<lambda>_. [])" using sc(1) by (simp add: placed_def lists_ok_def n_def)
  then have "all_placed N s" using N by (auto simp: all_placed_def)
  moreover have "stations_ok N s" unfolding stations_ok_def
  proof
    fix a have "at_stat (attach (sys s) a) \<le> 0" using y(7) by (simp add: sf(1) y2)
    then show "at_stat (attach (sys s) a) < int N" using N by simp
  qed
  ultimately have sane: "sane N s" by (simp add: sane_def)
  have na: "atts s = {}" using y(8) sc(4) by (auto simp: atts_def active_def sf(1) y2 y(2))
  have sd: "st_nattachments (st_data (stats s k)) = 0"
    "int j < ET_ATTACHMENTS_MAX \<Longrightarrow> st_att (st_data (stats s k)) j = - 1" if "int k < c_nstations sc" for k j
    using that fresh(5,6) psf(5,6) s1(3) sf(4,6) by (cases "k = 0"; simp)+
  have "att_inv s"
    using y(4,8) sc(4) sd by (simp add: att_inv_def atts_of_def na active_def sf(1) y2 y(2))
  with sane repr f(3,4) plan own sf show ?thesis
    by (intro exI[of _ s]) (auto simp: started_def run N_def [symmetric] n_def [symmetric] y2 y(2,5))
qed

lemma system_start_ok:
  assumes e: "env_host e = Some hn" "env_calloc e 0" "locality e = ET_LOCAL"
    and c: "et_system_config_check sc = Some (ET_OK, sc')" "0 \<le> groupCount sc"
    and small: "c_nevents sc \<le> 10 ^ 7" "length (c_filename sc) < ET_FILENAME_LENGTH"
    and g: "\<forall>g\<in>set (all_groups sc). 1 \<le> g"
  shows "\<exists>e' s. et_system_start e etr others sc = Some (ET_OK, e', Some s) \<and> started sc s"
proof -
  have "sc' = sc" using check_ok(1)[OF c(1)] small(2) by simp
  with c(1) have c': "et_system_config_check sc = Some (ET_OK, sc)" by simp
  let ?e = "e\<lparr>id_nevents := c_nevents sc, esize := event_size sc, debug := ET_DEBUG_ERROR\<rparr>"
  obtain s where "start_new ?e etr others sc = Some (ET_OK, s)" "started sc s"
    using start_new_ok[of ?e hn sc etr others] e small g check_ok(2-9)[OF c'] by (auto simp: all_groups_def)
  then show ?thesis using c' by (auto simp: et_system_start_def Let_def)
qed

text \<open>From the calls that configure the groups to the groups of the events.\<close>

lemma configured_groups:
  assumes "et_system_config_init mem k ni = (ET_OK, Some sc0)"
    and g: "2 \<le> length g" "length g \<le> ET_EVENT_GROUPS_MAX" "\<forall>x\<in>set g. 1 \<le> x" "sum_list g \<le> 10 ^ 7"
    and e: "env_host e = Some hn" "env_calloc e 0" "locality e = ET_LOCAL"
  shows "\<exists>sc e' s. set_params [SetEvents (sum_list g), SetGroups (Some g) (int (length g))] sc0 = Some sc \<and>
    et_system_start e etr others sc = Some (ET_OK, e', Some s) \<and>
    list_repr (events s) (list_in (stats s 0)) [0..<nat (sum_list g)] \<and>
    map (\<lambda>p. ev_group (events s p)) [0..<nat (sum_list g)] = group_plan 0 g"
proof -
  have sum: "1 \<le> sum_list g"
  proof (cases g)
    case (Cons a l)
    then have "0 \<le> sum_list l" using g(3) by (intro sum_list_nonneg) force
    then show ?thesis using Cons g(3) by simp
  qed (use g(1) in simp)
  define sc1 where "sc1 = snd (et_system_config_setevents sc0 (sum_list g))"
  have i1: "cfg_inv sc1" unfolding sc1_def
    using cfg_inv_set_param[OF cfg_inv_init[OF assms(1)], of "SetEvents (sum_list g)"] by (cases "et_system_config_setevents sc0 (sum_list g)") auto
  have sc1: "c_nevents sc1 = sum_list g" "c_ntemps sc1 \<le> sum_list g"
    using assms(1) sum by (auto simp: sc1_def et_system_config_init_def et_system_config_setevents_def Let_def split: if_splits)
  define sc where "sc = sc1\<lparr>groups := g @ replicate (ET_EVENT_GROUPS_MAX - length g) 0, groupCount := int (length g)\<rparr>"
  have set: "et_system_config_setgroups sc1 (Some g) (int (length g)) = Some (ET_OK, sc)"
    unfolding sc_def by (rule setgroups_stores) (use i1 g in \<open>simp_all add: cfg_inv_def cfg_counts_def cfg_groups_def\<close>)
  have params: "set_params [SetEvents (sum_list g), SetGroups (Some g) (int (length g))] sc0 = Some sc"
    using set by (simp add: sc1_def split_beta)
  have all: "all_groups sc = g" by (simp add: all_groups_def sc_def)
  have inv: "cfg_inv sc" by (rule cfg_inv_set_params[OF cfg_inv_init[OF assms(1)] params])
  have f: "c_nevents sc = sum_list g" "c_ntemps sc \<le> sum_list g" "0 \<le> groupCount sc" by (simp_all add: sc_def sc1)
  have check: "et_system_config_check sc = Some (ET_OK, sc)"
    using check_of_inv[OF inv] f all by (simp add: all_groups_def)
  obtain e' s where s: "et_system_start e etr others sc = Some (ET_OK, e', Some s)" "started sc s"
    using system_start_ok[OF e check f(3), of etr others] inv f(1) g(3,4) all by (auto simp: cfg_inv_def cfg_texts_def)
  then show ?thesis using params by (auto simp: started_def f(1) all)
qed

end
