(* ===== verification/EtFix.thy ===== *)
theory EtFix imports EtStart begin

text \<open>
  Putting the system's tables right after a crash (\<^verbatim>\<open>et_fix_*\<close> of \<^verbatim>\<open>et_system.c\<close>): stuck mutexes, the
  linked lists of stations, stations in no list, half-made attachments, and the counts of
  attachments and processes; \<^verbatim>\<open>et_fix_system\<close> at the restart of a system.

  The walks along station lists have the number of stations as fuel: a list without repetitions is
  not longer; \<open>None\<close> is a walk that does not end or leaves the table. What
  \<^verbatim>\<open>et_mutex_locked\<close> finds at each of its attempts is the argument \<open>busy\<close>; what other processes do
  to shared memory while \<^verbatim>\<open>et_fix_system\<close> sleeps is \<open>others\<close>.
\<close>

section \<open>Mutexes\<close>

datatype lock = SystemM | StationM | AddM | TransferM nat | InM nat | OutM nat

definition unlock_add :: "et_shm \<Rightarrow> et_shm" where
  "unlock_add = upd_sys (\<lambda>y. y\<lparr>statadd_mutex := False\<rparr>)"

definition et_fix_mutexes :: "(lock \<Rightarrow> nat \<Rightarrow> bool) \<Rightarrow> et_shm \<Rightarrow> et_shm" where
  "et_fix_mutexes busy s =
    (let s = (if et_mutex_locked (busy SystemM) then system_unlock s else s);
         s = (if et_mutex_locked (busy StationM) then station_unlock s else s);
         s = (if et_mutex_locked (busy AddM) then unlock_add s else s)
     in fold (\<lambda>i s. if et_mutex_locked (busy (TransferM i)) then upd_station i et_transfer_unlock s else s)
          [0..<nat (c_nstations (sys_config (sys s)))] s)"

section \<open>The linked lists of stations\<close>

text \<open>The group of parallel stations behind \<open>p\<close>.\<close>

fun fix_parallel :: "nat \<Rightarrow> nat \<Rightarrow> et_shm \<Rightarrow> et_shm option" where
  "fix_parallel 0 p s = None"
| "fix_parallel (Suc k) p s =
    (if nextparallel (stats s p) > - 1 then do {
       q \<leftarrow> st_ix s (nextparallel (stats s p));
       fix_parallel k q (upd_station q (\<lambda>r. r\<lparr>prevparallel := num (stats s p), st_prev := - 1, st_next := - 1\<rparr>) s) }
     else Some s)"

fun fix_main :: "nat \<Rightarrow> nat \<Rightarrow> et_shm \<Rightarrow> et_shm option" where
  "fix_main 0 p s = None"
| "fix_main (Suc k) p s =
    (if st_next (stats s p) > - 1 then do {
       x \<leftarrow> st_ix s (st_next (stats s p));
       let s = upd_station x (\<lambda>r. r\<lparr>st_prev := num (stats s p)\<rparr>) s;
       s \<leftarrow> (if flow_mode (config (stats s x)) = ET_STATION_PARALLEL
             then fix_parallel (nat (c_nstations (sys_config (sys s)))) x (upd_station x (\<lambda>r. r\<lparr>prevparallel := - 1\<rparr>) s)
             else Some (upd_station x (\<lambda>r. r\<lparr>prevparallel := - 1, nextparallel := - 1\<rparr>) s));
       fix_main k x s }
     else Some (upd_sys (\<lambda>y. y\<lparr>stat_tail := num (stats s p)\<rparr>) s))"

definition et_fix_linkedlist :: "et_shm \<Rightarrow> et_shm option" where
  "et_fix_linkedlist s = do {
     p \<leftarrow> st_ix s (stat_head (sys s));
     fix_main (nat (c_nstations (sys_config (sys s)))) p s }"

section \<open>Stations in no list\<close>

text \<open>Is the station with number \<open>n\<close> in the group behind \<open>p\<close>, in the lists behind \<open>p\<close>?\<close>

fun in_group :: "nat \<Rightarrow> et_shm \<Rightarrow> int \<Rightarrow> nat \<Rightarrow> bool option" where
  "in_group 0 s n p = None"
| "in_group (Suc k) s n p =
    (if nextparallel (stats s p) > - 1 then do {
       q \<leftarrow> st_ix s (nextparallel (stats s p));
       if num (stats s q) = n then Some True else in_group k s n q }
     else Some False)"

fun in_list :: "nat \<Rightarrow> et_shm \<Rightarrow> int \<Rightarrow> nat \<Rightarrow> bool option" where
  "in_list 0 s n p = None"
| "in_list (Suc k) s n p =
    (if st_next (stats s p) > - 1 then do {
       x \<leftarrow> st_ix s (st_next (stats s p));
       if num (stats s x) = n then Some True
       else do {
         f \<leftarrow> (if flow_mode (config (stats s x)) = ET_STATION_PARALLEL
               then in_group (nat (c_nstations (sys_config (sys s)))) s n x else Some False);
         if f then Some True else in_list k s n x } }
     else Some False)"

text \<open>One turn of the loop of \<^verbatim>\<open>et_fix_stations\<close>, with its counter \<open>nstats\<close>.\<close>

definition fix_station :: "nat \<Rightarrow> int \<times> et_shm \<Rightarrow> (int \<times> et_shm) option" where
  "fix_station i = (\<lambda>(nstats, s).
     let ps = stats s i in
     if status (st_data ps) = ET_STATION_CREATING then Some (nstats, upd_station i et_init_station s)
     else if status (st_data ps) \<noteq> ET_STATION_UNUSED then do {
       inlist \<leftarrow> in_list (nat (c_nstations (sys_config (sys s)))) s (num ps) 0;
       Some (nstats + 1,
         if \<not> inlist then upd_station i (\<lambda>ps. et_init_station
           (ps\<lparr>conductor := ET_THREAD_KILL, list_out := cond_signal (list_out ps)\<rparr>)) s
         else s) }
     else Some (nstats, s))"

fun fix_stations_from :: "nat list \<Rightarrow> int \<times> et_shm \<Rightarrow> (int \<times> et_shm) option" where
  "fix_stations_from [] cs = Some cs"
| "fix_stations_from (i # is) cs = do { cs \<leftarrow> fix_station i cs; fix_stations_from is cs }"

definition et_fix_stations :: "et_shm \<Rightarrow> et_shm option" where
  "et_fix_stations s = do {
     (nstats, s) \<leftarrow> fix_stations_from [1..<nat (c_nstations (sys_config (sys s)))] (1, s);
     Some (if nstats \<noteq> nstations (sys s) then upd_sys (\<lambda>y. y\<lparr>nstations := nstats\<rparr>) s else s) }"

section \<open>Attachments and counts\<close>

text \<open>The first station, active, that knows attachment \<open>i\<close>.\<close>

definition station_of_att :: "et_shm \<Rightarrow> nat \<Rightarrow> nat option" where
  "station_of_att s i =
     find (\<lambda>j. st_att (st_data (stats s j)) i = int i \<and> status (st_data (stats s j)) = ET_STATION_ACTIVE)
       [0..<nat (c_nstations (sys_config (sys s)))]"

definition forget_att :: "nat \<Rightarrow> et_shm \<Rightarrow> et_shm" where
  "forget_att i s = fold (\<lambda>j. upd_sys (\<lambda>y. y\<lparr>proc := (proc y)(j := (proc y j)\<lparr>
       pr_att := (pr_att (proc y j))(i := - 1)\<rparr>)\<rparr>)) [0..<nat (c_nprocesses (sys_config (sys s)))] s"

definition fix_attachment :: "nat \<Rightarrow> et_shm \<Rightarrow> et_shm" where
  "fix_attachment i s =
    (if at_num (attach (sys s) i) \<noteq> - 1 \<and> station_of_att s i = None
     then upd_sys (\<lambda>y. y\<lparr>nattachments := nattachments y - 1\<rparr>) (et_init_attachment i (forget_att i s))
     else s)"

definition et_fix_attachments :: "et_shm \<Rightarrow> et_shm" where
  "et_fix_attachments s = fold fix_attachment [0..<nat (c_nattachments (sys_config (sys s)))] s"

definition count_atts :: "nat \<Rightarrow> (nat \<Rightarrow> int) \<Rightarrow> int" where
  "count_atts m f = int (length (filter (\<lambda>j. f j = int j) [0..<m]))"

definition fix_count :: "nat \<Rightarrow> nat \<Rightarrow> int \<times> et_shm \<Rightarrow> int \<times> et_shm" where
  "fix_count m i = (\<lambda>(natts, s).
     if status (st_data (stats s i)) \<noteq> ET_STATION_ACTIVE then (natts, s)
     else let c = count_atts m (st_att (st_data (stats s i))) in
       (natts + c, upd_station i (\<lambda>ps. ps\<lparr>st_data := (st_data ps)\<lparr>st_nattachments := c\<rparr>\<rparr>) s))"

definition fix_proc_count :: "nat \<Rightarrow> nat \<Rightarrow> et_shm \<Rightarrow> et_shm" where
  "fix_proc_count m i s = (if pr_status (proc (sys s) i) \<noteq> ET_PROC_OPEN then s
     else upd_sys (\<lambda>y. y\<lparr>proc := (proc y)(i := (proc y i)\<lparr>pr_nattachments := count_atts m (pr_att (proc y i))\<rparr>)\<rparr>) s)"

definition et_fix_natts :: "et_shm \<Rightarrow> et_shm" where
  "et_fix_natts s =
    (let m = nat (c_nattachments (sys_config (sys s)));
         (natts, s) = fold (fix_count m) [0..<nat (c_nstations (sys_config (sys s)))] (0, s);
         s = upd_sys (\<lambda>y. y\<lparr>nattachments := natts\<rparr>) s
     in fold (fix_proc_count m) [0..<nat (c_nprocesses (sys_config (sys s)))] s)"

definition et_fix_nprocs :: "et_shm \<Rightarrow> et_shm" where
  "et_fix_nprocs s = upd_sys (\<lambda>y. y\<lparr>nprocesses :=
     int (length (filter (\<lambda>i. pr_status (proc y i) = ET_PROC_OPEN) [0..<nat (c_nprocesses (sys_config y))]))\<rparr>) s"

section \<open>The restart of a system\<close>

text \<open>A station that stays: its attachments if idle, its repair information and its lists.\<close>

definition renew_station :: "et_station \<Rightarrow> et_station" where
  "renew_station ps =
    (let ps = (if status (st_data ps) = ET_STATION_IDLE
               then ps\<lparr>st_data := (st_data ps)\<lparr>st_nattachments := 0,
                 st_att := (\<lambda>j. if int j < ET_ATTACHMENTS_MAX then - 1 else st_att (st_data ps) j)\<rparr>\<rparr>
               else ps)
     in ps\<lparr>conductor := ET_THREAD_KEEP,
       fixin := \<lparr>fin_first = None, fin_eventsin = 0, fin_start = 0, fin_cnt = 0, fin_num = 0, fin_call = ET_FIX_READ\<rparr>,
       fixout := \<lparr>fout_start = 0, fout_cnt = 0, fout_num = 0\<rparr>,
       list_in := (list_in ps)\<lparr>cnt := 0, lasthigh := 0, firstevent := None, lastevent := None\<rparr>,
       list_out := (list_out ps)\<lparr>cnt := 0, lasthigh := 0, firstevent := None, lastevent := None\<rparr>\<rparr>)"

text \<open>
  The loop over the stations: \<open>k\<close> turns are left, \<open>i\<close> is the station \<^verbatim>\<open>ps\<close> points to. A turn that
  initialises the station goes on with \<^verbatim>\<open>continue\<close> and leaves \<^verbatim>\<open>ps\<close> where it is.
\<close>

fun renew_stations :: "nat \<Rightarrow> nat \<Rightarrow> et_shm \<Rightarrow> et_shm option" where
  "renew_stations 0 i s = Some s"
| "renew_stations (Suc k) i s =
    (let ps = stats s i in
     if status (st_data ps) \<noteq> ET_STATION_ACTIVE \<and> status (st_data ps) \<noteq> ET_STATION_IDLE
     then renew_stations k i (upd_station i et_init_station s)
     else do {
       h \<leftarrow> st_ix s (stat_head (sys s));
       inlist \<leftarrow> in_list (nat (c_nstations (sys_config (sys s)))) s (num ps) h;
       if \<not> inlist then renew_stations k i (upd_station i et_init_station s)
       else renew_stations k (Suc i) (upd_station i renew_station s) })"

text \<open>The attachments of a dead process: only those whose station has just one.\<close>

definition drop_att :: "nat \<Rightarrow> nat \<Rightarrow> et_shm \<Rightarrow> et_shm option" where
  "drop_att i j s =
    (if pr_att (proc (sys s) i) j = - 1 then Some s
     else do {
       n \<leftarrow> stat_ix s j;
       Some (if st_nattachments (st_data (stats s n)) = 1 \<and> int n \<noteq> ET_GRANDCENTRAL then
         upd_sys (\<lambda>y. y\<lparr>nattachments := nattachments y - 1\<rparr>)
           (upd_attach j (\<lambda>a. a\<lparr>at_num := - 1, at_status := ET_ATT_UNUSED\<rparr>)
             (upd_station n (\<lambda>ps. ps\<lparr>st_data := (st_data ps)\<lparr>status := ET_STATION_IDLE,
                st_nattachments := st_nattachments (st_data ps) - 1,
                st_att := (st_att (st_data ps))(j := - 1)\<rparr>\<rparr>) s))
         else s) })"

fun drop_atts :: "nat \<Rightarrow> nat list \<Rightarrow> et_shm \<Rightarrow> et_shm option" where
  "drop_atts i [] s = Some s"
| "drop_atts i (j # js) s = do { s \<leftarrow> drop_att i j s; drop_atts i js s }"

fun renew_procs :: "(nat \<Rightarrow> i32) \<Rightarrow> nat list \<Rightarrow> et_shm \<Rightarrow> et_shm option" where
  "renew_procs old [] s = Some s"
| "renew_procs old (i # is) s =
    (if pr_status (proc (sys s) i) \<noteq> ET_PROC_OPEN then renew_procs old is (et_init_process i s)
     else if pr_heartbeat (proc (sys s) i) = old i then do {
       s \<leftarrow> drop_atts i [0..<nat (c_nattachments (sys_config (sys s)))] s;
       renew_procs old is (et_init_process i s) }
     else renew_procs old is s)"

definition et_fix_system ::
  "et_id \<Rightarrow> (lock \<Rightarrow> nat \<Rightarrow> bool) \<Rightarrow> (et_shm \<Rightarrow> et_shm) \<Rightarrow> et_shm \<Rightarrow> et_shm option" where
  "et_fix_system e busy others s = do {
     let numstats = nat (c_nstations (sys_config (sys s)));
     let numprocs = nat (c_nprocesses (sys_config (sys s)));
     let old = (\<lambda>i. pr_heartbeat (proc (sys s) i));
     let s = et_transfer_unlock_all (et_fix_mutexes busy (others s));
     let s = fold (\<lambda>i. upd_station i (\<lambda>ps. ps\<lparr>list_in := et_llist_unlock (list_in ps),
               list_out := et_llist_unlock (list_out ps)\<rparr>)) [0..<numstats] s;
     let s = upd_sys (\<lambda>y. y\<lparr>asthread := ET_THREAD_KEEP, heartbeat := 0, mainpid := env_pid e, ntemps := 0\<rparr>) s;
     s \<leftarrow> et_init_mem_event e s;
     s \<leftarrow> et_fix_linkedlist s;
     s \<leftarrow> renew_stations numstats 0 s;
     s \<leftarrow> renew_procs old [0..<numprocs] s;
     Some (et_fix_natts (et_fix_nprocs (et_fix_attachments s))) }"

section \<open>The repaired lists\<close>

text \<open>What the repair can rely on: the forward links.\<close>

fun fwd :: "(nat \<Rightarrow> int) \<Rightarrow> nat list \<Rightarrow> bool" where
  "fwd nx (p # q # ns) \<longleftrightarrow> nx p = int q \<and> fwd nx (q # ns)"
| "fwd nx [p] \<longleftrightarrow> nx p < 0"
| "fwd nx [] \<longleftrightarrow> False"

definition is_parallel :: "et_shm \<Rightarrow> nat \<Rightarrow> bool" where
  "is_parallel s x \<longleftrightarrow> flow_mode (config (stats s x)) = ET_STATION_PARALLEL"

definition fwd_layout :: "et_shm \<Rightarrow> nat list \<Rightarrow> (nat \<Rightarrow> nat list) \<Rightarrow> bool" where
  "fwd_layout s ns gs \<longleftrightarrow> ns \<noteq> [] \<and> hd ns = 0 \<and> \<not> is_parallel s 0 \<and> fwd (\<lambda>n. st_next (stats s n)) ns \<and>
     (\<forall>x\<in>set ns. (\<forall>n\<in>set (gs x). station_ok s n) \<and> gs x \<noteq> [] \<and> hd (gs x) = x \<and>
        (if is_parallel s x then fwd (\<lambda>n. nextparallel (stats s n)) (gs x) else gs x = [x])) \<and>
     distinct (concat (map gs ns))"

lemma fwd_Cons: "fwd nx (p # xs) \<longleftrightarrow> (if xs = [] then nx p < 0 else nx p = int (hd xs) \<and> fwd nx xs)"
  by (cases xs) auto

lemma same_but_links_refl [simp]: "same_but_links s s"
  by (simp add: same_but_links_def)

lemma same_but_links_trans: "same_but_links s s1 \<Longrightarrow> same_but_links s1 s2 \<Longrightarrow> same_but_links s s2"
  by (simp add: same_but_links_def)

lemma same_but_links_station:
  assumes "\<And>ps. num (f ps) = num ps \<and> config (f ps) = config ps \<and> list_in (f ps) = list_in ps \<and>
    list_out (f ps) = list_out ps \<and> st_data (f ps) = st_data ps \<and> name (f ps) = name ps"
  shows "same_but_links s (upd_station n f s)"
  using assms by (simp add: same_but_links_def)

lemma same_but_links_ok:
  assumes "same_but_links s s'"
  shows "station_ok s' n = station_ok s n" "is_parallel s' n = is_parallel s n" "num (stats s' n) = num (stats s n)"
    "c_nstations (sys_config (sys s')) = c_nstations (sys_config (sys s))" "st_ix s' i = st_ix s i"
  using assms by (simp_all add: same_but_links_def station_ok_def is_parallel_def st_ix_def)

text \<open>After the repair of a group: everything outside is as before.\<close>

lemma fix_parallel_ok:
  assumes "fwd (\<lambda>n. nextparallel (stats s n)) (p # qs)" "distinct (p # qs)" "length qs < k"
    "\<forall>n\<in>set (p # qs). station_ok s n"
  shows "\<exists>s'. fix_parallel k p s = Some s' \<and> same_but_links s s' \<and> sys s' = sys s \<and>
    (\<forall>n. n \<notin> set qs \<longrightarrow> stats s' n = stats s n) \<and>
    (\<forall>n. nextparallel (stats s' n) = nextparallel (stats s n)) \<and>
    dseg (\<lambda>n. nextparallel (stats s' n)) (\<lambda>n. prevparallel (stats s' n)) (p # qs)"
  using assms
proof (induction qs arbitrary: p s k)
  case Nil
  then obtain k' where "k = Suc k'" by (cases k) auto
  with Nil show ?case by (intro exI[of _ s]) simp
next
  case (Cons q qs)
  then obtain k' where k: "k = Suc k'" by (cases k) auto
  let ?f = "\<lambda>r. r\<lparr>prevparallel := num (stats s p), st_prev := - 1, st_next := - 1\<rparr>"
  let ?t = "upd_station q ?f s"
  have t: "same_but_links s ?t" by (rule same_but_links_station) simp
  have nxt: "nextparallel (stats s p) = int q" "st_ix s (int q) = Some q" "num (stats s p) = int p"
    using Cons.prems(1,4) by (simp_all add: station_ok_def st_ix_def)
  have "fwd (\<lambda>n. nextparallel (stats ?t n)) (q # qs)"
  proof -
    have "(\<lambda>n. nextparallel (stats ?t n)) = (\<lambda>n. nextparallel (stats s n))" by auto
    then show ?thesis using Cons.prems(1) by simp
  qed
  then obtain s' where s': "fix_parallel k' q ?t = Some s'" "same_but_links ?t s'" "sys s' = sys ?t"
    "\<forall>n. n \<notin> set qs \<longrightarrow> stats s' n = stats ?t n" "\<forall>n. nextparallel (stats s' n) = nextparallel (stats ?t n)"
    "dseg (\<lambda>n. nextparallel (stats s' n)) (\<lambda>n. prevparallel (stats s' n)) (q # qs)"
    using Cons.IH[of ?t q k'] Cons.prems k same_but_links_ok(1)[OF t] by auto
  have "prevparallel (stats s' q) = int p" using s'(4) Cons.prems(2) nxt(3) by simp
  moreover have "nextparallel (stats s' p) = int q" using s'(5) nxt(1) Cons.prems(2) by simp
  moreover have "fix_parallel k p s = Some s'" using k nxt s'(1) by simp
  ultimately show ?case using s' same_but_links_trans[OF t s'(2)] by (intro exI[of _ s']) auto
qed

text \<open>One station \<open>x\<close> of the main list, with its group.\<close>

definition linked_group :: "et_shm \<Rightarrow> nat \<Rightarrow> nat list \<Rightarrow> bool" where
  "linked_group s x g \<longleftrightarrow> prevparallel (stats s x) = - 1 \<and> (if is_parallel s x
     then dseg (\<lambda>n. nextparallel (stats s n)) (\<lambda>n. prevparallel (stats s n)) g \<and> nextparallel (stats s (last g)) < 0
     else nextparallel (stats s x) = - 1)"

lemma fwd_last: "fwd nx g \<Longrightarrow> nx (last g) < 0"
  by (induction nx g rule: fwd.induct) auto

lemma fwd_cong: "(\<And>n. n \<in> set ns \<Longrightarrow> nx' n = nx n) \<Longrightarrow> fwd nx' ns = fwd nx ns"
  by (induction nx ns rule: fwd.induct) auto

definition group_ok :: "et_shm \<Rightarrow> nat \<Rightarrow> nat list \<Rightarrow> bool" where
  "group_ok s x g \<longleftrightarrow> (\<forall>n\<in>set g. station_ok s n) \<and> g \<noteq> [] \<and> hd g = x \<and> distinct g \<and>
     (if is_parallel s x then fwd (\<lambda>n. nextparallel (stats s n)) g else g = [x])"

lemma group_ok_own: "group_ok s x g \<Longrightarrow> x \<in> set g" "group_ok s x g \<Longrightarrow> station_ok s x"
  by (cases g; auto simp: group_ok_def)+

lemma group_ok_keep:
  assumes "group_ok s x g" "same_but_links s t" "\<And>n. n \<in> set g \<Longrightarrow> nextparallel (stats t n) = nextparallel (stats s n)"
  shows "group_ok t x g"
  using assms(1) same_but_links_ok[OF assms(2)] fwd_cong[of g, OF assms(3)] by (simp add: group_ok_def)

lemma station_count:
  assumes "\<forall>n\<in>set g. station_ok s n" "distinct g"
  shows "length g \<le> nat (c_nstations (sys_config (sys s)))"
proof -
  have "set g \<subseteq> {..<nat (c_nstations (sys_config (sys s)))}" using assms(1) by (auto simp: station_ok_def)
  from card_mono[OF _ this] show ?thesis using assms(2) by (simp add: distinct_card)
qed

lemma fix_group_ok:
  assumes go: "group_ok s x g"
  shows "\<exists>s'. (if flow_mode (config (stats s x)) = ET_STATION_PARALLEL
             then fix_parallel (nat (c_nstations (sys_config (sys s)))) x (upd_station x (\<lambda>r. r\<lparr>prevparallel := - 1\<rparr>) s)
             else Some (upd_station x (\<lambda>r. r\<lparr>prevparallel := - 1, nextparallel := - 1\<rparr>) s)) = Some s' \<and>
    same_but_links s s' \<and> sys s' = sys s \<and> (\<forall>n. n \<notin> set g \<longrightarrow> stats s' n = stats s n) \<and>
    st_next (stats s' x) = st_next (stats s x) \<and> st_prev (stats s' x) = st_prev (stats s x) \<and> linked_group s' x g"
proof -
  have g: "\<forall>n\<in>set g. station_ok s n" "g \<noteq> []" "hd g = x" "distinct g"
    "if is_parallel s x then fwd (\<lambda>n. nextparallel (stats s n)) g else g = [x]"
    "length g \<le> nat (c_nstations (sys_config (sys s)))"
    using go station_count[of g s] by (simp_all add: group_ok_def)
  show ?thesis
proof (cases "is_parallel s x")
  case True
  obtain qs where qs: "g = x # qs" using g(2,3) by (cases g) auto
  let ?t = "upd_station x (\<lambda>r. r\<lparr>prevparallel := - 1\<rparr>) s"
  have t: "same_but_links s ?t" by (rule same_but_links_station) simp
  have "(\<lambda>n. nextparallel (stats ?t n)) = (\<lambda>n. nextparallel (stats s n))" by auto
  then obtain s' where s': "fix_parallel (nat (c_nstations (sys_config (sys s)))) x ?t = Some s'" "same_but_links ?t s'"
    "sys s' = sys ?t" "\<forall>n. n \<notin> set qs \<longrightarrow> stats s' n = stats ?t n"
    "\<forall>n. nextparallel (stats s' n) = nextparallel (stats ?t n)"
    "dseg (\<lambda>n. nextparallel (stats s' n)) (\<lambda>n. prevparallel (stats s' n)) (x # qs)"
    using fix_parallel_ok[of ?t x qs "nat (c_nstations (sys_config (sys s)))"] g True qs same_but_links_ok(1)[OF t] by auto
  have "x \<notin> set qs" using g(4) qs by simp
  moreover have "nextparallel (stats s' (last g)) < 0"
    using s'(5) g(5) True fwd_last[of "\<lambda>n. nextparallel (stats s n)" g] by (auto split: if_splits)
  ultimately show ?thesis using s' same_but_links_trans[OF t s'(2)] True qs same_but_links_ok(2)[OF s'(2)] same_but_links_ok(2)[OF t]
    by (intro exI[of _ s']) (auto simp: linked_group_def is_parallel_def[of s])
next
  case False
  let ?t = "upd_station x (\<lambda>r. r\<lparr>prevparallel := - 1, nextparallel := - 1\<rparr>) s"
  have t: "same_but_links s ?t" by (rule same_but_links_station) simp
  show ?thesis using False g(5) t same_but_links_ok(2)[OF t]
    by (intro exI[of _ ?t]) (auto simp: linked_group_def is_parallel_def[of s])
qed
qed

lemma linked_group_keep:
  assumes "linked_group t x g" "x \<in> set g" "same_but_links t s" "\<forall>n\<in>set g. stats s n = stats t n"
  shows "linked_group s x g"
proof -
  have "dseg (\<lambda>n. nextparallel (stats s n)) (\<lambda>n. prevparallel (stats s n)) g"
    if "dseg (\<lambda>n. nextparallel (stats t n)) (\<lambda>n. prevparallel (stats t n)) g"
    by (rule dseg_cong[OF that]) (use assms(4) in \<open>auto dest: in_set_butlastD in_tlD\<close>)
  moreover have "last g \<in> set g" using assms(2) by (cases g) auto
  ultimately show ?thesis using assms same_but_links_ok(2)[OF assms(3)] by (simp add: linked_group_def)
qed

lemma fix_main_ok:
  assumes "fwd (\<lambda>n. st_next (stats s n)) (p # xs)" "station_ok s p" "\<forall>x\<in>set xs. group_ok s x (gs x)"
    "distinct (p # concat (map gs xs))" "length xs < k"
  shows "\<exists>s'. fix_main k p s = Some s' \<and> same_but_links s s' \<and>
    sys s' = (sys s)\<lparr>stat_tail := int (last (p # xs))\<rparr> \<and>
    (\<forall>n. n \<notin> (\<Union>x\<in>set xs. set (gs x)) \<longrightarrow> stats s' n = stats s n) \<and>
    (\<forall>n\<in>set (p # xs). st_next (stats s' n) = st_next (stats s n)) \<and>
    dseg (\<lambda>n. st_next (stats s' n)) (\<lambda>n. st_prev (stats s' n)) (p # xs) \<and>
    (\<forall>x\<in>set xs. linked_group s' x (gs x))"
  using assms
proof (induction xs arbitrary: p s k)
  case Nil
  then obtain k' where "k = Suc k'" by (cases k) auto
  with Nil show ?case
    by (intro exI[of _ "upd_sys (\<lambda>y. y\<lparr>stat_tail := num (stats s p)\<rparr>) s"])
      (auto simp: same_but_links_def station_ok_def)
next
  case (Cons x xs)
  obtain k' where k: "k = Suc k'" using Cons.prems(5) by (cases k) auto
  let ?t = "upd_station x (\<lambda>r. r\<lparr>st_prev := num (stats s p)\<rparr>) s"
  have t: "same_but_links s ?t" by (rule same_but_links_station) simp
  have gx: "group_ok s x (gs x)" using Cons.prems(3) by simp
  then have x: "x \<in> set (gs x)" "station_ok s x" by (rule group_ok_own)+
  have gt: "group_ok ?t x (gs x)" by (rule group_ok_keep[OF gx t]) simp
  have nxt: "st_next (stats s p) = int x" "st_ix s (int x) = Some x" "num (stats s p) = int p"
    using Cons.prems(1,2) x(2) by (simp_all add: station_ok_def st_ix_def)
  obtain t2 where t2: "(if flow_mode (config (stats ?t x)) = ET_STATION_PARALLEL
       then fix_parallel (nat (c_nstations (sys_config (sys ?t)))) x (upd_station x (\<lambda>r. r\<lparr>prevparallel := - 1\<rparr>) ?t)
       else Some (upd_station x (\<lambda>r. r\<lparr>prevparallel := - 1, nextparallel := - 1\<rparr>) ?t)) = Some t2"
    "same_but_links ?t t2" "sys t2 = sys ?t" "\<forall>n. n \<notin> set (gs x) \<longrightarrow> stats t2 n = stats ?t n"
    "st_next (stats t2 x) = st_next (stats ?t x)" "st_prev (stats t2 x) = st_prev (stats ?t x)" "linked_group t2 x (gs x)"
    using fix_group_ok[OF gt] by (elim exE conjE) (rule that)
  have st2: "same_but_links s t2" using same_but_links_trans[OF t t2(2)] .
  have out: "stats t2 n = stats s n" if "n \<notin> set (gs x)" for n using that t2(4) x(1) by auto
  have dis: "set (gs y) \<inter> set (gs x) = {}" if "y \<in> set xs" for y using that Cons.prems(4) by auto
  have own: "y \<in> set (gs y)" if "y \<in> set xs" for y by (rule group_ok_own(1)[of s]) (use that Cons.prems(3) in simp)
  have "fwd (\<lambda>n. st_next (stats t2 n)) (x # xs)"
  proof -
    have "st_next (stats t2 n) = st_next (stats s n)" if "n \<in> set (x # xs)" for n
      using that t2(5) out[of n] dis own by fastforce
    then show ?thesis using fwd_cong[of "x # xs" "\<lambda>n. st_next (stats t2 n)" "\<lambda>n. st_next (stats s n)"] Cons.prems(1) by simp
  qed
  moreover have "\<forall>y\<in>set xs. group_ok t2 y (gs y)"
  proof
    fix y assume y: "y \<in> set xs"
    have "stats t2 n = stats s n" if "n \<in> set (gs y)" for n
      by (rule out) (use that dis[OF y] in blast)
    then show "group_ok t2 y (gs y)"
      using group_ok_keep[OF _ st2, of y "gs y"] Cons.prems(3) y by simp
  qed
  moreover have "distinct (x # concat (map gs xs))" using Cons.prems(4) x(1) dis by auto
  moreover have "station_ok t2 x" using x(2) same_but_links_ok(1)[OF st2] by simp
  ultimately obtain s' where s': "fix_main k' x t2 = Some s'" "same_but_links t2 s'"
    "sys s' = (sys t2)\<lparr>stat_tail := int (last (x # xs))\<rparr>"
    "\<forall>n. n \<notin> (\<Union>x\<in>set xs. set (gs x)) \<longrightarrow> stats s' n = stats t2 n"
    "\<forall>n\<in>set (x # xs). st_next (stats s' n) = st_next (stats t2 n)"
    "dseg (\<lambda>n. st_next (stats s' n)) (\<lambda>n. st_prev (stats s' n)) (x # xs)"
    "\<forall>x\<in>set xs. linked_group s' x (gs x)"
    using Cons.IH[of t2 x k'] Cons.prems(5) k by auto
  have keep: "stats s' n = stats t2 n" if "n \<in> set (gs x)" for n using that s'(4) dis by auto
  have lg: "linked_group s' x (gs x)"
    by (rule linked_group_keep[OF t2(7) x(1) s'(2)]) (use keep in blast)
  have p: "p \<notin> set (gs x)" "p \<notin> (\<Union>x\<in>set xs. set (gs x))" "p \<noteq> x" using Cons.prems(4) x(1) by auto
  then have "stats s' p = stats s p" using s'(4) out by simp
  moreover have "st_prev (stats s' x) = int p" using keep[OF x(1)] t2(6) nxt(3) by simp
  moreover have "fix_main k p s = Some s'"
  proof -
    have "st_next (stats s p) > - 1" using nxt(1) by simp
    then show ?thesis unfolding k fix_main.simps nxt Let_def
      using t2(1)[unfolded nxt] s'(1) nxt(2) by simp
  qed
  moreover have "st_next (stats s' n) = st_next (stats s n)" if "n \<in> set (p # x # xs)" for n
    using that s'(5) \<open>stats s' p = stats s p\<close> t2(5) out[of n] dis own by fastforce
  moreover have "stats s' n = stats s n" if "n \<notin> (\<Union>x\<in>set (x # xs). set (gs x))" for n using that s'(4) out by simp
  ultimately show ?case using s' nxt(1) lg same_but_links_trans[OF st2 s'(2)] t2(3)
    by (intro exI[of _ s']) auto
qed

text \<open>From good forward links the repair makes good lists.\<close>

lemma fix_linkedlist_ok:
  assumes f: "fwd_layout s ns gs" and h: "stat_head (sys s) = 0"
  shows "\<exists>s'. et_fix_linkedlist s = Some s' \<and> layout_repr s' ns gs \<and> same_but_links s s'"
proof -
  obtain xs where ns: "ns = 0 # xs" using f by (cases ns) (auto simp: fwd_layout_def)
  have d: "distinct (concat (map gs ns))" using f by (simp add: fwd_layout_def)
  have g: "group_ok s x (gs x)" if "x \<in> set ns" for x
    using f that d by (auto simp: fwd_layout_def group_ok_def distinct_concat_iff)
  have gs0: "gs 0 = [0]" "station_ok s 0" using f ns by (auto simp: fwd_layout_def)
  have own: "x \<in> set (gs x)" if "x \<in> set ns" for x by (rule group_ok_own(1)[OF g[OF that]])
  have dns: "distinct ns"
    using d own by (induction ns) (auto dest: bspec)
  have okns: "\<forall>n\<in>set ns. station_ok s n" using g group_ok_own(2) by blast
  have "length xs < nat (c_nstations (sys_config (sys s)))" using station_count[OF okns dns] ns by simp
  moreover have "distinct (0 # concat (map gs xs))" using d gs0 ns by simp
  ultimately obtain s' where s': "fix_main (nat (c_nstations (sys_config (sys s)))) 0 s = Some s'" "same_but_links s s'"
    "sys s' = (sys s)\<lparr>stat_tail := int (last ns)\<rparr>"
    "\<forall>n\<in>set ns. st_next (stats s' n) = st_next (stats s n)"
    "dseg (\<lambda>n. st_next (stats s' n)) (\<lambda>n. st_prev (stats s' n)) ns"
    "\<forall>x\<in>set xs. linked_group s' x (gs x)"
    using fix_main_ok[of s 0 xs gs "nat (c_nstations (sys_config (sys s)))"] f g gs0(2) ns
    by (auto simp: fwd_layout_def)
  have ok': "\<forall>n\<in>set (gs x). station_ok s' n" if "x \<in> set ns" for x
    using g[OF that] same_but_links_ok(1)[OF s'(2)] by (simp add: group_ok_def)
  have "st_next (stats s' (last ns)) < 0"
    using s'(4) f fwd_last[of "\<lambda>n. st_next (stats s n)" ns] ns by (auto simp: fwd_layout_def)
  then have "main_repr s' ns" using s'(3,5) dns ns ok' own
    by (auto simp: main_repr_def dlist_def)
  moreover have "if flow_mode (config (stats s' x)) = ET_STATION_PARALLEL then group_repr s' (gs x) else gs x = [x]" if x: "x \<in> set ns" for x
  proof (cases "x = 0")
    case True
    then show ?thesis using gs0 f same_but_links_ok(2)[OF s'(2), of 0] by (simp add: fwd_layout_def is_parallel_def)
  next
    case False
    then have "linked_group s' x (gs x)" using s'(6) x ns by auto
    then show ?thesis using g[OF x] ok'[OF x] same_but_links_ok(2)[OF s'(2), of x]
      by (auto simp: linked_group_def group_ok_def group_repr_def dlist_def is_parallel_def)
  qed
  moreover have "hd (gs x) = x" if "x \<in> set ns" for x using g[OF that] by (simp add: group_ok_def)
  moreover have "st_ix s (stat_head (sys s)) = Some 0" using h gs0(2) st_ix_ok[of s 0] by simp
  ultimately show ?thesis using s'(1,2) d
    by (intro exI[of _ s']) (simp add: et_fix_linkedlist_def layout_repr_def)
qed

end
