(* ===== verification/EtRepair.thy ===== *)
theory EtRepair imports EtFix begin

text \<open>
  Repairing a station after a process died inside a critical section (\<^verbatim>\<open>et_repair_*\<close> of
  \<^verbatim>\<open>et_readwrite.c\<close>). The comments of that file promise that the reads and writes may stop anywhere
  and the repair brings the list back. To check it the critical sections are modelled here a second
  time, as lists of their single assignments (\<open>read_steps\<close>, \<open>write_steps\<close>): a death is a prefix of
  such a list, and all of it is the operation of \<^verbatim>\<open>EtRead\<close> and \<^verbatim>\<open>EtReadWrite\<close>.

  The walk of \<^verbatim>\<open>et_repair_inputlist\<close> has no bound in the code; here it has the number of events of
  the system as fuel, which is enough for a list without repetitions.
\<close>

section \<open>The repair routines\<close>

text \<open>
  The loop of \<^verbatim>\<open>et_repair_outputlist\<close>: at most \<open>k\<close> events from \<open>pe\<close> on get the owner -1 and are
  counted, all of them and the high priority ones; the boolean says that the last event was found.
\<close>

fun mark_out :: "nat \<Rightarrow> eptr \<Rightarrow> eptr \<Rightarrow> heap \<Rightarrow> int \<Rightarrow> int \<Rightarrow> (bool \<times> heap \<times> int \<times> int) option" where
  "mark_out 0 pe lst h c hi = Some (False, h, c, hi)"
| "mark_out (Suc k) pe lst h c hi = do {
     p \<leftarrow> pe;
     let h = set_owner p (- 1) h;
     let c = c + 1;
     let hi = (if priority (h p) = ET_HIGH then hi + 1 else hi);
     if pe = lst then Some (True, h, c, hi) else mark_out k (ev_next (h p)) lst h c hi }"

definition et_repair_outputlist :: "et_station \<times> heap \<Rightarrow> (int \<times> et_station \<times> heap) option" where
  "et_repair_outputlist = (\<lambda>(ps, h).
     let pl = list_out ps; start = fout_start (fixout ps);
         c0 = fout_cnt (fixout ps); n = fout_num (fixout ps);
         done_ps = ps\<lparr>fixout := (fixout ps)\<lparr>fout_start := 0\<rparr>\<rparr>
     in if start = 0 then Some (ET_OK, ps, h)
        else if cnt pl = c0 + n then Some (ET_OK, done_ps, h)
        else if cnt pl = 0 \<and> firstevent pl = None then Some (ET_OK, done_ps, h)
        else do {
          let pl = (if cnt pl = 0 \<and> firstevent pl \<noteq> None then pl\<lparr>lastevent := firstevent pl\<rparr> else pl);
          (good, h, c, hi) \<leftarrow> mark_out (nat (c0 + n)) (firstevent pl) (lastevent pl) h 0 0;
          Some (if good then ET_OK else ET_ERROR,
            done_ps\<lparr>list_out := cond_signal (pl\<lparr>cnt := c, lasthigh := hi\<rparr>)\<rparr>, h) })"

text \<open>The loop of \<^verbatim>\<open>et_repair_inputlist\<close>.\<close>

fun mark_in :: "nat \<Rightarrow> eptr \<Rightarrow> eptr \<Rightarrow> heap \<Rightarrow> int \<Rightarrow> (heap \<times> int) option" where
  "mark_in 0 pe lst h c = None"
| "mark_in (Suc k) pe lst h c = do {
     p \<leftarrow> pe;
     let h = set_owner p ET_SYS h;
     if pe = lst then Some (h, c + 1) else mark_in k (ev_next (h p)) lst h (c + 1) }"

definition et_repair_inputlist :: "nat \<Rightarrow> et_station \<times> heap \<Rightarrow> (int \<times> et_station \<times> heap) option" where
  "et_repair_inputlist nmax = (\<lambda>(ps, h).
     let pl = list_in ps; first = fin_first (fixin ps);
         c0 = fin_cnt (fixin ps); n = fin_num (fixin ps);
         done_ps = ps\<lparr>fixin := (fixin ps)\<lparr>fin_first := None\<rparr>\<rparr>
     in if first = None then Some (ET_OK, ps, h)
        else if cnt pl = c0 - n then Some (ET_OK, done_ps, h)
        else do {
          (h, c) \<leftarrow> mark_in nmax first (lastevent pl) h 0;
          Some (ET_OK, done_ps\<lparr>list_in := pl\<lparr>firstevent := first, cnt := c\<rparr>\<rparr>, h) })"

definition et_repair_gcinputlist :: "et_station \<times> heap \<Rightarrow> (int \<times> et_station \<times> heap) option" where
  "et_repair_gcinputlist = (\<lambda>(ps, h).
     let pl = list_in ps; start = fin_start (fixin ps);
         c0 = fin_cnt (fixin ps); n = fin_num (fixin ps);
         done_ps = ps\<lparr>fixin := (fixin ps)\<lparr>fin_start := 0\<rparr>\<rparr>
     in if start = 0 then Some (ET_OK, ps, h)
        else if cnt pl = c0 + n then Some (ET_OK, done_ps, h)
        else if cnt pl = 0 \<and> firstevent pl = None then Some (ET_OK, done_ps, h)
        else do {
          let pl = (if cnt pl = 0 \<and> firstevent pl \<noteq> None then pl\<lparr>lastevent := firstevent pl\<rparr> else pl);
          (good, h, c, _) \<leftarrow> mark_out (nat (c0 + n)) (firstevent pl) (lastevent pl) h 0 0;
          let pl = pl\<lparr>cnt := c\<rparr>;
          let pl = (if fin_eventsin (fixin ps) = events_in pl
                    then pl\<lparr>events_in := events_in pl + of_int (c - c0)\<rparr> else pl);
          Some (if good then ET_OK else ET_ERROR, done_ps\<lparr>list_in := pl\<rparr>, h) })"

definition out_unlock :: "nat \<Rightarrow> et_shm \<Rightarrow> et_shm" where
  "out_unlock n = upd_station n (\<lambda>ps. ps\<lparr>list_out := et_llist_unlock (list_out ps)\<rparr>)"

definition et_repair_station :: "(lock \<Rightarrow> nat \<Rightarrow> bool) \<Rightarrow> nat \<Rightarrow> int op" where
  "et_repair_station busy n s =
    (if et_mutex_locked (busy (InM n)) then do {
       (st, s) \<leftarrow> on_station n (et_repair_inputlist (nat (nevents_max s))) s;
       if st = ET_ERROR then Some (st, s) else Some (ET_OK, in_unlock n s) }
     else if et_mutex_locked (busy (OutM n)) then do {
       (st, s) \<leftarrow> on_station n et_repair_outputlist s;
       if st = ET_ERROR then Some (st, s) else Some (ET_OK, out_unlock n s) }
     else Some (ET_OK, s))"

definition et_repair_gc :: "(lock \<Rightarrow> nat \<Rightarrow> bool) \<Rightarrow> int op" where
  "et_repair_gc busy s =
    (if et_mutex_locked (busy (InM 0)) then do {
       (st, s) \<leftarrow> (if fin_call (fixin (stats s 0)) = ET_FIX_DUMP then on_station 0 et_repair_gcinputlist s
                  else on_station 0 (et_repair_inputlist (nat (nevents_max s))) s);
       if st = ET_ERROR then Some (st, s) else Some (ET_OK, in_unlock 0 s) }
     else Some (ET_OK, s))"

section \<open>A read, assignment by assignment\<close>

type_synonym micro = "et_station \<times> heap \<Rightarrow> et_station \<times> heap"

definition run_steps :: "micro list \<Rightarrow> micro" where
  "run_steps ms x = fold (\<lambda>m. m) ms x"

definition on_in :: "(et_list \<Rightarrow> et_list) \<Rightarrow> micro" where
  "on_in f = (\<lambda>(ps, h). (ps\<lparr>list_in := f (list_in ps)\<rparr>, h))"

definition on_fixin :: "(et_fixin \<Rightarrow> et_fixin) \<Rightarrow> micro" where
  "on_fixin f = (\<lambda>(ps, h). (ps\<lparr>fixin := f (fixin ps)\<rparr>, h))"

definition on_heap :: "(heap \<Rightarrow> heap) \<Rightarrow> micro" where
  "on_heap f = (\<lambda>(ps, h). (ps, f h))"

text \<open>
  The end of \<^verbatim>\<open>et_station_nread\<close> for \<open>n\<close> events of a list that holds \<open>c\<close> (\<open>n\<close> is already clipped):
  the events are \<open>pes\<close>.
\<close>

definition read_steps :: "int \<Rightarrow> int \<Rightarrow> nat list \<Rightarrow> et_list \<Rightarrow> heap \<Rightarrow> micro list" where
  "read_steps att n pes pl h =
    [on_fixin (\<lambda>f. f\<lparr>fin_num := n\<rparr>), on_fixin (\<lambda>f. f\<lparr>fin_cnt := cnt pl\<rparr>),
     on_fixin (\<lambda>f. f\<lparr>fin_call := ET_FIX_READ\<rparr>), on_fixin (\<lambda>f. f\<lparr>fin_first := firstevent pl\<rparr>)]
    @ map (\<lambda>p. on_heap (set_owner p att)) pes
    @ [on_in (\<lambda>pl. pl\<lparr>firstevent := ev_next (h (last pes))\<rparr>), on_in (\<lambda>pl. pl\<lparr>cnt := cnt pl - n\<rparr>),
       on_fixin (\<lambda>f. f\<lparr>fin_first := None\<rparr>), on_in et_llist_unlock]"

lemma run_steps_simps [simp]:
  "run_steps [] x = x" "run_steps (m # ms) x = run_steps ms (m x)"
  "run_steps (ms @ ms') x = run_steps ms' (run_steps ms x)"
  by (simp_all add: run_steps_def)

lemma micro_simps [simp]:
  "on_in f (ps, h) = (ps\<lparr>list_in := f (list_in ps)\<rparr>, h)" "on_fixin g (ps, h) = (ps\<lparr>fixin := g (fixin ps)\<rparr>, h)"
  "on_heap k (ps, h) = (ps, k h)"
  by (simp_all add: on_in_def on_fixin_def on_heap_def)

lemma run_owners [simp]: "run_steps (map (\<lambda>p. on_heap (set_owner p a)) ys) (ps, h) = (ps, set_owners ys a h)"
  by (induction ys arbitrary: h) simp_all

text \<open>All the steps together are the read of the model.\<close>

lemma read_steps_all:
  assumes r: "list_repr h (list_in ps) xs" and m: "1 \<le> n" "nat n \<le> length xs"
  shows "read_many att n (ps, h) = Some (Done (ET_OK, take (nat n) xs),
    run_steps (read_steps (int att) n (take (nat n) xs) (list_in ps) h) (ps, h))"
proof -
  note f = list_reprD[OF r]
  have ne: "xs \<noteq> []" and k: "nat (n - 1) < length xs" "Suc (nat (n - 1)) = nat n" using m by auto
  have "grab_events (int att) (nat (n - 1)) (hd xs) h = Some (take (nat n) xs, set_owners (take (nat n) xs) (int att) h)"
    using grab_events_ok[OF f(2) k(1)] k(2) by simp
  then show ?thesis using f(1,4) ne m by (simp add: read_many_def Let_def read_steps_def)
qed

text \<open>The walk of the repair over a good chain.\<close>

lemma mark_in_ok:
  "\<lbrakk>linked h xs; xs \<noteq> []; distinct xs; length xs \<le> k\<rbrakk> \<Longrightarrow>
   mark_in k (Some (hd xs)) (Some (last xs)) h c = Some (set_owners xs ET_SYS h, c + int (length xs))"
proof (induction xs arbitrary: h c k)
  case (Cons x xs)
  obtain k' where k: "k = Suc k'" using Cons.prems(4) by (cases k) auto
  show ?case
  proof (cases xs)
    case Nil
    then show ?thesis by (simp add: k)
  next
    case (Cons y ys)
    have "mark_in k' (Some (hd xs)) (Some (last xs)) (set_owner x ET_SYS h) (c + 1)
        = Some (set_owners xs ET_SYS (set_owner x ET_SYS h), c + 1 + int (length xs))"
      using Cons.IH Cons.prems k Cons by (intro Cons.IH) auto
    moreover have "x \<noteq> last xs" using Cons.prems(3) Cons by (metis distinct.simps(2) last_in_set list.distinct(1))
    moreover have "ev_next (h x) = Some y" using Cons.prems(1) Cons by simp
    ultimately show ?thesis using Cons by (simp add: k)
  qed
qed simp

text \<open>
  The three places a death can be at, told by the repair information: before the first step that
  matters, between it and the new count, after it.
\<close>

lemma take_append3: "take k (A @ M @ Z) = take k A @ take (k - length A) M @ take (k - length A - length M) Z"
  by simp

lemma repair_early:
  assumes "fin_first (fixin ps) = None"
  shows "et_repair_inputlist nmax (ps, h) = Some (ET_OK, ps, h)"
  using assms by (simp add: et_repair_inputlist_def Let_def)

lemma repair_late:
  assumes "fin_first (fixin ps) \<noteq> None" "cnt (list_in ps) = fin_cnt (fixin ps) - fin_num (fixin ps)"
  shows "et_repair_inputlist nmax (ps, h) = Some (ET_OK, ps\<lparr>fixin := (fixin ps)\<lparr>fin_first := None\<rparr>\<rparr>, h)"
  using assms by (auto simp: et_repair_inputlist_def Let_def)

lemma repair_middle:
  assumes "linked h xs" "xs \<noteq> []" "distinct xs" "length xs \<le> nmax"
    "fin_first (fixin ps) = Some (hd xs)" "lastevent (list_in ps) = Some (last xs)"
    "cnt (list_in ps) \<noteq> fin_cnt (fixin ps) - fin_num (fixin ps)"
  shows "et_repair_inputlist nmax (ps, h) = Some (ET_OK,
    ps\<lparr>fixin := (fixin ps)\<lparr>fin_first := None\<rparr>,
       list_in := (list_in ps)\<lparr>firstevent := Some (hd xs), cnt := int (length xs)\<rparr>\<rparr>, set_owners xs ET_SYS h)"
  using assms mark_in_ok[OF assms(1-4), of 0] by (simp add: et_repair_inputlist_def Let_def)

definition repaired_read ::
  "int \<Rightarrow> nat list \<Rightarrow> nat list \<Rightarrow> nat list \<Rightarrow> heap \<Rightarrow> et_station \<times> heap \<Rightarrow> bool" where
  "repaired_read att xs pes rest h = (\<lambda>(ps', h'). fin_first (fixin ps') = None \<and>
     (list_repr h' (list_in ps') xs \<and> (\<forall>p\<in>set xs. owner (h' p) = ET_SYS) \<or>
      list_repr h' (list_in ps') rest \<and> (\<forall>p\<in>set pes. owner (h' p) = att) \<and> (\<forall>p\<in>set rest. owner (h' p) = ET_SYS)) \<and>
     (\<forall>p. p \<notin> set xs \<longrightarrow> h' p = h p))"

text \<open>Wherever the reader dies, after the repair it has read all or nothing.\<close>

lemma read_death_repaired:
  assumes r: "list_repr h (list_in ps) xs" and o: "\<forall>p\<in>set xs. owner (h p) = ET_SYS"
    and n: "1 \<le> n" "nat n \<le> length xs" "length xs \<le> nmax" and i: "fin_first (fixin ps) = None"
  shows "\<exists>ps' h'. et_repair_inputlist nmax
      (run_steps (take k (read_steps att n (take (nat n) xs) (list_in ps) h)) (ps, h)) = Some (ET_OK, ps', h') \<and>
    repaired_read att xs (take (nat n) xs) (drop (nat n) xs) h (ps', h')"
proof -
  note f = list_reprD[OF r]
  let ?pes = "take (nat n) xs"
  have ne: "xs \<noteq> []" using n by auto
  let ?pl = "list_in ps"
  define A where "A = [on_fixin (\<lambda>f. f\<lparr>fin_num := n\<rparr>), on_fixin (\<lambda>f. f\<lparr>fin_cnt := cnt ?pl\<rparr>),
     on_fixin (\<lambda>f. f\<lparr>fin_call := ET_FIX_READ\<rparr>), on_fixin (\<lambda>f. f\<lparr>fin_first := firstevent ?pl\<rparr>)]"
  define M where "M = map (\<lambda>p. on_heap (set_owner p att)) ?pes"
  define Z where "Z = [on_in (\<lambda>pl. pl\<lparr>firstevent := ev_next (h (last ?pes))\<rparr>), on_in (\<lambda>pl. pl\<lparr>cnt := cnt pl - n\<rparr>),
     on_fixin (\<lambda>f. f\<lparr>fin_first := None\<rparr>), on_in et_llist_unlock]"
  have steps: "read_steps att n ?pes ?pl h = A @ M @ Z" by (simp add: read_steps_def A_def M_def Z_def)
  have len: "length A = 4" "length M = nat n" using n by (simp_all add: A_def M_def)
  let ?fx = "(fixin ps)\<lparr>fin_num := n, fin_cnt := cnt ?pl, fin_call := ET_FIX_READ, fin_first := Some (hd xs)\<rparr>"
  have allA: "run_steps A (ps, h) = (ps\<lparr>fixin := ?fx\<rparr>, h)" using f(4) ne by (simp add: A_def)
  have allM: "run_steps M (ps\<lparr>fixin := ?fx\<rparr>, h) = (ps\<lparr>fixin := ?fx\<rparr>, set_owners ?pes att h)" by (simp add: M_def)
  have again: "repaired_read att xs ?pes (drop (nat n) xs) h
      (ps'\<lparr>fixin := fx\<lparr>fin_first := None\<rparr>, list_in := pl'\<lparr>firstevent := Some (hd xs), cnt := int (length xs)\<rparr>\<rparr>,
       set_owners xs ET_SYS (set_owners ys att h))" if "lastevent pl' = Some (last xs)" "set ys \<subseteq> set xs" for ps' fx pl' ys
    using that f by (auto simp: repaired_read_def list_repr_def intro!: set_owners_simps(3))
  let ?pl' = "?pl\<lparr>firstevent := ev_next (h (last ?pes)), cnt := cnt ?pl - n\<rparr>"
  have fin: "repaired_read att xs ?pes (drop (nat n) xs) h (ps', set_owners ?pes att h)"
    if "list_in ps' = ?pl' \<or> list_in ps' = et_llist_unlock ?pl'" "fin_first (fixin ps') = None" for ps'
  proof -
    have "list_repr h ?pl' (drop (nat n) xs)"
      using f(1,3,5) ne n linked_next_drop[OF f(2), of "nat n"] linked_drop[OF f(2), of "nat n"]
      by (auto simp: list_repr_def)
    then have "list_repr (set_owners ?pes att h) (list_in ps') (drop (nat n) xs)" using that(1) by auto
    moreover have "owner (set_owners ?pes att h p) = ET_SYS" if "p \<in> set (drop (nat n) xs)" for p
      using that o f(3) set_take_disj_set_drop_if_distinct[OF f(3), of "nat n" "nat n"] by (auto dest: in_set_dropD)
    ultimately show ?thesis using that(2) by (auto simp: repaired_read_def intro!: set_owners_simps(3) dest: in_set_takeD)
  qed
  consider (early) "k < 4" | (marking) "4 \<le> k" "k < 4 + nat n" | (late) j where "k = 4 + nat n + j"
    by (metis not_less le_add_diff_inverse)
  then show ?thesis
  proof cases
    case early
    then have "k = 0 \<or> k = 1 \<or> k = 2 \<or> k = 3" by auto
    then have "\<exists>fx. run_steps (take k (A @ M @ Z)) (ps, h) = (ps\<lparr>fixin := fx\<rparr>, h) \<and> fin_first fx = None"
      using i by (auto simp: A_def intro: exI[of _ "fixin ps"])
    then show ?thesis unfolding steps using repair_early r o i f
      by (auto simp: repaired_read_def)
  next
    case marking
    have x: "run_steps (take k (A @ M @ Z)) (ps, h) = (ps\<lparr>fixin := ?fx\<rparr>, set_owners (take (k - 4) ?pes) att h)"
      using marking allA unfolding take_append3 len by (simp add: len M_def take_map)
    show ?thesis unfolding steps x
      by (subst repair_middle[where xs = xs]) (use f ne n in \<open>auto intro!: again dest: in_set_takeD\<close>)
  next
    case late
    have x: "run_steps (take k (A @ M @ Z)) (ps, h) = run_steps (take j Z) (ps\<lparr>fixin := ?fx\<rparr>, set_owners ?pes att h)"
      using late allA allM unfolding take_append3 len by (simp add: len)
    let ?h = "set_owners ?pes att h"
    consider "j = 0" | "j = 1" | "j = 2" | "j = 3" | "4 \<le> j" by linarith
    then show ?thesis
    proof cases
      case 1
      show ?thesis unfolding steps x 1
        by (simp, subst repair_middle[where xs = xs]) (use f ne n in \<open>auto intro!: again dest: in_set_takeD\<close>)
    next
      case 2
      show ?thesis unfolding steps x 2
        by (simp add: Z_def, subst repair_middle[where xs = xs]) (use f ne n in \<open>auto intro!: again dest: in_set_takeD\<close>)
    next
      case 3
      show ?thesis unfolding steps x 3
        by (simp add: Z_def numeral_2_eq_2, subst repair_late) (use f n in \<open>auto intro!: fin\<close>)
    next
      case 4
      show ?thesis unfolding steps x 4
        by (simp add: Z_def numeral_3_eq_3, subst repair_early) (use f n in \<open>auto intro!: fin\<close>)
    next
      case 5
      show ?thesis unfolding steps x using 5
        by (simp add: Z_def, subst repair_early) (use f n in \<open>auto intro!: fin\<close>)
    qed
  qed
qed

end
