(* ===== verification/EtCrash.thy ===== *)
theory EtCrash imports EtRepair begin

text \<open>
  Deaths inside \<^verbatim>\<open>et_station_nwrite\<close>. Its critical section is the list of its single assignments
  (\<open>write_steps\<close>); those that depend on the list, where a high priority event goes, are computed from
  the state the loop of \<open>EtReadWrite\<close> reaches. After any prefix the list is one of two chains, the one before
  or the one after the event being written (\<open>mid_put\<close>), and the repair makes an output list of it.
\<close>

section \<open>A write, assignment by assignment\<close>

definition on_out :: "(et_list \<Rightarrow> et_list) \<Rightarrow> micro" where
  "on_out f = (\<lambda>(ps, h). (ps\<lparr>list_out := f (list_out ps)\<rparr>, h))"

definition on_fixout :: "(et_fixout \<Rightarrow> et_fixout) \<Rightarrow> micro" where
  "on_fixout f = (\<lambda>(ps, h). (ps\<lparr>fixout := f (fixout ps)\<rparr>, h))"

text \<open>The assignments that write event \<open>p\<close>, in the state of the loop given.\<close>

definition put_steps :: "nat \<Rightarrow> heap \<times> et_list \<times> nat \<times> nat option \<Rightarrow> micro list" where
  "put_steps p = (\<lambda>(h, pl, lst, lh).
     let at_end = [on_heap (set_next lst (Some p)), on_out (\<lambda>pl. pl\<lparr>lastevent := Some p\<rparr>)] in
     (if priority (h p) = ET_LOW then at_end
      else (case lh of
          None \<Rightarrow> [on_heap (set_next p (firstevent pl)), on_out (\<lambda>pl. pl\<lparr>firstevent := Some p\<rparr>)]
        | Some q \<Rightarrow> if q = lst then at_end
                    else [on_heap (set_next p (ev_next (h q))), on_heap (set_next q (Some p))])
        @ [on_out (\<lambda>pl. pl\<lparr>lasthigh := lasthigh pl + 1\<rparr>)])
     @ [on_heap (set_owner p ET_SYS), on_out (\<lambda>pl. pl\<lparr>cnt := cnt pl + 1\<rparr>)])"

fun puts_steps :: "nat list \<Rightarrow> heap \<times> et_list \<times> nat \<times> nat option \<Rightarrow> micro list" where
  "puts_steps [] c = []"
| "puts_steps (p # ps) c = put_steps p c @ puts_steps ps (put_one p c)"

text \<open>The first event of a list that was empty, and the state of the loop after it.\<close>

definition first_steps :: "nat \<Rightarrow> heap \<Rightarrow> micro list" where
  "first_steps p h =
    [on_out (\<lambda>pl. pl\<lparr>firstevent := Some p\<rparr>), on_out (\<lambda>pl. pl\<lparr>lastevent := Some p\<rparr>), on_heap (set_owner p ET_SYS)]
    @ (if priority (h p) = ET_HIGH then [on_out (\<lambda>pl. pl\<lparr>lasthigh := 1\<rparr>)] else [])
    @ [on_out (\<lambda>pl. pl\<lparr>cnt := cnt pl + 1\<rparr>)]"

definition first_cursor :: "nat \<Rightarrow> heap \<Rightarrow> et_list \<Rightarrow> heap \<times> et_list \<times> nat \<times> nat option" where
  "first_cursor p h pl =
    (let pl = pl\<lparr>firstevent := Some p, lastevent := Some p\<rparr>;
         (pl, lh) = (if priority (h p) = ET_HIGH then (pl\<lparr>lasthigh := 1\<rparr>, Some p) else (pl, None))
     in (set_owner p ET_SYS h, pl\<lparr>cnt := cnt pl + 1\<rparr>, p, lh))"

text \<open>
  The whole critical section for the events \<open>pes\<close>; \<open>lst\<close> and \<open>lh\<close> are the last event of the list and its last
  high priority event, which the code finds before the loop.
\<close>

definition body_steps :: "nat list \<Rightarrow> et_list \<Rightarrow> heap \<Rightarrow> nat \<Rightarrow> nat option \<Rightarrow> micro list" where
  "body_steps pes pl h lst lh =
    (if cnt pl = 0 then first_steps (hd pes) h @ puts_steps (tl pes) (first_cursor (hd pes) h pl)
     else puts_steps pes (h, pl, lst, lh))"

definition write_steps :: "nat list \<Rightarrow> et_list \<Rightarrow> heap \<Rightarrow> nat \<Rightarrow> nat option \<Rightarrow> micro list" where
  "write_steps pes pl h lst lh =
    (if cnt pl = 0 then [on_out (\<lambda>pl. pl\<lparr>firstevent := None\<rparr>)] else [])
    @ [on_fixout (\<lambda>f. f\<lparr>fout_cnt := cnt pl\<rparr>), on_fixout (\<lambda>f. f\<lparr>fout_num := int (length pes)\<rparr>),
       on_fixout (\<lambda>f. f\<lparr>fout_start := fout_start f + 1\<rparr>)]
    @ body_steps pes (if cnt pl = 0 then pl\<lparr>firstevent := None\<rparr> else pl) h lst lh
    @ [on_fixout (\<lambda>f. f\<lparr>fout_start := fout_start f - 1\<rparr>), on_out et_llist_unlock]"

lemma out_micro_simps [simp]:
  "on_out f (ps, h) = (ps\<lparr>list_out := f (list_out ps)\<rparr>, h)" "on_fixout g (ps, h) = (ps\<lparr>fixout := g (fixout ps)\<rparr>, h)"
  by (simp_all add: on_out_def on_fixout_def)

text \<open>All the assignments of one event are the body of the loop.\<close>

lemma run_put_steps:
  "run_steps (put_steps p (h, list_out ps, lst, lh)) (ps, h) =
    (let (h', pl', _) = put_one p (h, list_out ps, lst, lh) in (ps\<lparr>list_out := pl'\<rparr>, h'))"
proof (cases "priority (h p) = ET_LOW")
  case True
  then show ?thesis by (simp add: put_steps_def put_one_def)
next
  case False
  show ?thesis
  proof (cases lh)
    case None
    then show ?thesis using False by (simp add: put_steps_def put_one_def insert_high_def)
  next
    case (Some q)
    then show ?thesis using False by (cases "q = lst") (simp_all add: put_steps_def put_one_def insert_high_def)
  qed
qed

lemma run_puts_steps:
  assumes "foldl (\<lambda>st p. put_one p st) (h, list_out ps, lst, lh) pes = (h', pl', lst', lh')"
  shows "run_steps (puts_steps pes (h, list_out ps, lst, lh)) (ps, h) = (ps\<lparr>list_out := pl'\<rparr>, h')"
  using assms
proof (induction pes arbitrary: ps h lst lh)
  case (Cons p pes)
  obtain h1 pl1 lst1 lh1 where one: "put_one p (h, list_out ps, lst, lh) = (h1, pl1, lst1, lh1)"
    by (metis prod_cases4)
  show ?case using Cons.IH[of h1 "ps\<lparr>list_out := pl1\<rparr>" lst1 lh1] Cons.prems one run_put_steps[of p h ps lst lh] by simp
qed simp

lemma run_first_steps:
  "run_steps (first_steps p h) (ps, h) =
    (let (h', pl', _) = first_cursor p h (list_out ps) in (ps\<lparr>list_out := pl'\<rparr>, h'))"
  by (cases "priority (h p) = ET_HIGH") (simp_all add: first_steps_def first_cursor_def)

text \<open>The states between the assignments: before each of them.\<close>

fun before :: "(et_station \<times> heap \<Rightarrow> bool) \<Rightarrow> micro list \<Rightarrow> et_station \<times> heap \<Rightarrow> bool" where
  "before Q [] x \<longleftrightarrow> True"
| "before Q (m # ms) x \<longleftrightarrow> Q x \<and> before Q ms (m x)"

lemma before_append [simp]: "before Q (ms @ ms') x \<longleftrightarrow> before Q ms x \<and> before Q ms' (run_steps ms x)"
  by (induction ms arbitrary: x) auto

lemma before_take:
  assumes "before Q ms x" "Q (run_steps ms x)"
  shows "Q (run_steps (take k ms) x)"
  using assms
proof (induction ms arbitrary: x k)
  case (Cons m ms)
  then show ?case by (cases k) auto
qed simp

lemma before_mono: "before Q ms x \<Longrightarrow> (\<And>y. Q y \<Longrightarrow> R y) \<Longrightarrow> before R ms x"
  by (induction ms arbitrary: x) auto

text \<open>
  The last event found before the loop and the last high priority event, as \<^verbatim>\<open>et_station_nwrite\<close> finds them.
\<close>

definition cursors :: "heap \<Rightarrow> nat list \<Rightarrow> nat \<Rightarrow> nat option \<Rightarrow> bool" where
  "cursors h xs lst lh \<longleftrightarrow> (xs \<noteq> [] \<longrightarrow> lst = last xs \<and>
     lh = (if takeWhile (high h) xs = [] then None else Some (last (takeWhile (high h) xs))))"

definition locked_out :: "et_station \<Rightarrow> et_station" where
  "locked_out ps = ps\<lparr>list_out := et_llist_lock (list_out ps)\<rparr>"

text \<open>All the assignments together, and the signal after them, are the write of the model.\<close>

lemma write_steps_all:
  assumes r: "out_repr h (list_out ps) xs" and n: "int (length xs) + int (length pes) \<le> nmax" and ne: "pes \<noteq> []"
    and cur: "cursors h xs lst lh"
  shows "et_station_nwrite nmax pes (ps, h) = Some (ET_OK,
    on_out cond_signal (run_steps (write_steps pes (list_out (locked_out ps)) h lst lh) (locked_out ps, h)))"
proof -
  note f = out_reprD[OF r]
  let ?pl = "et_llist_lock (list_out ps)"
  let ?fx = "(fixout ps)\<lparr>fout_cnt := cnt (list_out ps), fout_num := int (length pes), fout_start := fout_start (fixout ps) + 1\<rparr>"
  show ?thesis
  proof (cases "xs = []")
    case True
    obtain p qs where pes: "pes = p # qs" using ne by (cases pes) auto
    let ?ps = "ps\<lparr>list_out := ?pl\<lparr>firstevent := None\<rparr>, fixout := ?fx\<rparr>"
    obtain h1 pl1 l1 lh1 where c: "first_cursor p h (?pl\<lparr>firstevent := None\<rparr>) = (h1, pl1, l1, lh1)" by (metis prod_cases4)
    obtain h' pl' lst' lh' where fo: "foldl (\<lambda>st q. put_one q st) (h1, pl1, l1, lh1) qs = (h', pl', lst', lh')"
      by (metis prod_cases4)
    have "et_station_nwrite nmax pes (ps, h) = Some (ET_OK, ps\<lparr>list_out := cond_signal (et_llist_unlock pl'),
        fixout := ?fx\<lparr>fout_start := fout_start (fixout ps)\<rparr>\<rparr>, h')"
      using fo c f True n by (auto simp: et_station_nwrite_def pes Let_def first_cursor_def split: if_splits)
    moreover have "run_steps (first_steps p h) (?ps, h) = (?ps\<lparr>list_out := pl1\<rparr>, h1)"
      using run_first_steps[of p h ?ps] c by simp
    moreover have "run_steps (puts_steps qs (h1, pl1, l1, lh1)) (?ps\<lparr>list_out := pl1\<rparr>, h1) = (?ps\<lparr>list_out := pl'\<rparr>, h')"
      using run_puts_steps[of h1 "?ps\<lparr>list_out := pl1\<rparr>" l1 lh1 qs] fo by simp
    ultimately show ?thesis using f(1) True c
      by (simp add: write_steps_def body_steps_def pes locked_out_def)
  next
    case False
    let ?ps = "ps\<lparr>list_out := ?pl, fixout := ?fx\<rparr>"
    obtain h' pl' lst' lh' where fo: "foldl (\<lambda>st q. put_one q st) (h, ?pl, lst, lh) pes = (h', pl', lst', lh')"
      by (metis prod_cases4)
    have "et_station_nwrite nmax pes (ps, h) = Some (ET_OK, ps\<lparr>list_out := cond_signal (et_llist_unlock pl'),
        fixout := ?fx\<lparr>fout_start := fout_start (fixout ps)\<rparr>\<rparr>, h')"
    proof (cases "lasthigh (list_out ps) = 0")
      case True
      then have "takeWhile (high h) xs = []" using f(6) by simp
      then show ?thesis using True fo f False n ne cur
        by (simp add: et_station_nwrite_def Let_def cursors_def split: if_splits)
    next
      case nz: False
      note l = lasthigh_cursor[OF r False nz]
      then have "lh = Some (last (takeWhile (high h) xs))" "lst = last xs" using cur False by (simp_all add: cursors_def)
      then show ?thesis using nz fo f False n ne l(1)
        by (simp add: et_station_nwrite_def Let_def split: if_splits)
    qed
    moreover have "run_steps (puts_steps pes (h, ?pl, lst, lh)) (?ps, h) = (?ps\<lparr>list_out := pl'\<rparr>, h')"
      using run_puts_steps[of h ?ps lst lh pes] fo by simp
    ultimately show ?thesis using f(1) False
      by (simp add: write_steps_def body_steps_def locked_out_def)
  qed
qed

section \<open>The repair of a chain\<close>

text \<open>A chain: an output list up to its counts and owners.\<close>

definition chain :: "heap \<Rightarrow> et_list \<Rightarrow> nat list \<Rightarrow> bool" where
  "chain h pl ys \<longleftrightarrow> ys \<noteq> [] \<and> distinct ys \<and> linked h ys \<and> high_first h ys \<and>
     firstevent pl = Some (hd ys) \<and> (cnt pl \<noteq> 0 \<longrightarrow> lastevent pl = Some (last ys)) \<and> (cnt pl = 0 \<longrightarrow> length ys = 1)"

lemma mark_out_ok:
  "\<lbrakk>linked h ys; ys \<noteq> []; distinct ys; length ys \<le> k\<rbrakk> \<Longrightarrow>
   mark_out k (Some (hd ys)) (Some (last ys)) h c hi =
     Some (True, set_owners ys (- 1) h, c + int (length ys), hi + int (length (filter (high h) ys)))"
proof (induction ys arbitrary: h c hi k)
  case (Cons x ys)
  obtain k' where k: "k = Suc k'" using Cons.prems(4) by (cases k) auto
  show ?case
  proof (cases ys)
    case Nil
    then show ?thesis by (simp add: k high_def)
  next
    case (Cons y zs)
    let ?hi = "if high h x then hi + 1 else hi"
    have "mark_out k' (Some (hd ys)) (Some (last ys)) (set_owner x (- 1) h) (c + 1) ?hi =
        Some (True, set_owners ys (- 1) (set_owner x (- 1) h), c + 1 + int (length ys), ?hi + int (length (filter (high h) ys)))"
      using Cons.IH[of "set_owner x (- 1) h" k' "c + 1" ?hi] Cons.prems k Cons by simp
    moreover have "x \<noteq> last ys" using Cons.prems(3) Cons by (metis distinct.simps(2) last_in_set list.distinct(1))
    moreover have "ev_next (h x) = Some (hd ys)" "ys \<noteq> []" using Cons.prems(1) Cons by simp_all
    ultimately show ?thesis by (simp add: k high_def[of h x])
  qed
qed simp

lemma filter_high_first: "high_first h ys \<Longrightarrow> filter (high h) ys = takeWhile (high h) ys"
proof -
  assume "high_first h ys"
  then obtain A B where "ys = A @ B" "\<forall>p\<in>set A. high h p" "\<forall>p\<in>set B. \<not> high h p" "takeWhile (high h) ys = A"
    by (metis high_first_split)
  then show ?thesis by (simp add: filter_empty_conv filter_id_conv)
qed

lemma high_set_owners [simp]: "high (set_owners ys a h) = high h"
  by (induction ys arbitrary: h) auto

lemma repair_chain:
  assumes c: "chain h (list_out ps) ys" and f: "fout_start (fixout ps) \<noteq> 0"
    "cnt (list_out ps) \<noteq> fout_cnt (fixout ps) + fout_num (fixout ps)"
    and n: "int (length ys) \<le> fout_cnt (fixout ps) + fout_num (fixout ps)"
  shows "\<exists>ps'. et_repair_outputlist (ps, h) = Some (ET_OK, ps', set_owners ys (- 1) h) \<and>
    out_repr (set_owners ys (- 1) h) (list_out ps') ys \<and> fout_start (fixout ps') = 0"
proof -
  let ?pl = "if cnt (list_out ps) = 0 \<and> firstevent (list_out ps) \<noteq> None
             then (list_out ps)\<lparr>lastevent := firstevent (list_out ps)\<rparr> else list_out ps"
  have l: "firstevent ?pl = Some (hd ys)" "lastevent ?pl = Some (last ys)"
    using c by (auto simp: chain_def length_Suc_conv)
  have ch: "ys \<noteq> []" "distinct ys" "linked h ys" "high_first h ys" using c by (simp_all add: chain_def)
  have m: "mark_out (nat (fout_cnt (fixout ps) + fout_num (fixout ps))) (firstevent ?pl) (lastevent ?pl) h 0 0 =
      Some (True, set_owners ys (- 1) h, int (length ys), int (length (takeWhile (high h) ys)))"
    using mark_out_ok[OF ch(3,1,2), of "nat (fout_cnt (fixout ps) + fout_num (fixout ps))" 0 0] n
    unfolding l by (simp add: filter_high_first[OF ch(4)])
  have "firstevent (list_out ps) = Some (hd ys)" using c by (simp add: chain_def)
  then have "et_repair_outputlist (ps, h) = Some (ET_OK,
      ps\<lparr>fixout := (fixout ps)\<lparr>fout_start := 0\<rparr>,
         list_out := cond_signal (?pl\<lparr>cnt := int (length ys), lasthigh := int (length (takeWhile (high h) ys))\<rparr>)\<rparr>,
      set_owners ys (- 1) h)"
    using f m by (simp add: et_repair_outputlist_def Let_def)
  moreover have "high_first (set_owners ys (- 1) h) ys"
    using ch(4) high_first_high[of "set_owners ys (- 1) h" h] by simp
  ultimately show ?thesis using l ch by (simp add: out_repr_def list_repr_def)
qed

section \<open>Between the assignments of one event\<close>

definition mid_put :: "nat \<Rightarrow> nat list \<Rightarrow> et_station \<times> heap \<Rightarrow> et_station \<times> heap \<Rightarrow> bool" where
  "mid_put p xs = (\<lambda>(ps, h) (ps', h').
     fixout ps' = fixout ps \<and> cnt (list_out ps') = cnt (list_out ps) \<and> same_events h h' (insert p (set xs)) \<and>
     (\<forall>q. q \<noteq> p \<longrightarrow> owner (h' q) = owner (h q)) \<and>
     (chain h' (list_out ps') xs \<and> owner (h' p) = owner (h p) \<or> chain h' (list_out ps') (ins_event h p xs)))"

lemma chain_owner [simp]: "chain (set_owner p a h) pl ys = chain h pl ys"
  by (simp add: chain_def)

lemma chain_lasthigh [simp]: "chain h (pl\<lparr>lasthigh := lh\<rparr>) ys = chain h pl ys"
  by (simp add: chain_def)

lemma chain_set_next_last:
  assumes "chain h pl xs"
  shows "chain (set_next (last xs) q h) pl xs"
proof -
  obtain zs z where "xs = zs @ [z]" using assms unfolding chain_def by (metis rev_exhaust)
  then show ?thesis using assms linked_upd_last[of zs z q h] by (simp add: chain_def)
qed

lemma chain_set_next_other: "chain h pl xs \<Longrightarrow> p \<notin> set xs \<Longrightarrow> chain (set_next p q h) pl xs"
  by (simp add: chain_def linked_upd_other)

lemma wcur_chain:
  assumes "wcur (set_owner p a h) pl' lst lh ys" "firstevent pl = firstevent pl'" "lastevent pl = lastevent pl'" "cnt pl \<noteq> 0"
  shows "chain h pl ys"
  using assms wcur_facts[OF assms(1)] by (simp add: chain_def)

text \<open>Every state between the assignments of one event holds the old chain or the new one.\<close>

lemma put_steps_mid:
  assumes w: "wcur h (list_out ps) lst lh xs" and p: "p \<notin> set xs" and pr: "prio_ok h {p}"
  shows "before (mid_put p xs (ps, h)) (put_steps p (h, list_out ps, lst, lh)) (ps, h)"
proof -
  note f = wcur_facts[OF w]
  obtain h' pl' lst' lh' where one: "put_one p (h, list_out ps, lst, lh) = (h', pl', lst', lh')" by (metis prod_cases4)
  note w' = put_one_wcur[OF w p pr one]
  have old: "chain h (list_out ps) xs" "cnt (list_out ps) \<noteq> 0" using f by (simp_all add: chain_def)
  have mem: "last xs \<in> insert p (set xs)" "case lh of None \<Rightarrow> True | Some q \<Rightarrow> q \<in> insert p (set xs)"
    using wcur_frame_sets[OF w, of "insert p (set xs)"] f(4) by auto
  let ?h1 = "set_next (last xs) (Some p) h" and ?pl1 = "(list_out ps)\<lparr>lastevent := Some p\<rparr>"
  have ends: "same_events h ?h1 (insert p (set xs))" "chain ?h1 (list_out ps) xs"
    using same_events_set_next[OF mem(1)] chain_set_next_last[OF old(1)] by simp_all
  have s1: "same_events h1 (set_owner p a h1) (insert p (set xs))" for h1 a by (simp add: same_events_set_owner)
  note s2 = same_events_step[OF _ s1]
  consider (low) "priority (h p) = ET_LOW" | (front) "priority (h p) = ET_HIGH" "lh = None"
    | (behind) "priority (h p) = ET_HIGH" "lh = Some lst" | (mid) q where "priority (h p) = ET_HIGH" "lh = Some q" "q \<noteq> lst"
    using pr by (cases lh) (auto simp: prio_ok_def)
  then show ?thesis
  proof cases
    case low
    have "chain ?h1 ?pl1 (ins_event h p xs)"
      using w' one low f(4) by (intro wcur_chain[of p ET_SYS _ pl' lst' lh']) (auto simp: put_one_def old(2))
    then show ?thesis using low old ends s2[OF ends(1)] f(4) by (simp add: put_steps_def Let_def mid_put_def)
  next
    case behind
    have "chain ?h1 ?pl1 (ins_event h p xs)"
      using w' one behind f(4) by (intro wcur_chain[of p ET_SYS _ pl' lst' lh']) (auto simp: put_one_def insert_high_def old(2))
    then show ?thesis using behind old ends s2[OF ends(1)] f(4) by (simp add: put_steps_def Let_def mid_put_def)
  next
    case front
    let ?h2 = "set_next p (firstevent (list_out ps)) h" and ?pl2 = "(list_out ps)\<lparr>firstevent := Some p\<rparr>"
    have "chain ?h2 ?pl2 (ins_event h p xs)"
      using w' one front by (intro wcur_chain[of p ET_SYS _ pl' lst' lh']) (auto simp: put_one_def insert_high_def old(2))
    moreover have e: "same_events h ?h2 (insert p (set xs))" by (simp add: same_events_set_next)
    ultimately show ?thesis using front old chain_set_next_other[OF old(1) p] s2[OF e]
      by (simp add: put_steps_def Let_def mid_put_def)
  next
    case mid
    let ?h2 = "set_next p (ev_next (h q)) h" and ?h3 = "set_next q (Some p) (set_next p (ev_next (h q)) h)"
    have "chain ?h3 (list_out ps) (ins_event h p xs)"
      using w' one mid by (intro wcur_chain[of p ET_SYS _ pl' lst' lh']) (auto simp: put_one_def insert_high_def old(2))
    moreover have e: "same_events h ?h2 (insert p (set xs))" by (simp add: same_events_set_next)
    moreover have e3: "same_events h ?h3 (insert p (set xs))"
      using same_events_step[OF e same_events_set_next] mem(2) mid(2) by simp
    ultimately show ?thesis using mid old chain_set_next_other[OF old(1) p] s2[OF e3]
      by (simp add: put_steps_def Let_def mid_put_def)
  qed
qed

section \<open>Deaths in the loop\<close>

text \<open>The state in the middle of writing \<open>pes\<close> to a list that held \<open>xs\<close>: \<open>j\<close> events are in the chain.\<close>

definition torn :: "nat list \<Rightarrow> nat list \<Rightarrow> heap \<Rightarrow> et_fixout \<Rightarrow> et_station \<times> heap \<Rightarrow> bool" where
  "torn pes xs h fx = (\<lambda>(ps', h'). fixout ps' = fx \<and>
     cnt (list_out ps') < int (length xs) + int (length pes) \<and> same_events h h' (set xs \<union> set pes) \<and>
     (\<exists>j \<le> length pes. chain h' (list_out ps') (ins_events h (take j pes) xs) \<and>
        (\<forall>q. q \<notin> set (take j pes) \<longrightarrow> owner (h' q) = owner (h q))))"

lemma puts_steps_torn:
  assumes "pes = as @ qs" "distinct pes" "set pes \<inter> set xs = {}" "prio_ok h0 (set pes)"
    "wcur h (list_out ps) lst lh (ins_events h0 as xs)" "same_events h0 h (set xs \<union> set pes)"
    "\<forall>q. q \<notin> set as \<longrightarrow> owner (h q) = owner (h0 q)"
  shows "before (torn pes xs h0 (fixout ps)) (puts_steps qs (h, list_out ps, lst, lh)) (ps, h)"
  using assms
proof (induction qs arbitrary: "as" h ps lst lh)
  case (Cons q qs)
  note w = Cons.prems(5)
  let ?X = "ins_events h0 as xs"
  have q: "q \<notin> set ?X" "q \<in> set pes" using Cons.prems(1-3) by auto
  have pr: "prio_ok h {q}" using Cons.prems(4,6) q(2) by (simp add: prio_ok_def same_events_fields)
  have app: "ins_events h0 (as @ [q]) xs = ins_event h q ?X"
    by (simp add: ins_events_append ins_event_cong[OF Cons.prems(6)])
  have sub: "insert q (set ?X) \<subseteq> set xs \<union> set pes" using Cons.prems(1) by auto
  have mid: "torn pes xs h0 (fixout ps) y" if "mid_put q ?X (ps, h) y" for y
  proof -
    obtain ps' h' where y: "y = (ps', h')" by (cases y)
    have m: "fixout ps' = fixout ps" "cnt (list_out ps') = cnt (list_out ps)" "same_events h h' (insert q (set ?X))"
      "\<And>r. r \<noteq> q \<Longrightarrow> owner (h' r) = owner (h r)"
      "chain h' (list_out ps') ?X \<and> owner (h' q) = owner (h q) \<or> chain h' (list_out ps') (ins_event h q ?X)"
      using that by (simp_all add: y mid_put_def)
    have se: "same_events h0 h' (set xs \<union> set pes)"
      using same_events_step[OF Cons.prems(6) same_events_mono[OF m(3) sub]] .
    have c: "cnt (list_out ps') < int (length xs) + int (length pes)"
      using wcur_facts(7)[OF w] Cons.prems(1) m(2) by simp
    from m(5) show ?thesis
    proof
      assume "chain h' (list_out ps') ?X \<and> owner (h' q) = owner (h q)"
      moreover have "owner (h' r) = owner (h0 r)" if "r \<notin> set as" for r
        using that m(4)[of r] Cons.prems(7) calculation by (cases "r = q") auto
      ultimately show ?thesis using m(1) c se Cons.prems(1)
        by (auto simp: torn_def y intro!: exI[of _ "length as"])
    next
      assume "chain h' (list_out ps') (ins_event h q ?X)"
      then show ?thesis using m(1,4) c se Cons.prems(1,7) app
        by (auto simp: torn_def y intro!: exI[of _ "Suc (length as)"])
    qed
  qed
  obtain h1 pl1 lst1 lh1 where one: "put_one q (h, list_out ps, lst, lh) = (h1, pl1, lst1, lh1)" by (metis prod_cases4)
  have A: "lst \<in> set xs \<union> set pes" "q \<in> set xs \<union> set pes" "case lh of None \<Rightarrow> True | Some r \<Rightarrow> r \<in> set xs \<union> set pes"
    using wcur_frame_sets[OF w, of "set xs \<union> set pes"] q(2) Cons.prems(1) by auto
  note fr = put_one_frame[OF one A]
  have "before (torn pes xs h0 (fixout (ps\<lparr>list_out := pl1\<rparr>)))
      (puts_steps qs (h1, list_out (ps\<lparr>list_out := pl1\<rparr>), lst1, lh1)) (ps\<lparr>list_out := pl1\<rparr>, h1)"
  proof (rule Cons.IH[of "as @ [q]"])
    show "wcur h1 (list_out (ps\<lparr>list_out := pl1\<rparr>)) lst1 lh1 (ins_events h0 (as @ [q]) xs)"
      using put_one_wcur[OF w q(1) pr one] app by simp
    show "same_events h0 h1 (set xs \<union> set pes)" by (rule same_events_step[OF Cons.prems(6) fr(1)])
    show "\<forall>r. r \<notin> set (as @ [q]) \<longrightarrow> owner (h1 r) = owner (h0 r)" using fr(3) Cons.prems(7) by simp
  qed (use Cons.prems in simp_all)
  then show ?case using before_mono[OF put_steps_mid[OF w q(1) pr] mid] run_put_steps[of q h ps lst lh] one by simp
qed simp

text \<open>What the repair leaves: the list with the first \<open>j\<close> events in it, the others still their owner's.\<close>

definition repaired_write :: "nat list \<Rightarrow> nat list \<Rightarrow> heap \<Rightarrow> et_station \<times> heap \<Rightarrow> bool" where
  "repaired_write pes xs h = (\<lambda>(ps', h'). fout_start (fixout ps') = 0 \<and> same_events h h' (set xs \<union> set pes) \<and>
     (\<exists>j \<le> length pes. out_repr h' (list_out ps') (ins_events h (take j pes) xs) \<and>
        (\<forall>p\<in>set xs \<union> set (take j pes). owner (h' p) = ET_SYS) \<and>
        (\<forall>p\<in>set (drop j pes). owner (h' p) = owner (h p))))"

definition repairs_to :: "(et_station \<times> heap \<Rightarrow> bool) \<Rightarrow> et_station \<times> heap \<Rightarrow> bool" where
  "repairs_to P y \<longleftrightarrow> (\<exists>ps' h'. et_repair_outputlist y = Some (ET_OK, ps', h') \<and> P (ps', h'))"

lemma torn_repaired:
  assumes t: "torn pes xs h fx y" and fx: "fout_start fx \<noteq> 0" "fout_cnt fx = int (length xs)" "fout_num fx = int (length pes)"
    and d: "distinct pes" "set pes \<inter> set xs = {}"
  shows "repairs_to (repaired_write pes xs h) y"
proof -
  obtain ps1 h1 where y: "y = (ps1, h1)" by (cases y)
  obtain j where j: "j \<le> length pes" "chain h1 (list_out ps1) (ins_events h (take j pes) xs)"
    "\<forall>q. q \<notin> set (take j pes) \<longrightarrow> owner (h1 q) = owner (h q)"
    and b: "fixout ps1 = fx" "cnt (list_out ps1) < int (length xs) + int (length pes)" "same_events h h1 (set xs \<union> set pes)"
    using t unfolding torn_def y by auto
  let ?ys = "ins_events h (take j pes) xs"
  let ?h' = "set_owners ?ys (- 1) h1"
  obtain ps' where ps': "et_repair_outputlist (ps1, h1) = Some (ET_OK, ps', ?h')" "out_repr ?h' (list_out ps') ?ys"
    "fout_start (fixout ps') = 0"
    using repair_chain[OF j(2)] fx b(1,2) j(1) by auto
  have "set ?ys \<subseteq> set xs \<union> set pes" by (auto dest: in_set_takeD)
  then have "same_events h ?h' (set xs \<union> set pes)" by (rule same_events_step[OF b(3) same_events_set_owners])
  moreover have "q \<notin> set (take j pes) \<and> q \<notin> set xs" if "q \<in> set (drop j pes)" for q
    using that d set_take_disj_set_drop_if_distinct[OF d(1), of j j] by (auto dest: in_set_dropD)
  then have "\<forall>q\<in>set (drop j pes). owner (?h' q) = owner (h q)" using j(3) by auto
  ultimately have "repaired_write pes xs h (ps', ?h')"
    unfolding repaired_write_def split_conv using j(1) ps'(2,3) by (intro conjI exI[of _ j]) auto
  then show ?thesis using ps'(1) y by (auto simp: repairs_to_def)
qed

lemma repair_nothing:
  assumes "fout_start (fixout ps') = 0 \<or> cnt (list_out ps') = fout_cnt (fixout ps') + fout_num (fixout ps') \<or>
      cnt (list_out ps') = 0 \<and> firstevent (list_out ps') = None"
    "same_events h h' (set xs \<union> set pes)" "j \<le> length pes" "out_repr h' (list_out ps') (ins_events h (take j pes) xs)"
    "\<forall>p\<in>set xs \<union> set (take j pes). owner (h' p) = ET_SYS" "\<forall>p\<in>set (drop j pes). owner (h' p) = owner (h p)"
  shows "repairs_to (repaired_write pes xs h) (ps', h')"
  using assms by (auto simp: repairs_to_def et_repair_outputlist_def Let_def repaired_write_def)

lemma ins_event_Nil [simp]: "ins_event h p [] = [p]"
  by (simp add: ins_event_def)

lemma high_first_one [simp]: "high_first h [p]"
  by (simp add: high_first_def)

lemma first_cursor_wcur:
  assumes "out_repr h pl []" "prio_ok h {p}"
  shows "\<exists>pl1 lh1. first_cursor p h pl = (set_owner p ET_SYS h, pl1, p, lh1) \<and> wcur (set_owner p ET_SYS h) pl1 p lh1 [p]"
proof -
  have z: "cnt pl = 0" "lasthigh pl = 0" using out_reprD[OF assms(1)] by simp_all
  define pl1 where "pl1 = pl\<lparr>firstevent := Some p, lastevent := Some p, lasthigh := (if high h p then 1 else 0), cnt := 1\<rparr>"
  have "pl\<lparr>lasthigh := 0\<rparr> = pl" using z(2) by (cases pl) simp
  then have "first_cursor p h pl = (set_owner p ET_SYS h, pl1, p, if high h p then Some p else None)"
    using z(1) by (cases pl) (simp add: first_cursor_def high_def pl1_def)
  moreover have "wcur (set_owner p ET_SYS h) pl1 p (if high h p then Some p else None) [p]"
    by (simp add: wcur_def out_repr_def list_repr_def pl1_def)
  ultimately show ?thesis by blast
qed

text \<open>The body of the critical section, once the repair information is set.\<close>

lemma body_repaired:
  assumes r: "out_repr h (list_out ps) xs" and o: "\<forall>p\<in>set xs. owner (h p) = ET_SYS"
    and d: "distinct pes" "set pes \<inter> set xs = {}" and pr: "prio_ok h (set pes)" and ne: "pes \<noteq> []"
    and z: "fout_start (fixout ps) \<noteq> 0" "fout_cnt (fixout ps) = int (length xs)" "fout_num (fixout ps) = int (length pes)"
    and cur: "cursors h xs lst lh" and e: "xs = [] \<longrightarrow> firstevent (list_out ps) = None"
  shows "before (repairs_to (repaired_write pes xs h)) (body_steps pes (list_out ps) h lst lh) (ps, h) \<and>
    (\<exists>pl' h'. run_steps (body_steps pes (list_out ps) h lst lh) (ps, h) = (ps\<lparr>list_out := pl'\<rparr>, h') \<and>
      out_repr h' pl' (ins_events h pes xs) \<and> same_events h h' (set xs \<union> set pes) \<and>
      (\<forall>p\<in>set xs \<union> set pes. owner (h' p) = ET_SYS))"
proof -
  note f = out_reprD[OF r]
  have torn: "before (repairs_to (repaired_write pes xs h)) ms y" if "before (torn pes xs h (fixout ps)) ms y" for ms y
    by (rule before_mono[OF that]) (rule torn_repaired[OF _ z d])
  show ?thesis
  proof (cases "xs = []")
    case True
    obtain p qs where pes: "pes = p # qs" using ne by (cases pes) auto
    have pr1: "prio_ok h {p}" using pr by (simp add: pes prio_ok_def)
    obtain pl1 lh1 where c: "first_cursor p h (list_out ps) = (set_owner p ET_SYS h, pl1, p, lh1)"
      "wcur (set_owner p ET_SYS h) pl1 p lh1 [p]"
      using first_cursor_wcur[OF _ pr1] r True by blast
    let ?h1 = "set_owner p ET_SYS h" and ?ps1 = "ps\<lparr>list_out := pl1\<rparr>"
    have se: "same_events h ?h1 (set pes)" by (simp add: pes same_events_set_owner)
    have start: "repairs_to (repaired_write pes xs h) (ps, h)"
      by (rule repair_nothing[where j = 0]) (use True f e o r in auto)
    have one: "torn pes xs h (fixout ps) (ps\<lparr>list_out := pl\<rparr>, h')"
      if "firstevent pl = Some p" "cnt pl = 0" "h' = h \<or> h' = ?h1" for pl h'
      using that True by (auto simp: torn_def pes chain_def intro!: exI[of _ 1] same_events_set_owner)
    have b1: "before (repairs_to (repaired_write pes xs h)) (first_steps p h) (ps, h)"
      using start torn_repaired[OF one z d] f True by (auto simp: first_steps_def)
    have "before (torn pes xs h (fixout ?ps1)) (puts_steps qs (?h1, list_out ?ps1, p, lh1)) (?ps1, ?h1)"
      by (rule puts_steps_torn[where as = "[p]"]) (use d pr c(2) True se in \<open>auto simp: pes ins_event_def\<close>)
    then have b2: "before (repairs_to (repaired_write pes xs h)) (puts_steps qs (?h1, pl1, p, lh1)) (?ps1, ?h1)"
      using torn by simp
    obtain h' pl' lst' lh' where fo: "foldl (\<lambda>st q. put_one q st) (?h1, pl1, p, lh1) qs = (h', pl', lst', lh')" by (metis prod_cases4)
    have side: "distinct qs" "set qs \<inter> set [p] = {}" "prio_ok ?h1 (set qs)" "set [p] \<subseteq> set pes" "set qs \<subseteq> set pes"
      using pr d by (auto simp: pes prio_ok_def)
    have L: "wcur h' pl' lst' lh' (ins_events ?h1 qs [p])" "same_events ?h1 h' (set pes)" "\<forall>q\<in>set qs. owner (h' q) = ET_SYS"
      "\<forall>q. q \<notin> set qs \<longrightarrow> owner (h' q) = owner (?h1 q)"
      using put_loop[OF c(2) side fo] by blast+
    have bs: "body_steps pes (list_out ps) h lst lh = first_steps p h @ puts_steps qs (?h1, pl1, p, lh1)"
      using f(1) True c(1) by (simp add: body_steps_def pes)
    have r1: "run_steps (first_steps p h) (ps, h) = (?ps1, ?h1)" using run_first_steps[of p h ps] c(1) by simp
    have "run_steps (puts_steps qs (?h1, pl1, p, lh1)) (?ps1, ?h1) = (ps\<lparr>list_out := pl'\<rparr>, h')"
      using run_puts_steps[of ?h1 ?ps1 p lh1 qs h' pl' lst' lh'] fo by simp
    then have run: "run_steps (body_steps pes (list_out ps) h lst lh) (ps, h) = (ps\<lparr>list_out := pl'\<rparr>, h')"
      unfolding bs using r1 by simp
    have "ins_events ?h1 qs [p] = ins_events h pes xs" using ins_events_cong[OF se] True by (simp add: pes)
    then have "out_repr h' pl' (ins_events h pes xs)" using L(1) by (simp add: wcur_def)
    moreover have "same_events h h' (set xs \<union> set pes)" using same_events_step[OF se L(2)] True by simp
    moreover have "\<forall>q\<in>set xs \<union> set pes. owner (h' q) = ET_SYS" using L(3,4) True by (auto simp: pes)
    moreover have "before (repairs_to (repaired_write pes xs h)) (body_steps pes (list_out ps) h lst lh) (ps, h)"
      unfolding bs using b1 b2 r1 by simp
    ultimately show ?thesis using run by blast
  next
    case False
    have w: "wcur h (list_out ps) lst lh xs" using r False cur by (simp add: wcur_def cursors_def)
    have "before (torn pes xs h (fixout ps)) (puts_steps pes (h, list_out ps, lst, lh)) (ps, h)"
      by (rule puts_steps_torn[where as = "[]"]) (use d pr w in simp_all)
    then have b: "before (repairs_to (repaired_write pes xs h)) (puts_steps pes (h, list_out ps, lst, lh)) (ps, h)"
      by (rule torn)
    obtain h' pl' lst' lh' where fo: "foldl (\<lambda>st q. put_one q st) (h, list_out ps, lst, lh) pes = (h', pl', lst', lh')"
      by (metis prod_cases4)
    have L: "wcur h' pl' lst' lh' (ins_events h pes xs)" "same_events h h' (set xs \<union> set pes)" "\<forall>p\<in>set pes. owner (h' p) = ET_SYS"
      "\<forall>q. q \<notin> set pes \<longrightarrow> owner (h' q) = owner (h q)"
      using put_loop[OF w d pr _ _ fo, of "set xs \<union> set pes"] by auto
    have "\<forall>p\<in>set xs \<union> set pes. owner (h' p) = ET_SYS" using L(3,4) o d(2) by fastforce
    then show ?thesis using b L(1,2) run_puts_steps[OF fo] f(1) False by (auto simp: body_steps_def wcur_def)
  qed
qed

text \<open>Wherever the writer dies, after the repair the list holds some first part of its events.\<close>

lemma write_death_repaired:
  assumes r: "out_repr h (list_out ps) xs" and o: "\<forall>p\<in>set xs. owner (h p) = ET_SYS"
    and d: "distinct pes" "set pes \<inter> set xs = {}" and pr: "prio_ok h (set pes)" and ne: "pes \<noteq> []"
    and z: "fout_start (fixout ps) = 0" and cur: "cursors h xs lst lh"
  shows "repairs_to (repaired_write pes xs h) (run_steps (take k (write_steps pes (list_out ps) h lst lh)) (ps, h))"
proof -
  note f = out_reprD[OF r]
  let ?Q = "repairs_to (repaired_write pes xs h)"
  define pl where "pl = (if cnt (list_out ps) = 0 then (list_out ps)\<lparr>firstevent := None\<rparr> else list_out ps)"
  have r': "out_repr h pl xs" using r by (auto simp: pl_def out_repr_def list_repr_def)
  have early: "?Q (ps', h)" if "out_repr h (list_out ps') xs" "fout_start (fixout ps') = 0" for ps'
    by (rule repair_nothing[where j = 0]) (use that o in auto)
  let ?fx = "(fixout ps)\<lparr>fout_cnt := int (length xs), fout_num := int (length pes), fout_start := 1\<rparr>"
  let ?ps = "ps\<lparr>list_out := pl, fixout := ?fx\<rparr>"
  have body: "before ?Q (body_steps pes (list_out ?ps) h lst lh) (?ps, h) \<and>
    (\<exists>pl' h'. run_steps (body_steps pes (list_out ?ps) h lst lh) (?ps, h) = (?ps\<lparr>list_out := pl'\<rparr>, h') \<and>
      out_repr h' pl' (ins_events h pes xs) \<and> same_events h h' (set xs \<union> set pes) \<and>
      (\<forall>p\<in>set xs \<union> set pes. owner (h' p) = ET_SYS))"
    by (rule body_repaired) (use r' o d pr ne cur f in \<open>auto simp: pl_def\<close>)
  then obtain pl' h' where full: "run_steps (body_steps pes pl h lst lh) (?ps, h) = (?ps\<lparr>list_out := pl'\<rparr>, h')"
    "out_repr h' pl' (ins_events h pes xs)" "same_events h h' (set xs \<union> set pes)" "\<forall>p\<in>set xs \<union> set pes. owner (h' p) = ET_SYS"
    by auto
  have late: "?Q (ps', h')" if "out_repr h' (list_out ps') (ins_events h pes xs)"
    "fout_start (fixout ps') = 0 \<or> cnt (list_out ps') = fout_cnt (fixout ps') + fout_num (fixout ps')" for ps'
    by (rule repair_nothing[where j = "length pes"]) (use that full in auto)
  define A where "A = (if cnt (list_out ps) = 0 then [on_out (\<lambda>pl. pl\<lparr>firstevent := None\<rparr>)] else [])
    @ [on_fixout (\<lambda>f. f\<lparr>fout_cnt := cnt (list_out ps)\<rparr>), on_fixout (\<lambda>f. f\<lparr>fout_num := int (length pes)\<rparr>),
       on_fixout (\<lambda>f. f\<lparr>fout_start := fout_start f + 1\<rparr>)]"
  have runA: "run_steps A (ps, h) = (?ps, h)" using z f(1) by (simp add: A_def pl_def)
  have bA: "before ?Q A (ps, h)" unfolding A_def
    by (simp add: pl_def, intro conjI impI; rule early) (use r r' z in \<open>simp_all add: pl_def\<close>)
  define Z where "Z = [on_fixout (\<lambda>f. f\<lparr>fout_start := fout_start f - 1\<rparr>), on_out et_llist_unlock]"
  have bZ: "before ?Q Z (?ps\<lparr>list_out := pl'\<rparr>, h')" unfolding Z_def
    by (simp, intro conjI; rule late) (use full(2) out_reprD(1)[OF full(2)] in \<open>simp_all\<close>)
  have eZ: "?Q (run_steps Z (?ps\<lparr>list_out := pl'\<rparr>, h'))" unfolding Z_def
    by (simp, rule late) (use full(2) in simp_all)
  have steps: "write_steps pes (list_out ps) h lst lh = A @ body_steps pes pl h lst lh @ Z"
    by (simp add: write_steps_def A_def Z_def pl_def)
  show ?thesis
  proof (rule before_take)
    show "before ?Q (write_steps pes (list_out ps) h lst lh) (ps, h)"
      using bA body runA full(1) bZ by (simp add: steps)
    show "?Q (run_steps (write_steps pes (list_out ps) h lst lh) (ps, h))"
      using runA full(1) eZ by (simp add: steps)
  qed
qed

end
