(* ===== verification/EtFixInv.thy ===== *)
theory EtFixInv imports EtFix begin

text \<open>
  What the repair routines of \<^verbatim>\<open>EtFix\<close> restore: from the forward links of the station lists, the
  lists; from the attachments the active stations know of, the tables and counts of attachments
  (\<open>att_inv\<close>). Where a routine does not do what its comments say, the lemma states what it does: the
  count of \<^verbatim>\<open>et_fix_stations\<close> and the loop of \<^verbatim>\<open>et_fix_system\<close> over the stations.
\<close>

section \<open>Searching the lists\<close>

lemma in_group_ok:
  "\<lbrakk>fwd (\<lambda>n. nextparallel (stats s n)) (p # qs); \<forall>q\<in>set qs. station_ok s q; length qs < k\<rbrakk>
   \<Longrightarrow> in_group k s (int n) p = Some (n \<in> set qs)"
proof (induction qs arbitrary: p k)
  case Nil
  then show ?case by (cases k) auto
next
  case (Cons q qs)
  obtain k' where k: "k = Suc k'" using Cons.prems(3) by (cases k) auto
  have nxt: "nextparallel (stats s p) = int q" "st_ix s (int q) = Some q" "num (stats s q) = int q"
    using Cons.prems(1,2) by (simp_all add: station_ok_def st_ix_def)
  have "in_group k' s (int n) q = Some (n \<in> set qs)"
    by (rule Cons.IH) (use Cons.prems k in auto)
  then show ?case using nxt by (auto simp: k)
qed

lemma in_list_ok:
  "\<lbrakk>fwd (\<lambda>n. st_next (stats s n)) (p # xs); \<forall>x\<in>set xs. group_ok s x (gs x); length xs < k\<rbrakk>
   \<Longrightarrow> in_list k s (int n) p = Some (n \<in> (\<Union>x\<in>set xs. set (gs x)))"
proof (induction xs arbitrary: p k)
  case Nil
  then show ?case by (cases k) auto
next
  case (Cons x xs)
  obtain k' where k: "k = Suc k'" using Cons.prems(3) by (cases k) auto
  have g: "group_ok s x (gs x)" using Cons.prems(2) by simp
  have nxt: "st_next (stats s p) = int x" "st_ix s (int x) = Some x" "num (stats s x) = int x"
    using Cons.prems(1) group_ok_own(2)[OF g] by (simp_all add: station_ok_def st_ix_def)
  have ih: "in_list k' s (int n) x = Some (n \<in> (\<Union>x\<in>set xs. set (gs x)))"
    by (rule Cons.IH) (use Cons.prems k in auto)
  obtain qs where qs: "gs x = x # qs" using g by (cases "gs x") (auto simp: group_ok_def)
  have grp: "in_group (nat (c_nstations (sys_config (sys s)))) s (int n) x = Some (n \<in> set qs)" if "is_parallel s x"
    by (rule in_group_ok) (use g that qs station_count[of "gs x" s] in \<open>auto simp: group_ok_def\<close>)
  have other: "qs = []" if "\<not> is_parallel s x" using g that qs by (simp add: group_ok_def)
  show ?case
  proof (cases "x = n")
    case True
    then show ?thesis using nxt qs by (simp add: k)
  next
    case False
    then show ?thesis using nxt qs ih grp other
      by (cases "is_parallel s x") (auto simp: k is_parallel_def)
  qed
qed

lemma fwd_layoutD:
  assumes "fwd_layout s ns gs"
  obtains xs where "ns = 0 # xs" "fwd (\<lambda>n. st_next (stats s n)) (0 # xs)" "\<forall>x\<in>set ns. group_ok s x (gs x)"
    "gs 0 = [0]" "station_ok s 0" "length xs < nat (c_nstations (sys_config (sys s)))"
    "distinct (concat (map gs ns))"
proof -
  obtain xs where ns: "ns = 0 # xs" using assms by (cases ns) (auto simp: fwd_layout_def)
  have d: "distinct (concat (map gs ns))" using assms by (simp add: fwd_layout_def)
  have g: "\<forall>x\<in>set ns. group_ok s x (gs x)"
    using assms d by (auto simp: fwd_layout_def group_ok_def distinct_concat_iff)
  have own: "x \<in> set (gs x)" "station_ok s x" if "x \<in> set ns" for x
    using group_ok_own[of s x "gs x"] g that by simp_all
  have "distinct ns" using d own(1) by (induction ns) (auto dest: bspec)
  then have "length ns \<le> nat (c_nstations (sys_config (sys s)))" by (rule station_count[rotated]) (use own(2) in blast)
  then show thesis using that ns assms g d own(2)[of 0] by (auto simp: fwd_layout_def)
qed

section \<open>The restart loses GRAND\_CENTRAL\<close>

lemma init_station_idem [simp]: "et_init_station (et_init_station ps) = et_init_station ps"
  by (simp add: et_init_station_def et_init_llist_def fun_eq_iff)

lemma renew_unused:
  "status (st_data (stats s i)) = ET_STATION_UNUSED \<Longrightarrow> stats s i = et_init_station ps \<Longrightarrow> renew_stations k i s = Some s"
proof (induction k arbitrary: s)
  case (Suc k)
  have "upd_station i et_init_station s = s" using Suc.prems(2) by (simp add: upd_station_def fun_upd_idem)
  then show ?case using Suc by simp
qed simp

lemma renew_wipes_gc:
  assumes "fwd_layout s ns gs" "stat_head (sys s) = 0" "0 < k"
  shows "renew_stations k 0 s = Some (upd_station 0 et_init_station s)"
proof -
  obtain k' where k: "k = Suc k'" using assms(3) by (cases k) auto
  have rest: "renew_stations k' 0 (upd_station 0 et_init_station s) = Some (upd_station 0 et_init_station s)"
    by (rule renew_unused[of _ _ "stats s 0"]) (simp_all add: et_init_station_def)
  obtain xs where f: "ns = 0 # xs" "fwd (\<lambda>n. st_next (stats s n)) (0 # xs)" "\<forall>x\<in>set ns. group_ok s x (gs x)"
    "gs 0 = [0]" "station_ok s 0" "length xs < nat (c_nstations (sys_config (sys s)))" "distinct (concat (map gs ns))"
    using fwd_layoutD[OF assms(1)] by metis
  have "in_list (nat (c_nstations (sys_config (sys s)))) s (int 0) 0 = Some (0 \<in> (\<Union>x\<in>set xs. set (gs x)))"
    by (rule in_list_ok[OF f(2) _ f(6)]) (use f(1,3) in simp)
  then have "in_list (nat (c_nstations (sys_config (sys s)))) s 0 0 = Some False" using f(1,4,7) by simp
  moreover have "num (stats s 0) = 0" "st_ix s 0 = Some 0"
    using f(5) st_ix_ok[OF f(5)] by (simp_all add: station_ok_def)
  ultimately show ?thesis using rest assms(2) by (simp add: k Let_def)
qed

section \<open>Attachments\<close>

text \<open>
  The state a crash inside \<^verbatim>\<open>et_station_attach\<close> can leave: an attachment that a station knows of is
  complete, an attachment in the table may be known to no station, and the counts may be wrong.
\<close>

definition half_attached :: "et_shm \<Rightarrow> bool" where
  "half_attached s \<longleftrightarrow>
     (\<forall>i. int i < c_nattachments (sys_config (sys s)) \<longrightarrow> at_num (attach (sys s) i) = - 1 \<or> active s i) \<and>
     (\<forall>n. int n < c_nstations (sys_config (sys s)) \<longrightarrow>
        (\<forall>i. int i < c_nattachments (sys_config (sys s)) \<longrightarrow> st_att (st_data (stats s n)) i = - 1 \<or>
           st_att (st_data (stats s n)) i = int i \<and> active s i \<and> at_stat (attach (sys s) i) = int n \<and>
           status (st_data (stats s n)) = ET_STATION_ACTIVE) \<and>
        (status (st_data (stats s n)) \<noteq> ET_STATION_ACTIVE \<longrightarrow> st_nattachments (st_data (stats s n)) = 0))"

definition known :: "et_shm \<Rightarrow> nat \<Rightarrow> bool" where
  "known s i \<longleftrightarrow> (\<exists>n. int n < c_nstations (sys_config (sys s)) \<and> st_att (st_data (stats s n)) i = int i \<and>
     status (st_data (stats s n)) = ET_STATION_ACTIVE)"

lemma half_attachedD:
  assumes "half_attached s" "int n < c_nstations (sys_config (sys s))" "int i < c_nattachments (sys_config (sys s))"
    "st_att (st_data (stats s n)) i = int i"
  shows "active s i" "at_stat (attach (sys s) i) = int n" "status (st_data (stats s n)) = ET_STATION_ACTIVE"
proof -
  have "st_att (st_data (stats s n)) i \<noteq> - 1" using assms(4) by simp
  then show "active s i" "at_stat (attach (sys s) i) = int n" "status (st_data (stats s n)) = ET_STATION_ACTIVE"
    using assms unfolding half_attached_def by blast+
qed

lemma station_of_att_None: "station_of_att s i = None \<longleftrightarrow> \<not> known s i"
  by (auto simp: station_of_att_def known_def find_None_iff zless_nat_eq_int_zless)

lemma forget_att_simps [simp]:
  "stats (forget_att i s) = stats s" "events (forget_att i s) = events s"
  "attach (sys (forget_att i s)) = attach (sys s)" "sys_config (sys (forget_att i s)) = sys_config (sys s)"
  "nattachments (sys (forget_att i s)) = nattachments (sys s)"
proof -
  have "stats (fold (\<lambda>j. upd_sys (\<lambda>y. y\<lparr>proc := (proc y)(j := (proc y j)\<lparr>pr_att := (pr_att (proc y j))(i := - 1)\<rparr>)\<rparr>)) js s) = stats s \<and>
    events (fold (\<lambda>j. upd_sys (\<lambda>y. y\<lparr>proc := (proc y)(j := (proc y j)\<lparr>pr_att := (pr_att (proc y j))(i := - 1)\<rparr>)\<rparr>)) js s) = events s \<and>
    attach (sys (fold (\<lambda>j. upd_sys (\<lambda>y. y\<lparr>proc := (proc y)(j := (proc y j)\<lparr>pr_att := (pr_att (proc y j))(i := - 1)\<rparr>)\<rparr>)) js s)) = attach (sys s) \<and>
    sys_config (sys (fold (\<lambda>j. upd_sys (\<lambda>y. y\<lparr>proc := (proc y)(j := (proc y j)\<lparr>pr_att := (pr_att (proc y j))(i := - 1)\<rparr>)\<rparr>)) js s)) = sys_config (sys s) \<and>
    nattachments (sys (fold (\<lambda>j. upd_sys (\<lambda>y. y\<lparr>proc := (proc y)(j := (proc y j)\<lparr>pr_att := (pr_att (proc y j))(i := - 1)\<rparr>)\<rparr>)) js s)) = nattachments (sys s)" for js
    by (induction js arbitrary: s) simp_all
  then show "stats (forget_att i s) = stats s" "events (forget_att i s) = events s"
    "attach (sys (forget_att i s)) = attach (sys s)" "sys_config (sys (forget_att i s)) = sys_config (sys s)"
    "nattachments (sys (forget_att i s)) = nattachments (sys s)"
    unfolding forget_att_def by blast+
qed

text \<open>The attachments that no station knows of go, the others stay as they are.\<close>

definition orphan :: "et_shm \<Rightarrow> nat \<Rightarrow> bool" where
  "orphan s i \<longleftrightarrow> at_num (attach (sys s) i) \<noteq> - 1 \<and> \<not> known s i"

lemma fix_attachment_spec:
  "stats (fix_attachment i s) = stats s" "events (fix_attachment i s) = events s"
  "sys_config (sys (fix_attachment i s)) = sys_config (sys s)"
  "at_num (attach (sys (fix_attachment i s)) j) = (if j = i \<and> orphan s i then - 1 else at_num (attach (sys s) j))"
  "\<not> orphan s j \<Longrightarrow> attach (sys (fix_attachment i s)) j = attach (sys s) j"
  "nattachments (sys (fix_attachment i s)) = nattachments (sys s) - (if orphan s i then 1 else 0)"
  by (auto simp: fix_attachment_def orphan_def station_of_att_None et_init_attachment_def)

lemma known_fix_attachment [simp]: "known (fix_attachment i s) j = known s j"
  by (simp add: known_def fix_attachment_spec)

lemma fold_fix_attachment:
  assumes "distinct is"
  shows "stats (fold fix_attachment is s) = stats s \<and> events (fold fix_attachment is s) = events s \<and>
    sys_config (sys (fold fix_attachment is s)) = sys_config (sys s) \<and>
    (\<forall>j. at_num (attach (sys (fold fix_attachment is s)) j) =
       (if j \<in> set is \<and> orphan s j then - 1 else at_num (attach (sys s) j))) \<and>
    (\<forall>j. \<not> orphan s j \<longrightarrow> attach (sys (fold fix_attachment is s)) j = attach (sys s) j) \<and>
    nattachments (sys (fold fix_attachment is s)) = nattachments (sys s) - int (card {j \<in> set is. orphan s j})"
  using assms
proof (induction "is" arbitrary: s)
  case (Cons i "is")
  have o: "orphan (fix_attachment i s) j \<longleftrightarrow> orphan s j \<and> j \<noteq> i" for j
    using fix_attachment_spec(4)[of i s j] by (auto simp: orphan_def)
  have c: "card {j \<in> set (i # is). orphan s j} = card {j \<in> set is. orphan s j} + (if orphan s i then 1 else 0)"
  proof (cases "orphan s i")
    case True
    then have "{j \<in> set (i # is). orphan s j} = insert i {j \<in> set is. orphan s j}" by auto
    then show ?thesis using Cons.prems True by simp
  next
    case False
    then have "{j \<in> set (i # is). orphan s j} = {j \<in> set is. orphan s j}" by auto
    then show ?thesis using False by simp
  qed
  have d: "{j \<in> set is. orphan (fix_attachment i s) j} = {j \<in> set is. orphan s j}" using Cons.prems by (auto simp: o)
  let ?t = "fix_attachment i s"
  let ?u = "fold fix_attachment is ?t"
  have ih: "stats ?u = stats ?t" "events ?u = events ?t" "sys_config (sys ?u) = sys_config (sys ?t)"
    "at_num (attach (sys ?u) j) = (if j \<in> set is \<and> orphan ?t j then - 1 else at_num (attach (sys ?t) j))"
    "\<not> orphan ?t j \<Longrightarrow> attach (sys ?u) j = attach (sys ?t) j"
    "nattachments (sys ?u) = nattachments (sys ?t) - int (card {j \<in> set is. orphan s j})" for j
    using Cons.IH[of ?t] Cons.prems unfolding d by simp_all
  have "at_num (attach (sys ?u) j) = (if j \<in> set (i # is) \<and> orphan s j then - 1 else at_num (attach (sys s) j))" for j
    by (auto simp: ih(4) o fix_attachment_spec(4))
  moreover have "attach (sys ?u) j = attach (sys s) j" if "\<not> orphan s j" for j
    using ih(5)[of j] fix_attachment_spec(5)[OF that] that by (simp add: o)
  moreover have "nattachments (sys ?u) = nattachments (sys s) - int (card {j \<in> set (i # is). orphan s j})"
    unfolding ih(6) c fix_attachment_spec(6) by simp
  ultimately show ?case using ih(1-3) by (simp add: fix_attachment_spec)
qed simp

section \<open>Counts\<close>

lemma count_atts_card: "count_atts m f = int (card {j. j < m \<and> f j = int j})"
proof -
  have "length (filter (\<lambda>j. f j = int j) [0..<m]) = card (set (filter (\<lambda>j. f j = int j) [0..<m]))"
    by (rule distinct_card [symmetric]) simp
  also have "set (filter (\<lambda>j. f j = int j) [0..<m]) = {j. j < m \<and> f j = int j}" by auto
  finally show ?thesis by (simp add: count_atts_def)
qed

abbreviation st_active :: "et_shm \<Rightarrow> nat \<Rightarrow> bool" where
  "st_active s i \<equiv> status (st_data (stats s i)) = ET_STATION_ACTIVE"

definition station_natts :: "nat \<Rightarrow> et_shm \<Rightarrow> nat \<Rightarrow> int" where
  "station_natts m s i = (if st_active s i then count_atts m (st_att (st_data (stats s i))) else 0)"

definition with_count :: "nat \<Rightarrow> et_station \<Rightarrow> et_station" where
  "with_count m ps = (if status (st_data ps) = ET_STATION_ACTIVE
     then ps\<lparr>st_data := (st_data ps)\<lparr>st_nattachments := count_atts m (st_att (st_data ps))\<rparr>\<rparr> else ps)"

lemma fix_count_eq: "fix_count m i (k, s) = (k + station_natts m s i, upd_station i (with_count m) s)"
  by (simp add: fix_count_def station_natts_def with_count_def upd_station_def Let_def fun_upd_idem)

lemma station_natts_with_count [simp]: "station_natts m (upd_station i (with_count m) s) = station_natts m s"
  by (simp add: station_natts_def with_count_def fun_eq_iff)

lemma fold_fix_count:
  "fold (fix_count m) is (k, s) = (k + (\<Sum>i\<leftarrow>is. station_natts m s i), fold (\<lambda>i. upd_station i (with_count m)) is s)"
  by (induction "is" arbitrary: k s) (simp_all add: fix_count_eq)

lemma with_count_idem [simp]: "with_count m (with_count m ps) = with_count m ps"
  by (simp add: with_count_def)

lemma fold_fix_proc_count:
  "stats (fold (fix_proc_count m) is s) = stats s \<and> events (fold (fix_proc_count m) is s) = events s \<and>
   attach (sys (fold (fix_proc_count m) is s)) = attach (sys s) \<and>
   sys_config (sys (fold (fix_proc_count m) is s)) = sys_config (sys s) \<and>
   nattachments (sys (fold (fix_proc_count m) is s)) = nattachments (sys s)"
  by (induction "is" arbitrary: s) (simp_all add: fix_proc_count_def)

lemma fix_natts_spec:
  fixes s :: et_shm
  defines "m \<equiv> nat (c_nattachments (sys_config (sys s)))" and "N \<equiv> nat (c_nstations (sys_config (sys s)))"
  shows "stats (et_fix_natts s) i = (if i < N then with_count m (stats s i) else stats s i)"
    "attach (sys (et_fix_natts s)) = attach (sys s)" "sys_config (sys (et_fix_natts s)) = sys_config (sys s)"
    "nattachments (sys (et_fix_natts s)) = (\<Sum>i<N. station_natts m s i)" "events (et_fix_natts s) = events s"
proof -
  have "(\<Sum>i\<leftarrow>[0..<N]. station_natts m s i) = (\<Sum>i<N. station_natts m s i)"
    by (simp add: interv_sum_list_conv_sum_set_nat atLeast0LessThan)
  then show "stats (et_fix_natts s) i = (if i < N then with_count m (stats s i) else stats s i)"
    "attach (sys (et_fix_natts s)) = attach (sys s)" "sys_config (sys (et_fix_natts s)) = sys_config (sys s)"
    "nattachments (sys (et_fix_natts s)) = (\<Sum>i<N. station_natts m s i)" "events (et_fix_natts s) = events s"
    by (simp_all add: et_fix_natts_def fold_fix_count fold_fix_proc_count stats_fold_upd_station m_def N_def Let_def)
qed

text \<open>The counts agree with the tables again.\<close>

lemma fix_natts_ok:
  assumes h: "half_attached s" and k: "\<forall>i. int i < c_nattachments (sys_config (sys s)) \<longrightarrow> active s i \<longrightarrow> known s i"
  shows "att_inv (et_fix_natts s)"
proof -
  define m where "m = nat (c_nattachments (sys_config (sys s)))"
  define N where "N = nat (c_nstations (sys_config (sys s)))"
  let ?t = "et_fix_natts s"
  have fx: "stats ?t i = (if i < N then with_count m (stats s i) else stats s i)" "attach (sys ?t) = attach (sys s)"
    "sys_config (sys ?t) = sys_config (sys s)" "nattachments (sys ?t) = (\<Sum>i<N. station_natts m s i)" for i
    using fix_natts_spec[of s] by (simp_all add: m_def N_def)
  have same: "active ?t i = active s i" "atts ?t = atts s" "atts_of ?t n = atts_of s n" for i n
    by (simp_all add: active_def atts_def atts_of_def fx(2,3))
  have kn: "\<exists>n<N. st_att (st_data (stats s n)) i = int i \<and> st_active s n \<and> at_stat (attach (sys s) i) = int n"
    if "i \<in> atts s" for i
  proof -
    have i: "int i < c_nattachments (sys_config (sys s))" "active s i" using that by (auto simp: atts_def)
    with k have "known s i" by blast
    then obtain n where "n < N" "st_att (st_data (stats s n)) i = int i" "st_active s n"
      by (auto simp: known_def N_def zless_nat_eq_int_zless)
    moreover from this have "at_stat (attach (sys s) i) = int n"
      using half_attachedD(2)[OF h _ i(1)] by (simp add: N_def zless_nat_eq_int_zless)
    ultimately show ?thesis by blast
  qed
  have reg: "st_att (st_data (stats s n)) i = (if i \<in> atts_of s n then int i else - 1)"
    if "n < N" "int i < c_nattachments (sys_config (sys s))" for n i
  proof -
    have n: "int n < c_nstations (sys_config (sys s))" using that(1) by (simp add: N_def zless_nat_eq_int_zless)
    have "st_att (st_data (stats s n)) i = - 1 \<or> st_att (st_data (stats s n)) i = int i \<and> i \<in> atts_of s n"
      using h n that(2) by (fastforce simp: half_attached_def atts_of_def atts_def)
    moreover have "st_att (st_data (stats s n)) i = int i" if "i \<in> atts_of s n"
      using kn[of i] that by (auto simp: atts_of_def)
    ultimately show ?thesis by auto
  qed
  have act: "st_active s n" if "n < N" "i \<in> atts_of s n" for n i
    using kn[of i] that(2) by (auto simp: atts_of_def)
  have cnt: "station_natts m s n = int (card (atts_of s n))" if "n < N" for n
  proof (cases "st_active s n")
    case True
    have "{j. j < m \<and> st_att (st_data (stats s n)) j = int j} = atts_of s n"
      using reg[OF that] by (auto simp: atts_of_def atts_def m_def zless_nat_eq_int_zless split: if_splits)
    with True show ?thesis by (simp add: station_natts_def count_atts_card)
  next
    case False
    then have "atts_of s n = {}" using act[OF that] by blast
    with False show ?thesis by (simp add: station_natts_def)
  qed
  have "card (atts s) = card (\<Union>n\<in>{..<N}. atts_of s n)"
    using kn by (intro arg_cong[of _ _ card]) (fastforce simp: atts_of_def)
  also have "\<dots> = (\<Sum>n<N. card (atts_of s n))"
    by (rule card_UN_disjoint) (auto simp: atts_of_def)
  finally have total: "nattachments (sys ?t) = int (card (atts s))" using cnt by (simp add: fx(4))
  have stn: "st_nattachments (st_data (stats ?t n)) = int (card (atts_of s n))" "st_att (st_data (stats ?t n)) = st_att (st_data (stats s n))"
    if "n < N" for n
  proof -
    have "st_nattachments (st_data (stats s n)) = 0" if "\<not> st_active s n"
      using h that \<open>n < N\<close> by (auto simp: half_attached_def N_def zless_nat_eq_int_zless)
    then show "st_nattachments (st_data (stats ?t n)) = int (card (atts_of s n))"
      "st_att (st_data (stats ?t n)) = st_att (st_data (stats s n))"
      using cnt[OF that] that by (auto simp: fx(1) with_count_def station_natts_def)
  qed
  have rng: "0 \<le> at_stat (attach (sys s) i) \<and> at_stat (attach (sys s) i) < c_nstations (sys_config (sys s))"
    if "int i < c_nattachments (sys_config (sys s))" "active s i" for i
    using kn[of i] that by (auto simp: atts_def N_def zless_nat_eq_int_zless)
  show ?thesis using h total stn reg rng
    unfolding att_inv_def same fx(2,3)
    by (auto simp: half_attached_def N_def zless_nat_eq_int_zless)
qed

text \<open>Removing the half-made attachments: what is left is known to its station.\<close>

lemma fix_attachments_half:
  assumes h: "half_attached s"
  shows "half_attached (et_fix_attachments s)"
    "\<forall>i. int i < c_nattachments (sys_config (sys (et_fix_attachments s))) \<longrightarrow>
       active (et_fix_attachments s) i \<longrightarrow> known (et_fix_attachments s) i"
proof -
  let ?t = "et_fix_attachments s"
  have f: "stats ?t = stats s" "sys_config (sys ?t) = sys_config (sys s)"
    "at_num (attach (sys ?t) j) = (if int j < c_nattachments (sys_config (sys s)) \<and> orphan s j then - 1 else at_num (attach (sys s) j))"
    "\<not> orphan s j \<Longrightarrow> attach (sys ?t) j = attach (sys s) j" for j
    using fold_fix_attachment[of "[0..<nat (c_nattachments (sys_config (sys s)))]" s]
    by (auto simp: et_fix_attachments_def zless_nat_eq_int_zless)
  have kn: "known ?t j = known s j" for j by (simp add: known_def f(1,2))
  have act: "active ?t j \<longleftrightarrow> active s j \<and> known s j" if "int j < c_nattachments (sys_config (sys s))" for j
    using that h f(3)[of j] by (auto simp: active_def orphan_def half_attached_def)
  have o: "\<not> orphan s j" if "int n < c_nstations (sys_config (sys s))" "st_att (st_data (stats s n)) j = int j" "st_active s n" for n j
    using that by (auto simp: orphan_def known_def)
  have kj: "known s j" if "int n < c_nstations (sys_config (sys s))" "st_att (st_data (stats s n)) j = int j" "st_active s n" for n j
    using that by (auto simp: known_def)
  show "half_attached ?t"
    unfolding half_attached_def f(1,2)
  proof (intro conjI allI impI)
    fix i assume i: "int i < c_nattachments (sys_config (sys s))"
    then show "at_num (attach (sys ?t) i) = - 1 \<or> active ?t i"
      using h f(3)[of i] act[OF i] by (auto simp: half_attached_def orphan_def active_def)
  next
    fix n i assume n: "int n < c_nstations (sys_config (sys s))" and i: "int i < c_nattachments (sys_config (sys s))"
    from h n i have "st_att (st_data (stats s n)) i = - 1 \<or> st_att (st_data (stats s n)) i = int i \<and> active s i \<and>
        at_stat (attach (sys s) i) = int n \<and> st_active s n" by (simp add: half_attached_def)
    then show "st_att (st_data (stats s n)) i = - 1 \<or> st_att (st_data (stats s n)) i = int i \<and> active ?t i \<and>
        at_stat (attach (sys ?t) i) = int n \<and> st_active s n"
      using act[OF i] kj[OF n, of i] f(4)[OF o[OF n, of i]] by auto
  next
    fix n assume "int n < c_nstations (sys_config (sys s))" "\<not> st_active s n"
    then show "st_nattachments (st_data (stats s n)) = 0" using h by (simp add: half_attached_def)
  qed
  show "\<forall>i. int i < c_nattachments (sys_config (sys ?t)) \<longrightarrow> active ?t i \<longrightarrow> known ?t i"
    using act kn by (simp add: f(2))
qed

text \<open>Recounting then restores the invariant of the attachments.\<close>

lemma fix_attachments_natts_ok: "half_attached s \<Longrightarrow> att_inv (et_fix_natts (et_fix_attachments s))"
  using fix_natts_ok fix_attachments_half by blast

section \<open>Stations in no list\<close>

definition listed :: "nat list \<Rightarrow> (nat \<Rightarrow> nat list) \<Rightarrow> nat \<Rightarrow> bool" where
  "listed ns gs n \<longleftrightarrow> (\<exists>x\<in>set ns. n \<in> set (gs x))"

definition in_use :: "et_shm \<Rightarrow> nat \<Rightarrow> bool" where
  "in_use s i \<longleftrightarrow> status (st_data (stats s i)) \<noteq> ET_STATION_CREATING \<and> status (st_data (stats s i)) \<noteq> ET_STATION_UNUSED"

lemma fwd_layout_keep:
  assumes "fwd_layout s ns gs" "\<And>n. listed ns gs n \<Longrightarrow> stats t n = stats s n" "sys_config (sys t) = sys_config (sys s)"
  shows "fwd_layout t ns gs"
proof -
  have own: "x \<in> set (gs x)" if "x \<in> set ns" for x
    using assms(1) that by (cases "gs x") (auto simp: fwd_layout_def)
  have st: "stats t n = stats s n" if "x \<in> set ns" "n \<in> set (gs x)" for x n
    using assms(2)[of n] that by (auto simp: listed_def)
  have "stats t n = stats s n" if "n \<in> set ns" for n using st own that by blast
  moreover have "0 \<in> set ns" using assms(1) by (cases ns) (auto simp: fwd_layout_def)
  moreover have "fwd (\<lambda>n. st_next (stats t n)) ns = fwd (\<lambda>n. st_next (stats s n)) ns"
    by (rule fwd_cong) (simp add: calculation(1))
  moreover have "fwd (\<lambda>n. nextparallel (stats t n)) (gs x) = fwd (\<lambda>n. nextparallel (stats s n)) (gs x)" if "x \<in> set ns" for x
    by (rule fwd_cong) (simp add: st[OF that])
  moreover have "station_ok t n = station_ok s n" if "x \<in> set ns" "n \<in> set (gs x)" for x n
    using st[OF that] assms(3) by (simp add: station_ok_def)
  ultimately show ?thesis using assms(1) by (simp add: fwd_layout_def is_parallel_def)
qed

lemma fix_station_ok:
  assumes f: "fwd_layout s ns gs" and i: "0 < i"
    and l: "listed ns gs i \<Longrightarrow> status (st_data (stats s i)) \<noteq> ET_STATION_CREATING"
    and n: "in_use s i \<Longrightarrow> num (stats s i) = int i"
  shows "\<exists>ps. fix_station i (c, s) = Some (c + (if in_use s i then 1 else 0), s\<lparr>stats := (stats s)(i := ps)\<rparr>) \<and>
    (if listed ns gs i \<or> status (st_data (stats s i)) = ET_STATION_UNUSED then ps = stats s i
     else status (st_data ps) = ET_STATION_UNUSED)"
proof -
  obtain xs where x: "ns = 0 # xs" "fwd (\<lambda>n. st_next (stats s n)) (0 # xs)" "\<forall>x\<in>set ns. group_ok s x (gs x)"
    "gs 0 = [0]" "length xs < nat (c_nstations (sys_config (sys s)))"
    using fwd_layoutD[OF f] by metis
  have "in_list (nat (c_nstations (sys_config (sys s)))) s (int i) 0 = Some (i \<in> (\<Union>x\<in>set xs. set (gs x)))"
    by (rule in_list_ok[OF x(2) _ x(5)]) (use x(1,3) in simp)
  moreover have "i \<in> (\<Union>x\<in>set xs. set (gs x)) \<longleftrightarrow> listed ns gs i"
    using i by (auto simp: listed_def x(1,4))
  ultimately have il: "in_list (nat (c_nstations (sys_config (sys s)))) s (int i) 0 = Some (listed ns gs i)" by simp
  have u: "status (st_data (et_init_station ps)) = ET_STATION_UNUSED" for ps by (simp add: et_init_station_def)
  consider "status (st_data (stats s i)) = ET_STATION_CREATING" | "status (st_data (stats s i)) = ET_STATION_UNUSED" | "in_use s i"
    by (auto simp: in_use_def)
  then show ?thesis
  proof cases
    case 1
    then show ?thesis using l u by (auto simp: fix_station_def Let_def upd_station_def in_use_def)
  next
    case 2
    then show ?thesis by (auto simp: fix_station_def Let_def in_use_def)
  next
    case 3
    then show ?thesis using il n[OF 3] u
      by (cases "listed ns gs i") (auto simp: fix_station_def Let_def in_use_def upd_station_def)
  qed
qed

lemma fix_stations_from_ok:
  assumes "fwd_layout s ns gs" "distinct is" "0 \<notin> set is"
    "\<forall>i\<in>set is. listed ns gs i \<longrightarrow> status (st_data (stats s i)) \<noteq> ET_STATION_CREATING"
    "\<forall>i\<in>set is. in_use s i \<longrightarrow> num (stats s i) = int i"
  shows "\<exists>s'. fix_stations_from is (c, s) = Some (c + int (length (filter (in_use s) is)), s') \<and>
    sys s' = sys s \<and> events s' = events s \<and>
    (\<forall>i. i \<notin> set is \<or> listed ns gs i \<longrightarrow> stats s' i = stats s i) \<and>
    (\<forall>i\<in>set is. \<not> listed ns gs i \<longrightarrow> status (st_data (stats s' i)) = ET_STATION_UNUSED)"
  using assms
proof (induction "is" arbitrary: c s)
  case (Cons i "is")
  obtain ps where ps: "fix_station i (c, s) = Some (c + (if in_use s i then 1 else 0), s\<lparr>stats := (stats s)(i := ps)\<rparr>)"
    "if listed ns gs i \<or> status (st_data (stats s i)) = ET_STATION_UNUSED then ps = stats s i
     else status (st_data ps) = ET_STATION_UNUSED"
    using fix_station_ok[OF Cons.prems(1), of i c] Cons.prems(3-5) by auto
  let ?t = "s\<lparr>stats := (stats s)(i := ps)\<rparr>"
  have t: "stats ?t n = stats s n" if "listed ns gs n \<or> n \<noteq> i" for n using that ps(2) by auto
  have f: "fwd_layout ?t ns gs" by (rule fwd_layout_keep[OF Cons.prems(1)]) (use t in auto)
  have u: "in_use ?t j = in_use s j" if "j \<in> set is" for j using that Cons.prems(2) by (auto simp: in_use_def)
  then have fl: "filter (in_use ?t) is = filter (in_use s) is" by (intro filter_cong) auto
  have c1: "\<forall>j\<in>set is. listed ns gs j \<longrightarrow> status (st_data (stats ?t j)) \<noteq> ET_STATION_CREATING"
    using Cons.prems(2,4) by auto
  have c2: "\<forall>j\<in>set is. in_use ?t j \<longrightarrow> num (stats ?t j) = int j"
    using Cons.prems(2,5) u by auto
  obtain s' where s': "fix_stations_from is (c + (if in_use s i then 1 else 0), ?t) =
      Some (c + (if in_use s i then 1 else 0) + int (length (filter (in_use ?t) is)), s')" "sys s' = sys ?t" "events s' = events ?t"
    "\<forall>j. j \<notin> set is \<or> listed ns gs j \<longrightarrow> stats s' j = stats ?t j"
    "\<forall>j\<in>set is. \<not> listed ns gs j \<longrightarrow> status (st_data (stats s' j)) = ET_STATION_UNUSED"
  proof -
    have "distinct is" "0 \<notin> set is" using Cons.prems(2,3) by simp_all
    from Cons.IH[OF f this c1 c2, of "c + (if in_use s i then 1 else 0)"] show ?thesis
      by (elim exE conjE) (rule that)
  qed
  have "stats s' j = stats s j" if "j \<notin> set (i # is) \<or> listed ns gs j" for j
    using s'(4) t[of j] that by auto
  moreover have "status (st_data (stats s' j)) = ET_STATION_UNUSED" if "j \<in> set (i # is)" "\<not> listed ns gs j" for j
  proof (cases "j = i")
    case True
    then have "stats s' j = ps" using s'(4) Cons.prems(2) by simp
    then show ?thesis using True ps(2) that(2) by (auto split: if_splits)
  qed (use s'(5) that in auto)
  ultimately show ?case using s'(1-3) ps(1) by (intro exI[of _ s']) (simp add: fl)
qed simp

lemma fix_stations_ok:
  assumes f: "fwd_layout s ns gs"
    and l: "\<forall>i. listed ns gs i \<longrightarrow> status (st_data (stats s i)) \<noteq> ET_STATION_CREATING"
    and n: "\<forall>i. in_use s i \<longrightarrow> num (stats s i) = int i"
  defines "N \<equiv> nat (c_nstations (sys_config (sys s)))"
  shows "\<exists>s'. et_fix_stations s = Some s' \<and> fwd_layout s' ns gs \<and>
    (\<forall>i. listed ns gs i \<longrightarrow> stats s' i = stats s i) \<and>
    (\<forall>i. 0 < i \<and> i < N \<and> \<not> listed ns gs i \<longrightarrow> status (st_data (stats s' i)) = ET_STATION_UNUSED) \<and>
    nstations (sys s') = 1 + int (length (filter (in_use s) [1..<N]))"
proof -
  obtain s' where s': "fix_stations_from [1..<N] (1, s) = Some (1 + int (length (filter (in_use s) [1..<N])), s')"
    "sys s' = sys s" "\<forall>i. i \<notin> set [1..<N] \<or> listed ns gs i \<longrightarrow> stats s' i = stats s i"
    "\<forall>i\<in>set [1..<N]. \<not> listed ns gs i \<longrightarrow> status (st_data (stats s' i)) = ET_STATION_UNUSED"
    using fix_stations_from_ok[OF f, of "[1..<N]" 1] l n by auto
  let ?c = "1 + int (length (filter (in_use s) [1..<N]))"
  let ?t = "if ?c \<noteq> nstations (sys s') then upd_sys (\<lambda>y. y\<lparr>nstations := ?c\<rparr>) s' else s'"
  have r: "et_fix_stations s = Some ?t" using s'(1) by (simp add: et_fix_stations_def N_def)
  have t: "stats ?t = stats s'" "sys_config (sys ?t) = sys_config (sys s)" "nstations (sys ?t) = ?c"
    using s'(2) by auto
  have "fwd_layout ?t ns gs" by (rule fwd_layout_keep[OF f]) (use s'(3) t in auto)
  then show ?thesis using r t s'(3,4) by (intro exI[of _ ?t]) auto
qed

end
