(* ===== verification/EtMonitor.thy ===== *)
theory EtMonitor imports EtRepair EtFixInv EtConductor begin

text \<open>
  The threads of the ET process that watch over the system (\<^verbatim>\<open>et_system.c\<close>): the monitor of the hearts of
  the user processes with the clean-up after a dead one, the thread that adds conductors, and the
  end of the system. One turn of a thread's loop is one definition; the heart beats of the turn
  before are the argument \<open>old\<close>. What \<^verbatim>\<open>et_mutex_locked\<close> finds is \<open>busy\<close>, for each of the routines
  that look; the death of the process by \<^verbatim>\<open>kill\<close> has no effect on shared memory.

  The lemmas show whom the monitor removes (the open processes whose heart has not beaten since the last
  turn, and no others) and what a clean-up does to the table of processes.
\<close>

section \<open>Cleaning up after a process\<close>

datatype repair_call = FixMutexes | RepairGc | RepairAtt nat

definition clean_att ::
  "et_id \<Rightarrow> int op \<Rightarrow> (repair_call \<Rightarrow> lock \<Rightarrow> nat \<Rightarrow> bool) \<Rightarrow> nat \<Rightarrow> nat \<Rightarrow> et_shm \<Rightarrow> et_shm option" where
  "clean_att e etr busy i j s =
    (if pr_att (proc (sys s) i) j = - 1 then Some s
     else do {
       n \<leftarrow> stat_ix s j;
       (_, s) \<leftarrow> et_repair_station (busy (RepairAtt j)) n s;
       (_, s) \<leftarrow> et_station_detach (e\<lparr>cleanup := 1\<rparr>) etr (int j) s;
       Some s })"

fun clean_atts ::
  "et_id \<Rightarrow> int op \<Rightarrow> (repair_call \<Rightarrow> lock \<Rightarrow> nat \<Rightarrow> bool) \<Rightarrow> nat \<Rightarrow> nat list \<Rightarrow> et_shm \<Rightarrow> et_shm option" where
  "clean_atts e etr busy i [] s = Some s"
| "clean_atts e etr busy i (j # js) s = do { s \<leftarrow> clean_att e etr busy i j s; clean_atts e etr busy i js s }"

definition clean_process ::
  "et_id \<Rightarrow> int op \<Rightarrow> (repair_call \<Rightarrow> lock \<Rightarrow> nat \<Rightarrow> bool) \<Rightarrow> nat \<Rightarrow> et_shm \<Rightarrow> et_shm option" where
  "clean_process e etr busy i s = do {
     let s = et_transfer_lock_all (station_lock (et_fix_mutexes (busy FixMutexes) s));
     s \<leftarrow> et_fix_linkedlist s;
     s \<leftarrow> et_fix_stations s;
     let s = et_fix_attachments (system_lock s);
     (_, s) \<leftarrow> et_repair_gc (busy RepairGc) s;
     s \<leftarrow> clean_atts e etr busy i [0..<nat (c_nattachments (sys_config (sys s)))] s;
     let s = upd_sys (\<lambda>y. y\<lparr>nprocesses := nprocesses y - 1\<rparr>) (et_init_process i s);
     let s = et_fix_natts (et_fix_nprocs s);
     Some (station_unlock (system_unlock (et_transfer_unlock_all s))) }"

section \<open>The monitor\<close>

fun monitor_procs ::
  "et_id \<Rightarrow> int op \<Rightarrow> (nat \<Rightarrow> repair_call \<Rightarrow> lock \<Rightarrow> nat \<Rightarrow> bool) \<Rightarrow> nat list \<Rightarrow>
   (nat \<Rightarrow> i32) \<times> et_shm \<Rightarrow> ((nat \<Rightarrow> i32) \<times> et_shm) option" where
  "monitor_procs e etr busy [] os = Some os"
| "monitor_procs e etr busy (i # is) (old, s) =
    (let p = proc (sys s) i in
     if pr_status p \<noteq> ET_PROC_OPEN then monitor_procs e etr busy is (old, s)
     else if old i \<noteq> pr_heartbeat p then monitor_procs e etr busy is (old(i := pr_heartbeat p), s)
     else do {
       s \<leftarrow> clean_process e etr (busy i) i s;
       monitor_procs e etr busy is (old(i := 0), s) })"

definition et_sys_heartmonitor ::
  "et_id \<Rightarrow> int op \<Rightarrow> (nat \<Rightarrow> repair_call \<Rightarrow> lock \<Rightarrow> nat \<Rightarrow> bool) \<Rightarrow>
   (nat \<Rightarrow> i32) \<times> et_shm \<Rightarrow> ((nat \<Rightarrow> i32) \<times> et_shm) option" where
  "et_sys_heartmonitor e etr busy = (\<lambda>(old, s).
     monitor_procs e etr busy [0..<nat (c_nprocesses (sys_config (sys s)))] (old, s))"

section \<open>Adding stations and closing the system\<close>

text \<open>
  A wake-up of the thread that adds stations: it ends (\<open>None\<close>), sleeps on, or starts a conductor; the result
  is the station of the new conductor.
\<close>

definition et_add_stations :: "et_id \<Rightarrow> bool \<times> bool \<Rightarrow> et_shm \<Rightarrow> (nat option \<times> et_shm) option" where
  "et_add_stations e dl s =
    (if asthread (sys s) = ET_THREAD_KILL then None
     else if nstations (sys s) > c_nstations (sys_config (sys s)) then Some (None, s)
     else Some (conductor_start e dl s))"

text \<open>
  \<^verbatim>\<open>et_system_close\<close> up to the unmapping of the memory; \<open>others\<close> is what the other threads do while it waits for
  the transfers of events to stop.
\<close>

definition kill_conductor :: "et_station \<Rightarrow> et_station" where
  "kill_conductor ps = (if status (st_data ps) \<noteq> ET_STATION_UNUSED
     then ps\<lparr>conductor := ET_THREAD_KILL, list_out := cond_signal (list_out ps)\<rparr> else ps)"

definition et_system_close :: "et_id \<Rightarrow> (et_shm \<Rightarrow> et_shm) \<Rightarrow> et_shm \<Rightarrow> int \<times> et_shm" where
  "et_system_close e others s =
    (if id_proc e \<noteq> ET_SYS then (ET_ERROR, s)
     else let s = others (upd_sys (\<lambda>y. y\<lparr>asthread := ET_THREAD_KILL, statadd := Suc (statadd y)\<rparr>) s) in
       (ET_OK, fold (\<lambda>i. upd_station i kill_conductor) [0..<nat (c_nstations (sys_config (sys s)))] s))"

section \<open>What a clean-up does to the table of processes\<close>

definition life :: "et_shm \<Rightarrow> nat \<Rightarrow> int \<times> i32 \<times> int" where
  "life s k = (pr_status (proc (sys s) k), pr_heartbeat (proc (sys s) k), pr_pid (proc (sys s) k))"

lemma lock_proc [simp]:
  "proc (sys (station_lock s)) = proc (sys s)" "proc (sys (station_unlock s)) = proc (sys s)"
  "proc (sys (system_lock s)) = proc (sys s)" "proc (sys (system_unlock s)) = proc (sys s)"
  "nprocesses (sys (station_lock s)) = nprocesses (sys s)" "nprocesses (sys (station_unlock s)) = nprocesses (sys s)"
  "nprocesses (sys (system_lock s)) = nprocesses (sys s)" "nprocesses (sys (system_unlock s)) = nprocesses (sys s)"
  by (simp_all add: station_lock_def station_unlock_def system_lock_def system_unlock_def
      et_station_lock_def et_station_unlock_def et_system_lock_def et_system_unlock_def)

text \<open>\<open>same_tables\<close>: the tables of processes and attachments and what stations know of attachments stay.\<close>

definition same_tables :: "et_shm \<Rightarrow> et_shm \<Rightarrow> bool" where
  "same_tables s s' \<longleftrightarrow> attach (sys s') = attach (sys s) \<and>
     (\<forall>n. st_data (stats s' n) = st_data (stats s n) \<and> config (stats s' n) = config (stats s n)) \<and>
     nattachments (sys s') = nattachments (sys s) \<and> sys_config (sys s') = sys_config (sys s) \<and>
     proc (sys s') = proc (sys s)"

lemma same_tablesI:
  assumes "attach (sys s') = attach (sys s)" "\<And>n. st_data (stats s' n) = st_data (stats s n)"
    "\<And>n. config (stats s' n) = config (stats s n)"
    "nattachments (sys s') = nattachments (sys s)" "sys_config (sys s') = sys_config (sys s)" "proc (sys s') = proc (sys s)"
  shows "same_tables s s'"
  using assms by (simp add: same_tables_def)

lemma same_tables_refl [simp]: "same_tables s s"
  by (simp add: same_tables_def)

lemma same_tables_trans: "same_tables s t \<Longrightarrow> same_tables t u \<Longrightarrow> same_tables s u"
  by (simp add: same_tables_def)

lemma fix_mutexes_tables: "same_tables s (et_fix_mutexes busy s)"
proof -
  let ?f = "\<lambda>i s. if et_mutex_locked (busy (TransferM i)) then upd_station i et_transfer_unlock s else s"
  have step: "same_tables t (?f i t)" for i t by (auto intro!: same_tablesI simp: et_transfer_unlock_def)
  have loop: "same_tables t (fold ?f is t)" for "is" t
  proof (induction "is" arbitrary: t)
    case (Cons i "is")
    show ?case using same_tables_trans[OF step[of t i] Cons.IH[of "?f i t"]] by simp
  qed simp
  have "same_tables t (if b then system_unlock t else t)" "same_tables t (if b then station_unlock t else t)"
    "same_tables t (if b then unlock_add t else t)" for b t
    by (auto intro!: same_tablesI simp: unlock_add_def)
  then show ?thesis
    unfolding et_fix_mutexes_def Let_def by (intro same_tables_trans[OF _ loop]) (rule same_tables_trans; assumption?)+
qed

lemma transfer_all_tables [simp]:
  "same_tables s (et_transfer_lock_all s)" "same_tables s (et_transfer_unlock_all s)"
  "same_tables s (station_lock s)" "same_tables s (station_unlock s)"
  "same_tables s (system_lock s)" "same_tables s (system_unlock s)"
  by (auto intro!: same_tablesI)

lemma fix_parallel_tables: "fix_parallel k p s = Some s' \<Longrightarrow> same_tables s s'"
proof (induction k p s arbitrary: s' rule: fix_parallel.induct)
  case (2 k p s)
  show ?case
  proof (cases "nextparallel (stats s p) > - 1")
    case True
    then obtain q where q: "st_ix s (nextparallel (stats s p)) = Some q"
      "fix_parallel k q (upd_station q (\<lambda>r. r\<lparr>prevparallel := num (stats s p), st_prev := - 1, st_next := - 1\<rparr>) s) = Some s'"
      using "2.prems" by (auto split: Option.bind_splits)
    have "same_tables s (upd_station q (\<lambda>r. r\<lparr>prevparallel := num (stats s p), st_prev := - 1, st_next := - 1\<rparr>) s)"
      by (rule same_tablesI) simp_all
    then show ?thesis by (rule same_tables_trans) (rule "2.IH"[OF True q])
  qed (use "2.prems" in simp)
qed simp

lemma fix_main_tables: "fix_main k p s = Some s' \<Longrightarrow> same_tables s s'"
proof (induction k p s arbitrary: s' rule: fix_main.induct)
  case (2 k p s)
  show ?case
  proof (cases "st_next (stats s p) > - 1")
    case True
    then obtain x where x: "st_ix s (st_next (stats s p)) = Some x"
      using "2.prems" by (auto split: Option.bind_splits)
    let ?s1 = "upd_station x (\<lambda>r. r\<lparr>st_prev := num (stats s p)\<rparr>) s"
    let ?op = "if flow_mode (config (stats ?s1 x)) = ET_STATION_PARALLEL
             then fix_parallel (nat (c_nstations (sys_config (sys ?s1)))) x (upd_station x (\<lambda>r. r\<lparr>prevparallel := - 1\<rparr>) ?s1)
             else Some (upd_station x (\<lambda>r. r\<lparr>prevparallel := - 1, nextparallel := - 1\<rparr>) ?s1)"
    obtain s2 where s2: "?op = Some s2" "fix_main k x s2 = Some s'"
      using "2.prems" True x by (cases ?op) (simp_all add: Let_def)
    have a: "same_tables s ?s1" by (rule same_tablesI) simp_all
    have b: "same_tables ?s1 (upd_station x (\<lambda>r. r\<lparr>prevparallel := - 1\<rparr>) ?s1)"
      "same_tables ?s1 (upd_station x (\<lambda>r. r\<lparr>prevparallel := - 1, nextparallel := - 1\<rparr>) ?s1)"
      by (rule same_tablesI; simp)+
    have c: "same_tables ?s1 s2"
      using s2(1) b(2) same_tables_trans[OF b(1) fix_parallel_tables] by (auto split: if_splits)
    show ?thesis by (rule same_tables_trans[OF same_tables_trans[OF a c]]) (rule "2.IH"[OF True x refl s2])
  next
    case False
    then have "s' = upd_sys (\<lambda>y. y\<lparr>stat_tail := num (stats s p)\<rparr>) s" using "2.prems" by simp
    then show ?thesis by (auto intro!: same_tablesI)
  qed
qed simp

lemma fix_linkedlist_tables: "et_fix_linkedlist s = Some s' \<Longrightarrow> same_tables s s'"
  by (auto simp: et_fix_linkedlist_def split: Option.bind_splits dest: fix_main_tables)

text \<open>The removal of stations: a station keeps its data or is initialised.\<close>

definition wiped :: "et_station \<Rightarrow> bool" where
  "wiped ps \<longleftrightarrow> status (st_data ps) = ET_STATION_UNUSED \<and> st_nattachments (st_data ps) = 0 \<and>
     (\<forall>j. int j < ET_ATTACHMENTS_MAX \<longrightarrow> st_att (st_data ps) j = - 1)"

definition some_wiped :: "et_shm \<Rightarrow> et_shm \<Rightarrow> bool" where
  "some_wiped s s' \<longleftrightarrow> attach (sys s') = attach (sys s) \<and> proc (sys s') = proc (sys s) \<and>
     sys_config (sys s') = sys_config (sys s) \<and> (\<forall>n. st_data (stats s' n) = st_data (stats s n) \<or> wiped (stats s' n))"

lemma some_wiped_trans: "some_wiped s t \<Longrightarrow> some_wiped t u \<Longrightarrow> some_wiped s u"
  unfolding some_wiped_def wiped_def by (metis (no_types, lifting))

lemma init_station_wiped: "wiped (et_init_station ps)"
  by (simp add: wiped_def et_init_station_def)

lemma fix_station_wiped: "fix_station i (c, s) = Some (c', s') \<Longrightarrow> some_wiped s s'"
  using init_station_wiped
  by (auto simp: fix_station_def some_wiped_def Let_def split: if_splits Option.bind_splits)

lemma fix_stations_from_wiped: "fix_stations_from is (c, s) = Some (c', s') \<Longrightarrow> some_wiped s s'"
proof (induction "is" arbitrary: c s)
  case (Cons i "is")
  then obtain c1 s1 where "fix_station i (c, s) = Some (c1, s1)" "fix_stations_from is (c1, s1) = Some (c', s')"
    by (auto split: Option.bind_splits)
  then show ?case using some_wiped_trans fix_station_wiped Cons.IH by blast
qed (simp add: some_wiped_def)

lemma fix_stations_wiped:
  assumes "et_fix_stations s = Some s'"
  shows "some_wiped s s'"
proof -
  obtain c t where t: "fix_stations_from [1..<nat (c_nstations (sys_config (sys s)))] (1, s) = Some (c, t)"
    "s' = (if c \<noteq> nstations (sys t) then upd_sys (\<lambda>y. y\<lparr>nstations := c\<rparr>) t else t)"
    using assms by (auto simp: et_fix_stations_def split: Option.bind_splits)
  have "some_wiped s t" by (rule fix_stations_from_wiped[OF t(1)])
  then show ?thesis unfolding t(2) some_wiped_def by simp
qed

lemma forget_life: "life (forget_att i s) = life s"
proof -
  have "life (fold (\<lambda>j. upd_sys (\<lambda>y. y\<lparr>proc := (proc y)(j := (proc y j)\<lparr>pr_att := (pr_att (proc y j))(i := - 1)\<rparr>)\<rparr>)) js s) = life s" for js
    by (induction js arbitrary: s) (auto simp: life_def fun_eq_iff)
  then show ?thesis unfolding forget_att_def by blast
qed

lemma fix_attachments_life: "life (et_fix_attachments s) = life s"
proof -
  have "life (fix_attachment i s) = life s" for i s
    using forget_life[of i s] by (auto simp: fix_attachment_def et_init_attachment_def life_def fun_eq_iff)
  then have "life (fold fix_attachment is s) = life s" for "is" by (induction "is" arbitrary: s) simp_all
  then show ?thesis by (simp add: et_fix_attachments_def)
qed

lemma fix_natts_life: "life (et_fix_natts s) = life s"
proof -
  have "life (snd (fold (fix_count m) is (c, s))) = life s" for m "is" c s
    by (induction "is" arbitrary: c s) (auto simp: fix_count_def Let_def life_def fun_eq_iff)
  moreover have "life (fold (fix_proc_count m) is s) = life s" for m "is" s
  proof (induction "is" arbitrary: s)
    case (Cons i "is")
    have "life (fix_proc_count m i s) = life s" by (auto simp: fix_proc_count_def life_def fun_eq_iff)
    then show ?case using Cons.IH[of "fix_proc_count m i s"] by simp
  qed simp
  moreover have "life (upd_sys (\<lambda>y. y\<lparr>nattachments := n\<rparr>) s) = life s" for n s by (simp add: life_def fun_eq_iff)
  ultimately show ?thesis by (simp add: et_fix_natts_def Let_def split: prod.split) (metis snd_conv)
qed

lemma keeps_data_repairs [simp]:
  "keeps_data (et_repair_inputlist nmax)" "keeps_data et_repair_outputlist" "keeps_data et_repair_gcinputlist"
  by (auto simp: keeps_data_def et_repair_inputlist_def et_repair_outputlist_def et_repair_gcinputlist_def Let_def
      split: Option.bind_splits if_splits prod.splits)

lemma on_station_tables:
  assumes "on_station n f s = Some (r, s')" "keeps_data f"
  shows "same_tables s s'"
  using on_station_frame[OF assms(2,1)] assms(1)
  by (auto simp: same_tables_def att_frame_def on_station_def split: Option.bind_splits)

lemma unlock_tables [simp]: "same_tables s (in_unlock n s)" "same_tables s (out_unlock n s)"
  by (auto intro!: same_tablesI simp: in_unlock_def out_unlock_def)

lemma repair_gc_tables: "et_repair_gc busy s = Some (r, s') \<Longrightarrow> same_tables s s'"
  using on_station_tables[OF _ keeps_data_repairs(1)] on_station_tables[OF _ keeps_data_repairs(3)] same_tables_trans unlock_tables
  by (auto simp: et_repair_gc_def split: if_splits Option.bind_splits; metis)

lemma repair_station_tables: "et_repair_station busy n s = Some (r, s') \<Longrightarrow> same_tables s s'"
  using on_station_tables[OF _ keeps_data_repairs(1)] on_station_tables[OF _ keeps_data_repairs(2)] same_tables_trans unlock_tables
  by (auto simp: et_repair_station_def split: if_splits Option.bind_splits; metis)

text \<open>The forward links and the head of the station lists stay.\<close>

definition links_kept :: "et_shm \<Rightarrow> et_shm \<Rightarrow> bool" where
  "links_kept s s' \<longleftrightarrow> stat_head (sys s') = stat_head (sys s) \<and>
     (\<forall>m. num (stats s' m) = num (stats s m) \<and> st_next (stats s' m) = st_next (stats s m) \<and>
          nextparallel (stats s' m) = nextparallel (stats s m))"

text \<open>A detach by the monitor, which leaves the table of processes to itself.\<close>

definition detached :: "nat \<Rightarrow> nat \<Rightarrow> et_shm \<Rightarrow> et_shm \<Rightarrow> bool" where
  "detached j n s s' \<longleftrightarrow> gone j n s s' \<and> proc (sys s') = proc (sys s) \<and> links_kept s s' \<and>
     (\<forall>m. status (st_data (stats s' m)) =
        (if m = n \<and> st_nattachments (st_data (stats s n)) = 1 \<and> n \<noteq> 0 then ET_STATION_IDLE
         else status (st_data (stats s m))))"

lemma make_idle_status:
  assumes "make_idle e a n s1 = Some s2"
  shows "proc (sys s2) = proc (sys s1) \<and> nprocesses (sys s2) = nprocesses (sys s1) \<and> links_kept s1 s2 \<and> (\<forall>m. status (st_data (stats s2 m)) =
        (if m = n \<and> st_nattachments (st_data (stats s1 n)) = 1 \<and> n \<noteq> 0 then ET_STATION_IDLE
         else status (st_data (stats s1 m))))"
proof (cases "st_nattachments (st_data (stats s1 n)) = 1 \<and> int n \<noteq> ET_GRANDCENTRAL")
  case True
  define t where "t = (let s = (if cleanup e \<noteq> 1 then et_transfer_lock_all s1 else s1);
             s = upd_station n (\<lambda>ps. ps\<lparr>st_data := (st_data ps)\<lparr>status := ET_STATION_IDLE\<rparr>\<rparr>) s
         in if cleanup e \<noteq> 1 then et_transfer_unlock_all s else s)"
  have "et_flush_events e a n t = Some s2"
    using assms True by (simp add: make_idle_def t_def Let_def)
  then have "att_frame t s2" by (rule flush_frame)
  moreover have "links_kept s1 t" by (auto simp: links_kept_def t_def Let_def)
  ultimately show ?thesis using True by (auto simp: att_frame_def links_kept_def t_def Let_def)
next
  case False
  then have "make_idle e a n s1 = Some s1" by (simp only: make_idle_def if_False)
  then show ?thesis using assms False by (auto simp: links_kept_def)
qed

lemma detach_clean:
  assumes "et_station_detach (e\<lparr>cleanup := 1\<rparr>) etr (int j) s = Some (r, s')" "locality e = ET_LOCAL"
  shows "r \<noteq> ET_OK \<and> (s' = s \<or> s' = station_unlock s) \<or>
    r = ET_OK \<and> (\<exists>n. stat_ix s j = Some n \<and> int j < c_nattachments (sys_config (sys s)) \<and> detached j n s s')"
proof (cases "r = ET_OK")
  case True
  define n where "n = nat (at_stat (attach (sys s) j))"
  define s1 where "s1 = upd_sys (\<lambda>y. y\<lparr>nattachments := nattachments y - 1\<rparr>)
      (upd_attach j (\<lambda>t. t\<lparr>at_num := - 1, at_status := ET_ATT_UNUSED\<rparr>) s)"
  have g: "gone j n s s'" "int j < c_nattachments (sys_config (sys s))" "0 \<le> at_stat (attach (sys s) j)"
    using detach_gone[of "e\<lparr>cleanup := 1\<rparr>" etr "int j" s s'] assms True by (simp_all add: n_def)
  define e' where "e' = e\<lparr>cleanup := 1\<rparr>"
  have e': "cleanup e' = 1" "locality e' = ET_LOCAL" using assms(2) by (simp_all add: e'_def)
  have det: "et_station_detach e' etr (int j) s = Some (ET_OK, s')" using assms True by (simp add: e'_def)
  have gd: "\<not> (int j < 0 \<or> int j \<ge> ET_ATTACHMENTS_MAX)" "\<not> int j \<ge> c_nattachments (sys_config (sys s))"
    "et_alive e' \<noteq> 0" "\<not> at_stat (attach (sys s) j) < 0"
    using det e' by (auto simp: et_station_detach_def Let_def split: if_splits)
  have "et_station_detach e' etr (int j) s = do {
       s \<leftarrow> make_idle e' j n s1;
       (_, s) \<leftarrow> et_restore_events e' (int j) n s;
       Some (ET_OK, leave_station j n s) }"
    using gd e' by (simp add: et_station_detach_def Let_def n_def[symmetric] s1_def[symmetric])
  then obtain s2 z s3 where s2: "make_idle e' j n s1 = Some s2"
    and s3: "et_restore_events e' (int j) n s2 = Some (z, s3)" and s': "s' = leave_station j n s3"
    using det by (auto split: Option.bind_splits)
  have "proc (sys s') = proc (sys s)" "\<forall>m. status (st_data (stats s' m)) =
        (if m = n \<and> st_nattachments (st_data (stats s n)) = 1 \<and> n \<noteq> 0 then ET_STATION_IDLE
         else status (st_data (stats s m)))"
    using make_idle_status[OF s2] restore_events_frame[OF s3]
    by (auto simp: s' leave_station_def att_frame_def s1_def)
  moreover have "links_kept s s'" using make_idle_status[OF s2] restore_events_frame[OF s3]
    by (auto simp: s' leave_station_def att_frame_def s1_def links_kept_def)
  ultimately have "detached j n s s'" using g(1) unfolding detached_def by blast
  moreover have "stat_ix s j = Some n" using g(3) by (simp add: stat_ix_def n_def)
  ultimately show ?thesis using g(2) True by blast
next
  case False
  define e' where "e' = e\<lparr>cleanup := 1\<rparr>"
  have e': "cleanup e' = 1" "locality e' = ET_LOCAL" using assms(2) by (simp_all add: e'_def)
  have det: "et_station_detach e' etr (int j) s = Some (r, s')" using assms by (simp add: e'_def)
  show ?thesis
  proof (cases "(int j < 0 \<or> int j \<ge> ET_ATTACHMENTS_MAX) \<or> int j \<ge> c_nattachments (sys_config (sys s)) \<or>
      et_alive e' = 0 \<or> at_stat (attach (sys s) j) < 0")
    case True
    then show ?thesis using det e' by (auto simp: et_station_detach_def Let_def split: if_splits)
  next
    case ok: False
    then have "\<exists>t. et_station_detach e' etr (int j) s = do {
       s \<leftarrow> make_idle e' j (nat (at_stat (attach (sys s) j))) t;
       (_, s) \<leftarrow> et_restore_events e' (int j) (nat (at_stat (attach (sys t) j))) s;
       Some (ET_OK, leave_station j (nat (at_stat (attach (sys t) j))) s) }"
      using e' by (intro exI[of _ "upd_sys (\<lambda>y. y\<lparr>nattachments := nattachments y - 1\<rparr>)
        (upd_attach j (\<lambda>t. t\<lparr>at_num := - 1, at_status := ET_ATT_UNUSED\<rparr>) s)"])
        (simp add: et_station_detach_def Let_def)
    then show ?thesis using det False by (auto split: Option.bind_splits)
  qed
qed

section \<open>Whom the monitor removes\<close>

lemma same_tables_life: "same_tables s s' \<Longrightarrow> life s' = life s \<and> sys_config (sys s') = sys_config (sys s)"
  by (auto simp: same_tables_def att_frame_def life_def fun_eq_iff)

lemma clean_att_life:
  assumes "clean_att e etr busy i j s = Some s'" "locality e = ET_LOCAL"
  shows "proc (sys s') = proc (sys s) \<and> sys_config (sys s') = sys_config (sys s)"
proof (cases "pr_att (proc (sys s) i) j = - 1")
  case False
  then obtain n r1 s1 r2 where "et_repair_station (busy (RepairAtt j)) n s = Some (r1, s1)"
    "et_station_detach (e\<lparr>cleanup := 1\<rparr>) etr (int j) s1 = Some (r2, s')"
    using assms by (auto simp: clean_att_def split: Option.bind_splits)
  then show ?thesis using repair_station_tables detach_clean[OF _ assms(2)]
    by (fastforce simp: same_tables_def att_frame_def detached_def gone_def)
qed (use assms in \<open>simp add: clean_att_def\<close>)

lemma clean_atts_life:
  "clean_atts e etr busy i js s = Some s' \<Longrightarrow> locality e = ET_LOCAL \<Longrightarrow>
   proc (sys s') = proc (sys s) \<and> sys_config (sys s') = sys_config (sys s)"
proof (induction js arbitrary: s)
  case (Cons j js)
  then obtain s1 where "clean_att e etr busy i j s = Some s1" "clean_atts e etr busy i js s1 = Some s'"
    by (auto split: Option.bind_splits)
  then show ?case using Cons.IH[of s1] clean_att_life[of e etr busy i j s s1] Cons.prems(2) by simp
qed simp

text \<open>The states a clean-up goes through.\<close>

lemma clean_processE:
  assumes "clean_process e etr busy i s = Some s'"
  obtains s1 s2 s3 r s4 s5 where "same_tables s s1" "some_wiped s1 s2" "s3 = et_fix_attachments s2" "same_tables s3 s4"
    "clean_atts e etr busy i [0..<nat (c_nattachments (sys_config (sys s4)))] s4 = Some s5"
    "s' = station_unlock (system_unlock (et_transfer_unlock_all (et_fix_natts (et_fix_nprocs
       (upd_sys (\<lambda>y. y\<lparr>nprocesses := nprocesses y - 1\<rparr>) (et_init_process i s5))))))"
proof -
  let ?t = "et_transfer_lock_all (station_lock (et_fix_mutexes (busy FixMutexes) s))"
  obtain s1 s2 r s4 s5 where u: "et_fix_linkedlist ?t = Some s1" "et_fix_stations s1 = Some s2"
    "et_repair_gc (busy RepairGc) (et_fix_attachments (system_lock s2)) = Some (r, s4)"
    "clean_atts e etr busy i [0..<nat (c_nattachments (sys_config (sys s4)))] s4 = Some s5"
    "s' = station_unlock (system_unlock (et_transfer_unlock_all (et_fix_natts (et_fix_nprocs
       (upd_sys (\<lambda>y. y\<lparr>nprocesses := nprocesses y - 1\<rparr>) (et_init_process i s5))))))"
    using assms by (auto simp: clean_process_def Let_def split: Option.bind_splits)
  have "same_tables s ?t"
    by (rule same_tables_trans[OF fix_mutexes_tables same_tables_trans[OF transfer_all_tables(3) transfer_all_tables(1)]])
  then have "same_tables s s1" using fix_linkedlist_tables[OF u(1)] same_tables_trans by blast
  moreover have "some_wiped s1 (system_lock s2)" using fix_stations_wiped[OF u(2)] by (simp add: some_wiped_def)
  moreover have "same_tables (et_fix_attachments (system_lock s2)) s4" by (rule repair_gc_tables[OF u(3)])
  ultimately show thesis using that[OF _ _ refl _ u(4,5)] by blast
qed

lemma fix_attachments_config [simp]: "sys_config (sys (et_fix_attachments s)) = sys_config (sys s)"
  using fold_fix_attachment[of "[0..<nat (c_nattachments (sys_config (sys s)))]" s] by (simp add: et_fix_attachments_def)

lemma fix_natts_config [simp]: "sys_config (sys (et_fix_natts s)) = sys_config (sys s)"
proof -
  have "sys_config (sys (snd (fold (fix_count m) is (c, s)))) = sys_config (sys s)" for m "is" c s
    by (induction "is" arbitrary: c s) (auto simp: fix_count_def Let_def)
  moreover have "sys_config (sys (fold (fix_proc_count m) is s)) = sys_config (sys s)" for m "is" s
    by (induction "is" arbitrary: s) (auto simp: fix_proc_count_def)
  ultimately show ?thesis by (simp add: et_fix_natts_def Let_def split: prod.split) (metis snd_conv)
qed

lemma clean_process_life:
  assumes "clean_process e etr busy i s = Some s'" "locality e = ET_LOCAL"
  shows "\<forall>k. k \<noteq> i \<longrightarrow> life s' k = life s k" "life s' i = (ET_PROC_CLOSED, 0, - 1)"
    "sys_config (sys s') = sys_config (sys s)"
    "nprocesses (sys s') = int (card {k. int k < c_nprocesses (sys_config (sys s)) \<and> fst (life s' k) = ET_PROC_OPEN})"
proof -
  obtain s1 s2 s3 r s4 s5 where u: "same_tables s s1" "some_wiped s1 s2" "s3 = et_fix_attachments s2" "same_tables s3 s4"
    "clean_atts e etr busy i [0..<nat (c_nattachments (sys_config (sys s4)))] s4 = Some s5"
    "s' = station_unlock (system_unlock (et_transfer_unlock_all (et_fix_natts (et_fix_nprocs
       (upd_sys (\<lambda>y. y\<lparr>nprocesses := nprocesses y - 1\<rparr>) (et_init_process i s5))))))"
    using clean_processE[OF assms(1)] .
  have l4: "life s4 = life s \<and> sys_config (sys s4) = sys_config (sys s)"
    using same_tables_life[OF u(1)] same_tables_life[OF u(4)] u(2,3) fix_attachments_life[of s2]
    by (simp add: some_wiped_def life_def fun_eq_iff)
  have l5: "life s5 = life s4 \<and> sys_config (sys s5) = sys_config (sys s4)"
    using clean_atts_life[OF u(5) assms(2)] by (auto simp: life_def fun_eq_iff)
  let ?t = "et_fix_nprocs (upd_sys (\<lambda>y. y\<lparr>nprocesses := nprocesses y - 1\<rparr>) (et_init_process i s5))"
  have l6: "life ?t k = (if k = i then (ET_PROC_CLOSED, 0, - 1) else life s5 k)" for k
    by (simp add: et_fix_nprocs_def et_init_process_def life_def)
  have l7: "life s' = life ?t"
    unfolding u(6) using fix_natts_life[of ?t] by (simp add: life_def fun_eq_iff)
  show "\<forall>k. k \<noteq> i \<longrightarrow> life s' k = life s k" "life s' i = (ET_PROC_CLOSED, 0, - 1)" using l4 l5 l6 l7 by simp_all
  show c: "sys_config (sys s') = sys_config (sys s)"
    unfolding u(6) using l4 l5 by (simp add: et_fix_nprocs_def et_init_process_def)
  have np: "nprocesses (sys (et_fix_natts t)) = nprocesses (sys t)" for t
  proof -
    have "nprocesses (sys (snd (fold (fix_count m) is (c, s)))) = nprocesses (sys s)" for m "is" c s
      by (induction "is" arbitrary: c s) (auto simp: fix_count_def Let_def)
    moreover have "nprocesses (sys (fold (fix_proc_count m) is s)) = nprocesses (sys s)" for m "is" s
      by (induction "is" arbitrary: s) (auto simp: fix_proc_count_def)
    ultimately show ?thesis by (simp add: et_fix_natts_def Let_def split: prod.split) (metis snd_conv)
  qed
  have "nprocesses (sys s') = nprocesses (sys ?t)" unfolding u(6) by (simp add: np)
  also have "\<dots> = int (length (filter (\<lambda>k. fst (life ?t k) = ET_PROC_OPEN) [0..<nat (c_nprocesses (sys_config (sys s)))]))"
    using l4 l5 by (simp add: et_fix_nprocs_def et_init_process_def life_def)
  also have "\<dots> = int (card {k. int k < c_nprocesses (sys_config (sys s)) \<and> fst (life s' k) = ET_PROC_OPEN})"
    unfolding l7 by (subst distinct_card [symmetric]) (auto intro!: arg_cong[of _ _ card] simp: zless_nat_eq_int_zless)
  finally show "nprocesses (sys s') = int (card {k. int k < c_nprocesses (sys_config (sys s)) \<and> fst (life s' k) = ET_PROC_OPEN})" .
qed


text \<open>A process is \<open>silent\<close> when it is open and its heart shows what it showed the turn before.\<close>

definition silent :: "(nat \<Rightarrow> i32) \<Rightarrow> et_shm \<Rightarrow> nat \<Rightarrow> bool" where
  "silent old s k \<longleftrightarrow> fst (life s k) = ET_PROC_OPEN \<and> old k = fst (snd (life s k))"

lemma silent_cong: "life s k = life t k \<Longrightarrow> old k = old2 k \<Longrightarrow> silent old s k = silent old2 t k"
  by (simp add: silent_def)

lemma monitor_step:
  assumes "monitor_procs e etr busy (i # is) (old, s) = Some (old', s')" "locality e = ET_LOCAL"
  obtains old1 s1 where "monitor_procs e etr busy is (old1, s1) = Some (old', s')"
    "\<forall>k. life s1 k = (if k = i \<and> silent old s i then (ET_PROC_CLOSED, 0, - 1) else life s k)"
    "old1 = (if fst (life s i) \<noteq> ET_PROC_OPEN then old
       else old(i := (if silent old s i then 0 else fst (snd (life s i)))))"
    "sys_config (sys s1) = sys_config (sys s)"
proof (cases "silent old s i")
  case True
  then obtain s1 where c: "clean_process e etr (busy i) i s = Some s1"
    "monitor_procs e etr busy is (old(i := 0), s1) = Some (old', s')"
    using assms(1) by (auto simp: silent_def life_def Let_def split: Option.bind_splits)
  show ?thesis
    using that[OF c(2)] True clean_process_life(1-3)[OF c(1) assms(2)] by (simp add: silent_def)
next
  case False
  let ?old = "if fst (life s i) \<noteq> ET_PROC_OPEN then old else old(i := fst (snd (life s i)))"
  have "monitor_procs e etr busy is (?old, s) = Some (old', s')"
    using assms(1) False by (auto simp: silent_def life_def Let_def)
  show ?thesis by (rule that[OF \<open>monitor_procs e etr busy is (?old, s) = Some (old', s')\<close>]) (use False in simp_all)
qed

lemma monitor_procs_life:
  assumes "monitor_procs e etr busy is (old, s) = Some (old', s')" "locality e = ET_LOCAL" "distinct is"
  shows "life s' k = (if k \<in> set is \<and> silent old s k then (ET_PROC_CLOSED, 0, - 1) else life s k) \<and>
    old' k = (if k \<in> set is \<and> fst (life s k) = ET_PROC_OPEN
      then (if silent old s k then 0 else fst (snd (life s k))) else old k)"
  using assms
proof (induction "is" arbitrary: old s)
  case (Cons i "is")
  from monitor_step[OF Cons.prems(1,2)] obtain old1 s1
    where m: "monitor_procs e etr busy is (old1, s1) = Some (old', s')"
      and l: "\<forall>k. life s1 k = (if k = i \<and> silent old s i then (ET_PROC_CLOSED, 0, - 1) else life s k)"
      and o: "old1 = (if fst (life s i) \<noteq> ET_PROC_OPEN then old
        else old(i := (if silent old s i then 0 else fst (snd (life s i)))))" by metis
  have IH: "life s' k = (if k \<in> set is \<and> silent old1 s1 k then (ET_PROC_CLOSED, 0, - 1) else life s1 k) \<and>
    old' k = (if k \<in> set is \<and> fst (life s1 k) = ET_PROC_OPEN
      then (if silent old1 s1 k then 0 else fst (snd (life s1 k))) else old1 k)"
    using Cons.IH[OF m Cons.prems(2)] Cons.prems(3) by simp
  show ?case
  proof (cases "k = i")
    case True
    then have "k \<notin> set is" using Cons.prems(3) by simp
    then show ?thesis using IH l o True by simp
  next
    case False
    then have "life s1 k = life s k" "old1 k = old k" using l o by simp_all
    then show ?thesis using IH False silent_cong[of s1 k s old1 old] by simp
  qed
qed simp

lemma monitor_life:
  assumes "et_sys_heartmonitor e etr busy (old, s) = Some (old', s')" "locality e = ET_LOCAL"
    "int k < c_nprocesses (sys_config (sys s))"
  shows "life s' k = (if silent old s k then (ET_PROC_CLOSED, 0, - 1) else life s k) \<and>
    old' k = (if fst (life s k) \<noteq> ET_PROC_OPEN then old k else if silent old s k then 0 else fst (snd (life s k)))"
  using monitor_procs_life[of e etr busy "[0..<nat (c_nprocesses (sys_config (sys s)))]" old s old' s' k] assms
  by (simp add: et_sys_heartmonitor_def zless_nat_eq_int_zless)

end
