(* ===== verification/EtCleanup.thy ===== *)
theory EtCleanup imports EtMonitor EtSystem begin

text \<open>
  The clean-up after a process that died in none of the critical sections of the event lists: it
  comes to an end, it gives the events of all attachments of the process back, and the books of
  stations, attachments and processes agree again; the process may have died halfway through
  \<^verbatim>\<open>et_station_attach\<close>. \<open>tidy\<close> is what holds between the detachments of its attachments.
\<close>

section \<open>The books during a clean-up\<close>

definition known_atts :: "et_shm \<Rightarrow> nat \<Rightarrow> nat set" where
  "known_atts s n = {j. int j < c_nattachments (sys_config (sys s)) \<and> st_att (st_data (stats s n)) j = int j}"

definition counted :: "et_shm \<Rightarrow> bool" where
  "counted s \<longleftrightarrow> (\<forall>n. int n < c_nstations (sys_config (sys s)) \<longrightarrow>
     int (card (known_atts s n)) \<le> st_nattachments (st_data (stats s n)))"

definition tidy :: "et_shm \<Rightarrow> bool" where
  "tidy s \<longleftrightarrow> half_attached s \<and> counted s \<and>
     (\<forall>i. int i < c_nattachments (sys_config (sys s)) \<longrightarrow> active s i \<longrightarrow> known s i)"

lemma finite_known_atts [simp]: "finite (known_atts s n)"
proof -
  have "known_atts s n \<subseteq> {..<nat (c_nattachments (sys_config (sys s)))}" by (auto simp: known_atts_def)
  then show ?thesis by (rule finite_subset) simp
qed

lemma same_books:
  assumes "attach (sys s') = attach (sys s)" "sys_config (sys s') = sys_config (sys s)"
    "\<And>n. st_data (stats s' n) = st_data (stats s n)"
  shows "half_attached s' = half_attached s" "counted s' = counted s" "tidy s' = tidy s" "known s' = known s"
    "active s' = active s"
proof -
  show a: "active s' = active s" using assms(1) by (simp add: active_def fun_eq_iff)
  show k: "known s' = known s" using assms by (simp add: known_def fun_eq_iff)
  show h: "half_attached s' = half_attached s" using assms a by (simp add: half_attached_def)
  show c: "counted s' = counted s" using assms by (simp add: counted_def known_atts_def)
  show "tidy s' = tidy s" using assms h c k a by (simp add: tidy_def)
qed

lemma same_tables_books:
  assumes "same_tables s s'"
  shows "half_attached s' = half_attached s" "counted s' = counted s" "tidy s' = tidy s" "known s' = known s"
  using same_books[of s' s] assms by (simp_all add: same_tables_def att_frame_def)

text \<open>An active attachment is known to its station, and to no other.\<close>

lemma tidy_known:
  assumes t: "tidy s" and j: "int j < c_nattachments (sys_config (sys s))" "at_num (attach (sys s) j) \<noteq> - 1"
  obtains n where "at_stat (attach (sys s) j) = int n" "int n < c_nstations (sys_config (sys s))"
    "st_att (st_data (stats s n)) j = int j" "st_active s n"
    "\<And>m. int m < c_nstations (sys_config (sys s)) \<Longrightarrow> st_att (st_data (stats s m)) j = int j \<Longrightarrow> m = n"
proof -
  have h: "half_attached s" using t by (simp add: tidy_def)
  have "active s j" using h j by (auto simp: half_attached_def)
  then have "known s j" using t j by (simp add: tidy_def)
  then obtain n where n: "int n < c_nstations (sys_config (sys s))" "st_att (st_data (stats s n)) j = int j"
    by (auto simp: known_def)
  note d = half_attachedD[OF h _ j(1)]
  show thesis
  proof (rule that[OF d(2)[OF n] n d(3)[OF n]])
    fix m assume "int m < c_nstations (sys_config (sys s))" "st_att (st_data (stats s m)) j = int j"
    from d(2)[OF this] d(2)[OF n] show "m = n" by simp
  qed
qed

lemma detached_tidy:
  assumes t: "tidy s" and j: "int j < c_nattachments (sys_config (sys s))" "at_num (attach (sys s) j) \<noteq> - 1"
    and d: "detached j n s s'" and n: "at_stat (attach (sys s) j) = int n"
  shows "tidy s'"
proof -
  let ?M = "c_nattachments (sys_config (sys s))" and ?N = "c_nstations (sys_config (sys s))"
  let ?idle = "st_nattachments (st_data (stats s n)) = 1 \<and> n \<noteq> 0"
  have h: "half_attached s" and c: "counted s" using t by (simp_all add: tidy_def)
  from tidy_known[OF t j] n have n': "int n < ?N" "st_att (st_data (stats s n)) j = int j" "st_active s n"
    and only: "\<And>m. int m < ?N \<Longrightarrow> st_att (st_data (stats s m)) j = int j \<Longrightarrow> m = n" by (metis of_nat_eq_iff)+
  have g: "at_num (attach (sys s') j) = - 1" "\<And>i. i \<noteq> j \<Longrightarrow> at_num (attach (sys s') i) = at_num (attach (sys s) i)"
    "\<And>i. at_stat (attach (sys s') i) = at_stat (attach (sys s) i)" "sys_config (sys s') = sys_config (sys s)"
    "\<And>m. st_nattachments (st_data (stats s' m)) = st_nattachments (st_data (stats s m)) - (if m = n then 1 else 0)"
    "\<And>m i. st_att (st_data (stats s' m)) i = (if m = n \<and> i = j then - 1 else st_att (st_data (stats s m)) i)"
    "\<And>m. status (st_data (stats s' m)) = (if m = n \<and> ?idle then ET_STATION_IDLE else status (st_data (stats s m)))"
    using d by (auto simp: detached_def gone_def)
  have act: "active s' i \<longleftrightarrow> i \<noteq> j \<and> active s i" for i using g(1,2) by (cases "i = j") (auto simp: active_def)
  have ka: "known_atts s' m = (if m = n then known_atts s n - {j} else known_atts s m)" for m
    by (auto simp: known_atts_def g(4,6))
  have jn: "j \<in> known_atts s n" using n'(2) j(1) by (simp add: known_atts_def)
  have only_j: "known_atts s n = {j}" if ?idle
  proof -
    have "card (known_atts s n) \<le> 1" using c n'(1) that by (auto simp: counted_def)
    then show ?thesis using jn card_le_Suc0_iff_eq[of "known_atts s n"] by auto
  qed
  have at: "st_att (st_data (stats s m)) i = - 1 \<or> st_att (st_data (stats s m)) i = int i \<and> active s i \<and>
      at_stat (attach (sys s) i) = int m \<and> st_active s m" if "int m < ?N" "int i < ?M" for m i
    using h that by (simp add: half_attached_def)
  have st: "st_active s' m" if "int m < ?N" "int i < ?M" "i \<noteq> j \<or> m \<noteq> n" "st_att (st_data (stats s m)) i = int i" for m i
  proof (cases "m = n \<and> ?idle")
    case True
    then have "i \<in> known_atts s n" using that by (simp add: known_atts_def)
    then show ?thesis using only_j True that(3) by auto
  next
    case False
    then show ?thesis using half_attachedD(3)[OF h that(1,2,4)] g(7) by auto
  qed
  have "half_attached s'" unfolding half_attached_def g(3,4)
  proof (intro conjI allI impI)
    fix i assume i: "int i < ?M"
    then show "at_num (attach (sys s') i) = - 1 \<or> active s' i"
      using h g(1,2) act by (cases "i = j") (auto simp: half_attached_def)
  next
    fix m i assume m: "int m < ?N" and i: "int i < ?M"
    show "st_att (st_data (stats s' m)) i = - 1 \<or> st_att (st_data (stats s' m)) i = int i \<and> active s' i \<and>
        at_stat (attach (sys s) i) = int m \<and> st_active s' m"
    proof (cases "st_att (st_data (stats s' m)) i = - 1")
      case False
      then have old: "st_att (st_data (stats s m)) i \<noteq> - 1" "i \<noteq> j \<or> m \<noteq> n" "st_att (st_data (stats s' m)) i = st_att (st_data (stats s m)) i"
        by (auto simp: g(6) split: if_splits)
      then have o: "st_att (st_data (stats s m)) i = int i" "active s i" "at_stat (attach (sys s) i) = int m"
        using at[OF m i] by auto
      have "i \<noteq> j" using only[OF m] o(1) old(2) by auto
      then show ?thesis using o old(3) act st[OF m i old(2) o(1)] by simp
    qed simp
  next
    fix m assume m: "int m < ?N" "\<not> st_active s' m"
    show "st_nattachments (st_data (stats s' m)) = 0"
    proof (cases "m = n")
      case True
      then show ?thesis using m(2) g(5,7) n'(3) by (auto split: if_splits)
    next
      case False
      then show ?thesis using m g(5,7) h by (simp add: half_attached_def)
    qed
  qed
  moreover have "counted s'" unfolding counted_def g(4)
  proof (intro allI impI)
    fix m assume m: "int m < ?N"
    have "int (card (known_atts s m)) \<le> st_nattachments (st_data (stats s m))" using c m by (simp add: counted_def)
    moreover have "card (known_atts s n) = Suc (card (known_atts s n - {j}))" by (rule card.remove[OF finite_known_atts jn])
    ultimately show "int (card (known_atts s' m)) \<le> st_nattachments (st_data (stats s' m))"
      by (cases "m = n") (simp_all add: ka g(5))
  qed
  moreover have "known s' i" if i: "int i < ?M" "active s' i" for i
  proof -
    have "i \<noteq> j" "active s i" using i(2) act by simp_all
    then have "known s i" using t i(1) by (simp add: tidy_def)
    then obtain m where m: "int m < ?N" "st_att (st_data (stats s m)) i = int i" by (auto simp: known_def)
    have "st_active s' m" using st[OF m(1) i(1) _ m(2)] \<open>i \<noteq> j\<close> by blast
    moreover have "st_att (st_data (stats s' m)) i = int i" using g(6)[of m i] m(2) \<open>i \<noteq> j\<close> by simp
    ultimately show ?thesis using m(1) unfolding known_def g(4) by blast
  qed
  ultimately show ?thesis by (simp add: tidy_def g(4))
qed

text \<open>A station that is initialised knows no attachment any more.\<close>

lemma some_wiped_books:
  assumes w: "some_wiped s s'" and h: "half_attached s" "counted s" and m: "c_nattachments (sys_config (sys s)) \<le> ET_ATTACHMENTS_MAX"
  shows "half_attached s'" "counted s'"
proof -
  let ?M = "c_nattachments (sys_config (sys s))" and ?N = "c_nstations (sys_config (sys s))"
  have g: "attach (sys s') = attach (sys s)" "sys_config (sys s') = sys_config (sys s)"
    "\<And>n. st_data (stats s' n) = st_data (stats s n) \<or> wiped (stats s' n)"
    using w by (simp_all add: some_wiped_def)
  have act: "active s' = active s" using g(1) by (simp add: active_def fun_eq_iff)
  have wi: "st_att (st_data (stats s' n)) i = - 1" "st_nattachments (st_data (stats s' n)) = 0"
    if "wiped (stats s' n)" "int i < ?M" for n i using that m by (auto simp: wiped_def)
  have w0: "st_nattachments (st_data (stats s' n)) = 0" "known_atts s' n = {}" if "wiped (stats s' n)" for n
    using that m by (auto simp: wiped_def known_atts_def g(2))
  show "half_attached s'" unfolding half_attached_def g(1,2) act
  proof (intro conjI allI impI)
    fix i assume "int i < ?M"
    then show "at_num (attach (sys s) i) = - 1 \<or> active s i" using h by (simp add: half_attached_def)
  next
    fix n i assume n: "int n < ?N" and i: "int i < ?M"
    have "st_att (st_data (stats s n)) i = - 1 \<or> st_att (st_data (stats s n)) i = int i \<and> active s i \<and>
        at_stat (attach (sys s) i) = int n \<and> st_active s n" using h(1) n i by (simp add: half_attached_def)
    then show "st_att (st_data (stats s' n)) i = - 1 \<or> st_att (st_data (stats s' n)) i = int i \<and> active s i \<and>
        at_stat (attach (sys s) i) = int n \<and> st_active s' n"
      using g(3)[of n] wi(1)[of n i] i by (cases "wiped (stats s' n)") simp_all
  next
    fix n assume "int n < ?N" "\<not> st_active s' n"
    then show "st_nattachments (st_data (stats s' n)) = 0"
      using h(1) g(3)[of n] w0(1)[of n] by (auto simp: half_attached_def)
  qed
  show "counted s'" unfolding counted_def g(2)
  proof (intro allI impI)
    fix n assume n: "int n < ?N"
    show "int (card (known_atts s' n)) \<le> st_nattachments (st_data (stats s' n))"
    proof (cases "wiped (stats s' n)")
      case False
      then have "st_data (stats s' n) = st_data (stats s n)" using g(3) by blast
      then show ?thesis using h(2) n by (simp add: counted_def known_atts_def g(2))
    qed (simp add: w0)
  qed
qed


section \<open>The attachments of the process\<close>

definition cleanable :: "nat \<Rightarrow> et_shm \<Rightarrow> bool" where
  "cleanable N s \<longleftrightarrow> tidy s \<and> sane N s \<and> (\<forall>n. gives_back (stats s n)) \<and> 1 \<le> nevents_max s \<and>
     c_nattachments (sys_config (sys s)) \<le> ET_ATTACHMENTS_MAX"

text \<open>The events of the attachments \<open>J\<close> are given back, and no others.\<close>

definition released :: "nat set \<Rightarrow> et_shm \<Rightarrow> et_shm \<Rightarrow> bool" where
  "released J s s' \<longleftrightarrow> sys_config (sys s') = sys_config (sys s) \<and> (\<forall>r<nat (nevents_max s).
     owner (events s' r) = (if \<exists>j\<in>J. owner (events s r) = int j then ET_SYS else owner (events s r)))"

lemma released_empty: "events s' = events s \<Longrightarrow> sys_config (sys s') = sys_config (sys s) \<Longrightarrow> released {} s s'"
  by (simp add: released_def)

lemma released_trans: "released J s t \<Longrightarrow> released K t u \<Longrightarrow> released (J \<union> K) s u"
  by (auto simp: released_def)

text \<open>The station lists stay, but a station may become idle.\<close>

definition lists_kept :: "et_shm \<Rightarrow> et_shm \<Rightarrow> bool" where
  "lists_kept s s' \<longleftrightarrow> links_kept s s' \<and> (\<forall>m. config (stats s' m) = config (stats s m) \<and>
     (status (st_data (stats s' m)) = status (st_data (stats s m)) \<or>
      st_active s m \<and> status (st_data (stats s' m)) = ET_STATION_IDLE))"

lemma lists_kept_refl [simp]: "lists_kept s s"
  by (simp add: lists_kept_def links_kept_def)

lemma lists_kept_trans:
  assumes "lists_kept s t" "lists_kept t u"
  shows "lists_kept s u"
proof -
  have "status (st_data (stats u m)) = status (st_data (stats s m)) \<or> st_active s m \<and> status (st_data (stats u m)) = ET_STATION_IDLE" for m
    using assms unfolding lists_kept_def by (metis (no_types, lifting) one_neq_zero zero_neq_numeral)
  then show ?thesis using assms by (simp add: lists_kept_def links_kept_def)
qed

lemma clean_att_ok:
  assumes loc: "locality e = ET_LOCAL" "et_alive e \<noteq> 0" and m: "env_calloc e 0" "env_calloc e 1" "env_calloc e 2"
    and free: "\<forall>c l. \<not> et_mutex_locked (busy c l)" and c: "cleanable N s"
    and j: "int j < c_nattachments (sys_config (sys s))" "pr_att (proc (sys s) i) j \<noteq> - 1 \<longrightarrow> at_num (attach (sys s) j) \<noteq> - 1"
  shows "\<exists>s'. clean_att e etr busy i j s = Some s' \<and> cleanable N s' \<and> proc (sys s') = proc (sys s) \<and>
    (\<forall>k. at_num (attach (sys s') k) = (if k = j \<and> pr_att (proc (sys s) i) j \<noteq> - 1 then - 1 else at_num (attach (sys s) k))) \<and>
    lists_kept s s' \<and> released (if pr_att (proc (sys s) i) j \<noteq> - 1 then {j} else {}) s s'"
proof (cases "pr_att (proc (sys s) i) j = - 1")
  case True
  then show ?thesis using c by (auto simp: clean_att_def released_def)
next
  case False
  let ?e = "e\<lparr>cleanup := 1\<rparr>"
  have t: "tidy s" "sane N s" "\<And>n. gives_back (stats s n)" "1 \<le> nevents_max s" "c_nattachments (sys_config (sys s)) \<le> ET_ATTACHMENTS_MAX"
    using c by (simp_all add: cleanable_def)
  have num: "at_num (attach (sys s) j) \<noteq> - 1" using j(2) False by simp
  from tidy_known[OF t(1) j(1) num] obtain n where n: "at_stat (attach (sys s) j) = int n" and act: "st_active s n" by metis
  have ix: "stat_ix s j = Some n" using n by (simp add: stat_ix_def)
  have e: "locality ?e = ET_LOCAL" "et_alive ?e \<noteq> 0" "env_calloc ?e 0" "env_calloc ?e 1" "env_calloc ?e 2" "cleanup ?e = 1"
    using loc m by (simp_all add: et_alive_def)
  have s: "all_placed N s" "stations_ok N s" using t(2) by (simp_all add: sane_def)
  have b: "0 \<le> int j" "int j < ET_ATTACHMENTS_MAX" "0 \<le> at_stat (attach (sys s) (nat (int j)))"
    "gives_back (stats s (nat (at_stat (attach (sys s) (nat (int j))))))" using j(1) t(3,5) n by simp_all
  have p: "0 \<le> id_proc ?e \<or> id_proc ?e = ET_SYS \<or> cleanup ?e = 1" using e(6) by blast
  obtain s' where s': "et_station_detach ?e etr (int j) s = Some (ET_OK, s')" "all_placed N s'" "stations_ok N s'"
    "sys_config (sys s') = sys_config (sys s)"
    "\<forall>r<nat (nevents_max s). owner (events s' r) = (if owner (events s r) = int j then ET_SYS else owner (events s r))"
    using detach_recovers[OF e(1,2) s t(4) b(1,2) j(1) b(3,4) e(3-5) p, of etr] by blast
  have "detached j n s s'" using detach_clean[OF s'(1) loc(1)] ix by auto
  moreover from this have "lists_kept s s'" using act by (auto simp: lists_kept_def detached_def gone_def)
  moreover from calculation(1) have "tidy s'" by (rule detached_tidy[OF t(1) j(1) num _ n])
  moreover from calculation(1) have "gives_back (stats s' k)" for k using t(3) by (simp add: detached_def gone_def gives_back_def)
  moreover have "clean_att e etr busy i j s = Some s'"
    using False ix free s'(1) by (simp add: clean_att_def et_repair_station_def)
  ultimately show ?thesis using s' t(4,5) False
    by (auto simp: cleanable_def sane_def detached_def gone_def released_def)
qed

definition of_process :: "et_shm \<Rightarrow> nat \<Rightarrow> nat set" where
  "of_process s i = {j. int j < c_nattachments (sys_config (sys s)) \<and> pr_att (proc (sys s) i) j \<noteq> - 1}"

lemma clean_atts_ok:
  assumes loc: "locality e = ET_LOCAL" "et_alive e \<noteq> 0" and m: "env_calloc e 0" "env_calloc e 1" "env_calloc e 2"
    and free: "\<forall>c l. \<not> et_mutex_locked (busy c l)"
  shows "\<lbrakk>cleanable N s; distinct js; \<forall>j\<in>set js. int j < c_nattachments (sys_config (sys s));
      \<forall>j\<in>set js. pr_att (proc (sys s) i) j \<noteq> - 1 \<longrightarrow> at_num (attach (sys s) j) \<noteq> - 1\<rbrakk>
    \<Longrightarrow> \<exists>s'. clean_atts e etr busy i js s = Some s' \<and> cleanable N s' \<and> proc (sys s') = proc (sys s) \<and>
      (\<forall>k. at_num (attach (sys s') k) = (if k \<in> set js \<inter> of_process s i then - 1 else at_num (attach (sys s) k))) \<and>
      lists_kept s s' \<and> released (set js \<inter> of_process s i) s s'"
proof (induction js arbitrary: s)
  case Nil
  then show ?case by (simp add: released_def)
next
  case (Cons j js)
  let ?J = "if pr_att (proc (sys s) i) j \<noteq> - 1 then {j} else {}"
  have j: "int j < c_nattachments (sys_config (sys s))"
    "pr_att (proc (sys s) i) j \<noteq> - 1 \<longrightarrow> at_num (attach (sys s) j) \<noteq> - 1" using Cons.prems(3,4) by simp_all
  obtain s1 where s1: "clean_att e etr busy i j s = Some s1" "cleanable N s1" "proc (sys s1) = proc (sys s)"
    "\<forall>k. at_num (attach (sys s1) k) = (if k = j \<and> pr_att (proc (sys s) i) j \<noteq> - 1 then - 1 else at_num (attach (sys s) k))"
    "lists_kept s s1" "released ?J s s1"
    using clean_att_ok[OF loc m free Cons.prems(1) j, of etr] by (elim exE conjE) (rule that)
  have cfg: "sys_config (sys s1) = sys_config (sys s)" using s1(6) by (simp add: released_def)
  have of1: "of_process s1 i = of_process s i" using s1(3) cfg by (simp add: of_process_def)
  have djs: "distinct js" "j \<notin> set js" using Cons.prems(2) by simp_all
  have num1: "\<forall>k\<in>set js. pr_att (proc (sys s1) i) k \<noteq> - 1 \<longrightarrow> at_num (attach (sys s1) k) \<noteq> - 1"
    using Cons.prems(4) s1(3,4) djs(2) by auto
  have m1: "\<forall>k\<in>set js. int k < c_nattachments (sys_config (sys s1))" using Cons.prems(3) cfg by simp
  obtain s2 where s2: "clean_atts e etr busy i js s1 = Some s2" "cleanable N s2" "proc (sys s2) = proc (sys s1)"
    "\<forall>k. at_num (attach (sys s2) k) = (if k \<in> set js \<inter> of_process s1 i then - 1 else at_num (attach (sys s1) k))"
    "lists_kept s1 s2" "released (set js \<inter> of_process s1 i) s1 s2"
    using Cons.IH[OF s1(2) djs(1) m1 num1] by (elim exE conjE) (rule that)
  have J: "?J \<union> (set js \<inter> of_process s i) = set (j # js) \<inter> of_process s i"
    using j(1) by (auto simp: of_process_def)
  have "released (set (j # js) \<inter> of_process s i) s s2"
    using released_trans[OF s1(6) s2(6)] unfolding of1 J .
  moreover have "at_num (attach (sys s2) k) = (if k \<in> set (j # js) \<inter> of_process s i then - 1 else at_num (attach (sys s) k))" for k
  proof (cases "k = j")
    case True
    then show ?thesis using spec[OF s2(4), of k] spec[OF s1(4), of k] of1 j(1) djs(2) by (simp add: of_process_def)
  next
    case False
    then show ?thesis using spec[OF s2(4), of k] spec[OF s1(4), of k] of1 by simp
  qed
  ultimately show ?case using s1(1,3) s2(1-3) lists_kept_trans[OF s1(5) s2(5)] by simp
qed


section \<open>The repairs that find nothing to repair\<close>

lemma fold_same: "\<forall>i\<in>set is. f i s = s \<Longrightarrow> fold f is s = s"
  by (induction "is") auto

lemma fix_mutexes_free: "\<forall>l. \<not> et_mutex_locked (busy l) \<Longrightarrow> et_fix_mutexes busy s = s"
  by (simp add: et_fix_mutexes_def Let_def fold_same)

lemma dseg_fwd: "dseg nx pv ns \<Longrightarrow> ns \<noteq> [] \<Longrightarrow> nx (last ns) < 0 \<Longrightarrow> fwd nx ns"
  by (induction nx pv ns rule: dseg.induct) auto

lemma layout_fwd:
  assumes l: "layout_repr s ns gs" and p: "\<not> is_parallel s 0"
  shows "fwd_layout s ns gs"
proof -
  note m = main_reprD[of s ns]
  have r: "main_repr s ns" using l by (simp add: layout_repr_def)
  have "fwd (\<lambda>n. st_next (stats s n)) ns" using dseg_fwd dlistD[OF m(9)[OF r]] by blast
  moreover have "(\<forall>n\<in>set (gs x). station_ok s n) \<and> gs x \<noteq> [] \<and> hd (gs x) = x \<and>
      (if is_parallel s x then fwd (\<lambda>n. nextparallel (stats s n)) (gs x) else gs x = [x])" if x: "x \<in> set ns" for x
  proof (cases "is_parallel s x")
    case True
    then have g: "group_repr s (gs x)" "hd (gs x) = x" using l x by (auto simp: layout_repr_def is_parallel_def)
    then have d: "dlist (\<lambda>n. nextparallel (stats s n)) (\<lambda>n. prevparallel (stats s n)) (gs x)" by (simp add: group_repr_def)
    then have "fwd (\<lambda>n. nextparallel (stats s n)) (gs x)" using dseg_fwd dlistD[OF d] by blast
    then show ?thesis using g True dlistD(1)[OF d] by (simp add: group_repr_def)
  next
    case False
    then have "gs x = [x]" using l x by (auto simp: layout_repr_def is_parallel_def)
    then show ?thesis using False m(4)[OF r x] by simp
  qed
  ultimately show ?thesis using m(1,3)[OF r] p l by (simp add: fwd_layout_def layout_repr_def)
qed

lemma fwd_layout_cong:
  assumes "fwd_layout s ns gs" "sys_config (sys t) = sys_config (sys s)"
    "\<And>n. st_next (stats t n) = st_next (stats s n) \<and> nextparallel (stats t n) = nextparallel (stats s n) \<and>
      num (stats t n) = num (stats s n) \<and> config (stats t n) = config (stats s n)"
  shows "fwd_layout t ns gs"
  using assms by (simp add: fwd_layout_def station_ok_def is_parallel_def)

text \<open>Every station in use is in the lists.\<close>

definition stations_listed :: "et_shm \<Rightarrow> nat list \<Rightarrow> (nat \<Rightarrow> nat list) \<Rightarrow> bool" where
  "stations_listed s ns gs \<longleftrightarrow> fwd_layout s ns gs \<and>
     (\<forall>i. listed ns gs i \<longrightarrow> status (st_data (stats s i)) \<noteq> ET_STATION_CREATING) \<and>
     (\<forall>i. int i < c_nstations (sys_config (sys s)) \<longrightarrow> in_use s i \<longrightarrow> num (stats s i) = int i) \<and>
     (\<forall>i. 0 < i \<longrightarrow> int i < c_nstations (sys_config (sys s)) \<longrightarrow> \<not> listed ns gs i \<longrightarrow>
        status (st_data (stats s i)) = ET_STATION_UNUSED)"

lemma fix_stations_from_same:
  assumes f: "fwd_layout s ns gs" and c: "\<forall>i\<in>set is. 0 < i \<and> (in_use s i \<longrightarrow> num (stats s i) = int i) \<and>
      (if listed ns gs i then status (st_data (stats s i)) \<noteq> ET_STATION_CREATING
       else status (st_data (stats s i)) = ET_STATION_UNUSED)"
  shows "\<exists>k'. fix_stations_from is (k, s) = Some (k', s)"
  using c
proof (induction "is" arbitrary: k)
  case (Cons i "is")
  have i: "0 < i" "in_use s i \<longrightarrow> num (stats s i) = int i" "if listed ns gs i then status (st_data (stats s i)) \<noteq> ET_STATION_CREATING
       else status (st_data (stats s i)) = ET_STATION_UNUSED" using Cons.prems by simp_all
  then obtain ps where ps: "fix_station i (k, s) = Some (k + (if in_use s i then 1 else 0), s\<lparr>stats := (stats s)(i := ps)\<rparr>)"
    "if listed ns gs i \<or> status (st_data (stats s i)) = ET_STATION_UNUSED then ps = stats s i
     else status (st_data ps) = ET_STATION_UNUSED"
    using fix_station_ok[OF f i(1), of k] by metis
  have "ps = stats s i" using ps(2) i(3) by (auto split: if_splits)
  then have "s\<lparr>stats := (stats s)(i := ps)\<rparr> = s" by simp
  then show ?case using ps(1) Cons.IH Cons.prems by simp
qed simp

lemma fix_stations_same:
  assumes "stations_listed s ns gs"
  shows "\<exists>k. et_fix_stations s = Some (upd_sys (\<lambda>y. y\<lparr>nstations := k\<rparr>) s)"
proof -
  have "\<forall>i\<in>set [1..<nat (c_nstations (sys_config (sys s)))]. 0 < i \<and> (in_use s i \<longrightarrow> num (stats s i) = int i) \<and>
      (if listed ns gs i then status (st_data (stats s i)) \<noteq> ET_STATION_CREATING
       else status (st_data (stats s i)) = ET_STATION_UNUSED)"
    using assms by (auto simp: stations_listed_def zless_nat_eq_int_zless)
  moreover have "fwd_layout s ns gs" using assms by (simp add: stations_listed_def)
  ultimately obtain k where k: "fix_stations_from [1..<nat (c_nstations (sys_config (sys s)))] (1, s) = Some (k, s)"
    using fix_stations_from_same by metis
  show ?thesis
  proof (cases "k = nstations (sys s)")
    case True
    then have "upd_sys (\<lambda>y. y\<lparr>nstations := k\<rparr>) s = s" by (simp add: upd_sys_def)
    then show ?thesis using k True by (intro exI[of _ k]) (simp add: et_fix_stations_def)
  next
    case False
    then show ?thesis using k by (intro exI[of _ k]) (simp add: et_fix_stations_def)
  qed
qed

section \<open>Incomplete attachments\<close>

lemma forget_att_proc:
  "pr_att (proc (sys (forget_att i s)) p) j =
    (if j = i \<and> int p < c_nprocesses (sys_config (sys s)) then - 1 else pr_att (proc (sys s) p) j)"
proof -
  have "pr_att (proc (sys (fold (\<lambda>j. upd_sys (\<lambda>y. y\<lparr>proc := (proc y)(j := (proc y j)\<lparr>pr_att := (pr_att (proc y j))(i := - 1)\<rparr>)\<rparr>)) js s)) p) j =
      (if j = i \<and> p \<in> set js then - 1 else pr_att (proc (sys s) p) j)" for js
    by (induction js arbitrary: s) auto
  then show ?thesis by (simp add: forget_att_def zless_nat_eq_int_zless)
qed

lemma fix_attachment_proc:
  "pr_att (proc (sys (fix_attachment i s)) p) j =
     (if j = i \<and> orphan s i \<and> int p < c_nprocesses (sys_config (sys s)) then - 1 else pr_att (proc (sys s) p) j)"
  "at_stat (attach (sys (fix_attachment i s)) j) = (if j = i \<and> orphan s i then - 1 else at_stat (attach (sys s) j))"
  by (simp_all add: fix_attachment_def orphan_def station_of_att_None et_init_attachment_def forget_att_proc upd_attach_def)

lemma fix_attachments_proc:
  "int j < c_nattachments (sys_config (sys s)) \<Longrightarrow> pr_att (proc (sys (et_fix_attachments s)) p) j =
     (if orphan s j \<and> int p < c_nprocesses (sys_config (sys s)) then - 1 else pr_att (proc (sys s) p) j)"
  "at_stat (attach (sys (et_fix_attachments s)) j) = - 1 \<or> at_stat (attach (sys (et_fix_attachments s)) j) = at_stat (attach (sys s) j)"
proof -
  have o: "orphan (fix_attachment i s) j \<longleftrightarrow> orphan s j \<and> j \<noteq> i" for i s j
    using fix_attachment_spec(4)[of i s j] by (auto simp: orphan_def)
  have "pr_att (proc (sys (fold fix_attachment is s)) p) j =
     (if j \<in> set is \<and> orphan s j \<and> int p < c_nprocesses (sys_config (sys s)) then - 1 else pr_att (proc (sys s) p) j)" for "is"
    by (induction "is" arbitrary: s) (auto simp: o fix_attachment_proc fix_attachment_spec)
  then show "int j < c_nattachments (sys_config (sys s)) \<Longrightarrow> pr_att (proc (sys (et_fix_attachments s)) p) j =
     (if orphan s j \<and> int p < c_nprocesses (sys_config (sys s)) then - 1 else pr_att (proc (sys s) p) j)"
    by (simp add: et_fix_attachments_def zless_nat_eq_int_zless)
  have "at_stat (attach (sys (fold fix_attachment is s)) j) = - 1 \<or>
      at_stat (attach (sys (fold fix_attachment is s)) j) = at_stat (attach (sys s) j)" for "is"
  proof (induction "is" arbitrary: s)
    case (Cons i "is")
    show ?case using Cons.IH[of "fix_attachment i s"] fix_attachment_proc(2)[of i s j] by (simp split: if_splits) 
  qed simp
  then show "at_stat (attach (sys (et_fix_attachments s)) j) = - 1 \<or>
      at_stat (attach (sys (et_fix_attachments s)) j) = at_stat (attach (sys s) j)" by (simp add: et_fix_attachments_def)
qed


section \<open>The whole clean-up\<close>

lemma fix_attachments_cleanable:
  assumes h: "half_attached s" "counted s" and s: "sane N s" and g: "\<forall>n. gives_back (stats s n)"
    and c: "1 \<le> nevents_max s" "c_nattachments (sys_config (sys s)) \<le> ET_ATTACHMENTS_MAX"
  shows "cleanable N (et_fix_attachments s)"
proof -
  let ?t = "et_fix_attachments s"
  have f: "stats ?t = stats s" "events ?t = events s" "sys_config (sys ?t) = sys_config (sys s)"
    using fold_fix_attachment[of "[0..<nat (c_nattachments (sys_config (sys s)))]" s] by (simp_all add: et_fix_attachments_def)
  have "counted ?t" using h(2) f by (simp add: counted_def known_atts_def)
  then have "tidy ?t" using fix_attachments_half[OF h(1)] by (simp add: tidy_def)
  moreover have "all_placed N ?t"
    using all_placed_quiet[of N s ?t] s quiet_same[of ?t s] f by (simp add: sane_def same_list_def)
  moreover have "at_stat (attach (sys ?t) a) < int N" for a
    using fix_attachments_proc(2)[of s a] s by (auto simp: sane_def stations_ok_def)
  ultimately show ?thesis using g c f by (simp add: cleanable_def sane_def stations_ok_def)
qed

text \<open>The end of the clean-up: the process, and the counts.\<close>

lemma same_tables_inv:
  assumes "same_tables s s'"
  shows "att_inv s' = att_inv s"
proof -
  have "active s' = active s" "atts s' = atts s" "atts_of s' = atts_of s"
    using assms by (simp_all add: same_tables_def active_def atts_def atts_of_def fun_eq_iff)
  then show ?thesis using assms by (simp add: att_inv_def same_tables_def)
qed

lemma fix_natts_proc:
  "pr_att (proc (sys (et_fix_natts s)) p) j = pr_att (proc (sys s) p) j" "stat_head (sys (et_fix_natts s)) = stat_head (sys s)"
proof -
  have a: "sys (fold (\<lambda>i. upd_station i (with_count m)) is s) = sys s" for m "is" s by simp
  have "pr_att (proc (sys (fold (fix_proc_count m) is s)) p) j = pr_att (proc (sys s) p) j \<and>
      stat_head (sys (fold (fix_proc_count m) is s)) = stat_head (sys s)" for m "is" s
    by (induction "is" arbitrary: s) (auto simp: fix_proc_count_def)
  then show "pr_att (proc (sys (et_fix_natts s)) p) j = pr_att (proc (sys s) p) j" "stat_head (sys (et_fix_natts s)) = stat_head (sys s)"
    by (simp_all add: et_fix_natts_def Let_def fold_fix_count a)
qed

lemma clean_end_ok:
  fixes s :: et_shm and i :: nat
  assumes c: "cleanable N s"
  defines "s' \<equiv> station_unlock (system_unlock (et_transfer_unlock_all (et_fix_natts (et_fix_nprocs
       (upd_sys (\<lambda>y. y\<lparr>nprocesses := nprocesses y - 1\<rparr>) (et_init_process i s))))))"
  shows "sane N s'" "att_inv s'" "tidy s'" "events s' = events s" "attach (sys s') = attach (sys s)"
    "sys_config (sys s') = sys_config (sys s)" "lists_kept s s'"
    "pr_att (proc (sys s') k) j = (if k = i \<and> int j < ET_ATTACHMENTS_MAX then - 1 else pr_att (proc (sys s) k) j)"
proof -
  let ?t = "et_fix_nprocs (upd_sys (\<lambda>y. y\<lparr>nprocesses := nprocesses y - 1\<rparr>) (et_init_process i s))"
  let ?u = "et_fix_natts ?t"
  have t: "stats ?t = stats s" "events ?t = events s" "attach (sys ?t) = attach (sys s)" "sys_config (sys ?t) = sys_config (sys s)"
    "stat_head (sys ?t) = stat_head (sys s)"
    by (simp_all add: et_fix_nprocs_def et_init_process_def)
  have ti: "tidy s" "sane N s" using c by (simp_all add: cleanable_def)
  have b: "tidy ?t" by (subst same_books(3)[of ?t s]) (use t ti in simp_all)
  then have bt: "half_attached ?t" "\<forall>i. int i < c_nattachments (sys_config (sys ?t)) \<longrightarrow> active ?t i \<longrightarrow> known ?t i"
    by (simp_all add: tidy_def)
  have su: "same_tables ?u s'" unfolding s'_def
    using transfer_all_tables(2,4,6) same_tables_trans by blast
  show "att_inv s'" using fix_natts_ok[OF bt] same_tables_inv[OF su] by simp
  note w = fix_natts_spec[of ?t]
  have st: "st_att (st_data (stats ?u n)) = st_att (st_data (stats ?t n))" "status (st_data (stats ?u n)) = status (st_data (stats ?t n))"
    "config (stats ?u n) = config (stats ?t n)" "num (stats ?u n) = num (stats ?t n)"
    "st_next (stats ?u n) = st_next (stats ?t n)" "nextparallel (stats ?u n) = nextparallel (stats ?t n)"
    "list_in (stats ?u n) = list_in (stats ?t n)" "list_out (stats ?u n) = list_out (stats ?t n)" for n
    by (simp_all add: w(1) with_count_def)
  have "known ?u = known ?t" "active ?u = active ?t"
    by (simp_all add: known_def active_def fun_eq_iff st w(2,3))
  moreover have "half_attached ?u" unfolding half_attached_def st w(2,3) calculation(2)
    using bt(1) by (simp add: half_attached_def w(1) with_count_def)
  moreover have "counted ?u" unfolding counted_def
  proof (intro allI impI)
    fix n assume n: "int n < c_nstations (sys_config (sys ?u))"
    have k: "known_atts ?u n = known_atts ?t n" by (simp add: known_atts_def st w(3))
    have "card (known_atts ?t n) = card {j. j < nat (c_nattachments (sys_config (sys ?t))) \<and> st_att (st_data (stats ?t n)) j = int j}"
      by (simp add: known_atts_def zless_nat_eq_int_zless)
    moreover have "int (card (known_atts ?t n)) \<le> st_nattachments (st_data (stats ?t n))"
      using b n w(3) by (simp add: tidy_def counted_def)
    ultimately show "int (card (known_atts ?u n)) \<le> st_nattachments (st_data (stats ?u n))"
      unfolding k by (simp add: w(1) with_count_def count_atts_card)
  qed
  ultimately have "tidy ?u" using bt(2) by (simp add: tidy_def w(3))
  then show "tidy s'" using same_tables_books(3)[OF su] by simp
  show e: "events s' = events s" "attach (sys s') = attach (sys s)" "sys_config (sys s') = sys_config (sys s)"
    by (simp_all add: s'_def w t)
  have lst: "list_in (stats s' k) = list_in (stats s k) \<and> list_out (stats s' k) = list_out (stats s k)" for k
    by (simp add: s'_def st t)
  have "quiet s s'" by (rule quiet_same) (use e lst in \<open>simp_all add: same_list_def\<close>)
  then have "all_placed N s'" using ti(2) all_placed_quiet[of N s s'] by (simp add: sane_def)
  then show "sane N s'" using ti(2) e by (simp add: sane_def stations_ok_def)
  show "lists_kept s s'" by (simp add: lists_kept_def links_kept_def s'_def st t fix_natts_proc)
  show "pr_att (proc (sys s') k) j = (if k = i \<and> int j < ET_ATTACHMENTS_MAX then - 1 else pr_att (proc (sys s) k) j)"
    by (simp add: s'_def fix_natts_proc et_fix_nprocs_def et_init_process_def)
qed


text \<open>
  What the clean-up needs and keeps: the flow of events and the forward links of the stations are in
  order, every attachment of a process is in the table and no other process has it.
\<close>

definition healthy :: "nat \<Rightarrow> nat list \<Rightarrow> (nat \<Rightarrow> nat list) \<Rightarrow> et_shm \<Rightarrow> bool" where
  "healthy N ns gs s \<longleftrightarrow> sane N s \<and> (\<forall>n. gives_back (stats s n)) \<and> 1 \<le> nevents_max s \<and>
     c_nattachments (sys_config (sys s)) \<le> ET_ATTACHMENTS_MAX \<and> stations_listed s ns gs \<and> stat_head (sys s) = 0 \<and>
     half_attached s \<and> counted s \<and>
     (\<forall>i. int i < c_nprocesses (sys_config (sys s)) \<longrightarrow> (\<forall>j\<in>of_process s i. at_num (attach (sys s) j) \<noteq> - 1) \<and>
        (\<forall>k. int k < c_nprocesses (sys_config (sys s)) \<and> k \<noteq> i \<longrightarrow> of_process s i \<inter> of_process s k = {}))"

lemma lists_kept_listed:
  assumes "stations_listed s ns gs" "lists_kept s s'" "sys_config (sys s') = sys_config (sys s)"
  shows "stations_listed s' ns gs"
proof -
  have f: "fwd_layout s' ns gs"
    by (rule fwd_layout_cong[of s]) (use assms in \<open>auto simp: stations_listed_def lists_kept_def links_kept_def\<close>)
  have st: "status (st_data (stats s' i)) = status (st_data (stats s i)) \<or>
      st_active s i \<and> status (st_data (stats s' i)) = ET_STATION_IDLE" for i
    using assms(2) by (simp add: lists_kept_def)
  have "status (st_data (stats s' i)) = ET_STATION_CREATING \<longleftrightarrow> status (st_data (stats s i)) = ET_STATION_CREATING"
    "status (st_data (stats s' i)) = ET_STATION_UNUSED \<longleftrightarrow> status (st_data (stats s i)) = ET_STATION_UNUSED" for i
    using st[of i] by auto
  moreover have "num (stats s' i) = num (stats s i)" for i using assms(2) by (simp add: lists_kept_def links_kept_def)
  ultimately show ?thesis using assms(1,3) f by (simp add: stations_listed_def in_use_def)
qed

lemma fix_parallel_sys: "fix_parallel k p s = Some s' \<Longrightarrow> sys s' = sys s"
proof (induction k p s arbitrary: s' rule: fix_parallel.induct)
  case (2 k p s)
  show ?case
  proof (cases "nextparallel (stats s p) > - 1")
    case True
    then obtain q where q: "st_ix s (nextparallel (stats s p)) = Some q"
      "fix_parallel k q (upd_station q (\<lambda>r. r\<lparr>prevparallel := num (stats s p), st_prev := - 1, st_next := - 1\<rparr>) s) = Some s'"
      using "2.prems" by (auto split: Option.bind_splits)
    then show ?thesis using "2.IH"[OF True q] by simp
  qed (use "2.prems" in simp)
qed simp

lemma fix_main_head: "fix_main k p s = Some s' \<Longrightarrow> stat_head (sys s') = stat_head (sys s)"
proof (induction k p s arbitrary: s' rule: fix_main.induct)
  case (2 k p s)
  show ?case
  proof (cases "st_next (stats s p) > - 1")
    case True
    then obtain x where x: "st_ix s (st_next (stats s p)) = Some x"
      using "2.prems" by (auto split: Option.bind_splits)
    let ?s1 = "upd_station x (\<lambda>r. r\<lparr>st_prev := num (stats s p)\<rparr>) s"
    let ?op = "if flow_mode (config (stats ?s1 x)) = ET_STATION_PARALLEL
             then fix_parallel (nat (c_nstations (sys_config (sys ?s1)))) x (upd_station x (\<lambda>r. r\<lparr>prevparallel := - 1\<rparr>) ?s1)
             else Some (upd_station x (\<lambda>r. r\<lparr>prevparallel := - 1, nextparallel := - 1\<rparr>) ?s1)"
    obtain s2 where s2: "?op = Some s2" "fix_main k x s2 = Some s'"
      using "2.prems" True x by (cases ?op) (simp_all add: Let_def)
    have "sys s2 = sys s" using s2(1) by (auto split: if_splits dest: fix_parallel_sys)
    then show ?thesis using "2.IH"[OF True x refl s2] by simp
  qed (use "2.prems" in auto)
qed simp

lemma fix_linkedlist_head: "et_fix_linkedlist s = Some s' \<Longrightarrow> stat_head (sys s') = stat_head (sys s)"
  by (auto simp: et_fix_linkedlist_def split: Option.bind_splits dest: fix_main_head)

lemma fix_attachments_head: "stat_head (sys (et_fix_attachments s)) = stat_head (sys s)"
proof -
  have f: "stat_head (sys (forget_att i s)) = stat_head (sys s)" for i s
  proof -
    have "stat_head (sys (fold (\<lambda>j. upd_sys (\<lambda>y. y\<lparr>proc := (proc y)(j := (proc y j)\<lparr>pr_att := (pr_att (proc y j))(i := - 1)\<rparr>)\<rparr>)) js s)) =
        stat_head (sys s)" for js by (induction js arbitrary: s) simp_all
    then show ?thesis by (simp add: forget_att_def)
  qed
  have "stat_head (sys (fix_attachment i s)) = stat_head (sys s)" for i s
    by (simp add: fix_attachment_def et_init_attachment_def f)
  then have "stat_head (sys (fold fix_attachment is s)) = stat_head (sys s)" for "is" by (induction "is" arbitrary: s) simp_all
  then show ?thesis by (simp add: et_fix_attachments_def)
qed

text \<open>The first repairs: when the forward links are right they leave the stations as they are.\<close>

lemma first_repairs:
  assumes h: "healthy N ns gs s" and free: "\<forall>l. \<not> et_mutex_locked (busy l)"
  shows "\<exists>s1 k. et_fix_linkedlist (et_transfer_lock_all (station_lock (et_fix_mutexes busy s))) = Some s1 \<and>
    et_fix_stations s1 = Some (upd_sys (\<lambda>y. y\<lparr>nstations := k\<rparr>) s1) \<and> same_tables s s1 \<and> quiet s s1 \<and>
    events s1 = events s \<and> stations_listed s1 ns gs \<and> stat_head (sys s1) = 0"
proof -
  let ?t0 = "et_transfer_lock_all (station_lock (et_fix_mutexes busy s))"
  have t0: "et_fix_mutexes busy s = s" by (rule fix_mutexes_free[OF free])
  have l: "stations_listed s ns gs" "stat_head (sys s) = 0" using h by (simp_all add: healthy_def)
  have tab0: "same_tables s ?t0" unfolding t0 using transfer_all_tables(1,3) same_tables_trans by blast
  have f0: "fwd_layout ?t0 ns gs"
    by (rule fwd_layout_cong[of s]) (use l in \<open>simp_all add: stations_listed_def t0\<close>)
  have h0: "stat_head (sys ?t0) = 0" using l by (simp add: t0)
  from fix_linkedlist_ok[OF f0 h0] obtain s1 where s1: "et_fix_linkedlist ?t0 = Some s1" "layout_repr s1 ns gs" "same_but_links ?t0 s1"
    by blast
  have tab1: "same_tables s s1" by (rule same_tables_trans[OF tab0 fix_linkedlist_tables[OF s1(1)]])
  have num1: "num (stats s1 n) = num (stats s n)" "config (stats s1 n) = config (stats s n)" "st_data (stats s1 n) = st_data (stats s n)"
    for n using s1(3) tab1 by (simp_all add: same_but_links_def same_tables_def t0)
  have c1: "sys_config (sys s1) = sys_config (sys s)" using tab1 by (simp add: same_tables_def)
  have "\<not> is_parallel s1 0" using l num1 by (simp add: stations_listed_def fwd_layout_def is_parallel_def)
  then have "fwd_layout s1 ns gs" by (rule layout_fwd[OF s1(2)])
  then have sl: "stations_listed s1 ns gs" using l num1 c1 by (simp add: stations_listed_def in_use_def)
  then obtain k where s2: "et_fix_stations s1 = Some (upd_sys (\<lambda>y. y\<lparr>nstations := k\<rparr>) s1)"
    using fix_stations_same by blast
  have "events s1 = events s" "quiet s s1"
    by (auto intro!: quiet_same) (use s1(3) c1 in \<open>simp_all add: same_but_links_def same_list_def t0\<close>)
  moreover have "stat_head (sys s1) = 0" using fix_linkedlist_head[OF s1(1)] h0 by simp
  ultimately show ?thesis using s1(1) s2 tab1 sl by blast
qed


text \<open>Incomplete attachments are then forgotten by all processes.\<close>

lemma second_repairs:
  assumes h: "healthy N ns gs s" and t: "same_tables s s2" "quiet s s2" "events s2 = events s"
  defines "s3 \<equiv> et_fix_attachments s2"
  shows "cleanable N s3" "events s3 = events s" "stats s3 = stats s2" "sys_config (sys s3) = sys_config (sys s)"
    "\<And>i. int i < c_nprocesses (sys_config (sys s)) \<Longrightarrow> of_process s3 i = {j \<in> of_process s i. known s j}"
    "\<And>i j. int i < c_nprocesses (sys_config (sys s)) \<Longrightarrow> j \<in> of_process s i \<Longrightarrow>
       at_num (attach (sys s3) j) = (if known s j then at_num (attach (sys s) j) else - 1)"
proof -
  have t2: "attach (sys s2) = attach (sys s)" "sys_config (sys s2) = sys_config (sys s)" "proc (sys s2) = proc (sys s)"
    "\<And>n. st_data (stats s2 n) = st_data (stats s n)" "\<And>n. config (stats s2 n) = config (stats s n)"
    using t(1) by (simp_all add: same_tables_def)
  have h1: "half_attached s" "counted s" "sane N s" "\<forall>n. gives_back (stats s n)" "1 \<le> nevents_max s"
    "c_nattachments (sys_config (sys s)) \<le> ET_ATTACHMENTS_MAX"
    and pr: "\<And>i j. int i < c_nprocesses (sys_config (sys s)) \<Longrightarrow> j \<in> of_process s i \<Longrightarrow> at_num (attach (sys s) j) \<noteq> - 1"
    using h by (auto simp: healthy_def)
  have b2: "half_attached s2" "counted s2" "known s2 = known s" using same_books[OF t2(1,2,4)] h1(1,2) by simp_all
  have o2: "orphan s2 j \<longleftrightarrow> at_num (attach (sys s) j) \<noteq> - 1 \<and> \<not> known s j" for j by (simp add: orphan_def t2 b2)
  have "all_placed N s2" using h1(3) all_placed_quiet[of N s s2] t(2) by (simp add: sane_def)
  then have "sane N s2" using h1(3) t2 by (simp add: sane_def stations_ok_def)
  then show "cleanable N s3" unfolding s3_def
    by (intro fix_attachments_cleanable b2(1,2)) (use h1 t2 in \<open>simp_all add: gives_back_def\<close>)
  note f = fold_fix_attachment[of "[0..<nat (c_nattachments (sys_config (sys s2)))]" s2]
  show e3: "events s3 = events s" "stats s3 = stats s2" "sys_config (sys s3) = sys_config (sys s)"
    using f t2 t(3) by (simp_all add: s3_def et_fix_attachments_def)
  have n3: "at_num (attach (sys s3) j) = (if orphan s2 j then - 1 else at_num (attach (sys s) j))"
    if "int j < c_nattachments (sys_config (sys s))" for j
    using f that t2 by (simp add: s3_def et_fix_attachments_def zless_nat_eq_int_zless)
  fix i assume i: "int i < c_nprocesses (sys_config (sys s))"
  have p3: "pr_att (proc (sys s3) i) j = (if orphan s2 j then - 1 else pr_att (proc (sys s) i) j)"
    if "int j < c_nattachments (sys_config (sys s))" for j
    using fix_attachments_proc(1)[of j s2 i] that i t2 by (simp add: s3_def)
  show "of_process s3 i = {j \<in> of_process s i. known s j}"
    using pr[OF i] by (auto simp: of_process_def e3 p3 o2 split: if_splits)
  show "at_num (attach (sys s3) j) = (if known s j then at_num (attach (sys s) j) else - 1)" if "j \<in> of_process s i" for j
    using n3[of j] o2[of j] pr[OF i that] that by (simp add: of_process_def)
qed

definition cleaned :: "nat \<Rightarrow> et_shm \<Rightarrow> et_shm \<Rightarrow> bool" where
  "cleaned i s s' \<longleftrightarrow> (\<forall>j\<in>of_process s i. at_num (attach (sys s') j) = - 1) \<and>
     released {j \<in> of_process s i. known s j} s s' \<and>
     (\<forall>k. int k < c_nprocesses (sys_config (sys s)) \<and> k \<noteq> i \<longrightarrow>
        {j \<in> of_process s' k. known s' j} = {j \<in> of_process s k. known s j})"

theorem process_clean_up:
  assumes loc: "locality e = ET_LOCAL" "et_alive e \<noteq> 0" and m: "env_calloc e 0" "env_calloc e 1" "env_calloc e 2"
    and free: "\<forall>c l. \<not> et_mutex_locked (busy c l)" and h: "healthy N ns gs s" and i: "int i < c_nprocesses (sys_config (sys s))"
  shows "\<exists>s'. clean_process e etr busy i s = Some s' \<and> healthy N ns gs s' \<and> att_inv s' \<and> cleaned i s s'"
proof -
  obtain s1 k where s1: "et_fix_linkedlist (et_transfer_lock_all (station_lock (et_fix_mutexes (busy FixMutexes) s))) = Some s1"
    "et_fix_stations s1 = Some (upd_sys (\<lambda>y. y\<lparr>nstations := k\<rparr>) s1)" "same_tables s s1" "quiet s s1"
    "events s1 = events s" "stations_listed s1 ns gs" "stat_head (sys s1) = 0"
    using first_repairs[OF h, of "busy FixMutexes"] free by blast
  define s2 where "s2 = system_lock (upd_sys (\<lambda>y. y\<lparr>nstations := k\<rparr>) s1)"
  have t2: "same_tables s s2" using s1(3) by (simp add: same_tables_def s2_def)
  have q2: "quiet s s2" using quiet_trans[OF s1(4) quiet_same[of s2 s1]] by (simp add: s2_def same_list_def)
  have e2: "events s2 = events s" "stats s2 = stats s1" using s1(5) by (simp_all add: s2_def)
  define s3 where "s3 = et_fix_attachments s2"
  note r = second_repairs[OF h t2 q2 e2(1), folded s3_def]
  let ?js = "[0..<nat (c_nattachments (sys_config (sys s)))]"
  have ofM: "of_process s3 p \<subseteq> set ?js" for p by (auto simp: of_process_def r(4) zless_nat_eq_int_zless)
  then have js: "set ?js \<inter> of_process s3 i = of_process s3 i" by blast
  have mj: "\<forall>j\<in>set ?js. int j < c_nattachments (sys_config (sys s3))" by (auto simp: zless_nat_eq_int_zless r(4))
  have pr: "\<And>p j. int p < c_nprocesses (sys_config (sys s)) \<Longrightarrow> j \<in> of_process s p \<Longrightarrow> at_num (attach (sys s) j) \<noteq> - 1"
    and dj: "\<And>p. int p < c_nprocesses (sys_config (sys s)) \<Longrightarrow> p \<noteq> i \<Longrightarrow> of_process s i \<inter> of_process s p = {}"
    and m2: "c_nattachments (sys_config (sys s)) \<le> ET_ATTACHMENTS_MAX"
    using h i by (auto simp: healthy_def)
  have n3: "at_num (attach (sys s3) j) \<noteq> - 1" if "int p < c_nprocesses (sys_config (sys s))" "j \<in> of_process s3 p" for p j
    using r(6)[OF that(1)] that(2) r(5)[OF that(1)] pr[OF that(1)] by auto
  have nj: "\<forall>j\<in>set ?js. pr_att (proc (sys s3) i) j \<noteq> - 1 \<longrightarrow> at_num (attach (sys s3) j) \<noteq> - 1"
    using n3[OF i] by (auto simp: of_process_def r(4) zless_nat_eq_int_zless)
  obtain s5 where s5: "clean_atts e etr busy i ?js s3 = Some s5" "cleanable N s5" "proc (sys s5) = proc (sys s3)"
    "\<forall>k. at_num (attach (sys s5) k) = (if k \<in> set ?js \<inter> of_process s3 i then - 1 else at_num (attach (sys s3) k))"
    "lists_kept s3 s5" "released (set ?js \<inter> of_process s3 i) s3 s5"
    using clean_atts_ok[OF loc m free r(1) distinct_upt mj nj, of etr] by (elim exE conjE) (rule that)
  define u where "u = station_unlock (system_unlock (et_transfer_unlock_all (et_fix_natts (et_fix_nprocs
       (upd_sys (\<lambda>y. y\<lparr>nprocesses := nprocesses y - 1\<rparr>) (et_init_process i s5))))))"
  have cs: "c_nattachments (sys_config (sys s1)) = c_nattachments (sys_config (sys s))" using s1(3) by (simp add: same_tables_def)
  have run: "clean_process e etr busy i s = Some u"
    using s1(1,2) s5(1) cs free
    by (simp add: clean_process_def Let_def s2_def[symmetric] s3_def[symmetric] et_repair_gc_def u_def r(4))
  note fin = clean_end_ok[OF s5(2), of i, folded u_def]
  have cfg: "sys_config (sys u) = sys_config (sys s)" using s5(6) by (simp add: fin(6) released_def r(4))
  have n5: "at_num (attach (sys u) j) = (if j \<in> of_process s3 i then - 1 else at_num (attach (sys s3) j))" for j
    using s5(4) unfolding js by (simp add: fin(5))
  have of_u: "of_process u p = (if p = i then {} else of_process s3 p)" for p
    using m2 by (auto simp: of_process_def fin(8) cfg r(4) s5(3))
  have num_u: "at_num (attach (sys u) j) \<noteq> - 1" if "int p < c_nprocesses (sys_config (sys s))" "j \<in> of_process u p" for p j
  proof -
    have p: "p \<noteq> i" "j \<in> of_process s3 p" using that(2) of_u by (auto split: if_splits)
    then have "j \<notin> of_process s3 i" using dj[OF that(1) p(1)] r(5)[OF i] r(5)[OF that(1)] by auto
    then show ?thesis using n5 n3[OF that(1) p(2)] by simp
  qed
  have tidy_u: "tidy u" by (rule fin(3))
  have known_u: "known u j" if "int p < c_nprocesses (sys_config (sys s))" "j \<in> of_process u p" for p j
  proof -
    have "int j < c_nattachments (sys_config (sys u))" using that(2) by (simp add: of_process_def)
    then show ?thesis using tidy_u num_u[OF that] by (auto simp: tidy_def half_attached_def)
  qed
  have dis: "of_process u p \<inter> of_process u q = {}"
    if "int p < c_nprocesses (sys_config (sys s))" "int q < c_nprocesses (sys_config (sys s))" "q \<noteq> p" for p q
  proof -
    have "of_process s p \<inter> of_process s q = {}" using h that by (simp add: healthy_def)
    then show ?thesis using r(5)[OF that(1)] r(5)[OF that(2)] by (auto simp: of_u)
  qed
  have "stations_listed u ns gs" "stat_head (sys u) = 0"
  proof -
    have k: "lists_kept s3 u" by (rule lists_kept_trans[OF s5(5) fin(7)])
    have "stations_listed s3 ns gs" using s1(6,3) e2(2) r(3,4) by (simp add: stations_listed_def fwd_layout_def station_ok_def is_parallel_def in_use_def same_tables_def)
    then show "stations_listed u ns gs" by (rule lists_kept_listed[OF _ k]) (simp add: cfg r(4))
    have "stat_head (sys s3) = stat_head (sys s2)" unfolding s3_def by (rule fix_attachments_head)
    then show "stat_head (sys u) = 0" using k s1(7) by (simp add: lists_kept_def links_kept_def s2_def)
  qed
  moreover have "gives_back (stats u n)" for n
    using s5(2) fin(7) by (simp add: cleanable_def gives_back_def lists_kept_def)
  ultimately have "healthy N ns gs u"
    using fin(1) tidy_u h num_u dis by (simp add: healthy_def cfg tidy_def)
  moreover have "cleaned i s u" unfolding cleaned_def
  proof (intro conjI ballI allI impI)
    fix j assume j: "j \<in> of_process s i"
    show "at_num (attach (sys u) j) = - 1" using n5[of j] r(5)[OF i] r(6)[OF i j] j by auto
  next
    have "released {j \<in> of_process s i. known s j} s3 s5" using s5(6) unfolding js unfolding r(5)[OF i] .
    then show "released {j \<in> of_process s i. known s j} s u" unfolding released_def fin(4,6) r(2,4) .
  next
    fix p assume p: "int p < c_nprocesses (sys_config (sys s)) \<and> p \<noteq> i"
    then show "{j \<in> of_process u p. known u j} = {j \<in> of_process s p. known s j}"
      using known_u[of p] of_u[of p] r(5)[of p] by auto
  qed
  ultimately show ?thesis using run fin(2) by blast
qed


section \<open>A turn of the monitor\<close>

text \<open>The attachments that lose their process when the processes \<open>K\<close> are silent.\<close>

definition left_over :: "(nat \<Rightarrow> i32) \<Rightarrow> et_shm \<Rightarrow> nat set \<Rightarrow> nat set" where
  "left_over old s K = (\<Union>i\<in>{i \<in> K. silent old s i}. {j \<in> of_process s i. known s j})"

lemma left_over_cong:
  assumes "\<And>i. i \<in> K \<Longrightarrow> silent old s i = silent old2 t i"
    "\<And>i. i \<in> K \<Longrightarrow> {j \<in> of_process s i. known s j} = {j \<in> of_process t i. known t j}"
  shows "left_over old s K = left_over old2 t K"
  unfolding left_over_def using assms by (intro SUP_cong) auto

theorem monitor_procs_ok:
  assumes loc: "locality e = ET_LOCAL" "et_alive e \<noteq> 0" and m: "env_calloc e 0" "env_calloc e 1" "env_calloc e 2"
    and free: "\<forall>i c l. \<not> et_mutex_locked (busy i c l)"
  shows "\<lbrakk>healthy N ns gs s; distinct is; \<forall>i\<in>set is. int i < c_nprocesses (sys_config (sys s))\<rbrakk>
    \<Longrightarrow> \<exists>old' s'. monitor_procs e etr busy is (old, s) = Some (old', s') \<and> healthy N ns gs s' \<and>
      released (left_over old s (set is)) s s'"
proof (induction "is" arbitrary: old s)
  case Nil
  then show ?case by (simp add: left_over_def released_def)
next
  case (Cons i "is")
  have i: "int i < c_nprocesses (sys_config (sys s))" "i \<notin> set is" "distinct is" using Cons.prems by simp_all
  have L: "left_over old s (set (i # is)) =
      (if silent old s i then {j \<in> of_process s i. known s j} else {}) \<union> left_over old s (set is)"
    by (auto simp: left_over_def)
  show ?case
  proof (cases "silent old s i")
    case True
    have fi: "\<forall>c l. \<not> et_mutex_locked (busy i c l)" using free by blast
    obtain s1 where s1: "clean_process e etr (busy i) i s = Some s1" "healthy N ns gs s1" "cleaned i s s1"
      using process_clean_up[OF loc m fi Cons.prems(1) i(1), of etr] by blast
    note life = clean_process_life(1,3)[OF s1(1) loc(1)]
    have "\<forall>k\<in>set is. int k < c_nprocesses (sys_config (sys s1))" using Cons.prems(3) life(2) by simp
    from Cons.IH[OF s1(2) i(3) this, of "old(i := 0)"] obtain old' s' where
      s': "monitor_procs e etr busy is (old(i := 0), s1) = Some (old', s')" "healthy N ns gs s'"
        "released (left_over (old(i := 0)) s1 (set is)) s1 s'" by blast
    have k: "k \<noteq> i \<and> int k < c_nprocesses (sys_config (sys s))" if "k \<in> set is" for k
      using that i(2) Cons.prems(3) by auto
    have "left_over (old(i := 0)) s1 (set is) = left_over old s (set is)"
    proof (rule left_over_cong)
      fix k assume "k \<in> set is"
      note k = k[OF this]
      show "silent (old(i := 0)) s1 k = silent old s k"
        by (rule silent_cong) (use k life(1) in simp_all)
      show "{j \<in> of_process s1 k. known s1 j} = {j \<in> of_process s k. known s j}"
        using s1(3) k by (simp add: cleaned_def)
    qed
    then have "released (left_over old s (set (i # is))) s s'"
      unfolding L using released_trans[of "{j \<in> of_process s i. known s j}" s s1] s1(3) s'(3) True by (simp add: cleaned_def)
    moreover have "monitor_procs e etr busy (i # is) (old, s) = Some (old', s')"
      using True s1(1) s'(1) by (simp add: silent_def life_def Let_def)
    ultimately show ?thesis using s'(2) by blast
  next
    case False
    let ?old = "if fst (life s i) \<noteq> ET_PROC_OPEN then old else old(i := fst (snd (life s i)))"
    have "left_over ?old s (set is) = left_over old s (set is)"
      by (rule left_over_cong) (use i(2) in \<open>auto simp: silent_def\<close>)
    moreover have "\<exists>old' s'. monitor_procs e etr busy is (?old, s) = Some (old', s') \<and> healthy N ns gs s' \<and>
        released (left_over ?old s (set is)) s s'"
      by (rule Cons.IH[OF Cons.prems(1) i(3)]) (use Cons.prems(3) in simp)
    moreover have "monitor_procs e etr busy (i # is) (old, s) = monitor_procs e etr busy is (?old, s)"
      using False by (auto simp: silent_def life_def Let_def)
    moreover have "left_over old s (set (i # is)) = left_over old s (set is)" unfolding L using False by simp
    ultimately show ?thesis by (simp only:)
  qed
qed

theorem monitor_turn_ok:
  assumes loc: "locality e = ET_LOCAL" "et_alive e \<noteq> 0" and m: "env_calloc e 0" "env_calloc e 1" "env_calloc e 2"
    and free: "\<forall>i c l. \<not> et_mutex_locked (busy i c l)" and h: "healthy N ns gs s"
  defines "P \<equiv> {i. int i < c_nprocesses (sys_config (sys s))}"
  shows "\<exists>old' s'. et_sys_heartmonitor e etr busy (old, s) = Some (old', s') \<and> healthy N ns gs s' \<and>
    released (left_over old s P) s s' \<and>
    (\<forall>i\<in>P. life s' i = (if silent old s i then (ET_PROC_CLOSED, 0, - 1) else life s i))"
proof -
  let ?is = "[0..<nat (c_nprocesses (sys_config (sys s)))]"
  have P: "set ?is = P" by (auto simp: P_def zless_nat_eq_int_zless)
  have "\<forall>i\<in>set ?is. int i < c_nprocesses (sys_config (sys s))" by (auto simp: zless_nat_eq_int_zless)
  from monitor_procs_ok[OF loc m free h distinct_upt this, of etr old] obtain old' s' where
    s': "monitor_procs e etr busy ?is (old, s) = Some (old', s')" "healthy N ns gs s'" "released (left_over old s P) s s'"
    unfolding P by blast
  have run: "et_sys_heartmonitor e etr busy (old, s) = Some (old', s')" using s'(1) by (simp add: et_sys_heartmonitor_def)
  then show ?thesis using s'(2,3) monitor_life[OF run loc(1)] by (auto simp: P_def)
qed


section \<open>A death inside a detach\<close>

text \<open>
  When the process had taken its attachment off the station and out of the table but not yet off its own list, the
  monitor detaches it again: one attachment too many is taken off the station.
\<close>

theorem detach_again:
  assumes loc: "locality e = ET_LOCAL" "et_alive e \<noteq> 0" and m: "env_calloc e 0" "env_calloc e 1" "env_calloc e 2"
    and free: "\<forall>c l. \<not> et_mutex_locked (busy c l)"
    and s: "sane N s" "\<forall>n. gives_back (stats s n)" "1 \<le> nevents_max s" "c_nattachments (sys_config (sys s)) \<le> ET_ATTACHMENTS_MAX"
    and j: "int j < c_nattachments (sys_config (sys s))" "pr_att (proc (sys s) i) j \<noteq> - 1" "stat_ix s j = Some n" "n \<noteq> 0"
    and n: "st_nattachments (st_data (stats s n)) = 1"
    and k: "k \<noteq> j" "active s k" "at_stat (attach (sys s) k) = int n"
  shows "\<exists>s'. clean_att e etr busy i j s = Some s' \<and> active s' k \<and> at_stat (attach (sys s') k) = int n \<and>
    status (st_data (stats s' n)) = ET_STATION_IDLE \<and> st_nattachments (st_data (stats s' n)) = 0"
proof -
  let ?e = "e\<lparr>cleanup := 1\<rparr>"
  have at: "at_stat (attach (sys s) j) = int n" using j(3) by (auto simp: stat_ix_def Let_def split: if_splits)
  have e: "locality ?e = ET_LOCAL" "et_alive ?e \<noteq> 0" "env_calloc ?e 0" "env_calloc ?e 1" "env_calloc ?e 2" "cleanup ?e = 1"
    using loc m by (simp_all add: et_alive_def)
  have b: "0 \<le> int j" "int j < ET_ATTACHMENTS_MAX" "0 \<le> at_stat (attach (sys s) (nat (int j)))"
    "gives_back (stats s (nat (at_stat (attach (sys s) (nat (int j))))))" using j(1) s(2,4) at by simp_all
  have p: "0 \<le> id_proc ?e \<or> id_proc ?e = ET_SYS \<or> cleanup ?e = 1" using e(6) by blast
  have sa: "all_placed N s" "stations_ok N s" using s(1) by (simp_all add: sane_def)
  obtain s' where s': "et_station_detach ?e etr (int j) s = Some (ET_OK, s')"
    using detach_recovers[OF e(1,2) sa s(3) b(1,2) j(1) b(3,4) e(3-5) p, of etr] by blast
  have d: "detached j n s s'" using detach_clean[OF s' loc(1)] j(3) by auto
  have "clean_att e etr busy i j s = Some s'" using j(2,3) free s' by (simp add: clean_att_def et_repair_station_def)
  then show ?thesis using d n j(4) k by (auto simp: detached_def gone_def active_def)
qed

end
