(* ===== verification/EtExample.thy ===== *)
theory EtExample imports EtStationConf EtWake EtCrash EtCleanup begin

text \<open>
  A small system for the witnesses: three places for stations, two of them used, ten events in a row in memory and one attachment.
  Event \<open>p\<close> points to event \<open>p + 1\<close>; events 0 and 6 have high priority and the group of an event is
  the parity of its place.
\<close>

definition ex_event :: et_event where
  "ex_event = \<lparr>ev_next = None, tempdata = 0, pdata = 0, data = 0, ev_length = 0, memsize = 100,
     pointer = 0, modify = 0, priority = ET_LOW, owner = 7, temp = ET_EVENT_NORMAL,
     age = ET_EVENT_USED, datastatus = ET_DATA_OK, byteorder = 0x04030201, ev_group = 1,
     ev_place = 0, control = replicate 6 0, ev_filename = []\<rparr>"

definition ex_heap :: heap where
  "ex_heap p = ex_event\<lparr>ev_next := Some (p + 1), ev_place := int p, ev_group := int p mod 2,
     priority := (if p = 0 \<or> p = 6 then ET_HIGH else ET_LOW)\<rparr>"

definition ex_list :: "nat list \<Rightarrow> int \<Rightarrow> et_list" where
  "ex_list xs lh = \<lparr>cnt = int (length xs), lasthigh = lh, events_try = 0, events_in = 0,
     events_out = 0, firstevent = (if xs = [] then None else Some (hd xs)),
     lastevent = (if xs = [] then None else Some (last xs)), mutex = False, cread = 0\<rparr>"

definition ex_station :: "nat list \<Rightarrow> nat list \<Rightarrow> int \<Rightarrow> et_station" where
  "ex_station ins outs lh = \<lparr>num = 1, conductor = 0, st_next = - 1, st_prev = 0,
     nextparallel = - 1, prevparallel = - 1, waslast = 0, name = ''S'', st_mutex = False,
     fixin = \<lparr>fin_first = None, fin_eventsin = 0, fin_start = 0, fin_cnt = 0, fin_num = 0, fin_call = 0\<rparr>,
     fixout = \<lparr>fout_start = 0, fout_cnt = 0, fout_num = 0\<rparr>,
     st_data = \<lparr>status = ET_STATION_ACTIVE, pid_create = 0, st_nattachments = 0, st_att = (\<lambda>_. - 1),
       lib_handle = False, func = NoFunc\<rparr>,
     config = default_config, list_in = ex_list ins 0, list_out = ex_list outs lh\<rparr>"

lemmas ex_defs = ex_heap_def ex_event_def ex_list_def ex_station_def out_repr_def list_repr_def
  high_def high_first_def prio_ok_def ins_event_def

lemma ex_out: "out_repr ex_heap (list_out (ex_station ins [0, 1, 2, 3] 1)) [0, 1, 2, 3]"
  by (simp add: ex_defs)

lemma ex_in: "list_repr ex_heap (list_in (ex_station [0, 1, 2, 3] outs lh)) [0, 1, 2, 3]"
  by (simp add: ex_defs)

lemma ex_repr: "list_repr ex_heap (ex_list [0, 1, 2, 3] lh) [0, 1, 2, 3]"
  by (simp add: ex_defs)

lemma ex_high [simp]: "high ex_heap p \<longleftrightarrow> p = 0 \<or> p = 6"
  by (simp add: ex_defs)

lemma ex_group: "ev_group (ex_heap p) = int p mod 2"
  by (simp add: ex_defs)

lemma ex_prio [simp]: "prio_ok ex_heap A"
  by (simp add: ex_defs)

section \<open>A whole system\<close>

text \<open>
  Events 0 to 3 are in GrandCentral's input list, 4 and 5 belong to attachment 0 of station 1, 6 and
  7 are in the output list of station 1 and 8 and 9 in its input list.
\<close>

definition ex_att :: et_attach where
  "ex_att = \<lparr>at_num = 0, at_proc = 0, at_stat = 1, at_status = ET_ATT_ACTIVE, blocked = 0, quit = 0,
     sleep = 0, events_put = 0, events_get = 0, events_dump = 0, events_make = 0, at_pid = 0,
     host = [], interface = []\<rparr>"

definition ex_proc :: et_proc where
  "ex_proc = \<lparr>pr_num = 0, pr_att = (\<lambda>_. - 1), pr_nattachments = 1, pr_status = ET_PROC_OPEN, et_status = 1,
     pr_heartbeat = 0, pr_pid = 0\<rparr>"

definition ex_sys :: et_system where
  "ex_sys = \<lparr>asthread = ET_THREAD_KEEP, heartbeat = 0, sys_port = 0, mainpid = 1, statadd_mutex = False, sys_host = [],
     nstations = 2, ntemps = 0, nprocesses = 1, nattachments = 1, stat_head = 0, stat_tail = 1,
     sys_mutex = False, stat_mutex = False, statadd = 0, proc = (\<lambda>_. ex_proc),
     attach = (\<lambda>a. if a = 0 then ex_att else ex_att\<lparr>at_num := - 1, at_stat := - 1, at_status := ET_ATT_UNUSED\<rparr>),
     sys_config = \<lparr>event_size = 100, cfg_init = ET_STRUCT_OK, c_nevents = 10, c_ntemps = 2, c_nstations = 3,
       c_nprocesses = 1, c_nattachments = 2, groupCount = 1, groups = [10], c_filename = [],
       c_port = 11111, c_serverport = 0, tcpSendBufSize = 0, tcpRecvBufSize = 0, tcpNoDelay = 1, mcastaddrs = [], netinfo = []\<rparr>,
     sys_version = ET_VERSION, sys_nselects = int ET_STATION_SELECT_INTS, sys_bit64 = 1\<rparr>"

definition ex_shm :: et_shm where
  "ex_shm = \<lparr>sys = ex_sys,
     stats = (\<lambda>k. if k = 0 then (ex_station [0, 1, 2, 3] [] 0)\<lparr>num := 0, st_next := 1, st_prev := - 1\<rparr>
       else if k = 1 then (let ps = ex_station [8, 9] [6, 7] 1 in
         ps\<lparr>st_data := (st_data ps)\<lparr>st_nattachments := 1, st_att := (\<lambda>i. if i = 0 then 0 else - 1)\<rparr>\<rparr>)
       else (let ps = ex_station [] [] 0 in
         ps\<lparr>num := int k, st_prev := - 1, st_data := (st_data ps)\<lparr>status := ET_STATION_UNUSED\<rparr>\<rparr>)),
     events = (\<lambda>p. (ex_heap p)\<lparr>owner := (if p = 4 \<or> p = 5 then 0 else ET_SYS)\<rparr>), histogram = (\<lambda>_. 0)\<rparr>"

definition ex_id :: et_id where
  "ex_id = \<lparr>lang = 0, alive = 1, id_proc = 0, cleanup = 0, locality = ET_LOCAL, id_nevents = 10, id_group = 0,
     id_offset = 0, id_data = 0, debug = 0,
     esize = 100, id_port = 0, ethost = [], id_bit64 = 1, id_version = ET_VERSION,
     id_nselects = int ET_STATION_SELECT_INTS, id_share = ET_MUTEX_SHARE, id_endian = ET_ENDIAN_LITTLE,
     id_systemendian = ET_ENDIAN_LITTLE, env_pid = 1, env_host = Some ''h'', env_calloc = (\<lambda>_. True), env_munmap = (\<lambda>_. True),
     env_temp_remove = (\<lambda>_. True), env_temp_create = (\<lambda>_ _. Some 0), env_temp_attach = (\<lambda>_. Some 0)\<rparr>"

lemma ex_id_simps [simp]: "locality ex_id = ET_LOCAL" "et_alive ex_id = 1" "env_munmap ex_id p"
  "env_temp_remove ex_id p" "env_calloc ex_id n" "id_group ex_id = 0" "alive ex_id = 1" "id_proc ex_id = 0"
  by (simp_all add: ex_id_def et_alive_def)

lemma ex_sys_simps [simp]:
  "nevents_max ex_shm = 10" "c_nstations (sys_config (sys ex_shm)) = 3"
  "at_stat (attach (sys ex_shm) a) = (if a = 0 then 1 else - 1)"
  "at_status (attach (sys ex_shm) 0) = ET_ATT_ACTIVE"
  "owner (events ex_shm p) = (if p = 4 \<or> p = 5 then 0 else ET_SYS)"
  "ev_next (events ex_shm p) = Some (p + 1)" "temp (events ex_shm p) = ET_EVENT_NORMAL"
  "ev_length (events ex_shm p) = 0" "memsize (events ex_shm p) = 100"
  "priority (events ex_shm p) = (if p = 0 \<or> p = 6 then ET_HIGH else ET_LOW)"
  "list_in (stats ex_shm k) = 
     (if k = 0 then ex_list [0, 1, 2, 3] 0 else if k = 1 then ex_list [8, 9] 0 else ex_list [] 0)"
  "list_out (stats ex_shm k) = (if k = 1 then ex_list [6, 7] 1 else ex_list [] 0)"
  "config (stats ex_shm k) = default_config"
  "status (st_data (stats ex_shm k)) = (if k < 2 then ET_STATION_ACTIVE else ET_STATION_UNUSED)"
  "num (stats ex_shm k) = int k" "st_next (stats ex_shm k) = (if k = 0 then 1 else - 1)"
  "st_prev (stats ex_shm k) = (if k = 1 then 0 else - 1)" "stat_tail (sys ex_shm) = 1" "stat_head (sys ex_shm) = 0"
  "nstations (sys ex_shm) = 2" "c_nattachments (sys_config (sys ex_shm)) = 2" "nattachments (sys ex_shm) = 1"
  "at_num (attach (sys ex_shm) a) = (if a = 0 then 0 else - 1)"
  "st_nattachments (st_data (stats ex_shm k)) = (if k = 1 then 1 else 0)"
  "st_att (st_data (stats ex_shm k)) i = (if k = 1 \<and> i = 0 then 0 else - 1)"
  by (auto simp: Let_def ex_shm_def ex_sys_def ex_heap_def ex_event_def ex_station_def ex_att_def)

definition exX :: "nat \<Rightarrow> nat list" where
  "exX k = (if k = 0 then [0, 1, 2, 3] else if k = 1 then [8, 9] else [])"

definition exY :: "nat \<Rightarrow> nat list" where
  "exY k = (if k = 1 then [6, 7] else [])"

lemma ex_held: "held ex_shm = [4, 5]"
proof -
  have n: "nat (10 :: int) = 10" by simp
  show ?thesis unfolding held_def ex_sys_simps n by (simp add: upt_rec)
qed

lemma ex_placed: "placed 3 ex_shm exX exY"
proof -
  have t: "total_in 3 exX = {#0, 1, 2, 3, 8, 9#}" "total_in 3 exY = {#6, 7#}"
    by (simp_all add: total_in_def exX_def exY_def eval_nat_numeral lessThan_Suc)
  have u: "mset [0..<nat (nevents_max ex_shm)] = {#0, 1, 2, 3, 4, 5, 6, 7, 8, 9#}"
    unfolding ex_sys_simps by (simp add: upt_rec eval_nat_numeral del: mset_upt)
  have i: "in_lists 3 ex_shm exX"
    by (auto simp: in_lists_def exX_def list_repr_def ex_list_def high_first_def high_def)
  have o: "\<forall>k<3. out_repr (events ex_shm) (list_out (stats ex_shm k)) (exY k)"
    by (auto simp: exY_def out_repr_def list_repr_def ex_list_def high_first_def high_def)
  have p: "prio_ok (events ex_shm) UNIV" by (auto simp: prio_ok_def)
  show ?thesis
    unfolding placed_def lists_ok_def ex_held u t using i o p by (auto simp: add_ac)
qed

lemma ex_sane: "sane 3 ex_shm"
  using ex_placed by (auto simp: sane_def all_placed_def stations_ok_def)

lemma ex_all_placed: "all_placed 3 ex_shm" "stations_ok 3 ex_shm"
  using ex_sane by (simp_all add: sane_def)

lemma ex_can_pass: "can_pass 3 1 ex_shm"
proof -
  have "next_main ex_shm 1 = 0" by (simp add: next_main_def)
  then show ?thesis
    by (simp add: can_pass_def Let_def default_config_def gc_ok_def ready_def func_ok_def deals_def)
qed


lemma ex_main: "main_repr ex_shm [0, 1]"
  by (simp add: main_repr_def station_ok_def dlist_def)

text \<open>The same system with a third station to be inserted, and with it at the end of the list.\<close>

definition ex_two :: et_shm where
  "ex_two = upd_sys (\<lambda>y. y\<lparr>nstations := 3\<rparr>) ex_shm"

definition ex_three :: et_shm where
  "ex_three = upd_station 1 (\<lambda>ps. ps\<lparr>st_next := 2\<rparr>)
     (upd_station 2 (\<lambda>ps. ps\<lparr>st_prev := 1, st_data := (st_data ps)\<lparr>status := ET_STATION_ACTIVE\<rparr>\<rparr>)
     (upd_sys (\<lambda>y. y\<lparr>nstations := 3, stat_tail := 2\<rparr>) ex_shm))"

lemma ex_main_two: "main_repr ex_two [0, 1]"
  by (simp add: main_repr_def station_ok_def dlist_def ex_two_def)

lemma ex_main_three: "main_repr ex_three [0, 1, 2]"
  by (simp add: main_repr_def station_ok_def dlist_def ex_three_def)

lemma ex_layout: "layout_repr ex_shm [0, 1] (\<lambda>n. [n])"
  by (simp add: layout_repr_def ex_main[unfolded One_nat_def] default_config_def)

lemma ex_configs: "configs_ok ex_shm"
  by (simp add: configs_ok_def default_config_ok)

lemma ex_atts: "atts ex_shm = {0}" "atts_of ex_shm n = (if n = 1 then {0} else {})"
  by (auto simp: atts_def atts_of_def active_def)

lemma ex_att_inv: "att_inv ex_shm" "att_limits ex_shm"
  by (auto simp: att_inv_def att_limits_def active_def ex_atts default_config_def)

lemma ex_attach: "\<exists>s'. et_station_attach ex_id etr 1 ex_shm = Some ((ET_OK, Some 1), s')"
proof -
  have "map_option fst (et_station_attach ex_id (\<lambda>_. None) 1 ex_shm) = Some (ET_OK, Some 1)" by code_simp
  moreover have "et_station_attach ex_id etr 1 ex_shm = et_station_attach ex_id (\<lambda>_. None) 1 ex_shm"
    by (simp add: et_station_attach_def)
  ultimately show ?thesis by auto
qed

lemma ex_detach: "\<exists>s'. et_station_detach ex_id etr 0 ex_shm = Some (ET_OK, s')"
proof -
  have "(case et_station_detach ex_id (\<lambda>_. None) 0 ex_shm of Some (st, _) \<Rightarrow> st = ET_OK | None \<Rightarrow> False)" by code_simp
  then show ?thesis by (auto simp: et_station_detach_def split: option.splits)
qed


lemma ex_ntemps [simp]: "ntemps (sys ex_shm) = 0"
  by (simp add: ex_shm_def ex_sys_def)

lemma ex_turn:
  "out_repr (events ex_shm) (list_out (stats ex_shm 1)) [6, 7]" "[6, 7 :: nat] \<noteq> []" "in_lists 3 ex_shm exX"
  "\<forall>p. count (total_in 3 exX + mset [6, 7]) p \<le> 1" "int (size (total_in 3 exX + mset [6, 7])) \<le> nevents_max ex_shm"
  "prio_ok (events ex_shm) (set_mset (total_in 3 exX + mset [6, 7]))" "can_pass 3 1 ex_shm"
proof -
  have t: "total_in 3 exX = {#0, 1, 2, 3, 8, 9#}" by (simp add: total_in_def exX_def eval_nat_numeral lessThan_Suc)
  have p: "\<forall>k<3. out_repr (events ex_shm) (list_out (stats ex_shm k)) (exY k)" "in_lists 3 ex_shm exX"
    using ex_placed unfolding placed_def lists_ok_def by blast+
  show "out_repr (events ex_shm) (list_out (stats ex_shm 1)) [6, 7]" "in_lists 3 ex_shm exX"
    using p(1)[rule_format, of 1] p(2) by (simp_all add: exY_def)
  show "\<forall>p. count (total_in 3 exX + mset [6, 7]) p \<le> 1" "int (size (total_in 3 exX + mset [6, 7])) \<le> nevents_max ex_shm"
    unfolding t by auto
  show "prio_ok (events ex_shm) (set_mset (total_in 3 exX + mset [6, 7]))" by (auto simp: prio_ok_def)
  show "can_pass 3 1 ex_shm" by (rule ex_can_pass)
qed simp

section \<open>Starting, waking and repairing\<close>

definition ex_config :: et_sys_config where
  "ex_config = \<lparr>event_size = 100, cfg_init = ET_STRUCT_OK, c_nevents = 10, c_ntemps = 2, c_nstations = 3,
     c_nprocesses = 1, c_nattachments = 2, groupCount = 2, groups = [6, 4], c_filename = ''f'',
     c_port = 11111, c_serverport = 0, tcpSendBufSize = 0, tcpRecvBufSize = 0, tcpNoDelay = 1, mcastaddrs = [], netinfo = []\<rparr>"

definition default_sys_config :: et_sys_config where
  "default_sys_config = the (snd (et_system_config_init True 0 None))"

lemma default_sys_config_init: "et_system_config_init True 0 None = (ET_OK, Some default_sys_config)"
  by (simp add: default_sys_config_def et_system_config_init_def)

lemma ex_host: "env_host ex_id = Some ''h''"
  by (simp add: ex_id_def)

lemma ex_calloc: "env_calloc ex_id 0"
  by simp

lemma ex_local: "locality ex_id = ET_LOCAL"
  by simp

lemma ex_config_ok: "et_system_config_check ex_config = Some (ET_OK, ex_config)"
  by (simp add: et_system_config_check_def ex_config_def)

text \<open>The attachment sleeps in a read.\<close>

definition ex_blocked :: et_shm where
  "ex_blocked = upd_attach 0 (\<lambda>a. a\<lparr>blocked := ET_ATT_BLOCKED\<rparr>) ex_shm"

lemma ex_blocked_waits: "att_waits ex_blocked 0" "blocked (attach (sys ex_blocked) 0) = ET_ATT_BLOCKED"
  "sleep (attach (sys ex_blocked) 0) = ET_ATT_NOSLEEP" "stat_ix ex_blocked 0 = Some 1"
  "c_nattachments (sys_config (sys ex_blocked)) = 2" "c_nstations (sys_config (sys ex_blocked)) = 3"
  "st_att (st_data (stats ex_blocked k)) i = (if k = 1 \<and> i = 0 then 0 else - 1)"
  by (simp_all add: ex_blocked_def att_waits_def stat_ix_def) (simp_all add: ex_shm_def ex_sys_def ex_att_def)

lemma ex_blocked_quit: "quit (attach (sys ex_blocked) a) = 0"
  by (simp add: ex_blocked_def) (simp add: ex_shm_def ex_sys_def ex_att_def)

text \<open>A list whose events are the system's.\<close>

definition ex_sysheap :: heap where
  "ex_sysheap p = (ex_heap p)\<lparr>owner := ET_SYS\<rparr>"

lemma ex_sysheap_owner: "owner (ex_sysheap p) = ET_SYS"
  by (simp add: ex_sysheap_def)

lemma ex_sys_in: "list_repr ex_sysheap (list_in (ex_station [0, 1, 2, 3] [] 0)) [0, 1, 2, 3]"
  by (simp add: ex_sysheap_def ex_defs)

text \<open>A crash between the links of station 1.\<close>

definition ex_torn :: et_shm where
  "ex_torn = upd_station 1 (\<lambda>ps. ps\<lparr>st_prev := - 1\<rparr>) (upd_sys (\<lambda>y. y\<lparr>stat_tail := 0\<rparr>) ex_shm)"

lemma ex_torn_simps: "stat_head (sys ex_torn) = 0" "st_prev (stats ex_torn 1) = - 1" "stat_tail (sys ex_torn) = 0"
  "status (st_data (stats ex_torn 0)) = ET_STATION_ACTIVE"
  by (simp_all add: ex_torn_def)

lemma ex_torn_layout: "fwd_layout ex_torn [0, 1] (\<lambda>n. [n])"
  by (simp add: fwd_layout_def ex_torn_def is_parallel_def station_ok_def default_config_def)

text \<open>A crash while attachment 1 attaches to station 1: the station does not know it yet.\<close>

definition ex_half :: et_shm where
  "ex_half = upd_attach 1 (\<lambda>a. a\<lparr>at_num := 1, at_stat := 1, at_status := ET_ATT_ACTIVE\<rparr>)
     (upd_sys (\<lambda>y. y\<lparr>nattachments := 2\<rparr>) ex_shm)"

lemma ex_half_attached: "half_attached ex_half"
  by (auto simp: half_attached_def ex_half_def active_def less_Suc_eq zless_nat_eq_int_zless)

lemma ex_half_wrong: "\<not> att_inv ex_half"
proof
  assume inv: "att_inv ex_half"
  have a: "atts_of ex_half 1 = {0, 1}" by (auto simp: atts_of_def atts_def ex_half_def active_def split: if_splits)
  have "st_nattachments (st_data (stats ex_half 1)) = 1" by (simp add: ex_half_def)
  moreover have "st_nattachments (st_data (stats ex_half 1)) = int (card (atts_of ex_half 1))"
  proof -
    have "int 1 < c_nstations (sys_config (sys ex_half))" by (simp add: ex_half_def)
    then show ?thesis using inv unfolding att_inv_def by blast
  qed
  ultimately show False using a by simp
qed

text \<open>Station 2 is active but in no list.\<close>

definition ex_stray :: et_shm where
  "ex_stray = upd_station 2 (\<lambda>ps. ps\<lparr>st_data := (st_data ps)\<lparr>status := ET_STATION_ACTIVE\<rparr>\<rparr>) ex_shm"

lemma ex_stray_layout: "fwd_layout ex_stray [0, 1] (\<lambda>n. [n])"
  by (simp add: fwd_layout_def ex_stray_def is_parallel_def station_ok_def default_config_def)

lemma ex_stray_simps: "c_nstations (sys_config (sys ex_stray)) = 3"
  "status (st_data (stats ex_stray k)) = (if k < 3 then ET_STATION_ACTIVE else ET_STATION_UNUSED)"
  by (auto simp: ex_stray_def)

lemma ex_stray_in_use: "in_use ex_stray k \<longleftrightarrow> k < 3"
  by (simp add: in_use_def ex_stray_simps)

lemma ex_stray_facts:
  "\<forall>i. listed [0, 1] (\<lambda>n. [n]) i \<longrightarrow> status (st_data (stats ex_stray i)) \<noteq> ET_STATION_CREATING"
  "\<forall>i. in_use ex_stray i \<longrightarrow> num (stats ex_stray i) = int i"
  by (auto simp: ex_stray_simps ex_stray_def)


text \<open>
  A process that died while it attached attachment 1 to station 1; its attachment 0 holds events 4 and 5.
\<close>

definition ex_dead :: et_shm where
  "ex_dead = upd_sys (\<lambda>y. y\<lparr>proc := (\<lambda>_. ex_proc\<lparr>pr_att := (\<lambda>j. if j < 2 then int j else - 1)\<rparr>)\<rparr>) ex_half"

lemma ex_dead_simps [simp]: "events ex_dead = events ex_shm" "stats ex_dead = stats ex_shm" "stat_head (sys ex_dead) = 0"
  "sys_config (sys ex_dead) = sys_config (sys ex_shm)" "pr_att (proc (sys ex_dead) i) j = (if j < 2 then int j else - 1)"
  "at_num (attach (sys ex_dead) a) = (if a < 2 then int a else - 1)" "at_stat (attach (sys ex_dead) a) = (if a < 2 then 1 else - 1)"
  "c_nprocesses (sys_config (sys ex_shm)) = 1"
proof -
  show "stat_head (sys ex_dead) = 0" by (simp add: ex_dead_def ex_half_def upd_attach_def)
  show "c_nprocesses (sys_config (sys ex_shm)) = 1" by (simp add: ex_shm_def ex_sys_def)
qed (auto simp: ex_dead_def ex_half_def)

lemma ex_dead_listed: "stations_listed ex_dead [0, 1] (\<lambda>n. [n])"
  by (auto simp: stations_listed_def fwd_layout_def is_parallel_def station_ok_def default_config_def listed_def in_use_def)

lemma ex_dead_books: "half_attached ex_dead" "counted ex_dead" "known ex_dead j \<longleftrightarrow> j = 0" "of_process ex_dead 0 = {0, 1}"
proof -
  show "half_attached ex_dead"
    by (auto simp: half_attached_def active_def zless_nat_eq_int_zless)
  show "known ex_dead j \<longleftrightarrow> j = 0" by (auto simp: known_def intro!: exI[of _ 1])
  show "of_process ex_dead 0 = {0, 1}" by (auto simp: of_process_def)
  have "known_atts ex_dead n = (if n = 1 then {0} else {})" for n by (auto simp: known_atts_def)
  then show "counted ex_dead" by (simp add: counted_def)
qed

lemma ex_dead_sane: "sane 3 ex_dead" "gives_back (stats ex_dead n)" "gives_back (stats ex_shm n)"
proof -
  have "quiet ex_shm ex_dead" by (rule quiet_same) (simp_all add: same_list_def)
  then show "sane 3 ex_dead" using all_placed_quiet[OF ex_all_placed(1)] by (simp add: sane_def stations_ok_def)
qed (simp_all add: gives_back_def default_config_def)

lemma ex_free: "\<forall>c l. \<not> et_mutex_locked ((\<lambda>_ _ _. False) c l)"
  by (simp add: et_mutex_locked_def upt_rec)

lemma ex_dead_healthy: "healthy 3 [0, 1] (\<lambda>n. [n]) ex_dead"
  using ex_dead_sane(1,2) ex_dead_listed ex_dead_books by (auto simp: healthy_def)

lemma ex_dead_silent: "silent (\<lambda>_. 0) ex_dead 0"
  by (simp add: silent_def life_def ex_dead_def ex_proc_def)

lemma ex_dead_left: "left_over (\<lambda>_. 0) ex_dead {i. int i < c_nprocesses (sys_config (sys ex_dead))} = {0}"
proof -
  have "{i. int i < c_nprocesses (sys_config (sys ex_dead))} = {0}" by auto
  then show ?thesis using ex_dead_silent ex_dead_books(3,4) by (auto simp: left_over_def)
qed

text \<open>
  A process that died in its detach: attachment 0 is off station 1 and out of the table, but not off the list of
  the process; attachment 1 of another process is the one the station counts.
\<close>

definition ex_left :: et_shm where
  "ex_left = upd_sys (\<lambda>y. y\<lparr>proc := (\<lambda>_. ex_proc\<lparr>pr_att := (\<lambda>j. if j = 0 then 0 else - 1)\<rparr>)\<rparr>)
     (upd_attach 1 (\<lambda>a. a\<lparr>at_num := 1, at_stat := 1, at_status := ET_ATT_ACTIVE\<rparr>)
     (upd_attach 0 (\<lambda>a. a\<lparr>at_num := - 1, at_status := ET_ATT_UNUSED\<rparr>) ex_shm))"

lemma ex_left_simps [simp]: "events ex_left = events ex_shm" "stats ex_left = stats ex_shm"
  "sys_config (sys ex_left) = sys_config (sys ex_shm)" "pr_att (proc (sys ex_left) i) j = (if j = 0 then 0 else - 1)"
  "at_num (attach (sys ex_left) a) = (if a = 1 then 1 else - 1)" "at_stat (attach (sys ex_left) a) = (if a < 2 then 1 else - 1)"
  by (auto simp: ex_left_def)

lemma ex_left_sane: "sane 3 ex_left" "stat_ix ex_left 0 = Some 1" "active ex_left 1"
proof -
  have "quiet ex_shm ex_left" by (rule quiet_same) (simp_all add: same_list_def)
  then show "sane 3 ex_left" using all_placed_quiet[OF ex_all_placed(1)] by (simp add: sane_def stations_ok_def)
qed (simp_all add: stat_ix_def active_def)

lemma ex_write: "out_repr ex_sysheap (list_out (ex_station [] [0, 1, 2, 3] 1)) [0, 1, 2, 3]"
  by (simp add: ex_sysheap_def ex_defs)

lemma ex_write_low: "out_repr ex_sysheap (list_out (ex_station [] [1, 2, 3] 0)) [1, 2, 3]"
  by (simp add: ex_sysheap_def ex_defs)

lemma ex_first_high: "high_first ex_sysheap [0]" "high ex_sysheap 0"
  by (simp_all add: ex_sysheap_def ex_defs)

lemma ex_cursors: "cursors ex_sysheap [0, 1, 2, 3] 3 (Some 0)"
  by (simp add: cursors_def ex_sysheap_def ex_defs)

lemma ex_sys_prio: "prio_ok ex_sysheap A"
  by (simp add: ex_sysheap_def ex_defs)

end
