(* ===== verification/EtWire.thy ===== *)
theory EtWire imports EtInit begin

text \<open>
  What the routines of \<^verbatim>\<open>et_data.c\<close> send over the network and how it is read again: integers of 32 bits in
  network byte order (\<^verbatim>\<open>htonl\<close>, \<^verbatim>\<open>ntohl\<close>), 64 bit numbers as two of them (\<^verbatim>\<open>ET_HIGHINT\<close>, \<^verbatim>\<open>ET_LOWINT\<close>,
  \<^verbatim>\<open>ET_64BIT_UINT\<close> of \<^verbatim>\<open>et_private.h\<close>), and texts with their final zero. A buffer is a list of bytes. A read
  returns what it has read and the rest of the buffer; \<open>None\<close> is a read past the end of the buffer or a copy
  past the end of its destination.
\<close>

unbundle bit_operations_syntax

type_synonym byte = "8 word"
type_synonym 'a reader = "byte list \<Rightarrow> ('a \<times> byte list) option"

abbreviation (input) ET_ERROR_READ :: int where "ET_ERROR_READ \<equiv> - 9"
abbreviation (input) ET_ERROR_WRITE :: int where "ET_ERROR_WRITE \<equiv> - 10"

section \<open>Integers\<close>

definition ET_HIGHINT :: "u64 \<Rightarrow> i32" where
  "ET_HIGHINT w = ucast (drop_bit 32 w AND 0xFFFFFFFF)"

definition ET_LOWINT :: "u64 \<Rightarrow> i32" where
  "ET_LOWINT w = ucast (w AND 0xFFFFFFFF)"

definition ET_64BIT_UINT :: "i32 \<Rightarrow> i32 \<Rightarrow> u64" where
  "ET_64BIT_UINT hi lo = push_bit 32 (ucast hi) OR (ucast lo AND 0xFFFFFFFF)"

lemma and_low32: "(w :: u64) AND 0xFFFFFFFF = take_bit 32 w"
  by (simp add: take_bit_eq_mask mask_eq_exp_minus_1)

lemma uint64_high_low [simp]: "ET_64BIT_UINT (ET_HIGHINT w) (ET_LOWINT w) = w"
  by (rule bit_word_eqI) (auto simp: ET_64BIT_UINT_def ET_HIGHINT_def ET_LOWINT_def and_low32 bit_simps)

text \<open>The four bytes of an integer as the network has them, most significant first.\<close>

definition net_bytes :: "i32 \<Rightarrow> byte list" where
  "net_bytes w = [ucast (drop_bit 24 w), ucast (drop_bit 16 w), ucast (drop_bit 8 w), ucast w]"

fun read_int :: "i32 reader" where
  "read_int (a # b # c # d # bs) =
    Some (push_bit 24 (ucast a) OR push_bit 16 (ucast b) OR push_bit 8 (ucast c) OR ucast d, bs)"
| "read_int bs = None"

lemma read_net_bytes [simp]: "read_int (net_bytes w @ bs) = Some (w, bs)"
proof -
  have "push_bit 24 (ucast (ucast (drop_bit 24 w) :: byte)) OR push_bit 16 (ucast (ucast (drop_bit 16 w) :: byte)) OR
      push_bit 8 (ucast (ucast (drop_bit 8 w) :: byte)) OR ucast (ucast w :: byte) = w" (is "?v = w")
  proof (rule bit_word_eqI)
    fix n assume n: "n < LENGTH(32)"
    consider "n < 8" | "8 \<le> n" "n < 16" | "16 \<le> n" "n < 24" | "24 \<le> n" by linarith
    then show "bit ?v n = bit w n" using n by cases (auto simp: bit_simps)
  qed
  then show ?thesis by (simp add: net_bytes_def)
qed

lemma length_net_bytes [simp]: "length (net_bytes w) = 4"
  by (simp add: net_bytes_def)

lemma net_bytes_read: "read_int bs = Some (w, []) \<Longrightarrow> net_bytes w = bs"
proof (induction bs rule: read_int.induct)
  case (1 a b c d bs)
  let ?w = "push_bit 24 (ucast a) OR push_bit 16 (ucast b) OR push_bit 8 (ucast c) OR ucast d :: i32"
  have "ucast (drop_bit 24 ?w) = a" "ucast (drop_bit 16 ?w) = b" "ucast (drop_bit 8 ?w) = c" "ucast ?w = d"
    by (rule bit_word_eqI; auto simp: bit_simps dest: bit_imp_le_length)+
  then have "net_bytes ?w = [a, b, c, d]" unfolding net_bytes_def by (simp only:)
  moreover have "?w = w" "bs = []" using 1 by simp_all
  ultimately show ?case by simp
qed simp_all

text \<open>An array of integers, copied with one \<^verbatim>\<open>memcpy\<close>.\<close>

definition words_bytes :: "i32 list \<Rightarrow> byte list" where
  "words_bytes ws = concat (map net_bytes ws)"

fun read_words :: "nat \<Rightarrow> i32 list reader" where
  "read_words 0 bs = Some ([], bs)"
| "read_words (Suc n) bs = do { (w, bs) \<leftarrow> read_int bs; (ws, bs) \<leftarrow> read_words n bs; Some (w # ws, bs) }"

lemma words_bytes_simps [simp]:
  "words_bytes [] = []" "words_bytes (w # ws) = net_bytes w @ words_bytes ws"
  "words_bytes (us @ ws) = words_bytes us @ words_bytes ws" "length (words_bytes ws) = 4 * length ws"
  by (simp_all add: words_bytes_def length_concat comp_def sum_list_triv)

lemma read_words_bytes [simp]: "read_words (length ws) (words_bytes ws @ bs) = Some (ws, bs)"
  by (induction ws) simp_all

lemma read_words_bytes_n: "n = length ws \<Longrightarrow> read_words n (words_bytes ws @ bs) = Some (ws, bs)"
  by simp

text \<open>Integers that fit into 32 bits come back from their words.\<close>

definition fits32 :: "int \<Rightarrow> bool" where
  "fits32 i \<longleftrightarrow> - (2 ^ 31) \<le> i \<and> i < 2 ^ 31"

lemma sint_of_int32 [simp]: "fits32 i \<Longrightarrow> sint (word_of_int i :: i32) = i"
  by (simp add: fits32_def signed_of_int signed_take_bit_int_eq_self)

lemma sint_of_nat32 [simp]: "n < 2 ^ 31 \<Longrightarrow> sint (word_of_nat n :: i32) = int n"
  using sint_of_int32[of "int n"] by (simp add: fits32_def)

section \<open>Texts\<close>

text \<open>The bytes of a text with its final zero, as \<^verbatim>\<open>memcpy\<close> with \<^verbatim>\<open>strlen + 1\<close> copies them.\<close>

definition text_bytes :: "string \<Rightarrow> byte list" where
  "text_bytes t = map (\<lambda>c. of_nat (of_char c)) t @ [0]"

text \<open>
  A copy of \<open>n\<close> bytes into an array of \<open>cap\<close> characters. What comes after them in the array is not known, so that
  a text without a zero among its bytes has no end.
\<close>

definition read_text :: "nat \<Rightarrow> int \<Rightarrow> string reader" where
  "read_text cap n bs =
    (if n < 0 \<or> nat n > cap \<or> nat n > length bs \<or> 0 \<notin> set (take (nat n) bs) then None
     else Some (map (\<lambda>b. char_of (unat b)) (takeWhile (\<lambda>b. b \<noteq> 0) bs), drop (nat n) bs))"

definition c_text :: "nat \<Rightarrow> string \<Rightarrow> bool" where
  "c_text cap t \<longleftrightarrow> length t < cap \<and> CHR 0x00 \<notin> set t"

lemma length_text_bytes [simp]: "length (text_bytes t) = Suc (length t)"
  by (simp add: text_bytes_def)

lemma of_char_byte: "unat (of_nat (of_char (c :: char)) :: byte) = of_char c"
proof -
  have "(of_char c :: nat) < 256" by simp
  then show ?thesis by (simp add: unat_of_nat take_bit_nat_eq_self)
qed

lemma read_text_bytes:
  assumes "c_text cap t" "n = int (Suc (length t))"
  shows "read_text cap n (text_bytes t @ bs) = Some (t, bs)"
proof -
  let ?m = "map (\<lambda>c. of_nat (of_char c) :: byte) t"
  have "\<forall>b\<in>set ?m. b \<noteq> 0"
  proof -
    have "(of_nat (of_char c) :: byte) \<noteq> 0" if "c \<in> set t" for c
    proof
      assume "(of_nat (of_char c) :: byte) = 0"
      then have "(of_char c :: nat) = 0" using of_char_byte[of c] by simp
      then have "c = char_of (0 :: nat)" by (metis char_of_char)
      then have "c = CHR 0x00" by (simp add: char_of_def)
      then show False using that assms(1) by (simp add: c_text_def)
    qed
    then show ?thesis by auto
  qed
  then have "takeWhile (\<lambda>b. b \<noteq> 0) (?m @ 0 # bs) = ?m @ takeWhile (\<lambda>b. b \<noteq> 0) (0 # bs)"
    by (intro takeWhile_append2) blast
  then have "takeWhile (\<lambda>b. b \<noteq> 0) (text_bytes t @ bs) = ?m" by (simp add: text_bytes_def)
  moreover have "map (\<lambda>b. char_of (unat b)) ?m = t"
    by (simp add: of_char_byte comp_def)
  moreover have "take (Suc (length t)) (text_bytes t @ bs) = text_bytes t" by simp
  moreover have "0 \<in> set (text_bytes t)" by (simp add: text_bytes_def)
  moreover have "nat n = Suc (length t)" "\<not> n < 0" using assms(2) by simp_all
  ultimately show ?thesis using assms(1) by (simp add: read_text_def c_text_def)
qed

end
