(* ===== verification/EtData.thy ===== *)
theory EtData imports EtWire EtFix begin

text \<open>
  The information on a whole system that a server sends to a remote monitor (\<^verbatim>\<open>et_data.c\<close>): for each of
  the system, its stations, its attachments and its processes the routine that packs it into a buffer, the routine that
  unpacks it, and the records of \<^verbatim>\<open>et_data.h\<close>; the histogram; and the exchange of the server with its client.

  The packing routines take no mutex, so that the state may change between the pass that counts and the pass
  that fills the buffer: \<open>s0\<close> is the state counted, \<open>s\<close> the state sent. \<open>mem\<close> is the success of \<^verbatim>\<open>malloc\<close>. \<open>None\<close> is
  an access outside a buffer or an array. The lemmas show that what is unpacked is the view of the
  system that was packed.
\<close>

section \<open>The records\<close>

record et_sysdata =
  sd_alive :: int
  sd_heartbeat :: int
  sd_mutex :: int
  sd_stat_mutex :: int
  sd_statadd_mutex :: int
  sd_ntemps :: int
  sd_nstations :: int
  sd_nattachments :: int
  sd_nprocesses :: int
  sd_events_owned :: int
  sd_endian :: int
  sd_share :: int
  sd_mainpid :: int
  sd_nselects :: int
  sd_nevents :: int
  sd_bit64 :: int
  sd_event_size :: u64
  sd_ntemps_max :: int
  sd_nstations_max :: int
  sd_nattachments_max :: int
  sd_nprocesses_max :: int
  sd_tcp_port :: int
  sd_udp_port :: int
  sd_multi_port :: int
  sd_ifaddrs :: "string list"
  sd_mcastaddrs :: "string list"
  sd_filename :: string

record et_statdata =
  td_num :: int
  td_status :: int
  td_mutex :: int
  td_nattachments :: int
  td_att :: "nat \<Rightarrow> int"
  td_inlist_mutex :: int
  td_inlist_cnt :: int
  td_inlist_try :: u64
  td_inlist_in :: u64
  td_outlist_mutex :: int
  td_outlist_cnt :: int
  td_outlist_out :: u64
  td_flow_mode :: int
  td_user_mode :: int
  td_restore_mode :: int
  td_block_mode :: int
  td_prescale :: int
  td_cue :: int
  td_select_mode :: int
  td_select :: "i32 list"
  td_fname :: string
  td_lib :: string
  td_classs :: string
  td_name :: string

record et_attdata =
  ad_num :: int
  ad_proc :: int
  ad_stat :: int
  ad_pid :: int
  ad_blocked :: int
  ad_quit :: int
  ad_owned :: int
  ad_events_put :: u64
  ad_events_get :: u64
  ad_events_dump :: u64
  ad_events_make :: u64
  ad_host :: string
  ad_station :: string
  ad_interface :: string

record et_procdata =
  pd_num :: int
  pd_heartbeat :: int
  pd_pid :: int
  pd_nattachments :: int
  pd_att :: "nat \<Rightarrow> int"

section \<open>The system\<close>

abbreviation (input) CODA_MAXADDRESSES :: nat where "CODA_MAXADDRESSES \<equiv> 10"

abbreviation (input) w32 :: "int \<Rightarrow> i32" where "w32 i \<equiv> word_of_int i"

definition test_mutex :: "bool \<Rightarrow> int" where
  "test_mutex m = (if m then ET_MUTEX_LOCKED else ET_MUTEX_UNLOCKED)"

text \<open>How many events belong to \<open>a\<close>, the system or an attachment.\<close>

definition events_owned :: "int \<Rightarrow> et_shm \<Rightarrow> int" where
  "events_owned a s = int (length (filter (\<lambda>p. owner (events s p) = a) [0..<nat (nevents_max s)]))"

text \<open>\<^verbatim>\<open>strlen + 1\<close>\<close>

definition text_len :: "string \<Rightarrow> int" where
  "text_len t = int (Suc (length t))"

definition sys_ints :: "et_id \<Rightarrow> et_shm \<Rightarrow> i32 list" where
  "sys_ints e s =
    (let y = sys s; c = sys_config y in
     [w32 (alive e), heartbeat y, w32 (ntemps y), w32 (nstations y), w32 (nattachments y), w32 (nprocesses y),
      w32 (events_owned ET_SYS s),
      w32 (test_mutex (sys_mutex y)), w32 (test_mutex (stat_mutex y)), w32 (test_mutex (statadd_mutex y)),
      w32 (id_endian e), w32 (id_share e), w32 (mainpid y), w32 (sys_nselects y), w32 (c_nevents c),
      ET_HIGHINT (event_size c), ET_LOWINT (event_size c), w32 (id_bit64 e),
      w32 (c_ntemps c), w32 (c_nstations c), w32 (c_nattachments c), w32 (c_nprocesses c),
      w32 (sys_port y), w32 (c_port c), w32 (c_port c),
      w32 (int (length (netinfo c))), w32 (int (length (mcastaddrs c)))])"

definition sys_texts :: "et_shm \<Rightarrow> string list" where
  "sys_texts s = (let c = sys_config (sys s) in netinfo c @ mcastaddrs c @ [c_filename c])"

definition et_data_sys :: "et_id \<Rightarrow> bool \<Rightarrow> et_shm \<Rightarrow> (int \<times> byte list) option" where
  "et_data_sys e mem s =
    (let ints = sys_ints e s @ map (\<lambda>t. w32 (text_len t)) (sys_texts s) in
     if length ints > 28 + 2 * CODA_MAXADDRESSES then None
     else if \<not> mem then Some (ET_ERROR, [])
     else Some (ET_OK, words_bytes ints @ concat (map text_bytes (sys_texts s))))"

text \<open>The texts whose lengths are at the places \<open>is\<close> of \<open>lens\<close>, each into an array of \<open>cap\<close> characters.\<close>

fun read_texts :: "nat \<Rightarrow> i32 list \<Rightarrow> int list \<Rightarrow> string list reader" where
  "read_texts cap lens [] bs = Some ([], bs)"
| "read_texts cap lens (i # is) bs =
    (if i < 0 \<or> nat i \<ge> length lens then None
     else do {
       (t, bs) \<leftarrow> read_text cap (sint (lens ! nat i)) bs;
       (ts, bs) \<leftarrow> read_texts cap lens is bs;
       Some (t # ts, bs) })"

definition et_data_getsys :: "et_sysdata reader" where
  "et_data_getsys bs = do {
     (ints, bs) \<leftarrow> read_words 27 bs;
     let ifcount = sint (ints ! 25);
     let mcount = sint (ints ! 26);
     if ifcount + mcount + 1 < 0 \<or> ifcount + mcount + 1 > 2 * int CODA_MAXADDRESSES + 1 \<or>
        ifcount > int CODA_MAXADDRESSES \<or> mcount > int CODA_MAXADDRESSES then None
     else do {
       (lens, bs) \<leftarrow> read_words (nat (ifcount + mcount + 1)) bs;
       (ifs, bs) \<leftarrow> read_texts ET_IPADDRSTRLEN lens (map int [0..<nat ifcount]) bs;
       (mcs, bs) \<leftarrow> read_texts ET_IPADDRSTRLEN lens (map (\<lambda>i. int i + ifcount) [0..<nat mcount]) bs;
       (fn, bs) \<leftarrow> read_texts ET_FILENAME_LENGTH lens [ifcount + mcount] bs;
       Some (\<lparr>sd_alive = sint (ints ! 0), sd_heartbeat = sint (ints ! 1), sd_mutex = sint (ints ! 7),
         sd_stat_mutex = sint (ints ! 8), sd_statadd_mutex = sint (ints ! 9), sd_ntemps = sint (ints ! 2),
         sd_nstations = sint (ints ! 3), sd_nattachments = sint (ints ! 4), sd_nprocesses = sint (ints ! 5),
         sd_events_owned = sint (ints ! 6), sd_endian = sint (ints ! 10), sd_share = sint (ints ! 11),
         sd_mainpid = sint (ints ! 12), sd_nselects = sint (ints ! 13), sd_nevents = sint (ints ! 14),
         sd_bit64 = sint (ints ! 17), sd_event_size = ET_64BIT_UINT (ints ! 15) (ints ! 16),
         sd_ntemps_max = sint (ints ! 18), sd_nstations_max = sint (ints ! 19),
         sd_nattachments_max = sint (ints ! 20), sd_nprocesses_max = sint (ints ! 21),
         sd_tcp_port = sint (ints ! 22), sd_udp_port = sint (ints ! 23), sd_multi_port = sint (ints ! 24),
         sd_ifaddrs = ifs, sd_mcastaddrs = mcs, sd_filename = hd fn\<rparr>, bs) } }"

section \<open>The stations\<close>

abbreviation (input) ET_STATION_PARALLEL_HEAD :: int where "ET_STATION_PARALLEL_HEAD \<equiv> 2"

text \<open>The first pass: the stations in the lists.\<close>

fun count_parallel :: "nat \<Rightarrow> et_shm \<Rightarrow> nat \<Rightarrow> nat option" where
  "count_parallel 0 s n = None"
| "count_parallel (Suc k) s n =
    (if nextparallel (stats s n) > - 1 then do {
       x \<leftarrow> st_ix s (nextparallel (stats s n));
       c \<leftarrow> count_parallel k s x;
       Some (Suc c) }
     else Some 0)"

fun count_stats :: "nat \<Rightarrow> et_shm \<Rightarrow> nat \<Rightarrow> nat option" where
  "count_stats 0 s n = None"
| "count_stats (Suc k) s n = do {
     c \<leftarrow> if is_parallel s n then count_parallel (nat (c_nstations (sys_config (sys s)))) s n else Some 0;
     if st_next (stats s n) < 0 then Some (Suc c)
     else do {
       x \<leftarrow> st_ix s (st_next (stats s n));
       d \<leftarrow> count_stats k s x;
       Some (Suc c + d) } }"

text \<open>One station in the buffer; \<open>ph\<close> is \<^verbatim>\<open>parallelHead\<close>.\<close>

definition st_atts :: "et_station \<Rightarrow> int list" where
  "st_atts ps = filter (\<lambda>a. \<not> a < 0) (map (st_att (st_data ps)) [0..<nat ET_ATTACHMENTS_MAX])"

definition flow_shown :: "bool \<Rightarrow> et_station \<Rightarrow> int" where
  "flow_shown ph ps =
    (if flow_mode (config ps) = ET_STATION_PARALLEL \<and> ph then ET_STATION_PARALLEL_HEAD else flow_mode (config ps))"

definition stat_texts :: "et_station \<Rightarrow> string list" where
  "stat_texts ps = [fname (config ps), sc_lib (config ps), classs (config ps), name ps]"

definition stat_rest :: "bool \<Rightarrow> et_station \<Rightarrow> i32 list" where
  "stat_rest ph ps =
    (let c = config ps; li = list_in ps; lo = list_out ps in
     [w32 (test_mutex (mutex li)), w32 (cnt li), ET_HIGHINT (events_try li), ET_LOWINT (events_try li),
      ET_HIGHINT (events_in li), ET_LOWINT (events_in li), w32 (test_mutex (mutex lo)), w32 (cnt lo),
      ET_HIGHINT (events_out lo), ET_LOWINT (events_out lo), w32 (flow_shown ph ps), w32 (user_mode c),
      w32 (restore_mode c), w32 (block_mode c), w32 (prescale c), w32 (cue c), w32 (select_mode c)]
     @ take ET_STATION_SELECT_INTS (sc_select c)
     @ map (\<lambda>t. w32 (text_len t)) (stat_texts ps))"

definition stat_ints :: "bool \<Rightarrow> et_station \<Rightarrow> i32 list" where
  "stat_ints ph ps =
    [w32 (int (length (st_atts ps))), w32 (num ps), w32 (status (st_data ps)), w32 (test_mutex (st_mutex ps))]
    @ map (\<lambda>a. w32 a) (st_atts ps) @ stat_rest ph ps"

definition stat_bytes :: "bool \<Rightarrow> et_station \<Rightarrow> byte list" where
  "stat_bytes ph ps = words_bytes (stat_ints ph ps) @ concat (map text_bytes (stat_texts ps))"

text \<open>
  The second pass: at most as many stations as were counted. \<open>n\<close> is the station to send, \<open>m\<close> the one of the
  main list whose group it is in. The result is the number of stations sent and their bytes.
\<close>

fun send_stats :: "nat \<Rightarrow> et_shm \<Rightarrow> nat \<Rightarrow> nat \<Rightarrow> bool \<Rightarrow> (nat \<times> byte list) option" where
  "send_stats 0 s m n ph = Some (0, [])"
| "send_stats (Suc k) s m n ph =
    (let bs = stat_bytes ph (stats s n) in
     if is_parallel s n \<and> nextparallel (stats s n) > - 1 then do {
       x \<leftarrow> st_ix s (nextparallel (stats s n));
       (c, bs') \<leftarrow> send_stats k s m x False;
       Some (Suc c, bs @ bs') }
     else if st_next (stats s m) < 0 then Some (1, bs)
     else do {
       x \<leftarrow> st_ix s (st_next (stats s m));
       (c, bs') \<leftarrow> send_stats k s x x (is_parallel s n \<or> ph);
       Some (Suc c, bs @ bs') })"

definition stats_bufsize :: "nat \<Rightarrow> nat" where
  "stats_bufsize n =
    4 + n * (4 * (25 + nat ET_ATTACHMENTS_MAX + ET_STATION_SELECT_INTS) + ET_FUNCNAME_LENGTH +
             ET_FILENAME_LENGTH + ET_STATNAME_LENGTH)"

definition et_data_stats :: "bool \<Rightarrow> et_shm \<Rightarrow> et_shm \<Rightarrow> (int \<times> byte list) option" where
  "et_data_stats mem s0 s = do {
     count1 \<leftarrow> count_stats (nat (c_nstations (sys_config (sys s0)))) s0 0;
     if \<not> mem then Some (ET_ERROR, [])
     else do {
       (count2, bs) \<leftarrow> send_stats count1 s 0 0 True;
       if 4 + length bs > stats_bufsize count1 then None
       else Some (ET_OK, net_bytes (w32 (int count2)) @ bs) } }"

text \<open>The array of attachments of a station or a process from the list of their numbers.\<close>

fun put_atts :: "i32 list \<Rightarrow> (nat \<Rightarrow> int) \<Rightarrow> (nat \<Rightarrow> int) option" where
  "put_atts [] f = Some f"
| "put_atts (w # ws) f =
    (if sint w < 0 \<or> sint w \<ge> ET_ATTACHMENTS_MAX then None else put_atts ws (f(nat (sint w) := sint w)))"

definition et_data_getstat1 :: "et_statdata reader" where
  "et_data_getstat1 bs = do {
     (w, bs) \<leftarrow> read_int bs;
     let natts = sint w;
     if natts < - 3 \<or> natts > ET_ATTACHMENTS_MAX then None
     else do {
       (ints, bs) \<leftarrow> read_words (nat (24 + int ET_STATION_SELECT_INTS + natts)) bs;
       att \<leftarrow> put_atts (map (\<lambda>j. ints ! (3 + j)) [0..<nat natts]) (\<lambda>_. - 1);
       let zs = drop (nat (3 + natts)) ints;
       (t1, bs) \<leftarrow> read_text ET_FUNCNAME_LENGTH (sint (zs ! 23)) bs;
       (t2, bs) \<leftarrow> read_text ET_FILENAME_LENGTH (sint (zs ! 24)) bs;
       (t3, bs) \<leftarrow> read_text ET_FILENAME_LENGTH (sint (zs ! 25)) bs;
       (t4, bs) \<leftarrow> read_text ET_STATNAME_LENGTH (sint (zs ! 26)) bs;
       Some (\<lparr>td_num = sint (ints ! 0), td_status = sint (ints ! 1), td_mutex = sint (ints ! 2),
         td_nattachments = natts, td_att = att,
         td_inlist_mutex = sint (zs ! 0), td_inlist_cnt = sint (zs ! 1),
         td_inlist_try = ET_64BIT_UINT (zs ! 2) (zs ! 3),
         td_inlist_in = ET_64BIT_UINT (zs ! 4) (zs ! 5),
         td_outlist_mutex = sint (zs ! 6), td_outlist_cnt = sint (zs ! 7),
         td_outlist_out = ET_64BIT_UINT (zs ! 8) (zs ! 9),
         td_flow_mode = sint (zs ! 10), td_user_mode = sint (zs ! 11),
         td_restore_mode = sint (zs ! 12), td_block_mode = sint (zs ! 13),
         td_prescale = sint (zs ! 14), td_cue = sint (zs ! 15), td_select_mode = sint (zs ! 16),
         td_select = map (\<lambda>j. zs ! (17 + j)) [0..<ET_STATION_SELECT_INTS],
         td_fname = t1, td_lib = t2, td_classs = t3, td_name = t4\<rparr>, bs) } }"

text \<open>An array of \<open>n\<close> records.\<close>

fun read_array :: "'a reader \<Rightarrow> nat \<Rightarrow> 'a list reader" where
  "read_array r 0 bs = Some ([], bs)"
| "read_array r (Suc n) bs = do { (x, bs) \<leftarrow> r bs; (xs, bs) \<leftarrow> read_array r n bs; Some (x # xs, bs) }"

definition et_data_getstat :: "int \<Rightarrow> et_statdata list reader" where
  "et_data_getstat m = read_array et_data_getstat1 (nat m)"

section \<open>The attachments\<close>

definition in_use_atts :: "et_shm \<Rightarrow> nat list" where
  "in_use_atts s =
    filter (\<lambda>i. at_status (attach (sys s) i) \<noteq> ET_ATT_UNUSED) [0..<nat (c_nattachments (sys_config (sys s)))]"

definition att_texts :: "et_shm \<Rightarrow> nat \<Rightarrow> string list" where
  "att_texts s i =
    (let a = attach (sys s) i in [host a, name (stats s (nat (at_stat a))), interface a])"

definition att_ints :: "et_shm \<Rightarrow> nat \<Rightarrow> i32 list" where
  "att_ints s i =
    (let a = attach (sys s) i in
     [w32 (at_num a), w32 (at_proc a), w32 (at_stat a), w32 (at_pid a), w32 (blocked a), w32 (quit a),
      w32 (events_owned (at_num a) s),
      ET_HIGHINT (events_put a), ET_LOWINT (events_put a), ET_HIGHINT (events_get a), ET_LOWINT (events_get a),
      ET_HIGHINT (events_dump a), ET_LOWINT (events_dump a), ET_HIGHINT (events_make a), ET_LOWINT (events_make a)]
     @ map (\<lambda>t. w32 (text_len t)) (att_texts s i))"

definition att_bytes :: "et_shm \<Rightarrow> nat \<Rightarrow> byte list option" where
  "att_bytes s i = do {
     n \<leftarrow> st_ix s (at_stat (attach (sys s) i));
     Some (words_bytes (att_ints s i) @ concat (map text_bytes (att_texts s i))) }"

fun send_atts :: "et_shm \<Rightarrow> nat list \<Rightarrow> byte list option" where
  "send_atts s [] = Some []"
| "send_atts s (i # is) = do { b \<leftarrow> att_bytes s i; bs \<leftarrow> send_atts s is; Some (b @ bs) }"

definition atts_bufsize :: "nat \<Rightarrow> nat" where
  "atts_bufsize n = 4 + n * (4 * 18 + ET_MAXHOSTNAMELEN + ET_STATNAME_LENGTH)"

definition et_data_atts :: "bool \<Rightarrow> et_shm \<Rightarrow> et_shm \<Rightarrow> (int \<times> byte list) option" where
  "et_data_atts mem s0 s =
    (let count1 = length (in_use_atts s0); sent = take count1 (in_use_atts s) in
     if \<not> mem then Some (ET_ERROR, [])
     else do {
       bs \<leftarrow> send_atts s sent;
       if 4 + length bs > atts_bufsize count1 then None
       else Some (ET_OK, net_bytes (w32 (int (length sent))) @ bs) })"

definition et_data_getatt1 :: "et_attdata reader" where
  "et_data_getatt1 bs = do {
     (ints, bs) \<leftarrow> read_words 18 bs;
     (t1, bs) \<leftarrow> read_text ET_MAXHOSTNAMELEN (sint (ints ! 15)) bs;
     (t2, bs) \<leftarrow> read_text ET_STATNAME_LENGTH (sint (ints ! 16)) bs;
     (t3, bs) \<leftarrow> read_text ET_IPADDRSTRLEN (sint (ints ! 17)) bs;
     Some (\<lparr>ad_num = sint (ints ! 0), ad_proc = sint (ints ! 1), ad_stat = sint (ints ! 2), ad_pid = sint (ints ! 3),
       ad_blocked = sint (ints ! 4), ad_quit = sint (ints ! 5), ad_owned = sint (ints ! 6),
       ad_events_put = ET_64BIT_UINT (ints ! 7) (ints ! 8), ad_events_get = ET_64BIT_UINT (ints ! 9) (ints ! 10),
       ad_events_dump = ET_64BIT_UINT (ints ! 11) (ints ! 12), ad_events_make = ET_64BIT_UINT (ints ! 13) (ints ! 14),
       ad_host = t1, ad_station = t2, ad_interface = t3\<rparr>, bs) }"

definition et_data_getatt :: "int \<Rightarrow> et_attdata list reader" where
  "et_data_getatt m = read_array et_data_getatt1 (nat m)"

section \<open>The processes\<close>

definition open_procs :: "et_shm \<Rightarrow> nat list" where
  "open_procs s =
    filter (\<lambda>i. pr_status (proc (sys s) i) = ET_PROC_OPEN) [0..<nat (c_nprocesses (sys_config (sys s)))]"

definition pr_atts :: "et_proc \<Rightarrow> int list" where
  "pr_atts p = filter (\<lambda>a. \<not> a < 0) (map (pr_att p) [0..<nat ET_ATTACHMENTS_MAX])"

definition proc_bytes :: "et_proc \<Rightarrow> byte list" where
  "proc_bytes p = words_bytes ([w32 (int (length (pr_atts p))), w32 (pr_num p), pr_heartbeat p, w32 (pr_pid p)]
     @ map (\<lambda>a. w32 a) (pr_atts p))"

definition procs_bufsize :: "nat \<Rightarrow> nat" where
  "procs_bufsize n = 4 + n * (4 * (4 + nat ET_ATTACHMENTS_MAX))"

definition et_data_procs :: "bool \<Rightarrow> et_shm \<Rightarrow> et_shm \<Rightarrow> (int \<times> byte list) option" where
  "et_data_procs mem s0 s =
    (let count1 = length (open_procs s0); sent = take count1 (open_procs s);
         bs = concat (map (\<lambda>i. proc_bytes (proc (sys s) i)) sent) in
     if \<not> mem then Some (ET_ERROR, [])
     else if 4 + length bs > procs_bufsize count1 then None
     else Some (ET_OK, net_bytes (w32 (int (length sent))) @ bs))"

definition et_data_getproc1 :: "et_procdata reader" where
  "et_data_getproc1 bs = do {
     (w, bs) \<leftarrow> read_int bs;
     let natts = sint w;
     if natts < 0 \<or> natts > ET_ATTACHMENTS_MAX then None
     else do {
       (ints, bs) \<leftarrow> read_words (nat (3 + natts)) bs;
       att \<leftarrow> put_atts (map (\<lambda>j. ints ! (3 + j)) [0..<nat natts]) (\<lambda>_. - 1);
       Some (\<lparr>pd_num = sint (ints ! 0), pd_heartbeat = sint (ints ! 1), pd_pid = sint (ints ! 2),
         pd_nattachments = natts, pd_att = att\<rparr>, bs) } }"

definition et_data_getproc :: "int \<Rightarrow> et_procdata list reader" where
  "et_data_getproc m = read_array et_data_getproc1 (nat m)"

section \<open>The exchange\<close>

text \<open>
  The reply of \<^verbatim>\<open>et_server.c\<close> to the command \<^verbatim>\<open>ET_NET_SYS_DATA\<close>: an error, or the size of the data and
  the data. The states \<open>ss 0\<close> to \<open>ss 6\<close> are those the routines find one after the other; \<open>mem\<close> is the success of
  the four allocations.
\<close>

definition send_sys_data :: "et_id \<Rightarrow> (nat \<Rightarrow> bool) \<Rightarrow> (nat \<Rightarrow> et_shm) \<Rightarrow> byte list option" where
  "send_sys_data e mem ss = do {
     (r1, b1) \<leftarrow> et_data_sys e (mem 0) (ss 0);
     if r1 \<noteq> ET_OK then Some (net_bytes (w32 ET_ERROR))
     else do {
       (r2, b2) \<leftarrow> et_data_stats (mem 1) (ss 1) (ss 2);
       if r2 \<noteq> ET_OK then Some (net_bytes (w32 ET_ERROR))
       else do {
         (r3, b3) \<leftarrow> et_data_atts (mem 2) (ss 3) (ss 4);
         if r3 \<noteq> ET_OK then Some (net_bytes (w32 ET_ERROR))
         else do {
           (r4, b4) \<leftarrow> et_data_procs (mem 3) (ss 5) (ss 6);
           if r4 \<noteq> ET_OK then Some (net_bytes (w32 ET_ERROR))
           else let bs = b1 @ b2 @ b3 @ b4 in
             Some (net_bytes (w32 ET_OK) @ net_bytes (w32 (int (length bs))) @ bs) } } } }"

record et_alldata =
  all_sysdata :: et_sysdata
  all_statdata :: "et_statdata list"
  all_attdata :: "et_attdata list"
  all_procdata :: "et_procdata list"

text \<open>
  The client, on the bytes of the reply; \<open>Inl\<close> is an error code. A reply that is cut off is \<^verbatim>\<open>ET_ERROR_READ\<close>,
  \<open>mem\<close> is the success of its allocations.
\<close>

definition et_data_get :: "(nat \<Rightarrow> bool) \<Rightarrow> byte list \<Rightarrow> (int + et_alldata) option" where
  "et_data_get mem bs =
    (case read_int bs of None \<Rightarrow> Some (Inl ET_ERROR_READ)
     | Some (err, bs) \<Rightarrow>
       if sint err \<noteq> ET_OK then Some (Inl (sint err))
       else case read_int bs of None \<Rightarrow> Some (Inl ET_ERROR_READ)
       | Some (sz, bs) \<Rightarrow>
         if \<not> mem 0 then Some (Inl ET_ERROR)
         else if sint sz < 0 \<or> nat (sint sz) > length bs then Some (Inl ET_ERROR_READ)
         else if \<not> mem 1 then Some (Inl ET_ERROR)
         else do {
           let bs = take (nat (sint sz)) bs;
           (y, bs) \<leftarrow> et_data_getsys bs;
           (n, bs) \<leftarrow> read_int bs;
           if \<not> mem 2 then Some (Inl ET_ERROR)
           else do {
             (ts, bs) \<leftarrow> et_data_getstat (sint n) bs;
             (n, bs) \<leftarrow> read_int bs;
             if \<not> mem 3 then Some (Inl ET_ERROR)
             else do {
               (as, bs) \<leftarrow> et_data_getatt (sint n) bs;
               (n, bs) \<leftarrow> read_int bs;
               if \<not> mem 4 then Some (Inl ET_ERROR)
               else do {
                 (ps, bs) \<leftarrow> et_data_getproc (sint n) bs;
                 Some (Inr \<lparr>all_sysdata = y, all_statdata = ts, all_attdata = as, all_procdata = ps\<rparr>) } } } })"

section \<open>The histogram\<close>

text \<open>
  \<^verbatim>\<open>et_data_gethistogram\<close>; \<open>nn\<close> says that the array is given, \<open>old\<close> is its content, \<open>size\<close> elements. The
  remote version is \<open>etr\<close>.
\<close>

definition et_data_gethistogram ::
  "et_id \<Rightarrow> (int \<times> int list) option \<Rightarrow> bool \<Rightarrow> int list \<Rightarrow> int \<Rightarrow> et_shm \<Rightarrow> (int \<times> int list) option" where
  "et_data_gethistogram e etr nn old sz s =
    (if \<not> nn then Some (ET_ERROR, old)
     else if sz < 1 then Some (ET_ERROR, old)
     else if locality e = ET_REMOTE then etr
     else let m = min sz (id_nevents e + 1) in
       if nat m > length old then None
       else Some (ET_OK, map (histogram s) [0..<nat m] @ drop (nat m) old))"

text \<open>
  The reply of the server, whose array holds the error and the histogram of \<open>nevents + 1\<close> numbers, and its client, which reads
  as many numbers as the system sends whatever the size of its own array \<open>old\<close>, and then takes the first \<open>sz\<close> of the array
  out of network byte order. \<open>raw_int\<close> is an integer in network byte order as the host sees it.
\<close>

definition send_histogram :: "et_id \<Rightarrow> et_shm \<Rightarrow> byte list option" where
  "send_histogram e s = do {
     (err, h) \<leftarrow> et_data_gethistogram e None True (replicate (nat (id_nevents e + 1)) 0) (id_nevents e + 1) s;
     Some (if err \<noteq> ET_OK then net_bytes (w32 err) else words_bytes (w32 err # map (\<lambda>i. w32 i) h)) }"

definition raw_int :: "et_id \<Rightarrow> int \<Rightarrow> int" where
  "raw_int e i = (if id_endian e = ET_ENDIAN_BIG then i
     else case read_int (rev (net_bytes (w32 i))) of None \<Rightarrow> i | Some (w, _) \<Rightarrow> sint w)"

definition etr_data_gethistogram :: "et_id \<Rightarrow> byte list \<Rightarrow> int list \<Rightarrow> int \<Rightarrow> (int \<times> int list) option" where
  "etr_data_gethistogram e bs old sz =
    (case read_int bs of None \<Rightarrow> Some (ET_ERROR_READ, old)
     | Some (err, bs) \<Rightarrow>
       if sint err \<noteq> ET_OK then Some (sint err, old)
       else if id_nevents e + 1 > int (length old) \<or> sz > int (length old) then None
       else case read_words (nat (id_nevents e + 1)) bs of None \<Rightarrow> Some (ET_ERROR_READ, old)
       | Some (ws, bs) \<Rightarrow>
         let hist = map (\<lambda>w. raw_int e (sint w)) ws @ drop (length ws) old in
         Some (ET_OK, map (raw_int e) (take (nat sz) hist) @ drop (nat sz) hist))"

end
