(* ===== verification/EtDataView.thy ===== *)
theory EtDataView imports EtData begin

text \<open>
  What a remote monitor sees of a system: the views of \<^verbatim>\<open>et_data.h\<close> as they are to be, and the proof that
  unpacking what was packed gives them, provided the integers fit into 32 bits and the texts into the arrays of
  the receiver.
\<close>

section \<open>The system\<close>

definition sys_view :: "et_id \<Rightarrow> et_shm \<Rightarrow> et_sysdata" where
  "sys_view e s = (let y = sys s; c = sys_config y in
    \<lparr>sd_alive = alive e, sd_heartbeat = sint (heartbeat y), sd_mutex = test_mutex (sys_mutex y),
     sd_stat_mutex = test_mutex (stat_mutex y), sd_statadd_mutex = test_mutex (statadd_mutex y),
     sd_ntemps = ntemps y, sd_nstations = nstations y, sd_nattachments = nattachments y,
     sd_nprocesses = nprocesses y, sd_events_owned = events_owned ET_SYS s, sd_endian = id_endian e,
     sd_share = id_share e, sd_mainpid = mainpid y, sd_nselects = sys_nselects y, sd_nevents = c_nevents c,
     sd_bit64 = id_bit64 e, sd_event_size = event_size c, sd_ntemps_max = c_ntemps c,
     sd_nstations_max = c_nstations c, sd_nattachments_max = c_nattachments c, sd_nprocesses_max = c_nprocesses c,
     sd_tcp_port = sys_port y, sd_udp_port = c_port c, sd_multi_port = c_port c,
     sd_ifaddrs = netinfo c, sd_mcastaddrs = mcastaddrs c, sd_filename = c_filename c\<rparr>)"

definition sys_sendable :: "et_id \<Rightarrow> et_shm \<Rightarrow> bool" where
  "sys_sendable e s \<longleftrightarrow> (let y = sys s; c = sys_config y in
     (\<forall>i\<in>{alive e, ntemps y, nstations y, nattachments y, nprocesses y, id_endian e, id_share e, mainpid y,
          sys_nselects y, c_nevents c, id_bit64 e, c_ntemps c, c_nstations c, c_nattachments c, c_nprocesses c,
          sys_port y, c_port c}. fits32 i) \<and>
     length (netinfo c) \<le> CODA_MAXADDRESSES \<and> length (mcastaddrs c) \<le> CODA_MAXADDRESSES \<and>
     (\<forall>t\<in>set (netinfo c) \<union> set (mcastaddrs c). c_text ET_IPADDRSTRLEN t) \<and>
     c_text ET_FILENAME_LENGTH (c_filename c))"

lemma fits_small: "0 \<le> i \<Longrightarrow> i < 2 ^ 31 \<Longrightarrow> fits32 i"
  by (simp add: fits32_def)

lemma test_mutex_fits [simp]: "fits32 (test_mutex m)"
  by (simp add: test_mutex_def fits32_def)

lemma events_owned_fits: "fits32 (nevents_max s) \<Longrightarrow> fits32 (events_owned a s)"
proof -
  assume "fits32 (nevents_max s)"
  moreover have "length (filter (\<lambda>p. owner (events s p) = a) [0..<nat (nevents_max s)]) \<le> nat (nevents_max s)"
    using length_filter_le[of "\<lambda>p. owner (events s p) = a" "[0..<nat (nevents_max s)]"] by simp
  ultimately show ?thesis unfolding events_owned_def fits32_def by linarith
qed

lemma text_len_fits: "c_text cap t \<Longrightarrow> cap < 2 ^ 31 \<Longrightarrow> fits32 (text_len t)"
  by (auto simp: c_text_def text_len_def fits32_def)

lemma read_texts_bytes:
  assumes "\<forall>t\<in>set ts. c_text cap t" "cap < 2 ^ 31"
    and "lens = map (\<lambda>t. w32 (text_len t)) (as @ ts @ zs)" "n = length as" "m = n + length ts"
  shows "read_texts cap lens (map int [n..<m]) (concat (map text_bytes ts) @ bs) = Some (ts, bs)"
  using assms
proof (induction ts arbitrary: as n)
  case (Cons t ts)
  have t: "c_text cap t" using Cons.prems(1) by simp
  have u: "[n..<m] = n # [Suc n..<m]" using Cons.prems(5) by (intro upt_conv_Cons) simp
  have l: "n < length lens" "lens ! n = w32 (text_len t)"
    using Cons.prems(3,4) by (simp_all add: nth_append)
  have r: "read_text cap (text_len t) (text_bytes t @ concat (map text_bytes ts) @ bs) = Some (t, concat (map text_bytes ts) @ bs)"
    by (rule read_text_bytes[OF t]) (simp add: text_len_def)
  have "read_texts cap lens (map int [Suc n..<m]) (concat (map text_bytes ts) @ bs) = Some (ts, bs)"
    by (rule Cons.IH[of "as @ [t]"]) (use Cons.prems in simp_all)
  then show ?case using l r text_len_fits[OF t Cons.prems(2)] by (simp add: u)
qed simp

lemma map_int_shift: "map (\<lambda>i. int i + int n) [0..<m] = map int [n..<n + m]"
  by (rule nth_equalityI) auto

lemma getsys_ok:
  assumes v: "sys_sendable e s"
  shows "\<exists>bs. et_data_sys e True s = Some (ET_OK, bs) \<and> (\<forall>rest. et_data_getsys (bs @ rest) = Some (sys_view e s, rest))"
proof -
  define c where "c = sys_config (sys s)"
  define ts where "ts = sys_texts s"
  define lens where "lens = map (\<lambda>t. w32 (text_len t)) ts"
  have ts: "ts = netinfo c @ mcastaddrs c @ [c_filename c]" by (simp add: ts_def sys_texts_def c_def Let_def)
  have n: "length (netinfo c) \<le> 10" "length (mcastaddrs c) \<le> 10" and t: "\<forall>t\<in>set (netinfo c). c_text 16 t"
      "\<forall>t\<in>set (mcastaddrs c). c_text 16 t" "c_text 100 (c_filename c)"
    using v by (auto simp: sys_sendable_def c_def Let_def)
  have len: "length (sys_ints e s) = 27" by (simp add: sys_ints_def Let_def)
  have i: "sint (sys_ints e s ! 25) = int (length (netinfo c))" "sint (sys_ints e s ! 26) = int (length (mcastaddrs c))"
    using n by (simp_all add: sys_ints_def c_def Let_def fits_small)
  have s1: "et_data_sys e True s = Some (ET_OK, words_bytes (sys_ints e s @ lens) @ concat (map text_bytes ts))"
    using n by (simp add: et_data_sys_def Let_def len lens_def ts_def[symmetric]) (simp add: ts)
  have "et_data_getsys ((words_bytes (sys_ints e s @ lens) @ concat (map text_bytes ts)) @ rest) = Some (sys_view e s, rest)" for rest
  proof -
    have r1: "read_words 27 (words_bytes (sys_ints e s) @ bs) = Some (sys_ints e s, bs)" for bs
      by (rule read_words_bytes_n) (simp add: len)
    have r2: "read_words (nat (int (length (netinfo c)) + int (length (mcastaddrs c)) + 1)) (words_bytes lens @ bs) = Some (lens, bs)" for bs
      by (rule read_words_bytes_n) (simp add: lens_def ts nat_add_distrib)
    have r3: "read_texts 16 lens (map int [0..<length (netinfo c)]) (concat (map text_bytes (netinfo c)) @ bs) = Some (netinfo c, bs)" for bs
      by (rule read_texts_bytes[of _ _ _ "[]" "mcastaddrs c @ [c_filename c]"]) (use t in \<open>simp_all add: lens_def ts\<close>)
    have r4: "read_texts 16 lens (map (\<lambda>i. int i + int (length (netinfo c))) [0..<length (mcastaddrs c)])
        (concat (map text_bytes (mcastaddrs c)) @ bs) = Some (mcastaddrs c, bs)" for bs
      unfolding map_int_shift
      by (rule read_texts_bytes[of _ _ _ "netinfo c" "[c_filename c]"]) (use t in \<open>simp_all add: lens_def ts\<close>)
    have r5: "read_texts 100 lens (map int [length (netinfo c) + length (mcastaddrs c)..<Suc (length (netinfo c) + length (mcastaddrs c))])
        (concat (map text_bytes [c_filename c]) @ bs) = Some ([c_filename c], bs)" for bs
      by (rule read_texts_bytes[of _ _ _ "netinfo c @ mcastaddrs c" "[]"]) (use t in \<open>simp_all add: lens_def ts\<close>)
    have e: "concat (map text_bytes ts) @ rest = concat (map text_bytes (netinfo c)) @ concat (map text_bytes (mcastaddrs c)) @
        concat (map text_bytes [c_filename c]) @ rest" by (simp add: ts)
    have f: "fits32 (events_owned ET_SYS s)" using v by (intro events_owned_fits) (simp add: sys_sendable_def Let_def)
    show ?thesis
      unfolding et_data_getsys_def append_assoc words_bytes_simps(3) r1 e
      using n v f
      by (simp add: i r2 r3 r4 r5[simplified]) (simp add: sys_view_def sys_ints_def sys_sendable_def Let_def c_def)
  qed
  then show ?thesis using s1 by blast
qed

section \<open>Arrays\<close>

lemma read_array_ok:
  assumes "\<forall>x\<in>set xs. \<forall>bs. r (f x @ bs) = Some (g x, bs)"
  shows "read_array r (length xs) (concat (map f xs) @ bs) = Some (map g xs, bs)"
  using assms by (induction xs) simp_all

text \<open>
  An array of attachments as the receiver has it. The entry of an attachment is its own number or negative.
\<close>

definition att_shown :: "(nat \<Rightarrow> int) \<Rightarrow> nat \<Rightarrow> int" where
  "att_shown f j = (if j < nat ET_ATTACHMENTS_MAX \<and> \<not> f j < 0 then f j else - 1)"

definition atts_ok :: "(nat \<Rightarrow> int) \<Rightarrow> bool" where
  "atts_ok f \<longleftrightarrow> (\<forall>j<nat ET_ATTACHMENTS_MAX. f j < 0 \<or> f j = int j)"

abbreviation (input) att_list :: "(nat \<Rightarrow> int) \<Rightarrow> int list" where
  "att_list f \<equiv> filter (\<lambda>a. \<not> a < 0) (map f [0..<nat ET_ATTACHMENTS_MAX])"

lemma put_atts_list:
  assumes "\<forall>j\<in>set js. j < 110 \<and> (f j < 0 \<or> f j = int j)"
  shows "put_atts (map (\<lambda>a. w32 a) (filter (\<lambda>a. \<not> a < 0) (map f js))) g =
    Some (\<lambda>j. if j \<in> set js \<and> \<not> f j < 0 then f j else g j)"
  using assms
proof (induction js arbitrary: g)
  case (Cons j js)
  show ?case
  proof (cases "f j < 0")
    case True
    then have "(if i \<in> set js \<and> \<not> f i < 0 then f i else g i) = (if i \<in> set (j # js) \<and> \<not> f i < 0 then f i else g i)" for i
      by auto
    then show ?thesis using True Cons by simp
  next
    case False
    then have f: "f j = int j" "j < 110" using Cons.prems by auto
    have "(if i \<in> set js \<and> \<not> f i < 0 then f i else (g(j := int j)) i) = (if i \<in> set (j # js) \<and> \<not> f i < 0 then f i else g i)" for i
      using f by auto
    then show ?thesis using False f Cons by simp
  qed
qed simp

lemma put_atts_ok: "atts_ok f \<Longrightarrow> put_atts (map (\<lambda>a. w32 a) (att_list f)) (\<lambda>_. - 1) = Some (att_shown f)"
  using put_atts_list[of "[0..<nat ET_ATTACHMENTS_MAX]" f "\<lambda>_. - 1"]
  by (simp add: atts_ok_def att_shown_def[abs_def])

lemma att_list_length: "length (att_list f) \<le> 110"
  using length_filter_le[of "\<lambda>a. \<not> a < 0" "map f [0..<nat ET_ATTACHMENTS_MAX]"] by simp

lemma nth_segment: "map (\<lambda>j. (as @ xs @ zs) ! (length as + j)) [0..<length xs] = xs"
  by (rule nth_equalityI) (simp_all add: nth_append)

section \<open>The stations\<close>

definition stat_view :: "bool \<Rightarrow> et_station \<Rightarrow> et_statdata" where
  "stat_view ph ps = (let c = config ps; li = list_in ps; lo = list_out ps in
    \<lparr>td_num = num ps, td_status = status (st_data ps), td_mutex = test_mutex (st_mutex ps),
     td_nattachments = int (length (st_atts ps)), td_att = att_shown (st_att (st_data ps)),
     td_inlist_mutex = test_mutex (mutex li), td_inlist_cnt = cnt li, td_inlist_try = events_try li,
     td_inlist_in = events_in li, td_outlist_mutex = test_mutex (mutex lo), td_outlist_cnt = cnt lo,
     td_outlist_out = events_out lo, td_flow_mode = flow_shown ph ps, td_user_mode = user_mode c,
     td_restore_mode = restore_mode c, td_block_mode = block_mode c, td_prescale = prescale c, td_cue = cue c,
     td_select_mode = select_mode c, td_select = sc_select c, td_fname = fname c, td_lib = sc_lib c,
     td_classs = classs c, td_name = name ps\<rparr>)"

definition stat_sendable :: "et_station \<Rightarrow> bool" where
  "stat_sendable ps \<longleftrightarrow> (let c = config ps in
     (\<forall>i\<in>{num ps, status (st_data ps), cnt (list_in ps), cnt (list_out ps), flow_mode c, user_mode c, restore_mode c,
          block_mode c, prescale c, cue c, select_mode c}. fits32 i) \<and>
     length (sc_select c) = ET_STATION_SELECT_INTS \<and> atts_ok (st_att (st_data ps)) \<and>
     c_text ET_FUNCNAME_LENGTH (fname c) \<and> c_text ET_FILENAME_LENGTH (sc_lib c) \<and>
     c_text ET_FILENAME_LENGTH (classs c) \<and> c_text ET_STATNAME_LENGTH (name ps))"

lemma getstat1_ok:
  assumes v: "stat_sendable ps"
  shows "et_data_getstat1 (stat_bytes ph ps @ bs) = Some (stat_view ph ps, bs)"
proof -
  define c where "c = config ps"
  define atts where "atts = st_atts ps"
  have atts: "atts = att_list (st_att (st_data ps))" by (simp add: atts_def st_atts_def)
  have n: "length atts \<le> 110" using att_list_length by (simp add: atts)
  have v': "\<forall>i\<in>{num ps, status (st_data ps), cnt (list_in ps), cnt (list_out ps), flow_mode c, user_mode c, restore_mode c,
          block_mode c, prescale c, cue c, select_mode c}. fits32 i" "length (sc_select c) = 6"
      "atts_ok (st_att (st_data ps))" and t: "c_text 48 (fname c)" "c_text 100 (sc_lib c)" "c_text 100 (classs c)" "c_text 48 (name ps)"
    using v by (simp_all add: stat_sendable_def c_def Let_def)
  have fl: "fits32 (flow_shown ph ps)" using v'(1) by (auto simp: flow_shown_def fits32_def c_def)
  obtain s0 s1 s2 s3 s4 s5 where sel: "sc_select c = [s0, s1, s2, s3, s4, s5]"
    using v'(2) by (auto simp: numeral_eq_Suc length_Suc_conv)
  define as where "as = [w32 (num ps), w32 (status (st_data ps)), w32 (test_mutex (st_mutex ps))]"
  define xs where "xs = map (\<lambda>a. w32 a) atts"
  define zs where "zs = stat_rest ph ps"
  have zs: "stat_ints ph ps = w32 (int (length atts)) # as @ xs @ zs"
    by (simp add: stat_ints_def as_def xs_def zs_def atts_def)
  have len: "length as = 3" "length xs = length atts" "length zs = 27"
    by (simp_all add: as_def xs_def zs_def stat_rest_def Let_def sel[unfolded c_def] stat_texts_def atts_def)
  have z: "zs ! 0 = w32 (test_mutex (mutex (list_in ps)))" "zs ! Suc 0 = w32 (cnt (list_in ps))"
     "zs ! 2 = ET_HIGHINT (events_try (list_in ps))" "zs ! 3 = ET_LOWINT (events_try (list_in ps))"
     "zs ! 4 = ET_HIGHINT (events_in (list_in ps))" "zs ! 5 = ET_LOWINT (events_in (list_in ps))"
     "zs ! 6 = w32 (test_mutex (mutex (list_out ps)))" "zs ! 7 = w32 (cnt (list_out ps))"
     "zs ! 8 = ET_HIGHINT (events_out (list_out ps))" "zs ! 9 = ET_LOWINT (events_out (list_out ps))"
     "zs ! 10 = w32 (flow_shown ph ps)" "zs ! 11 = w32 (user_mode c)" "zs ! 12 = w32 (restore_mode c)"
     "zs ! 13 = w32 (block_mode c)" "zs ! 14 = w32 (prescale c)" "zs ! 15 = w32 (cue c)" "zs ! 16 = w32 (select_mode c)"
     "map (\<lambda>j. zs ! (17 + j)) [0..<6] = sc_select c"
     "zs ! 23 = w32 (text_len (fname c))" "zs ! 24 = w32 (text_len (sc_lib c))" "zs ! 25 = w32 (text_len (classs c))"
     "zs ! 26 = w32 (text_len (name ps))"
    by (simp_all add: zs_def stat_rest_def Let_def sel sel[unfolded c_def] stat_texts_def atts_def c_def upt_rec)
  define ws where "ws = as @ xs @ zs"
  have r: "read_words (nat (30 + int (length atts))) (words_bytes ws @ b) = Some (ws, b)" for b
    by (rule read_words_bytes_n) (simp add: ws_def len nat_add_distrib)
  have p: "put_atts (map (\<lambda>j. ws ! (3 + j)) [0..<length atts]) (\<lambda>_. - 1) = Some (att_shown (st_att (st_data ps)))"
    using nth_segment[of as xs zs] put_atts_ok[OF v'(3)] by (simp add: ws_def len xs_def atts)
  have k: "drop (nat (3 + int (length atts))) ws = zs"
    by (simp add: ws_def len nat_add_distrib)
  have a: "ws ! 0 = w32 (num ps)" "ws ! Suc 0 = w32 (status (st_data ps))" "ws ! 2 = w32 (test_mutex (st_mutex ps))"
    by (simp_all add: ws_def as_def)
  have b: "stat_bytes ph ps @ bs = net_bytes (w32 (int (length atts))) @ words_bytes ws @
      text_bytes (fname c) @ text_bytes (sc_lib c) @ text_bytes (classs c) @ text_bytes (name ps) @ bs"
    by (simp add: stat_bytes_def zs ws_def stat_texts_def c_def)
  have t': "read_text 48 (text_len (fname c)) (text_bytes (fname c) @ b) = Some (fname c, b)"
     "read_text 100 (text_len (sc_lib c)) (text_bytes (sc_lib c) @ b) = Some (sc_lib c, b)"
     "read_text 100 (text_len (classs c)) (text_bytes (classs c) @ b) = Some (classs c, b)"
     "read_text 48 (text_len (name ps)) (text_bytes (name ps) @ b) = Some (name ps, b)" for b
    using t by (simp_all add: read_text_bytes text_len_def)
  have f: "sint (w32 (int (length atts))) = int (length atts)" using n by simp
  have g: "et_data_getstat1 (stat_bytes ph ps @ bs) = Some (\<lparr>td_num = num ps, td_status = status (st_data ps),
      td_mutex = test_mutex (st_mutex ps), td_nattachments = int (length atts), td_att = att_shown (st_att (st_data ps)),
      td_inlist_mutex = test_mutex (mutex (list_in ps)), td_inlist_cnt = cnt (list_in ps),
      td_inlist_try = events_try (list_in ps), td_inlist_in = events_in (list_in ps),
      td_outlist_mutex = test_mutex (mutex (list_out ps)), td_outlist_cnt = cnt (list_out ps),
      td_outlist_out = events_out (list_out ps), td_flow_mode = flow_shown ph ps, td_user_mode = user_mode c,
      td_restore_mode = restore_mode c, td_block_mode = block_mode c, td_prescale = prescale c, td_cue = cue c,
      td_select_mode = select_mode c, td_select = sc_select c, td_fname = fname c, td_lib = sc_lib c,
      td_classs = classs c, td_name = name ps\<rparr>, bs)"
    unfolding et_data_getstat1_def b
    using n v'(1) fl t by (simp add: f r k p a z t' text_len_fits)
  show ?thesis unfolding g by (simp add: stat_view_def Let_def c_def atts_def)
qed

text \<open>The stations in the order in which they are sent, each with its being the head of a group.\<close>

definition shown_group :: "(nat \<Rightarrow> nat list) \<Rightarrow> nat \<Rightarrow> (bool \<times> nat) list" where
  "shown_group gs x = (True, x) # map (\<lambda>n. (False, n)) (tl (gs x))"

definition shown :: "nat list \<Rightarrow> (nat \<Rightarrow> nat list) \<Rightarrow> (bool \<times> nat) list" where
  "shown ns gs = concat (map (shown_group gs) ns)"

definition group_ok :: "et_shm \<Rightarrow> (nat \<Rightarrow> nat list) \<Rightarrow> nat \<Rightarrow> bool" where
  "group_ok s gs x \<longleftrightarrow> (\<forall>n\<in>set (gs x). station_ok s n) \<and> gs x \<noteq> [] \<and> hd (gs x) = x \<and>
     (if is_parallel s x then fwd (\<lambda>n. nextparallel (stats s n)) (gs x) \<and> (\<forall>n\<in>set (gs x). is_parallel s n)
      else gs x = [x])"

lemma send_stats_ok:
  assumes "g \<noteq> []" "\<forall>n\<in>set g. station_ok s n" "fwd (\<lambda>n. st_next (stats s n)) (m # ns)" "\<forall>x\<in>set ns. group_ok s gs x"
    and "if is_parallel s m then fwd (\<lambda>n. nextparallel (stats s n)) g \<and> (\<forall>n\<in>set g. is_parallel s n) else g = [m] \<and> ph"
    and "items = (ph, hd g) # map (\<lambda>n. (False, n)) (tl g) @ shown ns gs"
  shows "send_stats k s m (hd g) ph =
    Some (min k (length items), concat (take k (map (\<lambda>(ph, n). stat_bytes ph (stats s n)) items)))"
  using assms
proof (induction k arbitrary: m g ns ph items)
  case (Suc k)
  obtain n g' where g: "g = n # g'" using Suc.prems(1) by (cases g) auto
  show ?case
  proof (cases g')
    case (Cons q g2)
    have p: "is_parallel s m" "is_parallel s n" "nextparallel (stats s n) = int q" and q: "station_ok s q"
      using Suc.prems(2,5) by (auto simp: g Cons split: if_splits)
    have "send_stats k s m q False = Some (min k (length (tl items)), concat (take k (map (\<lambda>(ph, n). stat_bytes ph (stats s n)) (tl items))))"
      using Suc.IH[of g' m ns False "tl items"] Suc.prems p(1) by (simp add: g Cons)
    then show ?thesis using p q Suc.prems(6) by (simp add: g Cons st_ix_ok Let_def)
  next
    case Nil
    have l: "(is_parallel s n \<and> - 1 < nextparallel (stats s n)) = False" and ph: "is_parallel s n \<or> ph"
      using Suc.prems(5) by (auto simp: g Nil split: if_splits)
    show ?thesis
    proof (cases ns)
      case Nil
      then show ?thesis using Suc.prems(3,6) \<open>g' = []\<close> by (simp add: l g shown_def Let_def)
    next
      case (Cons x ns')
      have x: "group_ok s gs x" "st_next (stats s m) = int x" using Suc.prems(3,4) by (simp_all add: Cons)
      have y: "gs x \<noteq> []" "\<forall>n\<in>set (gs x). station_ok s n" "hd (gs x) = x"
          "if is_parallel s x then fwd (\<lambda>n. nextparallel (stats s n)) (gs x) \<and> (\<forall>n\<in>set (gs x). is_parallel s n) else gs x = [x] \<and> True"
        using x(1) by (simp_all add: group_ok_def)
      have o: "station_ok s x" using y(1-3) hd_in_set by metis
      have it: "tl items = (True, hd (gs x)) # map (\<lambda>n. (False, n)) (tl (gs x)) @ shown ns' gs"
        using Suc.prems(6) y(3) by (simp add: g \<open>g' = []\<close> Cons shown_def shown_group_def)
      have "fwd (\<lambda>n. st_next (stats s n)) (x # ns')" "\<forall>x\<in>set ns'. group_ok s gs x"
        using Suc.prems(3,4) by (simp_all add: Cons)
      from Suc.IH[OF y(1,2) this y(4) it]
      have "send_stats k s x x True = Some (min k (length (tl items)), concat (take k (map (\<lambda>(ph, n). stat_bytes ph (stats s n)) (tl items))))"
        by (simp only: y(3))
      then show ?thesis using ph x(2) o Suc.prems(6) by (simp add: l g \<open>g' = []\<close> Cons st_ix_ok Let_def shown_def)
    qed
  qed
qed simp

lemma count_parallel_ok:
  assumes "fwd (\<lambda>n. nextparallel (stats s n)) g" "\<forall>n\<in>set g. station_ok s n" "length g \<le> k"
  shows "count_parallel k s (hd g) = Some (length g - 1)"
  using assms
proof (induction k arbitrary: g)
  case (Suc k)
  obtain n g' where g: "g = n # g'" using Suc.prems(1) by (cases g) auto
  show ?case
  proof (cases g')
    case Nil
    then show ?thesis using Suc.prems(1) by (simp add: g)
  next
    case (Cons q g2)
    then show ?thesis using Suc.IH[of g'] Suc.prems by (simp add: g st_ix_ok)
  qed
qed auto

lemma fwd_layout_bound:
  assumes "\<forall>x\<in>set ns. \<forall>n\<in>set (gs x). station_ok s n" "distinct (concat (map gs ns))"
  shows "length (concat (map gs ns)) \<le> nat (c_nstations (sys_config (sys s)))"
proof -
  have "set (concat (map gs ns)) \<subseteq> {..<nat (c_nstations (sys_config (sys s)))}"
    using assms(1) by (auto simp: station_ok_def zless_nat_eq_int_zless)
  from card_mono[OF _ this] show ?thesis using distinct_card[OF assms(2)] by simp
qed

lemma count_stats_ok:
  assumes "fwd (\<lambda>n. st_next (stats s n)) ns" "\<forall>x\<in>set ns. group_ok s gs x" "length ns \<le> k"
    and "\<forall>x\<in>set ns. length (gs x) \<le> nat (c_nstations (sys_config (sys s)))"
  shows "count_stats k s (hd ns) = Some (length (shown ns gs))"
  using assms
proof (induction k arbitrary: ns)
  case (Suc k)
  obtain n ns' where ns: "ns = n # ns'" using Suc.prems(1) by (cases ns) auto
  have g: "group_ok s gs n" "length (gs n) \<le> nat (c_nstations (sys_config (sys s)))" using Suc.prems(2,4) by (simp_all add: ns)
  have c: "(if is_parallel s n then count_parallel (nat (c_nstations (sys_config (sys s)))) s n else Some 0) = Some (length (gs n) - 1)"
    using g count_parallel_ok[of s "gs n"] by (auto simp: group_ok_def split: if_splits)
  show ?case
  proof (cases ns')
    case Nil
    then show ?thesis using Suc.prems(1) c by (simp add: ns shown_def shown_group_def)
  next
    case (Cons x ns2)
    have "station_ok s x" using Suc.prems(2) by (simp add: ns Cons) (metis group_ok_def hd_in_set)
    then show ?thesis using Suc.IH[of ns'] Suc.prems c by (simp add: ns Cons st_ix_ok shown_def shown_group_def)
  qed
qed auto

text \<open>The lists of stations of a state, and the room a station needs in the buffer.\<close>

definition lists_ok :: "et_shm \<Rightarrow> nat list \<Rightarrow> (nat \<Rightarrow> nat list) \<Rightarrow> bool" where
  "lists_ok s ns gs \<longleftrightarrow> fwd_layout s ns gs \<and> (\<forall>x\<in>set ns. group_ok s gs x) \<and> c_nstations (sys_config (sys s)) \<le> 1000000"

definition stat_fits :: "et_station \<Rightarrow> bool" where
  "stat_fits ps \<longleftrightarrow> 4 * length (st_atts ps) + length (fname (config ps)) + length (sc_lib (config ps)) +
     length (classs (config ps)) + length (name ps) \<le> 632"

lemma length_shown: "\<forall>x\<in>set ns. group_ok s gs x \<Longrightarrow> length (shown ns gs) = length (concat (map gs ns))"
proof (induction ns)
  case (Cons x ns)
  have "length (shown_group gs x) = length (gs x)"
    using Cons.prems by (cases "gs x") (simp_all add: shown_group_def group_ok_def)
  then show ?case using Cons by (simp add: shown_def)
qed (simp add: shown_def)

lemma shown_in_use: "\<forall>x\<in>set ns. group_ok s gs x \<Longrightarrow> (ph, n) \<in> set (shown ns gs) \<Longrightarrow> int n < c_nstations (sys_config (sys s))"
proof (induction ns)
  case (Cons x ns)
  have "int n < c_nstations (sys_config (sys s))" if "(ph, n) \<in> set (shown_group gs x)"
    using that Cons.prems(1) by (cases "gs x") (auto simp: shown_group_def group_ok_def station_ok_def)
  then show ?case using Cons by (auto simp: shown_def)
qed (simp add: shown_def)

lemma lists_okD:
  assumes "lists_ok s ns gs"
  shows "fwd (\<lambda>n. st_next (stats s n)) ns" "hd ns = 0" "ns \<noteq> []" "\<forall>x\<in>set ns. group_ok s gs x"
    "length (shown ns gs) \<le> nat (c_nstations (sys_config (sys s)))" "length (shown ns gs) \<le> 1000000"
    "length ns \<le> nat (c_nstations (sys_config (sys s)))" "\<forall>x\<in>set ns. length (gs x) \<le> nat (c_nstations (sys_config (sys s)))"
proof -
  show f: "fwd (\<lambda>n. st_next (stats s n)) ns" "hd ns = 0" "ns \<noteq> []" "\<forall>x\<in>set ns. group_ok s gs x"
    using assms by (simp_all add: lists_ok_def fwd_layout_def)
  have b: "length (concat (map gs ns)) \<le> nat (c_nstations (sys_config (sys s)))"
    using assms by (intro fwd_layout_bound) (simp_all add: lists_ok_def fwd_layout_def)
  then show c: "length (shown ns gs) \<le> nat (c_nstations (sys_config (sys s)))" using length_shown[OF f(4)] by simp
  have "c_nstations (sys_config (sys s)) \<le> 1000000" using assms by (simp add: lists_ok_def)
  then show "length (shown ns gs) \<le> 1000000" using c by linarith
  have "length ns \<le> length (shown ns gs)" by (induction ns) (simp_all add: shown_def shown_group_def)
  then show "length ns \<le> nat (c_nstations (sys_config (sys s)))" using c by simp
  have "length (gs x) \<le> length (concat (map gs ns))" if "x \<in> set ns" for x
    using that by (induction ns) auto
  then show "\<forall>x\<in>set ns. length (gs x) \<le> nat (c_nstations (sys_config (sys s)))" using b by (meson order_trans)
qed

lemma length_stat_bytes: "stat_sendable ps \<Longrightarrow> stat_fits ps \<Longrightarrow> length (stat_bytes ph ps) \<le> 760"
  by (simp add: stat_bytes_def stat_ints_def stat_rest_def Let_def stat_texts_def stat_fits_def stat_sendable_def)

lemma length_concat_le: "\<forall>x\<in>set xs. length (f x) \<le> m \<Longrightarrow> length (concat (map f xs)) \<le> length xs * m"
  by (induction xs) auto

definition stat_items :: "et_shm \<Rightarrow> (bool \<times> nat) list \<Rightarrow> et_statdata list" where
  "stat_items s = map (\<lambda>(ph, n). stat_view ph (stats s n))"

lemma getstat_ok:
  assumes l: "lists_ok s0 ns0 gs0" "lists_ok s ns gs"
    and v: "\<forall>n. int n < c_nstations (sys_config (sys s)) \<longrightarrow> stat_sendable (stats s n) \<and> stat_fits (stats s n)"
  defines "items \<equiv> take (length (shown ns0 gs0)) (shown ns gs)"
  shows "\<exists>bs. et_data_stats True s0 s = Some (ET_OK, net_bytes (w32 (int (length items))) @ bs) \<and>
    (\<forall>rest. et_data_getstat (int (length items)) (bs @ rest) = Some (stat_items s items, rest)) \<and>
    length items \<le> 1000000 \<and> length bs \<le> 760000000"
proof -
  note d0 = lists_okD[OF l(1)] and d = lists_okD[OF l(2)]
  let ?f = "\<lambda>(ph, n). stat_bytes ph (stats s n)"
  have c: "count_stats (nat (c_nstations (sys_config (sys s0)))) s0 0 = Some (length (shown ns0 gs0))"
    using count_stats_ok[OF d0(1,4,7,8)] by (simp add: d0(2))
  obtain ns' where ns: "ns = 0 # ns'" using d(2,3) by (cases ns) auto
  have g: "group_ok s gs 0" using d(4) by (simp add: ns)
  then have y: "gs 0 \<noteq> []" "\<forall>n\<in>set (gs 0). station_ok s n" "hd (gs 0) = 0"
      "if is_parallel s 0 then fwd (\<lambda>n. nextparallel (stats s n)) (gs 0) \<and> (\<forall>n\<in>set (gs 0). is_parallel s n) else gs 0 = [0] \<and> True"
    by (simp_all add: group_ok_def)
  have it: "shown ns gs = (True, hd (gs 0)) # map (\<lambda>n. (False, n)) (tl (gs 0)) @ shown ns' gs"
    using y(3) by (simp add: ns shown_def shown_group_def)
  have f: "fwd (\<lambda>n. st_next (stats s n)) (0 # ns')" "\<forall>x\<in>set ns'. group_ok s gs x" using d(1,4) by (simp_all add: ns)
  have "send_stats (length (shown ns0 gs0)) s 0 (hd (gs 0)) True =
      Some (min (length (shown ns0 gs0)) (length (shown ns gs)), concat (take (length (shown ns0 gs0)) (map ?f (shown ns gs))))"
    by (rule send_stats_ok[OF y(1,2) f y(4) it])
  then have s: "send_stats (length (shown ns0 gs0)) s 0 0 True = Some (length items, concat (map ?f items))"
    by (simp add: y(3) items_def take_map min.commute)
  have u: "stat_sendable (stats s n) \<and> stat_fits (stats s n)" if "(ph, n) \<in> set items" for ph n
  proof -
    have "(ph, n) \<in> set (shown ns gs)" using that set_take_subset unfolding items_def by (metis subsetD)
    from shown_in_use[OF d(4) this] show ?thesis using v by blast
  qed
  have b: "\<forall>x\<in>set items. length (?f x) \<le> 760" using u length_stat_bytes by (auto split: prod.splits)
  have i: "length items \<le> length (shown ns0 gs0)" "length items \<le> 1000000" using d(6) by (simp_all add: items_def)
  have l: "length (concat (map ?f items)) \<le> length items * 760" by (rule length_concat_le[OF b])
  then have "4 + length (concat (map ?f items)) \<le> stats_bufsize (length (shown ns0 gs0))"
    using i(1) mult_le_mono1[OF i(1), of 760] unfolding stats_bufsize_def by simp
  then have e: "et_data_stats True s0 s = Some (ET_OK, net_bytes (w32 (int (length items))) @ concat (map ?f items))"
    using c s by (simp add: et_data_stats_def)
  have "et_data_getstat (int (length items)) (concat (map ?f items) @ rest) = Some (stat_items s items, rest)" for rest
  proof -
    have "\<forall>x\<in>set items. \<forall>bs. et_data_getstat1 (?f x @ bs) = Some ((\<lambda>(ph, n). stat_view ph (stats s n)) x, bs)"
      using u getstat1_ok by (auto split: prod.splits)
    from read_array_ok[OF this] show ?thesis by (simp add: et_data_getstat_def stat_items_def)
  qed
  moreover have "length (concat (map ?f items)) \<le> 760000000" using l i(2) by linarith
  ultimately show ?thesis using e i(2) by blast
qed

section \<open>Attachments and processes\<close>

definition att_view :: "et_shm \<Rightarrow> nat \<Rightarrow> et_attdata" where
  "att_view s i = (let a = attach (sys s) i in
    \<lparr>ad_num = at_num a, ad_proc = at_proc a, ad_stat = at_stat a, ad_pid = at_pid a, ad_blocked = blocked a,
     ad_quit = quit a, ad_owned = events_owned (at_num a) s, ad_events_put = events_put a,
     ad_events_get = events_get a, ad_events_dump = events_dump a, ad_events_make = events_make a,
     ad_host = host a, ad_station = name (stats s (nat (at_stat a))), ad_interface = interface a\<rparr>)"

definition att_sendable :: "et_shm \<Rightarrow> nat \<Rightarrow> bool" where
  "att_sendable s i \<longleftrightarrow> (let a = attach (sys s) i in
     (\<forall>i\<in>{at_num a, at_proc a, at_stat a, at_pid a, blocked a, quit a, nevents_max s}. fits32 i) \<and>
     st_ix s (at_stat a) \<noteq> None \<and> c_text ET_MAXHOSTNAMELEN (host a) \<and>
     c_text ET_STATNAME_LENGTH (name (stats s (nat (at_stat a)))) \<and> c_text ET_IPADDRSTRLEN (interface a) \<and>
     length (host a) + length (name (stats s (nat (at_stat a)))) + length (interface a) \<le> 301)"

lemma getatt1_ok:
  assumes v: "att_sendable s i"
  shows "\<exists>b. att_bytes s i = Some b \<and> length b \<le> 376 \<and> (\<forall>bs. et_data_getatt1 (b @ bs) = Some (att_view s i, bs))"
proof -
  define a where "a = attach (sys s) i"
  define nm where "nm = name (stats s (nat (at_stat a)))"
  define ws where "ws = att_ints s i"
  have v': "\<forall>i\<in>{at_num a, at_proc a, at_stat a, at_pid a, blocked a, quit a, nevents_max s}. fits32 i" "st_ix s (at_stat a) \<noteq> None"
      and t: "c_text 256 (host a)" "c_text 48 nm" "c_text 16 (interface a)"
      and sum: "length (host a) + length nm + length (interface a) \<le> 301"
    using v by (simp_all add: att_sendable_def a_def nm_def Let_def)
  have f: "fits32 (events_owned (at_num a) s)" using v'(1) by (intro events_owned_fits) simp
  let ?b = "words_bytes ws @ text_bytes (host a) @ text_bytes nm @ text_bytes (interface a)"
  have b: "att_bytes s i = Some ?b"
    using v'(2) by (auto simp: att_bytes_def ws_def att_texts_def Let_def a_def nm_def)
  have len: "length ws = 18" by (simp add: ws_def att_ints_def att_texts_def Let_def)
  have r: "read_words 18 (words_bytes ws @ bs) = Some (ws, bs)" for bs
    by (rule read_words_bytes_n) (simp add: len)
  have t': "read_text 256 (text_len (host a)) (text_bytes (host a) @ b) = Some (host a, b)"
     "read_text 48 (text_len nm) (text_bytes nm @ b) = Some (nm, b)"
     "read_text 16 (text_len (interface a)) (text_bytes (interface a) @ b) = Some (interface a, b)" for b
    using t by (simp_all add: read_text_bytes text_len_def)
  have w: "ws ! 0 = w32 (at_num a)" "ws ! Suc 0 = w32 (at_proc a)" "ws ! 2 = w32 (at_stat a)" "ws ! 3 = w32 (at_pid a)"
     "ws ! 4 = w32 (blocked a)" "ws ! 5 = w32 (quit a)" "ws ! 6 = w32 (events_owned (at_num a) s)"
     "ws ! 7 = ET_HIGHINT (events_put a)" "ws ! 8 = ET_LOWINT (events_put a)" "ws ! 9 = ET_HIGHINT (events_get a)"
     "ws ! 10 = ET_LOWINT (events_get a)" "ws ! 11 = ET_HIGHINT (events_dump a)" "ws ! 12 = ET_LOWINT (events_dump a)"
     "ws ! 13 = ET_HIGHINT (events_make a)" "ws ! 14 = ET_LOWINT (events_make a)"
     "ws ! 15 = w32 (text_len (host a))" "ws ! 16 = w32 (text_len nm)" "ws ! 17 = w32 (text_len (interface a))"
    by (simp_all add: ws_def att_ints_def att_texts_def Let_def a_def nm_def)
  have "et_data_getatt1 (?b @ bs) = Some (att_view s i, bs)" for bs
    using v'(1) f t by (simp add: et_data_getatt1_def r w t' text_len_fits)
      (simp add: att_view_def Let_def a_def nm_def)
  moreover have "length ?b \<le> 376" using sum by (simp add: len)
  ultimately show ?thesis using b by blast
qed

lemma send_atts_ok:
  assumes "\<forall>i\<in>set is. att_sendable s i"
  shows "\<exists>bs. send_atts s is = Some bs \<and> length bs \<le> length is * 376 \<and>
    (\<forall>rest. read_array et_data_getatt1 (length is) (bs @ rest) = Some (map (att_view s) is, rest))"
  using assms
proof (induction "is")
  case (Cons i "is")
  obtain b where b: "att_bytes s i = Some b" "length b \<le> 376" "\<forall>bs. et_data_getatt1 (b @ bs) = Some (att_view s i, bs)"
    using getatt1_ok[of s i] Cons.prems by auto
  obtain bs where bs: "send_atts s is = Some bs" "length bs \<le> length is * 376"
      "\<forall>rest. read_array et_data_getatt1 (length is) (bs @ rest) = Some (map (att_view s) is, rest)"
    using Cons by auto
  show ?case using b bs by simp
qed simp

lemma in_use_atts_length: "c_nattachments (sys_config (sys s)) \<le> ET_ATTACHMENTS_MAX \<Longrightarrow> length (in_use_atts s) \<le> 110"
  using length_filter_le[of "\<lambda>i. at_status (attach (sys s) i) \<noteq> ET_ATT_UNUSED" "[0..<nat (c_nattachments (sys_config (sys s)))]"]
  by (simp add: in_use_atts_def)

lemma getatt_ok:
  fixes s0 :: et_shm
  assumes "\<forall>i\<in>set (in_use_atts s). att_sendable s i" "c_nattachments (sys_config (sys s)) \<le> ET_ATTACHMENTS_MAX"
  defines "items \<equiv> take (length (in_use_atts s0)) (in_use_atts s)"
  shows "\<exists>bs. et_data_atts True s0 s = Some (ET_OK, net_bytes (w32 (int (length items))) @ bs) \<and>
    (\<forall>rest. et_data_getatt (int (length items)) (bs @ rest) = Some (map (att_view s) items, rest)) \<and>
    length items \<le> 110 \<and> length bs \<le> 376 * 110"
proof -
  have "\<forall>i\<in>set items. att_sendable s i" using assms(1) in_set_takeD by (fastforce simp: items_def)
  then obtain bs where bs: "send_atts s items = Some bs" "length bs \<le> length items * 376"
      "\<forall>rest. read_array et_data_getatt1 (length items) (bs @ rest) = Some (map (att_view s) items, rest)"
    using send_atts_ok by blast
  have i: "length items \<le> length (in_use_atts s0)" "length items \<le> 110"
    using in_use_atts_length[OF assms(2)] by (simp_all add: items_def)
  have "4 + length bs \<le> atts_bufsize (length (in_use_atts s0))"
    using bs(2) mult_le_mono1[OF i(1), of 376] by (simp add: atts_bufsize_def)
  then have "et_data_atts True s0 s = Some (ET_OK, net_bytes (w32 (int (length items))) @ bs)"
    using bs(1) by (simp add: et_data_atts_def Let_def items_def)
  moreover have "length bs \<le> 376 * 110" using bs(2) i(2) by linarith
  ultimately show ?thesis using bs(3) i(2) by (auto simp: et_data_getatt_def)
qed

definition proc_view :: "et_proc \<Rightarrow> et_procdata" where
  "proc_view p = \<lparr>pd_num = pr_num p, pd_heartbeat = sint (pr_heartbeat p), pd_pid = pr_pid p,
     pd_nattachments = int (length (pr_atts p)), pd_att = att_shown (pr_att p)\<rparr>"

definition proc_sendable :: "et_proc \<Rightarrow> bool" where
  "proc_sendable p \<longleftrightarrow> fits32 (pr_num p) \<and> fits32 (pr_pid p) \<and> atts_ok (pr_att p)"

lemma length_proc_bytes: "length (proc_bytes p) \<le> 456"
  using att_list_length[of "pr_att p"] by (simp add: proc_bytes_def pr_atts_def)

lemma getproc1_ok:
  assumes v: "proc_sendable p"
  shows "et_data_getproc1 (proc_bytes p @ bs) = Some (proc_view p, bs)"
proof -
  define atts where "atts = pr_atts p"
  have atts: "atts = att_list (pr_att p)" by (simp add: atts_def pr_atts_def)
  have n: "length atts \<le> 110" using att_list_length by (simp add: atts)
  define as where "as = [w32 (pr_num p), pr_heartbeat p, w32 (pr_pid p)]"
  define xs where "xs = map (\<lambda>a. w32 a) atts"
  define ws where "ws = as @ xs"
  have len: "length as = 3" "length xs = length atts" by (simp_all add: as_def xs_def)
  have r: "read_words (nat (3 + int (length atts))) (words_bytes ws @ b) = Some (ws, b)" for b
    by (rule read_words_bytes_n) (simp add: ws_def len nat_add_distrib)
  have p: "put_atts (map (\<lambda>j. ws ! (3 + j)) [0..<length atts]) (\<lambda>_. - 1) = Some (att_shown (pr_att p))"
    using nth_segment[of as xs "[]"] put_atts_ok[of "pr_att p"] v by (simp add: ws_def len xs_def atts proc_sendable_def)
  have a: "ws ! 0 = w32 (pr_num p)" "ws ! Suc 0 = pr_heartbeat p" "ws ! 2 = w32 (pr_pid p)"
    by (simp_all add: ws_def as_def)
  have b: "proc_bytes p @ bs = net_bytes (w32 (int (length atts))) @ words_bytes ws @ bs"
    by (simp add: proc_bytes_def ws_def as_def xs_def atts_def)
  have v': "fits32 (pr_num p)" "fits32 (pr_pid p)" using v by (simp_all add: proc_sendable_def)
  have "et_data_getproc1 (proc_bytes p @ bs) = Some (\<lparr>pd_num = pr_num p, pd_heartbeat = sint (pr_heartbeat p),
      pd_pid = pr_pid p, pd_nattachments = int (length atts), pd_att = att_shown (pr_att p)\<rparr>, bs)"
    unfolding et_data_getproc1_def b using n v' by (simp add: r p a Let_def)
  then show ?thesis by (simp add: proc_view_def atts_def)
qed

lemma getproc_ok:
  fixes s0 :: et_shm
  assumes "\<forall>i\<in>set (open_procs s). proc_sendable (proc (sys s) i)" "c_nprocesses (sys_config (sys s)) \<le> ET_PROCESSES_MAX"
  defines "items \<equiv> take (length (open_procs s0)) (open_procs s)"
  shows "\<exists>bs. et_data_procs True s0 s = Some (ET_OK, net_bytes (w32 (int (length items))) @ bs) \<and>
    (\<forall>rest. et_data_getproc (int (length items)) (bs @ rest) = Some (map (\<lambda>i. proc_view (proc (sys s) i)) items, rest)) \<and>
    length items \<le> 110 \<and> length bs \<le> 456 * 110"
proof -
  let ?f = "\<lambda>i. proc_bytes (proc (sys s) i)"
  have i: "length items \<le> length (open_procs s0)" "length items \<le> 110"
    using length_filter_le[of "\<lambda>i. pr_status (proc (sys s) i) = ET_PROC_OPEN" "[0..<nat (c_nprocesses (sys_config (sys s)))]"] assms(2)
    by (simp_all add: items_def open_procs_def)
  have l: "length (concat (map ?f items)) \<le> length items * 456"
    by (rule length_concat_le) (use length_proc_bytes in blast)
  then have "4 + length (concat (map ?f items)) \<le> procs_bufsize (length (open_procs s0))"
    using mult_le_mono1[OF i(1), of 456] by (simp add: procs_bufsize_def)
  then have "et_data_procs True s0 s = Some (ET_OK, net_bytes (w32 (int (length items))) @ concat (map ?f items))"
    by (simp add: et_data_procs_def Let_def items_def)
  moreover have "\<forall>x\<in>set items. proc_sendable (proc (sys s) x)"
    using assms(1) by (auto simp: items_def dest: in_set_takeD)
  then have "\<forall>x\<in>set items. \<forall>bs. et_data_getproc1 (?f x @ bs) = Some (proc_view (proc (sys s) x), bs)"
    by (simp add: getproc1_ok)
  from read_array_ok[OF this]
  have "et_data_getproc (int (length items)) (concat (map ?f items) @ rest) = Some (map (\<lambda>i. proc_view (proc (sys s) i)) items, rest)" for rest
    by (simp add: et_data_getproc_def)
  moreover have "length (concat (map ?f items)) \<le> 456 * 110" using l i(2) by linarith
  ultimately show ?thesis using i(2) by blast
qed

section \<open>The exchange\<close>

lemma length_sys_bytes:
  assumes "sys_sendable e s" "et_data_sys e True s = Some (ET_OK, bs)"
  shows "length bs \<le> 1000"
proof -
  define c where "c = sys_config (sys s)"
  have v: "length (netinfo c) \<le> 10" "length (mcastaddrs c) \<le> 10" "\<forall>t\<in>set (netinfo c). length t < 16"
      "\<forall>t\<in>set (mcastaddrs c). length t < 16" "length (c_filename c) < 100"
    using assms(1) by (auto simp: sys_sendable_def c_text_def c_def Let_def)
  have "length (concat (map text_bytes ts)) \<le> length ts * 16" if "\<forall>t\<in>set ts. length t < 16" for ts
    by (rule length_concat_le) (use that in fastforce)
  then have "length (concat (map text_bytes (netinfo c))) \<le> length (netinfo c) * 16"
    "length (concat (map text_bytes (mcastaddrs c))) \<le> length (mcastaddrs c) * 16"
    using v(3,4) by blast+
  moreover have "bs = words_bytes (sys_ints e s @ map (\<lambda>t. w32 (text_len t)) (sys_texts s)) @ concat (map text_bytes (sys_texts s))"
    using assms(2) by (simp add: et_data_sys_def Let_def split: if_splits)
  ultimately show ?thesis using v(1,2,5) by (simp add: sys_texts_def Let_def c_def sys_ints_def)
qed

text \<open>Everything a reply sends can be sent, whatever happens between the passes.\<close>

definition all_sendable :: "et_id \<Rightarrow> (nat \<Rightarrow> et_shm) \<Rightarrow> bool" where
  "all_sendable e ss \<longleftrightarrow> sys_sendable e (ss 0) \<and>
     (\<forall>n. int n < c_nstations (sys_config (sys (ss 2))) \<longrightarrow> stat_sendable (stats (ss 2) n) \<and> stat_fits (stats (ss 2) n)) \<and>
     (\<forall>i\<in>set (in_use_atts (ss 4)). att_sendable (ss 4) i) \<and> c_nattachments (sys_config (sys (ss 4))) \<le> ET_ATTACHMENTS_MAX \<and>
     (\<forall>i\<in>set (open_procs (ss 6)). proc_sendable (proc (sys (ss 6)) i)) \<and>
     c_nprocesses (sys_config (sys (ss 6))) \<le> ET_PROCESSES_MAX"

definition all_view :: "et_id \<Rightarrow> (nat \<Rightarrow> et_shm) \<Rightarrow> (bool \<times> nat) list \<Rightarrow> (bool \<times> nat) list \<Rightarrow> et_alldata" where
  "all_view e ss ns0 ns =
    \<lparr>all_sysdata = sys_view e (ss 0), all_statdata = stat_items (ss 2) (take (length ns0) ns),
     all_attdata = map (att_view (ss 4)) (take (length (in_use_atts (ss 3))) (in_use_atts (ss 4))),
     all_procdata = map (\<lambda>i. proc_view (proc (sys (ss 6)) i)) (take (length (open_procs (ss 5))) (open_procs (ss 6)))\<rparr>"

lemma exchange_ok:
  assumes v: "all_sendable e ss" and l: "lists_ok (ss 1) ns0 gs0" "lists_ok (ss 2) ns gs"
  shows "\<exists>bs. send_sys_data e (\<lambda>_. True) ss = Some bs \<and>
    (\<forall>rest. et_data_get (\<lambda>_. True) (bs @ rest) = Some (Inr (all_view e ss (shown ns0 gs0) (shown ns gs))))"
proof -
  define ts where "ts = take (length (shown ns0 gs0)) (shown ns gs)"
  define as where "as = take (length (in_use_atts (ss 3))) (in_use_atts (ss 4))"
  define ps where "ps = take (length (open_procs (ss 5))) (open_procs (ss 6))"
  obtain b1 where b1: "et_data_sys e True (ss 0) = Some (ET_OK, b1)" "\<And>r. et_data_getsys (b1 @ r) = Some (sys_view e (ss 0), r)"
    using getsys_ok[of e "ss 0"] v by (auto simp: all_sendable_def)
  have n1: "length b1 \<le> 1000" using length_sys_bytes[OF _ b1(1)] v by (simp add: all_sendable_def)
  obtain b2 where b2: "et_data_stats True (ss 1) (ss 2) = Some (ET_OK, net_bytes (w32 (int (length ts))) @ b2)"
      "\<And>r. et_data_getstat (int (length ts)) (b2 @ r) = Some (stat_items (ss 2) ts, r)" "length ts \<le> 1000000" "length b2 \<le> 760000000"
    using getstat_ok[OF l] v unfolding ts_def all_sendable_def by blast
  obtain b3 where b3: "et_data_atts True (ss 3) (ss 4) = Some (ET_OK, net_bytes (w32 (int (length as))) @ b3)"
      "\<And>r. et_data_getatt (int (length as)) (b3 @ r) = Some (map (att_view (ss 4)) as, r)" "length as \<le> 110" "length b3 \<le> 376 * 110"
    using getatt_ok[of "ss 4" "ss 3"] v unfolding as_def all_sendable_def by blast
  obtain b4 where b4: "et_data_procs True (ss 5) (ss 6) = Some (ET_OK, net_bytes (w32 (int (length ps))) @ b4)"
      "\<And>r. et_data_getproc (int (length ps)) (b4 @ r) = Some (map (\<lambda>i. proc_view (proc (sys (ss 6)) i)) ps, r)"
      "length ps \<le> 110" "length b4 \<le> 456 * 110"
    using getproc_ok[of "ss 6" "ss 5"] v unfolding ps_def all_sendable_def by blast
  define bs where "bs = b1 @ (net_bytes (w32 (int (length ts))) @ b2) @ (net_bytes (w32 (int (length as))) @ b3) @
    (net_bytes (w32 (int (length ps))) @ b4)"
  have n: "length bs < 2 ^ 31" using n1 b2(4) b3(4) b4(4) by (simp add: bs_def)
  have s: "send_sys_data e (\<lambda>_. True) ss = Some (net_bytes (w32 ET_OK) @ net_bytes (w32 (int (length bs))) @ bs)"
    using b1(1) b2(1) b3(1) b4(1) by (simp add: send_sys_data_def Let_def bs_def)
  have k: "sint (w32 (int (length bs))) = int (length bs)" using n by simp
  have m: "sint (word_of_nat (length ts) :: i32) = int (length ts)" "sint (word_of_nat (length as) :: i32) = int (length as)"
      "sint (word_of_nat (length ps) :: i32) = int (length ps)" using b2(3) b3(3) b4(3) by simp_all
  have e4: "et_data_getproc (int (length ps)) b4 = Some (map (\<lambda>i. proc_view (proc (sys (ss 6)) i)) ps, [])"
    using b4(2)[of "[]"] by simp
  have t: "take (nat (int (length bs))) (bs @ rest) = bs" for rest by simp
  have "et_data_get (\<lambda>_. True) ((net_bytes (w32 ET_OK) @ net_bytes (w32 (int (length bs))) @ bs) @ rest) =
      Some (Inr (all_view e ss (shown ns0 gs0) (shown ns gs)))" for rest
    unfolding et_data_get_def append_assoc read_net_bytes option.case prod.case k t
    by (simp add: all_view_def flip: ts_def as_def ps_def)
      (simp add: bs_def b1(2) b2(2) b3(2) e4 m del: of_nat_id)
  then show ?thesis using s by blast
qed

section \<open>What does not fit\<close>

text \<open>The buffer for the attachments has no room for the addresses of their interfaces.\<close>

lemma atts_overflow:
  assumes "in_use_atts s = [i]" "att_bytes s i = Some b"
    and "length (host (attach (sys s) i)) + length (name (stats s (nat (at_stat (attach (sys s) i))))) +
         length (interface (attach (sys s) i)) > 301"
  shows "et_data_atts True s s = None"
proof -
  have "length b > 376" using assms(2,3) by (auto simp: att_bytes_def att_texts_def att_ints_def Let_def split: bind_splits)
  then show ?thesis using assms(1,2) by (simp add: et_data_atts_def Let_def atts_bufsize_def)
qed

section \<open>The histogram\<close>

lemma raw_int_twice: "fits32 i \<Longrightarrow> raw_int e (raw_int e i) = i"
proof (cases "id_endian e = ET_ENDIAN_BIG")
  case False
  assume f: "fits32 i"
  define bs where "bs = net_bytes (w32 i)"
  obtain w where w: "read_int (rev bs) = Some (w, [])" by (simp add: bs_def net_bytes_def)
  have "net_bytes w = rev bs" by (rule net_bytes_read[OF w])
  moreover have "raw_int e i = sint w" using False w by (simp add: raw_int_def bs_def)
  moreover have "read_int bs = Some (w32 i, [])" using read_net_bytes[of "w32 i" "[]"] by (simp add: bs_def)
  ultimately show ?thesis using False f by (simp add: raw_int_def)
qed (simp add: raw_int_def)

text \<open>The histogram arrives when the array of the client has the size of the histogram.\<close>

lemma histogram_round_trip:
  assumes "\<forall>i. fits32 (histogram s i)" "0 \<le> id_nevents e" "id_nevents c = id_nevents e" "locality e \<noteq> ET_REMOTE"
    and "int (length old) = id_nevents e + 1"
  shows "\<exists>bs. send_histogram e s = Some bs \<and>
    (\<forall>rest. etr_data_gethistogram c (bs @ rest) old (id_nevents e + 1) = Some (ET_OK, map (histogram s) [0..<length old]))"
proof -
  define n where "n = length old"
  have n: "nat (id_nevents e + 1) = n" "1 \<le> id_nevents e + 1" using assms(2,5) by (simp_all add: n_def)
  define h where "h = map (histogram s) [0..<n]"
  have s: "send_histogram e s = Some (words_bytes (w32 ET_OK # map (\<lambda>i. w32 i) h))"
    using n assms(4) by (simp add: send_histogram_def et_data_gethistogram_def h_def Let_def)
  have r: "read_words n (words_bytes (map (\<lambda>i. w32 i) h) @ rest) = Some (map (\<lambda>i. w32 i) h, rest)" for rest
    by (rule read_words_bytes_n) (simp add: h_def)
  have f: "\<forall>i\<in>set h. fits32 i" using assms(1) by (simp add: h_def)
  have m: "map (\<lambda>i. raw_int c (raw_int c (sint (w32 i)))) h = h"
    by (rule map_idI) (use f in \<open>simp add: raw_int_twice\<close>)
  have "etr_data_gethistogram c (words_bytes (w32 ET_OK # map (\<lambda>i. w32 i) h) @ rest) old (id_nevents e + 1) = Some (ET_OK, h)" for rest
  proof -
    have e: "id_nevents e + 1 = int n" "length h = n" "length old = n" using assms(5) by (simp_all add: n_def h_def)
    show ?thesis using m unfolding etr_data_gethistogram_def assms(3) e(1) by (simp add: e(2,3) r comp_def Let_def)
  qed
  then show ?thesis using s by (auto simp: h_def n_def)
qed

end
