(* ===== verification/EtOpenConfig.thy ===== *)
theory EtOpenConfig imports EtSysConfig begin

text \<open>
  The configuration with which a program opens a system (\<^verbatim>\<open>et_openconfig.c\<close>). \<open>et_open_config_init\<close> takes
  the success of \<^verbatim>\<open>calloc\<close> and what the network library finds, the broadcast addresses and the interfaces of the
  host (\<open>None\<close> when it fails). The linked lists of addresses are lists, the array of multicast addresses is the list of its
  used entries. \<open>nn\<close> says that an output argument is not NULL, \<open>None\<close> in a result is a copy past the end
  of an array. Times are seconds and nanoseconds.

  The lemmas show that a program's calls keep every field in its range (\<open>open_inv\<close>), and how an address that
  starts like one in dotted decimal form and goes on overruns the array of its entry.
\<close>

abbreviation (input) ET_OPEN_NOWAIT :: int where "ET_OPEN_NOWAIT \<equiv> 0"
abbreviation (input) ET_OPEN_WAIT :: int where "ET_OPEN_WAIT \<equiv> 1"
abbreviation (input) ET_MULTICAST :: int where "ET_MULTICAST \<equiv> 0"
abbreviation (input) ET_BROADCAST :: int where "ET_BROADCAST \<equiv> 1"
abbreviation (input) ET_DIRECT :: int where "ET_DIRECT \<equiv> 2"
abbreviation (input) ET_BROADANDMULTICAST :: int where "ET_BROADANDMULTICAST \<equiv> 3"
abbreviation (input) ET_MULTICAST_TTL :: int where "ET_MULTICAST_TTL \<equiv> 32"
abbreviation (input) ET_HOST_AS_LOCAL :: int where "ET_HOST_AS_LOCAL \<equiv> 1"
abbreviation (input) ET_HOST_AS_REMOTE :: int where "ET_HOST_AS_REMOTE \<equiv> 0"
abbreviation (input) ET_MULTICAST_PORT :: int where "ET_MULTICAST_PORT \<equiv> 11111"
abbreviation (input) ET_SERVER_PORT :: int where "ET_SERVER_PORT \<equiv> 11111"
abbreviation (input) ET_POLICY_FIRST :: int where "ET_POLICY_FIRST \<equiv> 0"
abbreviation (input) ET_POLICY_LOCAL :: int where "ET_POLICY_LOCAL \<equiv> 1"
abbreviation (input) ET_POLICY_ERROR :: int where "ET_POLICY_ERROR \<equiv> 2"
abbreviation (input) ET_HOST_LOCAL :: string where "ET_HOST_LOCAL \<equiv> ''.local''"
abbreviation (input) ET_HOST_REMOTE :: string where "ET_HOST_REMOTE \<equiv> ''.remote''"
abbreviation (input) ET_HOST_ANYWHERE :: string where "ET_HOST_ANYWHERE \<equiv> ''.anywhere''"
abbreviation (input) ET_SUBNET_ALL :: string where "ET_SUBNET_ALL \<equiv> ''.subnetsAll''"

record et_open_config =
  oc_init :: int
  oc_wait :: int
  oc_cast :: int
  oc_ttl :: int
  oc_mode :: int
  oc_debug :: int
  oc_udpport :: int
  oc_multiport :: int
  oc_serverport :: int
  oc_policy :: int
  oc_sendbuf :: int
  oc_recvbuf :: int
  oc_nodelay :: int
  oc_timeout :: "int \<times> int"
  oc_host :: string
  oc_interface :: string
  oc_netinfo :: "string list"
  oc_bcastaddrs :: "string list"
  oc_mcastaddrs :: "string list"

definition et_open_config_init ::
  "bool \<Rightarrow> string list option \<Rightarrow> string list option \<Rightarrow> int \<times> et_open_config option" where
  "et_open_config_init mem bc ni =
    (if \<not> mem then (ET_ERROR, None)
     else (ET_OK, Some \<lparr>oc_init = ET_STRUCT_OK, oc_wait = ET_OPEN_NOWAIT, oc_cast = ET_BROADCAST,
       oc_ttl = ET_MULTICAST_TTL, oc_mode = ET_HOST_AS_LOCAL, oc_debug = ET_DEBUG_ERROR,
       oc_udpport = ET_BROADCAST_PORT, oc_multiport = ET_MULTICAST_PORT, oc_serverport = ET_SERVER_PORT,
       oc_policy = ET_POLICY_FIRST, oc_sendbuf = 0, oc_recvbuf = 0, oc_nodelay = 1, oc_timeout = (0, 0),
       oc_host = ET_HOST_LOCAL, oc_interface = [], oc_netinfo = (case ni of None \<Rightarrow> [] | Some xs \<Rightarrow> xs),
       oc_bcastaddrs = (case bc of None \<Rightarrow> [] | Some xs \<Rightarrow> xs), oc_mcastaddrs = []\<rparr>))"

section \<open>Fields with a set of values\<close>

text \<open>A setter that stores \<open>val\<close> with \<open>upd\<close> when \<open>ok\<close>.\<close>

definition open_set :: "bool \<Rightarrow> (et_open_config \<Rightarrow> et_open_config) \<Rightarrow> et_open_config \<Rightarrow> int \<times> et_open_config" where
  "open_set ok upd sc =
    (if oc_init sc \<noteq> ET_STRUCT_OK then (ET_ERROR, sc) else if \<not> ok then (ET_ERROR, sc) else (ET_OK, upd sc))"

definition et_open_config_setwait :: "et_open_config \<Rightarrow> int \<Rightarrow> int \<times> et_open_config" where
  "et_open_config_setwait sc val = open_set (val = ET_OPEN_NOWAIT \<or> val = ET_OPEN_WAIT) (\<lambda>c. c\<lparr>oc_wait := val\<rparr>) sc"

definition et_open_config_setcast :: "et_open_config \<Rightarrow> int \<Rightarrow> int \<times> et_open_config" where
  "et_open_config_setcast sc val =
    open_set (val = ET_MULTICAST \<or> val = ET_BROADCAST \<or> val = ET_BROADANDMULTICAST \<or> val = ET_DIRECT)
      (\<lambda>c. c\<lparr>oc_cast := val\<rparr>) sc"

definition et_open_config_setTTL :: "et_open_config \<Rightarrow> int \<Rightarrow> int \<times> et_open_config" where
  "et_open_config_setTTL sc val = open_set (\<not> (val < 0 \<or> val > 254)) (\<lambda>c. c\<lparr>oc_ttl := val\<rparr>) sc"

definition et_open_config_setmode :: "et_open_config \<Rightarrow> int \<Rightarrow> int \<times> et_open_config" where
  "et_open_config_setmode sc val =
    open_set (val = ET_HOST_AS_LOCAL \<or> val = ET_HOST_AS_REMOTE) (\<lambda>c. c\<lparr>oc_mode := val\<rparr>) sc"

definition et_open_config_setdebugdefault :: "et_open_config \<Rightarrow> int \<Rightarrow> int \<times> et_open_config" where
  "et_open_config_setdebugdefault sc val =
    open_set (val = ET_DEBUG_NONE \<or> val = ET_DEBUG_SEVERE \<or> val = ET_DEBUG_ERROR \<or> val = ET_DEBUG_WARN \<or>
              val = ET_DEBUG_INFO) (\<lambda>c. c\<lparr>oc_debug := val\<rparr>) sc"

definition et_open_config_setport :: "et_open_config \<Rightarrow> int \<Rightarrow> int \<times> et_open_config" where
  "et_open_config_setport sc val = open_set (\<not> (val < 1024 \<or> val > 65535)) (\<lambda>c. c\<lparr>oc_udpport := val\<rparr>) sc"

definition et_open_config_setmultiport :: "et_open_config \<Rightarrow> int \<Rightarrow> int \<times> et_open_config" where
  "et_open_config_setmultiport sc val = open_set (\<not> (val < 1024 \<or> val > 65535)) (\<lambda>c. c\<lparr>oc_multiport := val\<rparr>) sc"

definition et_open_config_setserverport :: "et_open_config \<Rightarrow> int \<Rightarrow> int \<times> et_open_config" where
  "et_open_config_setserverport sc val = open_set (\<not> (val < 1024 \<or> val > 65535)) (\<lambda>c. c\<lparr>oc_serverport := val\<rparr>) sc"

definition et_open_config_settimeout :: "et_open_config \<Rightarrow> int \<times> int \<Rightarrow> int \<times> et_open_config" where
  "et_open_config_settimeout sc val = open_set True (\<lambda>c. c\<lparr>oc_timeout := val\<rparr>) sc"

definition et_open_config_setpolicy :: "et_open_config \<Rightarrow> int \<Rightarrow> int \<times> et_open_config" where
  "et_open_config_setpolicy sc val =
    open_set (val = ET_POLICY_FIRST \<or> val = ET_POLICY_LOCAL \<or> val = ET_POLICY_ERROR) (\<lambda>c. c\<lparr>oc_policy := val\<rparr>) sc"

definition et_open_config_settcp :: "et_open_config \<Rightarrow> int \<Rightarrow> int \<Rightarrow> int \<Rightarrow> int \<times> et_open_config" where
  "et_open_config_settcp sc r t d =
    open_set (\<not> (r < 0 \<or> t < 0))
      (\<lambda>c. c\<lparr>oc_recvbuf := r, oc_sendbuf := t, oc_nodelay := (if d < 0 then 1 else d)\<rparr>) sc"

text \<open>A getter stores the field when its output argument is given.\<close>

definition open_get :: "(et_open_config \<Rightarrow> 'a) \<Rightarrow> et_open_config \<Rightarrow> bool \<Rightarrow> int \<times> 'a option" where
  "open_get f sc nn = (ET_OK, if nn then Some (f sc) else None)"

definition et_open_config_getwait :: "et_open_config \<Rightarrow> bool \<Rightarrow> int \<times> int option" where
  "et_open_config_getwait = open_get oc_wait"

definition et_open_config_getcast :: "et_open_config \<Rightarrow> bool \<Rightarrow> int \<times> int option" where
  "et_open_config_getcast = open_get oc_cast"

definition et_open_config_getTTL :: "et_open_config \<Rightarrow> bool \<Rightarrow> int \<times> int option" where
  "et_open_config_getTTL = open_get oc_ttl"

definition et_open_config_getmode :: "et_open_config \<Rightarrow> bool \<Rightarrow> int \<times> int option" where
  "et_open_config_getmode = open_get oc_mode"

definition et_open_config_getdebugdefault :: "et_open_config \<Rightarrow> bool \<Rightarrow> int \<times> int option" where
  "et_open_config_getdebugdefault = open_get oc_debug"

definition et_open_config_getport :: "et_open_config \<Rightarrow> bool \<Rightarrow> int \<times> int option" where
  "et_open_config_getport = open_get oc_udpport"

definition et_open_config_getmultiport :: "et_open_config \<Rightarrow> bool \<Rightarrow> int \<times> int option" where
  "et_open_config_getmultiport = open_get oc_multiport"

definition et_open_config_getserverport :: "et_open_config \<Rightarrow> bool \<Rightarrow> int \<times> int option" where
  "et_open_config_getserverport = open_get oc_serverport"

definition et_open_config_gettimeout :: "et_open_config \<Rightarrow> bool \<Rightarrow> int \<times> (int \<times> int) option" where
  "et_open_config_gettimeout = open_get oc_timeout"

definition et_open_config_getpolicy :: "et_open_config \<Rightarrow> bool \<Rightarrow> int \<times> int option" where
  "et_open_config_getpolicy = open_get oc_policy"

definition et_open_config_gethost :: "et_open_config \<Rightarrow> bool \<Rightarrow> int \<times> string option" where
  "et_open_config_gethost = open_get oc_host"

definition et_open_config_gettcp ::
  "et_open_config \<Rightarrow> bool \<Rightarrow> bool \<Rightarrow> bool \<Rightarrow> int \<times> int option \<times> int option \<times> int option" where
  "et_open_config_gettcp sc nr nt nd =
    (ET_OK, if nr then Some (oc_recvbuf sc) else None, if nt then Some (oc_sendbuf sc) else None,
     if nd then Some (oc_nodelay sc) else None)"

section \<open>Addresses\<close>

text \<open>
  \<^verbatim>\<open>sscanf\<close> with \<^verbatim>\<open>%d.%d.%d.%d\<close>: each number may have white space before it and a sign; what follows the fourth
  is not looked at.
\<close>

definition is_digit :: "char \<Rightarrow> bool" where
  "is_digit c \<longleftrightarrow> 48 \<le> (of_char c :: nat) \<and> (of_char c :: nat) \<le> 57"

definition scan_int :: "string \<Rightarrow> (int \<times> string) option" where
  "scan_int t =
    (let t = dropWhile is_space t;
         neg = (t \<noteq> [] \<and> hd t = CHR ''-'');
         t = (if t \<noteq> [] \<and> (hd t = CHR ''-'' \<or> hd t = CHR ''+'') then tl t else t)
     in if t = [] \<or> \<not> is_digit (hd t) then None
        else Some (if neg then - digits t 0 else digits t 0, dropWhile is_digit t))"

definition scan_dot :: "string \<Rightarrow> string option" where
  "scan_dot t = (case t of [] \<Rightarrow> None | c # t \<Rightarrow> if c = CHR ''.'' then Some t else None)"

definition codanetIsDottedDecimal :: "string \<Rightarrow> int list option" where
  "codanetIsDottedDecimal t = do {
     (a, t) \<leftarrow> scan_int t; t \<leftarrow> scan_dot t;
     (b, t) \<leftarrow> scan_int t; t \<leftarrow> scan_dot t;
     (c, t) \<leftarrow> scan_int t; t \<leftarrow> scan_dot t;
     (d, t) \<leftarrow> scan_int t;
     if \<forall>i\<in>set [a, b, c, d]. 0 \<le> i \<and> i \<le> 255 then Some [a, b, c, d] else None }"

text \<open>The result of the search of the network library for broadcast addresses is \<open>bc\<close>.\<close>

definition et_open_config_addbroadcast ::
  "et_open_config \<Rightarrow> bool \<Rightarrow> string list option \<Rightarrow> string option \<Rightarrow> (int \<times> et_open_config) option" where
  "et_open_config_addbroadcast sc mem bc vp =
    (if oc_init sc \<noteq> ET_STRUCT_OK then Some (ET_ERROR, sc)
     else case vp of None \<Rightarrow> Some (ET_ERROR, sc)
     | Some val \<Rightarrow>
        if val = ET_SUBNET_ALL then Some (ET_OK, sc\<lparr>oc_bcastaddrs := (case bc of None \<Rightarrow> [] | Some xs \<Rightarrow> xs)\<rparr>)
        else if codanetIsDottedDecimal val = None then Some (ET_ERROR, sc)
        else if val \<in> set (oc_bcastaddrs sc) then Some (ET_OK, sc)
        else if \<not> mem then Some (ET_ERROR, sc)
        else if length val \<ge> ET_IPADDRSTRLEN then None
        else Some (ET_OK, sc\<lparr>oc_bcastaddrs := oc_bcastaddrs sc @ [val]\<rparr>))"

definition et_open_config_removebroadcast :: "et_open_config \<Rightarrow> string option \<Rightarrow> int \<times> et_open_config" where
  "et_open_config_removebroadcast sc vp =
    (if oc_init sc \<noteq> ET_STRUCT_OK then (ET_ERROR, sc)
     else case vp of None \<Rightarrow> (ET_ERROR, sc)
     | Some val \<Rightarrow>
        if oc_bcastaddrs sc = [] then (ET_OK, sc)
        else if val = ET_SUBNET_ALL then (ET_OK, sc\<lparr>oc_bcastaddrs := []\<rparr>)
        else if codanetIsDottedDecimal val = None then (ET_ERROR, sc)
        else (ET_OK, sc\<lparr>oc_bcastaddrs := drop_addr val (oc_bcastaddrs sc)\<rparr>))"

definition et_open_config_addmulticast :: "et_open_config \<Rightarrow> string option \<Rightarrow> int \<times> et_open_config" where
  "et_open_config_addmulticast sc vp =
    (if oc_init sc \<noteq> ET_STRUCT_OK then (ET_ERROR, sc)
     else case vp of None \<Rightarrow> (ET_ERROR, sc)
     | Some val \<Rightarrow>
        if length val \<ge> ET_IPADDRSTRLEN \<or> length val < 7 then (ET_ERROR, sc)
        else case codanetIsDottedDecimal val of None \<Rightarrow> (ET_ERROR, sc)
        | Some is \<Rightarrow>
           if hd is < 224 \<or> hd is > 239 then (ET_ERROR, sc)
           else if val \<in> set (oc_mcastaddrs sc) then (ET_OK, sc)
           else if length (oc_mcastaddrs sc) = ET_MAXADDRESSES then (ET_ERROR, sc)
           else (ET_OK, sc\<lparr>oc_mcastaddrs := oc_mcastaddrs sc @ [val]\<rparr>))"

definition et_open_config_removemulticast ::
  "et_open_config \<Rightarrow> string option \<Rightarrow> (int \<times> et_open_config) option" where
  "et_open_config_removemulticast sc vp =
    (if oc_init sc \<noteq> ET_STRUCT_OK then Some (ET_ERROR, sc)
     else case vp of None \<Rightarrow> Some (ET_ERROR, sc)
     | Some val \<Rightarrow>
        if length val \<ge> ET_IPADDRSTRLEN \<or> length val < 7 then Some (ET_ERROR, sc)
        else do {
          n \<leftarrow> firstnumber val;
          Some (if n < 224 \<or> n > 239 then (ET_ERROR, sc)
            else (ET_OK, sc\<lparr>oc_mcastaddrs := drop_addr val (oc_mcastaddrs sc)\<rparr>)) })"

definition et_open_config_sethost :: "et_open_config \<Rightarrow> string option \<Rightarrow> int \<times> et_open_config" where
  "et_open_config_sethost sc vp =
    (case vp of None \<Rightarrow> (ET_ERROR, sc)
     | Some val \<Rightarrow> open_set (\<not> length val > ET_FUNCNAME_LENGTH - 1) (\<lambda>c. c\<lparr>oc_host := val\<rparr>) sc)"

definition et_open_config_setinterface :: "et_open_config \<Rightarrow> string option \<Rightarrow> int \<times> et_open_config" where
  "et_open_config_setinterface sc vp =
    (case vp of None \<Rightarrow> (ET_ERROR, sc)
     | Some val \<Rightarrow> open_set (codanetIsDottedDecimal val \<noteq> None \<and> \<not> length val > ET_IPADDRSTRLEN - 1)
         (\<lambda>c. c\<lparr>oc_interface := val\<rparr>) sc)"

text \<open>
  \<^verbatim>\<open>strncpy\<close> of at most 15 characters into the array \<open>old\<close>, which then has no final zero of its own when the address
  has 15 characters; the array is a list of characters with zeros.
\<close>

definition et_open_config_getinterface ::
  "et_open_config \<Rightarrow> string option \<Rightarrow> (int \<times> string option) option" where
  "et_open_config_getinterface sc vp =
    (case vp of None \<Rightarrow> Some (ET_OK, None)
     | Some old \<Rightarrow>
        if length old < ET_IPADDRSTRLEN - 1 then None
        else let t = take (ET_IPADDRSTRLEN - 1) (oc_interface sc @ replicate (ET_IPADDRSTRLEN - 1) (CHR 0x00)) in
          Some (ET_OK, Some (t @ drop (ET_IPADDRSTRLEN - 1) old)))"

section \<open>What the calls keep\<close>

datatype open_call =
    OpenWait int | OpenCast int | OpenTTL int | OpenMode int | OpenDebug int | OpenPort int | OpenMultiport int
  | OpenServerport int | OpenTimeout "int \<times> int" | OpenPolicy int | OpenTcp int int int
  | AddBroadcast bool "string list option" "string option" | RemoveBroadcast "string option"
  | AddOpenMulticast "string option" | RemoveOpenMulticast "string option"
  | OpenHost "string option" | OpenInterface "string option"

fun open_param :: "open_call \<Rightarrow> et_open_config \<Rightarrow> (int \<times> et_open_config) option" where
  "open_param (OpenWait v) sc = Some (et_open_config_setwait sc v)"
| "open_param (OpenCast v) sc = Some (et_open_config_setcast sc v)"
| "open_param (OpenTTL v) sc = Some (et_open_config_setTTL sc v)"
| "open_param (OpenMode v) sc = Some (et_open_config_setmode sc v)"
| "open_param (OpenDebug v) sc = Some (et_open_config_setdebugdefault sc v)"
| "open_param (OpenPort v) sc = Some (et_open_config_setport sc v)"
| "open_param (OpenMultiport v) sc = Some (et_open_config_setmultiport sc v)"
| "open_param (OpenServerport v) sc = Some (et_open_config_setserverport sc v)"
| "open_param (OpenTimeout v) sc = Some (et_open_config_settimeout sc v)"
| "open_param (OpenPolicy v) sc = Some (et_open_config_setpolicy sc v)"
| "open_param (OpenTcp r t d) sc = Some (et_open_config_settcp sc r t d)"
| "open_param (AddBroadcast mem bc v) sc = et_open_config_addbroadcast sc mem bc v"
| "open_param (RemoveBroadcast v) sc = Some (et_open_config_removebroadcast sc v)"
| "open_param (AddOpenMulticast v) sc = Some (et_open_config_addmulticast sc v)"
| "open_param (RemoveOpenMulticast v) sc = et_open_config_removemulticast sc v"
| "open_param (OpenHost v) sc = Some (et_open_config_sethost sc v)"
| "open_param (OpenInterface v) sc = Some (et_open_config_setinterface sc v)"

fun open_params :: "open_call list \<Rightarrow> et_open_config \<Rightarrow> et_open_config option" where
  "open_params [] sc = Some sc"
| "open_params (c # cs) sc = (case open_param c sc of None \<Rightarrow> None | Some (_, sc) \<Rightarrow> open_params cs sc)"

definition open_ranges :: "et_open_config \<Rightarrow> bool" where
  "open_ranges sc \<longleftrightarrow> oc_init sc = ET_STRUCT_OK \<and> oc_wait sc \<in> {ET_OPEN_NOWAIT, ET_OPEN_WAIT} \<and>
     oc_cast sc \<in> {ET_MULTICAST, ET_BROADCAST, ET_DIRECT, ET_BROADANDMULTICAST} \<and> 0 \<le> oc_ttl sc \<and> oc_ttl sc \<le> 254 \<and>
     oc_mode sc \<in> {ET_HOST_AS_LOCAL, ET_HOST_AS_REMOTE} \<and> oc_debug sc \<in> {ET_DEBUG_NONE..ET_DEBUG_INFO} \<and>
     (\<forall>p\<in>{oc_udpport sc, oc_multiport sc, oc_serverport sc}. 1024 \<le> p \<and> p \<le> 65535) \<and>
     oc_policy sc \<in> {ET_POLICY_FIRST, ET_POLICY_LOCAL, ET_POLICY_ERROR} \<and> 0 \<le> oc_sendbuf sc \<and> 0 \<le> oc_recvbuf sc \<and>
     0 \<le> oc_nodelay sc"

definition open_texts :: "et_open_config \<Rightarrow> bool" where
  "open_texts sc \<longleftrightarrow> length (oc_host sc) < ET_FUNCNAME_LENGTH \<and> length (oc_interface sc) < ET_IPADDRSTRLEN \<and>
     distinct (oc_mcastaddrs sc) \<and> length (oc_mcastaddrs sc) \<le> ET_MAXADDRESSES \<and>
     (\<forall>a\<in>set (oc_mcastaddrs sc). length a < ET_IPADDRSTRLEN)"

definition open_inv :: "et_open_config \<Rightarrow> bool" where
  "open_inv sc \<longleftrightarrow> open_ranges sc \<and> open_texts sc"

lemma drop_addr_set: "set (drop_addr v as) \<subseteq> set as" "distinct as \<Longrightarrow> distinct (drop_addr v as)"
  "length (drop_addr v as) \<le> length as"
proof -
  show s: "set (drop_addr v as) \<subseteq> set as" for as by (induction as) auto
  show "distinct as \<Longrightarrow> distinct (drop_addr v as)" using s by (induction as) auto
  show "length (drop_addr v as) \<le> length as" by (induction as) auto
qed

lemmas open_fields = et_open_config_setwait_def et_open_config_setcast_def et_open_config_setTTL_def
  et_open_config_setmode_def et_open_config_setdebugdefault_def et_open_config_setport_def
  et_open_config_setmultiport_def et_open_config_setserverport_def et_open_config_settimeout_def
  et_open_config_setpolicy_def et_open_config_settcp_def

lemmas open_inv_defs = open_inv_def open_ranges_def open_texts_def

text \<open>Which single changes the invariant allows.\<close>

lemma open_inv_field:
  assumes "open_inv sc"
  shows "v \<in> {ET_OPEN_NOWAIT, ET_OPEN_WAIT} \<Longrightarrow> open_inv (sc\<lparr>oc_wait := v\<rparr>)"
    "v \<in> {ET_MULTICAST, ET_BROADCAST, ET_DIRECT, ET_BROADANDMULTICAST} \<Longrightarrow> open_inv (sc\<lparr>oc_cast := v\<rparr>)"
    "0 \<le> v \<Longrightarrow> v \<le> 254 \<Longrightarrow> open_inv (sc\<lparr>oc_ttl := v\<rparr>)"
    "v \<in> {ET_HOST_AS_LOCAL, ET_HOST_AS_REMOTE} \<Longrightarrow> open_inv (sc\<lparr>oc_mode := v\<rparr>)"
    "v \<in> {ET_DEBUG_NONE..ET_DEBUG_INFO} \<Longrightarrow> open_inv (sc\<lparr>oc_debug := v\<rparr>)"
    "1024 \<le> v \<Longrightarrow> v \<le> 65535 \<Longrightarrow> open_inv (sc\<lparr>oc_udpport := v\<rparr>)"
    "1024 \<le> v \<Longrightarrow> v \<le> 65535 \<Longrightarrow> open_inv (sc\<lparr>oc_multiport := v\<rparr>)"
    "1024 \<le> v \<Longrightarrow> v \<le> 65535 \<Longrightarrow> open_inv (sc\<lparr>oc_serverport := v\<rparr>)"
    "v \<in> {ET_POLICY_FIRST, ET_POLICY_LOCAL, ET_POLICY_ERROR} \<Longrightarrow> open_inv (sc\<lparr>oc_policy := v\<rparr>)"
    "open_inv (sc\<lparr>oc_timeout := t\<rparr>)" "open_inv (sc\<lparr>oc_bcastaddrs := as\<rparr>)"
    "0 \<le> r \<Longrightarrow> 0 \<le> b \<Longrightarrow> 0 \<le> d \<Longrightarrow> open_inv (sc\<lparr>oc_recvbuf := r, oc_sendbuf := b, oc_nodelay := d\<rparr>)"
    "length h < ET_FUNCNAME_LENGTH \<Longrightarrow> open_inv (sc\<lparr>oc_host := h\<rparr>)"
    "length h < ET_IPADDRSTRLEN \<Longrightarrow> open_inv (sc\<lparr>oc_interface := h\<rparr>)"
  using assms by (simp_all add: open_inv_defs)

lemma open_inv_mcast:
  assumes "open_inv sc"
  shows "a \<notin> set (oc_mcastaddrs sc) \<Longrightarrow> length a < ET_IPADDRSTRLEN \<Longrightarrow> length (oc_mcastaddrs sc) \<noteq> ET_MAXADDRESSES \<Longrightarrow>
      open_inv (sc\<lparr>oc_mcastaddrs := oc_mcastaddrs sc @ [a]\<rparr>)"
    "open_inv (sc\<lparr>oc_mcastaddrs := drop_addr a (oc_mcastaddrs sc)\<rparr>)"
  using assms drop_addr_set[where v = a and as = "oc_mcastaddrs sc"] by (auto simp: open_inv_defs)

lemma open_set_inv:
  assumes "open_set ok upd sc = (r, sc')" "open_inv sc" "ok \<Longrightarrow> open_inv (upd sc)"
  shows "open_inv sc'"
  using assms by (auto simp: open_set_def split: if_splits)

lemma open_inv_param:
  assumes i: "open_inv sc" and c: "open_param c sc = Some (r, sc')"
  shows "open_inv sc'"
proof (cases c)
  case (AddBroadcast mem bc v)
  then show ?thesis using i c by (auto simp: et_open_config_addbroadcast_def open_inv_field split: if_splits option.splits)
next
  case (RemoveBroadcast v)
  then show ?thesis using i c by (auto simp: et_open_config_removebroadcast_def open_inv_field split: if_splits option.splits)
next
  case (AddOpenMulticast v)
  then show ?thesis using i c by (auto simp: et_open_config_addmulticast_def open_inv_mcast split: if_splits option.splits)
next
  case (RemoveOpenMulticast v)
  then show ?thesis using i c
    by (auto simp: et_open_config_removemulticast_def open_inv_mcast split: if_splits option.splits bind_splits)
next
  case (OpenHost v)
  then show ?thesis using i c by (auto simp: et_open_config_sethost_def open_set_def open_inv_field split: if_splits option.splits)
next
  case (OpenInterface v)
  then show ?thesis using i c by (auto simp: et_open_config_setinterface_def open_set_def open_inv_field split: if_splits option.splits)
qed (use i c in \<open>auto simp: open_fields open_inv_field elim!: open_set_inv\<close>)

lemma open_inv_params: "open_inv sc \<Longrightarrow> open_params cs sc = Some sc' \<Longrightarrow> open_inv sc'"
  by (induction cs arbitrary: sc) (auto dest: open_inv_param split: option.splits)

lemma open_inv_init: "et_open_config_init mem bc ni = (ET_OK, Some sc) \<Longrightarrow> open_inv sc"
  by (auto simp: et_open_config_init_def open_inv_def open_ranges_def open_texts_def split: if_splits)

end
