(* ===== verification/EtLocal.thy ===== *)
theory EtLocal imports EtOpenConfig EtWake EtMonitor begin

text \<open>
  A process opens, watches and closes a system on its own host (\<^verbatim>\<open>et_local.c\<close>, and \<^verbatim>\<open>et_open\<close>, \<^verbatim>\<open>et_close\<close>,
  \<^verbatim>\<open>et_findlocality\<close> of \<^verbatim>\<open>et_common.c\<close>).

  What the operating system and the network answer is in \<open>os_answers\<close>: the result of \<^verbatim>\<open>et_mem_attach\<close> and the
  difference of the addresses at which the memory is mapped, whether the system answers to a message, and whether the two threads of the
  process report in time; the memory mapped is the state \<open>s\<close>. What the other threads and processes do to it while
  this one sleeps is \<open>others\<close>, the \<open>k\<close>-th function for the \<open>k\<close>-th sleep of the wait for the system, \<open>rest\<close> for the starts of
  the threads. The cancelling of threads and the unmapping have no effect on the shared state. Times
  are in nanoseconds, where the code counts in seconds with the rounding of \<^verbatim>\<open>double\<close>. A remote system, or one on a host
  that cannot share mutexes, is the argument \<open>etr\<close>.
\<close>

abbreviation (input) ET_PROC_ETOK :: int where "ET_PROC_ETOK \<equiv> 1"
abbreviation (input) ET_BEAT :: int where "ET_BEAT \<equiv> 500000000"

record os_answers =
  os_mem :: int
  os_offset :: u64
  os_responds :: bool
  os_heartbeat :: bool
  os_heartmon :: bool

section \<open>Waiting for the system\<close>

text \<open>The loop that waits for a beat of the system's heart; it may wait forever.\<close>

partial_function (option) wait_beat ::
  "(nat \<Rightarrow> et_shm \<Rightarrow> et_shm) \<Rightarrow> bool \<Rightarrow> i32 \<Rightarrow> nat \<Rightarrow> int \<Rightarrow> et_shm \<Rightarrow> (bool \<times> et_shm) option" where
  "wait_beat others forever old k t s =
    (if old \<noteq> heartbeat (sys s) then Some (True, s)
     else if t < 0 then Some (False, s)
     else wait_beat others forever old (Suc k) (if forever then t else t - ET_BEAT) (others k s))"

definition et_wait_for_system ::
  "et_id \<Rightarrow> bool \<Rightarrow> (nat \<Rightarrow> et_shm \<Rightarrow> et_shm) \<Rightarrow> (int \<times> int) option \<Rightarrow> et_shm \<Rightarrow> (int \<times> et_id \<times> et_shm) option" where
  "et_wait_for_system e responds others timeout s =
    (if responds then Some (ET_OK, e\<lparr>alive := 1\<rparr>, s)
     else
       let forever = (timeout = None \<or> timeout = Some (0, 0));
           t = (case timeout of None \<Rightarrow> 10 ^ 9 | Some (sec, nsec) \<Rightarrow> if forever then 10 ^ 9 else sec * 10 ^ 9 + nsec)
       in if alive e = 1 then Some (ET_OK, e, s)
       else do {
         (b, s) \<leftarrow> wait_beat others forever (heartbeat (sys s)) 1 (if forever then t else t - ET_BEAT) (others 0 s);
         Some (if b then (ET_OK, e\<lparr>alive := 1\<rparr>, s) else (ET_ERROR_TIMEOUT, e, s)) })"

section \<open>Opening\<close>

definition upd_entry :: "nat \<Rightarrow> (et_proc \<Rightarrow> et_proc) \<Rightarrow> et_shm \<Rightarrow> et_shm" where
  "upd_entry i f = upd_sys (\<lambda>y. y\<lparr>proc := (proc y)(i := f (proc y i))\<rparr>)"

text \<open>The entry of the process in the table: the first one that is free.\<close>

definition free_entry :: "et_shm \<Rightarrow> nat option" where
  "free_entry s =
    (case filter (\<lambda>i. pr_num (proc (sys s) i) = - 1) [0..<nat (c_nprocesses (sys_config (sys s)))] of
       [] \<Rightarrow> None | i # _ \<Rightarrow> Some i)"

definition register :: "et_id \<Rightarrow> nat \<Rightarrow> et_shm \<Rightarrow> et_shm" where
  "register e i s =
    system_unlock (upd_entry i (\<lambda>p. p\<lparr>pr_num := int i, pr_pid := env_pid e, et_status := ET_PROC_ETOK\<rparr>)
      (upd_sys (\<lambda>y. y\<lparr>nprocesses := nprocesses y + 1\<rparr>) s))"

definition unregister :: "nat \<Rightarrow> et_shm \<Rightarrow> et_shm" where
  "unregister i s =
    system_unlock (upd_sys (\<lambda>y. y\<lparr>nprocesses := nprocesses y - 1\<rparr>) (et_init_process i (system_lock s)))"

definition opened_before :: "et_id \<Rightarrow> et_shm \<Rightarrow> bool" where
  "opened_before e s \<longleftrightarrow>
    (\<exists>i\<in>set [0..<nat (c_nprocesses (sys_config (sys s)))].
       pr_num (proc (sys s) i) > - 1 \<and> pr_pid (proc (sys s) i) = env_pid e)"

text \<open>The registration of the process and the start of its two threads.\<close>

definition join_system ::
  "et_id \<Rightarrow> os_answers \<Rightarrow> (nat \<Rightarrow> et_shm \<Rightarrow> et_shm) \<Rightarrow> et_shm \<Rightarrow> int \<times> et_id \<times> et_shm" where
  "join_system e os rest s =
    (let s = system_lock s in
     case free_entry s of
       None \<Rightarrow> (ET_ERROR, e, system_unlock s)
     | Some i \<Rightarrow>
        let e = e\<lparr>id_proc := int i\<rparr>; s = rest 0 (register e i s) in
        if \<not> os_heartbeat os then (ET_ERROR, e, unregister i s)
        else let s = rest 1 s in
        if \<not> os_heartmon os then (ET_ERROR, e, unregister i s)
        else (ET_OK, e, system_unlock (upd_entry i (\<lambda>p. p\<lparr>pr_status := ET_PROC_OPEN\<rparr>) (system_lock s))))"

definition etl_open ::
  "et_id \<Rightarrow> os_answers \<Rightarrow> (nat \<Rightarrow> et_shm \<Rightarrow> et_shm) \<Rightarrow> (nat \<Rightarrow> et_shm \<Rightarrow> et_shm) \<Rightarrow> et_open_config \<Rightarrow>
   et_shm \<Rightarrow> (int \<times> et_id \<times> et_shm) option" where
  "etl_open e os others rest oc s =
    (if os_mem os \<noteq> ET_OK then Some (os_mem os, e, s)
     else if id_nselects e \<noteq> sys_nselects (sys s) then Some (ET_ERROR, e, s)
     else let e = e\<lparr>id_offset := os_offset os\<rparr> in
     if opened_before e s then Some (ET_ERROR, e, s)
     else let e = e\<lparr>id_bit64 := sys_bit64 (sys s)\<rparr> in
     if id_bit64 e = 0 then Some (ET_ERROR, e, s)
     else do {
       let e = e\<lparr>locality := ET_LOCAL, id_nevents := c_nevents (sys_config (sys s)),
                 esize := event_size (sys_config (sys s)), id_port := sys_port (sys s), ethost := sys_host (sys s)\<rparr>;
       (st, e, s) \<leftarrow> et_wait_for_system e (os_responds os) others
         (Some (if oc_wait oc = ET_OPEN_WAIT then oc_timeout oc else (0, ET_BEAT))) s;
       if st \<noteq> ET_OK then Some (st, e, s) else Some (join_system e os rest s) })"

section \<open>Looking at a system\<close>

text \<open>\<^verbatim>\<open>et_look\<close> maps the memory without entering the system; \<open>e\<close> is the handle that \<^verbatim>\<open>et_id_init\<close> made.\<close>

definition et_look :: "et_id \<Rightarrow> os_answers \<Rightarrow> string option \<Rightarrow> et_shm \<Rightarrow> int \<times> et_id option" where
  "et_look e os filename s =
    (case filename of
       None \<Rightarrow> (ET_ERROR, None)
     | Some f \<Rightarrow>
       if length f > ET_FILENAME_LENGTH - 1 then (ET_ERROR, None)
       else if os_mem os \<noteq> ET_OK then (os_mem os, None)
       else if id_version e \<noteq> sys_version (sys s) then (ET_ERROR, None)
       else if id_nselects e \<noteq> sys_nselects (sys s) then (ET_ERROR, None)
       else (ET_OK, Some (e\<lparr>id_offset := os_offset os, id_nevents := c_nevents (sys_config (sys s)),
              esize := event_size (sys_config (sys s)), id_port := sys_port (sys s), ethost := sys_host (sys s),
              locality := (if id_share e = ET_MUTEX_SHARE then ET_LOCAL else ET_LOCAL_NOSHARE)\<rparr>)))"

definition et_unlook :: "et_id \<Rightarrow> int" where
  "et_unlook e = (if locality e = ET_REMOTE then ET_ERROR else ET_OK)"

section \<open>Closing\<close>

text \<open>\<open>others\<close> is what the other threads do while \<^verbatim>\<open>et_system_close\<close> waits.\<close>

definition leave_system :: "et_id \<Rightarrow> et_shm \<Rightarrow> et_shm option" where
  "leave_system e s =
    (if id_proc e < 0 then None
     else Some (et_init_process (nat (id_proc e)) (upd_sys (\<lambda>y. y\<lparr>nprocesses := nprocesses y - 1\<rparr>) s)))"

definition attached_ids :: "et_id \<Rightarrow> et_shm \<Rightarrow> nat list" where
  "attached_ids e s =
    filter (\<lambda>j. pr_att (proc (sys s) (nat (id_proc e))) j \<noteq> - 1) [0..<nat (c_nattachments (sys_config (sys s)))]"

definition etl_close :: "et_id \<Rightarrow> (et_shm \<Rightarrow> et_shm) \<Rightarrow> et_shm \<Rightarrow> (int \<times> et_shm) option" where
  "etl_close e others s =
    (if id_proc e = ET_SYS then Some (et_system_close e others s)
     else if et_alive e \<noteq> 0 then
       if attached_ids e s \<noteq> [] then Some (ET_ERROR, s)
       else do { s \<leftarrow> leave_system e (system_lock s); Some (ET_OK, system_unlock s) }
     else do { s \<leftarrow> leave_system e s; Some (ET_OK, s) })"

text \<open>The loop of \<^verbatim>\<open>etl_forcedclose\<close> over the attachments; a failing detach ends it.\<close>

fun detach_own :: "et_id \<Rightarrow> int op \<Rightarrow> nat list \<Rightarrow> int op" where
  "detach_own e etr [] s = Some (ET_OK, s)"
| "detach_own e etr (j # js) s =
    (if pr_att (proc (sys s) (nat (id_proc e))) j = - 1 then detach_own e etr js s
     else do {
       (st, s) \<leftarrow> et_station_detach e etr (int j) s;
       if st \<noteq> ET_OK then Some (st, s) else detach_own e etr js s })"

text \<open>The three kinds of system a call is for; \<open>etr\<close> and \<open>etn\<close> are the calls for the two others.\<close>

definition by_locality :: "et_id \<Rightarrow> 'a \<Rightarrow> 'a \<Rightarrow> 'a \<Rightarrow> 'a" where
  "by_locality e r n l = (if locality e = ET_REMOTE then r else if locality e = ET_LOCAL_NOSHARE then n else l)"

definition et_close :: "et_id \<Rightarrow> int op \<Rightarrow> int op \<Rightarrow> (et_shm \<Rightarrow> et_shm) \<Rightarrow> int op" where
  "et_close e etr etn others s = by_locality e (etr s) (etn s) (etl_close e others s)"

text \<open>The detaches take the answer \<open>det\<close> of a remote client; a local system never uses it.\<close>

definition etl_forcedclose :: "et_id \<Rightarrow> int op \<Rightarrow> int op \<Rightarrow> int op \<Rightarrow> (et_shm \<Rightarrow> et_shm) \<Rightarrow> int op" where
  "etl_forcedclose e det etr etn others s =
    (if id_proc e = ET_SYS then Some (et_system_close e others s)
     else do {
       (st, s) \<leftarrow> (if et_alive e \<noteq> 0 then detach_own e det [0..<nat (c_nattachments (sys_config (sys s)))] s
                  else Some (ET_OK, s));
       if st \<noteq> ET_OK then Some (st, s) else et_close e etr etn others s })"

definition et_forcedclose :: "et_id \<Rightarrow> int op \<Rightarrow> int op \<Rightarrow> int op \<Rightarrow> (et_shm \<Rightarrow> et_shm) \<Rightarrow> int op" where
  "et_forcedclose e det etr etn others s = by_locality e (etr s) (etn s) (etl_forcedclose e det etr etn others s)"

section \<open>The threads of the process\<close>

definition et_heartbeat :: "et_id \<Rightarrow> et_shm \<Rightarrow> et_shm" where
  "et_heartbeat e = upd_entry (nat (id_proc e)) (\<lambda>p. p\<lparr>pr_heartbeat := beat (pr_heartbeat p)\<rparr>)"

definition free_att :: "et_id \<Rightarrow> int op \<Rightarrow> (lock \<Rightarrow> nat \<Rightarrow> bool) \<Rightarrow> nat \<Rightarrow> et_shm \<Rightarrow> et_shm option" where
  "free_att e etr busy j s =
    (if pr_att (proc (sys s) (nat (id_proc e))) j = - 1 then Some s
     else do {
       n \<leftarrow> stat_ix s j;
       let s = (if et_mutex_locked (busy (OutM n)) then out_unlock n s else s);
       let s = (if et_mutex_locked (busy (InM n)) then in_unlock n s else s);
       (_, s) \<leftarrow> et_wakeup_attachment e etr (int j) s;
       Some s })"

fun free_atts :: "et_id \<Rightarrow> int op \<Rightarrow> (lock \<Rightarrow> nat \<Rightarrow> bool) \<Rightarrow> nat list \<Rightarrow> et_shm \<Rightarrow> et_shm option" where
  "free_atts e etr busy [] s = Some s"
| "free_atts e etr busy (j # js) s = do { s \<leftarrow> free_att e etr busy j s; free_atts e etr busy js s }"

text \<open>
  One turn of the thread that watches the system's heart: \<open>dis\<close> and \<open>old\<close> are its variables \<^verbatim>\<open>disconnected\<close> and
  \<^verbatim>\<open>oldheartbt\<close>, \<open>off\<close> the difference of the addresses when it connects again.
\<close>

definition et_heartmonitor ::
  "int op \<Rightarrow> (lock \<Rightarrow> nat \<Rightarrow> bool) \<Rightarrow> u64 \<Rightarrow> bool \<times> i32 \<times> et_id \<times> et_shm \<Rightarrow> (bool \<times> i32 \<times> et_id \<times> et_shm) option" where
  "et_heartmonitor etr busy off = (\<lambda>(dis, old, e, s).
     let beats = heartbeat (sys s); me = nat (id_proc e) in
     if old = beats then
       if dis then Some (dis, old, e, s)
       else do {
         let e = e\<lparr>alive := 0\<rparr>;
         let s = upd_entry me (\<lambda>p. p\<lparr>et_status := ET_PROC_ETDEAD\<rparr>) s;
         s \<leftarrow> free_atts e etr busy [0..<nat (c_nattachments (sys_config (sys s)))] s;
         Some (True, old, e, s) }
     else if dis then
       Some (False, beats, e\<lparr>id_offset := off, alive := 1\<rparr>, upd_entry me (\<lambda>p. p\<lparr>et_status := ET_PROC_ETOK\<rparr>) s)
     else Some (False, beats, e, s))"

text \<open>\<open>awake k\<close>: what \<^verbatim>\<open>et_alive\<close> finds after \<open>k\<close> sleeps.\<close>

partial_function (option) etl_wait_for_alive :: "(nat \<Rightarrow> int) \<Rightarrow> nat \<Rightarrow> int option" where
  "etl_wait_for_alive awake k = (if awake k \<noteq> 0 then Some ET_OK else etl_wait_for_alive awake (Suc k))"

end
