(* ===== verification/EtLocalInv.thy ===== *)
theory EtLocalInv imports EtLocal EtCleanup begin

text \<open>
  What opening and closing promise. To the table of processes the system is a set of process identifiers (\<open>pids\<close>):
  opening inserts one, closing removes it, and the count and the numbers of the entries stay right (\<open>table_ok\<close>).
  The wait for the system ends, unless it may last forever. A forced close gives back the events of all
  attachments of the process. A process that takes the entry of one that closed may be taken for dead.
\<close>

section \<open>The wait\<close>

lemma wait_beat_ends: "\<exists>b s'. wait_beat others False old k t s = Some (b, s') \<and> (b \<longleftrightarrow> heartbeat (sys s') \<noteq> old)"
proof (induction "nat (t + ET_BEAT)" arbitrary: k t s rule: less_induct)
  case less
  show ?case
  proof (cases "old \<noteq> heartbeat (sys s) \<or> t < 0")
    case True
    then show ?thesis by (subst wait_beat.simps) auto
  next
    case False
    then have "nat (t - ET_BEAT + ET_BEAT) < nat (t + ET_BEAT)" by simp
    from less[OF this, of "Suc k" "others k s"] show ?thesis using False by (subst wait_beat.simps) simp
  qed
qed

text \<open>The states the wait sees: after each sleep.\<close>

fun slept :: "(nat \<Rightarrow> et_shm \<Rightarrow> et_shm) \<Rightarrow> nat \<Rightarrow> nat \<Rightarrow> et_shm \<Rightarrow> et_shm" where
  "slept others k 0 s = s"
| "slept others k (Suc n) s = slept others (Suc k) n (others k s)"

lemma wait_beat_sees:
  assumes "0 \<le> t" "heartbeat (sys (slept others k n s)) \<noteq> old" "\<And>m. m < n \<Longrightarrow> heartbeat (sys (slept others k m s)) = old"
  shows "wait_beat others True old k t s = Some (True, slept others k n s)"
  using assms
proof (induction n arbitrary: k s)
  case 0
  then show ?case by (subst wait_beat.simps) auto
next
  case (Suc n)
  have h: "heartbeat (sys s) = old" using Suc.prems(3)[of 0] by simp
  have "wait_beat others True old (Suc k) t (others k s) = Some (True, slept others (Suc k) n (others k s))"
  proof (rule Suc.IH)
    show "heartbeat (sys (slept others (Suc k) m (others k s))) = old" if "m < n" for m
      using Suc.prems(3)[of "Suc m"] that by simp
  qed (use Suc.prems(1,2) in simp_all)
  then have "wait_beat others True old (Suc k) t (others k s) = Some (True, slept others k (Suc n) s)" by simp
  then show ?case unfolding wait_beat.simps[of others True old k t s] using h Suc.prems(1) by simp
qed

theorem wait_ends:
  assumes t: "timeout = Some (sec, nsec)" "(sec, nsec) \<noteq> (0, 0)"
  shows "\<exists>st e' s'. et_wait_for_system e responds others timeout s = Some (st, e', s') \<and>
    (st = ET_OK \<and> alive e' = 1 \<or> st = ET_ERROR_TIMEOUT \<and> e' = e \<and> heartbeat (sys s') = heartbeat (sys s))"
proof -
  obtain b s' where "wait_beat others False (heartbeat (sys s)) 1 (sec * 10 ^ 9 + nsec - ET_BEAT) (others 0 s) = Some (b, s')"
    "b \<longleftrightarrow> heartbeat (sys s') \<noteq> heartbeat (sys s)"
    using wait_beat_ends[of others "heartbeat (sys s)" 1 "sec * 10 ^ 9 + nsec - ET_BEAT" "others 0 s"] by blast
  then show ?thesis using t by (auto simp: et_wait_for_system_def Let_def)
qed

lemma wait_state:
  assumes "et_wait_for_system e responds others timeout s = Some (st, e', s')"
    and P: "P s" "\<And>k t. P t \<Longrightarrow> P (others k t)"
  shows "P s' \<and> (e' = e \<or> e' = e\<lparr>alive := 1\<rparr>)"
proof -
  have w: "P u \<longrightarrow> P s'" if "wait_beat others forever old k t u = Some (b, s')" for forever old k t u b
  proof -
    have "others = others \<longrightarrow> P u \<longrightarrow> P (snd (b, s'))"
      by (rule wait_beat.raw_induct[OF _ that, where P = "\<lambda>f _ _ _ _ u y. f = others \<longrightarrow> P u \<longrightarrow> P (snd y)"])
        (use P(2) in \<open>auto split: if_splits\<close>)
    then show ?thesis by simp
  qed
  show ?thesis using assms(1) w P
    by (auto simp: et_wait_for_system_def Let_def split: if_splits Option.bind_splits)
qed

section \<open>The table of processes\<close>

definition members :: "et_shm \<Rightarrow> nat set" where
  "members s = {i. int i < c_nprocesses (sys_config (sys s)) \<and> pr_num (proc (sys s) i) \<noteq> - 1}"

definition pids :: "et_shm \<Rightarrow> int set" where
  "pids s = (\<lambda>i. pr_pid (proc (sys s) i)) ` members s"

definition table_ok :: "et_shm \<Rightarrow> bool" where
  "table_ok s \<longleftrightarrow> nprocesses (sys s) = int (card (members s)) \<and> inj_on (\<lambda>i. pr_pid (proc (sys s) i)) (members s) \<and>
     (\<forall>i\<in>members s. pr_num (proc (sys s) i) = int i)"

text \<open>Two states in which the same processes have the same entries.\<close>

definition same_procs :: "et_shm \<Rightarrow> et_shm \<Rightarrow> bool" where
  "same_procs s t \<longleftrightarrow> nprocesses (sys t) = nprocesses (sys s) \<and> sys_config (sys t) = sys_config (sys s) \<and>
     (\<forall>i. pr_num (proc (sys t) i) = pr_num (proc (sys s) i) \<and> pr_pid (proc (sys t) i) = pr_pid (proc (sys s) i))"

lemma same_procs_refl [simp]: "same_procs s s"
  by (simp add: same_procs_def)

lemma same_procs_trans: "same_procs s t \<Longrightarrow> same_procs t u \<Longrightarrow> same_procs s u"
  by (simp add: same_procs_def)

lemma same_procsD:
  assumes "same_procs s t"
  shows "members t = members s" "pids t = pids s" "table_ok t \<longleftrightarrow> table_ok s"
proof -
  show m: "members t = members s" using assms by (simp add: same_procs_def members_def)
  show "pids t = pids s" using assms by (simp add: pids_def m same_procs_def)
  show "table_ok t \<longleftrightarrow> table_ok s" using assms by (simp add: table_ok_def m same_procs_def)
qed

lemma locks_same_procs [simp]: "same_procs s (system_lock s)" "same_procs s (system_unlock s)"
  by (simp_all add: same_procs_def)

lemma finite_members [simp]: "finite (members s)"
  by (rule finite_subset[of _ "{0..<nat (c_nprocesses (sys_config (sys s)))}"]) (auto simp: members_def)

lemma entry_added:
  assumes s: "table_ok s" "i \<notin> members s" and i: "int i < c_nprocesses (sys_config (sys s))"
    and t: "sys_config (sys t) = sys_config (sys s)" "nprocesses (sys t) = nprocesses (sys s) + 1"
      "\<And>k. k \<noteq> i \<Longrightarrow> pr_num (proc (sys t) k) = pr_num (proc (sys s) k) \<and> pr_pid (proc (sys t) k) = pr_pid (proc (sys s) k)"
      "pr_num (proc (sys t) i) = int i" "pr_pid (proc (sys t) i) \<notin> pids s"
  shows "table_ok t \<and> members t = insert i (members s) \<and> pids t = insert (pr_pid (proc (sys t) i)) (pids s)"
proof -
  have nm: "pr_num (proc (sys t) k) = (if k = i then int i else pr_num (proc (sys s) k))" for k using t(3)[of k] t(4) by simp
  have m: "members t = insert i (members s)" using i by (auto simp: members_def nm t(1))
  have old: "pr_pid (proc (sys t) k) = pr_pid (proc (sys s) k)" "pr_num (proc (sys t) k) = pr_num (proc (sys s) k)"
    if "k \<in> members s" for k using t(3)[of k] that s(2) by auto
  have p: "pids t = insert (pr_pid (proc (sys t) i)) (pids s)" by (auto simp: pids_def m old)
  have "inj_on (\<lambda>k. pr_pid (proc (sys t) k)) (members s)" using s(1) inj_on_cong[of "members s" "\<lambda>k. pr_pid (proc (sys t) k)"] old
    by (simp add: table_ok_def)
  moreover have "pr_pid (proc (sys t) i) \<notin> (\<lambda>k. pr_pid (proc (sys t) k)) ` members s"
    using t(5) old by (auto simp: pids_def image_iff)
  ultimately have "table_ok t" using s t(2,4) old by (auto simp: table_ok_def m)
  then show ?thesis using m p by blast
qed

lemma entry_removed:
  assumes s: "table_ok s" "i \<in> members s"
    and t: "sys_config (sys t) = sys_config (sys s)" "nprocesses (sys t) = nprocesses (sys s) - 1"
      "\<And>k. k \<noteq> i \<Longrightarrow> pr_num (proc (sys t) k) = pr_num (proc (sys s) k) \<and> pr_pid (proc (sys t) k) = pr_pid (proc (sys s) k)"
      "pr_num (proc (sys t) i) = - 1"
  shows "table_ok t \<and> members t = members s - {i} \<and> pids t = pids s - {pr_pid (proc (sys s) i)}"
proof -
  have nm: "pr_num (proc (sys t) k) = (if k = i then - 1 else pr_num (proc (sys s) k))" for k using t(3)[of k] t(4) by simp
  have m: "members t = members s - {i}" by (auto simp: members_def nm t(1))
  have old: "pr_pid (proc (sys t) k) = pr_pid (proc (sys s) k)" "pr_num (proc (sys t) k) = pr_num (proc (sys s) k)"
    if "k \<in> members s - {i}" for k using t(3)[of k] that by auto
  have inj: "inj_on (\<lambda>k. pr_pid (proc (sys s) k)) (members s)" using s(1) by (simp add: table_ok_def)
  have "pids t = (\<lambda>k. pr_pid (proc (sys s) k)) ` (members s - {i})" unfolding pids_def m by (rule image_cong) (simp_all add: old)
  also have "\<dots> = pids s - {pr_pid (proc (sys s) i)}"
    using inj_on_image_set_diff[OF inj, of "members s" "{i}"] s(2) by (simp add: pids_def)
  finally have p: "pids t = pids s - {pr_pid (proc (sys s) i)}" .
  have "inj_on (\<lambda>k. pr_pid (proc (sys t) k)) (members s - {i})"
    using inj_on_subset[OF inj, of "members s - {i}"] inj_on_cong[of "members s - {i}" "\<lambda>k. pr_pid (proc (sys t) k)"] old by simp
  moreover have "int (card (members s - {i})) = int (card (members s)) - 1"
    using s(2) card_gt_0_iff[of "members s"] by (auto simp: of_nat_diff Suc_leI)
  ultimately have "table_ok t" using s t(2) old by (auto simp: table_ok_def m)
  then show ?thesis using m p by blast
qed

section \<open>Opening and closing\<close>

lemma upd_entry_simps [simp]:
  "proc (sys (upd_entry i f s)) = (proc (sys s))(i := f (proc (sys s) i))"
  "sys_config (sys (upd_entry i f s)) = sys_config (sys s)" "nprocesses (sys (upd_entry i f s)) = nprocesses (sys s)"
  "heartbeat (sys (upd_entry i f s)) = heartbeat (sys s)"
  "stats (upd_entry i f s) = stats s" "events (upd_entry i f s) = events s" "attach (sys (upd_entry i f s)) = attach (sys s)"
  by (simp_all add: upd_entry_def)

lemma init_process_entry [simp]:
  "stats (et_init_process i s) = stats s" "events (et_init_process i s) = events s"
  "attach (sys (et_init_process i s)) = attach (sys s)"
  "sys_config (sys (et_init_process i s)) = sys_config (sys s)" "nprocesses (sys (et_init_process i s)) = nprocesses (sys s)"
  "pr_num (proc (sys (et_init_process i s)) k) = (if k = i then - 1 else pr_num (proc (sys s) k))"
  "pr_pid (proc (sys (et_init_process i s)) k) = (if k = i then - 1 else pr_pid (proc (sys s) k))"
  "life (et_init_process i s) i = (ET_PROC_CLOSED, 0, - 1)"
  by (simp_all add: et_init_process_def life_def)

lemma free_entryD: "free_entry s = Some i \<Longrightarrow> int i < c_nprocesses (sys_config (sys s)) \<and> i \<notin> members s"
  by (auto simp: free_entry_def members_def filter_eq_Cons_iff zless_nat_eq_int_zless split: list.splits)
    (auto simp: append_eq_conv_conj dest!: arg_cong[of _ _ set] simp flip: zless_nat_eq_int_zless)

lemma not_opened_before: "table_ok s \<Longrightarrow> \<not> opened_before e s \<Longrightarrow> env_pid e \<notin> pids s"
  by (force simp: opened_before_def table_ok_def pids_def members_def)

lemma register_ok:
  assumes "table_ok s" "env_pid e \<notin> pids s" "i \<notin> members s" "int i < c_nprocesses (sys_config (sys s))"
  shows "table_ok (register e i s) \<and> members (register e i s) = insert i (members s) \<and>
    pids (register e i s) = insert (env_pid e) (pids s) \<and> pr_pid (proc (sys (register e i s)) i) = env_pid e"
proof -
  have r: "pr_pid (proc (sys (register e i s)) i) = env_pid e" by (simp add: register_def)
  show ?thesis using entry_added[OF assms(1,3,4), of "register e i s"] assms(2) r by (simp add: register_def)
qed

lemma unregister_ok:
  assumes "table_ok s" "i \<in> members s"
  shows "table_ok (unregister i s) \<and> members (unregister i s) = members s - {i} \<and>
    pids (unregister i s) = pids s - {pr_pid (proc (sys s) i)}"
  by (rule entry_removed[OF assms]) (simp_all add: unregister_def)

lemma join_system_ok:
  assumes s: "table_ok s" "env_pid e \<notin> pids s" and r: "\<And>k t. same_procs t (rest k t)"
    and j: "join_system e os rest s = (st, e', s')"
  shows "table_ok s' \<and> (if st = ET_OK then pids s' = insert (env_pid e) (pids s) \<and>
      (\<exists>i. id_proc e' = int i \<and> i \<notin> members s \<and> members s' = insert i (members s) \<and>
         pr_pid (proc (sys s') i) = env_pid e \<and> pr_status (proc (sys s') i) = ET_PROC_OPEN)
    else pids s' = pids s \<and> members s' = members s)"
proof (cases "free_entry (system_lock s)")
  case None
  then show ?thesis using j s same_procsD[OF locks_same_procs(2), of "system_lock s"] same_procsD[OF locks_same_procs(1), of s]
    by (auto simp: join_system_def)
next
  case (Some i)
  let ?l = "system_lock s" and ?e = "e\<lparr>id_proc := int i\<rparr>"
  note l = same_procsD[OF locks_same_procs(1), of s]
  have i: "int i < c_nprocesses (sys_config (sys ?l))" "i \<notin> members ?l" using free_entryD[OF Some] by simp_all
  let ?r = "register ?e i ?l"
  have R: "table_ok ?r" "members ?r = insert i (members s)" "pids ?r = insert (env_pid e) (pids s)"
    "pr_pid (proc (sys ?r) i) = env_pid e"
    using register_ok[of ?l ?e i] s i l by simp_all
  have u: "table_ok (unregister i t) \<and> members (unregister i t) = members s \<and> pids (unregister i t) = pids s"
    if "same_procs ?r t" for t
  proof -
    note t = same_procsD[OF that]
    have "pr_pid (proc (sys t) i) = env_pid e" using that R(4) by (simp add: same_procs_def)
    then show ?thesis using unregister_ok[of t i] t R s(2) i(2) l by auto
  qed
  have t0: "same_procs ?r (rest 0 ?r)" by (rule r)
  have t1: "same_procs ?r (rest 1 (rest 0 ?r))" by (rule same_procs_trans[OF t0 r])
  consider (beat) "\<not> os_heartbeat os" "st = ET_ERROR" "s' = unregister i (rest 0 ?r)"
    | (mon) "os_heartbeat os" "\<not> os_heartmon os" "st = ET_ERROR" "s' = unregister i (rest 1 (rest 0 ?r))"
    | (ok) "st = ET_OK" "e' = ?e" "s' = system_unlock (upd_entry i (\<lambda>p. p\<lparr>pr_status := ET_PROC_OPEN\<rparr>) (system_lock (rest 1 (rest 0 ?r))))"
    using j Some by (auto simp: join_system_def Let_def split: if_splits)
  then show ?thesis
  proof cases
    case beat
    then show ?thesis using u[OF t0] by simp
  next
    case mon
    then show ?thesis using u[OF t1] by simp
  next
    case ok
    have "same_procs ?r s'" using t1 by (auto simp: same_procs_def ok(3))
    note t = same_procsD[OF this]
    have "pr_pid (proc (sys s') i) = env_pid e" using \<open>same_procs ?r s'\<close> R(4) unfolding same_procs_def by simp
    moreover have "pr_status (proc (sys s') i) = ET_PROC_OPEN" by (simp add: ok(3))
    ultimately show ?thesis using ok(1,2) t R i(2) l by auto
  qed
qed

lemma etl_openE:
  assumes j: "etl_open e os others rest oc s = Some (st, e', s')"
  obtains (early) "st \<noteq> ET_OK" "s' = s"
    | (late) e1 timeout st2 e2 t where "\<not> opened_before e s" "env_pid e1 = env_pid e"
        "et_wait_for_system e1 (os_responds os) others timeout s = Some (st2, e2, t)"
        "(st, e', s') = (if st2 \<noteq> ET_OK then (st2, e2, t) else join_system e2 os rest t)"
proof -
  let ?e = "e\<lparr>id_offset := os_offset os, id_bit64 := sys_bit64 (sys s), locality := ET_LOCAL,
      id_nevents := c_nevents (sys_config (sys s)), esize := event_size (sys_config (sys s)), id_port := sys_port (sys s),
      ethost := sys_host (sys s)\<rparr>"
  let ?t = "Some (if oc_wait oc = ET_OPEN_WAIT then oc_timeout oc else (0, ET_BEAT))"
  have o': "opened_before (e\<lparr>id_offset := x\<rparr>) s = opened_before e s" for x by (simp add: opened_before_def)
  show ?thesis
  proof (cases "os_mem os \<noteq> ET_OK \<or> id_nselects e \<noteq> sys_nselects (sys s) \<or> opened_before e s \<or> sys_bit64 (sys s) = 0")
    case True
    then have "st \<noteq> ET_OK \<and> s' = s" using j by (auto simp: etl_open_def o' Let_def split: if_splits)
    then show ?thesis using that(1) by blast
  next
    case False
    then have "etl_open e os others rest oc s = do {
       (st, e, s) \<leftarrow> et_wait_for_system ?e (os_responds os) others ?t s;
       if st \<noteq> ET_OK then Some (st, e, s) else Some (join_system e os rest s) }"
      by (simp add: etl_open_def o' del: bind_eq_Some_conv)
    then obtain st2 e2 t where "et_wait_for_system ?e (os_responds os) others ?t s = Some (st2, e2, t)"
      "(if st2 \<noteq> ET_OK then Some (st2, e2, t) else Some (join_system e2 os rest t)) = Some (st, e', s')"
      using j by (auto simp del: split_paired_Ex split: Option.bind_splits)
    moreover from this(2) have "(st, e', s') = (if st2 \<noteq> ET_OK then (st2, e2, t) else join_system e2 os rest t)"
      by (metis option.inject)
    ultimately show ?thesis using False that(2)[of ?e ?t] by auto
  qed
qed

theorem open_ok:
  assumes s: "table_ok s" and o: "\<And>k t. same_procs t (others k t)" and r: "\<And>k t. same_procs t (rest k t)"
    and j: "etl_open e os others rest oc s = Some (st, e', s')"
  shows "table_ok s' \<and> (if st = ET_OK then env_pid e \<notin> pids s \<and> pids s' = insert (env_pid e) (pids s) \<and>
      (\<exists>i. id_proc e' = int i \<and> i \<notin> members s \<and> members s' = insert i (members s) \<and>
         pr_pid (proc (sys s') i) = env_pid e \<and> pr_status (proc (sys s') i) = ET_PROC_OPEN)
    else pids s' = pids s \<and> members s' = members s)"
  using j
proof (cases rule: etl_openE)
  case early
  then show ?thesis using s by simp
next
  case (late e1 timeout st2 e2 t)
  have "same_procs s t \<and> (e2 = e1 \<or> e2 = e1\<lparr>alive := 1\<rparr>)"
    by (rule wait_state[OF late(3)]) (auto intro: same_procs_trans o)
  then have t: "same_procs s t" and e: "env_pid e2 = env_pid e" using late(2) by auto
  note st = same_procsD[OF t]
  show ?thesis
  proof (cases "st2 = ET_OK")
    case True
    then have "join_system e2 os rest t = (st, e', s')" using late(4) by simp
    have "table_ok t" "env_pid e2 \<notin> pids t" using st s not_opened_before[OF s late(1)] e by simp_all
    from join_system_ok[OF this r \<open>join_system e2 os rest t = (st, e', s')\<close>, unfolded st(1,2) e]
    show ?thesis using not_opened_before[OF s late(1)] by (cases "st = ET_OK") simp_all
  next
    case False
    then show ?thesis using late(4) st s by auto
  qed
qed

theorem close_ok:
  assumes s: "table_ok s" "id_proc e = int i" "i \<in> members s" and c: "etl_close e others s = Some (st, s')"
  shows "if st = ET_OK then table_ok s' \<and> members s' = members s - {i} \<and> pids s' = pids s - {pr_pid (proc (sys s) i)} \<and>
      life s' i = (ET_PROC_CLOSED, 0, - 1) \<and> (et_alive e \<noteq> 0 \<longrightarrow> attached_ids e s = [])
    else s' = s \<and> et_alive e \<noteq> 0 \<and> attached_ids e s \<noteq> []"
proof -
  let ?l = "\<lambda>t. et_init_process i (upd_sys (\<lambda>y. y\<lparr>nprocesses := nprocesses y - 1\<rparr>) t)"
  let ?gone = "\<lambda>u. table_ok u \<and> members u = members s - {i} \<and> pids u = pids s - {pr_pid (proc (sys s) i)} \<and>
      life u i = (ET_PROC_CLOSED, 0, - 1)"
  have dead: "?gone (?l s)" using entry_removed[OF s(1,3), of "?l s"] by simp
  let ?u = "system_unlock (?l (system_lock s))"
  have live: "?gone ?u" using entry_removed[OF s(1,3), of ?u] by (simp add: life_def et_init_process_def)
  have c2: "etl_close e others s =
      (if et_alive e \<noteq> 0 then if attached_ids e s \<noteq> [] then Some (ET_ERROR, s) else Some (ET_OK, ?u) else Some (ET_OK, ?l s))"
    using s(2) by (simp add: etl_close_def leave_system_def)
  consider "et_alive e \<noteq> 0" "attached_ids e s \<noteq> []" | "et_alive e \<noteq> 0" "attached_ids e s = []" | "et_alive e = 0" by blast
  then show ?thesis
  proof cases
    case 1
    then show ?thesis using c by (simp add: c2)
  next
    case 2
    then have "st = ET_OK" "s' = ?u" using c by (simp_all add: c2)
    then show ?thesis using live 2(2) by simp
  next
    case 3
    then have "st = ET_OK" "s' = ?l s" using c by (simp_all add: c2)
    then show ?thesis using dead 3 by simp
  qed
qed

section \<open>A forced close\<close>

text \<open>A detach by the process itself takes the attachment off its entry and leaves the other entries alone.\<close>

lemma detach_entry:
  assumes det: "et_station_detach e etr att s = Some (ET_OK, s')" and loc: "locality e = ET_LOCAL"
    and p: "cleanup e \<noteq> 1" "id_proc e = int i"
  shows "proc (sys s') = (proc (sys s))(i := (proc (sys s) i)\<lparr>pr_nattachments := pr_nattachments (proc (sys s) i) - 1,
      pr_att := (pr_att (proc (sys s) i))(nat att := - 1)\<rparr>) \<and> nprocesses (sys s') = nprocesses (sys s)"
proof -
  define a where "a = nat att"
  define n where "n = nat (at_stat (attach (sys s) a))"
  define s1 where "s1 = upd_sys (\<lambda>y. y\<lparr>nattachments := nattachments y - 1\<rparr>)
      (upd_attach a (\<lambda>t. t\<lparr>at_num := - 1, at_status := ET_ATT_UNUSED\<rparr>) (system_lock (station_lock s)))"
  have g: "\<not> (att < 0 \<or> att \<ge> ET_ATTACHMENTS_MAX)" "\<not> att \<ge> c_nattachments (sys_config (sys s))"
    "et_alive e \<noteq> 0" "\<not> at_stat (attach (sys s) a) < 0"
    using det loc p by (auto simp: et_station_detach_def Let_def a_def split: if_splits)
  have "et_station_detach e etr att s = do {
       s \<leftarrow> make_idle e a n s1;
       (_, s) \<leftarrow> et_restore_events e att n s;
       s \<leftarrow> upd_proc (int i) (\<lambda>p. p\<lparr>pr_nattachments := pr_nattachments p - 1,
                     pr_att := (pr_att p)(a := - 1)\<rparr>) (station_unlock (leave_station a n s));
       Some (ET_OK, system_unlock s) }"
    using g loc p by (simp add: et_station_detach_def Let_def a_def[symmetric] n_def[symmetric] s1_def[symmetric])
  then obtain s2 z s3 s4 where s2: "make_idle e a n s1 = Some s2" and s3: "et_restore_events e att n s2 = Some (z, s3)"
    and s4: "upd_proc (int i) (\<lambda>p. p\<lparr>pr_nattachments := pr_nattachments p - 1, pr_att := (pr_att p)(a := - 1)\<rparr>)
        (station_unlock (leave_station a n s3)) = Some s4" and s': "s' = system_unlock s4"
    using det by (auto split: Option.bind_splits)
  have "proc (sys s3) = proc (sys s) \<and> nprocesses (sys s3) = nprocesses (sys s)"
    using make_idle_status[OF s2] restore_events_frame[OF s3] by (simp add: att_frame_def s1_def)
  then show ?thesis using s4 by (auto simp: s' upd_proc_def leave_station_def a_def)
qed

text \<open>What a process needs for its detaches to succeed.\<close>

definition detachable :: "nat \<Rightarrow> et_shm \<Rightarrow> bool" where
  "detachable N s \<longleftrightarrow> sane N s \<and> (\<forall>n. gives_back (stats s n)) \<and> 1 \<le> nevents_max s \<and>
     c_nattachments (sys_config (sys s)) \<le> ET_ATTACHMENTS_MAX"

lemma detach_own_ok:
  assumes loc: "locality e = ET_LOCAL" "et_alive e \<noteq> 0" "cleanup e \<noteq> 1" "id_proc e = int i"
    and m: "env_calloc e 0" "env_calloc e 1" "env_calloc e 2"
  shows "\<lbrakk>detachable N s; distinct js; \<forall>j\<in>set js. int j < c_nattachments (sys_config (sys s));
      \<forall>j\<in>set js. pr_att (proc (sys s) i) j \<noteq> - 1 \<longrightarrow> 0 \<le> at_stat (attach (sys s) j)\<rbrakk>
    \<Longrightarrow> \<exists>s'. detach_own e etr js s = Some (ET_OK, s') \<and> detachable N s' \<and> released (set js \<inter> of_process s i) s s' \<and>
      (\<forall>j\<in>set js. pr_att (proc (sys s') i) j = - 1) \<and> (\<forall>j. j \<notin> set js \<longrightarrow> pr_att (proc (sys s') i) j = pr_att (proc (sys s) i) j) \<and>
      same_procs s s' \<and> (\<forall>k. k \<noteq> i \<longrightarrow> proc (sys s') k = proc (sys s) k)"
proof (induction js arbitrary: s)
  case Nil
  then show ?case by (simp add: released_def)
next
  case (Cons j js)
  have djs: "distinct js" "j \<notin> set js" using Cons.prems(2) by simp_all
  show ?case
  proof (cases "pr_att (proc (sys s) i) j = - 1")
    case True
    have "set (j # js) \<inter> of_process s i = set js \<inter> of_process s i" using True by (auto simp: of_process_def)
    moreover have "detach_own e etr (j # js) s = detach_own e etr js s" using True loc(4) by simp
    moreover obtain s' where "detach_own e etr js s = Some (ET_OK, s')" "detachable N s'" "released (set js \<inter> of_process s i) s s'"
      "\<forall>j\<in>set js. pr_att (proc (sys s') i) j = - 1" "\<forall>j. j \<notin> set js \<longrightarrow> pr_att (proc (sys s') i) j = pr_att (proc (sys s) i) j"
      "same_procs s s'" "\<forall>k. k \<noteq> i \<longrightarrow> proc (sys s') k = proc (sys s) k"
      using Cons.IH[OF Cons.prems(1) djs(1)] Cons.prems(3,4) by auto
    ultimately show ?thesis using True djs(2) by (intro exI[of _ s']) simp
  next
    case False
    have t: "all_placed N s" "stations_ok N s" "\<And>n. gives_back (stats s n)" "1 \<le> nevents_max s"
      "c_nattachments (sys_config (sys s)) \<le> ET_ATTACHMENTS_MAX"
      using Cons.prems(1) by (simp_all add: detachable_def sane_def)
    have j: "int j < c_nattachments (sys_config (sys s))" "0 \<le> at_stat (attach (sys s) (nat (int j)))"
      using Cons.prems(3,4) False by simp_all
    have jm: "int j < ET_ATTACHMENTS_MAX" using j(1) t(5) by simp
    obtain s1 where s1: "et_station_detach e etr (int j) s = Some (ET_OK, s1)" "all_placed N s1" "stations_ok N s1"
      "sys_config (sys s1) = sys_config (sys s)"
      "\<forall>r<nat (nevents_max s). owner (events s1 r) = (if owner (events s r) = int j then ET_SYS else owner (events s r))"
      using detach_recovers[OF loc(1,2) t(1,2,4) _ jm j(1,2) t(3) m, of etr] loc(4) by auto
    note g = conjunct1[OF detach_gone[OF s1(1) loc(1)]]
    note pr = conjunct1[OF detach_entry[OF s1(1) loc(1,3,4)]] and np = conjunct2[OF detach_entry[OF s1(1) loc(1,3,4)]]
    have rel: "released {j} s s1" using s1(4,5) by (simp add: released_def)
    have st: "at_stat (attach (sys s1) k) = at_stat (attach (sys s) k)" for k using g by (simp add: gone_def)
    have d1: "detachable N s1" using s1(2-4) t g by (simp add: detachable_def sane_def gone_def gives_back_def)
    have sp: "same_procs s s1" using pr s1(4) np by (simp add: same_procs_def)
    have of1: "of_process s1 i = of_process s i - {j}" using pr s1(4) by (auto simp: of_process_def)
    have "\<forall>k\<in>set js. pr_att (proc (sys s1) i) k \<noteq> - 1 \<longrightarrow> 0 \<le> at_stat (attach (sys s1) k)"
      using Cons.prems(4) pr djs(2) st by auto
    moreover have "\<forall>k\<in>set js. int k < c_nattachments (sys_config (sys s1))" using Cons.prems(3) s1(4) by simp
    ultimately obtain s2 where s2: "detach_own e etr js s1 = Some (ET_OK, s2)" "detachable N s2" "released (set js \<inter> of_process s1 i) s1 s2"
      "\<forall>j\<in>set js. pr_att (proc (sys s2) i) j = - 1" "\<forall>j. j \<notin> set js \<longrightarrow> pr_att (proc (sys s2) i) j = pr_att (proc (sys s1) i) j"
      "same_procs s1 s2" "\<forall>k. k \<noteq> i \<longrightarrow> proc (sys s2) k = proc (sys s1) k"
      using Cons.IH[OF d1 djs(1)] by blast
    have J: "{j} \<union> (set js \<inter> of_process s1 i) = set (j # js) \<inter> of_process s i"
      using j(1) False djs(2) of1 by (auto simp: of_process_def)
    have "released (set (j # js) \<inter> of_process s i) s s2" using released_trans[OF rel s2(3)] unfolding J .
    moreover have "detach_own e etr (j # js) s = Some (ET_OK, s2)" using False loc(4) s1(1) s2(1) by simp
    moreover have "\<forall>k\<in>set (j # js). pr_att (proc (sys s2) i) k = - 1" using s2(4,5) djs(2) pr by simp
    moreover have "\<forall>k. k \<notin> set (j # js) \<longrightarrow> pr_att (proc (sys s2) i) k = pr_att (proc (sys s) i) k" using s2(5) pr by simp
    moreover have "\<forall>k. k \<noteq> i \<longrightarrow> proc (sys s2) k = proc (sys s) k" using s2(7) pr by simp
    ultimately show ?thesis using s2(2) same_procs_trans[OF sp s2(6)] by blast
  qed
qed

theorem forced_close_ok:
  assumes loc: "locality e = ET_LOCAL" "et_alive e \<noteq> 0" "cleanup e \<noteq> 1" "id_proc e = int i"
    and m: "env_calloc e 0" "env_calloc e 1" "env_calloc e 2" and s: "detachable N s" "table_ok s" "i \<in> members s"
    and a: "\<forall>j\<in>of_process s i. 0 \<le> at_stat (attach (sys s) j)"
  shows "\<exists>s'. et_forcedclose e det etr etn others s = Some (ET_OK, s') \<and> sane N s' \<and> released (of_process s i) s s' \<and>
    table_ok s' \<and> pids s' = pids s - {pr_pid (proc (sys s) i)} \<and> life s' i = (ET_PROC_CLOSED, 0, - 1)"
proof -
  let ?js = "[0..<nat (c_nattachments (sys_config (sys s)))]"
  have js: "\<forall>j\<in>set ?js. int j < c_nattachments (sys_config (sys s))" "set ?js \<inter> of_process s i = of_process s i"
    "\<forall>j\<in>set ?js. pr_att (proc (sys s) i) j \<noteq> - 1 \<longrightarrow> 0 \<le> at_stat (attach (sys s) j)"
    using a by (auto simp: of_process_def zless_nat_eq_int_zless)
  obtain t where t: "detach_own e det ?js s = Some (ET_OK, t)" "detachable N t" "released (of_process s i) s t"
    "\<forall>j\<in>set ?js. pr_att (proc (sys t) i) j = - 1" "same_procs s t"
    using detach_own_ok[OF loc m s(1) distinct_upt js(1,3), of det] unfolding js(2) by blast
  note p = same_procsD[OF t(5)]
  have cfg: "sys_config (sys t) = sys_config (sys s)" using t(5) by (simp add: same_procs_def)
  have free: "attached_ids e t = []" using t(4) loc(4) cfg by (simp add: attached_ids_def)
  let ?u = "system_unlock (et_init_process i (upd_sys (\<lambda>y. y\<lparr>nprocesses := nprocesses y - 1\<rparr>) (system_lock t)))"
  have c: "etl_close e others t = Some (ET_OK, ?u)" using free loc by (simp add: etl_close_def leave_system_def)
  have run: "et_forcedclose e det etr etn others s = Some (ET_OK, ?u)"
    using t(1) c loc by (simp add: et_forcedclose_def by_locality_def etl_forcedclose_def et_close_def)
  have ev: "events ?u = events t" "stats ?u = stats t" "attach (sys ?u) = attach (sys t)" "sys_config (sys ?u) = sys_config (sys t)"
    by simp_all
  have "quiet t ?u" by (rule quiet_same) (simp_all add: same_list_def)
  then have "sane N ?u" using t(2) all_placed_quiet[of N t ?u] ev by (simp add: detachable_def sane_def stations_ok_def)
  moreover have "released (of_process s i) s ?u" using t(3) ev by (simp add: released_def)
  moreover have "table_ok ?u \<and> pids ?u = pids s - {pr_pid (proc (sys s) i)} \<and> life ?u i = (ET_PROC_CLOSED, 0, - 1)"
    using close_ok[OF _ loc(4) _ c] p s(2,3) t(5) by (simp add: same_procs_def)
  ultimately show ?thesis using run by blast
qed

section \<open>A newborn process taken for dead\<close>

lemma open_status:
  assumes "etl_open e os others rest oc s = Some (ET_OK, e', s')"
  shows "\<exists>i. id_proc e' = int i \<and> pr_status (proc (sys s') i) = ET_PROC_OPEN"
  using assms
proof (cases rule: etl_openE)
  case (late e1 timeout st2 e2 t)
  then have "join_system e2 os rest t = (ET_OK, e', s')" by (simp split: if_splits)
  then show ?thesis by (auto simp: join_system_def Let_def split: option.splits if_splits)
qed simp

text \<open>
  The monitor sees a process alive, the process closes, another opens and takes its entry, and at the next turn of
  the monitor its heart has beaten as often as the other's had: the monitor removes it.
\<close>

theorem reopened_entry_killed:
  assumes loc: "locality em = ET_LOCAL" and i: "int i < c_nprocesses (sys_config (sys s0))"
    and first: "et_sys_heartmonitor em etr busy (old, s0) = Some (old1, s1)" "fst (life s0 i) = ET_PROC_OPEN" "\<not> silent old s0 i"
    and opens: "etl_open e os others rest oc s2 = Some (ET_OK, e', s3)" "id_proc e' = int i"
    and beats: "pr_heartbeat (proc (sys s3) i) = pr_heartbeat (proc (sys s0) i)" "sys_config (sys s3) = sys_config (sys s0)"
    and second: "et_sys_heartmonitor em etr busy2 (old1, s3) = Some (old2, s4)"
  shows "fst (life s3 i) = ET_PROC_OPEN \<and> life s4 i = (ET_PROC_CLOSED, 0, - 1)"
proof -
  have "old1 i = pr_heartbeat (proc (sys s0) i)" using monitor_life[OF first(1) loc i] first(2,3) by (simp add: life_def)
  moreover have o: "fst (life s3 i) = ET_PROC_OPEN" using open_status[OF opens(1)] opens(2) by (simp add: life_def)
  ultimately have "silent old1 s3 i" using beats(1) by (simp add: silent_def life_def)
  then show ?thesis using monitor_life[OF second loc] i beats(2) o by simp
qed

section \<open>The system's heart stops\<close>

text \<open>The waiting attachments among \<open>J\<close> are told to quit; nothing else changes in the tables, and no event.\<close>

definition told :: "nat set \<Rightarrow> et_shm \<Rightarrow> et_shm \<Rightarrow> bool" where
  "told J s s' \<longleftrightarrow> events s' = events s \<and> sys_config (sys s') = sys_config (sys s) \<and> proc (sys s') = proc (sys s) \<and>
     (\<forall>j. attach (sys s') j = (attach (sys s) j)\<lparr>quit := (if j \<in> J \<and> att_waits s j then ET_ATT_QUIT else quit (attach (sys s) j))\<rparr>)"

lemma told_refl [simp]: "told {} s s"
  by (simp add: told_def)

lemma told_waits: "told J s t \<Longrightarrow> att_waits t j = att_waits s j"
  by (simp add: told_def att_waits_def)

lemma told_trans: "told J s t \<Longrightarrow> told K t u \<Longrightarrow> told (J \<union> K) s u"
  using told_waits[of J s t] by (auto simp: told_def)

text \<open>The flags of an attachment have their two values.\<close>

definition flags_ok :: "et_shm \<Rightarrow> nat \<Rightarrow> bool" where
  "flags_ok s j \<longleftrightarrow> blocked (attach (sys s) j) \<in> {ET_ATT_BLOCKED, ET_ATT_UNBLOCKED} \<and>
     sleep (attach (sys s) j) \<in> {ET_ATT_SLEEP, ET_ATT_NOSLEEP} \<and> 0 \<le> at_stat (attach (sys s) j)"

lemma free_att_ok:
  assumes loc: "locality e = ET_LOCAL" and j: "int j < c_nattachments (sys_config (sys s))" "int j < ET_ATTACHMENTS_MAX"
    and f: "pr_att (proc (sys s) (nat (id_proc e))) j \<noteq> - 1 \<Longrightarrow> flags_ok s j"
  shows "\<exists>s'. free_att e etr busy j s = Some s' \<and> told ({j} \<inter> of_process s (nat (id_proc e))) s s'"
proof (cases "pr_att (proc (sys s) (nat (id_proc e))) j = - 1")
  case True
  then show ?thesis by (simp add: free_att_def of_process_def)
next
  case False
  define n where "n = nat (at_stat (attach (sys s) j))"
  have n: "stat_ix s j = Some n" using f[OF False] by (simp add: flags_ok_def stat_ix_def n_def)
  define t where "t = (let s = (if et_mutex_locked (busy (OutM n)) then out_unlock n s else s)
     in if et_mutex_locked (busy (InM n)) then in_unlock n s else s)"
  have t: "sys t = sys s" "events t = events s" by (simp_all add: t_def out_unlock_def in_unlock_def)
  have fl: "free_att e etr busy j s = do { (_, s) \<leftarrow> et_wakeup_attachment e etr (int j) t; Some s }"
    using False n by (simp add: free_att_def t_def Let_def)
  have J: "{j} \<inter> of_process s (nat (id_proc e)) = {j}" using False j(1) by (simp add: of_process_def)
  show ?thesis
  proof (cases "att_waits t j")
    case True
    let ?u = "broadcast_in 0 (broadcast_in n (set_quit j ET_ATT_QUIT t))"
    have "et_wakeup_attachment e etr (int j) t = Some (ET_OK, ?u)"
      using wakeup_attachment_ok[of e "int j" t n] loc j True n f[OF False] t
      by (simp add: stat_ix_def flags_ok_def)
    moreover have "told {j} s ?u"
      using True t by (auto simp: told_def att_waits_def broadcast_in_def set_quit_def)
    ultimately show ?thesis using fl J by simp
  next
    case nw: False
    then have "blocked (attach (sys t) j) = ET_ATT_UNBLOCKED \<and> sleep (attach (sys t) j) = ET_ATT_NOSLEEP"
      using f[OF False] t by (auto simp: att_waits_def flags_ok_def)
    then have "et_wakeup_attachment e etr (int j) t = Some (ET_OK, t)"
      using loc j t by (simp add: et_wakeup_attachment_def att_ix_def)
    moreover have "told {j} s t" using nw t by (auto simp: told_def att_waits_def)
    ultimately show ?thesis using fl J by simp
  qed
qed

lemma free_atts_ok:
  assumes loc: "locality e = ET_LOCAL" and m: "c_nattachments (sys_config (sys s)) \<le> ET_ATTACHMENTS_MAX"
  shows "\<lbrakk>\<forall>j\<in>set js. int j < c_nattachments (sys_config (sys s)); \<forall>j\<in>of_process s (nat (id_proc e)). flags_ok s j\<rbrakk>
    \<Longrightarrow> \<exists>s'. free_atts e etr busy js s = Some s' \<and> told (set js \<inter> of_process s (nat (id_proc e))) s s'"
  using m
proof (induction js arbitrary: s)
  case (Cons j js)
  let ?P = "of_process s (nat (id_proc e))"
  have j: "int j < c_nattachments (sys_config (sys s))" "int j < ET_ATTACHMENTS_MAX" using Cons.prems(1,3) by simp_all
  obtain t where t: "free_att e etr busy j s = Some t" "told ({j} \<inter> ?P) s t"
    using free_att_ok[OF loc j, of etr busy] Cons.prems(2) j(1) by (auto simp: of_process_def)
  have same: "sys_config (sys t) = sys_config (sys s)" "of_process t (nat (id_proc e)) = ?P" "flags_ok t k = flags_ok s k" for k
    using t(2) by (auto simp: told_def of_process_def flags_ok_def)
  have "\<exists>s'. free_atts e etr busy js t = Some s' \<and> told (set js \<inter> of_process t (nat (id_proc e))) t s'"
    by (rule Cons.IH) (use Cons.prems same in simp_all)
  then obtain s' where s': "free_atts e etr busy js t = Some s'" "told (set js \<inter> ?P) t s'" unfolding same by blast
  have "({j} \<inter> ?P) \<union> (set js \<inter> ?P) = set (j # js) \<inter> ?P" by auto
  then show ?case using t(1) s'(1) told_trans[OF t(2) s'(2)] by simp
qed simp

theorem heart_stops:
  assumes loc: "locality e = ET_LOCAL" and m: "c_nattachments (sys_config (sys s)) \<le> ET_ATTACHMENTS_MAX"
    and f: "\<forall>j\<in>of_process s (nat (id_proc e)). flags_ok s j"
  shows "\<exists>e' s'. et_heartmonitor etr busy off (False, heartbeat (sys s), e, s) = Some (True, heartbeat (sys s), e', s') \<and>
    et_alive e' = 0 \<and> et_status (proc (sys s') (nat (id_proc e))) = ET_PROC_ETDEAD \<and> events s' = events s \<and>
    (\<forall>j. quit (attach (sys s') j) =
      (if j \<in> of_process s (nat (id_proc e)) \<and> att_waits s j then ET_ATT_QUIT else quit (attach (sys s) j)))"
proof -
  let ?me = "nat (id_proc e)" and ?e = "e\<lparr>alive := 0\<rparr>"
  let ?s = "upd_entry ?me (\<lambda>p. p\<lparr>et_status := ET_PROC_ETDEAD\<rparr>) s"
  let ?js = "[0..<nat (c_nattachments (sys_config (sys s)))]"
  have P: "of_process ?s ?me = of_process s ?me" "flags_ok ?s j = flags_ok s j" "att_waits ?s j = att_waits s j" for j
    by (auto simp: of_process_def flags_ok_def att_waits_def)
  have js: "set ?js \<inter> of_process s ?me = of_process s ?me" by (auto simp: of_process_def zless_nat_eq_int_zless)
  obtain s' where s': "free_atts ?e etr busy ?js ?s = Some s'" "told (of_process s ?me) ?s s'"
    using free_atts_ok[of ?e ?s ?js etr busy] loc m f P js by (auto simp: zless_nat_eq_int_zless)
  then show ?thesis using P by (auto simp: et_heartmonitor_def Let_def told_def et_alive_def)
qed

end
