(* ===== verification/EtOpen.thy ===== *)
theory EtOpen imports EtLocalInv begin

text \<open>
  \<^verbatim>\<open>et_open\<close> (\<^verbatim>\<open>et_common.c\<close>): the handle (\<^verbatim>\<open>et_id_init\<close> of \<^verbatim>\<open>et_init.c\<close>), the decision where the system
  is (\<^verbatim>\<open>et_findlocality\<close>) and the call of the routine for such a system. The answers of the network are arguments: \<open>found\<close> is
  the result of \<^verbatim>\<open>et_findserver2\<close> with the host that answered, \<open>here\<close> tells which hosts are the local one, \<open>etr\<close> and
  \<open>etn\<close> open a remote system and one that does not share mutexes. The lemmas carry what \<^verbatim>\<open>etl_open\<close> promises for the table of
  processes up to \<^verbatim>\<open>et_open\<close>.
\<close>

abbreviation (input) ET_LANG_C :: int where "ET_LANG_C \<equiv> 0"

text \<open>\<open>t\<close> holds the answers of the operating system; \<open>share\<close> and \<open>endian\<close> are the properties of the machine.\<close>

definition et_id_init :: "bool \<Rightarrow> int \<Rightarrow> int \<Rightarrow> et_id \<Rightarrow> int \<times> et_id option" where
  "et_id_init mem share endian t =
    (if \<not> mem then (ET_ERROR, None)
     else (ET_OK, Some (t\<lparr>lang := ET_LANG_C, alive := 0, id_bit64 := 1, id_proc := ET_SYS, cleanup := 0,
       debug := ET_DEBUG_ERROR, id_nevents := 0, id_group := 0, id_version := ET_VERSION,
       id_nselects := int ET_STATION_SELECT_INTS, esize := 0, id_offset := 0, id_share := share, id_data := 0,
       locality := ET_LOCAL, id_port := 0, ethost := [], id_endian := endian, id_systemendian := endian\<rparr>)))"

definition local_kind :: "int \<Rightarrow> int" where
  "local_kind share = (if share = ET_MUTEX_SHARE then ET_LOCAL else ET_LOCAL_NOSHARE)"

definition et_findlocality ::
  "int \<Rightarrow> (string \<Rightarrow> int \<times> string) \<Rightarrow> (string \<Rightarrow> bool) \<Rightarrow> string \<Rightarrow> et_open_config \<Rightarrow> int" where
  "et_findlocality share found here filename oc =
    (if oc_mode oc = ET_HOST_AS_REMOTE then ET_REMOTE
     else if oc_host oc = ET_HOST_REMOTE then ET_REMOTE
     else if oc_host oc = ET_HOST_LOCAL \<or> oc_host oc = ''localhost'' then local_kind share
     else if oc_host oc = ET_HOST_ANYWHERE then
       (let (err, h) = found filename in
        if err = ET_ERROR \<or> err = ET_ERROR_TIMEOUT then err
        else if err = ET_ERROR_TOOMANY then err
        else if here h then local_kind share else ET_REMOTE)
     else if here (oc_host oc) then local_kind share else ET_REMOTE)"

type_synonym opener = "et_id \<Rightarrow> et_open_config \<Rightarrow> et_shm \<Rightarrow> (int \<times> et_id \<times> et_shm) option"

definition open_by :: "opener \<Rightarrow> opener \<Rightarrow> opener \<Rightarrow> int \<Rightarrow> int \<Rightarrow> opener" where
  "open_by etl etr etn share loc e oc s =
    (if loc = ET_LOCAL then etl e oc s
     else if loc = ET_REMOTE then etr e oc s
     else if loc = ET_LOCAL_NOSHARE then etn e oc s
     else if loc = ET_ERROR_TOOMANY \<and> oc_policy oc = ET_POLICY_ERROR then Some (ET_ERROR, e, s)
     else do {
       (st, e, s) \<leftarrow> (if share = ET_MUTEX_SHARE then etl e oc s else etn e oc s);
       if st \<noteq> ET_OK then etr e oc s else Some (st, e, s) })"

definition default_debug :: "et_open_config \<Rightarrow> et_id \<Rightarrow> et_id" where
  "default_debug oc e =
    (let def_debug = (case et_open_config_getdebugdefault oc True of (st, d) \<Rightarrow> if st \<noteq> ET_OK then ET_DEBUG_ERROR else the d)
     in snd (et_system_setdebug e def_debug))"

text \<open>A handle that the call destroys is \<open>None\<close>; when too many systems answer it is kept, though the call fails.\<close>

definition open_found :: "opener \<Rightarrow> opener \<Rightarrow> opener \<Rightarrow> int \<Rightarrow> int \<Rightarrow> et_id \<Rightarrow> et_open_config \<Rightarrow> et_shm \<Rightarrow> (int \<times> et_id option \<times> et_shm) option" where
  "open_found etl etr etn share loc e oc s = do {
     (st, e, s) \<leftarrow> open_by etl etr etn share loc e oc s;
     Some (st, if st = ET_OK \<or> loc = ET_ERROR_TOOMANY \<and> oc_policy oc = ET_POLICY_ERROR then Some e else None, s) }"

text \<open>\<open>dflt\<close> is the configuration \<^verbatim>\<open>et_open_config_init\<close> makes when the caller gives none; \<open>mem\<close>: there is room for the handle.\<close>

definition et_open ::
  "bool \<Rightarrow> int \<Rightarrow> int \<Rightarrow> et_id \<Rightarrow> (string \<Rightarrow> int \<times> string) \<Rightarrow> (string \<Rightarrow> bool) \<Rightarrow> int \<times> et_open_config option \<Rightarrow>
   opener \<Rightarrow> opener \<Rightarrow> opener \<Rightarrow> string option \<Rightarrow> et_open_config option \<Rightarrow> et_shm \<Rightarrow> (int \<times> et_id option \<times> et_shm) option" where
  "et_open mem share endian t found here dflt etl etr etn filename oc s =
    (case (case oc of None \<Rightarrow> (if fst dflt = ET_ERROR then None else snd dflt) | Some c \<Rightarrow> Some c) of
       None \<Rightarrow> Some (ET_ERROR, None, s)
     | Some oc \<Rightarrow>
       (case filename of
          None \<Rightarrow> Some (ET_ERROR, None, s)
        | Some f \<Rightarrow>
          if oc_init oc \<noteq> ET_STRUCT_OK then Some (ET_ERROR, None, s)
          else if length f > ET_FILENAME_LENGTH - 1 then Some (ET_ERROR, None, s)
          else case snd (et_id_init mem share endian t) of
            None \<Rightarrow> Some (ET_ERROR, None, s)
          | Some e \<Rightarrow>
              open_found etl etr etn share (et_findlocality share found here f oc) (default_debug oc e) oc s))"

section \<open>What an opening does to the table of processes\<close>

text \<open>The other ways to open a system leave the processes of this one alone and say so in the handle.\<close>

definition elsewhere :: "opener \<Rightarrow> bool" where
  "elsewhere f \<longleftrightarrow> (\<forall>e oc s st e' s'. f e oc s = Some (st, e', s') \<longrightarrow>
     same_procs s s' \<and> env_pid e' = env_pid e \<and> (st = ET_OK \<longrightarrow> locality e' \<noteq> ET_LOCAL))"

definition enters :: "int \<Rightarrow> et_shm \<Rightarrow> int \<times> et_id \<times> et_shm \<Rightarrow> bool" where
  "enters pid s = (\<lambda>(st, e', s'). table_ok s' \<and> env_pid e' = pid \<and>
     pids s' = (if st = ET_OK \<and> locality e' = ET_LOCAL then insert pid (pids s) else pids s))"

lemma wait_handle: "et_wait_for_system e r others to s = Some (st, e', s') \<Longrightarrow> e' = e \<or> e' = e\<lparr>alive := 1\<rparr>"
  using wait_state[of e r others to s st e' s' "\<lambda>_. True"] by simp

lemma open_handle:
  assumes "etl_open e os others rest oc s = Some (st, e', s')"
  shows "env_pid e' = env_pid e \<and> (st = ET_OK \<longrightarrow> locality e' = ET_LOCAL)"
proof -
  have j: "join_system e2 os rest t = (st, e', s') \<Longrightarrow> env_pid e' = env_pid e2 \<and> locality e' = locality e2" for e2 t
    by (auto simp: join_system_def Let_def split: option.splits if_splits)
  show ?thesis
    using assms wait_handle j unfolding etl_open_def Let_def
    by (auto split: if_splits Option.bind_splits prod.splits) fastforce+
qed

lemma processes_counted: "table_ok s \<Longrightarrow> nprocesses (sys s) = int (card (pids s))"
  by (simp add: table_ok_def pids_def card_image)

lemma enters_elsewhere:
  assumes "elsewhere f" "f e oc s = Some r" "table_ok s"
  shows "enters (env_pid e) s r"
proof -
  obtain st e' s' where r: "r = (st, e', s')" by (cases r)
  have f: "same_procs s s'" "env_pid e' = env_pid e" "st = ET_OK \<Longrightarrow> locality e' \<noteq> ET_LOCAL"
    using assms(1,2) unfolding elsewhere_def r by blast+
  show ?thesis using f same_procsD[OF f(1)] assms(3) by (auto simp: enters_def r)
qed

lemma enters_local:
  assumes "etl_open e os others rest oc s = Some r" "table_ok s"
    and "\<And>k t. same_procs t (others k t)" "\<And>k t. same_procs t (rest k t)"
  shows "enters (env_pid e) s r"
proof -
  obtain st e' s' where r: "r = (st, e', s')" by (cases r)
  show ?thesis
    using open_ok[OF assms(2-4) assms(1)[unfolded r]] open_handle[OF assms(1)[unfolded r]]
    by (cases "st = ET_OK") (simp_all add: enters_def r)
qed

lemma enters_next:
  assumes "enters pid s (st, e, t)" "st \<noteq> ET_OK" "enters pid t r"
  shows "enters pid s r"
  using assms by (auto simp: enters_def)

lemma open_by_enters:
  assumes l: "\<And>e s r. etl e oc s = Some r \<Longrightarrow> table_ok s \<Longrightarrow> enters (env_pid e) s r"
    and o: "elsewhere etr" "elsewhere etn" and s: "table_ok s" and f: "open_by etl etr etn share loc e oc s = Some r"
  shows "enters (env_pid e) s r"
proof -
  note kinds = l enters_elsewhere[OF o(1)] enters_elsewhere[OF o(2)]
  let ?first = "if share = ET_MUTEX_SHARE then etl e oc s else etn e oc s"
  consider "etl e oc s = Some r \<or> etr e oc s = Some r \<or> etn e oc s = Some r" | "r = (ET_ERROR, e, s)"
    | (both) st e1 t where "etl e oc s = Some (st, e1, t) \<or> etn e oc s = Some (st, e1, t)" "st \<noteq> ET_OK" "etr e1 oc t = Some r"
  proof (cases "loc = ET_LOCAL \<or> loc = ET_REMOTE \<or> loc = ET_LOCAL_NOSHARE \<or> loc = ET_ERROR_TOOMANY \<and> oc_policy oc = ET_POLICY_ERROR")
    case True
    then show ?thesis using f that(1,2) by (fastforce simp: open_by_def)
  next
    case False
    then have "open_by etl etr etn share loc e oc s = do {
       (st, e, s) \<leftarrow> ?first; if st \<noteq> ET_OK then etr e oc s else Some (st, e, s) }"
      unfolding open_by_def by presburger
    then obtain st e1 t where u: "?first = Some (st, e1, t)" "(if st \<noteq> ET_OK then etr e1 oc t else Some (st, e1, t)) = Some r"
      using f by (auto simp del: split_paired_Ex split: Option.bind_splits)
    have w: "etl e oc s = Some (st, e1, t) \<or> etn e oc s = Some (st, e1, t)" using u(1) by presburger
    show ?thesis
    proof (cases "st = ET_OK")
      case True
      then show ?thesis using u(2) w that(1) by auto
    next
      case False
      then show ?thesis using u(2) that(3)[OF w] by simp
    qed
  qed
  then show ?thesis
  proof cases
    case 1
    then show ?thesis using kinds s by blast
  next
    case 2
    then show ?thesis using s by (simp add: enters_def)
  next
    case both
    then have first: "enters (env_pid e) s (st, e1, t)" using kinds(1,3) s by blast
    then have "table_ok t" "env_pid e1 = env_pid e" by (simp_all add: enters_def)
    then have "enters (env_pid e) t r" using kinds(2)[OF both(3)] by simp
    then show ?thesis by (rule enters_next[OF first both(2)])
  qed
qed

theorem et_open_ok:
  assumes s: "table_ok s" and q: "\<And>k t. same_procs t (others k t)" "\<And>k t. same_procs t (rest k t)"
    and o: "elsewhere etr" "elsewhere etn"
    and f: "et_open mem share endian t found here dflt (\<lambda>e. etl_open e os others rest) etr etn filename oc s = Some (st, e', s')"
  shows "table_ok s' \<and> (st = ET_OK \<longrightarrow> e' \<noteq> None) \<and>
    pids s' = (if st = ET_OK \<and> locality (the e') = ET_LOCAL then insert (env_pid t) (pids s) else pids s)"
proof -
  have pid: "env_pid (default_debug c e) = env_pid e" for c e
    by (simp add: default_debug_def et_system_setdebug_def Let_def split: prod.splits)
  have id: "snd (et_id_init mem share endian t) = Some e \<Longrightarrow> env_pid e = env_pid t" for e
    by (auto simp: et_id_init_def split: if_splits)
  have "st \<noteq> ET_OK \<and> s' = s \<or> (\<exists>c f e. snd (et_id_init mem share endian t) = Some e \<and>
      open_found (\<lambda>e. etl_open e os others rest) etr etn share (et_findlocality share found here f c) (default_debug c e) c s = Some (st, e', s'))"
    using f by (auto simp: et_open_def split: option.splits if_splits)
  then consider (early) "st \<noteq> ET_OK" "s' = s"
    | (go) e c loc where "env_pid e = env_pid t" "open_found (\<lambda>e. etl_open e os others rest) etr etn share loc e c s = Some (st, e', s')"
    using pid id by metis
  then show ?thesis
  proof cases
    case early
    then show ?thesis using s by simp
  next
    case go
    obtain e1 where e1: "open_by (\<lambda>e. etl_open e os others rest) etr etn share loc e c s = Some (st, e1, s')" "st = ET_OK \<longrightarrow> e' = Some e1"
      using go(2) by (auto simp: open_found_def split: Option.bind_splits)
    have "enters (env_pid e) s (st, e1, s')"
      by (rule open_by_enters[OF _ o s e1(1)]) (rule enters_local[OF _ _ q])
    then show ?thesis using go(1) e1(2) by (auto simp: enters_def)
  qed
qed

end
