(* ===== verification/EtExampleOpen.thy ===== *)
theory EtExampleOpen imports EtExample EtDataView EtOpen begin

text \<open>
  Further states of the small system for the witnesses: one that can be sent to a monitor, one with long names,
  one whose process has an attachment, and one that no process has opened.
\<close>

section \<open>What a monitor sees\<close>

lemma ex_fits: "fits32 0" "fits32 1" "fits32 (- 1)"
  by (simp_all add: fits32_def)

lemma ex_listed: "lists_ok ex_shm [0, 1] (\<lambda>n. [n])"
  by (auto simp: lists_ok_def fwd_layout_def group_ok_def is_parallel_def station_ok_def default_config_def)

lemma ex_stat: "name (stats ex_shm n) = ''S''" "length (st_atts (stats ex_shm n)) \<le> 110"
proof -
  show "name (stats ex_shm n) = ''S''" by (simp add: ex_shm_def ex_station_def Let_def)
  show "length (st_atts (stats ex_shm n)) \<le> 110" using att_list_length[of "st_att (st_data (stats ex_shm n))"] by (simp add: st_atts_def)
qed

lemma ex_stat_sendable:
  assumes "n < 3"
  shows "stat_sendable (stats ex_shm n)" "stat_fits (stats ex_shm n)"
proof -
  consider "n = 0" | "n = 1" | "n = 2" using assms by linarith
  then show "stat_sendable (stats ex_shm n)"
    by cases (simp_all add: stat_sendable_def atts_ok_def ex_stat default_config_def fits32_def c_text_def ex_list_def)
  show "stat_fits (stats ex_shm n)" using ex_stat(2)[of n] by (simp add: stat_fits_def ex_stat(1) default_config_def)
qed

lemma ex_sendable: "all_sendable ex_id (\<lambda>_. ex_shm)"
proof -
  have "sys_sendable ex_id ex_shm" by (simp add: sys_sendable_def Let_def fits32_def c_text_def) (simp add: ex_shm_def ex_sys_def ex_id_def)
  moreover have "att_sendable ex_shm i" if "i \<in> set (in_use_atts ex_shm)" for i
  proof -
    have "i = 0" using that by (auto simp: in_use_atts_def ex_shm_def ex_sys_def split: if_splits)
    then show ?thesis by (simp add: att_sendable_def Let_def fits32_def c_text_def st_ix_def ex_stat) (simp add: ex_shm_def ex_sys_def ex_att_def)
  qed
  moreover have "proc_sendable (proc (sys ex_shm) i)" for i
    by (simp add: proc_sendable_def ex_shm_def ex_sys_def ex_proc_def fits32_def atts_ok_def)
  ultimately show ?thesis using ex_stat_sendable by (simp add: all_sendable_def)
qed

lemma ex_histogram: "\<forall>i. fits32 (histogram ex_shm i)"
  by (simp add: ex_shm_def fits32_def)

text \<open>An attachment from a host with a long name.\<close>

definition ex_long :: et_shm where
  "ex_long = upd_station 1 (\<lambda>ps. ps\<lparr>name := replicate 40 CHR ''s''\<rparr>)
     (upd_attach 0 (\<lambda>a. a\<lparr>host := replicate 250 CHR ''h'', interface := ''129.57.100.100''\<rparr>) ex_shm)"

lemma ex_long_in_use: "in_use_atts ex_long = [0]" "\<exists>b. att_bytes ex_long 0 = Some b"
proof -
  have n: "c_nattachments (sys_config (sys ex_long)) = 2" by (simp add: ex_long_def)
  have "[0..<nat 2] = [0, 1]" by code_simp
  then show "in_use_atts ex_long = [0]" unfolding in_use_atts_def n
    by (simp add: ex_long_def) (simp add: ex_shm_def ex_sys_def ex_att_def)
  show "\<exists>b. att_bytes ex_long 0 = Some b" by (simp add: att_bytes_def st_ix_def ex_long_def)
qed

section \<open>Processes\<close>

text \<open>The process of entry 0 has attachment 0; its heart has beaten three times.\<close>

definition ex_member :: et_shm where
  "ex_member = upd_entry 0 (\<lambda>p. p\<lparr>pr_att := (\<lambda>j. if j = 0 then 0 else - 1), pr_heartbeat := 3\<rparr>) ex_shm"

lemma ex_member_table: "table_ok ex_member" "members ex_member = {0}" "pids ex_member = {0}" "of_process ex_member 0 = {0}"
proof -
  have m: "members ex_member = {0}" by (auto simp: members_def ex_member_def ex_shm_def ex_sys_def ex_proc_def)
  show "table_ok ex_member" unfolding table_ok_def m by (simp add: ex_member_def ex_shm_def ex_sys_def ex_proc_def)
  show "members ex_member = {0}" by (rule m)
  show "pids ex_member = {0}" unfolding pids_def m by (simp add: ex_member_def ex_shm_def ex_sys_def ex_proc_def)
  show "of_process ex_member 0 = {0}" by (auto simp: of_process_def ex_member_def)
qed

lemma ex_member_detachable: "detachable 3 ex_member"
proof -
  have "quiet ex_shm ex_member" by (rule quiet_same) (simp_all add: ex_member_def same_list_def)
  then have "sane 3 ex_member" using all_placed_quiet[OF ex_all_placed(1)] by (simp add: sane_def stations_ok_def ex_member_def)
  then show ?thesis by (simp add: detachable_def ex_member_def gives_back_def default_config_def)
qed

text \<open>The system when no process has opened it.\<close>

definition ex_vacant :: et_shm where
  "ex_vacant = et_init_process 0 (upd_sys (\<lambda>y. y\<lparr>nprocesses := 0\<rparr>) ex_shm)"

lemma ex_vacant_table: "table_ok ex_vacant" "pids ex_vacant = {}" "members ex_vacant = {}"
proof -
  have m: "members ex_vacant = {}" by (auto simp: members_def ex_vacant_def)
  show "table_ok ex_vacant" unfolding table_ok_def m by (simp add: ex_vacant_def)
  show "members ex_vacant = {}" by (rule m)
  show "pids ex_vacant = {}" by (simp add: pids_def m)
qed

definition ex_os :: os_answers where
  "ex_os = \<lparr>os_mem = ET_OK, os_offset = 0, os_responds = True, os_heartbeat = True, os_heartmon = True\<rparr>"

definition ex_open_config :: et_open_config where
  "ex_open_config = the (snd (et_open_config_init True None None))"

lemma ex_open_config_init: "et_open_config_init True None None = (ET_OK, Some ex_open_config)"
  by (simp add: ex_open_config_def et_open_config_init_def)

lemma ex_open_calls: "\<exists>sc. open_params [OpenHost (Some ''.anywhere''), AddOpenMulticast (Some ''239.1.2.3''),
    RemoveOpenMulticast (Some ''224.0.0.1'')] ex_open_config = Some sc \<and> oc_mcastaddrs sc = [''239.1.2.3'']"
proof -
  have "map_option oc_mcastaddrs (open_params [OpenHost (Some ''.anywhere''), AddOpenMulticast (Some ''239.1.2.3''),
    RemoveOpenMulticast (Some ''224.0.0.1'')] ex_open_config) = Some [''239.1.2.3'']" by code_simp
  then show ?thesis by auto
qed

lemma ex_free_entry:
  assumes "c_nprocesses (sys_config (sys s)) = 1" "pr_num (proc (sys s) 0) = - 1"
  shows "free_entry s = Some 0" "\<not> opened_before e s"
  using assms by (simp_all add: free_entry_def opened_before_def)

text \<open>Opening a system that has one free entry and answers.\<close>

lemma ex_opens:
  assumes s: "c_nprocesses (sys_config (sys s)) = 1" "pr_num (proc (sys s) 0) = - 1" "sys_nselects (sys s) = id_nselects e" "sys_bit64 (sys s) = 1"
  shows "\<exists>e'. etl_open e ex_os (\<lambda>_ t. t) rest oc s = Some (ET_OK, e',
      system_unlock (upd_entry 0 (\<lambda>p. p\<lparr>pr_status := ET_PROC_OPEN\<rparr>) (system_lock (rest 1 (rest 0 (register e 0 (system_lock s)))))))
    \<and> id_proc e' = 0 \<and> locality e' = ET_LOCAL"
proof -
  have f: "free_entry (system_lock s) = Some 0" by (rule ex_free_entry) (use s in simp_all)
  have r: "register (e\<lparr>id_offset := x, id_bit64 := b, locality := l, id_nevents := n, esize := z, id_port := p, ethost := h, alive := a, id_proc := i\<rparr>) 0 t = register e 0 t" for x b l n z p h a i t
    by (simp add: register_def)
  show ?thesis
    using s f r ex_free_entry(2)[OF s(1,2)]
    by (simp add: etl_open_def ex_os_def et_wait_for_system_def join_system_def Let_def)
qed

lemma ex_opened: "\<exists>e' s'. et_open True ET_MUTEX_SHARE ET_ENDIAN_LITTLE ex_id (\<lambda>_. (ET_ERROR, [])) (\<lambda>_. False)
      (et_open_config_init True None None) (\<lambda>e. etl_open e ex_os (\<lambda>_ t. t) (\<lambda>_ t. t)) (\<lambda>_ _ _. None) (\<lambda>_ _ _. None)
      (Some ''/tmp/et'') None ex_vacant = Some (ET_OK, Some e', s') \<and> locality e' = ET_LOCAL"
proof -
  have v: "c_nprocesses (sys_config (sys ex_vacant)) = 1" "pr_num (proc (sys ex_vacant) 0) = - 1"
    "sys_nselects (sys ex_vacant) = 6" "sys_bit64 (sys ex_vacant) = 1"
    by (simp_all add: ex_vacant_def et_init_process_def ex_shm_def ex_sys_def)
  let ?e = "default_debug ex_open_config (the (snd (et_id_init True ET_MUTEX_SHARE ET_ENDIAN_LITTLE ex_id)))"
  have n: "id_nselects ?e = 6"
    by (simp add: default_debug_def et_open_config_getdebugdefault_def open_get_def et_system_setdebug_def et_id_init_def Let_def)
  obtain e' t where o: "etl_open ?e ex_os (\<lambda>_ t. t) (\<lambda>_ t. t) ex_open_config ex_vacant = Some (ET_OK, e', t)" "locality e' = ET_LOCAL"
    using ex_opens[OF v(1,2) _ v(4), of ?e "\<lambda>_ t. t" ex_open_config] v(3) n by auto
  have l: "et_findlocality ET_MUTEX_SHARE (\<lambda>_. (ET_ERROR, [])) (\<lambda>_. False) f ex_open_config = ET_LOCAL" for f
    by (simp add: et_findlocality_def local_kind_def ex_open_config_def et_open_config_init_def)
  have i: "oc_init ex_open_config = ET_STRUCT_OK" by (simp add: ex_open_config_def et_open_config_init_def)
  have d: "et_id_init True ET_MUTEX_SHARE ET_ENDIAN_LITTLE ex_id = (ET_OK, Some (the (snd (et_id_init True ET_MUTEX_SHARE ET_ENDIAN_LITTLE ex_id))))"
    by (simp add: et_id_init_def)
  have "et_open True ET_MUTEX_SHARE ET_ENDIAN_LITTLE ex_id (\<lambda>_. (ET_ERROR, [])) (\<lambda>_. False)
      (et_open_config_init True None None) (\<lambda>e. etl_open e ex_os (\<lambda>_ t. t) (\<lambda>_ t. t)) (\<lambda>_ _ _. None) (\<lambda>_ _ _. None)
      (Some ''/tmp/et'') None ex_vacant = Some (ET_OK, Some e', t)"
    unfolding et_open_def ex_open_config_init by (subst d) (use i l o(1) in \<open>simp add: open_found_def open_by_def\<close>)
  then show ?thesis using o(2) by blast
qed

section \<open>A process that closes\<close>

lemma ex_member_pid: "pr_pid (proc (sys ex_member) 0) = 0"
  by (simp add: ex_member_def ex_shm_def ex_sys_def ex_proc_def)

lemma ex_member_close: "etl_close ex_id (\<lambda>s. s) ex_member = Some (ET_ERROR, ex_member)"
  "\<exists>s'. etl_close (ex_id\<lparr>alive := 0\<rparr>) (\<lambda>s. s) ex_member = Some (ET_OK, s')"
proof -
  have "[0..<2] = [0, 1 :: nat]" by code_simp
  then have "attached_ids ex_id ex_member = [0]" by (simp add: attached_ids_def ex_member_def)
  then show "etl_close ex_id (\<lambda>s. s) ex_member = Some (ET_ERROR, ex_member)" by (simp add: etl_close_def)
  show "\<exists>s'. etl_close (ex_id\<lparr>alive := 0\<rparr>) (\<lambda>s. s) ex_member = Some (ET_OK, s')"
    by (simp add: etl_close_def leave_system_def et_alive_def)
qed

text \<open>Attachment 0 of the process waits for events.\<close>

definition ex_reader :: et_shm where
  "ex_reader = upd_entry 0 (\<lambda>p. p\<lparr>pr_att := (\<lambda>j. if j = 0 then 0 else - 1)\<rparr>) ex_blocked"

lemma ex_reader_facts: "c_nattachments (sys_config (sys ex_reader)) = 2" "heartbeat (sys ex_reader) = 0"
  "of_process ex_reader 0 = {0}" "flags_ok ex_reader 0" "att_waits ex_reader 0"
proof -
  show "c_nattachments (sys_config (sys ex_reader)) = 2" by (simp add: ex_reader_def ex_blocked_waits)
  show "heartbeat (sys ex_reader) = 0" by (simp add: ex_reader_def ex_blocked_def upd_attach_def ex_shm_def ex_sys_def)
  show "of_process ex_reader 0 = {0}" by (auto simp: of_process_def ex_reader_def ex_blocked_waits)
  show "flags_ok ex_reader 0" using ex_blocked_waits(2,3,4) by (simp add: flags_ok_def ex_reader_def stat_ix_def Let_def split: if_splits)
  show "att_waits ex_reader 0" using ex_blocked_waits(1) by (simp add: att_waits_def ex_reader_def)
qed

section \<open>A process in the entry of another\<close>

text \<open>The process of entry 0 has no attachment and its heart has beaten three times.\<close>

definition ex_beating :: et_shm where
  "ex_beating = upd_entry 0 (\<lambda>p. p\<lparr>pr_heartbeat := 3\<rparr>) ex_shm"

lemma ex_beating_facts: "life ex_beating 0 = (ET_PROC_OPEN, 3, 0)" "\<not> silent (\<lambda>_. 0) ex_beating 0"
  "sys_config (sys ex_beating) = sys_config (sys ex_shm)" "pr_heartbeat (proc (sys ex_beating) 0) = 3"
  by (simp_all add: silent_def life_def ex_beating_def) (simp_all add: ex_shm_def ex_sys_def ex_proc_def)

lemma ex_beating_turn: "et_sys_heartmonitor ex_id (\<lambda>_. None) (\<lambda>_ _ _ _. False) (\<lambda>_. 0, ex_beating) = Some ((\<lambda>_. 0)(0 := 3), ex_beating)"
proof -
  have n: "[0..<nat 1] = [0]" by simp
  show ?thesis using ex_beating_facts by (simp add: et_sys_heartmonitor_def n life_def Let_def)
qed

lemma ex_beating_table: "table_ok ex_beating" "members ex_beating = {0}"
proof -
  have m: "members ex_beating = {0}" by (auto simp: members_def ex_beating_def ex_shm_def ex_sys_def ex_proc_def)
  show "table_ok ex_beating" unfolding table_ok_def m by (simp add: ex_beating_def ex_shm_def ex_sys_def ex_proc_def)
  show "members ex_beating = {0}" by (rule m)
qed

definition ex_closed :: et_shm where
  "ex_closed = system_unlock (et_init_process 0 (upd_sys (\<lambda>y. y\<lparr>nprocesses := nprocesses y - 1\<rparr>) (system_lock ex_beating)))"

lemma ex_beating_close: "\<exists>s2. etl_close ex_id (\<lambda>s. s) ex_beating = Some (ET_OK, s2) \<and> s2 = ex_closed"
proof -
  have "attached_ids ex_id ex_beating = []" by (simp add: attached_ids_def ex_beating_def) (simp add: ex_shm_def ex_sys_def ex_proc_def)
  then show ?thesis by (simp add: etl_close_def leave_system_def ex_closed_def)
qed

text \<open>The heart of the new process beats three times before the process is open.\<close>

definition ex_beats :: "nat \<Rightarrow> et_shm \<Rightarrow> et_shm" where
  "ex_beats k s = (if k = 1 then et_heartbeat ex_id (et_heartbeat ex_id (et_heartbeat ex_id s)) else s)"

lemma ex_shm_healthy: "healthy 3 [0, 1] (\<lambda>n. [n]) ex_shm"
proof -
  have l: "stations_listed ex_shm [0, 1] (\<lambda>n. [n])"
    by (auto simp: stations_listed_def fwd_layout_def is_parallel_def station_ok_def default_config_def listed_def in_use_def)
  have "known_atts ex_shm n = (if n = 1 then {0} else {})" for n by (auto simp: known_atts_def)
  then have c: "counted ex_shm" by (simp add: counted_def)
  have h: "half_attached ex_shm" by (auto simp: half_attached_def active_def zless_nat_eq_int_zless)
  have p: "of_process ex_shm i = {}" for i by (auto simp: of_process_def ex_shm_def ex_sys_def ex_proc_def)
  show ?thesis using ex_sane ex_dead_sane(3) l c h p by (simp add: healthy_def)
qed

lemma healthy_processes:
  assumes "healthy N ns gs s" "stats t = stats s" "events t = events s" "attach (sys t) = attach (sys s)"
    "sys_config (sys t) = sys_config (sys s)" "stat_head (sys t) = stat_head (sys s)" "\<And>i. of_process t i = {}"
  shows "healthy N ns gs t"
proof -
  have "quiet s t" by (rule quiet_same) (simp_all add: assms same_list_def)
  then have "sane N t" using assms(1) all_placed_quiet[of N s t] by (simp add: healthy_def sane_def stations_ok_def assms(4))
  moreover have "stations_listed t ns gs = stations_listed s ns gs"
    by (simp add: stations_listed_def fwd_layout_def is_parallel_def station_ok_def in_use_def assms(2,5))
  moreover have "half_attached t = half_attached s" by (simp add: half_attached_def active_def assms(2,4,5))
  moreover have "counted t = counted s" by (simp add: counted_def known_atts_def assms(2,5))
  ultimately show ?thesis using assms(1) by (simp add: healthy_def assms(2,4,5,6,7))
qed

lemma ex_reopened: "\<exists>e3 s3. etl_open (ex_id\<lparr>env_pid := 2\<rparr>) ex_os (\<lambda>_ t. t) ex_beats ex_open_config ex_closed = Some (ET_OK, e3, s3) \<and>
    id_proc e3 = 0 \<and> pr_heartbeat (proc (sys s3) 0) = 3 \<and> sys_config (sys s3) = sys_config (sys ex_shm) \<and> healthy 3 [0, 1] (\<lambda>n. [n]) s3"
proof -
  let ?r = "register (ex_id\<lparr>env_pid := 2\<rparr>) 0 (system_lock ex_closed)"
  let ?s = "system_unlock (upd_entry 0 (\<lambda>p. p\<lparr>pr_status := ET_PROC_OPEN\<rparr>) (system_lock (ex_beats 1 (ex_beats 0 ?r))))"
  have b: "beat 0 = 1" "beat 1 = 2" "beat 2 = 3" by (simp_all add: beat_def)
  have c: "c_nprocesses (sys_config (sys ex_closed)) = 1" "pr_num (proc (sys ex_closed) 0) = - 1"
    "sys_nselects (sys ex_closed) = id_nselects (ex_id\<lparr>env_pid := 2\<rparr>)" "sys_bit64 (sys ex_closed) = 1"
    by (simp_all add: ex_closed_def ex_beating_def upd_entry_def et_init_process_def system_lock_def system_unlock_def
        et_system_lock_def et_system_unlock_def) (simp_all add: ex_shm_def ex_sys_def ex_id_def)
  have h: "pr_heartbeat (proc (sys ?r) 0) = 0" by (simp add: register_def ex_closed_def et_init_process_def)
  have "pr_heartbeat (proc (sys ?s) 0) = 3" using h b by (simp add: ex_beats_def et_heartbeat_def)
  moreover have f: "stats ?s = stats ex_shm" "events ?s = events ex_shm" "attach (sys ?s) = attach (sys ex_shm)"
    "sys_config (sys ?s) = sys_config (sys ex_shm)"
    by (simp_all add: ex_beats_def et_heartbeat_def register_def ex_closed_def ex_beating_def)
  moreover have "stat_head (sys ?s) = 0"
    by (simp add: ex_beats_def et_heartbeat_def register_def ex_closed_def ex_beating_def upd_entry_def et_init_process_def)
  moreover have "of_process ?s i = {}" for i
    by (auto simp: of_process_def ex_beats_def et_heartbeat_def register_def ex_closed_def ex_beating_def et_init_process_def)
      (auto simp: ex_shm_def ex_sys_def ex_proc_def)
  ultimately have "healthy 3 [0, 1] (\<lambda>n. [n]) ?s" by (intro healthy_processes[OF ex_shm_healthy]) simp_all
  then show ?thesis using ex_opens[OF c, of ex_beats ex_open_config] f(4) \<open>pr_heartbeat (proc (sys ?s) 0) = 3\<close> by blast
qed

end
