(* ===== verification/EtCodaSwap.thy ===== *)
theory EtCodaSwap imports EtWire begin

text \<open>
  The change of byte order of data in the format of CODA (\<^verbatim>\<open>et_CODAswap\<close> of \<^verbatim>\<open>et_network.c\<close>,
  \<^verbatim>\<open>et_event_CODAswap\<close> of \<^verbatim>\<open>et_event.c\<close>). The data are banks: a length in 32 bit integers, not counting itself,
  a header with the type of the contents in its second byte, and the contents. A bank of banks is entered, every
  other one swapped according to the table \<^verbatim>\<open>dtswap\<close> and skipped.

  A buffer is a list of integers; a buffer of shorts is the same list, the low half of an integer first. An index
  outside a buffer is \<open>None\<close>, and so is a loop that does not end. The index is a C \<^verbatim>\<open>int\<close>, which wraps.
\<close>

unbundle bit_operations_syntax

section \<open>Shorts\<close>

text \<open>A \<^verbatim>\<open>short\<close> becomes an \<^verbatim>\<open>int\<close> in the macro and a \<^verbatim>\<open>short\<close> again in the assignment.\<close>

definition ET_SWAP16 :: "16 word \<Rightarrow> 16 word" where
  "ET_SWAP16 x = (let x = scast x :: i32 in
     ucast ((signed_drop_bit 8 x AND 0x00FF) OR (push_bit 8 x AND 0xFF00)))"

lemma bit_ET_SWAP16:
  "bit (ET_SWAP16 x) n \<longleftrightarrow> n < 16 \<and> (if n < 8 then bit x (n + 8) else bit x (n - 8))"
proof -
  have m: "(0xFF :: i32) = mask 8" "(0xFF00 :: i32) = push_bit 8 (mask 8)"
    by (simp_all add: mask_eq_exp_minus_1 push_bit_eq_mult)
  show ?thesis unfolding ET_SWAP16_def m Let_def by (auto simp: bit_simps add.commute)
qed

lemma ET_SWAP16_swap [simp]: "ET_SWAP16 (ET_SWAP16 x) = x"
  by (rule bit_word_eqI) (auto simp: bit_ET_SWAP16)

definition get_short :: "i32 list \<Rightarrow> nat \<Rightarrow> 16 word" where
  "get_short xs k = (let x = xs ! (k div 2) in if k mod 2 = 0 then ucast x else ucast (drop_bit 16 x))"

definition set_half :: "nat \<Rightarrow> 16 word \<Rightarrow> i32 \<Rightarrow> i32" where
  "set_half k v x = (if k mod 2 = 0 then push_bit 16 (drop_bit 16 x) OR ucast v
     else take_bit 16 x OR push_bit 16 (ucast v))"

definition put_short :: "nat \<Rightarrow> 16 word \<Rightarrow> i32 list \<Rightarrow> i32 list" where
  "put_short k v xs = xs[k div 2 := set_half k v (xs ! (k div 2))]"

section \<open>The routine\<close>

abbreviation (input) DT_BANK :: nat where "DT_BANK \<equiv> 0x10"

definition dtswap :: "nat list" where
  "dtswap = [0,2,2,0,1,1,0,0, 3,2,3,0,0,0,0,0] @ replicate 240 0"

definition wrap32 :: "int \<Rightarrow> int" where
  "wrap32 i = sint (word_of_int i :: i32)"

lemma wrap32_id [simp]: "fits32 i \<Longrightarrow> wrap32 i = i"
  by (simp add: wrap32_def)

text \<open>The source buffer, which is the destination itself where the caller gives none.\<close>

definition src_of :: "i32 list option \<Rightarrow> i32 list \<Rightarrow> i32 list" where
  "src_of so d = (case so of None \<Rightarrow> d | Some s \<Rightarrow> s)"

definition in_bounds :: "i32 list option \<Rightarrow> int \<Rightarrow> int \<Rightarrow> i32 list \<Rightarrow> bool" where
  "in_bounds so i n d \<longleftrightarrow> 0 \<le> i \<and> i + n \<le> int (length (src_of so d)) \<and> i + n \<le> int (length d)"

definition swap_shorts :: "i32 list option \<Rightarrow> nat \<Rightarrow> nat \<Rightarrow> i32 list \<Rightarrow> i32 list" where
  "swap_shorts so i n d =
     fold (\<lambda>j d. put_short (2 * i + j) (ET_SWAP16 (get_short (src_of so d) (2 * i + j))) d) [0..<2 * n] d"

definition swap_ints :: "i32 list option \<Rightarrow> nat \<Rightarrow> nat \<Rightarrow> i32 list \<Rightarrow> i32 list" where
  "swap_ints so i n d = fold (\<lambda>j d. d[i + j := ET_SWAP32 (src_of so d ! (i + j))]) [0..<n] d"

text \<open>
  The switch on the type of the data. A length that is not positive does not enter the loops; twice a length of
  \<open>2 ^ 30\<close> or more is not an \<^verbatim>\<open>int\<close>.
\<close>

definition swap_data :: "i32 list option \<Rightarrow> int \<Rightarrow> int \<Rightarrow> nat \<Rightarrow> i32 list \<Rightarrow> i32 list option" where
  "swap_data so i blen kind d =
    (if kind \<notin> {1, 2, 3} \<or> blen \<le> 0 then Some d
     else if \<not> in_bounds so i blen d then None
     else if kind = 1 then (if blen < 2 ^ 30 then Some (swap_shorts so (nat i) (nat blen) d) else None)
     else Some (swap_ints so (nat i) (nat blen) d))"

definition data_type :: "i32 \<Rightarrow> nat" where
  "data_type h = unat (drop_bit 8 (h AND 0xff00))"

definition local_order :: "int \<Rightarrow> i32 \<Rightarrow> i32" where
  "local_order same_endian x = (if same_endian \<noteq> 0 then x else ET_SWAP32 x)"

partial_function (option) coda_loop :: "i32 list option \<Rightarrow> int \<Rightarrow> int \<Rightarrow> int \<Rightarrow> i32 list \<Rightarrow> i32 list option" where
  "coda_loop so nints same_endian i d =
    (if i < nints then
       if \<not> in_bounds so i 2 d then None
       else
         let l = src_of so d ! nat i; h = src_of so d ! (nat i + 1);
           blen = sint (local_order same_endian l - 1); dtype = data_type (local_order same_endian h);
           d = d[nat i := ET_SWAP32 l, nat i + 1 := ET_SWAP32 h]
         in if dtype = DT_BANK then coda_loop so nints same_endian (wrap32 (i + 2)) d
            else do { d \<leftarrow> swap_data so (wrap32 (i + 2)) blen (dtswap ! dtype) d;
                      coda_loop so nints same_endian (wrap32 (i + 2 + blen)) d }
     else Some d)"

definition et_CODAswap :: "i32 list \<Rightarrow> i32 list option \<Rightarrow> int \<Rightarrow> int \<Rightarrow> (int \<times> i32 list) option" where
  "et_CODAswap src dest nints same_endian = (case dest of
      None \<Rightarrow> do { d \<leftarrow> coda_loop None nints same_endian 0 src; Some (ET_OK, d) }
    | Some d \<Rightarrow> do { d \<leftarrow> coda_loop (Some src) nints same_endian 0 d; Some (ET_OK, d) })"

text \<open>Swapping the data of an event also swaps its byte order.\<close>

definition et_event_CODAswap :: "et_event \<Rightarrow> i32 list \<Rightarrow> (int \<times> et_event \<times> i32 list) option" where
  "et_event_CODAswap pe xs = (
     let n = sint (ucast (ev_length pe div 4) :: i32);
       same_endian = (if byteorder pe \<noteq> 0x04030201 then 0 else 1)
     in do { (st, xs) \<leftarrow> et_CODAswap xs None n same_endian;
             if st \<noteq> ET_OK then Some (ET_ERROR, pe, xs)
             else Some (ET_OK, pe\<lparr>byteorder := ET_SWAP32 (byteorder pe)\<rparr>, xs) })"

section \<open>The loops over the contents\<close>

text \<open>An integer of two shorts, each swapped.\<close>

definition swap_halves :: "i32 \<Rightarrow> i32" where
  "swap_halves x = ucast (ET_SWAP16 (ucast x)) OR push_bit 16 (ucast (ET_SWAP16 (ucast (drop_bit 16 x))))"

lemma bit_swap_halves:
  "bit (swap_halves x) n \<longleftrightarrow> n < 32 \<and>
     (if n < 8 then bit x (n + 8) else if n < 16 then bit x (n - 8) else if n < 24 then bit x (n + 8) else bit x (n - 8))"
  unfolding swap_halves_def by (auto simp: bit_simps bit_ET_SWAP16 bit_imp_le_length add.commute)

lemma swap_halves_swap [simp]: "swap_halves (swap_halves x) = x"
  by (rule bit_word_eqI) (auto simp: bit_swap_halves)


lemma src_of_simps [simp]: "src_of None d = d" "src_of (Some s) d = s"
  by (simp_all add: src_of_def)

text \<open>What is still to be read is not written yet, whether the source is the destination or not.\<close>

definition facing :: "i32 list option \<Rightarrow> nat \<Rightarrow> i32 list \<Rightarrow> i32 list \<Rightarrow> bool" where
  "facing so i xs d \<longleftrightarrow> i + length xs \<le> length d \<and> i + length xs \<le> length (src_of so d) \<and>
     (\<forall>j<length xs. src_of so d ! (i + j) = xs ! j)"

lemma facing_nth: "facing so i xs d \<Longrightarrow> j < length xs \<Longrightarrow> src_of so d ! (i + j) = xs ! j"
  by (simp add: facing_def)

lemma facing_drop:
  assumes "facing so i (xs @ ys) d" "length d' = length d" "drop (i + length xs) d' = drop (i + length xs) d"
  shows "facing so (i + length xs) ys d'"
proof -
  have "src_of so d ! (i + (length xs + j)) = ys ! j" if "j < length ys" for j
    using facing_nth[OF assms(1), of "length xs + j"] that by simp
  moreover have "d' ! (i + (length xs + j)) = d ! (i + (length xs + j))" if "j < length ys" for j
    using arg_cong[OF assms(3), of "\<lambda>e. e ! j"] that assms(1,2) by (simp add: facing_def add.assoc)
  ultimately show ?thesis using assms(1,2) by (cases so) (auto simp: facing_def add.assoc)
qed

lemmas facing_step = facing_drop[of _ _ "[x]" for x, simplified]

lemma facing_append: "facing so i (xs @ ys) d \<Longrightarrow> facing so i xs d"
  by (auto simp: facing_def) (metis nth_append trans_less_add1)

lemma fold_shift: "fold (\<lambda>j. g (i + j)) [0..<n] = fold g [i..<i + n]"
proof -
  have "[i..<i + n] = map ((+) i) [0..<n]"
    using map_add_upt[of i n] by (simp add: add.commute cong: map_cong)
  then show ?thesis by (simp add: fold_map comp_def)
qed

lemma fold_cells:
  assumes "facing so i xs d"
  shows "fold (\<lambda>k d. d[k := f (src_of so d ! k)]) [i..<i + length xs] d =
    take i d @ map f xs @ drop (i + length xs) d"
  using assms
proof (induction xs arbitrary: i d)
  case (Cons x xs)
  let ?d = "d[i := f x]"
  have x: "src_of so d ! i = x" using facing_nth[OF Cons.prems, of 0] by simp
  have l: "i < length d" using Cons.prems by (simp add: facing_def)
  have u: "[i..<i + length (x # xs)] = i # [Suc i..<Suc i + length xs]" by (simp add: upt_rec)
  have "facing so (Suc i) xs ?d" by (rule facing_step[OF Cons.prems]) auto
  from Cons.IH[OF this] show ?case
    unfolding u using l by (simp add: x take_Suc_conv_app_nth)
qed simp

lemma swap_ints_facing:
  "facing so i xs d \<Longrightarrow> swap_ints so i (length xs) d = take i d @ map ET_SWAP32 xs @ drop (i + length xs) d"
  unfolding swap_ints_def using fold_cells[of so i xs d ET_SWAP32]
    fold_shift[of "\<lambda>k d. d[k := ET_SWAP32 (src_of so d ! k)]" i "length xs"] by simp

text \<open>Two shorts make an integer.\<close>

lemma set_halves:
  "set_half 1 (ET_SWAP16 (ucast (drop_bit 16 y))) (set_half 0 (ET_SWAP16 (ucast y)) x) = swap_halves y"
  unfolding set_half_def swap_halves_def
  by (rule bit_word_eqI) (auto simp: bit_simps dest: bit_imp_le_length)

lemma two_shorts:
  assumes "m < length d"
  shows "(let d1 = put_short (2 * m) (ET_SWAP16 (get_short (src_of so d) (2 * m))) d
    in put_short (2 * m + 1) (ET_SWAP16 (get_short (src_of so d1) (2 * m + 1))) d1) =
    d[m := swap_halves (src_of so d ! m)]"
proof -
  have h: "ucast (drop_bit 16 (set_half 0 v x)) = (ucast (drop_bit 16 x) :: 16 word)" for v x
    unfolding set_half_def by (rule bit_word_eqI) (auto simp: bit_simps dest: bit_imp_le_length)
  have o: "set_half (2 * m) = set_half 0" "set_half (Suc (2 * m)) = set_half 1"
    by (simp_all add: set_half_def fun_eq_iff)
  show ?thesis using assms
    by (cases so) (simp_all add: put_short_def get_short_def Let_def o h set_halves[unfolded One_nat_def])
qed

lemma swap_shorts_cells:
  assumes "i + n \<le> length d"
  shows "swap_shorts so i n d = fold (\<lambda>k d. d[k := swap_halves (src_of so d ! k)]) [i..<i + n] d"
proof -
  let ?g = "\<lambda>j d. put_short j (ET_SWAP16 (get_short (src_of so d) j)) d"
  have "fold ?g [2 * i..<2 * i + 2 * n] d = fold (\<lambda>k d. d[k := swap_halves (src_of so d ! k)]) [i..<i + n] d"
    using assms
  proof (induction n)
    case (Suc n)
    let ?d = "fold (\<lambda>k d. d[k := swap_halves (src_of so d ! k)]) [i..<i + n] d"
    have "length (fold (\<lambda>k d. d[k := swap_halves (src_of so d ! k)]) ks d) = length d" for ks
      by (induction ks arbitrary: d) simp_all
    then have "?g (2 * (i + n) + 1) (?g (2 * (i + n)) ?d) = ?d[i + n := swap_halves (src_of so ?d ! (i + n))]"
      using two_shorts[of "i + n" ?d so] Suc.prems by (simp add: Let_def)
    moreover have "[2 * i..<2 * i + 2 * Suc n] = [2 * i..<2 * i + 2 * n] @ [2 * (i + n), 2 * (i + n) + 1]"
      by (simp add: algebra_simps)
    ultimately show ?case using Suc by simp
  qed simp
  then show ?thesis unfolding swap_shorts_def using fold_shift[of ?g "2 * i" "2 * n"] by simp
qed

lemma swap_shorts_facing:
  assumes "facing so i xs d"
  shows "swap_shorts so i (length xs) d = take i d @ map swap_halves xs @ drop (i + length xs) d"
  using assms fold_cells[OF assms, of swap_halves] swap_shorts_cells[of i "length xs" d so] by (simp add: facing_def)


lemma swap_data_facing:
  assumes "facing so i xs d" "length xs < 2 ^ 30"
  shows "swap_data so (int i) (int (length xs)) kind d =
    Some (take i d @ (if kind = 1 then map swap_halves xs else if kind \<in> {2, 3} then map ET_SWAP32 xs
      else take (length xs) (drop i d)) @ drop (i + length xs) d)"
proof (cases "xs = [] \<or> kind \<notin> {1, 2, 3}")
  case True
  have "d = take i d @ take (length xs) (drop i d) @ drop (i + length xs) d"
    by (metis append_take_drop_id drop_drop add.commute)
  moreover have "length xs = 0 \<or> kind \<notin> {1, 2, 3}" using True by simp
  ultimately show ?thesis by (auto simp: swap_data_def)
next
  case False
  then have "in_bounds so (int i) (int (length xs)) d" using assms(1) by (simp add: in_bounds_def facing_def)
  then show ?thesis using False assms
    by (auto simp: swap_data_def swap_shorts_facing swap_ints_facing)
qed

section \<open>Banks\<close>

text \<open>
  A buffer of banks: the header of a bank of banks, whose length the routine does not use, or a bank with its header
  and contents.
\<close>

datatype coda = Banks i32 i32 | Bank i32 "i32 list"

fun bank_ok :: "coda \<Rightarrow> bool" where
  "bank_ok (Banks l h) = (data_type h = DT_BANK)"
| "bank_ok (Bank h xs) = (data_type h \<noteq> DT_BANK \<and> length xs + 1 < 2 ^ 30)"

definition swapped :: "nat \<Rightarrow> i32 list \<Rightarrow> i32 list" where
  "swapped kind xs = (if kind = 1 then map swap_halves xs else if kind \<in> {2, 3} then map ET_SWAP32 xs else xs)"

text \<open>The integers of a bank as a machine of this byte order has them, and as one of the other order wrote them.\<close>

fun bank_ints :: "bool \<Rightarrow> coda \<Rightarrow> i32 list" where
  "bank_ints native (Banks l h) = (if native then [l, h] else [ET_SWAP32 l, ET_SWAP32 h])"
| "bank_ints native (Bank h xs) = (let l = word_of_nat (length xs + 1) in
     if native then l # h # xs else ET_SWAP32 l # ET_SWAP32 h # swapped (dtswap ! data_type h) xs)"

definition coda_ints :: "bool \<Rightarrow> coda list \<Rightarrow> i32 list" where
  "coda_ints native bs = concat (map (bank_ints native) bs)"

lemma coda_ints_simps [simp]:
  "coda_ints b [] = []" "coda_ints b (x # xs) = bank_ints b x @ coda_ints b xs"
  by (simp_all add: coda_ints_def)

lemma length_swapped [simp]: "length (swapped k xs) = length xs"
  by (simp add: swapped_def)

lemma length_bank_ints: "length (bank_ints b x) = length (bank_ints c x)" "2 \<le> length (bank_ints b x)"
  by (cases x; simp add: Let_def)+

lemma length_coda_ints: "length (coda_ints b xs) = length (coda_ints c xs)"
  by (induction xs) (simp_all add: length_bank_ints(1)[of b _ c])

text \<open>What the routine leaves in the destination: contents that need no swap are not copied.\<close>

fun merged :: "bool \<Rightarrow> coda list \<Rightarrow> i32 list \<Rightarrow> i32 list" where
  "merged b [] d = []"
| "merged b (Banks l h # bs) d = bank_ints b (Banks l h) @ merged b bs (drop 2 d)"
| "merged b (Bank h xs # bs) d =
    (if dtswap ! data_type h \<in> {1, 2, 3} then bank_ints b (Bank h xs)
     else take 2 (bank_ints b (Bank h xs)) @ take (length xs) (drop 2 d)) @ merged b bs (drop (2 + length xs) d)"

lemma merged_in_place: "merged (\<not> b) bs (coda_ints b bs @ ds) = coda_ints (\<not> b) bs"
proof (induction bs)
  case (Cons x bs)
  then show ?case by (cases x; cases b) (auto simp: Let_def swapped_def)
qed simp

lemma two_updates:
  assumes "i + 2 \<le> length d"
  shows "d[i := x, i + 1 := y] = take i d @ [x, y] @ drop (i + 2) d"
proof -
  have "d = take i d @ [d ! i, d ! (i + 1)] @ drop (i + 2) d"
    using assms by (simp add: Cons_nth_drop_Suc)
  then obtain us v w vs where "d = us @ v # w # vs" "length us = i"
    using assms by (metis add_leD1 append_Cons append_Nil length_take min_absorb2)
  then show ?thesis by (simp add: list_update_append)
qed

lemma local_order [simp]:
  "local_order (of_bool b) (if b then x else ET_SWAP32 x) = x"
  by (simp add: local_order_def)

lemma other_order: "ET_SWAP32 (if b then x else ET_SWAP32 x) = (if \<not> b then x else ET_SWAP32 x)"
  by simp

text \<open>The length of a bank, read back.\<close>

lemma bank_length [simp]: "n + 1 < 2 ^ 30 \<Longrightarrow> sint (word_of_nat (n + 1) - 1 :: i32) = int n"
  using sint_of_nat32[of n] by simp

text \<open>One turn of the loop.\<close>

lemma coda_turn:
  assumes f: "facing so i [if b then l else ET_SWAP32 l, if b then h else ET_SWAP32 h] d" and n: "int i < nints"
  shows "coda_loop so nints (of_bool b) (int i) d = (
     let d = take i d @ [if \<not> b then l else ET_SWAP32 l, if \<not> b then h else ET_SWAP32 h] @ drop (i + 2) d
     in if data_type h = DT_BANK then coda_loop so nints (of_bool b) (wrap32 (int i + 2)) d
        else do { d \<leftarrow> swap_data so (wrap32 (int i + 2)) (sint (l - 1)) (dtswap ! data_type h) d;
                  coda_loop so nints (of_bool b) (wrap32 (int i + 2 + sint (l - 1))) d })"
proof -
  have "in_bounds so (int i) 2 d" "i + 2 \<le> length d" using f by (auto simp: in_bounds_def facing_def)
  moreover have "src_of so d ! i = (if b then l else ET_SWAP32 l)"
    "src_of so d ! (i + 1) = (if b then h else ET_SWAP32 h)"
    using facing_nth[OF f, of 0] facing_nth[OF f, of 1] by simp_all
  ultimately show ?thesis
    using n by (subst coda_loop.simps) (simp only: Let_def nat_int two_updates local_order other_order if_True if_False simp_thms)
qed

lemma bank_ints_split:
  "bank_ints b (Banks l h) = [if b then l else ET_SWAP32 l, if b then h else ET_SWAP32 h]"
  "bank_ints b (Bank h xs) = [if b then word_of_nat (length xs + 1) else ET_SWAP32 (word_of_nat (length xs + 1)),
     if b then h else ET_SWAP32 h] @ (if b then xs else swapped (dtswap ! data_type h) xs)"
  by (simp_all add: Let_def)

lemma swapped_twice [simp]: "swapped k (swapped k xs) = xs"
  by (simp add: swapped_def comp_def)

text \<open>The contents of one bank, whichever order they are in.\<close>

lemma swap_data_bank:
  assumes "facing so i (if b then xs else swapped k xs) d" "length xs + 1 < 2 ^ 30"
  shows "swap_data so (int i) (int (length xs)) k d = Some (take i d @
    (if k \<in> {1, 2, 3} then if \<not> b then xs else swapped k xs else take (length xs) (drop i d)) @ drop (i + length xs) d)"
proof -
  have "length (if b then xs else swapped k xs) = length xs" by simp
  then show ?thesis
    using swap_data_facing[OF assms(1), of k] assms(2)
    by (cases b) (auto simp: swapped_def comp_def)
qed

lemma take_drop_at: "length A = k \<Longrightarrow> take k (A @ R) = A" "length A = k \<Longrightarrow> drop (k + m) (A @ R) = drop m R"
  by simp_all

lemma coda_loop_ok:
  assumes "\<forall>x\<in>set bs. bank_ok x" "facing so i (coda_ints b bs) d"
    and "nints = int (i + length (coda_ints b bs))" "nints < 2 ^ 31"
  shows "coda_loop so nints (of_bool b) (int i) d =
    Some (take i d @ merged (\<not> b) bs (drop i d) @ drop (i + length (coda_ints b bs)) d)"
  using assms
proof (induction bs arbitrary: i d)
  case Nil
  then show ?case by (subst coda_loop.simps) simp
next
  case (Cons x bs)
  have f32: "fits32 (int k)" if "k \<le> i + length (coda_ints b (x # bs))" for k
    using Cons.prems(3,4) that by (auto simp: fits32_def)
  have less: "int i < nints" using Cons.prems(3) length_bank_ints(2)[of b x] by simp
  show ?case
  proof (cases x)
    case (Banks l h)
    let ?H = "\<lambda>b. [if b then l else ET_SWAP32 l, if b then h else ET_SWAP32 h]"
    let ?d = "take i d @ ?H (\<not> b) @ drop (i + 2) d"
    have f: "facing so i (?H b @ coda_ints b bs) d" using Cons.prems(2) Banks by (simp only: coda_ints_simps bank_ints_split)
    have i: "i + 2 \<le> length d" using f by (simp add: facing_def)
    have "facing so (i + length (?H b)) (coda_ints b bs) ?d"
      by (rule facing_drop[OF f]) (use i in simp_all)
    then have f2: "facing so (i + 2) (coda_ints b bs) ?d" by simp
    have n: "nints = int (i + 2 + length (coda_ints b bs))" using Cons.prems(3) Banks by (simp add: bank_ints_split)
    have d: "data_type h = DT_BANK" using Cons.prems(1) Banks by simp
    have w: "wrap32 (int i + 2) = int (i + 2)" using f32[of "i + 2"] length_bank_ints(2)[of b x] by (simp add: add.commute)
    have "coda_loop so nints (of_bool b) (int i) d = coda_loop so nints (of_bool b) (int (i + 2)) ?d"
      using coda_turn[OF facing_append[OF f], of nints] less by (simp only: Let_def w if_P[OF d])
    also have "\<dots> = Some (take (i + 2) ?d @ merged (\<not> b) bs (drop (i + 2) ?d) @ drop (i + 2 + length (coda_ints b bs)) ?d)"
      by (rule Cons.IH[OF _ f2 n Cons.prems(4)]) (use Cons.prems(1) in simp)
    also have "\<dots> = Some (take i d @ merged (\<not> b) (x # bs) (drop i d) @ drop (i + length (coda_ints b (x # bs))) d)"
      using i Banks by (simp add: add.commute add.left_commute)
    finally show ?thesis .
  next
    case (Bank h xs)
    let ?n = "length xs" and ?k = "dtswap ! data_type h"
    let ?l = "word_of_nat (?n + 1) :: i32"
    let ?H = "\<lambda>b. [if b then ?l else ET_SWAP32 ?l, if b then h else ET_SWAP32 h]"
    let ?P = "\<lambda>b. if b then xs else swapped ?k xs"
    let ?d = "take i d @ ?H (\<not> b) @ drop (i + 2) d"
    have b: "bank_ints b x = ?H b @ ?P b" for b using Bank by (simp only: bank_ints_split)
    have f: "facing so i (?H b @ ?P b @ coda_ints b bs) d"
      using Cons.prems(2) by (simp only: coda_ints_simps b append_assoc)
    have lP: "length (?P b) = ?n" for b by simp
    have i: "i + 2 + ?n \<le> length d" using f by (simp add: facing_def split: if_splits)
    have "facing so (i + length (?H b)) (?P b @ coda_ints b bs) ?d"
      by (rule facing_drop[OF f]) (use i in simp_all)
    then have f2: "facing so (i + 2) (?P b @ coda_ints b bs) ?d" by simp
    let ?Q = "if ?k \<in> {1, 2, 3} then ?P (\<not> b) else take ?n (drop (i + 2) ?d)"
    let ?e = "take (i + 2) ?d @ ?Q @ drop (i + 2 + ?n) ?d"
    have lQ: "length ?Q = ?n" using i by simp
    have "facing so (i + 2 + length (?P b)) (coda_ints b bs) ?e"
      by (rule facing_drop[OF f2]) (use i lQ lP in simp_all)
    then have f3: "facing so (i + 2 + ?n) (coda_ints b bs) ?e" using lP by simp
    have n: "nints = int (i + 2 + ?n + length (coda_ints b bs))" using Cons.prems(3) b lP by simp
    have ok: "data_type h \<noteq> DT_BANK" "?n + 1 < 2 ^ 30" using Cons.prems(1) Bank by simp_all
    have w: "wrap32 (int i + 2) = int (i + 2)" "wrap32 (int i + 2 + int ?n) = int (i + 2 + ?n)"
      using f32[of "i + 2"] f32[of "i + 2 + ?n"] length_bank_ints(2)[of b x] b[of b] lP[of b]
      by (simp_all add: algebra_simps)
    have "swap_data so (int (i + 2)) (int ?n) ?k ?d = Some ?e"
      by (rule swap_data_bank[OF facing_append[OF f2] ok(2)])
    then have "coda_loop so nints (of_bool b) (int i) d = coda_loop so nints (of_bool b) (int (i + 2 + ?n)) ?e"
      using coda_turn[OF facing_append[OF f], of nints] less
      by (simp only: Let_def bank_length[OF ok(2)] w if_not_P[OF ok(1)] bind.simps)
    also have "\<dots> = Some (take (i + 2 + ?n) ?e @ merged (\<not> b) bs (drop (i + 2 + ?n) ?e) @
        drop (i + 2 + ?n + length (coda_ints b bs)) ?e)"
      by (rule Cons.IH[OF _ f3 n Cons.prems(4)]) (use Cons.prems(1) in simp)
    also have "\<dots> = Some (take i d @ merged (\<not> b) (x # bs) (drop i d) @ drop (i + length (coda_ints b (x # bs))) d)"
    proof -
      have 1: "take (i + 2) ?d = take i d @ ?H (\<not> b)" "drop (i + 2) ?d = drop (i + 2) d" using i by simp_all
      then have 2: "drop (i + 2 + ?n) ?d = drop (i + 2 + ?n) d" using i by (simp add: add.commute)
      have e: "?e = (take i d @ ?H (\<not> b) @ ?Q) @ drop (i + 2 + ?n) d" by (simp only: 1 2 append_assoc)
      have l: "length (take i d @ ?H (\<not> b) @ ?Q) = i + 2 + ?n" unfolding length_append lQ using i by simp
      have 3: "take (i + 2 + ?n) ?e = take i d @ ?H (\<not> b) @ ?Q" unfolding e by (rule take_drop_at(1)[OF l])
      have 4: "drop (i + 2 + ?n + m) ?e = drop (m + (i + 2 + ?n)) d" for m
        unfolding e take_drop_at(2)[OF l] drop_drop ..
      have "merged (\<not> b) (x # bs) (drop i d) = (?H (\<not> b) @ ?Q) @ merged (\<not> b) bs (drop (i + 2 + ?n) d)"
        unfolding Bank merged.simps 1 bank_ints_split by (simp add: add.commute add.left_commute)
      moreover have "i + length (coda_ints b (x # bs)) = i + 2 + ?n + length (coda_ints b bs)" using b[of b] lP[of b] by simp
      ultimately show ?thesis using 3 4[of 0] 4 by (simp only: append_assoc add_0_left add_0_right add.commute)
    qed
    finally show ?thesis .
  qed
qed

section \<open>What the routine does\<close>

definition banks_ok :: "coda list \<Rightarrow> bool" where
  "banks_ok bs \<longleftrightarrow> (\<forall>x\<in>set bs. bank_ok x) \<and> length (coda_ints True bs) < 2 ^ 31"

lemma facing_all:
  "facing None 0 xs (xs @ r)" "length xs \<le> length d \<Longrightarrow> facing (Some (xs @ r)) 0 xs d"
  by (auto simp: facing_def nth_append)

text \<open>What follows the banks in a buffer is left alone.\<close>

theorem CODAswap_in_place:
  assumes "banks_ok bs"
  shows "et_CODAswap (coda_ints b bs @ r) None (int (length (coda_ints True bs))) (of_bool b) =
    Some (ET_OK, coda_ints (\<not> b) bs @ r)"
proof -
  have l: "length (coda_ints True bs) = length (coda_ints b bs)" by (rule length_coda_ints)
  have "coda_loop None (int (length (coda_ints True bs))) (of_bool b) (int 0) (coda_ints b bs @ r) =
      Some (merged (\<not> b) bs (coda_ints b bs @ r) @ r)"
    using coda_loop_ok[where bs = bs and b = b, OF _ facing_all(1)[where r = r]] assms unfolding banks_ok_def l by simp
  then show ?thesis using merged_in_place[of b bs r] by (simp add: et_CODAswap_def)
qed

theorem CODAswap_copy:
  assumes "banks_ok bs" "length (coda_ints True bs) \<le> length d"
  shows "et_CODAswap (coda_ints b bs @ r) (Some d) (int (length (coda_ints True bs))) (of_bool b) =
    Some (ET_OK, merged (\<not> b) bs d @ drop (length (coda_ints True bs)) d)"
proof -
  have l: "length (coda_ints True bs) = length (coda_ints b bs)" by (rule length_coda_ints)
  have "coda_loop (Some (coda_ints b bs @ r)) (int (length (coda_ints True bs))) (of_bool b) (int 0) d =
      Some (merged (\<not> b) bs d @ drop (length (coda_ints True bs)) d)"
    using coda_loop_ok[where bs = bs and b = b, OF _ facing_all(2)[where r = r and d = d]] assms unfolding banks_ok_def l by simp
  then show ?thesis by (simp add: et_CODAswap_def)
qed

lemma length_merged: "length (coda_ints b bs) \<le> length d \<Longrightarrow> length (merged b bs d) = length (coda_ints b bs)"
  by (induction b bs d rule: merged.induct) (auto simp: Let_def split: if_splits)

text \<open>Into another buffer: complete if every bank is of a type that is swapped.\<close>

definition swaps :: "coda \<Rightarrow> bool" where
  "swaps x = (case x of Banks _ _ \<Rightarrow> True | Bank h xs \<Rightarrow> xs = [] \<or> dtswap ! data_type h \<in> {1, 2, 3})"

lemma merged_swaps: "\<forall>x\<in>set bs. swaps x \<Longrightarrow> merged b bs d = coda_ints b bs"
  by (induction b bs d rule: merged.induct) (auto simp: swaps_def Let_def swapped_def)

text \<open>A bank of length -1 is swapped for ever: the index comes back to it.\<close>

lemma CODAswap_never_ends:
  assumes "data_type h \<noteq> DT_BANK" "2 \<le> length d" "0 < nints"
  shows "et_CODAswap (- 1 # h # xs) (Some d) nints 1 = None"
proof (rule ccontr)
  let ?s = "- 1 # h # xs"
  assume "et_CODAswap ?s (Some d) nints 1 \<noteq> None"
  then obtain r where r: "coda_loop (Some ?s) nints 1 0 d = Some r" by (auto simp: et_CODAswap_def split: Option.bind_splits)
  let ?P = "\<lambda>so n same i d (r :: i32 list). so = Some ?s \<and> n = nints \<and> same = 1 \<and> i = 0 \<longrightarrow> length d < 2"
  have "?P so n same i e y" if "coda_loop so n same i e = Some y" for so n same i e y
  proof (rule coda_loop.raw_induct[OF _ that, where P = ?P])
    fix f so n same i d' r
    assume IH: "\<And>so n same i d r. f so n same i d = Some r \<Longrightarrow> ?P so n same i d r"
      and e: "(if i < n then if \<not> in_bounds so i 2 d' then None
         else let l = src_of so d' ! nat i; h = src_of so d' ! (nat i + 1);
           blen = sint (local_order same l - 1); dtype = data_type (local_order same h);
           d = d'[nat i := ET_SWAP32 l, nat i + 1 := ET_SWAP32 h]
         in if dtype = DT_BANK then f so n same (wrap32 (i + 2)) d
            else do { d \<leftarrow> swap_data so (wrap32 (i + 2)) blen (dtswap ! dtype) d;
                      f so n same (wrap32 (i + 2 + blen)) d }
        else Some d') = Some r"
    show "?P so n same i d' r"
    proof (rule impI, rule ccontr)
      assume a: "so = Some ?s \<and> n = nints \<and> same = 1 \<and> i = 0" "\<not> length d' < 2"
      have b: "sint (- 1 - 1 :: i32) = - 2" by simp
      have "swap_data so j (- 2) k e = Some e" for j k e by (simp add: swap_data_def)
      then have "f (Some ?s) nints 1 0 (d'[0 := ET_SWAP32 (- 1), 1 := ET_SWAP32 h]) = Some r"
        using e a assms(1,3) unfolding local_order_def Let_def b
        by (simp add: in_bounds_def Let_def b fits32_def split: if_splits)
      from IH[OF this] a show False by simp
    qed
  qed
  from this[OF r] show False using assms(2) by simp
qed

text \<open>
  The data of an event, in the order its header says. Swapped twice they are the data again.
\<close>

theorem event_CODAswap_ok:
  assumes "banks_ok bs" "ev_length pe = word_of_nat (4 * length (coda_ints True bs))"
    and "byteorder pe = (if b then 0x04030201 else 0x01020304)"
  shows "et_event_CODAswap pe (coda_ints b bs @ r) =
    Some (ET_OK, pe\<lparr>byteorder := if \<not> b then 0x04030201 else 0x01020304\<rparr>, coda_ints (\<not> b) bs @ r)"
proof -
  let ?n = "length (coda_ints True bs)"
  have n: "?n < 2 ^ 31" using assms(1) by (simp add: banks_ok_def)
  then have u: "unat (word_of_nat (4 * ?n) :: u64) = 4 * ?n" by (simp add: unat_of_nat take_bit_nat_eq_self del: of_nat_mult)
  have "word_of_nat (4 * ?n) div (4 :: u64) = word_of_nat ?n"
    by (rule word_unat_eq_iff[THEN iffD2]) (use n in \<open>simp add: unat_div u unat_of_nat take_bit_nat_eq_self del: of_nat_mult\<close>)
  moreover have "(ucast (word_of_nat ?n :: u64) :: i32) = word_of_nat ?n" using n by (simp add: unsigned_of_nat take_bit_nat_eq_self)
  ultimately have l: "sint (ucast (ev_length pe div 4) :: i32) = int ?n" using assms(2) n by simp
  have s: "(if byteorder pe \<noteq> 0x04030201 then 0 else 1) = (of_bool b :: int)" using assms(3) by simp
  have o: "ET_SWAP32 (byteorder pe) = (if \<not> b then 0x04030201 else 0x01020304)" using assms(3) by simp
  show ?thesis
    unfolding et_event_CODAswap_def Let_def l s CODAswap_in_place[OF assms(1)] o by simp
qed

end
