(* ===== verification/EtBridge.thy ===== *)
theory EtBridge imports EtSystem EtCodaSwap begin

text \<open>
  Moving events from one ET system to another (\<^verbatim>\<open>et_bridge.c\<close>): the configuration, \<^verbatim>\<open>et_events_bridge\<close> and the
  transfer between two systems whose memory the process has mapped, \<^verbatim>\<open>localET_2_localET\<close>. The transfers over the
  network are parameters.

  The state holds the shared memory of both systems, the data of their events and two records of what happened that
  the code does not have: the events read and the events sent, each with its header and data. The argument \<open>others\<close> of
  the setting is what all other processes do to a system before each call of the bridge; a call that would still
  wait then, or one that never comes back, is \<open>None\<close>, like an access outside an array.
\<close>

section \<open>The configuration\<close>

text \<open>
  A swap function gets the data of the source and of the destination, the length, and whether the data are in the order
  of this host. It returns its status and the new data of the destination; a function that changes an event's header
  is not modelled.
\<close>

type_synonym swap_func = "byte list \<Rightarrow> byte list \<Rightarrow> int \<Rightarrow> int \<Rightarrow> (int \<times> byte list) option"

record et_bridge_config =
  bc_init :: int
  mode_from :: int
  mode_to :: int
  chunk_from :: int
  chunk_to :: int
  timeout_from :: "int \<times> int"
  timeout_to :: "int \<times> int"
  bc_func :: "swap_func option"

definition et_bridge_config_init :: "bool \<Rightarrow> int \<times> et_bridge_config option" where
  "et_bridge_config_init mem = (if \<not> mem then (ET_ERROR, None)
     else (ET_OK, Some \<lparr>bc_init = ET_STRUCT_OK, mode_from = ET_SLEEP, mode_to = ET_SLEEP, chunk_from = 100, chunk_to = 100,
       timeout_from = (0, 0), timeout_to = (0, 0), bc_func = None\<rparr>))"

definition bridge_set :: "bool \<Rightarrow> (et_bridge_config \<Rightarrow> et_bridge_config) \<Rightarrow> et_bridge_config \<Rightarrow> int \<times> et_bridge_config" where
  "bridge_set ok f bc = (if bc_init bc \<noteq> ET_STRUCT_OK then (ET_ERROR, bc) else if \<not> ok then (ET_ERROR, bc)
     else (ET_OK, f bc))"

definition bridge_get :: "(et_bridge_config \<Rightarrow> 'a) \<Rightarrow> et_bridge_config \<Rightarrow> bool \<Rightarrow> int \<times> 'a option" where
  "bridge_get f bc nn = (if \<not> nn then (ET_ERROR, None) else (ET_OK, Some (f bc)))"

definition bridge_mode :: "int \<Rightarrow> bool" where
  "bridge_mode val \<longleftrightarrow> \<not> (val \<noteq> ET_SLEEP \<and> val \<noteq> ET_TIMED \<and> val \<noteq> ET_ASYNC)"

definition et_bridge_config_setmodefrom :: "et_bridge_config \<Rightarrow> int \<Rightarrow> int \<times> et_bridge_config" where
  "et_bridge_config_setmodefrom bc val = bridge_set (bridge_mode val) (\<lambda>c. c\<lparr>mode_from := val\<rparr>) bc"

definition et_bridge_config_setmodeto :: "et_bridge_config \<Rightarrow> int \<Rightarrow> int \<times> et_bridge_config" where
  "et_bridge_config_setmodeto bc val = bridge_set (bridge_mode val) (\<lambda>c. c\<lparr>mode_to := val\<rparr>) bc"

definition et_bridge_config_setchunkfrom :: "et_bridge_config \<Rightarrow> int \<Rightarrow> int \<times> et_bridge_config" where
  "et_bridge_config_setchunkfrom bc val = bridge_set (\<not> val < 1) (\<lambda>c. c\<lparr>chunk_from := val\<rparr>) bc"

definition et_bridge_config_setchunkto :: "et_bridge_config \<Rightarrow> int \<Rightarrow> int \<times> et_bridge_config" where
  "et_bridge_config_setchunkto bc val = bridge_set (\<not> val < 1) (\<lambda>c. c\<lparr>chunk_to := val\<rparr>) bc"

definition et_bridge_config_settimeoutfrom :: "et_bridge_config \<Rightarrow> int \<times> int \<Rightarrow> int \<times> et_bridge_config" where
  "et_bridge_config_settimeoutfrom bc val = bridge_set True (\<lambda>c. c\<lparr>timeout_from := val\<rparr>) bc"

definition et_bridge_config_settimeoutto :: "et_bridge_config \<Rightarrow> int \<times> int \<Rightarrow> int \<times> et_bridge_config" where
  "et_bridge_config_settimeoutto bc val = bridge_set True (\<lambda>c. c\<lparr>timeout_to := val\<rparr>) bc"

definition et_bridge_config_setfunc :: "et_bridge_config \<Rightarrow> swap_func option \<Rightarrow> int \<times> et_bridge_config" where
  "et_bridge_config_setfunc bc f = bridge_set True (\<lambda>c. c\<lparr>bc_func := f\<rparr>) bc"

definition et_bridge_config_getmodefrom :: "et_bridge_config \<Rightarrow> bool \<Rightarrow> int \<times> int option" where
  "et_bridge_config_getmodefrom = bridge_get mode_from"

definition et_bridge_config_getmodeto :: "et_bridge_config \<Rightarrow> bool \<Rightarrow> int \<times> int option" where
  "et_bridge_config_getmodeto = bridge_get mode_to"

definition et_bridge_config_getchunkfrom :: "et_bridge_config \<Rightarrow> bool \<Rightarrow> int \<times> int option" where
  "et_bridge_config_getchunkfrom = bridge_get chunk_from"

definition et_bridge_config_getchunkto :: "et_bridge_config \<Rightarrow> bool \<Rightarrow> int \<times> int option" where
  "et_bridge_config_getchunkto = bridge_get chunk_to"

definition et_bridge_config_gettimeoutfrom :: "et_bridge_config \<Rightarrow> bool \<Rightarrow> int \<times> (int \<times> int) option" where
  "et_bridge_config_gettimeoutfrom = bridge_get timeout_from"

definition et_bridge_config_gettimeoutto :: "et_bridge_config \<Rightarrow> bool \<Rightarrow> int \<times> (int \<times> int) option" where
  "et_bridge_config_gettimeoutto = bridge_get timeout_to"

section \<open>The swap function for data in the format of CODA\<close>

text \<open>The integers of a buffer on a host that keeps the least significant byte first.\<close>

fun host_ints :: "byte list \<Rightarrow> i32 list" where
  "host_ints (a # b # c # d # bs) =
    (push_bit 24 (ucast d) OR push_bit 16 (ucast c) OR push_bit 8 (ucast b) OR ucast a) # host_ints bs"
| "host_ints bs = []"

definition host_bytes :: "i32 list \<Rightarrow> byte list" where
  "host_bytes ws = concat (map (\<lambda>w. rev (net_bytes w)) ws)"

definition et_bridge_CODAswap :: swap_func where
  "et_bridge_CODAswap src dst bytes same_endian = (
     let nints = sint (ucast ((word_of_int bytes :: u64) div 4) :: i32) in
     do { (st, ws) \<leftarrow> et_CODAswap (host_ints src) (Some (host_ints dst)) nints same_endian;
          Some (ET_OK, host_bytes ws @ drop (length (host_bytes ws)) dst) })"

lemma host_ints_word [simp]: "host_ints (rev (net_bytes w) @ bs) = w # host_ints bs"
proof -
  have "host_ints (rev (net_bytes w) @ bs) = fst (the (read_int (net_bytes w @ bs))) # host_ints bs"
    by (simp add: net_bytes_def)
  then show ?thesis by (simp only: read_net_bytes option.sel fst_conv)
qed

lemma host_bytes_simps [simp]:
  "host_bytes [] = []" "host_bytes (w # ws) = rev (net_bytes w) @ host_bytes ws" "length (host_bytes ws) = 4 * length ws"
  by (simp_all add: host_bytes_def length_concat comp_def sum_list_triv)

lemma host_ints_bytes [simp]: "host_ints (host_bytes ws) = ws"
  by (induction ws) simp_all

text \<open>Between two events: what is not swapped is not copied either.\<close>

theorem bridge_CODAswap_ok:
  assumes b: "banks_ok bs" "length (coda_ints True bs) \<le> length d"
  shows "et_bridge_CODAswap (host_bytes (coda_ints b bs @ r)) (host_bytes d) (4 * int (length (coda_ints True bs))) (of_bool b) =
    Some (ET_OK, host_bytes (merged (\<not> b) bs d @ drop (length (coda_ints True bs)) d))"
proof -
  let ?n = "length (coda_ints True bs)" and ?ws = "merged (\<not> b) bs d @ drop (length (coda_ints True bs)) d"
  have n: "?n < 2 ^ 31" using b(1) by (simp add: banks_ok_def)
  have u: "unat (word_of_nat (4 * ?n) :: u64) = 4 * ?n" using n by (simp add: unat_of_nat take_bit_nat_eq_self del: of_nat_mult)
  have "word_of_nat (4 * ?n) div (4 :: u64) = word_of_nat ?n"
    by (rule word_unat_eq_iff[THEN iffD2]) (use n in \<open>simp add: unat_div u unat_of_nat take_bit_nat_eq_self del: of_nat_mult\<close>)
  moreover have "(ucast (word_of_nat ?n :: u64) :: i32) = word_of_nat ?n"
    using n by (simp add: unsigned_of_nat take_bit_nat_eq_self)
  moreover have "(word_of_int (4 * int ?n) :: u64) = word_of_nat (4 * ?n)" by simp
  ultimately have l: "sint (ucast ((word_of_int (4 * int ?n) :: u64) div 4) :: i32) = int ?n"
    using n by (simp del: of_nat_mult of_int_mult)
  have "length ?ws = length d"
    using length_merged[of "\<not> b" bs d] length_coda_ints[of "\<not> b" bs True] b(2) by simp
  then show ?thesis
    unfolding et_bridge_CODAswap_def Let_def l host_ints_bytes CODAswap_copy[OF b] by simp
qed

section \<open>The calls of the bridge on the two systems\<close>

record bridge =
  b_from :: et_shm
  b_to :: et_shm
  b_fdata :: "nat \<Rightarrow> byte list"
  b_tdata :: "nat \<Rightarrow> byte list"
  total_put :: int
  b_calls :: nat
  b_read :: "(et_event \<times> byte list) list"
  b_sent :: "(et_event \<times> byte list) list"

text \<open>
  The arguments of \<^verbatim>\<open>et_events_bridge\<close>, the calls for a system that is remote or has no shared mutexes, and what the other
  processes do to the two systems before the n-th call.
\<close>

record setting =
  id_from :: et_id
  id_to :: et_id
  att_from :: int
  att_to :: int
  b_config :: et_bridge_config
  read_from :: read_step
  read_to :: read_step
  put_from :: "int op"
  put_to :: "int op"
  others_from :: "nat \<Rightarrow> et_shm \<Rightarrow> et_shm"
  others_to :: "nat \<Rightarrow> et_shm \<Rightarrow> et_shm"

definition on_from :: "setting \<Rightarrow> (et_shm \<Rightarrow> ('r \<times> et_shm) option) \<Rightarrow> bridge \<Rightarrow> ('r \<times> bridge) option" where
  "on_from v f b = do { (r, s) \<leftarrow> f (others_from v (b_calls b) (b_from b));
     Some (r, b\<lparr>b_from := s, b_calls := b_calls b + 1\<rparr>) }"

definition on_to :: "setting \<Rightarrow> (et_shm \<Rightarrow> ('r \<times> et_shm) option) \<Rightarrow> bridge \<Rightarrow> ('r \<times> bridge) option" where
  "on_to v f b = do { (r, s) \<leftarrow> f (others_to v (b_calls b) (b_to b));
     Some (r, b\<lparr>b_to := s, b_calls := b_calls b + 1\<rparr>) }"

definition finished :: "read_step \<Rightarrow> et_shm \<Rightarrow> ((int \<times> nat list) \<times> et_shm) option" where
  "finished f s = do { (r, s) \<leftarrow> f s; case r of Done x \<Rightarrow> Some (x, s) | _ \<Rightarrow> None }"

text \<open>The header and the valid data of an event.\<close>

definition contents :: "et_shm \<Rightarrow> (nat \<Rightarrow> byte list) \<Rightarrow> nat \<Rightarrow> et_event \<times> byte list" where
  "contents s d p = (events s p, take (unat (ev_length (events s p))) (d p))"

definition get_from :: "setting \<Rightarrow> int \<Rightarrow> bridge \<Rightarrow> ((int \<times> nat list) \<times> bridge) option" where
  "get_from v n b = do {
     ((st, gs), b) \<leftarrow> on_from v (finished
        (et_events_get (id_from v) (read_from v) (att_from v) (mode_from (b_config v)) True n)) b;
     Some ((st, gs), if st \<noteq> ET_OK then b else b\<lparr>b_read := b_read b @ map (contents (b_from b) (b_fdata b)) gs\<rparr>) }"

definition back_from :: "setting \<Rightarrow> nat list \<Rightarrow> bridge \<Rightarrow> (int \<times> bridge) option" where
  "back_from v gs = on_from v (et_events_put (id_from v) (put_from v) (att_from v) gs)"

text \<open>A new temporary event comes with a file of its own for the data.\<close>

definition new_files :: "nat list \<Rightarrow> bridge \<Rightarrow> bridge" where
  "new_files ps b = b\<lparr>b_tdata := (\<lambda>p. if p \<in> set ps \<and> temp (events (b_to b) p) = ET_EVENT_TEMP
      then replicate (unat (memsize (events (b_to b) p))) 0 else b_tdata b p)\<rparr>"

definition new_to :: "setting \<Rightarrow> int \<Rightarrow> bridge \<Rightarrow> ((int \<times> nat list) \<times> bridge) option" where
  "new_to v n b = do {
     ((st, ps), b) \<leftarrow> on_to v (finished
        (et_events_new (id_to v) (read_to v) (att_to v) (mode_to (b_config v)) True (esize (id_from v)) n [])) b;
     Some ((st, ps), if st \<noteq> ET_OK then b else new_files ps b) }"

definition new1_to :: "setting \<Rightarrow> u64 \<Rightarrow> bridge \<Rightarrow> ((int \<times> nat list) \<times> bridge) option" where
  "new1_to v sz b = do {
     ((st, ps), b) \<leftarrow> on_to v (finished
        (et_event_new (id_to v) (read_to v) (att_to v) (mode_to (b_config v)) True sz [])) b;
     Some ((st, ps), if st \<noteq> ET_OK then b else new_files ps b) }"

definition puts_to :: "setting \<Rightarrow> nat list \<Rightarrow> bridge \<Rightarrow> (int \<times> bridge) option" where
  "puts_to v ps b = do {
     let out = map (contents (b_to b) (b_tdata b)) ps;
     (st, b) \<leftarrow> on_to v (et_events_put (id_to v) (put_to v) (att_to v) ps) b;
     Some (st, if st \<noteq> ET_OK then b else b\<lparr>total_put := total_put b + int (length ps), b_sent := b_sent b @ out\<rparr>) }"

definition dumps_to :: "setting \<Rightarrow> nat list \<Rightarrow> bridge \<Rightarrow> (int \<times> bridge) option" where
  "dumps_to v ps = on_to v (et_events_dump (id_to v) (put_to v) (att_to v) ps)"

section \<open>From one event to another\<close>

definition memcpy :: "nat \<Rightarrow> byte list \<Rightarrow> byte list \<Rightarrow> byte list option" where
  "memcpy n src dst = (if n \<le> length src \<and> n \<le> length dst then Some (take n src @ drop n dst) else None)"

definition byteorder_wanted :: "et_id \<Rightarrow> i32" where
  "byteorder_wanted e = (if id_endian e = id_systemendian e then 0x04030201 else 0x01020304)"

definition copy_header :: "et_id \<Rightarrow> et_event \<Rightarrow> et_event \<Rightarrow> et_event" where
  "copy_header e ge pe = pe\<lparr>ev_length := ev_length ge, priority := priority ge, byteorder := byteorder ge,
     control := copy_ints (nat (id_nselects e)) (control ge) (control pe)\<rparr>"

text \<open>The body of the loop once the new event is large enough: event \<open>j\<close> of the one system into \<open>p\<close> of the other.\<close>

definition copy_event :: "setting \<Rightarrow> nat \<Rightarrow> nat \<Rightarrow> bridge \<Rightarrow> (int \<times> bridge) option" where
  "copy_event v j p b = (
     let ge = events (b_from b) j;
       b = b\<lparr>b_to := upd_event p (copy_header (id_to v) ge) (b_to b)\<rparr>;
       bo = byteorder (events (b_to b) p);
       same_endian = (if bo = 0x04030201 then 1 else 0)
     in case bc_func (b_config v) of
       Some f \<Rightarrow> if bo \<noteq> byteorder_wanted (id_to v) then do {
           (st, d) \<leftarrow> f (b_fdata b j) (b_tdata b p) (sint (ucast (ev_length ge) :: i32)) same_endian;
           let b = b\<lparr>b_tdata := (b_tdata b)(p := d)\<rparr>;
           if st \<noteq> ET_OK then Some (ET_ERROR, b)
           else Some (ET_OK, b\<lparr>b_to := upd_event p (\<lambda>pe. pe\<lparr>byteorder := ET_SWAP32 (byteorder pe)\<rparr>) (b_to b)\<rparr>) }
         else do { d \<leftarrow> memcpy (unat (ev_length ge)) (b_fdata b j) (b_tdata b p);
                   Some (ET_OK, b\<lparr>b_tdata := (b_tdata b)(p := d)\<rparr>) }
     | None \<Rightarrow> do { d \<leftarrow> memcpy (unat (ev_length ge)) (b_fdata b j) (b_tdata b p);
                   Some (ET_OK, b\<lparr>b_tdata := (b_tdata b)(p := d)\<rparr>) })"

section \<open>The transfer\<close>

text \<open>
  The way out of the loop over the new events: the events read go back, the ones already filled are put, the others
  and the ones that were too small are dumped.
\<close>

definition give_up :: "setting \<Rightarrow> nat list \<Rightarrow> nat list \<Rightarrow> nat list \<Rightarrow> nat list \<Rightarrow> bridge \<Rightarrow> bridge option" where
  "give_up v gs filled rest dump b = do {
     (_, b) \<leftarrow> back_from v gs b;
     (_, b) \<leftarrow> puts_to v filled b;
     (_, b) \<leftarrow> dumps_to v rest b;
     (_, b) \<leftarrow> dumps_to v dump b;
     Some b }"

text \<open>
  The loop over the new events. \<open>filled\<close> are the ones done, \<open>dump\<close> the ones that were too small, \<open>prev\<close> is
  \<^verbatim>\<open>num_new_prev\<close>. The result is the status with which the routine ends, or what to put and what to dump.
\<close>

fun fill :: "setting \<Rightarrow> nat list \<Rightarrow> nat \<Rightarrow> int \<Rightarrow> nat list \<Rightarrow> nat list \<Rightarrow> nat list \<Rightarrow> bridge \<Rightarrow>
    ((int + nat list \<times> nat list) \<times> bridge) option" where
  "fill v gs prev st0 filled dump [] b = Some (Inr (filled, dump), b)"
| "fill v gs prev st0 filled dump (p # ps) b = (
     let j = length filled + prev in
     if j \<ge> length gs then None
     else let g = gs ! j; len = ev_length (events (b_from b) g) in
     do {
       (st, p, dump', b) \<leftarrow> (if len > memsize (events (b_to b) p) then do {
            ((st, ns), b) \<leftarrow> new1_to v len b;
            if st \<noteq> ET_OK then Some (st, p, dump, b)
            else case ns of [n] \<Rightarrow> Some (st, n, dump @ [p], b) | _ \<Rightarrow> None }
          else Some (st0, p, dump, b));
       if st \<noteq> ET_OK then do {
         b \<leftarrow> give_up v gs filled (p # ps) dump' b;
         Some (Inl st, b) }
       else do {
         (st1, b) \<leftarrow> copy_event v g p b;
         if st1 \<noteq> ET_OK then do {
           b \<leftarrow> give_up v gs filled (p # ps) dump' b;
           Some (Inl st, b) }
         else fill v gs prev st (filled @ [p]) dump' ps b } })"

text \<open>
  The rest of a turn: the new events are put and the ones that were too small dumped. \<open>Some status\<close> ends the routine.
\<close>

definition send :: "setting \<Rightarrow> nat list \<Rightarrow> nat list \<Rightarrow> nat list \<Rightarrow> bridge \<Rightarrow> (int option \<times> bridge) option" where
  "send v gs filled dump b = do {
     (st, b) \<leftarrow> (if filled = [] then Some (ET_OK, b) else puts_to v filled b);
     if st \<noteq> ET_OK then do {
       (_, b) \<leftarrow> dumps_to v dump b;
       (_, b) \<leftarrow> back_from v gs b;
       Some (Some st, b) }
     else do {
       (st, b) \<leftarrow> (if dump = [] then Some (ET_OK, b) else dumps_to v dump b);
       if st \<noteq> ET_OK then do {
         (_, b) \<leftarrow> back_from v gs b;
         Some (Some st, b) }
       else Some (None, b) } }"

definition turn :: "setting \<Rightarrow> nat list \<Rightarrow> nat \<Rightarrow> nat \<Rightarrow> bridge \<Rightarrow> ((int + nat) \<times> bridge) option" where
  "turn v gs total_new prev b = (
     let left = int (length gs) - int total_new; chunk = chunk_to (b_config v) in
     do {
       ((st, ps), b) \<leftarrow> new_to v (if left < chunk then left else chunk) b;
       if st \<noteq> ET_OK then do {
         (_, b) \<leftarrow> back_from v gs b;
         Some (Inl st, b) }
       else if int (length ps) > id_nevents (id_from v) then None
       else do {
         (r, b) \<leftarrow> fill v gs prev st [] [] ps b;
         case r of Inl st \<Rightarrow> Some (Inl st, b)
         | Inr (filled, dump) \<Rightarrow> do {
             (r, b) \<leftarrow> send v gs filled dump b;
             case r of Some st \<Rightarrow> Some (Inl st, b) | None \<Rightarrow> Some (Inr (length ps), b) } } })"

text \<open>The two loops. The inner one returns the status with which the routine ends, if it does.\<close>

partial_function (option) new_loop :: "setting \<Rightarrow> nat list \<Rightarrow> nat \<Rightarrow> nat \<Rightarrow> bridge \<Rightarrow> (int option \<times> bridge) option" where
  "new_loop v gs total_new prev b =
    (if total_new < length gs then do {
       (r, b) \<leftarrow> turn v gs total_new prev b;
       case r of Inl st \<Rightarrow> Some (Some st, b)
       | Inr num_new \<Rightarrow> new_loop v gs (total_new + num_new) num_new b }
     else Some (None, b))"

definition round_of :: "setting \<Rightarrow> int \<Rightarrow> bridge \<Rightarrow> ((int + nat) \<times> bridge) option" where
  "round_of v left b = (
     let chunk = chunk_from (b_config v) in
     do {
       ((st, gs), b) \<leftarrow> get_from v (if left < chunk then left else chunk) b;
       if st \<noteq> ET_OK then Some (Inl st, b)
       else if int (length gs) > id_nevents (id_from v) then None
       else do {
         (r, b) \<leftarrow> new_loop v gs 0 0 b;
         case r of Some st \<Rightarrow> Some (Inl st, b)
         | None \<Rightarrow> do {
             (st, b) \<leftarrow> back_from v gs b;
             if st \<noteq> ET_OK then Some (Inl st, b) else Some (Inr (length gs), b) } } })"

partial_function (option) bridge_loop :: "setting \<Rightarrow> int \<Rightarrow> int \<Rightarrow> bridge \<Rightarrow> (int \<times> bridge) option" where
  "bridge_loop v n total_read b =
    (if total_read < n then do {
       (r, b) \<leftarrow> round_of v (n - total_read) b;
       case r of Inl st \<Rightarrow> Some (st, b)
       | Inr num_read \<Rightarrow> bridge_loop v n (total_read + int num_read) b }
     else Some (ET_OK, b))"

definition localET_2_localET :: "setting \<Rightarrow> int \<Rightarrow> bridge \<Rightarrow> (int \<times> bridge) option" where
  "localET_2_localET v n b =
    (if \<not> env_calloc (id_from v) 0 \<or> \<not> env_calloc (id_from v) 1 \<or> \<not> env_calloc (id_from v) 2 then Some (ET_ERROR, b)
     else bridge_loop v n 0 (b\<lparr>total_put := 0\<rparr>))"

text \<open>
  The call itself. Without a configuration it uses the defaults, if there is memory for one. The result ends with
  \<^verbatim>\<open>*ntransferred\<close>.
\<close>

definition et_events_bridge ::
  "(setting \<Rightarrow> int \<Rightarrow> bridge \<Rightarrow> (int \<times> bridge) option) \<Rightarrow> (setting \<Rightarrow> int \<Rightarrow> bridge \<Rightarrow> (int \<times> bridge) option) \<Rightarrow> bool \<Rightarrow>
   setting \<Rightarrow> et_bridge_config option \<Rightarrow> int \<Rightarrow> bridge \<Rightarrow> (int \<times> bridge) option" where
  "et_events_bridge remoteET_2_ET ET_2_remoteET mem v bconfig n b = (
     let b = b\<lparr>total_put := 0\<rparr> in
     case (case bconfig of Some c \<Rightarrow> Some c | None \<Rightarrow> snd (et_bridge_config_init mem)) of
       None \<Rightarrow> Some (ET_ERROR, b)
     | Some c \<Rightarrow>
        let v = v\<lparr>b_config := c\<rparr> in
        if locality (id_from v) \<noteq> ET_REMOTE \<and> locality (id_to v) \<noteq> ET_REMOTE then localET_2_localET v n b
        else if locality (id_from v) = ET_REMOTE \<and> locality (id_to v) \<noteq> ET_REMOTE then remoteET_2_ET v n b
        else ET_2_remoteET v n b)"

end
