(* ===== verification/EtHolds.thy ===== *)
theory EtHolds imports EtSystem begin

text \<open>
  What an attachment that already has events keeps when it asks for new ones: the events \<open>D\<close> it has stay its own with
  their headers untouched, and the new ones are others.
\<close>

definition holds :: "nat \<Rightarrow> nat list \<Rightarrow> heap \<Rightarrow> et_shm \<Rightarrow> bool" where
  "holds a D h s \<longleftrightarrow> belongs a D s \<and> (\<forall>p\<in>set D. events s p = h p)"

lemma holds_self: "belongs a D s \<Longrightarrow> holds a D (events s) s"
  by (simp add: holds_def)

lemma holds_Nil [simp]: "holds a [] h s"
  by (simp add: holds_def belongs_def)

text \<open>A step that changes no header of the events at hand.\<close>

lemma holds_step:
  "holds a D h s \<Longrightarrow> \<forall>p\<in>set D. events s' p = events s p \<Longrightarrow> nevents_max s' = nevents_max s \<Longrightarrow> holds a D h s'"
  by (auto simp: holds_def belongs_def)

definition kept :: "nat \<Rightarrow> nat \<Rightarrow> nat list \<Rightarrow> heap \<Rightarrow> et_shm \<Rightarrow> bool" where
  "kept N a D h s \<longleftrightarrow> all_placed N s \<and> holds a D h s"

interpretation hold: shm_safe "kept N a D h"
proof unfold_locales
  fix s n g assume s: "kept N a D h s"
  have k: "kept N a D h t" if "quiet s t" "events t = events s" for t
    using s that all_placed_quiet[of N s t] holds_step[of a D h s t] by (auto simp: kept_def quiet_def)
  show "kept N a D h (in_lock n s)" by (rule k, simp, simp add: in_lock_def)
  show "kept N a D h (in_unlock n s)" by (rule k, simp, simp add: in_unlock_def)
  show "kept N a D h (s\<lparr>histogram := g\<rparr>)" by (rule k) simp_all
  show "kept N a D h (upd_attach i f s)" for i f by (rule k) simp_all
  show "0 \<le> cnt (list_in (stats s 0)) \<and> cnt (list_in (stats s 0)) \<le> nevents_max s"
    using pl.in_range[of N s] s unfolding kept_def by blast
qed

lemma taken_holds:
  assumes "placed N s X Y" "k < N" "mset (X k) = mset ys + mset zs" "holds a D h s"
    and "taken a ys zs (stats s k, events s) (ps', h')"
  shows "holds a D h (s\<lparr>stats := (stats s)(k := ps'), events := h'\<rparr>) \<and>
    belongs a (ys @ D) (s\<lparr>stats := (stats s)(k := ps'), events := h'\<rparr>)"
proof -
  have x: "set ys \<union> set zs = set (X k)" using assms(3) by (metis set_mset_mset set_mset_union)
  have "set D \<subseteq> set (held s)" using assms(4) belongs_held by (auto simp: holds_def)
  then have d: "set D \<inter> set (X k) = {}" using placed_distinct(1)[OF assms(1,2,2)] by auto
  have y: "distinct ys" using placed_distinct(1)[OF assms(1,2,2)] assms(3)
    by (metis distinct_append mset_append mset_eq_imp_distinct_iff)
  have "\<forall>p\<in>set D. h' p = events s p" using assms(5) d x by (auto simp: taken_def same_events_def)
  then show ?thesis
    using assms(4,5) y d x placed_bounds(3)[OF assms(1,2)] by (auto simp: holds_def belongs_def taken_def)
qed

definition reads_keep :: "nat \<Rightarrow> nat \<Rightarrow> nat \<Rightarrow> nat list \<Rightarrow> heap \<Rightarrow> read_step \<Rightarrow> bool" where
  "reads_keep N n a D h fin \<longleftrightarrow> (\<forall>s r s'. kept N a D h s \<and> n < N \<and> \<not> cnt (list_in (stats s n)) < 1 \<and>
     fin s = Some (r, s') \<longrightarrow> kept N a D h s' \<and> gives (\<lambda>ps. belongs a (ps @ D)) r s')"

lemma reads_keepI:
  assumes r: "reads_ok N n a (on_station n f)"
    and f: "\<And>s X Y. placed N s X Y \<Longrightarrow> n < N \<Longrightarrow> X n \<noteq> [] \<Longrightarrow> list_repr (events s) (list_in (stats s n)) (X n) \<Longrightarrow>
      \<exists>r ps' h' ys zs. f (stats s n, events s) = Some (r, ps', h') \<and> taken a ys zs (stats s n, events s) (ps', h') \<and>
        mset (X n) = mset ys + mset zs \<and> (\<forall>pes. r = Done (ET_OK, pes) \<longrightarrow> pes = ys)"
  shows "reads_keep N n a D h (on_station n f)"
  unfolding reads_keep_def
proof (intro allI impI, elim conjE)
  fix s r s' assume s: "kept N a D h s" "n < N" "\<not> cnt (list_in (stats s n)) < 1" and e: "on_station n f s = Some (r, s')"
  have p: "all_placed N s" using s(1) by (simp add: kept_def)
  from list_not_empty[OF p s(2,3)] obtain X Y where X: "placed N s X Y" "X n \<noteq> []"
    "list_repr (events s) (list_in (stats s n)) (X n)" by blast
  from f[OF X(1) s(2) X(2,3)] obtain ps' h' ys zs where 1: "f (stats s n, events s) = Some (r, ps', h')"
    "taken a ys zs (stats s n, events s) (ps', h')" "mset (X n) = mset ys + mset zs"
    "\<forall>pes. r = Done (ET_OK, pes) \<longrightarrow> pes = ys" "s' = s\<lparr>stats := (stats s)(n := ps'), events := h'\<rparr>"
    using e by (auto simp: on_station_def)
  have "holds a D h s" using s(1) by (simp add: kept_def)
  from taken_holds[OF X(1) s(2) 1(3) this 1(2)] r p s(2,3) e
  show "kept N a D h s' \<and> gives (\<lambda>ps. belongs a (ps @ D)) r s'"
    using 1(4,5) by (auto simp: kept_def gives_def reads_ok_def)
qed

lemma reads_keep_all:
  "reads_keep N n a D h (on_station n (read_one a))"
  "1 \<le> m \<Longrightarrow> reads_keep N n a D h (on_station n (read_many a m))"
  "1 \<le> m \<Longrightarrow> reads_keep N n a D h (on_station n (read_group a mode m g))"
proof -
  show "reads_keep N n a D h (on_station n (read_one a))"
  proof (rule reads_keepI[OF reads_ok_one])
    fix s X assume "X n \<noteq> []" "list_repr (events s) (list_in (stats s n)) (X n)"
    then show "\<exists>r ps' h' ys zs. read_one a (stats s n, events s) = Some (r, ps', h') \<and>
        taken a ys zs (stats s n, events s) (ps', h') \<and> mset (X n) = mset ys + mset zs \<and>
        (\<forall>pes. r = Done (ET_OK, pes) \<longrightarrow> pes = ys)"
      using read_one_ok[of "events s" "stats s n" "X n" a] by (cases "X n") fastforce+
  qed
  show "1 \<le> m \<Longrightarrow> reads_keep N n a D h (on_station n (read_many a m))"
  proof (rule reads_keepI[OF reads_ok_many])
    fix s X assume m: "1 \<le> m" and "X n \<noteq> []" "list_repr (events s) (list_in (stats s n)) (X n)"
    from read_many_ok[OF this(3,2) m, of a]
    show "\<exists>r ps' h' ys zs. read_many a m (stats s n, events s) = Some (r, ps', h') \<and>
        taken a ys zs (stats s n, events s) (ps', h') \<and> mset (X n) = mset ys + mset zs \<and>
        (\<forall>pes. r = Done (ET_OK, pes) \<longrightarrow> pes = ys)"
      by (metis append_take_drop_id mset_append prod.inject run.inject)
  qed
  show "1 \<le> m \<Longrightarrow> reads_keep N n a D h (on_station n (read_group a mode m g))"
  proof (rule reads_keepI[OF reads_ok_group])
    fix s X assume m: "1 \<le> m" and "X n \<noteq> []" "list_repr (events s) (list_in (stats s n)) (X n)"
    then obtain ps' h' where 1: "read_group a mode m g (stats s n, events s) =
        Some (if filter (\<lambda>p. ev_group (events s p) = g) (X n) = [] \<and> mode \<noteq> ET_ASYNC then Retry
          else Done (ET_OK, take (nat m) (filter (\<lambda>p. ev_group (events s p) = g) (X n))), ps', h')"
        "taken a (take (nat m) (filter (\<lambda>p. ev_group (events s p) = g) (X n)))
          (keep_rest (\<lambda>p. ev_group (events s p) = g) (nat m) (X n)) (stats s n, events s) (ps', h')"
      using read_group_ok[OF _ _ m refl, of "events s" "stats s n" "X n" a mode g] by blast
    have "mset (X n) = mset (take (nat m) (filter (\<lambda>p. ev_group (events s p) = g) (X n))) +
        mset (keep_rest (\<lambda>p. ev_group (events s p) = g) (nat m) (X n))" by (rule keep_rest_mset[symmetric])
    with 1 show "\<exists>r ps' h' ys zs. read_group a mode m g (stats s n, events s) = Some (r, ps', h') \<and>
        taken a ys zs (stats s n, events s) (ps', h') \<and> mset (X n) = mset ys + mset zs \<and>
        (\<forall>pes. r = Done (ET_OK, pes) \<longrightarrow> pes = ys)"
      by (intro exI conjI) (assumption | simp split: if_splits)+
  qed
qed

section \<open>New events beside the ones at hand\<close>

lemma kept_read:
  assumes "reads_keep N n a D h fin" "n < N" "kept N a D h s"
  shows "read_enter n mode a fin s = Some (r, s') \<Longrightarrow> kept N a D h s' \<and> gives (\<lambda>ps. belongs a (ps @ D)) r s'"
  by (erule hold.enter_ok[OF _ assms(3)]) (use assms(1,2) in \<open>auto simp: reads_keep_def\<close>)

lemma make_temps_step:
  assumes "make_temps e sz ps [] s = Some (st, s')"
  shows "(\<forall>p. p \<notin> set ps \<longrightarrow> events s' p = events s p) \<and> nevents_max s' = nevents_max s"
  using assms
proof (induction ps arbitrary: s)
  case (Cons p ps)
  obtain st1 s1 where m: "et_event_make e p sz s = (st1, s1)" by fastforce
  have 1: "(\<forall>q. q \<noteq> p \<longrightarrow> events s1 q = events s q) \<and> nevents_max s1 = nevents_max s"
    using m by (auto simp: et_event_make_def Let_def upd_event_def system_lock_def system_unlock_def
        et_system_lock_def et_system_unlock_def split: if_splits option.splits)
  have "(if st1 \<noteq> ET_OK then Some (st1, s1) else make_temps e sz ps [] s1) = Some (st, s')"
    using Cons.prems m by (auto split: if_splits)
  then show ?case using 1 Cons.IH[of s1] by (auto split: if_splits)
qed simp

lemma init_normal_step:
  "p \<notin> set ps \<Longrightarrow> events (fold (init_normal e sz) ps s) p = events s p"
  "nevents_max (fold (init_normal e sz) ps s) = nevents_max s"
  by (induction ps arbitrary: s) (auto simp: init_normal_def upd_event_def)

lemma kept_finish:
  assumes e: "new_finish e a sz [] pes s = Some (r, s')" and s: "kept N a D h s" "belongs a (pes @ D) s"
  shows "kept N a D h s' \<and> gives (\<lambda>ps. belongs a (ps @ D)) r s'"
proof -
  obtain st s1 where 1: "(if sz > event_size (sys_config (sys s)) then make_temps e sz pes [] s
      else Some (ET_OK, fold (init_normal e sz) pes s)) = Some (st, s1)"
    "(if st \<noteq> ET_OK then Some (Done (st, []), s1) else Some (Done (ET_OK, pes),
        upd_attach a (\<lambda>t. t\<lparr>events_make := events_make t + of_nat (length pes)\<rparr>) s1)) = Some (r, s')"
    using e by (auto simp: new_finish_def split: Option.bind_splits if_splits)
  have b: "belongs a pes s" using s(2) by (auto simp: belongs_def)
  have n: "all_placed N s' \<and> gives (belongs a) r s'"
    by (rule new_finish_ok[OF e _ b]) (use s(1) in \<open>auto simp: kept_def calm_def\<close>)
  have "(\<forall>p. p \<notin> set pes \<longrightarrow> events s1 p = events s p) \<and> nevents_max s1 = nevents_max s"
    using 1(1) make_temps_step init_normal_step by (auto split: if_splits)
  then have d: "\<forall>p\<in>set D. events s1 p = events s p" "nevents_max s1 = nevents_max s"
    using s(2) by (auto simp: belongs_def)
  have "holds a D h s1" using s(1) holds_step[OF _ d] by (simp add: kept_def)
  then have h: "holds a D h s'" using 1(2) by (auto simp: holds_def belongs_def split: if_splits)
  have "gives (\<lambda>ps. belongs a (ps @ D)) r s'"
    using n h 1(2) s(2) by (auto simp: gives_def holds_def belongs_def split: if_splits)
  then show ?thesis using n h by (simp add: kept_def)
qed

lemma kept_after:
  assumes e: "after_read e (new_finish e a sz []) rd s = Some (r, s')"
    and rd: "\<And>r t. rd s = Some (r, t) \<Longrightarrow> kept N a D h t \<and> gives (\<lambda>ps. belongs a (ps @ D)) r t"
  shows "kept N a D h s' \<and> gives (\<lambda>ps. belongs a (ps @ D)) r s'"
  by (rule hold.after_ok[OF e rd]) (use kept_finish in auto)

lemma kept_reads:
  assumes s: "kept N a D h s"
  shows "et_station_read 0 mode a s = Some (r, t) \<Longrightarrow> kept N a D h t \<and> gives (\<lambda>ps. belongs a (ps @ D)) r t"
    "et_station_nread 0 mode a m s = Some (r, t) \<Longrightarrow> kept N a D h t \<and> gives (\<lambda>ps. belongs a (ps @ D)) r t"
    "et_station_nread_group 0 mode a m g s = Some (r, t) \<Longrightarrow> kept N a D h t \<and> gives (\<lambda>ps. belongs a (ps @ D)) r t"
proof -
  have N: "0 < N" and D: "belongs a D s" using s by (auto simp: kept_def all_placed_def holds_def)
  note r = kept_read[OF reads_keep_all(1) N s] kept_read[OF reads_keep_all(2) N s] kept_read[OF reads_keep_all(3) N s]
  show "et_station_read 0 mode a s = Some (r, t) \<Longrightarrow> kept N a D h t \<and> gives (\<lambda>ps. belongs a (ps @ D)) r t"
    unfolding et_station_read_def by (rule r)
  show "et_station_nread 0 mode a m s = Some (r, t) \<Longrightarrow> kept N a D h t \<and> gives (\<lambda>ps. belongs a (ps @ D)) r t"
    using r(2) s D by (auto simp: et_station_nread_def not_less split: if_splits)
  show "et_station_nread_group 0 mode a m g s = Some (r, t) \<Longrightarrow> kept N a D h t \<and> gives (\<lambda>ps. belongs a (ps @ D)) r t"
    using r(3) s D by (auto simp: et_station_nread_group_def not_less split: if_splits)
qed

lemma kept_new_group:
  assumes e: "et_events_new_group e etr att mode delta sz m g [] s = Some (r, s')" and l: "locality e = ET_LOCAL"
    and s: "kept N (nat att) D h s"
  shows "kept N (nat att) D h s' \<and> gives (\<lambda>ps. belongs (nat att) (ps @ D)) r s'"
proof (cases "after_read e (new_finish e (nat att) sz [])
    (et_station_nread_group 0 (mode AND ET_WAIT_MASK) (nat att) (clip sz m s) g) s = Some (r, s')")
  case True
  then show ?thesis by (rule kept_after) (rule kept_reads(3)[OF s])
next
  case False
  then have "s' = s \<and> (r = Done (ET_OK, []) \<or> r = Done (ET_ERROR, []) \<or> r = Done (ET_ERROR_DEAD, []))"
    using e l by (auto simp: et_events_new_group_def Let_def att_ix_def split: if_splits)
  then show ?thesis using s by (auto simp: kept_def holds_def)
qed

theorem kept_event_new:
  assumes e: "et_event_new e etr att mode delta sz [] s = Some (r, s')" and l: "locality e = ET_LOCAL"
    and s: "kept N (nat att) D h s"
  shows "kept N (nat att) D h s' \<and> gives (\<lambda>ps. belongs (nat att) (ps @ D)) r s'"
proof (cases "id_group e \<noteq> 0")
  case True
  then show ?thesis
    using e kept_new_group[OF _ l s] by (simp add: et_event_new_def et_event_new_group_def Let_def)
next
  case grp: False
  show ?thesis
  proof (cases "after_read e (new_finish e (nat att) sz [])
      (et_station_read 0 (mode AND ET_WAIT_MASK) (nat att)) s = Some (r, s')")
    case True
    then show ?thesis by (rule kept_after) (rule kept_reads(1)[OF s])
  next
    case False
    then have "s' = s \<and> (r = Done (ET_ERROR, []) \<or> r = Done (ET_ERROR_DEAD, []))"
      using e l grp by (auto simp: et_event_new_def Let_def att_ix_def split: if_splits)
    then show ?thesis using s by auto
  qed
qed

end
