(* ===== verification/EtBridgeInv.thy ===== *)
theory EtBridgeInv imports EtBridge EtHolds begin

text \<open>
  A transfer from one system to another keeps both of them sane, whatever its outcome, and what it sends are copies of
  what it has read. The other processes may do what they like before each call, as long as they keep the systems sane
  and leave the events of the bridge alone.
\<close>

definition others_calm :: "nat \<Rightarrow> int \<Rightarrow> (nat \<Rightarrow> et_shm \<Rightarrow> et_shm) \<Rightarrow> bool" where
  "others_calm N att w \<longleftrightarrow> (\<forall>k s D h. sane N s \<and> holds (nat att) D h s \<longrightarrow>
     sane N (w k s) \<and> holds (nat att) D h (w k s) \<and> nevents_max (w k s) = nevents_max s)"

definition bridge_ok :: "nat \<Rightarrow> nat \<Rightarrow> setting \<Rightarrow> bool" where
  "bridge_ok Nf Nt v \<longleftrightarrow> locality (id_from v) = ET_LOCAL \<and> locality (id_to v) = ET_LOCAL \<and>
     others_calm Nf (att_from v) (others_from v) \<and> others_calm Nt (att_to v) (others_to v)"

text \<open>Places of events, none of them twice.\<close>

definition places :: "et_shm \<Rightarrow> nat list \<Rightarrow> bool" where
  "places s ps \<longleftrightarrow> distinct ps \<and> (\<forall>p\<in>set ps. p < nat (nevents_max s))"

lemma belongs_places: "belongs a ps s \<Longrightarrow> places s ps"
  by (simp add: places_def belongs_def)

text \<open>The systems between two calls, the events read, and the events of the bridge in the other system.\<close>

definition both_sane :: "nat \<Rightarrow> nat \<Rightarrow> bridge \<Rightarrow> bool" where
  "both_sane Nf Nt b \<longleftrightarrow> sane Nf (b_from b) \<and> sane Nt (b_to b)"

section \<open>The calls\<close>

definition only_from :: "bridge \<Rightarrow> bridge \<Rightarrow> bool" where
  "only_from b b' \<longleftrightarrow> b_to b' = b_to b \<and> b_fdata b' = b_fdata b \<and> b_tdata b' = b_tdata b \<and> total_put b' = total_put b \<and>
     b_read b' = b_read b \<and> b_sent b' = b_sent b"

definition only_to :: "bridge \<Rightarrow> bridge \<Rightarrow> bool" where
  "only_to b b' \<longleftrightarrow> b_from b' = b_from b \<and> b_fdata b' = b_fdata b \<and> b_tdata b' = b_tdata b \<and> total_put b' = total_put b \<and>
     b_read b' = b_read b \<and> b_sent b' = b_sent b"

lemma on_from_calm:
  assumes v: "bridge_ok Nf Nt v" and e: "on_from v f b = Some (r, b')" and s: "sane Nf (b_from b)"
    and h: "holds (nat (att_from v)) D h (b_from b)"
  obtains s where "f s = Some (r, b_from b')" "sane Nf s" "holds (nat (att_from v)) D h s"
    "nevents_max s = nevents_max (b_from b)" "only_from b b'"
proof (rule that)
  let ?s = "others_from v (b_calls b) (b_from b)"
  show "f ?s = Some (r, b_from b')" "only_from b b'"
    using e by (auto simp: on_from_def only_from_def split: Option.bind_splits)
  show "sane Nf ?s" "holds (nat (att_from v)) D h ?s" "nevents_max ?s = nevents_max (b_from b)"
    using v s h by (auto simp: bridge_ok_def others_calm_def)
qed

lemma on_to_calm:
  assumes v: "bridge_ok Nf Nt v" and e: "on_to v f b = Some (r, b')" and s: "sane Nt (b_to b)"
    and h: "holds (nat (att_to v)) D h (b_to b)"
  obtains s where "f s = Some (r, b_to b')" "sane Nt s" "holds (nat (att_to v)) D h s"
    "nevents_max s = nevents_max (b_to b)" "only_to b b'"
proof (rule that)
  let ?s = "others_to v (b_calls b) (b_to b)"
  show "f ?s = Some (r, b_to b')" "only_to b b'"
    using e by (auto simp: on_to_def only_to_def split: Option.bind_splits)
  show "sane Nt ?s" "holds (nat (att_to v)) D h ?s" "nevents_max ?s = nevents_max (b_to b)"
    using v s h by (auto simp: bridge_ok_def others_calm_def)
qed

lemma finished_done: "finished f s = Some (x, s') \<longleftrightarrow> f s = Some (Done x, s')"
  by (auto simp: finished_def split: Option.bind_splits run.splits)

text \<open>Put and dump, of events that are places of the system.\<close>

lemma put_sane:
  assumes s: "sane N s" "locality e = ET_LOCAL" "places s ps"
  shows "et_events_put e etr att ps s = Some (st, s') \<Longrightarrow> sane N s' \<and> nevents_max s' = nevents_max s"
    "et_events_dump e etr att ps s = Some (st, s') \<Longrightarrow> sane N s' \<and> nevents_max s' = nevents_max s"
proof -
  have st: "et_step N s s' \<Longrightarrow> sane N s' \<and> nevents_max s' = nevents_max s" for s'
    using step_keeps step_config s(1) by metis
  show "et_events_put e etr att ps s = Some (st, s') \<Longrightarrow> sane N s' \<and> nevents_max s' = nevents_max s"
    using st et_step.puts[OF s(2)] s(3) by (auto simp: places_def)
  show "et_events_dump e etr att ps s = Some (st, s') \<Longrightarrow> sane N s' \<and> nevents_max s' = nevents_max s"
    using st et_step.dumps[OF s(2)] s(3) by (auto simp: places_def)
qed

lemma back_from_sane:
  assumes v: "bridge_ok Nf Nt v" and s: "both_sane Nf Nt b" "places (b_from b) gs" and e: "back_from v gs b = Some (st, b')"
  shows "both_sane Nf Nt b' \<and> only_from b b' \<and> nevents_max (b_from b') = nevents_max (b_from b)"
proof -
  have f: "sane Nf (b_from b)" using s(1) by (simp add: both_sane_def)
  obtain s1 where 1: "et_events_put (id_from v) (put_from v) (att_from v) gs s1 = Some (st, b_from b')" "sane Nf s1"
    "nevents_max s1 = nevents_max (b_from b)" "only_from b b'"
    using on_from_calm[OF v e[unfolded back_from_def] f holds_Nil] by blast
  have "places s1 gs" using s(2) 1(3) by (simp add: places_def)
  then show ?thesis
    using put_sane(1)[OF 1(2) _ _ 1(1)] v 1(3,4) s(1) by (simp add: bridge_ok_def both_sane_def only_from_def)
qed

lemma dumps_to_sane:
  assumes v: "bridge_ok Nf Nt v" and s: "both_sane Nf Nt b" "places (b_to b) ps" and e: "dumps_to v ps b = Some (st, b')"
  shows "both_sane Nf Nt b' \<and> only_to b b' \<and> nevents_max (b_to b') = nevents_max (b_to b)"
proof -
  have f: "sane Nt (b_to b)" using s(1) by (simp add: both_sane_def)
  obtain s1 where 1: "et_events_dump (id_to v) (put_to v) (att_to v) ps s1 = Some (st, b_to b')" "sane Nt s1"
    "nevents_max s1 = nevents_max (b_to b)" "only_to b b'"
    using on_to_calm[OF v e[unfolded dumps_to_def] f holds_Nil] by blast
  have "places s1 ps" using s(2) 1(3) by (simp add: places_def)
  then show ?thesis
    using put_sane(2)[OF 1(2) _ _ 1(1)] v 1(3,4) s(1) by (simp add: bridge_ok_def both_sane_def only_to_def)
qed

text \<open>What is put is recorded as sent.\<close>

lemma puts_to_sane:
  assumes v: "bridge_ok Nf Nt v" and s: "both_sane Nf Nt b" "places (b_to b) ps" and e: "puts_to v ps b = Some (st, b')"
  shows "both_sane Nf Nt b' \<and> b_from b' = b_from b \<and> b_fdata b' = b_fdata b \<and> b_read b' = b_read b \<and>
    nevents_max (b_to b') = nevents_max (b_to b) \<and>
    b_sent b' = b_sent b @ (if st = ET_OK then map (contents (b_to b) (b_tdata b)) ps else []) \<and>
    total_put b' = total_put b + (if st = ET_OK then int (length ps) else 0)"
proof -
  have f: "sane Nt (b_to b)" using s(1) by (simp add: both_sane_def)
  obtain c where c: "on_to v (et_events_put (id_to v) (put_to v) (att_to v) ps) b = Some (st, c)"
    "b' = (if st \<noteq> ET_OK then c else c\<lparr>total_put := total_put c + int (length ps),
       b_sent := b_sent c @ map (contents (b_to b) (b_tdata b)) ps\<rparr>)"
    using e by (auto simp: puts_to_def Let_def split: Option.bind_splits)
  obtain s1 where 1: "et_events_put (id_to v) (put_to v) (att_to v) ps s1 = Some (st, b_to c)" "sane Nt s1"
    "nevents_max s1 = nevents_max (b_to b)" "only_to b c"
    using on_to_calm[OF v c(1) f holds_Nil] by blast
  have "places s1 ps" using s(2) 1(3) by (simp add: places_def)
  then show ?thesis
    using put_sane(1)[OF 1(2) _ _ 1(1)] v 1(3,4) s(1) c(2) by (simp add: bridge_ok_def both_sane_def only_to_def)
qed

lemma gets_give:
  assumes e: "et_events_get e etr att mode delta m s = Some (Done (ET_OK, gs), s')" and l: "locality e = ET_LOCAL"
    and s: "sane N s"
  shows "sane N s' \<and> belongs (nat att) gs s'"
proof -
  have k: "stations_ok N s'" using sto.get_keeps(2)[OF _ l e] s by (simp add: sane_def)
  show ?thesis
  proof (cases "gs = [] \<and> s' = s")
    case False
    then have a: "att < ET_ATTACHMENTS_MAX" "0 \<le> at_stat (attach (sys s) (nat att))"
      using e l by (auto simp: et_events_get_def Let_def att_ix_def stat_ix_def split: if_splits Option.bind_splits)
    then show ?thesis using et_events_get_ok[OF l _ _ a, of N etr mode delta m] e s k by (auto simp: sane_def)
  qed (use s in \<open>simp add: belongs_def\<close>)
qed

lemma gets_sane:
  assumes e: "et_events_get e etr att mode delta m s = Some (r, s')" and l: "locality e = ET_LOCAL" and s: "sane N s"
  shows "sane N s'"
  by (rule step_keeps[OF et_step.gets[OF l e] s])

lemma get_from_sane:
  assumes v: "bridge_ok Nf Nt v" and s: "both_sane Nf Nt b" and e: "get_from v n b = Some ((st, gs), b')"
  shows "both_sane Nf Nt b' \<and> b_to b' = b_to b \<and> b_fdata b' = b_fdata b \<and> b_sent b' = b_sent b \<and> total_put b' = total_put b \<and>
    (st = ET_OK \<longrightarrow> holds (nat (att_from v)) gs (events (b_from b')) (b_from b') \<and>
       b_read b' = b_read b @ map (contents (b_from b') (b_fdata b')) gs) \<and>
    (st \<noteq> ET_OK \<longrightarrow> b_read b' = b_read b)"
proof -
  have f: "sane Nf (b_from b)" and l: "locality (id_from v) = ET_LOCAL" using s v by (simp_all add: both_sane_def bridge_ok_def)
  obtain c where c: "on_from v (finished (et_events_get (id_from v) (read_from v) (att_from v) (mode_from (b_config v)) True n)) b =
      Some ((st, gs), c)"
    "b' = (if st \<noteq> ET_OK then c else c\<lparr>b_read := b_read c @ map (contents (b_from c) (b_fdata c)) gs\<rparr>)"
    using e by (auto simp: get_from_def split: Option.bind_splits)
  obtain s1 where 1: "et_events_get (id_from v) (read_from v) (att_from v) (mode_from (b_config v)) True n s1 = Some (Done (st, gs), b_from c)"
    "sane Nf s1" "only_from b c"
    using on_from_calm[OF v c(1) f holds_Nil] by (metis finished_done)
  have "sane Nf (b_from c)" by (rule gets_sane[OF 1(1) l 1(2)])
  moreover have "st = ET_OK \<longrightarrow> belongs (nat (att_from v)) gs (b_from c)" using gets_give[OF _ l 1(2)] 1(1) by blast
  ultimately show ?thesis using c(2) 1(3) s holds_self by (auto simp: both_sane_def only_from_def)
qed

section \<open>New events\<close>

lemma news_sane:
  assumes e: "et_events_new e etr att mode delta sz m [] s = Some (Done (st, ps), s')" and l: "locality e = ET_LOCAL"
    and s: "sane N s"
  shows "sane N s' \<and> (st = ET_OK \<longrightarrow> belongs (nat att) ps s')"
proof -
  have "all_placed N s' \<and> gives (belongs (nat att)) (Done (st, ps)) s'"
    by (rule et_events_new_ok[OF e l]) (use s in \<open>auto simp: sane_def calm_def\<close>)
  then show ?thesis using sto.new_keeps(2)[OF _ l e] s by (auto simp: sane_def)
qed

lemma new_to_sane:
  assumes v: "bridge_ok Nf Nt v" and s: "both_sane Nf Nt b" and e: "new_to v n b = Some ((st, ps), b')"
  shows "both_sane Nf Nt b' \<and> b_from b' = b_from b \<and> b_fdata b' = b_fdata b \<and> b_read b' = b_read b \<and> b_sent b' = b_sent b \<and>
    total_put b' = total_put b \<and> (st = ET_OK \<longrightarrow> belongs (nat (att_to v)) ps (b_to b'))"
proof -
  have f: "sane Nt (b_to b)" and l: "locality (id_to v) = ET_LOCAL" using s v by (simp_all add: both_sane_def bridge_ok_def)
  obtain c where c: "on_to v (finished (et_events_new (id_to v) (read_to v) (att_to v) (mode_to (b_config v)) True
      (esize (id_from v)) n [])) b = Some ((st, ps), c)" "b' = (if st \<noteq> ET_OK then c else new_files ps c)"
    using e by (auto simp: new_to_def split: Option.bind_splits)
  obtain s1 where 1: "et_events_new (id_to v) (read_to v) (att_to v) (mode_to (b_config v)) True (esize (id_from v)) n [] s1 =
      Some (Done (st, ps), b_to c)" "sane Nt s1" "only_to b c"
    using on_to_calm[OF v c(1) f holds_Nil] by (metis finished_done)
  show ?thesis using news_sane[OF 1(1) l 1(2)] 1(3) c(2) s by (auto simp: both_sane_def only_to_def new_files_def)
qed

text \<open>A larger event beside those the bridge has.\<close>

lemma new1_to_sane:
  assumes v: "bridge_ok Nf Nt v" and s: "both_sane Nf Nt b" and d: "belongs (nat (att_to v)) D (b_to b)"
    and e: "new1_to v sz b = Some ((st, ns), b')"
  shows "both_sane Nf Nt b' \<and> b_from b' = b_from b \<and> b_fdata b' = b_fdata b \<and> b_read b' = b_read b \<and> b_sent b' = b_sent b \<and>
    total_put b' = total_put b \<and> belongs (nat (att_to v)) (if st = ET_OK then ns @ D else D) (b_to b') \<and>
    (\<forall>p\<in>set D. events (b_to b') p = events (b_to b) p \<and> b_tdata b' p = b_tdata b p)"
proof -
  have f: "sane Nt (b_to b)" and l: "locality (id_to v) = ET_LOCAL" using s v by (simp_all add: both_sane_def bridge_ok_def)
  obtain c where c: "on_to v (finished (et_event_new (id_to v) (read_to v) (att_to v) (mode_to (b_config v)) True
      sz [])) b = Some ((st, ns), c)" "b' = (if st \<noteq> ET_OK then c else new_files ns c)"
    using e by (auto simp: new1_to_def split: Option.bind_splits)
  obtain s1 where 1: "et_event_new (id_to v) (read_to v) (att_to v) (mode_to (b_config v)) True sz [] s1 =
      Some (Done (st, ns), b_to c)" "sane Nt s1" "holds (nat (att_to v)) D (events (b_to b)) s1" "only_to b c"
    using on_to_calm[OF v c(1) f holds_self[OF d]] by (metis finished_done)
  have k: "kept Nt (nat (att_to v)) D (events (b_to b)) (b_to c) \<and> gives (\<lambda>ps. belongs (nat (att_to v)) (ps @ D)) (Done (st, ns)) (b_to c)"
    by (rule kept_event_new[OF 1(1) l]) (use 1(2,3) in \<open>simp add: kept_def sane_def\<close>)
  have "stations_ok Nt (b_to c)" using sto.new_keeps(3)[OF _ l 1(1)] 1(2) by (simp add: sane_def)
  then show ?thesis
    using k 1(4) c(2) s by (auto simp: both_sane_def only_to_def new_files_def kept_def sane_def holds_def belongs_def)
qed

section \<open>Copying\<close>

lemma sane_header:
  assumes s: "sane N s" and o: "owner (events s p) \<noteq> ET_SYS" "owner (f (events s p)) = owner (events s p)"
    "priority (f (events s p)) = priority (events s p) \<or> priority (f (events s p)) \<in> {ET_LOW, ET_HIGH}"
  shows "sane N (upd_event p f s)"
  using s all_placed_quiet[OF _ quiet_event[where f = f and p = p, OF o]] by (simp add: sane_def)

lemma sane_priority: "sane N s \<Longrightarrow> priority (events s p) \<in> {ET_LOW, ET_HIGH}"
  by (auto simp: sane_def all_placed_def placed_def prio_ok_def)

lemma belongs_header: "belongs a D s \<Longrightarrow> owner (f (events s p)) = owner (events s p) \<Longrightarrow> belongs a D (upd_event p f s)"
  by (auto simp: belongs_def upd_event_def)

lemma upd_events [simp]: "events (upd_event p f s) = (events s)(p := f (events s p))"
  by (simp add: upd_event_def)

lemma copy_event_sane:
  assumes s: "both_sane Nf Nt b" "belongs (nat a) D (b_to b)" "p \<in> set D" and e: "copy_event v j p b = Some (st, b')"
  shows "both_sane Nf Nt b' \<and> belongs (nat a) D (b_to b') \<and> b_from b' = b_from b \<and> b_fdata b' = b_fdata b \<and>
    b_read b' = b_read b \<and> b_sent b' = b_sent b \<and> total_put b' = total_put b \<and>
    (\<forall>q. q \<noteq> p \<longrightarrow> events (b_to b') q = events (b_to b) q \<and> b_tdata b' q = b_tdata b q)"
proof -
  let ?g = "copy_header (id_to v) (events (b_from b) j)"
  let ?s = "upd_event p ?g (b_to b)"
  have o: "owner (events (b_to b) p) \<noteq> ET_SYS" using s(2,3) belongs_owner by blast
  have "sane Nf (b_from b)" "sane Nt (b_to b)" using s(1) by (simp_all add: both_sane_def)
  then have 1: "sane Nt ?s"
    by (intro sane_header o) (use sane_priority[of Nf] in \<open>simp_all add: copy_header_def\<close>)
  let ?w = "\<lambda>pe. pe\<lparr>byteorder := ET_SWAP32 (byteorder pe)\<rparr>"
  have 2: "sane Nt (upd_event p ?w ?s)" by (intro sane_header 1) (use o in \<open>simp_all add: copy_header_def\<close>)
  have 3: "belongs (nat a) D ?s" "belongs (nat a) D (upd_event p ?w ?s)"
    by (intro belongs_header s(2); simp add: copy_header_def)+
  have "(b_to b' = ?s \<or> b_to b' = upd_event p ?w ?s) \<and> b_from b' = b_from b \<and> b_fdata b' = b_fdata b \<and>
    b_read b' = b_read b \<and> b_sent b' = b_sent b \<and> total_put b' = total_put b \<and> (\<forall>q. q \<noteq> p \<longrightarrow> b_tdata b' q = b_tdata b q)"
    using e by (auto simp: copy_event_def Let_def split: option.splits Option.bind_splits if_splits)
  then show ?thesis using 1 2 3 s(1) by (auto simp: both_sane_def)
qed

text \<open>Without a swap function the copy has the same data.\<close>

definition copied :: "setting \<Rightarrow> et_event \<times> byte list \<Rightarrow> et_event \<times> byte list \<Rightarrow> bool" where
  "copied v r c \<longleftrightarrow> (case (r, c) of ((ge, gd), (pe, pd)) \<Rightarrow>
     ev_length pe = ev_length ge \<and> priority pe = priority ge \<and> byteorder pe = byteorder ge \<and> pd = gd \<and>
     (\<forall>k. k < nat (id_nselects (id_to v)) \<and> k < length (control pe) \<longrightarrow> control pe ! k = control ge ! k))"

lemma copy_event_copied:
  assumes e: "copy_event v j p b = Some (st, b')" and f: "bc_func (b_config v) = None"
  shows "st = ET_OK \<and> copied v (contents (b_from b) (b_fdata b) j) (contents (b_to b') (b_tdata b') p)"
proof -
  let ?n = "unat (ev_length (events (b_from b) j))"
  obtain d where d: "memcpy ?n (b_fdata b j) (b_tdata b p) = Some d" "st = ET_OK"
    "b' = b\<lparr>b_to := upd_event p (copy_header (id_to v) (events (b_from b) j)) (b_to b), b_tdata := (b_tdata b)(p := d)\<rparr>"
    using e f by (auto simp: copy_event_def Let_def split: Option.bind_splits)
  have "take ?n d = take ?n (b_fdata b j)" using d(1) by (auto simp: memcpy_def split: if_splits)
  then show ?thesis using d(2,3) by (auto simp: copied_def contents_def copy_header_def copy_ints_nth)
qed

section \<open>The loop over the new events\<close>

definition cont :: "heap \<Rightarrow> (nat \<Rightarrow> byte list) \<Rightarrow> nat \<Rightarrow> et_event \<times> byte list" where
  "cont h d g = (h g, take (unat (ev_length (h g))) (d g))"

definition filled_ok :: "setting \<Rightarrow> nat list \<Rightarrow> heap \<Rightarrow> nat \<Rightarrow> nat list \<Rightarrow> bridge \<Rightarrow> bool" where
  "filled_ok v gs h prev fs b \<longleftrightarrow> prev + length fs \<le> length gs \<and> (\<forall>i<length fs.
     copied v (cont h (b_fdata b) (gs ! (prev + i))) (contents (b_to b) (b_tdata b) (fs ! i)))"

text \<open>Whatever the outcome, only copies of what was read are sent, and what is sent is counted.\<close>

definition sent_copies :: "setting \<Rightarrow> nat list \<Rightarrow> heap \<Rightarrow> bridge \<Rightarrow> bridge \<Rightarrow> bool" where
  "sent_copies v gs h b b' \<longleftrightarrow> b_read b' = b_read b \<and> (\<exists>cs. b_sent b' = b_sent b @ cs \<and>
     total_put b' = total_put b + int (length cs) \<and> (\<forall>c\<in>set cs. \<exists>g\<in>set gs. copied v (cont h (b_fdata b) g) c))"

lemma filled_copies:
  assumes "filled_ok v gs h prev fs b" "c \<in> set (map (contents (b_to b) (b_tdata b)) fs)"
  shows "\<exists>g\<in>set gs. copied v (cont h (b_fdata b) g) c"
proof -
  from assms(2) obtain i where i: "i < length fs" "c = contents (b_to b) (b_tdata b) (fs ! i)"
    by (auto simp: in_set_conv_nth)
  then have "copied v (cont h (b_fdata b) (gs ! (prev + i))) c" "gs ! (prev + i) \<in> set gs"
    using assms(1) by (simp_all add: filled_ok_def)
  then show ?thesis by blast
qed

lemma give_up_sane:
  assumes v: "bridge_ok Nf Nt v" and s: "both_sane Nf Nt b"
    and p: "places (b_from b) gs" "places (b_to b) fs" "places (b_to b) rest" "places (b_to b) dump"
    and e: "give_up v gs fs rest dump b = Some b'"
  shows "both_sane Nf Nt b'" "filled_ok v gs h prev fs b \<Longrightarrow> sent_copies v gs h b b'"
proof -
  obtain st1 b1 st2 b2 st3 b3 st4 where 1: "back_from v gs b = Some (st1, b1)" "puts_to v fs b1 = Some (st2, b2)"
    "dumps_to v rest b2 = Some (st3, b3)" "dumps_to v dump b3 = Some (st4, b')"
    using e by (auto simp: give_up_def split: Option.bind_splits)
  note b1 = back_from_sane[OF v s p(1) 1(1)]
  have t1: "b_to b1 = b_to b" "b_tdata b1 = b_tdata b" using b1 by (simp_all add: only_from_def)
  have b2: "both_sane Nf Nt b2 \<and> b_from b2 = b_from b1 \<and> b_fdata b2 = b_fdata b1 \<and> b_read b2 = b_read b1 \<and>
    nevents_max (b_to b2) = nevents_max (b_to b1) \<and>
    b_sent b2 = b_sent b1 @ (if st2 = ET_OK then map (contents (b_to b1) (b_tdata b1)) fs else []) \<and>
    total_put b2 = total_put b1 + (if st2 = ET_OK then int (length fs) else 0)"
    by (rule puts_to_sane[OF v _ _ 1(2)]) (use b1 p(2) t1 in simp_all)
  have b3: "both_sane Nf Nt b3 \<and> only_to b2 b3 \<and> nevents_max (b_to b3) = nevents_max (b_to b2)"
    by (rule dumps_to_sane[OF v _ _ 1(3)]) (use b2 p(3) t1 in \<open>simp_all add: places_def\<close>)
  have b4: "both_sane Nf Nt b' \<and> only_to b3 b' \<and> nevents_max (b_to b') = nevents_max (b_to b3)"
    by (rule dumps_to_sane[OF v _ _ 1(4)]) (use b2 b3 p(4) t1 in \<open>simp_all add: places_def\<close>)
  show "both_sane Nf Nt b'" using b4 by simp
  have r: "b_read b' = b_read b \<and> b_sent b' = b_sent b @ (if st2 = ET_OK then map (contents (b_to b) (b_tdata b)) fs else []) \<and>
    total_put b' = total_put b + (if st2 = ET_OK then int (length fs) else 0)"
    using b1 b2 b3 b4 t1 by (simp add: only_from_def only_to_def)
  show "sent_copies v gs h b b'" if "filled_ok v gs h prev fs b"
    unfolding sent_copies_def using r filled_copies[OF that]
    by (intro conjI exI[of _ "if st2 = ET_OK then map (contents (b_to b) (b_tdata b)) fs else []"]) auto
qed

lemma places_sub: "places s ps \<Longrightarrow> distinct qs \<Longrightarrow> set qs \<subseteq> set ps \<Longrightarrow> places s qs"
  by (auto simp: places_def)

text \<open>The state in the loop: what has been read, and the new events at hand.\<close>

definition at_work :: "nat \<Rightarrow> nat \<Rightarrow> setting \<Rightarrow> nat list \<Rightarrow> heap \<Rightarrow> nat list \<Rightarrow> bridge \<Rightarrow> bool" where
  "at_work Nf Nt v gs h D b \<longleftrightarrow> both_sane Nf Nt b \<and> holds (nat (att_from v)) gs h (b_from b) \<and>
     belongs (nat (att_to v)) D (b_to b)"

lemma at_workD:
  assumes "at_work Nf Nt v gs h D b"
  shows "both_sane Nf Nt b" "places (b_from b) gs" "places (b_to b) D" "belongs (nat (att_to v)) D (b_to b)"
    "holds (nat (att_from v)) gs h (b_from b)"
  using assms by (auto simp: at_work_def holds_def belongs_places)

lemma at_work_perm: "at_work Nf Nt v gs h D b \<Longrightarrow> mset D = mset E \<Longrightarrow> at_work Nf Nt v gs h E b"
  unfolding at_work_def belongs_def by (metis mset_eq_imp_distinct_iff mset_eq_setD)

definition unsent :: "bridge \<Rightarrow> bridge \<Rightarrow> bool" where
  "unsent b b' \<longleftrightarrow> b_from b' = b_from b \<and> b_fdata b' = b_fdata b \<and> b_read b' = b_read b \<and> b_sent b' = b_sent b \<and>
     total_put b' = total_put b"

lemma unsent_trans: "unsent b c \<Longrightarrow> unsent c d \<Longrightarrow> unsent b d"
  by (simp add: unsent_def)

lemma sent_copies_unsent: "unsent b c \<Longrightarrow> sent_copies v gs h c d \<Longrightarrow> sent_copies v gs h b d"
  by (simp add: unsent_def sent_copies_def)

text \<open>A place that is large enough: the one at hand, or a larger new one.\<close>

lemma enlarge:
  assumes v: "bridge_ok Nf Nt v" and w: "at_work Nf Nt v gs h (fs @ (p # ps) @ dump) b"
    and e: "(if big then do {
            ((st, ns), b) \<leftarrow> new1_to v len b;
            if st \<noteq> ET_OK then Some (st, p, dump, b)
            else case ns of [n] \<Rightarrow> Some (st, n, dump @ [p], b) | _ \<Rightarrow> None }
          else Some (st0, p, dump, b)) = Some (st, q, dump', b')"
  shows "at_work Nf Nt v gs h (fs @ (q # ps) @ dump') b' \<and> unsent b b' \<and>
    (filled_ok v gs h prev fs b \<longrightarrow> filled_ok v gs h prev fs b')"
proof (cases big)
  case False
  then show ?thesis using e w by (auto simp: unsent_def)
next
  case True
  then obtain st1 ns c where c: "new1_to v len b = Some ((st1, ns), c)"
    "(if st1 \<noteq> ET_OK then Some (st1, p, dump, c)
      else case ns of [n] \<Rightarrow> Some (st1, n, dump @ [p], c) | _ \<Rightarrow> None) = Some (st, q, dump', b')"
    using e by (auto split: Option.bind_splits)
  note n = new1_to_sane[OF v at_workD(1)[OF w] at_workD(4)[OF w] c(1)]
  have b: "b' = c" "st1 = st" using c(2) by (auto split: if_splits list.splits)
  have d: "(st \<noteq> ET_OK \<and> q = p \<and> dump' = dump) \<or> (st = ET_OK \<and> ns = [q] \<and> dump' = dump @ [p])"
    using c(2) by (auto split: if_splits list.splits)
  have u: "unsent b b'" using n b by (simp add: unsent_def)
  have "belongs (nat (att_to v)) (fs @ (q # ps) @ dump') (b_to b')"
    using n b d by (auto simp: belongs_def)
  moreover have "filled_ok v gs h prev fs b \<longrightarrow> filled_ok v gs h prev fs b'" using n b by (auto simp: filled_ok_def contents_def)
  ultimately show ?thesis using n b u w by (simp add: at_work_def unsent_def)
qed

lemma copy_work:
  assumes w: "at_work Nf Nt v gs h (fs @ (p # ps) @ dump) b" and e: "copy_event v (gs ! (length fs + prev)) p b = Some (st, b')"
    and j: "length fs + prev < length gs"
  shows "at_work Nf Nt v gs h (fs @ (p # ps) @ dump) b' \<and> unsent b b'"
    "filled_ok v gs h prev fs b \<Longrightarrow> bc_func (b_config v) = None \<Longrightarrow> st = ET_OK \<and> filled_ok v gs h prev (fs @ [p]) b'"
proof -
  let ?g = "gs ! (length fs + prev)"
  have c: "both_sane Nf Nt b' \<and> belongs (nat (att_to v)) (fs @ (p # ps) @ dump) (b_to b') \<and> b_from b' = b_from b \<and>
    b_fdata b' = b_fdata b \<and> b_read b' = b_read b \<and> b_sent b' = b_sent b \<and> total_put b' = total_put b \<and>
    (\<forall>q. q \<noteq> p \<longrightarrow> events (b_to b') q = events (b_to b) q \<and> b_tdata b' q = b_tdata b q)"
    by (rule copy_event_sane[OF at_workD(1,4)[OF w] _ e]) simp
  then show "at_work Nf Nt v gs h (fs @ (p # ps) @ dump) b' \<and> unsent b b'"
    using w by (simp add: at_work_def unsent_def)
  assume f: "filled_ok v gs h prev fs b" and n: "bc_func (b_config v) = None"
  have "p \<notin> set fs" using at_workD(3)[OF w] by (auto simp: places_def)
  then have o: "contents (b_to b') (b_tdata b') (fs ! i) = contents (b_to b) (b_tdata b) (fs ! i)" if "i < length fs" for i
    using c nth_mem[OF that] by (auto simp: contents_def)
  have "?g \<in> set gs" using j by simp
  then have "contents (b_from b) (b_fdata b) ?g = cont h (b_fdata b) ?g"
    using at_workD(5)[OF w] by (simp add: holds_def contents_def cont_def)
  then have "st = ET_OK \<and> copied v (cont h (b_fdata b) (gs ! (prev + length fs))) (contents (b_to b') (b_tdata b') p)"
    using copy_event_copied[OF e n] by (simp add: add.commute)
  then show "st = ET_OK \<and> filled_ok v gs h prev (fs @ [p]) b'"
    using f o c j by (auto simp: filled_ok_def less_Suc_eq nth_append)
qed

lemma fill_sane:
  assumes v: "bridge_ok Nf Nt v"
    and e: "fill v gs prev st0 fs dump ps b = Some (r, b')" and w: "at_work Nf Nt v gs h (fs @ ps @ dump) b"
    and f: "no \<Longrightarrow> filled_ok v gs h prev fs b" and no: "no \<Longrightarrow> bc_func (b_config v) = None"
  shows "both_sane Nf Nt b' \<and> (\<forall>st. r = Inl st \<and> no \<longrightarrow> sent_copies v gs h b b' \<and> st \<noteq> ET_OK) \<and>
    (\<forall>fs' ds. r = Inr (fs', ds) \<longrightarrow> at_work Nf Nt v gs h (fs' @ ds) b' \<and> unsent b b' \<and>
       length fs' = length fs + length ps \<and> (no \<longrightarrow> filled_ok v gs h prev fs' b'))"
  using e w f
proof (induction ps arbitrary: st0 fs dump b)
  case Nil
  then show ?case using at_workD(1)[OF Nil(2)] by (auto simp: unsent_def)
next
  case (Cons p ps)
  let ?j = "length fs + prev" 
  have j: "?j < length gs" using Cons.prems(1) by (auto simp: Let_def split: if_splits)
  let ?len = "ev_length (events (b_from b) (gs ! ?j))"
  obtain st q dump' b1 where 1: "(if memsize (events (b_to b) p) < ?len then do {
            ((st, ns), b) \<leftarrow> new1_to v ?len b;
            if st \<noteq> ET_OK then Some (st, p, dump, b)
            else case ns of [n] \<Rightarrow> Some (st, n, dump @ [p], b) | _ \<Rightarrow> None }
          else Some (st0, p, dump, b)) = Some (st, q, dump', b1)"
    "(if st \<noteq> ET_OK then do { b \<leftarrow> give_up v gs fs (q # ps) dump' b1; Some (Inl st, b) }
      else do {
         (st1, b) \<leftarrow> copy_event v (gs ! ?j) q b1;
         if st1 \<noteq> ET_OK then do { b \<leftarrow> give_up v gs fs (q # ps) dump' b; Some (Inl st, b) }
         else fill v gs prev st (fs @ [q]) dump' ps b }) = Some (r, b')"
    using Cons.prems(1) j by (auto simp: Let_def not_le split: Option.bind_splits prod.splits)
  have w1: "at_work Nf Nt v gs h (fs @ (q # ps) @ dump') b1" "unsent b b1" "no \<Longrightarrow> filled_ok v gs h prev fs b1"
    using enlarge[OF v Cons.prems(2) 1(1), of prev] Cons.prems(3) by blast+
  have gu: "both_sane Nf Nt c' \<and> (filled_ok v gs h prev fs c \<longrightarrow> sent_copies v gs h c c')"
    if "at_work Nf Nt v gs h (fs @ (q # ps) @ dump') c" "give_up v gs fs (q # ps) dump' c = Some c'" for c c'
  proof -
    note p = places_sub[OF at_workD(3)[OF that(1)]]
    have d: "distinct (fs @ (q # ps) @ dump')" using at_workD(3)[OF that(1)] by (simp add: places_def)
    have "places (b_to c) fs" "places (b_to c) (q # ps)" "places (b_to c) dump'"
      by (rule p; use d in auto)+
    from give_up_sane[OF v at_workD(1,2)[OF that(1)] this that(2)] show ?thesis by blast
  qed
  show ?case
  proof (cases "st = ET_OK")
    case False
    then obtain c where "give_up v gs fs (q # ps) dump' b1 = Some c" "b' = c" "r = Inl st"
      using 1(2) by (auto split: Option.bind_splits)
    then show ?thesis using gu[OF w1(1)] w1(2,3) sent_copies_unsent False by auto
  next
    case True
    then obtain st1 b2 where 2: "copy_event v (gs ! ?j) q b1 = Some (st1, b2)"
      "(if st1 \<noteq> ET_OK then do { b \<leftarrow> give_up v gs fs (q # ps) dump' b2; Some (Inl st, b) }
         else fill v gs prev st (fs @ [q]) dump' ps b2) = Some (r, b')"
      using 1(2) by (auto split: Option.bind_splits)
    have w2: "at_work Nf Nt v gs h (fs @ (q # ps) @ dump') b2" "unsent b1 b2" using copy_work(1)[OF w1(1) 2(1) j] by simp_all
    have f2: "st1 = ET_OK \<and> filled_ok v gs h prev (fs @ [q]) b2" if no
      using copy_work(2)[OF w1(1) 2(1) j w1(3)[OF that] no[OF that]] .
    have u: "unsent b b2" using w1(2) w2(2) unsent_trans by blast
    show ?thesis
    proof (cases "st1 = ET_OK")
      case False
      then obtain c where "give_up v gs fs (q # ps) dump' b2 = Some c" "b' = c" "r = Inl st"
        using 2(2) by (auto split: Option.bind_splits)
      then show ?thesis using gu[OF w2(1)] f2 False by auto
    next
      case True
      then have e3: "fill v gs prev st (fs @ [q]) dump' ps b2 = Some (r, b')" using 2(2) by simp
      have w3: "at_work Nf Nt v gs h ((fs @ [q]) @ ps @ dump') b2" using w2(1) by simp
      from Cons.IH[OF e3 w3] f2 show ?thesis using u unsent_trans sent_copies_unsent by fastforce
    qed
  qed
qed

section \<open>A turn\<close>

text \<open>The events of one turn after another: those read at the places from \<open>prev\<close>, where \<open>prev\<close> is the number of the last turn.\<close>

fun windows :: "nat \<Rightarrow> nat list \<Rightarrow> nat list" where
  "windows prev [] = []"
| "windows prev (n # ns) = [prev..<prev + n] @ windows n ns"

definition sent_windows :: "setting \<Rightarrow> nat list \<Rightarrow> heap \<Rightarrow> nat \<Rightarrow> nat list \<Rightarrow> bridge \<Rightarrow> bridge \<Rightarrow> bool" where
  "sent_windows v gs h prev ns b b' \<longleftrightarrow> b_read b' = b_read b \<and> set (windows prev ns) \<subseteq> {..<length gs} \<and>
     (\<exists>cs. b_sent b' = b_sent b @ cs \<and> total_put b' = total_put b + int (length cs) \<and>
       list_all2 (copied v) (map (\<lambda>i. cont h (b_fdata b) (gs ! i)) (windows prev ns)) cs)"

lemma sent_windows_Nil [simp]: "sent_windows v gs h prev [] b b"
  by (simp add: sent_windows_def)

lemma sent_windows_Cons:
  assumes "sent_windows v gs h prev [n] b c" "sent_windows v gs h n ns c d" "b_fdata c = b_fdata b"
  shows "sent_windows v gs h prev (n # ns) b d"
  using assms by (auto simp: sent_windows_def intro!: list_all2_appendI)

lemma send_sane:
  assumes v: "bridge_ok Nf Nt v" and w: "at_work Nf Nt v gs h (fs @ ds) b" and e: "send v gs fs ds b = Some (r, b')"
  shows "both_sane Nf Nt b' \<and> b_fdata b' = b_fdata b \<and> (r = None \<longrightarrow> b_from b' = b_from b) \<and> r \<noteq> Some ET_OK \<and>
    (filled_ok v gs h prev fs b \<longrightarrow> sent_copies v gs h b b' \<and> (r = None \<longrightarrow> sent_windows v gs h prev [length fs] b b'))"
proof -
  have d: "distinct (fs @ ds)" using at_workD(3)[OF w] by (simp add: places_def)
  have p: "places (b_to b) fs" "places (b_to b) ds"
    by (rule places_sub[OF at_workD(3)[OF w]]; use d in auto)+
  obtain st b1 where 1: "(if fs = [] then Some (ET_OK, b) else puts_to v fs b) = Some (st, b1)"
    "(if st \<noteq> ET_OK then do { (_, b) \<leftarrow> dumps_to v ds b1; (_, b) \<leftarrow> back_from v gs b; Some (Some st, b) }
      else do {
       (st, b) \<leftarrow> (if ds = [] then Some (ET_OK, b1) else dumps_to v ds b1);
       if st \<noteq> ET_OK then do { (_, b) \<leftarrow> back_from v gs b; Some (Some st, b) }
       else Some (None, b) }) = Some (r, b')"
    using e by (auto simp: send_def split: Option.bind_splits)
  let ?cs = "if st = ET_OK then map (contents (b_to b) (b_tdata b)) fs else []"
  have b1: "both_sane Nf Nt b1 \<and> b_from b1 = b_from b \<and> b_fdata b1 = b_fdata b \<and> b_read b1 = b_read b \<and>
    nevents_max (b_to b1) = nevents_max (b_to b) \<and> b_sent b1 = b_sent b @ ?cs \<and>
    total_put b1 = total_put b + int (length ?cs)"
  proof (cases "fs = []")
    case True
    then show ?thesis using 1(1) at_workD(1)[OF w] by auto
  next
    case False
    then show ?thesis using puts_to_sane[OF v at_workD(1)[OF w] p(1)] 1(1) by auto
  qed
  have dump: "both_sane Nf Nt c \<and> only_to b1 c" if "(if ds = [] then Some (ET_OK, b1) else dumps_to v ds b1) = Some (st', c) \<or>
      dumps_to v ds b1 = Some (st', c)" for st' c
  proof -
    have "c = b1 \<or> dumps_to v ds b1 = Some (st', c)" using that by (auto split: if_splits)
    then show ?thesis
    proof
      assume d: "dumps_to v ds b1 = Some (st', c)"
      show ?thesis using dumps_to_sane[OF v _ _ d] b1 p(2) by (simp add: places_def)
    qed (use b1 in \<open>simp add: only_to_def\<close>)
  qed
  have pb: "both_sane Nf Nt d \<and> only_from c d" if "back_from v gs c = Some (st', d)" "both_sane Nf Nt c" "only_to b1 c" for st' c d
    using back_from_sane[OF v that(2) _ that(1)] b1 that(3) at_workD(2)[OF w] by (simp add: only_to_def)
  have fin: "both_sane Nf Nt b' \<and> (\<exists>c. only_to b1 c \<and> (b' = c \<or> only_from c b')) \<and>
      (r = None \<longrightarrow> st = ET_OK \<and> b_from b' = b_from b) \<and> r \<noteq> Some ET_OK"
  proof (cases "st = ET_OK")
    case True
    then obtain st2 b2 where 2: "(if ds = [] then Some (ET_OK, b1) else dumps_to v ds b1) = Some (st2, b2)"
      "(if st2 \<noteq> ET_OK then do { (_, b) \<leftarrow> back_from v gs b2; Some (Some st2, b) } else Some (None, b2)) = Some (r, b')"
      using 1(2) by (auto split: Option.bind_splits)
    have b2: "both_sane Nf Nt b2" "only_to b1 b2" using dump 2(1) by blast+
    show ?thesis
    proof (cases "st2 = ET_OK")
      case t: True
      then show ?thesis using 2(2) b2 b1 True by (auto simp: only_to_def)
    next
      case False
      then obtain st3 where "back_from v gs b2 = Some (st3, b')" "r = Some st2" using 2(2) by (auto split: Option.bind_splits)
      then show ?thesis using pb b2 False by blast
    qed
  next
    case False
    then obtain st2 b2 st3 where "dumps_to v ds b1 = Some (st2, b2)" "back_from v gs b2 = Some (st3, b')" "r = Some st"
      using 1(2) by (auto split: Option.bind_splits)
    then show ?thesis using pb dump False by blast
  qed
  have r: "b_read b' = b_read b \<and> b_fdata b' = b_fdata b \<and> b_sent b' = b_sent b @ ?cs \<and> total_put b' = total_put b + int (length ?cs)"
    using fin b1 by (auto simp: only_to_def only_from_def)
  have "sent_copies v gs h b b' \<and> (r = None \<longrightarrow> sent_windows v gs h prev [length fs] b b')" if f: "filled_ok v gs h prev fs b"
  proof
    show "sent_copies v gs h b b'"
      unfolding sent_copies_def using r filled_copies[OF f] by (intro conjI exI[of _ ?cs]) auto
    have "list_all2 (copied v) (map (\<lambda>i. cont h (b_fdata b) (gs ! i)) [prev..<prev + length fs])
        (map (contents (b_to b) (b_tdata b)) fs)" "set [prev..<prev + length fs] \<subseteq> {..<length gs}"
      using f by (auto simp: filled_ok_def list_all2_conv_all_nth)
    then show "r = None \<longrightarrow> sent_windows v gs h prev [length fs] b b'"
      using fin r by (auto simp: sent_windows_def)
  qed
  then show ?thesis using fin r by blast
qed

lemma new_work:
  assumes v: "bridge_ok Nf Nt v" and s: "both_sane Nf Nt b" "holds (nat (att_from v)) gs h (b_from b)"
    and e: "new_to v n b = Some ((st, ps), b')"
  shows "both_sane Nf Nt b' \<and> unsent b b' \<and> (st = ET_OK \<longrightarrow> at_work Nf Nt v gs h ps b')"
  using new_to_sane[OF v s(1) e] s(2) by (simp add: unsent_def at_work_def)

lemma turn_sane:
  assumes v: "bridge_ok Nf Nt v" and s: "both_sane Nf Nt b" "holds (nat (att_from v)) gs h (b_from b)"
    and e: "turn v gs total_new prev b = Some (r, b')"
  shows "both_sane Nf Nt b' \<and> (\<forall>n. r = Inr n \<longrightarrow> holds (nat (att_from v)) gs h (b_from b') \<and> b_fdata b' = b_fdata b) \<and>
    (bc_func (b_config v) = None \<and> prev \<le> length gs \<longrightarrow>
       sent_copies v gs h b b' \<and> r \<noteq> Inl ET_OK \<and> (\<forall>n. r = Inr n \<longrightarrow> sent_windows v gs h prev [n] b b'))"
proof -
  let ?left = "int (length gs) - int total_new"
  let ?n = "if ?left < chunk_to (b_config v) then ?left else chunk_to (b_config v)"
  let ?no = "bc_func (b_config v) = None \<and> prev \<le> length gs"
  obtain st ps b1 where 1: "new_to v ?n b = Some ((st, ps), b1)"
    "(if st \<noteq> ET_OK then do { (_, b) \<leftarrow> back_from v gs b1; Some (Inl st, b) }
       else if int (length ps) > id_nevents (id_from v) then None
       else do {
         (r, b) \<leftarrow> fill v gs prev st [] [] ps b1;
         case r of Inl st \<Rightarrow> Some (Inl st, b)
         | Inr (filled, dump) \<Rightarrow> do {
             (r, b) \<leftarrow> send v gs filled dump b;
             case r of Some st \<Rightarrow> Some (Inl st, b) | None \<Rightarrow> Some (Inr (length ps), b) } }) = Some (r, b')"
    using e by (auto simp: turn_def Let_def split: Option.bind_splits)
  note n = new_work[OF v s 1(1)]
  show ?thesis
  proof (cases "st = ET_OK")
    case False
    then obtain st1 where 2: "back_from v gs b1 = Some (st1, b')" "r = Inl st" using 1(2) by (auto split: Option.bind_splits)
    have "both_sane Nf Nt b' \<and> only_from b1 b'"
      using back_from_sane[OF v _ _ 2(1)] n s belongs_places[of _ gs "b_from b"] by (auto simp: unsent_def holds_def)
    then show ?thesis using n 2(2) False by (auto simp: sent_copies_def unsent_def only_from_def)
  next
    case True
    then have w1: "at_work Nf Nt v gs h ([] @ ps @ []) b1" using n by simp
    obtain r2 b2 where 2: "fill v gs prev st [] [] ps b1 = Some (r2, b2)"
      "(case r2 of Inl st \<Rightarrow> Some (Inl st, b2)
         | Inr (filled, dump) \<Rightarrow> do {
             (r, b) \<leftarrow> send v gs filled dump b2;
             case r of Some st \<Rightarrow> Some (Inl st, b) | None \<Rightarrow> Some (Inr (length ps), b) }) = Some (r, b')"
      using 1(2) True by (auto split: Option.bind_splits if_splits)
    have f: "filled_ok v gs h prev [] b1" if ?no using that by (simp add: filled_ok_def)
    have f2: "both_sane Nf Nt b2 \<and> (\<forall>st. r2 = Inl st \<and> ?no \<longrightarrow> sent_copies v gs h b1 b2 \<and> st \<noteq> ET_OK) \<and>
        (\<forall>fs' ds. r2 = Inr (fs', ds) \<longrightarrow> at_work Nf Nt v gs h (fs' @ ds) b2 \<and> unsent b1 b2 \<and>
           length fs' = length ps \<and> (?no \<longrightarrow> filled_ok v gs h prev fs' b2))"
      using fill_sane[OF v 2(1) w1, where no = ?no] f by simp
    show ?thesis
    proof (cases r2)
      case (Inl st2)
      then show ?thesis using 2(2) f2 n sent_copies_unsent by auto
    next
      case (Inr x)
      obtain fs ds where x: "x = (fs, ds)" by (cases x)
      obtain r3 where 3: "send v gs fs ds b2 = Some (r3, b')" "r = (case r3 of Some st \<Rightarrow> Inl st | None \<Rightarrow> Inr (length ps))"
        using 2(2) Inr x by (auto split: Option.bind_splits option.splits)
      have w2: "at_work Nf Nt v gs h (fs @ ds) b2" "unsent b b2" "length fs = length ps" "?no \<Longrightarrow> filled_ok v gs h prev fs b2"
        using f2 Inr x n unsent_trans by auto
      note sd = send_sane[OF v w2(1) 3(1), of prev]
      have "holds (nat (att_from v)) gs h (b_from b') \<and> b_fdata b' = b_fdata b" if "r = Inr k" for k
        using that 3(2) sd at_workD(5)[OF w2(1)] w2(2) by (auto simp: unsent_def split: option.splits)
      moreover have "sent_windows v gs h prev [k] b b'" if "r = Inr k" ?no for k
        using that 3(2) sd w2 by (auto simp: unsent_def sent_windows_def split: option.splits)
      moreover have "r \<noteq> Inl ET_OK" using sd 3(2) by (auto split: option.splits)
      ultimately show ?thesis using sd w2 sent_copies_unsent by blast
    qed
  qed
qed

section \<open>The loops\<close>

lemma sent_copies_trans:
  "sent_copies v gs h b c \<Longrightarrow> sent_copies v gs h c d \<Longrightarrow> b_fdata c = b_fdata b \<Longrightarrow> sent_copies v gs h b d"
  unfolding sent_copies_def by (elim conjE exE, rule conjI, simp, rule exI[of _ "_ @ _"], auto)

lemma sent_windows_bound: "sent_windows v gs h prev [n] b c \<Longrightarrow> n \<le> length gs"
  by (cases n) (auto simp: sent_windows_def)

lemma new_loop_sane:
  assumes v: "bridge_ok Nf Nt v" and e: "new_loop v gs tn prev b = Some (r, b')"
    and s: "both_sane Nf Nt b" "holds (nat (att_from v)) gs h (b_from b)"
  shows "both_sane Nf Nt b' \<and> (r = None \<longrightarrow> holds (nat (att_from v)) gs h (b_from b') \<and> b_fdata b' = b_fdata b) \<and>
    (bc_func (b_config v) = None \<and> prev \<le> length gs \<longrightarrow> sent_copies v gs h b b' \<and> r \<noteq> Some ET_OK \<and>
       (r = None \<longrightarrow> (\<exists>ns. length gs \<le> tn + sum_list ns \<and> sent_windows v gs h prev ns b b')))"
proof -
  let ?Q = "\<lambda>tn prev b r b'. both_sane Nf Nt b' \<and>
    (r = None \<longrightarrow> holds (nat (att_from v)) gs h (b_from b') \<and> b_fdata b' = b_fdata b) \<and>
    (bc_func (b_config v) = None \<and> prev \<le> length gs \<longrightarrow> sent_copies v gs h b b' \<and> r \<noteq> Some ET_OK \<and>
       (r = None \<longrightarrow> (\<exists>ns. length gs \<le> tn + sum_list ns \<and> sent_windows v gs h prev ns b b')))"
  let ?P = "\<lambda>u us tn prev b y. u = v \<and> us = gs \<and> both_sane Nf Nt b \<and> holds (nat (att_from v)) gs h (b_from b) \<longrightarrow>
    ?Q tn prev b (fst y) (snd y)"
  have "?P u us tn prev b y" if "new_loop u us tn prev b = Some y" for u us tn prev b y
  proof (rule new_loop.raw_induct[OF _ that, where P = ?P])
    fix f u us tn prev b y
    assume IH: "\<And>u us tn prev b y. f u us tn prev b = Some y \<Longrightarrow> ?P u us tn prev b y"
      and e: "(if tn < length us then do {
          (r, b) \<leftarrow> turn u us tn prev b;
          case r of Inl st \<Rightarrow> Some (Some st, b) | Inr num_new \<Rightarrow> f u us (tn + num_new) num_new b }
        else Some (None, b)) = Some y"
    show "?P u us tn prev b y"
    proof (rule impI, elim conjE)
      assume a: "u = v" "us = gs" "both_sane Nf Nt b" "holds (nat (att_from v)) gs h (b_from b)"
      show "?Q tn prev b (fst y) (snd y)"
      proof (cases "tn < length gs")
        case False
        then have "y = (None, b)" using e a by simp
        then show ?thesis using a False by (auto simp: sent_copies_def intro: exI[of _ "[]"])
      next
        case True
        then obtain r1 b1 where 1: "turn v gs tn prev b = Some (r1, b1)"
          "(case r1 of Inl st \<Rightarrow> Some (Some st, b1) | Inr n \<Rightarrow> f v gs (tn + n) n b1) = Some y"
          using e a by (auto split: Option.bind_splits)
        note t = turn_sane[OF v a(3,4) 1(1)]
        show ?thesis
        proof (cases r1)
          case (Inl st)
          then show ?thesis using 1(2) t by auto
        next
          case (Inr n)
          then have t1: "both_sane Nf Nt b1" "holds (nat (att_from v)) gs h (b_from b1)" "b_fdata b1 = b_fdata b" using t by auto
          have "f v gs (tn + n) n b1 = Some y" using 1(2) Inr by simp
          with IH t1 have q: "?Q (tn + n) n b1 (fst y) (snd y)" by blast
          show ?thesis
          proof (intro conjI impI)
            assume c: "bc_func (b_config v) = None \<and> prev \<le> length gs"
            then have w: "sent_copies v gs h b b1" "sent_windows v gs h prev [n] b b1" using t Inr by auto
            then have n: "n \<le> length gs" using sent_windows_bound by blast
            then show "sent_copies v gs h b (snd y)" using q c w(1) sent_copies_trans t1(3) by blast
            show "fst y \<noteq> Some ET_OK" using q c n by blast
            assume "fst y = None"
            then obtain ns where "length gs \<le> tn + n + sum_list ns" "sent_windows v gs h n ns b1 (snd y)" using q c n by blast
            then show "\<exists>ns. length gs \<le> tn + sum_list ns \<and> sent_windows v gs h prev ns b (snd y)"
              using sent_windows_Cons[OF w(2) _ t1(3)] by (intro exI[of _ "n # ns"]) simp
          qed (use q t1 in auto)
        qed
      qed
    qed
  qed
  from this[OF e] s show ?thesis by simp
qed

text \<open>
  What a transfer has done: every event sent is a copy of one it has read, and they are counted. \<open>rounds\<close> are the
  events of each call that read some, with the numbers of new events in the turns that followed it.
\<close>

type_synonym round = "(et_event \<times> byte list) list \<times> nat list"

definition round_copies :: "setting \<Rightarrow> round list \<Rightarrow> bridge \<Rightarrow> bridge \<Rightarrow> bool" where
  "round_copies v rounds b b' \<longleftrightarrow> b_read b' = b_read b @ concat (map fst rounds) \<and>
     (\<forall>(rs, ns)\<in>set rounds. length rs \<le> sum_list ns \<and> set (windows 0 ns) \<subseteq> {..<length rs}) \<and>
     (\<exists>cs. b_sent b' = b_sent b @ cs \<and> total_put b' = total_put b + int (length cs) \<and>
        list_all2 (copied v) (concat (map (\<lambda>(rs, ns). map ((!) rs) (windows 0 ns)) rounds)) cs)"

definition only_copies :: "setting \<Rightarrow> bridge \<Rightarrow> bridge \<Rightarrow> bool" where
  "only_copies v b b' \<longleftrightarrow> (\<exists>rs cs. b_read b' = b_read b @ rs \<and> b_sent b' = b_sent b @ cs \<and>
     total_put b' = total_put b + int (length cs) \<and> (\<forall>c\<in>set cs. \<exists>r\<in>set rs. copied v r c))"

lemma only_copies_refl [simp]: "only_copies v b b"
  by (simp add: only_copies_def)

lemma only_copies_trans:
  assumes "only_copies v b c" "only_copies v c d"
  shows "only_copies v b d"
proof -
  obtain rs cs rs' cs' where 1: "b_read c = b_read b @ rs" "b_sent c = b_sent b @ cs" "total_put c = total_put b + int (length cs)"
    "\<forall>c\<in>set cs. \<exists>r\<in>set rs. copied v r c" "b_read d = b_read c @ rs'" "b_sent d = b_sent c @ cs'"
    "total_put d = total_put c + int (length cs')" "\<forall>c\<in>set cs'. \<exists>r\<in>set rs'. copied v r c"
    using assms unfolding only_copies_def by blast
  then show ?thesis unfolding only_copies_def
    by (intro exI[of _ "rs @ rs'"] exI[of _ "cs @ cs'"]) auto
qed

lemma round_copies_Nil [simp]: "round_copies v [] b b"
  by (simp add: round_copies_def)

lemma round_copies_Cons:
  assumes "round_copies v [r] b c" "round_copies v rounds c d"
  shows "round_copies v (r # rounds) b d"
proof -
  obtain cs cs' where "b_sent c = b_sent b @ cs" "total_put c = total_put b + int (length cs)"
    "list_all2 (copied v) (concat (map (\<lambda>(rs, ns). map ((!) rs) (windows 0 ns)) [r])) cs"
    "b_sent d = b_sent c @ cs'" "total_put d = total_put c + int (length cs')"
    "list_all2 (copied v) (concat (map (\<lambda>(rs, ns). map ((!) rs) (windows 0 ns)) rounds)) cs'"
    using assms unfolding round_copies_def by blast
  then show ?thesis using assms unfolding round_copies_def
    by (auto intro!: exI[of _ "cs @ cs'"] list_all2_appendI)
qed

lemma round_sane:
  assumes v: "bridge_ok Nf Nt v" and s: "both_sane Nf Nt b" and e: "round_of v left b = Some (r, b')"
  shows "both_sane Nf Nt b' \<and> (bc_func (b_config v) = None \<longrightarrow> only_copies v b b' \<and> r \<noteq> Inl ET_OK \<and>
    (\<forall>n. r = Inr n \<longrightarrow> (\<exists>rs ns. length rs = n \<and> round_copies v [(rs, ns)] b b')))"
proof -
  let ?n = "if left < chunk_from (b_config v) then left else chunk_from (b_config v)"
  let ?no = "bc_func (b_config v) = None"
  obtain st gs b1 where 1: "get_from v ?n b = Some ((st, gs), b1)"
    "(if st \<noteq> ET_OK then Some (Inl st, b1)
       else if int (length gs) > id_nevents (id_from v) then None
       else do {
         (r, b) \<leftarrow> new_loop v gs 0 0 b1;
         case r of Some st \<Rightarrow> Some (Inl st, b)
         | None \<Rightarrow> do { (st, b) \<leftarrow> back_from v gs b; if st \<noteq> ET_OK then Some (Inl st, b) else Some (Inr (length gs), b) } }) =
      Some (r, b')"
    using e by (auto simp: round_of_def Let_def split: Option.bind_splits)
  note g = get_from_sane[OF v s 1(1)]
  show ?thesis
  proof (cases "st = ET_OK")
    case False
    then show ?thesis using 1(2) g by (auto simp: only_copies_def)
  next
    case True
    let ?h = "events (b_from b1)" and ?rs = "map (contents (b_from b1) (b_fdata b1)) gs"
    obtain r2 b2 where 2: "new_loop v gs 0 0 b1 = Some (r2, b2)"
      "(case r2 of Some st \<Rightarrow> Some (Inl st, b2)
         | None \<Rightarrow> do { (st, b) \<leftarrow> back_from v gs b2; if st \<noteq> ET_OK then Some (Inl st, b) else Some (Inr (length gs), b) }) =
       Some (r, b')"
      using 1(2) True by (auto split: Option.bind_splits if_splits)
    have b1: "both_sane Nf Nt b1" "holds (nat (att_from v)) gs ?h (b_from b1)" "b_read b1 = b_read b @ ?rs"
      "b_sent b1 = b_sent b" "total_put b1 = total_put b" using g True by auto
    note l = new_loop_sane[OF v 2(1) b1(1,2)]
    have c: "cont ?h (b_fdata b1) g = contents (b_from b1) (b_fdata b1) g" for g by (simp add: cont_def contents_def)
    have oc: "only_copies v b b2" if ?no
      using l that b1 unfolding sent_copies_def only_copies_def c by (auto intro!: exI[of _ ?rs])
    have b': "both_sane Nf Nt b' \<and> (r2 = None \<longrightarrow> only_from b2 b') \<and> (r2 \<noteq> None \<longrightarrow> b' = b2)"
    proof (cases r2)
      case None
      then obtain st3 where "back_from v gs b2 = Some (st3, b')" using 2(2) by (auto split: Option.bind_splits if_splits)
      moreover have "places (b_from b2) gs" using l None belongs_places by (auto simp: holds_def)
      ultimately show ?thesis using back_from_sane[OF v] l None by blast
    qed (use 2(2) l in auto)
    then have oc': "only_copies v b b'" if ?no
      using oc[OF that] by (cases r2) (auto simp: only_copies_def only_from_def)
    have "\<exists>rs ns. length rs = n \<and> round_copies v [(rs, ns)] b b'" if ?no "r = Inr n" for n
    proof -
      have no: ?no by (rule that(1))
      have n: "r2 = None" "n = length gs" using 2(2) that(2) by (auto split: option.splits Option.bind_splits if_splits)
      then obtain ns where w: "length gs \<le> sum_list ns" "sent_windows v gs ?h 0 ns b1 b2" using l no by auto
      have m: "map (\<lambda>i. contents (b_from b1) (b_fdata b1) (gs ! i)) (windows 0 ns) = map ((!) ?rs) (windows 0 ns)"
        using w(2) by (intro map_cong[OF refl]) (auto simp: sent_windows_def)
      obtain cs where cs: "b_sent b2 = b_sent b1 @ cs" "total_put b2 = total_put b1 + int (length cs)"
        "list_all2 (copied v) (map ((!) ?rs) (windows 0 ns)) cs"
        using w(2) unfolding sent_windows_def c m by blast
      have "round_copies v [(?rs, ns)] b b'"
        unfolding round_copies_def using w b' n(1) b1 cs
        by (intro conjI exI[of _ cs]) (simp_all add: sent_windows_def only_from_def)
      then show ?thesis using n(2) by (intro exI[of _ ?rs] exI[of _ ns]) simp
    qed
    moreover have "?no \<longrightarrow> r \<noteq> Inl ET_OK" using 2(2) l by (auto split: option.splits Option.bind_splits if_splits)
    ultimately show ?thesis using b' oc' by blast
  qed
qed

lemma bridge_loop_sane:
  assumes v: "bridge_ok Nf Nt v" and e: "bridge_loop v n m b = Some (st, b')" and s: "both_sane Nf Nt b"
  shows "both_sane Nf Nt b' \<and> (bc_func (b_config v) = None \<longrightarrow> only_copies v b b' \<and>
    (st = ET_OK \<longrightarrow> (\<exists>rounds. round_copies v rounds b b' \<and> n \<le> m + int (length (concat (map fst rounds))))))"
proof -
  let ?Q = "\<lambda>m b st b'. both_sane Nf Nt b' \<and> (bc_func (b_config v) = None \<longrightarrow> only_copies v b b' \<and>
    (st = ET_OK \<longrightarrow> (\<exists>rounds. round_copies v rounds b b' \<and> n \<le> m + int (length (concat (map fst rounds))))))"
  let ?P = "\<lambda>u k m b y. u = v \<and> k = n \<and> both_sane Nf Nt b \<longrightarrow> ?Q m b (fst y) (snd y)"
  have "?P u k m b y" if "bridge_loop u k m b = Some y" for u k m b y
  proof (rule bridge_loop.raw_induct[OF _ that, where P = ?P])
    fix f u k m b y
    assume IH: "\<And>u k m b y. f u k m b = Some y \<Longrightarrow> ?P u k m b y"
      and e: "(if m < k then do {
          (r, b) \<leftarrow> round_of u (k - m) b;
          case r of Inl st \<Rightarrow> Some (st, b) | Inr num_read \<Rightarrow> f u k (m + int num_read) b }
        else Some (ET_OK, b)) = Some y"
    show "?P u k m b y"
    proof (rule impI, elim conjE)
      assume a: "u = v" "k = n" "both_sane Nf Nt b"
      show "?Q m b (fst y) (snd y)"
      proof (cases "m < n")
        case False
        then have "y = (ET_OK, b)" using e a by simp
        then show ?thesis using a False by (auto intro: exI[of _ "[]"])
      next
        case True
        then obtain r1 b1 where 1: "round_of v (n - m) b = Some (r1, b1)"
          "(case r1 of Inl st \<Rightarrow> Some (st, b1) | Inr num_read \<Rightarrow> f v n (m + int num_read) b1) = Some y"
          using e a by (auto split: Option.bind_splits)
        note t = round_sane[OF v a(3) 1(1)]
        show ?thesis
        proof (cases r1)
          case (Inl st)
          then show ?thesis using 1(2) t by auto
        next
          case (Inr num_read)
          then have "f v n (m + int num_read) b1 = Some y" using 1(2) by simp
          with IH t have q: "?Q (m + int num_read) b1 (fst y) (snd y)" by blast
          show ?thesis
          proof (intro conjI impI)
            show "both_sane Nf Nt (snd y)" using q by blast
            assume no: "bc_func (b_config v) = None"
            then show "only_copies v b (snd y)" using q t only_copies_trans by blast
            obtain rs ns where r: "length rs = num_read" "round_copies v [(rs, ns)] b b1" using t no Inr by blast
            assume "fst y = ET_OK"
            then obtain rounds where "round_copies v rounds b1 (snd y)"
              "n \<le> m + int num_read + int (length (concat (map fst rounds)))" using q no by blast
            then show "\<exists>rounds. round_copies v rounds b (snd y) \<and> n \<le> m + int (length (concat (map fst rounds)))"
              using round_copies_Cons[OF r(2)] r(1) by (intro exI[of _ "(rs, ns) # rounds"]) simp
          qed
        qed
      qed
    qed
  qed
  from this[OF e] s show ?thesis by simp
qed

section \<open>The call\<close>

lemma copied_config [simp]: "copied (v\<lparr>b_config := c\<rparr>) = copied v"
  by (simp add: copied_def fun_eq_iff)

lemma setting_config [simp]:
  "bridge_ok Nf Nt (v\<lparr>b_config := c\<rparr>) = bridge_ok Nf Nt v"
  "only_copies (v\<lparr>b_config := c\<rparr>) = only_copies v" "round_copies (v\<lparr>b_config := c\<rparr>) = round_copies v"
  by (simp_all add: bridge_ok_def only_copies_def[abs_def] round_copies_def[abs_def])

lemma bridge_call:
  assumes v: "bridge_ok Nf Nt v" and e: "et_events_bridge r1 r2 mem v bconfig n b = Some (st, b')" and s: "both_sane Nf Nt b"
  shows "both_sane Nf Nt b' \<and> ((\<forall>c. bconfig = Some c \<longrightarrow> bc_func c = None) \<longrightarrow>
    only_copies v (b\<lparr>total_put := 0\<rparr>) b' \<and> (st = ET_OK \<longrightarrow>
      (\<exists>rounds. round_copies v rounds (b\<lparr>total_put := 0\<rparr>) b' \<and> n \<le> int (length (concat (map fst rounds))))))"
proof -
  let ?b = "b\<lparr>total_put := 0\<rparr>"
  have l: "locality (id_from v) \<noteq> ET_REMOTE" "locality (id_to v) \<noteq> ET_REMOTE" using v by (simp_all add: bridge_ok_def)
  have s0: "both_sane Nf Nt ?b" using s by (simp add: both_sane_def)
  have "(st = ET_ERROR \<and> b' = ?b) \<or> (\<exists>c. bridge_loop (v\<lparr>b_config := c\<rparr>) n 0 ?b = Some (st, b') \<and>
      ((\<forall>c. bconfig = Some c \<longrightarrow> bc_func c = None) \<longrightarrow> bc_func c = None))"
    using e l by (auto simp: et_events_bridge_def localET_2_localET_def Let_def et_bridge_config_init_def split: option.splits if_splits)
  then show ?thesis
  proof
    assume "\<exists>c. bridge_loop (v\<lparr>b_config := c\<rparr>) n 0 ?b = Some (st, b') \<and>
      ((\<forall>c. bconfig = Some c \<longrightarrow> bc_func c = None) \<longrightarrow> bc_func c = None)"
    then obtain c where c: "bridge_loop (v\<lparr>b_config := c\<rparr>) n 0 ?b = Some (st, b')"
      "(\<forall>c. bconfig = Some c \<longrightarrow> bc_func c = None) \<longrightarrow> bc_func c = None" by blast
    have "bridge_ok Nf Nt (v\<lparr>b_config := c\<rparr>)" using v by simp
    from bridge_loop_sane[OF this c(1) s0] c(2) show ?thesis by simp
  qed (use s0 in simp)
qed

text \<open>One turn or two send the events of a round as they were read.\<close>

lemma windows_two:
  assumes "length ns \<le> 2" "length rs \<le> sum_list ns" "set (windows 0 ns) \<subseteq> {..<length rs}"
  shows "map ((!) rs) (windows 0 ns) = rs"
proof -
  have w: "windows 0 ns = [0..<sum_list ns]"
  proof (cases "length ns = 2")
    case True
    then obtain n m where "ns = [n, m]" by (auto simp: numeral_2_eq_2 length_Suc_conv)
    then show ?thesis using upt_add_eq_append[of 0 n m] by simp
  next
    case False
    then have "length ns \<le> 1" using assms(1) by simp
    then have "ns = [] \<or> (\<exists>n. ns = [n])" by (cases ns) auto
    then show ?thesis by auto
  qed
  have "sum_list ns \<le> length rs"
  proof (rule ccontr)
    assume "\<not> sum_list ns \<le> length rs"
    then have "length rs \<in> set (windows 0 ns)" unfolding w by simp
    then show False using assms(3) by blast
  qed
  then show ?thesis using w assms(2) by (simp add: map_nth)
qed

lemma round_copies_two:
  assumes "round_copies v rounds b b'" "\<forall>(rs, ns)\<in>set rounds. length ns \<le> 2"
  shows "concat (map (\<lambda>(rs, ns). map ((!) rs) (windows 0 ns)) rounds) = concat (map fst rounds)"
proof -
  have "map (\<lambda>(rs, ns). map ((!) rs) (windows 0 ns)) rounds = map fst rounds" (is "?l = ?r")
    using assms windows_two by (intro map_cong[OF refl]) (fastforce simp: round_copies_def)
  then show ?thesis by (rule arg_cong[where f = concat])
qed

end
