(* ===== verification/EtExampleBridge.thy ===== *)
theory EtExampleBridge imports EtBridgeInv EtExample begin

text \<open>
  Two copies of the example system for the transfers. In the one, three events of a byte each, \<open>8\<close>, \<open>9\<close> and \<open>7\<close>, wait
  for attachment 0; in the other, events \<open>0\<close> to \<open>3\<close> of GrandCentral are free. No other process does anything.
\<close>

definition exb_from :: et_shm where
  "exb_from = ex_shm\<lparr>stats := (stats ex_shm)(1 := (stats ex_shm 1)\<lparr>list_in := ex_list [8, 9, 7] 0, list_out := ex_list [6] 1\<rparr>),
     events := (\<lambda>p. (events ex_shm p)\<lparr>ev_length := 1, ev_next := Some (if p = 9 then 7 else p + 1)\<rparr>)\<rparr>"

definition exb :: bridge where
  "exb = \<lparr>b_from = exb_from, b_to = ex_shm, b_fdata = (\<lambda>p. [of_nat p]), b_tdata = (\<lambda>p. replicate 100 0), total_put = 0,
     b_calls = 0, b_read = [], b_sent = []\<rparr>"

definition exb_config :: "int \<Rightarrow> swap_func option \<Rightarrow> et_bridge_config" where
  "exb_config k f = \<lparr>bc_init = ET_STRUCT_OK, mode_from = ET_SLEEP, mode_to = ET_SLEEP, chunk_from = 100, chunk_to = k,
     timeout_from = (0, 0), timeout_to = (0, 0), bc_func = f\<rparr>"

definition exb_setting :: "et_id \<Rightarrow> setting" where
  "exb_setting e = \<lparr>id_from = ex_id, id_to = e, att_from = 0, att_to = 0, b_config = exb_config 100 None,
     read_from = (\<lambda>_. None), read_to = (\<lambda>_. None), put_from = (\<lambda>_. None), put_to = (\<lambda>_. None),
     others_from = (\<lambda>_ s. s), others_to = (\<lambda>_ s. s)\<rparr>"

text \<open>A handle of a system of the other byte order, and a swap function that fails.\<close>

definition exb_id :: et_id where
  "exb_id = ex_id\<lparr>id_endian := ET_ENDIAN_BIG\<rparr>"

definition no_swap :: swap_func where
  "no_swap src dst bytes same_endian = Some (ET_ERROR, dst)"

definition exb_run :: "et_id \<Rightarrow> et_bridge_config \<Rightarrow> int \<Rightarrow> (int \<times> bridge) option" where
  "exb_run e c n = et_events_bridge (\<lambda>_ _ _. None) (\<lambda>_ _ _. None) True (exb_setting e) (Some c) n exb"

section \<open>The two systems are sane\<close>

lemma exb_simps [simp]:
  "events exb_from p = (events ex_shm p)\<lparr>ev_length := 1, ev_next := Some (if p = 9 then 7 else p + 1)\<rparr>"
  "sys exb_from = sys ex_shm"
  "list_in (stats exb_from k) =
     (if k = 0 then ex_list [0, 1, 2, 3] 0 else if k = 1 then ex_list [8, 9, 7] 0 else ex_list [] 0)"
  "list_out (stats exb_from k) = (if k = 1 then ex_list [6] 1 else ex_list [] 0)"
  by (simp_all add: exb_from_def)

lemma exb_held: "held exb_from = [4, 5]"
  using ex_held by (simp add: held_def)

lemma exb_placed: "all_placed 3 exb_from"
proof -
  let ?X = "\<lambda>k. if k = 0 then [0, 1, 2, 3] else if k = 1 then [8, 9, 7] else []"
  let ?Y = "\<lambda>k. if k = 1 then [6] else []"
  have t: "total_in 3 ?X = {#0, 1, 2, 3, 8, 9, 7#}" "total_in 3 ?Y = {#6#}"
    by (simp_all add: total_in_def eval_nat_numeral lessThan_Suc)
  have u: "mset [0..<nat (nevents_max exb_from)] = {#0, 1, 2, 3, 4, 5, 6, 7, 8, 9#}"
    unfolding exb_simps ex_sys_simps by (simp add: upt_rec eval_nat_numeral del: mset_upt)
  have i: "in_lists 3 exb_from ?X"
    by (auto simp: in_lists_def list_repr_def ex_list_def high_first_def high_def)
  have o: "\<forall>k<3. out_repr (events exb_from) (list_out (stats exb_from k)) (?Y k)"
    by (auto simp: out_repr_def list_repr_def ex_list_def high_first_def high_def)
  have p: "prio_ok (events exb_from) UNIV" by (auto simp: prio_ok_def)
  have "placed 3 exb_from ?X ?Y"
    unfolding placed_def lists_ok_def exb_held u t using i o p by (auto simp: add_ac)
  then show ?thesis by (auto simp: all_placed_def)
qed

lemma exb_sane: "both_sane 3 3 exb"
  using exb_placed ex_sane by (simp add: both_sane_def exb_def sane_def stations_ok_def)

lemma exb_ok: "locality e = ET_LOCAL \<Longrightarrow> bridge_ok 3 3 (exb_setting e)"
  by (simp add: bridge_ok_def exb_setting_def others_calm_def)

section \<open>Three transfers\<close>

text \<open>What comes back: the status, the number reported, and the data of the events read and sent.\<close>

definition outcome :: "(int \<times> bridge) option \<Rightarrow> (int \<times> int \<times> byte list list \<times> byte list list) option" where
  "outcome r = (case r of None \<Rightarrow> None | Some (st, b) \<Rightarrow> Some (st, total_put b, map snd (b_read b), map snd (b_sent b)))"

lemma outcome_Some: "outcome r = Some (st, t, rs, cs) \<Longrightarrow>
    \<exists>b. r = Some (st, b) \<and> total_put b = t \<and> map snd (b_read b) = rs \<and> map snd (b_sent b) = cs"
  by (auto simp: outcome_def split: option.splits)

lemma new_loop_turn:
  "tn < length gs \<Longrightarrow> new_loop v gs tn prev b = do {
       (r, b) \<leftarrow> turn v gs tn prev b;
       case r of Inl st \<Rightarrow> Some (Some st, b)
       | Inr num_new \<Rightarrow> new_loop v gs (tn + num_new) num_new b }"
  "\<not> tn < length gs \<Longrightarrow> new_loop v gs tn prev b = Some (None, b)"
  by (subst new_loop.simps, simp)+

lemma bridge_loop_turn:
  "m < n \<Longrightarrow> bridge_loop v n m b = do {
       (r, b) \<leftarrow> round_of v (n - m) b;
       case r of Inl st \<Rightarrow> Some (st, b)
       | Inr num_read \<Rightarrow> bridge_loop v n (m + int num_read) b }"
  "\<not> m < n \<Longrightarrow> bridge_loop v n m b = Some (ET_OK, b)"
  by (subst bridge_loop.simps, simp)+

lemma bind_weak: "m = m' \<Longrightarrow> Option.bind m f = Option.bind m' f"
  by simp

lemma grab_2: "grab_events a 2 p h = do {
     q \<leftarrow> ev_next (h p);
     (ps, h) \<leftarrow> grab_events a 1 q (set_owner p a h);
     Some (p # ps, h) }"
  unfolding numeral_2_eq_2 by simp

text \<open>What the simplifier needs to run a transfer; the second argument of a bind waits for the first.\<close>

lemmas call_defs = on_from_def on_to_def get_from_def new_to_def puts_to_def back_from_def finished_def
  et_events_get_def et_events_new_def et_events_put_def et_events_dump_def att_ix_def stat_ix_def after_read_def
  et_station_nread_def read_enter_def histogram_incr_def in_lock_def in_unlock_def read_loop_def on_station_def
  read_many_def get_finish_def new_finish_def clip_def init_normal_def et_station_nwrite_def put_one_def et_station_ndump_def
  et_init_event_'_def et_init_event_def upd_event_def upd_attach_def upd_station_def set_owner_def set_next_def
  et_llist_lock_def et_llist_unlock_def cond_signal_def contents_def new_files_def bad_mode_def insert_high_def
  sub_temps_def append_all_def append_one_def

lemma ex_shm_more:
  "event_size (sys_config (sys ex_shm)) = 100" "byteorder (events ex_shm p) = 0x04030201"
  by (simp_all add: ex_shm_def ex_sys_def ex_heap_def ex_event_def)

lemmas ex_data = ex_shm_more exb_def exb_setting_def exb_config_def exb_id_def ex_id_def ex_list_def et_alive_def

lemmas run_defs = exb_run_def et_events_bridge_def localET_2_localET_def new_loop_turn bridge_loop_turn round_of_def
  turn_def send_def copy_event_def copy_header_def memcpy_def copy_ints_def outcome_def give_up_def dumps_to_def
  byteorder_wanted_def no_swap_def call_defs ex_data Let_def grab_2

text \<open>Two turns.\<close>

lemma exb_two: "outcome (exb_run ex_id (exb_config 1 None) 2) = Some (ET_OK, 2, [[8], [9]], [[8], [9]])"
  by (simp add: run_defs cong: bind_weak let_weak_cong)

text \<open>Three turns: the second event is sent twice and the third not at all.\<close>

lemma exb_three: "outcome (exb_run ex_id (exb_config 1 None) 3) = Some (ET_OK, 3, [[8], [9], [7]], [[8], [9], [9]])"
  by (simp add: run_defs cong: bind_weak let_weak_cong)

text \<open>A swap that fails.\<close>

lemma exb_swap: "outcome (exb_run exb_id (exb_config 100 (Some no_swap)) 3) = Some (ET_OK, 0, [[8], [9], [7]], [])"
  by (simp add: run_defs cong: bind_weak let_weak_cong)

end
