(* ===== verification/Spec2Isabelle.thy ===== *)
theory Spec2Isabelle imports EtExampleOpen EtExampleBridge begin

text \<open>
  This development verifies the Event Transfer (ET) system of the Mx2 data acquisition, the C library under
  \<^verbatim>\<open>src/minervadaq/et_12.0/src/libsrc/\<close> that carries the events of the detector between processes.

  \<^bold>\<open>The program.\<close> An ET system is a piece of memory that several processes map. It holds a fixed number of events,
  a table of stations, a table of attachments and a table of processes. A station has an input list and an
  output list of events, each with its own mutex. A process attaches to a station, takes events from the input
  list (get, or new at GRAND\_CENTRAL, the station 0 where unused events live) and gives them to the output list
  (put) or directly back to GRAND\_CENTRAL (dump). For every station a thread of the ET process, its conductor,
  empties the output list and hands the events on to the input lists of the stations after it, as the
  configuration of each tells: all events or selected ones, every n-th of them, round-robin or by length of queue among parallel
  stations. Events that no station takes go back to GRAND\_CENTRAL. Another thread watches the hearts of the
  processes: it cleans up after a process that died, wherever it died, and gives its events back.

  The main promise of such a system is that no event is lost and none is in two places. It is the theorem
  \<open>system_one_place\<close>, an invariant of all steps of all processes and conductors in any order, with \<open>system_starts_sane\<close>
  for the start and \<open>monitor_turn_recovers\<close> for the processes that die.

  \<^bold>\<open>The model.\<close> A C structure is a record with the fields of the source and an array of shared memory is a function
  of the index; \<open>et_shm\<close> is the shared memory (\<open>sys\<close>, \<open>stats\<close>, \<open>events\<close>, \<open>histogram\<close>) and \<open>et_id\<close> a handle. A pointer to
  an event is its place in memory, so that sharing and aliasing are those of the code; the lists are linked
  through the headers of the events. C's \<^verbatim>\<open>int\<close> is \<^typ>\<open>int\<close>, the statistics are words of 64 bits and wrap, the
  heart beat and the control words are words of 32 bits. An operation of a process is a function from a state to \<^typ>\<open>(int \<times> et_shm) option\<close>:
  the integer is the return code of the source, \<open>None\<close> is a fault (NULL, an index outside an array, an abort) or a loop that never ends. What the operating system
  answers (\<^verbatim>\<open>calloc\<close>, \<^verbatim>\<open>munmap\<close>, the host name, temporary files) is in the \<open>env_\<close> fields of the handle, the answer of a remote
  system is the argument \<open>etr\<close> (\<open>etn\<close> for one that does not share mutexes), what other threads do while a call sleeps is the argument \<open>others\<close>, and what
  \<^verbatim>\<open>et_mutex_locked\<close> finds is \<open>busy\<close>. A critical section, from lock to unlock, is one step; a call that
  sleeps on a condition variable is a step that ends in \<open>Wait\<close> and a \<open>_wake\<close> definition for the rest.

  \<^bold>\<open>The theories\<close>, in the order of imports, with the files of the source they model:
  \<^item> \<open>EtDefs\<close> (constants of \<^verbatim>\<open>et.h\<close>, \<^verbatim>\<open>et_private.h\<close>), \<open>EtEvent\<close> (\<^verbatim>\<open>et_event.c\<close>, the event header and its accessors),
    \<open>EtStatConfig\<close> (\<^verbatim>\<open>et_statconfig.c\<close>), \<open>EtInit\<close> (the structures of \<^verbatim>\<open>et_private.h\<close>, \<^verbatim>\<open>et_init.c\<close>), \<open>EtSysConfig\<close> (\<^verbatim>\<open>et_sysconfig.c\<close>):
    data and configurations, with the round trips of the accessors and the ranges the setters keep.
  \<^item> \<open>EtList\<close> (chains of events and their abstraction \<open>list_repr\<close>), \<open>EtReadWrite\<close>, \<open>EtRead\<close>, \<open>EtTransfer\<close>, \<open>EtRestore\<close>
    (\<^verbatim>\<open>et_readwrite.c\<close>): every operation on an event list refines an operation on the list of its events, for writes \<open>ins_event\<close>, for
    reads \<open>take\<close> and \<open>drop\<close>, for recovered events \<open>restored\<close>.
  \<^item> \<open>EtStation\<close>, \<open>EtStationOps\<close>, \<open>EtStationConf\<close> (\<^verbatim>\<open>et_station.c\<close> and the locks): the list of stations with its groups,
    creation, removal, attach, detach, moves, and the configuration of a station in use.
  \<^item> \<open>EtSelect\<close>, \<open>EtShare\<close>, \<open>EtCue\<close>, \<open>EtConductor\<close>, \<open>EtConserve\<close>, \<open>EtPass\<close> (\<^verbatim>\<open>et_conductor\<close>, \<^verbatim>\<open>et_condition\<close>, \<^verbatim>\<open>shellSort\<close> of \<^verbatim>\<open>et_system.c\<close>):
    how a conductor chooses and deals events, and that a turn of it ends and conserves them.
  \<^item> \<open>EtEventOps\<close>, \<open>EtShmInv\<close>, \<open>EtPlaced\<close>, \<open>EtFlow\<close>, \<open>EtCalls\<close> (the calls of \<^verbatim>\<open>et_event.c\<close>): the invariant \<open>all_placed\<close> (every event
    in exactly one place) through new, get, put and dump. The locales \<open>shm_inv\<close> and \<open>shm_safe\<close> say what a call needs of an invariant of
    shared memory; they are interpreted on \<open>all_placed\<close> and on the frame of attachments.
  \<^item> \<open>EtAttachInv\<close>, \<open>EtDetach\<close>: the counts of attachments through attach and detach, and the recovery of events at a detach.
  \<^item> \<open>EtSystem\<close>: the step relation \<open>et_step\<close> with its reachable states, the locales \<open>sys_inv\<close> (operations keep an
    invariant) and \<open>step_system\<close> (steps keep it, so that reachable states have it), and their interpretations. \<open>EtStart\<close>
    (\<^verbatim>\<open>et_system_start\<close>) ends in such a state; \<open>EtWake\<close> (\<^verbatim>\<open>et_attachment.c\<close>) wakes up readers.
  \<^item> \<open>EtFix\<close>, \<open>EtFixInv\<close> (\<^verbatim>\<open>et_fix_*\<close> of \<^verbatim>\<open>et_system.c\<close>), \<open>EtRepair\<close>, \<open>EtCrash\<close> (\<^verbatim>\<open>et_repair_*\<close> of \<^verbatim>\<open>et_readwrite.c\<close>), \<open>EtMonitor\<close>, \<open>EtCleanup\<close>
    (\<^verbatim>\<open>et_sys_heartmonitor\<close>, \<^verbatim>\<open>et_system_close\<close>): crashes. A death inside the critical section of a read or a write is a prefix
    of the sequence of its assignments, which the repair turns into a list again; a clean-up restores
    stations, attachments and processes.
  \<^item> \<open>EtWire\<close>, \<open>EtData\<close>, \<open>EtDataView\<close> (\<^verbatim>\<open>et_data.c\<close>, \<^verbatim>\<open>et_data.h\<close>, the replies of \<^verbatim>\<open>et_server.c\<close> to \<^verbatim>\<open>ET_NET_SYS_DATA\<close> and \<^verbatim>\<open>ET_NET_SYS_HIST\<close>):
    words and texts as bytes, the packing and unpacking of the data on a system, and what a remote monitor sees of it.
  \<^item> \<open>EtOpenConfig\<close> (\<^verbatim>\<open>et_openconfig.c\<close>, the test for dotted-decimal addresses of \<^verbatim>\<open>etCommonNetwork.c\<close>), \<open>EtLocal\<close> (\<^verbatim>\<open>et_local.c\<close>,
    \<^verbatim>\<open>et_close\<close> and \<^verbatim>\<open>et_forcedclose\<close> of \<^verbatim>\<open>et_common.c\<close>), \<open>EtLocalInv\<close>, \<open>EtOpen\<close> (\<^verbatim>\<open>et_open\<close>, \<^verbatim>\<open>et_findlocality\<close>): a
    process opens, watches and closes a system. The table of processes is a set of process identifiers (\<open>pids\<close>) that an
    opening extends and a closing reduces; the threads of the process watch the heart of the system.
  \<^item> \<open>EtCodaSwap\<close> (\<^verbatim>\<open>et_CODAswap\<close> of \<^verbatim>\<open>et_network.c\<close>, \<^verbatim>\<open>et_event_CODAswap\<close>), \<open>EtBridge\<close> (\<^verbatim>\<open>et_bridge.c\<close>), \<open>EtHolds\<close>, \<open>EtBridgeInv\<close>: the
    transfer of events between two systems the process has mapped. The state is that of both systems, the data of their events, and a
    record of what was read and sent; the other processes are arbitrary functions on the two systems. Swapping is related to a
    datatype of banks (\<open>coda_ints\<close>), a transfer to the sequence of its turns (\<open>windows\<close>).
  \<^item> \<open>EtExample\<close>, \<open>EtExampleOpen\<close>, \<open>EtExampleBridge\<close>: the small systems of the witnesses; this theory: the properties.

  \<^bold>\<open>Fuel and bounds.\<close> A walk along the list of stations, or along a group of parallel ones, has the number of stations as fuel and
  one along a list of events the number of events: a list without repetitions is not longer, so only a cycle
  uses the fuel up, and the result \<open>None\<close> then says that the code never returns. The loop of equal cue has one round for
  each station, which \<open>equal_cue_levels\<close> shows to be enough; the loops of \<open>shellSort\<close> have measures. All properties that say
  that a call succeeds give the result as \<open>Some\<close>. The loops of a transfer and of \<open>et_CODAswap\<close> are partial functions, since they need not end: a bank of length -1
  is swapped for ever (\<open>CODAswap_never_ends\<close>), and a transfer in the mode \<^verbatim>\<open>ET_ASYNC\<close> asks again and again while GRAND\_CENTRAL has events but none of its group. The number of stations \<open>N\<close>, of events and of attachments are arbitrary.

  \<^bold>\<open>Assumptions that show.\<close> \<open>system_one_place\<close> is about calls whose events are distinct (the code does not check it), about local processes, and
  about stations in which round-robin is used only directly after the station that puts (otherwise an event may be dealt twice, \<open>round_robin_deals_twice\<close>) and
  detaches from stations whose restore mode is not \<^verbatim>\<open>REDIST\<close> (\<open>restore_loses_lasthigh\<close>). \<open>monitor_turn_recovers\<close> takes the mutexes to
  be free: the death was in none of the critical sections, those are \<open>read_crash_repaired\<close> and \<open>write_crash_repaired\<close>.

  \<^bold>\<open>Not modelled.\<close> The socket code and what runs over it (\<^verbatim>\<open>et_network.c\<close>, \<^verbatim>\<open>etCommonNetwork.c\<close>, most of \<^verbatim>\<open>et_server.c\<close>,
  \<^verbatim>\<open>et_remote.c\<close>, the transfers of \<^verbatim>\<open>et_bridge.c\<close> from and to a remote system) is input and output and marshalling; the mapping of files and the creation of
  threads and processes (\<^verbatim>\<open>et_mem.c\<close>) are left to the operating system, whose answers are in \<open>os_answers\<close>; log messages have
  no effect. \<^verbatim>\<open>et_conductorSerial\<close> is an earlier variant of the conductor between \<^verbatim>\<open>#if 0\<close> and \<^verbatim>\<open>#endif\<close>. The deaths inside a dump are not spelled out assignment by
  assignment. The Java interface, the example programs, the older ET 9.0, the copies of sqlite and of the CAEN library and the C++ programs of the acquisition are not part of the development.
\<close>

section \<open>The flow of events\<close>



text \<open>
  C2: a turn of a conductor returns, empties its station's output list, and every event of that list is
  afterwards in the input list of one station: none is lost and none is there twice.
\<close>

theorem conductor_turn_conserves:
  assumes "out_repr (events s) (list_out (stats s me)) all" "all \<noteq> []" "in_lists N s X"
    and "\<forall>p. count (total_in N X + mset all) p \<le> 1"
    and "int (size (total_in N X + mset all)) \<le> nevents_max s"
    and "prio_ok (events s) (set_mset (total_in N X + mset all))" "can_pass N me s"
  shows "\<exists>s' t X'. conductor_pass ufun me temps0 s = Some (Inr (s', t)) \<and>
    in_lists N s' X' \<and> total_in N X' = total_in N X + mset all \<and>
    out_repr (events s') (list_out (stats s' me)) [] \<and>
    events_out (list_out (stats s' me)) = events_out (list_out (stats s me)) + of_nat (length all)"
proof -
  obtain s' t where "conductor_pass ufun me temps0 s = Some (Inr (s', t))" "passed N me all X s s'"
    using conductor_pass_ok[OF assms(1-7)] by blast
  then show ?thesis unfolding passed_def by blast
qed

theorem conductor_turn_conserves_witness:
  "\<exists>s' t X'. conductor_pass (\<lambda>_ _. True) 1 False ex_shm = Some (Inr (s', t)) \<and> in_lists 3 s' X' \<and>
    total_in 3 X' = total_in 3 exX + mset [6, 7] \<and> out_repr (events s') (list_out (stats s' 1)) []"
  using conductor_turn_conserves[OF ex_turn, of "\<lambda>_ _. True" False] by blast

text \<open>
  The owner of an event can always put it: its station's output list has room, the call returns
  \<^verbatim>\<open>ET_OK\<close>, the event is the system's again and marked as used, and the put is counted.
\<close>

theorem put_returns_event:
  assumes "locality e = ET_LOCAL" "et_alive e \<noteq> 0" "all_placed N s" "stations_ok N s"
    and "0 \<le> att" "att < ET_ATTACHMENTS_MAX" "0 \<le> at_stat (attach (sys s) (nat att))"
    and "p < nat (nevents_max s)" "owner (events s p) = att" "ev_length (events s p) \<le> memsize (events s p)"
    and "temp (events s p) = ET_EVENT_TEMP \<longrightarrow> env_munmap e p"
  shows "\<exists>s'. et_event_put e etr att (Some p) s = Some (ET_OK, s') \<and> all_placed N s' \<and>
    owner (events s' p) = ET_SYS \<and> age (events s' p) = ET_EVENT_USED \<and>
    events_put (attach (sys s') (nat att)) = events_put (attach (sys s) (nat att)) + 1"
  by (rule et_event_put_ok[OF assms])

theorem put_returns_event_witness:
  "\<exists>s'. et_event_put ex_id (\<lambda>_. None) 0 (Some 5) ex_shm = Some (ET_OK, s') \<and> all_placed 3 s' \<and>
    owner (events s' 5) = ET_SYS"
  using put_returns_event[OF _ _ ex_all_placed, of ex_id 0 5 "\<lambda>_. None"] by auto

text \<open>
  C3: an array of events that belong to the caller, none of them twice, is put as a whole.
\<close>

theorem puts_return_events:
  assumes "locality e = ET_LOCAL" "et_alive e \<noteq> 0" "all_placed N s" "stations_ok N s"
    and "0 \<le> att" "att < ET_ATTACHMENTS_MAX" "0 \<le> at_stat (attach (sys s) (nat att))"
    and "belongs (nat att) pes s" "\<forall>p\<in>set pes. ev_length (events s p) \<le> memsize (events s p)"
    and "\<forall>p\<in>set pes. temp (events s p) = ET_EVENT_TEMP \<longrightarrow> env_munmap e p" "pes \<noteq> []"
  shows "\<exists>s'. et_events_put e etr att pes s = Some (ET_OK, s') \<and> all_placed N s' \<and>
    (\<forall>p\<in>set pes. owner (events s' p) = ET_SYS \<and> age (events s' p) = ET_EVENT_USED) \<and>
    events_put (attach (sys s') (nat att)) = events_put (attach (sys s) (nat att)) + of_nat (length pes)"
  by (rule et_events_put_ok[OF assms])

theorem puts_return_events_witness:
  "\<exists>s'. et_events_put ex_id (\<lambda>_. None) 0 [5, 4] ex_shm = Some (ET_OK, s') \<and> all_placed 3 s' \<and>
    owner (events s' 5) = ET_SYS \<and> owner (events s' 4) = ET_SYS"
  using puts_return_events[OF _ _ ex_all_placed, of ex_id 0 "[5, 4]" "\<lambda>_. None"] by (auto simp: belongs_def)

text \<open>
  C4: a put of an event of another owner, or of one longer than its memory, is rejected and changes
  nothing.
\<close>

theorem put_rejects_foreign:
  assumes "locality e = ET_LOCAL" "et_alive e \<noteq> 0" "p \<in> set pes"
    and "att < 0 \<or> ev_length (events s p) > memsize (events s p) \<or> owner (events s p) \<noteq> att"
  shows "et_event_put e etr att (Some p) s = Some (ET_ERROR, s) \<and> et_events_put e etr att pes s = Some (ET_ERROR, s)"
proof -
  have "pes \<noteq> []" using assms(3) by auto
  then show ?thesis using et_event_put_rejects[OF assms(1,2,4)] et_events_put_rejects[OF assms(1,2), of pes att s] assms(3,4)
    by blast
qed

theorem put_rejects_foreign_witness:
  "et_event_put ex_id (\<lambda>_. None) 0 (Some 3) ex_shm = Some (ET_ERROR, ex_shm) \<and>
   et_events_put ex_id (\<lambda>_. None) 0 [4, 3] ex_shm = Some (ET_ERROR, ex_shm)"
  using put_rejects_foreign[of ex_id 3 "[4, 3]" 0 ex_shm "\<lambda>_. None"] by simp

text \<open>
  C5: a get returns, in every mode, and when it succeeds the events it gives are different events
  that belong to the caller; all events stay in one place.
\<close>

theorem gets_give_own_events:
  assumes "locality e = ET_LOCAL" "all_placed N s" "stations_ok N s"
    and "att < ET_ATTACHMENTS_MAX" "0 \<le> at_stat (attach (sys s) (nat att))"
  shows "\<exists>r s'. et_events_get e etr att mode delta m s = Some (r, s') \<and> all_placed N s' \<and>
    (\<forall>pes. r = Done (ET_OK, pes) \<longrightarrow> distinct pes \<and> (\<forall>p\<in>set pes. owner (events s' p) = int (nat att)))"
  using et_events_get_ok[OF assms, of etr mode delta m] by (auto simp: gives_def belongs_def)

theorem gets_give_own_events_witness:
  "\<exists>s'. et_events_get ex_id (\<lambda>_. None) 0 ET_ASYNC False 5 ex_shm = Some (Done (ET_OK, [8, 9]), s') \<and>
    all_placed 3 s' \<and> owner (events s' 8) = 0 \<and> owner (events s' 9) = 0"
proof -
  obtain r s' where r: "et_events_get ex_id (\<lambda>_. None) 0 ET_ASYNC False 5 ex_shm = Some (r, s')" "all_placed 3 s'"
    "\<forall>pes. r = Done (ET_OK, pes) \<longrightarrow> distinct pes \<and> (\<forall>p\<in>set pes. owner (events s' p) = int (nat 0))"
    using gets_give_own_events[OF _ ex_all_placed, of ex_id 0 "\<lambda>_. None" ET_ASYNC False 5] by auto
  have "map_option fst (et_events_get ex_id (\<lambda>_. None) 0 ET_ASYNC False 5 ex_shm) = Some (Done (ET_OK, [8, 9]))"
    by code_simp
  then have "r = Done (ET_OK, [8, 9])" using r(1) by simp
  then show ?thesis using r by auto
qed

text \<open>
  The events a successful new gives are different events that belong to the caller, and all events
  stay in one place.
\<close>

theorem news_give_own_events:
  assumes "et_events_new e etr att mode delta sz m ws s = Some (Done (ET_OK, pes), s')"
    and "locality e = ET_LOCAL" "all_placed N s" "\<forall>pes. calm N (nat att) pes ws"
  shows "all_placed N s' \<and> distinct pes \<and> (\<forall>p\<in>set pes. owner (events s' p) = int (nat att))"
  using et_events_new_ok[OF assms(1-3)] assms(4) by (auto simp: belongs_def)

theorem news_give_own_events_witness:
  "\<exists>s'. et_events_new ex_id (\<lambda>_. None) 0 ET_ASYNC False 50 2 [] ex_shm = Some (Done (ET_OK, [0, 1]), s') \<and>
    all_placed 3 s' \<and> owner (events s' 0) = 0 \<and> owner (events s' 1) = 0"
proof -
  have "map_option fst (et_events_new ex_id (\<lambda>_. None) 0 ET_ASYNC False 50 2 [] ex_shm) = Some (Done (ET_OK, [0, 1]))"
    by code_simp
  then obtain s' where s: "et_events_new ex_id (\<lambda>_. None) 0 ET_ASYNC False 50 2 [] ex_shm = Some (Done (ET_OK, [0, 1]), s')"
    by auto
  show ?thesis using news_give_own_events[OF s _ ex_all_placed(1)] s by (auto simp: calm_def)
qed

text \<open>
  The owner of events can always dump them: GrandCentral's input list has room, and temporary
  events are taken off the count of the system.
\<close>

theorem dumps_return_events:
  assumes "locality e = ET_LOCAL" "et_alive e \<noteq> 0" "all_placed N s"
    and "0 \<le> att" "att < ET_ATTACHMENTS_MAX" "belongs (nat att) pes s" "pes \<noteq> []"
    and "\<forall>p\<in>set pes. temp (events s p) = ET_EVENT_TEMP \<longrightarrow> env_temp_remove e p"
  shows "\<exists>s'. et_events_dump e etr att pes s = Some (ET_OK, s') \<and> all_placed N s' \<and>
    (\<forall>p\<in>set pes. owner (events s' p) = ET_SYS) \<and>
    ntemps (sys s') = ntemps (sys s) - int (length (filter (\<lambda>p. temp (events s p) = ET_EVENT_TEMP) pes)) \<and>
    events_dump (attach (sys s') (nat att)) = events_dump (attach (sys s) (nat att)) + of_nat (length pes)"
  by (rule et_events_dump_ok[OF assms])

theorem dumps_return_events_witness:
  "\<exists>s'. et_events_dump ex_id (\<lambda>_. None) 0 [4, 5] ex_shm = Some (ET_OK, s') \<and> all_placed 3 s' \<and>
    owner (events s' 4) = ET_SYS \<and> ntemps (sys s') = 0"
  using dumps_return_events[OF _ _ ex_all_placed(1), of ex_id 0 "[4, 5]" "\<lambda>_. None"]
  by (auto simp: belongs_def ex_ntemps)

text \<open>
  A dump of an event of another owner is rejected and changes nothing.
\<close>

theorem dump_rejects_foreign:
  assumes "locality e = ET_LOCAL" "et_alive e \<noteq> 0" "owner (events s p) \<noteq> att" "p \<in> set pes"
  shows "et_event_dump e etr att (Some p) s = Some (ET_ERROR, s) \<and> et_events_dump e etr att pes s = Some (ET_ERROR, s)"
  using et_event_dump_rejects[OF assms(1-3)] assms(4) by blast

theorem dump_rejects_foreign_witness:
  "et_event_dump ex_id (\<lambda>_. None) 0 (Some 9) ex_shm = Some (ET_ERROR, ex_shm) \<and>
   et_events_dump ex_id (\<lambda>_. None) 0 [4, 9] ex_shm = Some (ET_ERROR, ex_shm)"
  using dump_rejects_foreign[of ex_id ex_shm 9 0 "[4, 9]" "\<lambda>_. None"] by simp


section \<open>The start of a system\<close>



text \<open>
  C7: the sizes of groups a program configures are the sizes it gets: after \<^verbatim>\<open>setevents\<close> with their sum and
  \<^verbatim>\<open>setgroups\<close>, the system that starts has in GRAND\_CENTRAL first the events of group 1, then those of group 2,
  and so on, as many of each as asked for.
\<close>

theorem groups_round_trip:
  assumes "et_system_config_init mem k ni = (ET_OK, Some sc0)"
    and "2 \<le> length g" "length g \<le> ET_EVENT_GROUPS_MAX" "\<forall>x\<in>set g. 1 \<le> x" "sum_list g \<le> 10 ^ 7"
    and "env_host e = Some hn" "env_calloc e 0" "locality e = ET_LOCAL"
  shows "\<exists>sc e' s. set_params [SetEvents (sum_list g), SetGroups (Some g) (int (length g))] sc0 = Some sc \<and>
    et_system_start e etr others sc = Some (ET_OK, e', Some s) \<and>
    list_repr (events s) (list_in (stats s 0)) [0..<nat (sum_list g)] \<and>
    map (\<lambda>p. ev_group (events s p)) [0..<nat (sum_list g)] = group_plan 0 g"
  using configured_groups[OF assms] by blast

theorem groups_round_trip_witness:
  "\<exists>sc e' s. set_params [SetEvents 500, SetGroups (Some [200, 300]) 2] default_sys_config = Some sc \<and>
    et_system_start ex_id (\<lambda>_. None) id sc = Some (ET_OK, e', Some s) \<and>
    map (\<lambda>p. ev_group (events s p)) [0..<500] = group_plan 0 [200, 300]"
  using groups_round_trip[OF default_sys_config_init, of "[200, 300]" ex_id "''h''" "\<lambda>_. None" id]
  by (auto simp: ex_host)



section \<open>Waking up a reader\<close>

text \<open>
  C9: a call to \<^verbatim>\<open>et_wakeup_attachment\<close> for an attachment that waits for events makes it return: the call
  signals the list of its station and the next wakening of its read returns \<^verbatim>\<open>ET_ERROR_WAKEUP\<close>, with no event
  taken, the flag withdrawn and the attachment no longer blocked.
\<close>

theorem wakeup_makes_reader_return:
  assumes "locality e = ET_LOCAL" "0 \<le> att" "att < c_nattachments (sys_config (sys s))"
    and "att < ET_ATTACHMENTS_MAX" "att_waits s (nat att)" "stat_ix s (nat att) = Some n" "n \<noteq> 0"
    and "blocked (attach (sys s) (nat att)) \<in> {ET_ATT_BLOCKED, ET_ATT_UNBLOCKED}"
    and "sleep (attach (sys s) (nat att)) \<in> {ET_ATT_SLEEP, ET_ATT_NOSLEEP}"
  shows "\<exists>s1 s2. et_wakeup_attachment e etr att s = Some (ET_OK, s1) \<and>
    cread (list_in (stats s1 n)) = cread (list_in (stats s n)) + 1 \<and>
    et_station_read_wake n mode (nat att) Signalled s1 = Some (Done (ET_ERROR_WAKEUP, []), s2) \<and> events s2 = events s \<and>
    quit (attach (sys s2) (nat att)) = ET_ATT_CONTINUE \<and> blocked (attach (sys s2) (nat att)) = ET_ATT_UNBLOCKED"
  using wakeup_then_return[OF assms] by blast

theorem wakeup_makes_reader_return_witness:
  "\<exists>s1 s2. et_wakeup_attachment ex_id (\<lambda>_. None) 0 ex_blocked = Some (ET_OK, s1) \<and>
    et_station_read_wake 1 ET_SLEEP 0 Signalled s1 = Some (Done (ET_ERROR_WAKEUP, []), s2)"
  using wakeup_makes_reader_return[of ex_id 0 ex_blocked 1 "\<lambda>_. None" ET_SLEEP] ex_blocked_waits
  by auto

text \<open>
  \<^verbatim>\<open>et_wakeup_all\<close> tells exactly the waiting attachments of the station to quit and leaves all events and
  lists as they are.
\<close>

theorem wakeup_all_tells_waiting:
  assumes "locality e = ET_LOCAL" "0 \<le> stat_id" "stat_id < c_nstations (sys_config (sys s))"
    and "\<forall>i. int i < c_nattachments (sys_config (sys s)) \<longrightarrow> st_att (st_data (stats s (nat stat_id))) i < ET_ATTACHMENTS_MAX"
  shows "\<exists>s'. et_wakeup_all e etr stat_id s = Some (ET_OK, s') \<and> quiet s s' \<and>
    (\<forall>a. quit (attach (sys s') a) =
      (if att_waits s a \<and> (\<exists>i. int i < c_nattachments (sys_config (sys s)) \<and> st_att (st_data (stats s (nat stat_id))) i = int a)
       then ET_ATT_QUIT else quit (attach (sys s) a)))"
  using wakeup_all_ok[OF assms] by blast

theorem wakeup_all_tells_waiting_witness:
  "\<exists>s'. et_wakeup_all ex_id (\<lambda>_. None) 1 ex_blocked = Some (ET_OK, s') \<and>
     quit (attach (sys s') 0) = ET_ATT_QUIT \<and> quit (attach (sys s') 1) = 0"
proof -
  have "\<exists>s'. et_wakeup_all ex_id (\<lambda>_. None) 1 ex_blocked = Some (ET_OK, s') \<and> quiet ex_blocked s' \<and>
    (\<forall>a. quit (attach (sys s') a) =
      (if att_waits ex_blocked a \<and> (\<exists>i. int i < c_nattachments (sys_config (sys ex_blocked)) \<and>
            st_att (st_data (stats ex_blocked (nat 1))) i = int a)
       then ET_ATT_QUIT else quit (attach (sys ex_blocked) a)))"
    by (rule wakeup_all_tells_waiting) (simp_all add: ex_blocked_waits)
  then show ?thesis using ex_blocked_waits ex_blocked_quit by (auto intro!: exI[of _ 0])
qed

section \<open>Processes that come and go\<close>

text \<open>
  C10: the wait for a system ends when a time-out is given. It fails only with a time-out, and then the heart of the
  system had not beaten since the call began.
\<close>

theorem wait_for_system_ends:
  assumes "timeout = Some (sec, nsec)" "(sec, nsec) \<noteq> (0, 0)"
  shows "\<exists>st e' s'. et_wait_for_system e responds others timeout s = Some (st, e', s') \<and>
    (st = ET_OK \<and> alive e' = 1 \<or> st = ET_ERROR_TIMEOUT \<and> e' = e \<and> heartbeat (sys s') = heartbeat (sys s))"
  using wait_ends[OF assms] .

theorem wait_for_system_ends_witness:
  "\<exists>s'. et_wait_for_system (ex_id\<lparr>alive := 0\<rparr>) False (\<lambda>_ s. s) (Some (0, ET_BEAT)) ex_shm =
    Some (ET_ERROR_TIMEOUT, ex_id\<lparr>alive := 0\<rparr>, s')"
proof -
  obtain st e' s' where w: "et_wait_for_system (ex_id\<lparr>alive := 0\<rparr>) False (\<lambda>_ s. s) (Some (0, ET_BEAT)) ex_shm = Some (st, e', s')"
    "st = ET_OK \<and> alive e' = 1 \<or> st = ET_ERROR_TIMEOUT \<and> e' = ex_id\<lparr>alive := 0\<rparr>"
    using wait_for_system_ends[of "Some (0, ET_BEAT)" 0 ET_BEAT "ex_id\<lparr>alive := 0\<rparr>" False "\<lambda>_ s. s" ex_shm] by auto
  have "st = ET_ERROR_TIMEOUT" using w(1) by (simp add: et_wait_for_system_def wait_beat.simps)
  then show ?thesis using w by auto
qed

text \<open>
  C11: to the table of processes the system is a set of process identifiers, and \<^verbatim>\<open>et_open\<close> adds the caller to the set or
  leaves it as it is: it is added when the call succeeds and the system is local. The numbers of
  the entries and their count stay right, whatever the network answers and wherever the call fails.
\<close>

theorem open_enters_process:
  assumes "table_ok s" "\<And>k t. same_procs t (others k t)" "\<And>k t. same_procs t (rest k t)" "elsewhere etr" "elsewhere etn"
    and "et_open mem share endian t found here dflt (\<lambda>e. etl_open e os others rest) etr etn filename oc s = Some (st, e', s')"
  shows "table_ok s' \<and> nprocesses (sys s') = int (card (pids s')) \<and>
    pids s' = (if st = ET_OK \<and> locality (the e') = ET_LOCAL then insert (env_pid t) (pids s) else pids s)"
  using et_open_ok[OF assms] processes_counted by blast

theorem open_enters_process_witness:
  "\<exists>e' s'. et_open True ET_MUTEX_SHARE ET_ENDIAN_LITTLE ex_id (\<lambda>_. (ET_ERROR, [])) (\<lambda>_. False) (et_open_config_init True None None)
      (\<lambda>e. etl_open e ex_os (\<lambda>_ t. t) (\<lambda>_ t. t)) (\<lambda>_ _ _. None) (\<lambda>_ _ _. None) (Some ''/tmp/et'') None ex_vacant = Some (ET_OK, Some e', s') \<and>
    pids s' = {1} \<and> nprocesses (sys s') = 1"
proof -
  obtain e' s' where o: "et_open True ET_MUTEX_SHARE ET_ENDIAN_LITTLE ex_id (\<lambda>_. (ET_ERROR, [])) (\<lambda>_. False)
      (et_open_config_init True None None) (\<lambda>e. etl_open e ex_os (\<lambda>_ t. t) (\<lambda>_ t. t)) (\<lambda>_ _ _. None) (\<lambda>_ _ _. None)
      (Some ''/tmp/et'') None ex_vacant = Some (ET_OK, Some e', s')" "locality e' = ET_LOCAL"
    using ex_opened by blast
  show ?thesis using open_enters_process[OF ex_vacant_table(1) _ _ _ _ o(1)] o ex_vacant_table(2) by (simp add: elsewhere_def ex_id_def)
qed

text \<open>
  C12: \<^verbatim>\<open>etl_close\<close> takes the process out of the set again and frees its entry, or changes nothing, because the system
  lives and the process still has attachments.
\<close>

theorem close_leaves_process:
  assumes "table_ok s" "id_proc e = int i" "i \<in> members s" "etl_close e others s = Some (st, s')"
  shows "if st = ET_OK then table_ok s' \<and> pids s' = pids s - {pr_pid (proc (sys s) i)} \<and> nprocesses (sys s') = nprocesses (sys s) - 1 \<and>
      life s' i = (ET_PROC_CLOSED, 0, - 1) \<and> (et_alive e \<noteq> 0 \<longrightarrow> attached_ids e s = [])
    else s' = s \<and> et_alive e \<noteq> 0 \<and> attached_ids e s \<noteq> []"
proof -
  have "card (pids s - {pr_pid (proc (sys s) i)}) = card (pids s) - 1 \<and> 0 < card (pids s)"
    using assms(3) by (auto simp: pids_def card_gt_0_iff)
  then show ?thesis using close_ok[OF assms] processes_counted[OF assms(1)] processes_counted[of s'] by (simp add: of_nat_diff)
qed

theorem close_leaves_process_witness:
  "\<exists>s'. etl_close ex_id (\<lambda>s. s) ex_member = Some (ET_ERROR, ex_member) \<and>
    etl_close (ex_id\<lparr>alive := 0\<rparr>) (\<lambda>s. s) ex_member = Some (ET_OK, s') \<and> pids s' = {}"
proof -
  obtain st s1 where c1: "etl_close ex_id (\<lambda>s. s) ex_member = Some (st, s1)" "st \<noteq> ET_OK" using ex_member_close(1) by auto
  obtain s2 where c2: "etl_close (ex_id\<lparr>alive := 0\<rparr>) (\<lambda>s. s) ex_member = Some (ET_OK, s2)" using ex_member_close(2) by blast
  have "st = ET_ERROR" "s1 = ex_member"
    using close_leaves_process[OF ex_member_table(1) _ _ c1(1), of 0] c1 ex_member_close(1) ex_member_table(2) by simp_all
  moreover have "pids s2 = {}"
    using close_leaves_process[OF ex_member_table(1) _ _ c2, of 0] ex_member_table ex_member_pid by simp
  ultimately show ?thesis using c1(1) c2 by blast
qed

text \<open>
  C13: a forced close of a process in a living system succeeds whatever attachments the process has: their events go
  back to the system, each event stays in one place, no other attachment is touched, and the
  process is out of the table.
\<close>

theorem forced_close_releases:
  assumes "locality e = ET_LOCAL" "et_alive e \<noteq> 0" "cleanup e \<noteq> 1" "id_proc e = int i"
    and "env_calloc e 0" "env_calloc e 1" "env_calloc e 2" "detachable N s" "table_ok s" "i \<in> members s"
    and "\<forall>j\<in>of_process s i. 0 \<le> at_stat (attach (sys s) j)"
  shows "\<exists>s'. et_forcedclose e det etr etn others s = Some (ET_OK, s') \<and> all_placed N s' \<and> released (of_process s i) s s' \<and>
    table_ok s' \<and> pids s' = pids s - {pr_pid (proc (sys s) i)} \<and> life s' i = (ET_PROC_CLOSED, 0, - 1)"
  using forced_close_ok[OF assms] unfolding sane_def by blast

theorem forced_close_releases_witness:
  "\<exists>s'. et_forcedclose ex_id (\<lambda>_. None) (\<lambda>_. None) (\<lambda>_. None) (\<lambda>s. s) ex_member = Some (ET_OK, s') \<and> pids s' = {} \<and>
    owner (events ex_member 4) = 0 \<and> owner (events s' 4) = ET_SYS"
proof -
  have e: "locality ex_id = ET_LOCAL" "et_alive ex_id \<noteq> 0" "cleanup ex_id \<noteq> 1" "id_proc ex_id = int 0"
    "env_calloc ex_id 0" "env_calloc ex_id 1" "env_calloc ex_id 2" by simp_all (simp_all add: ex_id_def)
  have m: "0 \<in> members ex_member" "\<forall>j\<in>of_process ex_member 0. 0 \<le> at_stat (attach (sys ex_member) j)"
    "nevents_max ex_member = 10" "owner (events ex_member 4) = 0"
    using ex_member_table by (simp_all add: ex_member_def)
  show ?thesis
    using forced_close_releases[OF e ex_member_detachable ex_member_table(1) m(1,2), of "\<lambda>_. None" "\<lambda>_. None" "\<lambda>_. None" "\<lambda>s. s"]
      ex_member_table ex_member_pid m(3,4) by (auto simp: released_def)
qed

text \<open>
  C14: when the heart of the system stands still, the turn of the monitor of a process marks the system as dead in the handle and in the
  table and tells exactly the waiting attachments of its own process to quit; no event moves.
\<close>

theorem heart_stop_tells_readers:
  assumes "locality e = ET_LOCAL" "c_nattachments (sys_config (sys s)) \<le> ET_ATTACHMENTS_MAX"
    and "\<forall>j\<in>of_process s (nat (id_proc e)). flags_ok s j"
  shows "\<exists>e' s'. et_heartmonitor etr busy off (False, heartbeat (sys s), e, s) = Some (True, heartbeat (sys s), e', s') \<and>
    et_alive e' = 0 \<and> et_status (proc (sys s') (nat (id_proc e))) = ET_PROC_ETDEAD \<and> events s' = events s \<and>
    (\<forall>j. quit (attach (sys s') j) =
      (if j \<in> of_process s (nat (id_proc e)) \<and> att_waits s j then ET_ATT_QUIT else quit (attach (sys s) j)))"
  using heart_stops[OF assms] .

theorem heart_stop_tells_readers_witness:
  "\<exists>e' s'. et_heartmonitor (\<lambda>_. None) (\<lambda>_ _. False) 0 (False, 0, ex_id, ex_reader) = Some (True, 0, e', s') \<and>
    et_alive e' = 0 \<and> quit (attach (sys s') 0) = ET_ATT_QUIT"
proof -
  have "\<exists>e' s'. et_heartmonitor (\<lambda>_. None) (\<lambda>_ _. False) 0 (False, heartbeat (sys ex_reader), ex_id, ex_reader) =
      Some (True, heartbeat (sys ex_reader), e', s') \<and>
    et_alive e' = 0 \<and> et_status (proc (sys s') (nat (id_proc ex_id))) = ET_PROC_ETDEAD \<and> events s' = events ex_reader \<and>
    (\<forall>j. quit (attach (sys s') j) =
      (if j \<in> of_process ex_reader (nat (id_proc ex_id)) \<and> att_waits ex_reader j then ET_ATT_QUIT else quit (attach (sys ex_reader) j)))"
    by (rule heart_stop_tells_readers) (simp_all add: ex_reader_facts)
  then show ?thesis by (auto simp: ex_reader_facts)
qed

text \<open>
  C15: the monitor kills living processes. It has seen a process beat, the process closes, another one opens the system and
  takes the entry, and at the monitor's next turn its heart has beaten as often as the other's had: the entry
  is closed as that of a dead process.
\<close>

theorem newborn_process_killed:
  assumes "locality em = ET_LOCAL" "int i < c_nprocesses (sys_config (sys s0))"
    and "et_sys_heartmonitor em etr busy (old, s0) = Some (old1, s1)" "fst (life s0 i) = ET_PROC_OPEN" "\<not> silent old s0 i"
    and "table_ok s1" "i \<in> members s1" "id_proc e1 = int i" "etl_close e1 threads s1 = Some (ET_OK, s2)"
    and "etl_open e2 os others rest oc s2 = Some (ET_OK, e3, s3)" "id_proc e3 = int i"
    and "pr_heartbeat (proc (sys s3) i) = pr_heartbeat (proc (sys s0) i)" "sys_config (sys s3) = sys_config (sys s0)"
    and "et_sys_heartmonitor em etr busy2 (old1, s3) = Some (old2, s4)"
  shows "fst (life s2 i) = ET_PROC_CLOSED \<and> fst (life s3 i) = ET_PROC_OPEN \<and> life s4 i = (ET_PROC_CLOSED, 0, - 1)"
  using reopened_entry_killed[OF assms(1-5) assms(10-14)] close_ok[OF assms(6,8,7) assms(9)] by simp

theorem newborn_process_killed_witness:
  "\<exists>s1 s2 e3 s3 old2 s4. etl_close ex_id (\<lambda>s. s) ex_beating = Some (ET_OK, s2) \<and>
    etl_open (ex_id\<lparr>env_pid := 2\<rparr>) ex_os (\<lambda>_ t. t) ex_beats ex_open_config s2 = Some (ET_OK, e3, s3) \<and>
    et_sys_heartmonitor ex_id (\<lambda>_. None) (\<lambda>_ _ _ _. False) ((\<lambda>_. 0)(0 := 3), s3) = Some (old2, s4) \<and>
    pr_heartbeat (proc (sys s3) 0) = 3 \<and> pr_status (proc (sys s3) 0) = ET_PROC_OPEN \<and> pr_status (proc (sys s4) 0) = ET_PROC_CLOSED"
proof -
  obtain s2 where s2: "etl_close ex_id (\<lambda>s. s) ex_beating = Some (ET_OK, s2)" "s2 = ex_closed" using ex_beating_close by blast
  obtain e3 s3 where s3: "etl_open (ex_id\<lparr>env_pid := 2\<rparr>) ex_os (\<lambda>_ t. t) ex_beats ex_open_config s2 = Some (ET_OK, e3, s3)"
    "id_proc e3 = 0" "pr_heartbeat (proc (sys s3) 0) = 3" "sys_config (sys s3) = sys_config (sys ex_shm)" "healthy 3 [0, 1] (\<lambda>n. [n]) s3"
    using ex_reopened s2(2) by blast
  obtain old2 s4 where s4: "et_sys_heartmonitor ex_id (\<lambda>_. None) (\<lambda>_ _ _ _. False) ((\<lambda>_. 0)(0 := 3), s3) = Some (old2, s4)"
    using monitor_turn_ok[OF _ _ _ _ _ _ s3(5), of ex_id "\<lambda>_ _ _ _. False" "\<lambda>_. None" "(\<lambda>_. 0)(0 := 3)"] ex_free by auto
  have "fst (life s2 0) = ET_PROC_CLOSED \<and> fst (life s3 0) = ET_PROC_OPEN \<and> life s4 0 = (ET_PROC_CLOSED, 0, - 1)"
    by (rule newborn_process_killed[OF _ _ ex_beating_turn _ _ ex_beating_table(1) _ _ s2(1) s3(1) _ _ _ s4])
      (use s3 ex_beating_facts ex_beating_table(2) in simp_all)
  then show ?thesis using s2(1) s3 s4 by (auto simp: life_def)
qed

section \<open>The data for a remote monitor\<close>

text \<open>
  C16: what a remote monitor unpacks is what the server packed: the view of the system, of the stations with their
  groups, of the attachments and of the processes, even when the state changes between the passes of the server
  (\<open>ss 0\<close> to \<open>ss 6\<close> are the states it finds); the client reads exactly the bytes of the reply.
\<close>

theorem monitor_data_round_trip:
  assumes "all_sendable e ss" "lists_ok (ss 1) ns0 gs0" "lists_ok (ss 2) ns gs"
  shows "\<exists>bs. send_sys_data e (\<lambda>_. True) ss = Some bs \<and>
    (\<forall>rest. et_data_get (\<lambda>_. True) (bs @ rest) = Some (Inr (all_view e ss (shown ns0 gs0) (shown ns gs))))"
  using exchange_ok[OF assms] .

theorem monitor_data_round_trip_witness:
  "\<exists>bs v. send_sys_data ex_id (\<lambda>_. True) (\<lambda>_. ex_shm) = Some bs \<and> et_data_get (\<lambda>_. True) bs = Some (Inr v) \<and>
    sd_nstations (all_sysdata v) = 2 \<and> map td_num (all_statdata v) = [0, 1]"
proof -
  obtain bs where bs: "send_sys_data ex_id (\<lambda>_. True) (\<lambda>_. ex_shm) = Some bs"
    "et_data_get (\<lambda>_. True) (bs @ []) = Some (Inr (all_view ex_id (\<lambda>_. ex_shm) (shown [0, 1] (\<lambda>n. [n])) (shown [0, 1] (\<lambda>n. [n]))))"
    using monitor_data_round_trip[OF ex_sendable ex_listed ex_listed] by blast
  then show ?thesis
    by (simp add: all_view_def sys_view_def stat_items_def stat_view_def shown_def shown_group_def Let_def)
qed

text \<open>
  The histogram arrives: a client whose array has the size of the histogram holds afterwards the numbers of the
  system in the byte order of its host, whatever the order of the bytes there.
\<close>

theorem histogram_arrives:
  assumes "\<forall>i. fits32 (histogram s i)" "0 \<le> id_nevents e" "id_nevents c = id_nevents e" "locality e \<noteq> ET_REMOTE"
    and "int (length old) = id_nevents e + 1"
  shows "\<exists>bs. send_histogram e s = Some bs \<and>
    (\<forall>rest. etr_data_gethistogram c (bs @ rest) old (id_nevents e + 1) = Some (ET_OK, map (histogram s) [0..<length old]))"
  using histogram_round_trip[OF assms] .

theorem histogram_arrives_witness:
  "\<exists>bs. send_histogram ex_id ex_shm = Some bs \<and>
    etr_data_gethistogram ex_id bs (replicate 11 7) 11 = Some (ET_OK, replicate 11 0)"
proof -
  have "\<exists>bs. send_histogram ex_id ex_shm = Some bs \<and> (\<forall>rest. etr_data_gethistogram ex_id (bs @ rest) (replicate 11 7) (id_nevents ex_id + 1) =
      Some (ET_OK, map (histogram ex_shm) [0..<length (replicate 11 (7 :: int))]))"
    by (rule histogram_arrives[OF ex_histogram]) (simp_all add: ex_id_def)
  moreover have "map (histogram ex_shm) [0..<11] = replicate 11 0" by (simp add: ex_shm_def map_replicate_const)
  moreover have "id_nevents ex_id = 10" by (simp add: ex_id_def)
  ultimately show ?thesis by (metis (no_types, lifting) append_Nil2 length_replicate numeral_plus_one semiring_norm(5) semiring_norm(2) semiring_norm(8))
qed

text \<open>
  C17: the buffer for the attachments is too small for the address of the interface: for the only attachment of a
  system, a long host name, station name and address are written past its end.
\<close>

theorem attachment_data_overflows:
  assumes "in_use_atts s = [i]" "att_bytes s i = Some b"
    and "length (host (attach (sys s) i)) + length (name (stats s (nat (at_stat (attach (sys s) i))))) +
         length (interface (attach (sys s) i)) > 301"
  shows "et_data_atts True s s = None"
  using atts_overflow[OF assms] .

theorem attachment_data_overflows_witness:
  "et_data_atts True ex_long ex_long = None \<and> length (host (attach (sys ex_long) 0)) < ET_MAXHOSTNAMELEN \<and>
    length (name (stats ex_long 1)) < ET_STATNAME_LENGTH \<and> length (interface (attach (sys ex_long) 0)) < ET_IPADDRSTRLEN"
proof -
  obtain b where "att_bytes ex_long 0 = Some b" using ex_long_in_use(2) by blast
  from attachment_data_overflows[OF ex_long_in_use(1) this] show ?thesis by (simp add: ex_long_def)
qed

text \<open>
  Whatever sequence of calls a program makes on an open configuration, with whatever values, the configuration
  stays well-formed: every number in its range, no multicast address twice and none too long.
\<close>

theorem open_calls_keep_type:
  assumes "et_open_config_init mem bc ni = (ET_OK, Some sc0)" "open_params cs sc0 = Some sc"
  shows "open_inv sc"
  using open_inv_params[OF open_inv_init[OF assms(1)] assms(2)] .

theorem open_calls_keep_type_witness:
  "\<exists>sc. open_params [OpenHost (Some ''.anywhere''), AddOpenMulticast (Some ''239.1.2.3''), RemoveOpenMulticast (Some ''224.0.0.1'')] ex_open_config = Some sc \<and>
    oc_mcastaddrs sc = [''239.1.2.3''] \<and> open_inv sc"
proof -
  obtain sc where sc: "open_params [OpenHost (Some ''.anywhere''), AddOpenMulticast (Some ''239.1.2.3''),
      RemoveOpenMulticast (Some ''224.0.0.1'')] ex_open_config = Some sc" "oc_mcastaddrs sc = [''239.1.2.3'']"
    using ex_open_calls by blast
  show ?thesis using open_calls_keep_type[OF ex_open_config_init sc(1)] sc by blast
qed

section \<open>From one system to another\<close>

text \<open>
  C18: moving events from one system to another keeps both of them sane, whatever its outcome: in each, every event is
  still in one place. Whatever the status, every event sent is a copy of one that was read, with its length, priority, byte
  order, control words and data, and their number is the one reported. The other processes may do to both systems what they
  like before each call, as long as they keep them sane and leave the events of the bridge alone.
\<close>

theorem bridge_keeps_systems:
  assumes "bridge_ok Nf Nt v" "both_sane Nf Nt b" "\<forall>c. bconfig = Some c \<longrightarrow> bc_func c = None"
    and "et_events_bridge r1 r2 mem v bconfig n b = Some (st, b')"
  shows "sane Nf (b_from b') \<and> sane Nt (b_to b') \<and>
    (\<exists>rs cs. b_read b' = b_read b @ rs \<and> b_sent b' = b_sent b @ cs \<and> total_put b' = int (length cs) \<and>
       (\<forall>c\<in>set cs. \<exists>r\<in>set rs. copied v r c))"
  using bridge_call[OF assms(1,4,2)] assms(3) by (auto simp: both_sane_def only_copies_def)

theorem bridge_keeps_systems_witness:
  "\<exists>b' rs cs. exb_run ex_id (exb_config 1 None) 2 = Some (ET_OK, b') \<and> sane 3 (b_from b') \<and> sane 3 (b_to b') \<and>
    b_read b' = rs \<and> b_sent b' = cs \<and> length cs = 2 \<and> (\<forall>c\<in>set cs. \<exists>r\<in>set rs. copied (exb_setting ex_id) r c)"
proof -
  obtain b' where b: "exb_run ex_id (exb_config 1 None) 2 = Some (ET_OK, b')" "total_put b' = 2"
    using outcome_Some[OF exb_two] by blast
  have "bc_func (exb_config 1 None) = None" by (simp add: exb_config_def)
  then show ?thesis
    using bridge_keeps_systems[OF exb_ok exb_sane _ b(1)[unfolded exb_run_def]] b by (auto simp: exb_def)
qed

text \<open>
  C19: what a successful transfer sends. \<open>rounds\<close> lists, for each call that read events, the events and the numbers of
  new events that the turns after it got. A turn copies the events from the place on that is the number of the turn before:
  with one turn or two the events are sent once each, in their order, and at least as many as asked for.
\<close>

theorem bridge_sends_read:
  assumes "bridge_ok Nf Nt v" "both_sane Nf Nt b" "\<forall>c. bconfig = Some c \<longrightarrow> bc_func c = None"
    and "et_events_bridge r1 r2 mem v bconfig n b = Some (ET_OK, b')"
  shows "\<exists>rounds cs. b_read b' = b_read b @ concat (map fst rounds) \<and> n \<le> int (length (concat (map fst rounds))) \<and>
    b_sent b' = b_sent b @ cs \<and> total_put b' = int (length cs) \<and>
    list_all2 (copied v) (concat (map (\<lambda>(rs, ns). map ((!) rs) (windows 0 ns)) rounds)) cs \<and>
    ((\<forall>(rs, ns)\<in>set rounds. length ns \<le> 2) \<longrightarrow> list_all2 (copied v) (concat (map fst rounds)) cs)"
proof -
  obtain rounds where r: "round_copies v rounds (b\<lparr>total_put := 0\<rparr>) b'" "n \<le> int (length (concat (map fst rounds)))"
    using bridge_call[OF assms(1,4,2)] assms(3) by blast
  then obtain cs where cs: "b_sent b' = b_sent b @ cs" "total_put b' = int (length cs)"
    "list_all2 (copied v) (concat (map (\<lambda>(rs, ns). map ((!) rs) (windows 0 ns)) rounds)) cs"
    by (auto simp: round_copies_def)
  have "b_read b' = b_read b @ concat (map fst rounds)" using r(1) by (simp add: round_copies_def)
  moreover have "list_all2 (copied v) (concat (map fst rounds)) cs" if "\<forall>(rs, ns)\<in>set rounds. length ns \<le> 2"
    using cs(3) unfolding round_copies_two[OF r(1) that] .
  ultimately show ?thesis using r(2) cs by blast
qed

theorem bridge_sends_read_witness:
  "\<exists>b' rounds cs. exb_run ex_id (exb_config 1 None) 2 = Some (ET_OK, b') \<and> b_read b' = concat (map fst rounds) \<and>
    b_sent b' = cs \<and> length cs = 2 \<and>
    list_all2 (copied (exb_setting ex_id)) (concat (map (\<lambda>(rs, ns). map ((!) rs) (windows 0 ns)) rounds)) cs"
proof -
  obtain b' where b: "exb_run ex_id (exb_config 1 None) 2 = Some (ET_OK, b')" "total_put b' = 2"
    using outcome_Some[OF exb_two] by blast
  have "bc_func (exb_config 1 None) = None" by (simp add: exb_config_def)
  then show ?thesis
    using bridge_sends_read[OF exb_ok exb_sane _ b(1)[unfolded exb_run_def]] b by (fastforce simp: exb_def)
qed


text \<open>
  C21: the data of an event in the format of CODA, any sequence of banks, are swapped into the other byte order and back:
  the call ends, the contents of each bank are swapped by their type, the header says so, and the second swap gives the
  event and its data again. What follows the banks in the buffer is left alone.
\<close>

theorem coda_swap_round_trip:
  assumes "banks_ok bs" "ev_length pe = word_of_nat (4 * length (coda_ints True bs))" "byteorder pe = 0x04030201"
  shows "et_event_CODAswap pe (coda_ints True bs @ r) =
      Some (ET_OK, pe\<lparr>byteorder := 0x01020304\<rparr>, coda_ints False bs @ r) \<and>
    et_event_CODAswap (pe\<lparr>byteorder := 0x01020304\<rparr>) (coda_ints False bs @ r) = Some (ET_OK, pe, coda_ints True bs @ r)"
  using event_CODAswap_ok[OF assms(1,2), of True r] assms(3)
    event_CODAswap_ok[OF assms(1), of "pe\<lparr>byteorder := 0x01020304\<rparr>" False r] assms(2) by simp

theorem coda_swap_round_trip_witness:
  "et_event_CODAswap (ex_event\<lparr>ev_length := 20\<rparr>) [4, 0x1001, 2, 0x0102, 0xCAFE] =
      Some (ET_OK, ex_event\<lparr>ev_length := 20, byteorder := 0x01020304\<rparr>, [0x04000000, 0x01100000, 0x02000000, 0x02010000, 0xFECA0000]) \<and>
   et_event_CODAswap (ex_event\<lparr>ev_length := 20, byteorder := 0x01020304\<rparr>) [0x04000000, 0x01100000, 0x02000000, 0x02010000, 0xFECA0000] =
      Some (ET_OK, ex_event\<lparr>ev_length := 20\<rparr>, [4, 0x1001, 2, 0x0102, 0xCAFE])"
proof -
  let ?bs = "[Banks 4 0x1001, Bank 0x0102 [0xCAFE]]"
  have d: "data_type 0x1001 = 16" "data_type 0x0102 = 1" "dtswap ! 1 = 2" by (simp_all add: data_type_def dtswap_def)
  have i: "coda_ints True ?bs = [4, 0x1001, 2, 0x0102, 0xCAFE]"
    "coda_ints False ?bs = [0x04000000, 0x01100000, 0x02000000, 0x02010000, 0xFECA0000]"
    using d by (simp_all add: swapped_def ET_SWAP32_def)
  have "banks_ok ?bs" using d by (simp add: banks_ok_def)
  then show ?thesis
    using coda_swap_round_trip[of ?bs "ex_event\<lparr>ev_length := 20\<rparr>" "[]"] unfolding i by (simp add: ex_event_def)
qed

text \<open>
  C22: the swap function for a bridge, between the data of two events. If the contents of every bank are of a type that
  is swapped the new event has the data in the other order. Contents that need no swap are not copied: the new event
  keeps what its memory held before.
\<close>

theorem bridge_swap_copies:
  assumes "banks_ok bs" "length (coda_ints True bs) \<le> length d"
  shows "et_bridge_CODAswap (host_bytes (coda_ints b bs @ r)) (host_bytes d) (4 * int (length (coda_ints True bs))) (of_bool b) =
      Some (ET_OK, host_bytes (merged (\<not> b) bs d @ drop (length (coda_ints True bs)) d)) \<and>
    ((\<forall>x\<in>set bs. swaps x) \<longrightarrow> merged (\<not> b) bs d = coda_ints (\<not> b) bs)"
  using bridge_CODAswap_ok[OF assms] merged_swaps by blast

theorem bridge_swap_copies_witness:
  "et_bridge_CODAswap (host_bytes [2, 0x0302, 0x61626364]) (host_bytes [0, 0, 0xDEAD, 5]) 12 1 =
    Some (ET_OK, host_bytes [0x02000000, 0x02030000, 0xDEAD, 5])"
proof -
  let ?bs = "[Bank 0x0302 [0x61626364]]"
  have d: "data_type 0x0302 = 3" "dtswap ! 3 = 0" by (simp_all add: data_type_def dtswap_def)
  have "coda_ints True ?bs = [2, 0x0302, 0x61626364]" "merged False ?bs [0, 0, 0xDEAD, 5] = [0x02000000, 0x02030000, 0xDEAD]"
    using d by (simp_all add: ET_SWAP32_def Let_def)
  moreover have "banks_ok ?bs" using d by (simp add: banks_ok_def)
  ultimately show ?thesis using bridge_swap_copies[of ?bs "[0, 0, 0xDEAD, 5]" True "[]"] by simp
qed

section \<open>Attachments that go\<close>

text \<open>
  C23: a detach returns, and from then on every event the attachment held is the system's again: each event is still
  in exactly one place, and no other attachment loses or gains one.
\<close>

theorem detach_returns_events:
  assumes "locality e = ET_LOCAL" "et_alive e \<noteq> 0" "all_placed N s" "stations_ok N s" "1 \<le> nevents_max s"
    and "0 \<le> att" "att < ET_ATTACHMENTS_MAX" "att < c_nattachments (sys_config (sys s))" "0 \<le> at_stat (attach (sys s) (nat att))"
    and "gives_back (stats s (nat (at_stat (attach (sys s) (nat att)))))"
    and "env_calloc e 0" "env_calloc e 1" "env_calloc e 2" "0 \<le> id_proc e \<or> id_proc e = ET_SYS \<or> cleanup e = 1"
  shows "\<exists>s'. et_station_detach e etr att s = Some (ET_OK, s') \<and> all_placed N s' \<and> stations_ok N s' \<and>
    (\<forall>r<nat (nevents_max s). owner (events s' r) = (if owner (events s r) = att then ET_SYS else owner (events s r)))"
  using detach_recovers[OF assms] by blast

theorem detach_returns_events_witness:
  "\<exists>s'. et_station_detach ex_id (\<lambda>_. None) 0 ex_shm = Some (ET_OK, s') \<and> all_placed 3 s' \<and>
    owner (events ex_shm 4) = 0 \<and> owner (events s' 4) = ET_SYS"
  using detach_returns_events[OF _ _ ex_all_placed, of ex_id 0 "\<lambda>_. None"] ex_dead_sane(3)[of 1]
  by auto



text \<open>
  C25: one turn of the heartbeat monitor returns; exactly the processes whose heart stood still since the last turn
  are closed, exactly the events their attachments held are given back, and the books are right after it.
\<close>

theorem monitor_turn_recovers:
  assumes "locality e = ET_LOCAL" "et_alive e \<noteq> 0" "env_calloc e 0" "env_calloc e 1" "env_calloc e 2"
    and "\<forall>i c l. \<not> et_mutex_locked (busy i c l)" "healthy N ns gs s"
  shows "\<exists>old' s'. et_sys_heartmonitor e etr busy (old, s) = Some (old', s') \<and> healthy N ns gs s' \<and>
    released (left_over old s {i. int i < c_nprocesses (sys_config (sys s))}) s s' \<and>
    (\<forall>i. int i < c_nprocesses (sys_config (sys s)) \<longrightarrow>
       life s' i = (if silent old s i then (ET_PROC_CLOSED, 0, - 1) else life s i))"
  using monitor_turn_ok[OF assms, of etr old] by simp

theorem monitor_turn_recovers_witness:
  "\<exists>old' s'. et_sys_heartmonitor ex_id (\<lambda>_. None) (\<lambda>_ _ _ _. False) (\<lambda>_. 0, ex_dead) = Some (old', s') \<and>
    life s' 0 = (ET_PROC_CLOSED, 0, - 1) \<and> owner (events s' 4) = ET_SYS \<and> owner (events s' 0) = owner (events ex_dead 0)"
proof -
  obtain old' s' where s': "et_sys_heartmonitor ex_id (\<lambda>_. None) (\<lambda>_ _ _ _. False) (\<lambda>_. 0, ex_dead) = Some (old', s')"
      "released {0} ex_dead s'" "life s' 0 = (ET_PROC_CLOSED, 0, - 1)"
    using monitor_turn_recovers[OF _ _ _ _ _ _ ex_dead_healthy, of ex_id "\<lambda>_ _ _ _. False" "\<lambda>_. None" "\<lambda>_. 0"]
      ex_free ex_dead_silent ex_dead_left by auto
  then show ?thesis by (auto simp: released_def)
qed



section \<open>Repair after a crash\<close>



text \<open>
  C28: wherever a process dies inside the critical section of a write, after any number of its assignments, the repair
  of the output list brings back a consistent list: it holds the old events and the first so many of the new ones, each
  behind the last event of its priority; the rest of the new events still belong to the dead process.
\<close>

theorem write_crash_repaired:
  assumes "out_repr h (list_out ps) xs" "\<forall>p\<in>set xs. owner (h p) = ET_SYS" "fout_start (fixout ps) = 0"
    and "pes \<noteq> []" "distinct pes" "set pes \<inter> set xs = {}" "prio_ok h (set pes)" "cursors h xs lst lh"
  shows "\<exists>ps' h'. et_repair_outputlist (run_steps (take k (write_steps pes (list_out ps) h lst lh)) (ps, h)) =
      Some (ET_OK, ps', h') \<and> repaired_write pes xs h (ps', h')"
  using write_death_repaired[OF assms(1,2,5,6,7,4,3,8)] by (simp add: repairs_to_def)

theorem write_crash_repaired_witness:
  "\<exists>ps' h'. et_repair_outputlist
      (run_steps (take 9 (write_steps [6, 7] (list_out (ex_station [] [0, 1, 2, 3] 1)) ex_sysheap 3 (Some 0)))
        (ex_station [] [0, 1, 2, 3] 1, ex_sysheap)) = Some (ET_OK, ps', h') \<and>
    repaired_write [6, 7] [0, 1, 2, 3] ex_sysheap (ps', h')"
  using write_crash_repaired[OF ex_write, of "[6, 7]" 3 "Some 0" 9] ex_cursors ex_sys_prio
  by (simp add: ex_sysheap_owner ex_station_def)

text \<open>
  From the forward links alone \<^verbatim>\<open>et_fix_linkedlist\<close> restores the lists of stations: all backward links, the
  links of parallel stations and the tail are right again, and nothing else changes.
\<close>

theorem linked_lists_repaired:
  assumes "fwd_layout s ns gs" "stat_head (sys s) = 0"
  shows "\<exists>s'. et_fix_linkedlist s = Some s' \<and> layout_repr s' ns gs \<and> same_but_links s s'"
  by (rule fix_linkedlist_ok[OF assms])

theorem linked_lists_repaired_witness:
  "\<exists>s'. et_fix_linkedlist ex_torn = Some s' \<and> layout_repr s' [0, 1] (\<lambda>n. [n]) \<and>
     st_prev (stats ex_torn 1) = - 1 \<and> stat_tail (sys ex_torn) = 0"
  using linked_lists_repaired[OF ex_torn_layout] ex_torn_simps by auto

text \<open>
  When a process dies while it attaches to a station, removing the half-made attachments and counting again
  restores the books of the attachments.
\<close>

theorem half_attached_repaired:
  assumes "half_attached s"
  shows "att_inv (et_fix_natts (et_fix_attachments s))"
  by (rule fix_attachments_natts_ok[OF assms])

theorem half_attached_repaired_witness:
  "att_inv (et_fix_natts (et_fix_attachments ex_half)) \<and> \<not> att_inv ex_half"
  using half_attached_repaired[OF ex_half_attached] ex_half_wrong by blast

text \<open>
  C29: \<^verbatim>\<open>et_fix_stations\<close> removes exactly the stations that are in no list, but its count of stations still has
  the removed ones in it.
\<close>

theorem unlisted_stations_removed:
  assumes "fwd_layout s ns gs" "\<forall>i. listed ns gs i \<longrightarrow> status (st_data (stats s i)) \<noteq> ET_STATION_CREATING"
    and "\<forall>i. in_use s i \<longrightarrow> num (stats s i) = int i"
  shows "\<exists>s'. et_fix_stations s = Some s' \<and> fwd_layout s' ns gs \<and>
    (\<forall>i. listed ns gs i \<longrightarrow> stats s' i = stats s i) \<and>
    (\<forall>i. 0 < i \<and> i < nat (c_nstations (sys_config (sys s))) \<and> \<not> listed ns gs i \<longrightarrow>
       status (st_data (stats s' i)) = ET_STATION_UNUSED) \<and>
    nstations (sys s') = 1 + int (length (filter (in_use s) [1..<nat (c_nstations (sys_config (sys s)))]))"
  by (rule fix_stations_ok[OF assms])

theorem unlisted_stations_removed_witness:
  "\<exists>s'. et_fix_stations ex_stray = Some s' \<and> status (st_data (stats s' 2)) = ET_STATION_UNUSED \<and>
     nstations (sys s') = 3"
proof -
  have u: "filter (in_use ex_stray) [1..<3] = [1, 2]" by (simp add: upt_rec ex_stray_in_use)
  show ?thesis using unlisted_stations_removed[OF ex_stray_layout ex_stray_facts] u ex_stray_simps
    by (auto simp: listed_def)
qed

text \<open>
  C30: the loop over the stations at the restart of a system initialises GRAND\_CENTRAL, which is in no list the
  search walks over, and examines no other station.
\<close>

theorem restart_wipes_grandcentral:
  assumes "fwd_layout s ns gs" "stat_head (sys s) = 0" "0 < k"
  shows "renew_stations k 0 s = Some (upd_station 0 et_init_station s)"
  by (rule renew_wipes_gc[OF assms])

theorem restart_wipes_grandcentral_witness:
  "renew_stations 3 0 ex_torn = Some (upd_station 0 et_init_station ex_torn) \<and>
   status (st_data (stats ex_torn 0)) = ET_STATION_ACTIVE"
  using restart_wipes_grandcentral[OF ex_torn_layout, of 3] ex_torn_simps by simp

section \<open>The lists of a station\<close>

text \<open>
  A write of one event into a station's output list that is not full returns
  \<^verbatim>\<open>ET_OK\<close>, puts the event behind the last event of its priority, gives it back to the system,
  unlocks and signals the list and leaves every other event alone.
\<close>

theorem station_write_refines:
  assumes "out_repr h (list_out ps) xs" "p \<notin> set xs" "int (length xs) < nmax" "prio_ok h {p}"
  shows "\<exists>ps' h'. et_station_write nmax p (ps, h) = Some (ET_OK, ps', h') \<and>
    out_written [p] xs (ps, h) (ps', h')"
  using et_station_write_ok[OF assms] .

theorem station_write_refines_witness:
  "(\<exists>ps' h'. et_station_write 10 6 (ex_station [] [0, 1, 2, 3] 1, ex_heap) = Some (ET_OK, ps', h') \<and>
    out_written [6] [0, 1, 2, 3] (ex_station [] [0, 1, 2, 3] 1, ex_heap) (ps', h')) \<and>
    ins_events ex_heap [6] [0, 1, 2, 3] = [0, 6, 1, 2, 3]"
  using station_write_refines[OF ex_out, of 6 10] by (simp add: ins_event_def)

text \<open>
  C31: a batch written by \<^verbatim>\<open>et_station_nwrite\<close> ends up in the output list exactly as
  if its events had been inserted one after the other by priority.
\<close>

theorem station_nwrite_refines:
  assumes "out_repr h (list_out ps) xs" "distinct pes" "set pes \<inter> set xs = {}"
    and "int (length xs) + int (length pes) \<le> nmax" "prio_ok h (set pes)" "pes \<noteq> []"
  shows "\<exists>ps' h'. et_station_nwrite nmax pes (ps, h) = Some (ET_OK, ps', h') \<and>
    out_written pes xs (ps, h) (ps', h')"
  using et_station_nwrite_ok[OF assms] .

theorem station_nwrite_refines_witness:
  "(\<exists>ps' h'. et_station_nwrite 10 [5, 6, 7] (ex_station [] [0, 1, 2, 3] 1, ex_heap) =
       Some (ET_OK, ps', h') \<and>
     out_written [5, 6, 7] [0, 1, 2, 3] (ex_station [] [0, 1, 2, 3] 1, ex_heap) (ps', h')) \<and>
   ins_events ex_heap [5, 6, 7] [0, 1, 2, 3] = [0, 6, 1, 2, 3, 5, 7]"
  using station_nwrite_refines[OF ex_out, of "[5, 6, 7]" 10] by (simp add: ins_event_def)

text \<open>
  C32: writing two events with one \<^verbatim>\<open>et_station_nwrite\<close> and writing them with two calls of
  \<^verbatim>\<open>et_station_write\<close> leave the same events in the same order in the output list.
\<close>

theorem nwrite_equals_writes:
  assumes "out_repr h (list_out ps) xs" "p \<noteq> q" "p \<notin> set xs" "q \<notin> set xs"
    and "int (length xs) + 2 \<le> nmax" "prio_ok h {p, q}"
  shows "\<exists>ps1 h1 ps2 h2 ps3 h3 zs. et_station_nwrite nmax [p, q] (ps, h) = Some (ET_OK, ps1, h1) \<and>
    et_station_write nmax p (ps, h) = Some (ET_OK, ps2, h2) \<and>
    et_station_write nmax q (ps2, h2) = Some (ET_OK, ps3, h3) \<and>
    out_repr h1 (list_out ps1) zs \<and> out_repr h3 (list_out ps3) zs"
  using two_writes[OF assms] .

theorem nwrite_equals_writes_witness:
  "\<exists>ps1 h1 ps2 h2 ps3 h3 zs.
    et_station_nwrite 6 [5, 6] (ex_station [] [0, 1, 2, 3] 1, ex_heap) = Some (ET_OK, ps1, h1) \<and>
    et_station_write 6 5 (ex_station [] [0, 1, 2, 3] 1, ex_heap) = Some (ET_OK, ps2, h2) \<and>
    et_station_write 6 6 (ps2, h2) = Some (ET_OK, ps3, h3) \<and>
    out_repr h1 (list_out ps1) zs \<and> out_repr h3 (list_out ps3) zs"
  using nwrite_equals_writes[OF ex_out, of 5 6 6] by simp

text \<open>
  C33: \<^verbatim>\<open>et_llist_write\<close> puts as many events of a batch as fit into an input list,
  each behind the events of its priority, and counts them in \<^verbatim>\<open>events_in\<close>.
\<close>

theorem llist_write_refines:
  assumes "list_repr h pl xs" "high_first h xs" "high_first h pe" "prio_ok h (set pe)"
    and "distinct (xs @ pe)" "pe \<noteq> []" "int (length xs) < nmax"
    and "k = min (length pe) (nat nmax - length xs)"
  shows "\<exists>h' pl'. et_llist_write nmax pe (h, pl) = Some (int k, h', pl') \<and>
    list_repr h' pl' (ins_events h (take k pe) xs) \<and>
    same_events h h' (set xs \<union> set pe) \<and> (\<forall>r. owner (h' r) = owner (h r)) \<and>
    pl' = pl\<lparr>firstevent := firstevent pl', lastevent := lastevent pl', cnt := cnt pl',
            events_in := events_in pl + of_nat k\<rparr>"
  using et_llist_write_ok[OF assms(1-7)] unfolding assms(8) .

theorem llist_write_refines_witness:
  "\<exists>h' pl'. et_llist_write 6 [6, 7, 8] (ex_heap, ex_list [0, 1, 2, 3] 0) = Some (2, h', pl') \<and>
    list_repr h' pl' [0, 6, 1, 2, 3, 7]"
  using llist_write_refines[OF ex_repr _ _ ex_prio, of "[6, 7, 8]" 6 2 0]
  by (auto simp: high_first_def ins_event_def)

text \<open>
  \<^verbatim>\<open>et_llist_write\<close> in GrandCentral's list appends the events in their order, without
  regard to priority, and does not touch their owners.
\<close>

theorem llist_write_gc_refines:
  assumes "list_repr h pl xs" "distinct (xs @ pes)" "pes \<noteq> []" "int (length xs) + int (length pes) \<le> nmax"
  shows "\<exists>h' pl'. et_llist_write_gc nmax pes (h, pl) = Some (ET_OK, h', pl') \<and>
    list_repr h' pl' (xs @ pes) \<and> (\<forall>r. owner (h' r) = owner (h r)) \<and>
    events_in pl' = events_in pl + of_nat (length pes)"
  using et_llist_write_gc_ok[OF assms] by blast

theorem llist_write_gc_refines_witness:
  "\<exists>h' pl'. et_llist_write_gc 10 [6, 5] (ex_heap, ex_list [0, 1, 2, 3] 0) = Some (ET_OK, h', pl') \<and>
    list_repr h' pl' [0, 1, 2, 3, 6, 5]"
  using llist_write_gc_refines[OF ex_repr, of "[6, 5]" 10 0] by auto

text \<open>
  \<^verbatim>\<open>et_llist_read\<close> hands over all events of a list in their order, leaves the list
  empty and counts the events as gone out.
\<close>

theorem llist_read_takes_all:
  assumes "list_repr h pl xs" "xs \<noteq> []"
  shows "\<exists>pl'. et_llist_read h pl = Some (int (length xs), xs, pl') \<and> out_repr h pl' [] \<and>
    events_out pl' = events_out pl + of_nat (length xs) \<and> mutex pl' = mutex pl"
  using et_llist_read_ok[OF assms] by blast

theorem llist_read_takes_all_witness:
  "\<exists>pl'. et_llist_read ex_heap (ex_list [0, 1, 2, 3] 1) = Some (4, [0, 1, 2, 3], pl') \<and> out_repr ex_heap pl' []"
  using llist_read_takes_all[OF ex_repr, of 1] by auto

text \<open>
  The body of \<^verbatim>\<open>et_station_nread\<close> takes as many events as asked for, or all there are,
  from the front of the input list, in their order, and makes the attachment their owner.
\<close>

theorem nread_takes_front:
  assumes "list_repr h (list_in ps) xs" "xs \<noteq> []" "1 \<le> n"
  shows "\<exists>ps' h'. read_many att n (ps, h) = Some (Done (ET_OK, take (nat n) xs), ps', h') \<and>
    taken att (take (nat n) xs) (drop (nat n) xs) (ps, h) (ps', h')"
  by (rule read_many_ok[OF assms])

theorem nread_takes_front_witness:
  "\<exists>ps' h'. read_many 3 2 (ex_station [0, 1, 2, 3] [] 0, ex_heap) = Some (Done (ET_OK, [0, 1]), ps', h') \<and>
    taken 3 [0, 1] [2, 3] (ex_station [0, 1, 2, 3] [] 0, ex_heap) (ps', h')"
  using nread_takes_front[OF ex_in, of 2 3] by simp

text \<open>
  \<^verbatim>\<open>et_station_nread_group\<close> takes the first events of the group asked for, at most the
  number asked for, and leaves the other events in the list in their order.
\<close>

theorem nread_group_takes_group:
  assumes "list_repr h (list_in ps) xs" "xs \<noteq> []" "1 \<le> m" "filter (\<lambda>p. ev_group (h p) = g) xs \<noteq> []"
    and "ys = take (nat m) (filter (\<lambda>p. ev_group (h p) = g) xs)"
  shows "\<exists>ps' h'. read_group att mode m g (ps, h) = Some (Done (ET_OK, ys), ps', h') \<and>
    taken att ys (filter (\<lambda>p. p \<notin> set ys) xs) (ps, h) (ps', h')"
proof -
  have "keep_rest (\<lambda>p. ev_group (h p) = g) (nat m) xs = filter (\<lambda>p. p \<notin> set ys) xs"
    unfolding assms(5) by (rule keep_rest_filter[OF list_reprD(3)[OF assms(1)]])
  then show ?thesis using read_group_ok[OF assms(1-3) refl, of att mode g] assms(4,5) by simp
qed

theorem nread_group_takes_group_witness:
  "\<exists>ps' h'. read_group 3 ET_SLEEP 1 1 (ex_station [0, 1, 2, 3] [] 0, ex_heap) = Some (Done (ET_OK, [1]), ps', h') \<and>
    taken 3 [1] [0, 2, 3] (ex_station [0, 1, 2, 3] [] 0, ex_heap) (ps', h')"
  using nread_group_takes_group[OF ex_in, of 1 1 "[1]" 3 ET_SLEEP "[]" 0] by (simp add: ex_group)

text \<open>
  C34: \<^verbatim>\<open>et_restore\<close> puts the events of a lost attachment in front of the events of their
  priority, as many as fit, and wakes a reader.
\<close>

theorem restore_goes_in_front:
  assumes "list_repr h pl xs" "high_first h xs" "high_first h pe" "pe \<noteq> []" "distinct (xs @ pe)"
    and "prio_ok h (set pe)" "int (length xs) < nmax" "k = min (length pe) (nat nmax - length xs)"
  shows "\<exists>h' pl'. et_restore nmax pe (h, pl) = Some (ET_OK, Some (int k), h', pl') \<and>
    list_repr h' pl' (restored h (take k pe) xs) \<and>
    (\<forall>r. owner (h' r) = (if r \<in> set (take k pe) then ET_SYS else owner (h r))) \<and>
    \<not> mutex pl' \<and> cread pl' = Suc (cread pl)"
  using et_restore_ok[OF assms(1-7)] unfolding assms(8) by blast

theorem restore_goes_in_front_witness:
  "\<exists>h' pl'. et_restore 10 [6, 7] (ex_heap, ex_list [0, 1, 2, 3] 1) = Some (ET_OK, Some 2, h', pl') \<and>
    list_repr h' pl' [6, 0, 7, 1, 2, 3] \<and> owner (h' 6) = ET_SYS"
proof -
  have r: "restored ex_heap (take 2 [6, 7]) [0, 1, 2, 3] = [6, 0, 7, 1, 2, 3]" by (simp add: restored_def)
  have "high_first ex_heap [0, 1, 2, 3]" "high_first ex_heap [6, 7]" by (simp_all add: high_first_def)
  from restore_goes_in_front[OF ex_repr this _ _ ex_prio, of 10 2 1] show ?thesis unfolding r by auto
qed

text \<open>
  C35: restoring events with a high priority one among them into an output list leaves the chain of events right but
  not the list's pointer to its last high priority event, so that the output list is no longer a proper one.
\<close>

theorem restore_loses_lasthigh:
  assumes "out_repr h pl xs" "high_first h pe" "distinct (xs @ pe)" "prio_ok h (set pe)"
    and "int (length xs) + int (length pe) \<le> nmax" "p \<in> set pe" "high h p"
  shows "\<exists>h' pl'. et_restore nmax pe (h, pl) = Some (ET_OK, Some (int (length pe)), h', pl') \<and>
    list_repr h' pl' (restored h pe xs) \<and> \<not> out_repr h' pl' (restored h pe xs)"
  by (rule et_restore_lasthigh[OF assms])

theorem restore_loses_lasthigh_witness:
  "\<exists>h' pl'. et_restore 10 [0] (ex_sysheap, list_out (ex_station [] [1, 2, 3] 0)) = Some (ET_OK, Some 1, h', pl') \<and>
    \<not> out_repr h' pl' (restored ex_sysheap [0] [1, 2, 3])"
  using restore_loses_lasthigh[OF ex_write_low, of "[0]" 10 0] ex_sys_prio[of "{0}"] ex_first_high by auto

text \<open>
  Full lists are refused with \<^verbatim>\<open>ET_ERROR\<close>, unlocked and unchanged: a write to a full
  output list and a restore to a full list.
\<close>

theorem full_list_refused:
  "cnt (list_out ps) \<ge> nmax \<Longrightarrow> et_station_write nmax p (ps, h) =
      Some (ET_ERROR, ps\<lparr>list_out := et_llist_unlock (list_out ps)\<rparr>, h) \<and>
    et_restore nmax pes (h, list_out ps) = Some (ET_ERROR, None, h, et_llist_unlock (list_out ps))"
  using et_station_write_full et_restore_full by blast

theorem full_list_refused_witness:
  "et_station_write 4 6 (ex_station [] [0, 1, 2, 3] 1, ex_heap) =
      Some (ET_ERROR, ex_station [] [0, 1, 2, 3] 1, ex_heap)"
  using full_list_refused[of 4 "ex_station [] [0, 1, 2, 3] 1" 6 ex_heap "[]"]
  by (simp add: ex_defs et_llist_unlock_def)

text \<open>
  \<^verbatim>\<open>et_station_dump\<close> of one event counts it in \<^verbatim>\<open>events_in\<close> of GrandCentral's list,
  \<^verbatim>\<open>et_station_ndump\<close> of an array counts none of its events.
\<close>

theorem ndump_is_not_counted:
  assumes "list_repr h (list_in ps) xs" "distinct (xs @ pes)" "pes = [p]" "int (length xs) < nmax"
  shows "\<exists>ps1 h1 ps2 h2. et_station_dump nmax p (ps, h) = Some (ET_OK, ps1, h1) \<and>
    et_station_ndump nmax pes (ps, h) = Some (ET_OK, ps2, h2) \<and>
    list_repr h1 (list_in ps1) (xs @ [p]) \<and> list_repr h2 (list_in ps2) (xs @ [p]) \<and>
    events_in (list_in ps1) = events_in (list_in ps) + 1 \<and> events_in (list_in ps2) = events_in (list_in ps)"
proof -
  have "distinct (xs @ [p])" "pes \<noteq> []" "int (length xs) + int (length pes) \<le> nmax" using assms(2-4) by auto
  then show ?thesis
    using et_station_dump_ok[OF assms(1), of p nmax] et_station_ndump_ok[OF assms(1,2), of nmax] assms(3,4)
    by (fastforce simp: dumped_def)
qed

theorem ndump_is_not_counted_witness:
  "\<exists>ps1 h1 ps2 h2. et_station_dump 10 7 (ex_station [0, 1, 2, 3] [] 0, ex_heap) = Some (ET_OK, ps1, h1) \<and>
    et_station_ndump 10 [7] (ex_station [0, 1, 2, 3] [] 0, ex_heap) = Some (ET_OK, ps2, h2) \<and>
    events_in (list_in ps1) = 1 \<and> events_in (list_in ps2) = 0"
  using ndump_is_not_counted[OF ex_in, of "[7]" 7 10 "[]" 0]
  by (fastforce simp: ex_station_def ex_list_def)

section \<open>How a conductor shares out its events\<close>

text \<open>
  A blocking station with a prescale gets every \<^verbatim>\<open>prescale\<close>-th of the events that satisfy its
  selection and are not yet put, counted over all turns by \<^verbatim>\<open>events_try\<close>.
\<close>

theorem prescale_takes_every_nth:
  assumes "take_prescaled sel pre all put t = (ps, put', t')"
  shows "ps = every_nth pre t (filter sel (unput all put)) \<and>
    t' = t + of_nat (length (filter sel (unput all put)))"
  using take_prescaled_events[OF assms] .

theorem prescale_takes_every_nth_witness:
  "every_nth 2 1 (filter (\<lambda>p. p \<noteq> 12) (unput [10, 11, 12, 13, 14] [True, False, False, False, False])) = [13]"
proof -
  have "take_prescaled (\<lambda>p. p \<noteq> 12) 2 [10, 11, 12, 13, 14] [True, False, False, False, False] 1 =
      ([13], [True, False, False, True, False], 4)" by simp
  from prescale_takes_every_nth[OF this] show ?thesis by simp
qed

text \<open>
  The predefined selection of an event accepts it if an even word of the station's selection words
  equals the event's control word, or an odd one has a bit in common with it; words of -1 are ignored.
\<close>

theorem condition_matches_words:
  "et_condition s n pe \<longleftrightarrow> (let sel = sc_select (config (stats s n)) in
     (\<exists>i\<in>{0, 2, 4}. sel ! i \<noteq> - 1 \<and> sel ! i = control pe ! i) \<or>
     (\<exists>i\<in>{1, 3, 5}. sel ! i \<noteq> - 1 \<and> sel ! i AND control pe ! i \<noteq> 0))"
  by (rule et_condition_iff)

text \<open>
  C36: round-robin hands every event to exactly one of the parallel stations, each station gets its
  events in their order, and the numbers of events differ by at most one.
\<close>

theorem round_robin_deals_all:
  assumes "0 < n"
  shows "rr_first es (rr_shares (int (length es)) n) = concat (map (rr_hand es n) [0..<n]) \<and>
    mset (rr_first es (rr_shares (int (length es)) n)) = mset es \<and>
    (\<forall>i<n. subseq (rr_hand es n i) es \<and> length (rr_hand es n i) \<in> {length es div n, length es div n + 1})"
proof -
  have "length (rr_hand es n i) \<in> {length es div n, length es div n + 1}" if "i < n" for i
    using rr_shares_fair(1)[OF assms, of "int (length es)" "rr_shares (int (length es)) n ! i"] that
    by (auto simp: rr_hand_length nat_add_distrib zdiv_int[symmetric])
  then show ?thesis using rr_first_hands[of es n] mset_rr_hands[OF assms] subseq_rr_hand by simp
qed

theorem round_robin_deals_all_witness:
  "mset (rr_first [20, 21, 22, 23, 24] (rr_shares 5 2)) = mset [20, 21, 22, 23, 24] \<and>
   rr_hand [20, 21, 22, 23, 24] 2 0 = [20, 22, 24] \<and> rr_hand [20, 21, 22, 23, 24] 2 1 = [21, 23]"
proof -
  have length_5: "int (length [20, 21, 22, 23, 24 :: nat]) = 5" by simp
  have "mset (rr_first [20, 21, 22, 23, 24] (rr_shares 5 2)) = mset [20, 21, 22, 23, 24]"
    using round_robin_deals_all[of 2 "[20, 21, 22, 23, 24]"] by (metis length_5 zero_less_numeral)
  moreover have "rr_hand [20, 21, 22, 23, 24] 2 0 = [20, 22, 24]" "rr_hand [20, 21, 22, 23, 24] 2 1 = [21, 23]"
    by code_simp+
  ultimately show ?thesis by blast
qed


text \<open>
  C38: equal cue always ends, gives out exactly the events that are left, no station a negative number,
  and a station that gets events has afterwards at most one event more in its cue than any other.
\<close>

theorem equal_cue_levels:
  assumes "counts \<noteq> []" "0 \<le> left"
  shows "\<exists>r. eq_shares left counts = Some r \<and> length r = length counts \<and> sum_list r = left \<and>
    (\<forall>i<length counts. 0 \<le> r ! i \<and> (0 < r ! i \<longrightarrow>
      (\<forall>j<length counts. counts ! i + r ! i \<le> counts ! j + r ! j + 1)))"
  using eq_shares_ok[OF assms] .

theorem equal_cue_levels_witness:
  "\<exists>r. eq_shares 5 [3, 0, 7] = Some r \<and> sum_list r = 5 \<and> r = [1, 4, 0]"
proof -
  obtain r where "eq_shares 5 [3, 0, 7] = Some r" "sum_list r = 5" using equal_cue_levels[of "[3, 0, 7]" 5] by auto
  moreover have "eq_shares 5 [3, 0, 7] = Some [1, 4, 0]" by code_simp
  ultimately show ?thesis by simp
qed

text \<open>
  \<^verbatim>\<open>shellSort\<close> ends with the pairs sorted by their first component and keeps all pairs.
\<close>

theorem shell_sort_sorts:
  "sorted_wrt (\<lambda>x y. fst x \<le> fst y) (shellSort xs) \<and> mset (shellSort xs) = mset xs"
  using shellSort_sorted shellSort_mset by blast

section \<open>The lists of stations\<close>

text \<open>
  Inserting a station that is in no list puts it at the position asked for, or at the end when there
  is no such position, and changes nothing but the links.
\<close>

theorem station_insert_places:
  assumes "main_repr s ns" "n \<notin> set ns" "station_ok s n" "st_next (stats s n) < 0"
    and "nstations (sys s) < 3 \<Longrightarrow> ns = [0]"
    and "1 \<le> pos \<Longrightarrow> pos < int (length ns) \<Longrightarrow>
      flow_mode (config (stats s n)) = ET_STATION_PARALLEL \<Longrightarrow>
      flow_mode (config (stats s (ns ! nat pos))) = ET_STATION_PARALLEL \<Longrightarrow> ppos = ET_NEWHEAD"
  shows "\<exists>s'. station_insert n pos ppos s = Some (ET_OK, s') \<and>
    main_repr s' (insert_pos pos n ns) \<and> same_but_links s s'"
  using station_insert_main[OF assms] .

theorem station_insert_places_witness:
  "\<exists>s'. station_insert 2 1 ET_END ex_two = Some (ET_OK, s') \<and> main_repr s' [0, 2, 1]"
  using station_insert_places[OF ex_main_two, of 2 1 ET_END]
  by (auto simp: ex_two_def station_ok_def default_config_def insert_pos_def)

text \<open>
  Removing a station that is not GrandCentral and has no parallel partner takes it out of the main
  list and changes nothing but the links.
\<close>

theorem station_remove_unlinks:
  assumes "main_repr s ns" "n \<in> set ns" "n \<noteq> 0"
    and "flow_mode (config (stats s n)) = ET_STATION_PARALLEL \<Longrightarrow> nextparallel (stats s n) < 0"
  shows "\<exists>s'. station_remove n s = Some s' \<and> main_repr s' (remove1 n ns) \<and> same_but_links s s'"
  using station_remove_serial[OF assms] .

theorem station_remove_unlinks_witness:
  "\<exists>s'. station_remove 1 ex_shm = Some s' \<and> main_repr s' [0]"
  using station_remove_unlinks[OF ex_main, of 1] by (auto simp: default_config_def)

text \<open>
  \<^verbatim>\<open>station_find\<close> returns the position of a station in the main list and its position in
  its group of parallel stations.
\<close>

theorem station_find_position:
  assumes "layout_repr s ns gs" "i < length ns" "j < length (gs (ns ! i))" "nstations (sys s) \<ge> 2" "0 < i"
  shows "station_find (gs (ns ! i) ! j) s = Some (ET_OK, Some (int i, int j))"
  using station_find_ok[OF assms] .

theorem station_find_position_witness:
  "station_find 1 ex_shm = Some (ET_OK, Some (1, 0))"
  using station_find_position[OF ex_layout, of 1 0] by simp


section \<open>Attachments\<close>

text \<open>
  C40: attaching to and detaching from stations keep the books: the system and every station count
  exactly the attachments in the table, and every attachment belongs to an existing station.
\<close>

theorem attach_detach_keep_books:
  assumes "att_inv s" "locality e = ET_LOCAL"
  shows "(et_station_attach e etr stat_id s = Some ((ET_OK, Some a), s1) \<longrightarrow> att_inv s1) \<and>
    (et_station_detach e etd att s = Some (ET_OK, s2) \<longrightarrow> active s (nat att) \<longrightarrow> att_inv s2)"
  using attach_inv detach_inv assms by blast

theorem attach_detach_keep_books_witness:
  "(\<exists>s. et_station_attach ex_id (\<lambda>_. None) 1 ex_shm = Some ((ET_OK, Some 1), s) \<and> att_inv s) \<and>
   (\<exists>s. et_station_detach ex_id (\<lambda>_. None) 0 ex_shm = Some (ET_OK, s) \<and> att_inv s)"
  using attach_detach_keep_books[OF ex_att_inv(1), of ex_id] ex_attach ex_detach
  by (fastforce simp: active_def)

text \<open>
  A successful attach stays within the limits: never more attachments than the system allows, and
  never more than the station's \<^verbatim>\<open>user_mode\<close> allows.
\<close>

theorem attach_respects_limits:
  assumes "et_station_attach e etr stat_id s = Some ((ET_OK, Some a), s')" "locality e = ET_LOCAL" "att_limits s"
  shows "att_limits s' \<and> a < c_nattachments (sys_config (sys s'))"
proof -
  have "a < c_nattachments (sys_config (sys s'))"
    using attach_joined[OF assms(1,2)] by (auto simp: joined_def)
  then show ?thesis using attach_limits[OF assms] by blast
qed

theorem attach_respects_limits_witness:
  "\<exists>s. et_station_attach ex_id (\<lambda>_. None) 1 ex_shm = Some ((ET_OK, Some 1), s) \<and> att_limits s"
proof -
  obtain s where "et_station_attach ex_id (\<lambda>_. None) 1 ex_shm = Some ((ET_OK, Some 1), s)" using ex_attach by blast
  then show ?thesis using attach_respects_limits[of ex_id "\<lambda>_. None" 1 ex_shm 1 s] ex_att_inv(2) by auto
qed

section \<open>Configurations\<close>

text \<open>
  The configuration setters keep every field in its range, whatever value they are given.
\<close>

theorem config_setters_keep_type:
  assumes "config_fields c"
  shows "config_fields (snd (et_station_config_setblock c v)) \<and> config_fields (snd (et_station_config_setflow c v)) \<and>
    config_fields (snd (et_station_config_setselect c v)) \<and> config_fields (snd (et_station_config_setuser c v)) \<and>
    config_fields (snd (et_station_config_setrestore c v)) \<and> config_fields (snd (et_station_config_setcue c v)) \<and>
    config_fields (snd (et_station_config_setprescale c v)) \<and>
    config_fields (snd (et_station_config_setselectwords c ws)) \<and>
    config_fields (snd (et_station_config_setfunction c str)) \<and>
    config_fields (snd (et_station_config_setlib c str)) \<and> config_fields (snd (et_station_config_setclass c str))"
  by (intro conjI config_fields_setters assms)

theorem config_setters_keep_type_witness:
  "config_fields (snd (et_station_config_setprescale default_config (- 3)))"
  using config_setters_keep_type[OF config_fields_default, of "- 3"] by blast

text \<open>
  Stations whose configurations pass the comparison for parallel stations form classes: the comparison
  is reflexive, symmetric and transitive.
\<close>

theorem parallel_compare_equivalence:
  "et_station_compare_parallel c c = 1 \<and> et_station_compare_parallel c d = et_station_compare_parallel d c \<and>
   (et_station_compare_parallel c d = 1 \<longrightarrow> et_station_compare_parallel d f = 1 \<longrightarrow>
    et_station_compare_parallel c f = 1)"
  using compare_parallel_refl compare_parallel_sym compare_parallel_trans by blast

theorem parallel_compare_equivalence_witness:
  "et_station_compare_parallel default_config (default_config\<lparr>cue := 3\<rparr>) = 1"
proof -
  have "et_station_compare_parallel (default_config\<lparr>cue := 3\<rparr>) default_config = 1" by code_simp
  then show ?thesis using parallel_compare_equivalence[of default_config "default_config\<lparr>cue := 3\<rparr>" default_config] by simp
qed

text \<open>
  The calls that change a running station's prescale, cue, selection words and restore mode keep all
  configurations acceptable to \<^verbatim>\<open>et_station_config_check\<close>.
\<close>

theorem live_setters_keep_configs:
  assumes "configs_ok s" "locality e = ET_LOCAL"
  shows "(et_station_setprescale e etr i pre s = Some (st, s') \<longrightarrow> configs_ok s') \<and>
    (et_station_setcue e etr i cu s = Some (st, s') \<longrightarrow> configs_ok s') \<and>
    (et_station_setselectwords e etr i sel s = Some (st, s') \<longrightarrow> configs_ok s') \<and>
    (et_station_setrestore e etr i rs s = Some (st, s') \<longrightarrow> configs_ok s')"
  using configs_ok_setters[OF assms] by blast

theorem live_setters_keep_configs_witness:
  "\<exists>s'. et_station_setcue ex_id (\<lambda>_. None) 1 4 ex_shm = Some (ET_OK, s') \<and> configs_ok s'"
proof -
  have "map_option fst (et_station_setcue ex_id (\<lambda>_. None) 1 4 ex_shm) = Some ET_OK" by code_simp
  then obtain s' where "et_station_setcue ex_id (\<lambda>_. None) 1 4 ex_shm = Some (ET_OK, s')" by auto
  then show ?thesis using live_setters_keep_configs[OF ex_configs, of ex_id] by auto
qed

section \<open>Events\<close>

text \<open>
  No routine for an event's header makes its data longer than its memory.
\<close>

theorem event_fits_memory:
  assumes "event_fits pe"
  shows "event_fits (snd (et_event_setpriority pe pri)) \<and> event_fits (snd (et_event_setlength pe len)) \<and>
    event_fits (snd (et_event_setcontrol pe con k)) \<and> event_fits (snd (et_event_setdatastatus pe st)) \<and>
    event_fits (snd (et_event_setendian lbo pe endian))"
  using event_fits_setters[OF assms] by blast

theorem event_fits_memory_witness:
  "event_fits (snd (et_event_setlength ex_event (- 1))) \<and> et_event_setlength ex_event 101 = (ET_ERROR, ex_event)"
proof -
  have "event_fits ex_event" by (simp add: event_fits_def ex_event_def)
  then show ?thesis using event_fits_memory[of ex_event _ "- 1"]
    by (auto simp: et_event_setlength_def ex_event_def)
qed

text \<open>
  The byte order a program sets is the one it reads back, and switching it twice restores the event.
\<close>

theorem endian_round_trip:
  assumes "my \<in> {ET_ENDIAN_BIG, ET_ENDIAN_LITTLE}" "endian \<in> {ET_ENDIAN_BIG, ET_ENDIAN_LITTLE}"
  shows "et_event_getendian (ET_OK, my) (snd (et_event_setendian (ET_OK, my) pe endian)) True = (ET_OK, Some endian) \<and>
    snd (et_event_setendian (ET_OK, my)
      (snd (et_event_setendian (ET_OK, my) pe ET_ENDIAN_SWITCH)) ET_ENDIAN_SWITCH) = pe"
  using setendian_getendian[OF assms] setendian_switch_twice by blast

theorem endian_round_trip_witness:
  "et_event_getendian (ET_OK, ET_ENDIAN_LITTLE)
     (snd (et_event_setendian (ET_OK, ET_ENDIAN_LITTLE) ex_event ET_ENDIAN_BIG)) True = (ET_OK, Some ET_ENDIAN_BIG)"
  using endian_round_trip[of ET_ENDIAN_LITTLE ET_ENDIAN_BIG ex_event] by simp

end
